(* ===== verification/Prelude.thy ===== *)
theory Prelude
  imports Main "HOL-Library.Word" "HOL-Library.Monad_Syntax"
begin

text \<open>
  Shared vocabulary of the development: bytes and C++ strings, machine integers at their
  width, a heap of nodes indexed by addresses, and the reading of undefined behaviour as
  the value \<open>None\<close> of an option. The collections \<open>heap_simps\<close> (reads and writes of the
  heap) and \<open>wire_simps\<close> (what a serializer appends, what a parser consumes) are filled by
  the component theories.
\<close>

unbundle bit_operations_syntax

named_theorems heap_simps "evaluation of heap reads and writes"
named_theorems wire_simps "bytes appended by serializers and consumed by parsers"

section \<open>Machine integers and strings\<close>

type_synonym byte = "8 word"
type_synonym u16 = "16 word"
type_synonym u32 = "32 word"
type_synonym u64 = "64 word"

text \<open>A \<open>std::string\<close> is its bytes; \<open>size_t\<close> is 64 bits wide.\<close>

type_synonym bstring = "byte list"
type_synonym size_t = "64 word"

lemma unat_ucast_up:
  "LENGTH('a) \<le> LENGTH('b) \<Longrightarrow> unat (ucast (x :: 'a::len word) :: 'b::len word) = unat x"
  by (simp add: unsigned_ucast_eq take_bit_nat_eq_self order_less_le_trans [OF unsigned_less])

lemma unat_ucast_up32 [simp]: "unat (ucast (x :: u32) :: u64) = unat x"
  by (simp add: unat_ucast_up)

lemma unat_ucast_up16 [simp]: "unat (ucast (x :: u16) :: u64) = unat x"
  by (simp add: unat_ucast_up)

lemma unat_of_nat_lt: "n < 2 ^ LENGTH('a) \<Longrightarrow> unat (of_nat n :: 'a::len word) = n"
  by (simp add: unat_of_nat take_bit_eq_mod)

section \<open>Undefined behaviour and the heap\<close>

text \<open>
  Operations of the model return an option. \<open>None\<close> is undefined behaviour of the C++ code
  (a null or dangling dereference, an index out of range, a read past the end of a buffer, a
  failed assertion) or a loop that never returns. A heap maps addresses to nodes; the address
  0 is \<open>nullptr\<close>, which is never mapped to a node by a read.
\<close>

type_synonym ptr = nat
type_synonym 'n heap = "ptr \<rightharpoonup> 'n"

abbreviation (input) nullptr :: ptr where "nullptr \<equiv> 0"

definition deref :: "'n heap \<Rightarrow> ptr \<Rightarrow> 'n option" where
  "deref h p = (if p = nullptr then None else h p)"

definition store :: "'n heap \<Rightarrow> ptr \<Rightarrow> ('n \<Rightarrow> 'n) \<Rightarrow> 'n heap option" where
  "store h p f = (case deref h p of None \<Rightarrow> None | Some n \<Rightarrow> Some (h(p \<mapsto> f n)))"

lemma deref_null [heap_simps, simp]: "deref h nullptr = None"
  by (simp add: deref_def)

lemma deref_nonnull [heap_simps]: "p \<noteq> nullptr \<Longrightarrow> deref h p = h p"
  by (simp add: deref_def)

lemma store_nonnull [heap_simps]:
  "p \<noteq> nullptr \<Longrightarrow> h p = Some n \<Longrightarrow> store h p f = Some (h(p \<mapsto> f n))"
  by (simp add: store_def deref_def)

lemma store_None [heap_simps]: "deref h p = None \<Longrightarrow> store h p f = None"
  by (simp add: store_def)

lemma deref_upd_other: "q \<noteq> p \<Longrightarrow> deref (h(p \<mapsto> n)) q = deref h q"
  by (simp add: deref_def)

text \<open>What an operation on a set of nodes promises for all other nodes.\<close>

definition same_outside :: "ptr set \<Rightarrow> 'v heap \<Rightarrow> 'v heap \<Rightarrow> bool" where
  "same_outside A h h' \<longleftrightarrow> (\<forall>a. a \<notin> A \<longrightarrow> h' a = h a)"

lemma same_outsideI: "(\<And>a. a \<notin> A \<Longrightarrow> h' a = h a) \<Longrightarrow> same_outside A h h'"
  by (simp add: same_outside_def)

lemma same_outside_refl [simp]: "same_outside A h h"
  by (simp add: same_outside_def)

lemma same_outside_trans:
  "same_outside A h h' \<Longrightarrow> same_outside B h' h'' \<Longrightarrow> same_outside (A \<union> B) h h''"
  by (simp add: same_outside_def)

lemma same_outside_mono: "same_outside A h h' \<Longrightarrow> A \<subseteq> B \<Longrightarrow> same_outside B h h'"
  by (auto simp: same_outside_def)

text \<open>An allocator that does not fail returns, for the current heap, an address that is not in use.\<close>

definition allocates :: "('n heap \<Rightarrow> ptr) \<Rightarrow> bool" where
  "allocates alloc \<longleftrightarrow> (\<forall>h. finite (dom h) \<longrightarrow> alloc h \<noteq> nullptr \<and> h (alloc h) = None)"

definition next_address :: "'n heap \<Rightarrow> ptr" where
  "next_address h = Suc (Max (insert 0 (dom h)))"

lemma next_address_allocates: "allocates (next_address :: 'n heap \<Rightarrow> ptr)"
proof -
  have "h (next_address h) = None" if "finite (dom h)" for h :: "'n heap"
  proof (rule ccontr)
    assume "h (next_address h) \<noteq> None"
    then have "next_address h \<in> insert 0 (dom h)" by auto
    then have "next_address h \<le> Max (insert 0 (dom h))" using that by (intro Max_ge) auto
    then show False by (simp add: next_address_def)
  qed
  then show ?thesis unfolding allocates_def by (simp add: next_address_def)
qed

section \<open>Lists\<close>

text \<open>\<open>std::vector::resize\<close>: keep the first \<open>n\<close> elements, pad with default ones.\<close>

definition resize :: "nat \<Rightarrow> 'a \<Rightarrow> 'a list \<Rightarrow> 'a list" where
  "resize n d xs = take n xs @ replicate (n - length xs) d"

lemma length_resize [simp]: "length (resize n d xs) = n"
  by (simp add: resize_def)

lemma resize_Nil [simp]: "resize n d [] = replicate n d"
  by (simp add: resize_def)

lemma resize_0 [simp]: "resize 0 d xs = []"
  by (simp add: resize_def)

end
