(* ===== verification/Kanon.thy ===== *)
theory Kanon
  imports Prelude
begin

text \<open>
  The third-party code the protocol layer calls, as parameters: the varint codec
  (\<open>third-party/kvarint\<close>), the byte buffers of \<open>third-party/kanon\<close> and the hash functions
  of \<open>xxHash\<close>. None of it is part of the repository (the submodule directories are empty), so
  each is a record of functions passed to every definition that uses it, and what the code
  relies on is stated by the predicates \<open>kvarint_spec\<close> and \<open>kanon_buffer\<close>.
\<close>

section \<open>kvarint\<close>

text \<open>
  \<open>kvarint_decodeN(buf, size, &len, &out)\<close> returns a code; \<open>len\<close> and \<open>out\<close> are set on
  \<open>KVARINT_OK\<close>.
\<close>

datatype 'w kvarint_result =
    KVARINT_OK nat 'w
  | KVARINT_DECODE_BUF_INVALID
  | KVARINT_DECODE_BUF_SHORT

record kvarint =
  kvarint_encode8 :: "byte \<Rightarrow> byte list"
  kvarint_encode16 :: "u16 \<Rightarrow> byte list"
  kvarint_encode32 :: "u32 \<Rightarrow> byte list"
  kvarint_encode64 :: "u64 \<Rightarrow> byte list"
  kvarint_encode64s :: "u64 \<Rightarrow> byte list"
  kvarint_decode8 :: "byte list \<Rightarrow> byte kvarint_result"
  kvarint_decode16 :: "byte list \<Rightarrow> u16 kvarint_result"
  kvarint_decode32 :: "byte list \<Rightarrow> u32 kvarint_result"
  kvarint_decode64 :: "byte list \<Rightarrow> u64 kvarint_result"
  kvarint_decode64s :: "byte list \<Rightarrow> u64 kvarint_result"

text \<open>
  What a decoder promises: it reads no byte past the ones it reports, its verdict does not
  change when more bytes follow, and a success consumes at least one byte.
\<close>

definition decoder_ok :: "(byte list \<Rightarrow> 'w kvarint_result) \<Rightarrow> bool" where
  "decoder_ok dec \<longleftrightarrow>
     (\<forall>xs n v. dec xs = KVARINT_OK n v \<longrightarrow> 0 < n \<and> n \<le> length xs \<and> n \<le> 10)
   \<and> (\<forall>xs ys n v. dec xs = KVARINT_OK n v \<longrightarrow> dec (xs @ ys) = KVARINT_OK n v)
   \<and> (\<forall>xs ys. dec xs = KVARINT_DECODE_BUF_INVALID \<longrightarrow>
        dec (xs @ ys) = KVARINT_DECODE_BUF_INVALID)"

text \<open>
  Decoding what was encoded gives the value back, whatever follows. The varint format has no
  width of its own, so a value written at 16 or 32 bits is read back at 64 bits: the parsers
  of \<open>mmbp_util.h\<close> rely on that (lengths are written as \<open>uint16_t\<close> or \<open>uint32_t\<close> and
  read into a \<open>size_t\<close>).
\<close>

definition decodes :: "(byte list \<Rightarrow> 'w kvarint_result) \<Rightarrow> byte list \<Rightarrow> 'w \<Rightarrow> bool" where
  "decodes dec bs v \<longleftrightarrow> (\<forall>rest. dec (bs @ rest) = KVARINT_OK (length bs) v)"

definition kvarint_spec :: "kvarint \<Rightarrow> bool" where
  "kvarint_spec K \<longleftrightarrow>
     (\<forall>x. decodes (kvarint_decode8 K) (kvarint_encode8 K x) x)
   \<and> (\<forall>x. decodes (kvarint_decode16 K) (kvarint_encode16 K x) x)
   \<and> (\<forall>x. decodes (kvarint_decode32 K) (kvarint_encode32 K x) x)
   \<and> (\<forall>x. decodes (kvarint_decode64 K) (kvarint_encode64 K x) x)
   \<and> (\<forall>x. decodes (kvarint_decode64s K) (kvarint_encode64s K x) x)
   \<and> (\<forall>x. decodes (kvarint_decode64 K) (kvarint_encode16 K x) (ucast x))
   \<and> (\<forall>x. decodes (kvarint_decode64 K) (kvarint_encode32 K x) (ucast x))
   \<and> decoder_ok (kvarint_decode8 K) \<and> decoder_ok (kvarint_decode16 K)
   \<and> decoder_ok (kvarint_decode32 K) \<and> decoder_ok (kvarint_decode64 K)
   \<and> decoder_ok (kvarint_decode64s K)"

lemma decodesD: "decodes dec bs v \<Longrightarrow> dec (bs @ rest) = KVARINT_OK (length bs) v"
  by (simp add: decodes_def)

lemma kvarint_specD:
  assumes "kvarint_spec K"
  shows "decodes (kvarint_decode8 K) (kvarint_encode8 K b) b"
    and "decodes (kvarint_decode16 K) (kvarint_encode16 K x) x"
    and "decodes (kvarint_decode32 K) (kvarint_encode32 K y) y"
    and "decodes (kvarint_decode64 K) (kvarint_encode64 K z) z"
    and "decodes (kvarint_decode64s K) (kvarint_encode64s K z) z"
    and "decodes (kvarint_decode64 K) (kvarint_encode16 K x) (ucast x)"
    and "decodes (kvarint_decode64 K) (kvarint_encode32 K y) (ucast y)"
  using assms by (simp_all add: kvarint_spec_def)

lemma decoder_okD:
  assumes "decoder_ok dec" and "dec xs = KVARINT_OK n v"
  shows "0 < n" and "n \<le> length xs" and "n \<le> 10" and "dec (xs @ ys) = KVARINT_OK n v"
  using assms by (auto simp: decoder_ok_def)

section \<open>kanon::Buffer and kanon::ChunkList\<close>

text \<open>
  \<open>readable\<close> is the byte range \<open>[GetReadBegin(), GetReadBegin() + GetReadableSize())\<close>. The
  fixed-width operations use the network byte order; \<open>net32\<close> and \<open>net64\<close> are the bytes they
  write.
\<close>

record 'b buffer_ops =
  readable :: "'b \<Rightarrow> byte list"
  AdvanceRead :: "nat \<Rightarrow> 'b \<Rightarrow> 'b"
  AdvanceAll :: "'b \<Rightarrow> 'b"
  Append :: "byte list \<Rightarrow> 'b \<Rightarrow> 'b"
  Prepend :: "byte list \<Rightarrow> 'b \<Rightarrow> 'b"
  net16 :: "u16 \<Rightarrow> byte list"
  net32 :: "u32 \<Rightarrow> byte list"
  net64 :: "u64 \<Rightarrow> byte list"
  host32 :: "byte list \<Rightarrow> u32"
  host64 :: "byte list \<Rightarrow> u64"

definition kanon_buffer :: "'b buffer_ops \<Rightarrow> bool" where
  "kanon_buffer B \<longleftrightarrow>
     (\<forall>n b. n \<le> length (readable B b) \<longrightarrow> readable B (AdvanceRead B n b) = drop n (readable B b))
   \<and> (\<forall>b. readable B (AdvanceAll B b) = [])
   \<and> (\<forall>xs b. readable B (Append B xs b) = readable B b @ xs)
   \<and> (\<forall>xs b. readable B (Prepend B xs b) = xs @ readable B b)
   \<and> (\<forall>x. length (net16 B x) = 2)
   \<and> (\<forall>x. length (net32 B x) = 4 \<and> host32 B (net32 B x) = x)
   \<and> (\<forall>x. length (net64 B x) = 8 \<and> host64 B (net64 B x) = x)"

lemma kanon_bufferD [wire_simps]:
  assumes "kanon_buffer B"
  shows "n \<le> length (readable B b) \<Longrightarrow> readable B (AdvanceRead B n b) = drop n (readable B b)"
    and "readable B (AdvanceAll B b) = []"
    and "readable B (Append B xs b) = readable B b @ xs"
    and "readable B (Prepend B xs b) = xs @ readable B b"
    and "length (net16 B w) = 2"
    and "length (net32 B x) = 4" and "host32 B (net32 B x) = x"
    and "length (net64 B y) = 8" and "host64 B (net64 B y) = y"
  using assms by (simp_all add: kanon_buffer_def)

text \<open>
  Reading a fixed-width integer from the front: \<open>Read64()\<close> and the byte-order conversions
  read 8 or 4 bytes, which is undefined when fewer are readable.
\<close>

definition peek_bytes :: "'b buffer_ops \<Rightarrow> nat \<Rightarrow> 'b \<Rightarrow> byte list option" where
  "peek_bytes B n buffer =
     (if n \<le> length (readable B buffer) then Some (take n (readable B buffer)) else None)"

definition Read64 :: "'b buffer_ops \<Rightarrow> 'b \<Rightarrow> (u64 \<times> 'b) option" where
  "Read64 B buffer = do {
     bs \<leftarrow> peek_bytes B 8 buffer;
     Some (host64 B bs, AdvanceRead B 8 buffer) }"

definition Append64 :: "'b buffer_ops \<Rightarrow> u64 \<Rightarrow> 'b \<Rightarrow> 'b" where
  "Append64 B x buffer = Append B (net64 B x) buffer"

definition Append32 :: "'b buffer_ops \<Rightarrow> u32 \<Rightarrow> 'b \<Rightarrow> 'b" where
  "Append32 B x buffer = Append B (net32 B x) buffer"

lemma peek_bytes_append [wire_simps]:
  "readable B b = xs @ ys \<Longrightarrow> length xs = n \<Longrightarrow> peek_bytes B n b = Some xs"
  by (simp add: peek_bytes_def)

lemma readable_advance_append [wire_simps]:
  "kanon_buffer B \<Longrightarrow> readable B b = xs @ ys \<Longrightarrow> readable B (AdvanceRead B (length xs) b) = ys"
  by (simp add: wire_simps)

lemma readable_Append64 [wire_simps]:
  "kanon_buffer B \<Longrightarrow> readable B (Append64 B x b) = readable B b @ net64 B x"
  by (simp add: Append64_def wire_simps)

lemma readable_Append32 [wire_simps]:
  "kanon_buffer B \<Longrightarrow> readable B (Append32 B x b) = readable B b @ net32 B x"
  by (simp add: Append32_def wire_simps)

lemma Read64_net64:
  assumes B: "kanon_buffer B" and r: "readable B b = net64 B x @ rest"
  obtains b' where "Read64 B b = Some (x, b')" and "readable B b' = rest"
proof
  show "Read64 B b = Some (x, AdvanceRead B 8 b)"
    using B r by (simp add: Read64_def wire_simps)
  show "readable B (AdvanceRead B 8 b) = rest"
    using B r readable_advance_append [OF B r] by (simp add: wire_simps)
qed

end
