(* ===== verification/Mmbp_Util.thy ===== *)
theory Mmbp_Util
  imports Kanon
begin

text \<open>
  The parse and serialize functions of \<open>mmkv/protocol/mmbp_util.h\<close> over a \<open>Buffer\<close> or
  \<open>ChunkList\<close>, with the data types of \<open>type.h\<close> and \<open>key_value.h\<close>. A parse function of an
  integer returns \<open>None\<close> where the code returns false (its out parameter is then untouched);
  one of a string or a vector returns nothing in the code, so its model is undefined only
  where the code reads an uninitialised length or past the readable bytes. Loops over a
  resized vector are structural recursions over its elements.
\<close>

section \<open>Data types (type.h, key_value.h, conv.h)\<close>

record ('k, 'v) KeyValue =
  key :: 'k
  val :: 'v

text \<open>A \<open>double\<close> is its bit pattern; \<open>conv.h\<close> reinterprets it as an integer and back.\<close>

datatype double = Double u64

type_synonym Weight = double
type_synonym StrKvs = "(bstring, bstring) KeyValue list"
type_synonym StrValues = "bstring list"
type_synonym WeightValues = "(Weight, bstring) KeyValue list"

definition int2double :: "u64 \<Rightarrow> double" where
  "int2double i = Double i"

fun double2u64 :: "double \<Rightarrow> u64" where
  "double2u64 (Double i) = i"

lemma int2double_double2u64 [simp]: "int2double (double2u64 d) = d"
  by (cases d) (simp add: int2double_def)

lemma double2u64_int2double [simp]: "double2u64 (int2double i) = i"
  by (simp add: int2double_def)

text \<open>\<open>SetBit\<close> and \<open>TestBit\<close> on the \<open>has_bits_\<close> byte of a message.\<close>

definition SetBit :: "byte \<Rightarrow> nat \<Rightarrow> byte" where
  "SetBit bits idx = bits OR push_bit idx 1"

definition TestBit :: "byte \<Rightarrow> nat \<Rightarrow> bool" where
  "TestBit bits idx \<longleftrightarrow> bits AND push_bit idx 1 \<noteq> 0"

lemma TestBit_bit: "TestBit bits idx = bit bits idx" if "idx < 8"
proof -
  have "bits AND push_bit idx 1 = (if bit bits idx then push_bit idx 1 else 0)"
    by (rule bit_word_eqI) (auto simp: bit_simps)
  moreover have "push_bit idx 1 \<noteq> (0 :: byte)"
    using that by (auto simp: bit_eq_iff bit_simps intro: exI [of _ idx])
  ultimately show ?thesis by (simp add: TestBit_def)
qed

lemma TestBit_SetBit:
  assumes "i < 8" and "j < 8"
  shows "TestBit (SetBit bits i) j = (i = j \<or> TestBit bits j)"
  using assms by (auto simp: TestBit_bit SetBit_def bit_simps)

text \<open>Reading an out parameter that was initialised before the call.\<close>

definition kept :: "'a \<Rightarrow> 'a option \<Rightarrow> 'a" where
  "kept old r = (case r of Some v \<Rightarrow> v | None \<Rightarrow> old)"

lemma kept_simps [simp]: "kept old (Some v) = v" "kept old None = old"
  by (simp_all add: kept_def)

section \<open>Parsing from a Buffer\<close>

text \<open>\<open>MMKV_PARSE_UNSIGNED_\<close> and \<open>MMKV_PARSE_SIGNED_\<close>: one macro per width and decoder.\<close>

definition MMKV_PARSE_UNSIGNED ::
    "'b buffer_ops \<Rightarrow> (byte list \<Rightarrow> 'w kvarint_result) \<Rightarrow> 'b \<Rightarrow> 'w option \<times> 'b" where
  "MMKV_PARSE_UNSIGNED B decode buffer =
     (case decode (readable B buffer) of
        KVARINT_OK len i \<Rightarrow> (Some i, AdvanceRead B len buffer)
      | _ \<Rightarrow> (None, buffer))"

definition ParseComponent_u8 :: "kvarint \<Rightarrow> 'b buffer_ops \<Rightarrow> 'b \<Rightarrow> byte option \<times> 'b" where
  "ParseComponent_u8 K B = MMKV_PARSE_UNSIGNED B (kvarint_decode8 K)"

definition ParseComponent_u16 :: "kvarint \<Rightarrow> 'b buffer_ops \<Rightarrow> 'b \<Rightarrow> u16 option \<times> 'b" where
  "ParseComponent_u16 K B = MMKV_PARSE_UNSIGNED B (kvarint_decode16 K)"

definition ParseComponent_u32 :: "kvarint \<Rightarrow> 'b buffer_ops \<Rightarrow> 'b \<Rightarrow> u32 option \<times> 'b" where
  "ParseComponent_u32 K B = MMKV_PARSE_UNSIGNED B (kvarint_decode32 K)"

definition ParseComponent_u64 :: "kvarint \<Rightarrow> 'b buffer_ops \<Rightarrow> 'b \<Rightarrow> u64 option \<times> 'b" where
  "ParseComponent_u64 K B = MMKV_PARSE_UNSIGNED B (kvarint_decode64 K)"

definition ParseComponent_i64 :: "kvarint \<Rightarrow> 'b buffer_ops \<Rightarrow> 'b \<Rightarrow> u64 option \<times> 'b" where
  "ParseComponent_i64 K B = MMKV_PARSE_UNSIGNED B (kvarint_decode64s K)"

text \<open>
  A string: \<open>out\<close> is an uninitialised local, so a failed length parse reads garbage; the
  append reads \<open>len\<close> bytes from the read position without comparing \<open>len\<close> with the
  readable size.
\<close>

definition ParseComponent_str ::
    "kvarint \<Rightarrow> 'b buffer_ops \<Rightarrow> bool \<Rightarrow> 'b \<Rightarrow> (bstring \<times> 'b) option" where
  "ParseComponent_str K B is_16 buffer = do {
     (len, buffer) \<leftarrow>
       (if is_16
        then (let (out, buffer) = ParseComponent_u16 K B buffer
              in map_option (\<lambda>out. (unat out, buffer)) out)
        else (let (out, buffer) = ParseComponent_u32 K B buffer
              in map_option (\<lambda>out. (unat out, buffer)) out));
     str \<leftarrow> peek_bytes B len buffer;
     Some (str, AdvanceRead B len buffer) }"

text \<open>
  Vectors: \<open>count\<close> starts at \<open>-1\<close> and the sizes at 0, and a failed parse keeps the old
  value; elements are appended to whatever the resized vector holds.
\<close>

fun parse_strs_loop ::
    "kvarint \<Rightarrow> 'b buffer_ops \<Rightarrow> StrValues \<Rightarrow> u64 \<Rightarrow> 'b \<Rightarrow> (StrValues \<times> 'b) option" where
  "parse_strs_loop K B [] value_size buffer = Some ([], buffer)"
| "parse_strs_loop K B (v # vs) value_size buffer = do {
     let (r, buffer) = ParseComponent_u64 K B buffer;
     let value_size = kept value_size r;
     bs \<leftarrow> peek_bytes B (unat value_size) buffer;
     (vs, buffer) \<leftarrow> parse_strs_loop K B vs value_size (AdvanceRead B (unat value_size) buffer);
     Some ((v @ bs) # vs, buffer) }"

definition ParseComponent_strs ::
    "kvarint \<Rightarrow> 'b buffer_ops \<Rightarrow> StrValues \<Rightarrow> 'b \<Rightarrow> (StrValues \<times> 'b) option" where
  "ParseComponent_strs K B values buffer =
     (let (r, buffer) = ParseComponent_u32 K B buffer;
          count = kept (- 1) r
      in parse_strs_loop K B (resize (unat count) [] values) 0 buffer)"

fun parse_weights_loop ::
    "kvarint \<Rightarrow> 'b buffer_ops \<Rightarrow> WeightValues \<Rightarrow> u64 \<Rightarrow> 'b \<Rightarrow> (WeightValues \<times> 'b) option" where
  "parse_weights_loop K B [] value_size buffer = Some ([], buffer)"
| "parse_weights_loop K B (v # vs) value_size buffer = do {
     (w, buffer) \<leftarrow> Read64 B buffer;
     let (r, buffer) = ParseComponent_u64 K B buffer;
     let value_size = kept value_size r;
     bs \<leftarrow> peek_bytes B (unat value_size) buffer;
     (vs, buffer) \<leftarrow> parse_weights_loop K B vs value_size (AdvanceRead B (unat value_size) buffer);
     Some (v\<lparr>key := int2double w, val := val v @ bs\<rparr> # vs, buffer) }"

definition ParseComponent_weights ::
    "kvarint \<Rightarrow> 'b buffer_ops \<Rightarrow> WeightValues \<Rightarrow> 'b \<Rightarrow> (WeightValues \<times> 'b) option" where
  "ParseComponent_weights K B values buffer =
     (let (r, buffer) = ParseComponent_u32 K B buffer;
          count = kept (- 1) r
      in parse_weights_loop K B (resize (unat count) \<lparr>key = Double 0, val = []\<rparr> values) 0 buffer)"

fun parse_kvs_loop ::
    "kvarint \<Rightarrow> 'b buffer_ops \<Rightarrow> StrKvs \<Rightarrow> u64 \<Rightarrow> u64 \<Rightarrow> 'b \<Rightarrow> (StrKvs \<times> 'b) option" where
  "parse_kvs_loop K B [] key_size value_size buffer = Some ([], buffer)"
| "parse_kvs_loop K B (kv # kvs) key_size value_size buffer = do {
     let (r, buffer) = ParseComponent_u64 K B buffer;
     let key_size = kept key_size r;
     ks \<leftarrow> peek_bytes B (unat key_size) buffer;
     let buffer = AdvanceRead B (unat key_size) buffer;
     let (r, buffer) = ParseComponent_u64 K B buffer;
     let value_size = kept value_size r;
     vs \<leftarrow> peek_bytes B (unat value_size) buffer;
     let buffer = AdvanceRead B (unat value_size) buffer;
     (kvs, buffer) \<leftarrow> parse_kvs_loop K B kvs key_size value_size buffer;
     Some (kv\<lparr>key := key kv @ ks, val := val kv @ vs\<rparr> # kvs, buffer) }"

definition ParseComponent_kvs ::
    "kvarint \<Rightarrow> 'b buffer_ops \<Rightarrow> StrKvs \<Rightarrow> 'b \<Rightarrow> (StrKvs \<times> 'b) option" where
  "ParseComponent_kvs K B kvs buffer =
     (let (r, buffer) = ParseComponent_u32 K B buffer;
          count = kept (- 1) r
      in parse_kvs_loop K B (resize (unat count) \<lparr>key = [], val = []\<rparr> kvs) 0 0 buffer)"

text \<open>
  \<open>SET_FILED_UVEC\<close>: the size and every element are varints of the element width; \<open>size\<close>
  starts at \<open>-1\<close> and an element whose parse fails keeps its old value. One macro for 16 and
  32 bits, and a nested one for vectors of vectors.
\<close>

fun parse_elems_loop :: "('b \<Rightarrow> 'w option \<times> 'b) \<Rightarrow> 'w list \<Rightarrow> 'b \<Rightarrow> 'w list \<times> 'b" where
  "parse_elems_loop parse [] buffer = ([], buffer)"
| "parse_elems_loop parse (u # us) buffer =
     (let (r, buffer) = parse buffer;
          (us, buffer) = parse_elems_loop parse us buffer
      in (kept u r # us, buffer))"

definition SET_FILED_UVEC ::
    "('b \<Rightarrow> ('w::len word) option \<times> 'b) \<Rightarrow> 'w word list \<Rightarrow> 'b \<Rightarrow> 'w word list \<times> 'b" where
  "SET_FILED_UVEC parse us buffer =
     (let (r, buffer) = parse buffer;
          size = kept (- 1) r
      in parse_elems_loop parse (resize (unat size) 0 us) buffer)"

fun parse_rows_loop ::
    "('b \<Rightarrow> ('w::len word) option \<times> 'b) \<Rightarrow> 'w word list list \<Rightarrow> 'b \<Rightarrow> 'w word list list \<times> 'b" where
  "parse_rows_loop parse [] buffer = ([], buffer)"
| "parse_rows_loop parse (us # uss) buffer =
     (let (us, buffer) = SET_FILED_UVEC parse us buffer;
          (uss, buffer) = parse_rows_loop parse uss buffer
      in (us # uss, buffer))"

definition SET_FILED_UVEC_2D ::
    "('b \<Rightarrow> ('w::len word) option \<times> 'b) \<Rightarrow> 'w word list list \<Rightarrow> 'b \<Rightarrow> 'w word list list \<times> 'b" where
  "SET_FILED_UVEC_2D parse uss buffer =
     (let (r, buffer) = parse buffer;
          size = kept (- 1) r
      in parse_rows_loop parse (resize (unat size) [] uss) buffer)"

definition ParseComponent_u16s :: "kvarint \<Rightarrow> 'b buffer_ops \<Rightarrow> u16 list \<Rightarrow> 'b \<Rightarrow> u16 list \<times> 'b" where
  "ParseComponent_u16s K B = SET_FILED_UVEC (ParseComponent_u16 K B)"

definition ParseComponent_u32s :: "kvarint \<Rightarrow> 'b buffer_ops \<Rightarrow> u32 list \<Rightarrow> 'b \<Rightarrow> u32 list \<times> 'b" where
  "ParseComponent_u32s K B = SET_FILED_UVEC (ParseComponent_u32 K B)"

text \<open>The \<open>has_bits\<close> array: \<open>len\<close> bytes, each a varint of its own.\<close>

definition ParseComponent_u8s :: "kvarint \<Rightarrow> 'b buffer_ops \<Rightarrow> byte list \<Rightarrow> 'b \<Rightarrow> byte list \<times> 'b" where
  "ParseComponent_u8s K B = parse_elems_loop (ParseComponent_u8 K B)"

text \<open>\<open>&buf[0]\<close> of an empty vector is undefined, so a zero length is too.\<close>

definition ParseComponent_buf ::
    "kvarint \<Rightarrow> 'b buffer_ops \<Rightarrow> 'b \<Rightarrow> (byte list \<times> 'b) option" where
  "ParseComponent_buf K B buffer =
     (let (r, buffer) = ParseComponent_u32 K B buffer;
          len = unat (kept (- 1) r)
      in if len = 0 then None
         else do {
           bs \<leftarrow> peek_bytes B len buffer;
           Some (bs, AdvanceRead B len buffer) })"

text \<open>
  \<open>std::unordered_map\<close>: \<open>emplace\<close> keeps the first entry of a key. The key and value parsers
  are the overloads for the template's types.
\<close>

fun parse_map_loop ::
    "('b \<Rightarrow> ('k \<times> 'b) option) \<Rightarrow> ('b \<Rightarrow> ('v \<times> 'b) option) \<Rightarrow> nat \<Rightarrow> ('k \<rightharpoonup> 'v) \<Rightarrow> 'b
       \<Rightarrow> (('k \<rightharpoonup> 'v) \<times> 'b) option" where
  "parse_map_loop pk pv 0 kv_map buffer = Some (kv_map, buffer)"
| "parse_map_loop pk pv (Suc n) kv_map buffer = do {
     (k, buffer) \<leftarrow> pk buffer;
     (v, buffer) \<leftarrow> pv buffer;
     parse_map_loop pk pv n (if k \<in> dom kv_map then kv_map else kv_map(k \<mapsto> v)) buffer }"

definition ParseComponent_map ::
    "kvarint \<Rightarrow> 'b buffer_ops \<Rightarrow> ('b \<Rightarrow> ('k \<times> 'b) option) \<Rightarrow> ('b \<Rightarrow> ('v \<times> 'b) option)
       \<Rightarrow> ('k \<rightharpoonup> 'v) \<Rightarrow> 'b \<Rightarrow> (('k \<rightharpoonup> 'v) \<times> 'b) option" where
  "ParseComponent_map K B pk pv kv_map buffer =
     (let (r, buffer) = ParseComponent_u32 K B buffer;
          n = kept (- 1) r
      in parse_map_loop pk pv (unat n) kv_map buffer)"

section \<open>Serializing to a Buffer or ChunkList\<close>

definition SerializeComponent_u8 :: "kvarint \<Rightarrow> 'b buffer_ops \<Rightarrow> byte \<Rightarrow> 'b \<Rightarrow> 'b" where
  "SerializeComponent_u8 K C i buffer = Append C (kvarint_encode8 K i) buffer"

definition SerializeComponent_u16 :: "kvarint \<Rightarrow> 'b buffer_ops \<Rightarrow> u16 \<Rightarrow> 'b \<Rightarrow> 'b" where
  "SerializeComponent_u16 K C i buffer = Append C (kvarint_encode16 K i) buffer"

definition SerializeComponent_u32 :: "kvarint \<Rightarrow> 'b buffer_ops \<Rightarrow> u32 \<Rightarrow> 'b \<Rightarrow> 'b" where
  "SerializeComponent_u32 K C i buffer = Append C (kvarint_encode32 K i) buffer"

definition SerializeComponent_u64 :: "kvarint \<Rightarrow> 'b buffer_ops \<Rightarrow> u64 \<Rightarrow> 'b \<Rightarrow> 'b" where
  "SerializeComponent_u64 K C i buffer = Append C (kvarint_encode64 K i) buffer"

definition SerializeComponent_i64 :: "kvarint \<Rightarrow> 'b buffer_ops \<Rightarrow> u64 \<Rightarrow> 'b \<Rightarrow> 'b" where
  "SerializeComponent_i64 K C i buffer = Append C (kvarint_encode64s K i) buffer"

text \<open>The size is cast to 16 or 32 bits: a longer string gets a wrapped length prefix.\<close>

definition SerializeComponent_str :: "kvarint \<Rightarrow> 'b buffer_ops \<Rightarrow> bstring \<Rightarrow> bool \<Rightarrow> 'b \<Rightarrow> 'b" where
  "SerializeComponent_str K C str is_16 buffer =
     Append C str
       (if is_16 then SerializeComponent_u16 K C (of_nat (length str)) buffer
        else SerializeComponent_u32 K C (of_nat (length str)) buffer)"

fun serialize_strs_loop :: "kvarint \<Rightarrow> 'b buffer_ops \<Rightarrow> StrValues \<Rightarrow> 'b \<Rightarrow> 'b" where
  "serialize_strs_loop K C [] buffer = buffer"
| "serialize_strs_loop K C (v # vs) buffer =
     serialize_strs_loop K C vs (Append C v (SerializeComponent_u32 K C (of_nat (length v)) buffer))"

definition SerializeComponent_strs :: "kvarint \<Rightarrow> 'b buffer_ops \<Rightarrow> StrValues \<Rightarrow> 'b \<Rightarrow> 'b" where
  "SerializeComponent_strs K C values buffer =
     serialize_strs_loop K C values (SerializeComponent_u32 K C (of_nat (length values)) buffer)"

fun serialize_kvs_loop :: "kvarint \<Rightarrow> 'b buffer_ops \<Rightarrow> StrKvs \<Rightarrow> 'b \<Rightarrow> 'b" where
  "serialize_kvs_loop K C [] buffer = buffer"
| "serialize_kvs_loop K C (kv # kvs) buffer =
     (let buffer = SerializeComponent_u16 K C (of_nat (length (key kv))) buffer;
          buffer = Append C (key kv) buffer;
          buffer = SerializeComponent_u32 K C (of_nat (length (val kv))) buffer;
          buffer = Append C (val kv) buffer
      in serialize_kvs_loop K C kvs buffer)"

definition SerializeComponent_kvs :: "kvarint \<Rightarrow> 'b buffer_ops \<Rightarrow> StrKvs \<Rightarrow> 'b \<Rightarrow> 'b" where
  "SerializeComponent_kvs K C values buffer =
     serialize_kvs_loop K C values (SerializeComponent_u32 K C (of_nat (length values)) buffer)"

fun serialize_weights_loop :: "kvarint \<Rightarrow> 'b buffer_ops \<Rightarrow> WeightValues \<Rightarrow> 'b \<Rightarrow> 'b" where
  "serialize_weights_loop K C [] buffer = buffer"
| "serialize_weights_loop K C (wv # wvs) buffer =
     (let buffer = Append64 C (double2u64 (key wv)) buffer;
          buffer = SerializeComponent_u32 K C (of_nat (length (val wv))) buffer;
          buffer = Append C (val wv) buffer
      in serialize_weights_loop K C wvs buffer)"

definition SerializeComponent_weights :: "kvarint \<Rightarrow> 'b buffer_ops \<Rightarrow> WeightValues \<Rightarrow> 'b \<Rightarrow> 'b" where
  "SerializeComponent_weights K C values buffer =
     serialize_weights_loop K C values (SerializeComponent_u32 K C (of_nat (length values)) buffer)"

text \<open>\<open>SERIALIZED_FIELD_UVEC\<close>: the size as a 64-bit varint, the elements at fixed width.\<close>

definition SerializeComponent_u32s :: "kvarint \<Rightarrow> 'b buffer_ops \<Rightarrow> u32 list \<Rightarrow> 'b \<Rightarrow> 'b" where
  "SerializeComponent_u32s K C us buffer =
     fold (\<lambda>u. Append C (net32 C u)) us (SerializeComponent_u64 K C (of_nat (length us)) buffer)"

definition SerializeComponent_u16s :: "kvarint \<Rightarrow> 'b buffer_ops \<Rightarrow> u16 list \<Rightarrow> 'b \<Rightarrow> 'b" where
  "SerializeComponent_u16s K C us buffer =
     fold (\<lambda>u. Append C (net16 C u)) us (SerializeComponent_u64 K C (of_nat (length us)) buffer)"

definition SerializeComponent_buf :: "kvarint \<Rightarrow> 'b buffer_ops \<Rightarrow> byte list \<Rightarrow> 'b \<Rightarrow> 'b" where
  "SerializeComponent_buf K C buf buffer =
     Append C buf (SerializeComponent_u64 K C (of_nat (length buf)) buffer)"

text \<open>The map is given as the list of its entries in iteration order.\<close>

definition SerializeComponent_map ::
    "kvarint \<Rightarrow> 'b buffer_ops \<Rightarrow> ('k \<Rightarrow> 'b \<Rightarrow> 'b) \<Rightarrow> ('v \<Rightarrow> 'b \<Rightarrow> 'b) \<Rightarrow> ('k \<times> 'v) list \<Rightarrow> 'b \<Rightarrow> 'b" where
  "SerializeComponent_map K C sk sv entries buffer =
     fold (\<lambda>(k, v) buffer. sv v (sk k buffer)) entries
       (SerializeComponent_u32 K C (of_nat (length entries)) buffer)"

definition SerializeComponent_u8s :: "kvarint \<Rightarrow> 'b buffer_ops \<Rightarrow> byte list \<Rightarrow> 'b \<Rightarrow> 'b" where
  "SerializeComponent_u8s K C u8s buffer = fold (SerializeComponent_u8 K C) u8s buffer"

end
