(* ===== verification/Mmbp_Wire.thy ===== *)
theory Mmbp_Wire
  imports Mmbp_Util
begin

text \<open>
  The wire format of \<open>mmbp_util.h\<close> as pure functions from values to bytes, and the two facts
  every message needs of it: each serializer appends exactly these bytes, and each parser, on
  a buffer that starts with them, returns the value and leaves the rest.
\<close>

section \<open>The bytes of a component\<close>

definition wire_str :: "kvarint \<Rightarrow> bool \<Rightarrow> bstring \<Rightarrow> byte list" where
  "wire_str K is_16 s =
     (if is_16 then kvarint_encode16 K (of_nat (length s)) else kvarint_encode32 K (of_nat (length s))) @ s"

definition wire_strs :: "kvarint \<Rightarrow> StrValues \<Rightarrow> byte list" where
  "wire_strs K vs = kvarint_encode32 K (of_nat (length vs)) @ concat (map (wire_str K False) vs)"

definition wire_kv :: "kvarint \<Rightarrow> (bstring, bstring) KeyValue \<Rightarrow> byte list" where
  "wire_kv K kv = wire_str K True (key kv) @ wire_str K False (val kv)"

definition wire_kvs :: "kvarint \<Rightarrow> StrKvs \<Rightarrow> byte list" where
  "wire_kvs K kvs = kvarint_encode32 K (of_nat (length kvs)) @ concat (map (wire_kv K) kvs)"

definition wire_weight :: "kvarint \<Rightarrow> 'b buffer_ops \<Rightarrow> (Weight, bstring) KeyValue \<Rightarrow> byte list" where
  "wire_weight K B wv = net64 B (double2u64 (key wv)) @ wire_str K False (val wv)"

definition wire_weights :: "kvarint \<Rightarrow> 'b buffer_ops \<Rightarrow> WeightValues \<Rightarrow> byte list" where
  "wire_weights K B wvs = kvarint_encode32 K (of_nat (length wvs)) @ concat (map (wire_weight K B) wvs)"

text \<open>The sizes the format can carry: a key's length in 16 bits, everything else in 32.\<close>

definition fits_str :: "bool \<Rightarrow> bstring \<Rightarrow> bool" where
  "fits_str is_16 s \<longleftrightarrow> length s < (if is_16 then 2 ^ 16 else 2 ^ 32)"

definition fits_vec :: "'a list \<Rightarrow> bool" where
  "fits_vec xs \<longleftrightarrow> length xs < 2 ^ 32"

definition fits_strs :: "StrValues \<Rightarrow> bool" where
  "fits_strs vs \<longleftrightarrow> fits_vec vs \<and> list_all (fits_str False) vs"

definition fits_kvs :: "StrKvs \<Rightarrow> bool" where
  "fits_kvs kvs \<longleftrightarrow> fits_vec kvs \<and> list_all (\<lambda>kv. fits_str True (key kv) \<and> fits_str False (val kv)) kvs"

definition fits_weights :: "WeightValues \<Rightarrow> bool" where
  "fits_weights wvs \<longleftrightarrow> fits_vec wvs \<and> list_all (\<lambda>wv. fits_str False (val wv)) wvs"

section \<open>Serializers append the wire bytes\<close>

lemma wire_weights_cong: "net64 C = net64 B \<Longrightarrow> wire_weights K C wvs = wire_weights K B wvs"
  by (simp add: wire_weights_def wire_weight_def [abs_def])

lemma serialize_ints [wire_simps]:
  assumes "kanon_buffer C"
  shows "readable C (SerializeComponent_u8 K C a b) = readable C b @ kvarint_encode8 K a"
    and "readable C (SerializeComponent_u16 K C x b) = readable C b @ kvarint_encode16 K x"
    and "readable C (SerializeComponent_u32 K C y b) = readable C b @ kvarint_encode32 K y"
    and "readable C (SerializeComponent_u64 K C z b) = readable C b @ kvarint_encode64 K z"
    and "readable C (SerializeComponent_i64 K C z b) = readable C b @ kvarint_encode64s K z"
  using assms
  by (simp_all add: SerializeComponent_u8_def SerializeComponent_u16_def SerializeComponent_u32_def
      SerializeComponent_u64_def SerializeComponent_i64_def wire_simps)

lemma serialize_str [wire_simps]:
  "kanon_buffer C \<Longrightarrow>
     readable C (SerializeComponent_str K C s is_16 b) = readable C b @ wire_str K is_16 s"
  by (simp add: SerializeComponent_str_def wire_str_def wire_simps)

lemma serialize_strs [wire_simps]:
  assumes "kanon_buffer C"
  shows "readable C (SerializeComponent_strs K C vs b) = readable C b @ wire_strs K vs"
proof -
  have "readable C (serialize_strs_loop K C vs b) = readable C b @ concat (map (wire_str K False) vs)" for b
    using assms by (induction vs arbitrary: b) (simp_all add: wire_simps wire_str_def)
  then show ?thesis
    using assms by (simp add: SerializeComponent_strs_def wire_strs_def wire_simps)
qed

lemma serialize_kvs [wire_simps]:
  assumes "kanon_buffer C"
  shows "readable C (SerializeComponent_kvs K C kvs b) = readable C b @ wire_kvs K kvs"
proof -
  have "readable C (serialize_kvs_loop K C kvs b) = readable C b @ concat (map (wire_kv K) kvs)" for b
    using assms by (induction kvs arbitrary: b) (simp_all add: wire_simps wire_str_def wire_kv_def Let_def)
  then show ?thesis
    using assms by (simp add: SerializeComponent_kvs_def wire_kvs_def wire_simps)
qed

lemma serialize_weights [wire_simps]:
  assumes "kanon_buffer C"
  shows "readable C (SerializeComponent_weights K C wvs b) = readable C b @ wire_weights K C wvs"
proof -
  have "readable C (serialize_weights_loop K C wvs b) = readable C b @ concat (map (wire_weight K C) wvs)" for b
    using assms by (induction wvs arbitrary: b) (simp_all add: wire_simps wire_str_def wire_weight_def Let_def)
  then show ?thesis
    using assms by (simp add: SerializeComponent_weights_def wire_weights_def wire_simps)
qed

section \<open>Parsers read them back\<close>

text \<open>
  \<open>reads B P bs x\<close>: on every buffer whose readable bytes start with \<open>bs\<close>, the parser \<open>P\<close> is
  defined, returns \<open>x\<close> and leaves what follows. Parsers compose through \<open>reads_bind\<close>.
\<close>

definition reads :: "'b buffer_ops \<Rightarrow> ('b \<Rightarrow> ('a \<times> 'b) option) \<Rightarrow> byte list \<Rightarrow> 'a \<Rightarrow> bool" where
  "reads B P bs x \<longleftrightarrow>
     (\<forall>b rest. readable B b = bs @ rest \<longrightarrow> (\<exists>b'. P b = Some (x, b') \<and> readable B b' = rest))"

lemma readsI:
  "(\<And>b rest. readable B b = bs @ rest \<Longrightarrow> \<exists>b'. P b = Some (x, b') \<and> readable B b' = rest)
     \<Longrightarrow> reads B P bs x"
  by (simp add: reads_def)

lemma readsE:
  assumes "reads B P bs x" and "readable B b = bs @ rest"
  obtains b' where "P b = Some (x, b')" and "readable B b' = rest"
  using assms by (auto simp: reads_def)

lemma readsD:
  "reads B P bs x \<Longrightarrow> readable B b = bs @ rest \<Longrightarrow> \<exists>b'. P b = Some (x, b') \<and> readable B b' = rest"
  by (simp add: reads_def)

lemma reads_bind:
  assumes "reads B P xs x" and "reads B (Q x) ys y"
  shows "reads B (\<lambda>b. P b \<bind> (\<lambda>(x, b). Q x b)) (xs @ ys) y"
proof (rule readsI)
  fix b rest
  assume "readable B b = (xs @ ys) @ rest"
  then have "readable B b = xs @ (ys @ rest)" by simp
  with assms(1) obtain b1 where b1: "P b = Some (x, b1)" "readable B b1 = ys @ rest"
    by (rule readsE)
  from assms(2) b1(2) obtain b2 where "Q x b1 = Some (y, b2)" "readable B b2 = rest"
    by (rule readsE)
  with b1(1) show "\<exists>b'. (P b \<bind> (\<lambda>(x, b). Q x b)) = Some (y, b') \<and> readable B b' = rest"
    by simp
qed

lemma reads_return: "reads B (\<lambda>b. Some (x, b)) [] x"
  by (simp add: reads_def)

lemma reads_map: "reads B P bs x \<Longrightarrow> reads B (\<lambda>b. P b \<bind> (\<lambda>(x, b). Some (f x, b))) bs (f x)"
  using reads_bind [OF _ reads_return, of B P bs x f] by simp

text \<open>An integer parser and a run of raw bytes.\<close>

lemma reads_varint:
  assumes B: "kanon_buffer B" and dec: "decodes decode bs v"
  shows "reads B (\<lambda>b. Some (MMKV_PARSE_UNSIGNED B decode b)) bs (Some v)"
proof (rule readsI)
  fix b rest
  assume r: "readable B b = bs @ rest"
  have "MMKV_PARSE_UNSIGNED B decode b = (Some v, AdvanceRead B (length bs) b)"
    by (simp add: MMKV_PARSE_UNSIGNED_def r decodesD [OF dec])
  with readable_advance_append [OF B r]
  show "\<exists>b'. Some (MMKV_PARSE_UNSIGNED B decode b) = Some (Some v, b') \<and> readable B b' = rest"
    by simp
qed

lemma reads_raw:
  assumes B: "kanon_buffer B"
  shows "reads B (\<lambda>b. peek_bytes B (length bs) b \<bind> (\<lambda>x. Some (x, AdvanceRead B (length bs) b))) bs bs"
  using B by (intro readsI) (auto simp: peek_bytes_def kanon_bufferD)

lemma reads_ints:
  assumes B: "kanon_buffer B" and K: "kvarint_spec K"
  shows "reads B (\<lambda>b. Some (ParseComponent_u8 K B b)) (kvarint_encode8 K a) (Some a)"
    and "reads B (\<lambda>b. Some (ParseComponent_u16 K B b)) (kvarint_encode16 K x) (Some x)"
    and "reads B (\<lambda>b. Some (ParseComponent_u32 K B b)) (kvarint_encode32 K y) (Some y)"
    and "reads B (\<lambda>b. Some (ParseComponent_u64 K B b)) (kvarint_encode64 K z) (Some z)"
    and "reads B (\<lambda>b. Some (ParseComponent_i64 K B b)) (kvarint_encode64s K z) (Some z)"
    and "reads B (\<lambda>b. Some (ParseComponent_u64 K B b)) (kvarint_encode16 K x) (Some (ucast x))"
    and "reads B (\<lambda>b. Some (ParseComponent_u64 K B b)) (kvarint_encode32 K y) (Some (ucast y))"
  by (auto intro!: reads_varint [OF B] kvarint_specD [OF K] simp: ParseComponent_u8_def
      ParseComponent_u16_def ParseComponent_u32_def ParseComponent_u64_def ParseComponent_i64_def)

text \<open>
  The length prefix of a string, read at its own width or at 64 bits, is its length; then the
  bytes of the string follow.
\<close>

lemma prefix_str:
  assumes B: "kanon_buffer B" and K: "kvarint_spec K"
    and fits: "fits_str is_16 s" and r: "readable B b = wire_str K is_16 s @ rest"
  obtains v b' where "ParseComponent_u64 K B b = (Some v, b')" and "unat v = length s"
    and "peek_bytes B (length s) b' = Some s" and "readable B (AdvanceRead B (length s) b') = rest"
proof -
  have "\<exists>v b'. ParseComponent_u64 K B b = (Some v, b') \<and> unat v = length s \<and> readable B b' = s @ rest"
  proof (cases is_16)
    case True
    with r have "readable B b = kvarint_encode16 K (of_nat (length s)) @ (s @ rest)"
      by (simp add: wire_str_def)
    from readsE [OF reads_ints(6) [OF B K] this]
    obtain b' where "ParseComponent_u64 K B b = (Some (ucast (of_nat (length s) :: u16)), b')"
      and "readable B b' = s @ rest" by auto
    moreover have "unat (of_nat (length s) :: u16) = length s"
      using fits True by (simp add: fits_str_def unat_of_nat_lt)
    ultimately show ?thesis by auto
  next
    case False
    with r have "readable B b = kvarint_encode32 K (of_nat (length s)) @ (s @ rest)"
      by (simp add: wire_str_def)
    from readsE [OF reads_ints(7) [OF B K] this]
    obtain b' where "ParseComponent_u64 K B b = (Some (ucast (of_nat (length s) :: u32)), b')"
      and "readable B b' = s @ rest" by auto
    moreover have "unat (of_nat (length s) :: u32) = length s"
      using fits False by (simp add: fits_str_def unat_of_nat_lt)
    ultimately show ?thesis by auto
  qed
  then obtain v b' where "ParseComponent_u64 K B b = (Some v, b')" "unat v = length s"
    and r': "readable B b' = s @ rest" by blast
  moreover have "peek_bytes B (length s) b' = Some s"
    using r' by (simp add: wire_simps)
  moreover have "readable B (AdvanceRead B (length s) b') = rest"
    using B r' by (rule readable_advance_append)
  ultimately show thesis using that by blast
qed

lemma reads_str:
  assumes B: "kanon_buffer B" and K: "kvarint_spec K" and fits: "fits_str is_16 s"
  shows "reads B (ParseComponent_str K B is_16) (wire_str K is_16 s) s"
proof (rule readsI)
  fix b rest
  assume r: "readable B b = wire_str K is_16 s @ rest"
  have adv: "peek_bytes B (length s) b' = Some s \<and> readable B (AdvanceRead B (length s) b') = rest"
    if "readable B b' = s @ rest" for b'
    using B that by (simp add: wire_simps)
  show "\<exists>b'. ParseComponent_str K B is_16 b = Some (s, b') \<and> readable B b' = rest"
  proof (cases is_16)
    case True
    with r have "readable B b = kvarint_encode16 K (of_nat (length s)) @ (s @ rest)"
      by (simp add: wire_str_def)
    from readsE [OF reads_ints(2) [OF B K] this]
    obtain b' where "ParseComponent_u16 K B b = (Some (of_nat (length s)), b')"
      and "readable B b' = s @ rest" by auto
    with True fits adv show ?thesis
      by (auto simp: ParseComponent_str_def fits_str_def unat_of_nat_lt)
  next
    case False
    with r have "readable B b = kvarint_encode32 K (of_nat (length s)) @ (s @ rest)"
      by (simp add: wire_str_def)
    from readsE [OF reads_ints(3) [OF B K] this]
    obtain b' where "ParseComponent_u32 K B b = (Some (of_nat (length s)), b')"
      and "readable B b' = s @ rest" by auto
    with False fits adv show ?thesis
      by (auto simp: ParseComponent_str_def fits_str_def unat_of_nat_lt)
  qed
qed

text \<open>The vector parsers: the count, then one element after the other into fresh slots.\<close>

lemma reads_count:
  assumes B: "kanon_buffer B" and K: "kvarint_spec K" and fits: "fits_vec xs"
    and r: "readable B b = kvarint_encode32 K (of_nat (length xs)) @ rest"
  obtains v b' where "ParseComponent_u32 K B b = (Some v, b')" and "unat v = length xs"
    and "readable B b' = rest"
proof -
  from readsE [OF reads_ints(3) [OF B K] r]
  obtain b' where "ParseComponent_u32 K B b = (Some (of_nat (length xs)), b')"
    and "readable B b' = rest" by auto
  moreover have "unat (of_nat (length xs) :: u32) = length xs"
    using fits by (simp add: fits_vec_def unat_of_nat_lt)
  ultimately show thesis by (metis that)
qed

lemma reads_strs_loop:
  assumes B: "kanon_buffer B" and K: "kvarint_spec K"
  shows "list_all (fits_str False) vs \<Longrightarrow>
    reads B (parse_strs_loop K B (replicate (length vs) []) n) (concat (map (wire_str K False) vs)) vs"
proof (induction vs arbitrary: n)
  case Nil
  show ?case by (simp add: reads_def)
next
  case (Cons v vs)
  show ?case
  proof (rule readsI)
    fix b rest
    assume "readable B b = concat (map (wire_str K False) (v # vs)) @ rest"
    then have "readable B b = wire_str K False v @ (concat (map (wire_str K False) vs) @ rest)" by simp
    moreover have "fits_str False v" using Cons.prems by simp
    ultimately obtain w b1 where s: "ParseComponent_u64 K B b = (Some w, b1)" "unat w = length v"
      "peek_bytes B (length v) b1 = Some v"
      and r1: "readable B (AdvanceRead B (length v) b1) = concat (map (wire_str K False) vs) @ rest"
      using prefix_str [OF B K] by metis
    have "reads B (parse_strs_loop K B (replicate (length vs) []) w) (concat (map (wire_str K False) vs)) vs"
      using Cons by simp
    from readsE [OF this r1] obtain b2 where
      "parse_strs_loop K B (replicate (length vs) []) w (AdvanceRead B (length v) b1) = Some (vs, b2)"
      and "readable B b2 = rest" by blast
    with s show "\<exists>b'. parse_strs_loop K B (replicate (length (v # vs)) []) n b = Some (v # vs, b')
        \<and> readable B b' = rest"
      by simp
  qed
qed

lemma reads_strs:
  assumes B: "kanon_buffer B" and K: "kvarint_spec K" and fits: "fits_strs vs"
  shows "reads B (ParseComponent_strs K B []) (wire_strs K vs) vs"
proof (rule readsI)
  fix b rest
  assume "readable B b = wire_strs K vs @ rest"
  then obtain w b1 where w: "ParseComponent_u32 K B b = (Some w, b1)" "unat w = length vs"
    and r1: "readable B b1 = concat (map (wire_str K False) vs) @ rest"
    using reads_count [OF B K, of vs b] fits by (auto simp: wire_strs_def fits_strs_def)
  from readsD [OF reads_strs_loop [OF B K] r1] fits w
  show "\<exists>b'. ParseComponent_strs K B [] b = Some (vs, b') \<and> readable B b' = rest"
    by (auto simp: ParseComponent_strs_def fits_strs_def)
qed

lemma reads_kvs_loop:
  assumes B: "kanon_buffer B" and K: "kvarint_spec K"
  shows "list_all (\<lambda>kv. fits_str True (key kv) \<and> fits_str False (val kv)) kvs \<Longrightarrow>
    reads B (parse_kvs_loop K B (replicate (length kvs) \<lparr>key = [], val = []\<rparr>) m n)
      (concat (map (wire_kv K) kvs)) kvs"
proof (induction kvs arbitrary: m n)
  case Nil
  show ?case by (simp add: reads_def)
next
  case (Cons kv kvs)
  let ?tail = "concat (map (wire_kv K) kvs)"
  show ?case
  proof (rule readsI)
    fix b rest
    assume "readable B b = concat (map (wire_kv K) (kv # kvs)) @ rest"
    then have "readable B b = wire_str K True (key kv) @ (wire_str K False (val kv) @ ?tail @ rest)"
      by (simp add: wire_kv_def)
    moreover have "fits_str True (key kv)" and fv: "fits_str False (val kv)"
      using Cons.prems by simp_all
    ultimately obtain v b1 where k: "ParseComponent_u64 K B b = (Some v, b1)" "unat v = length (key kv)"
      "peek_bytes B (length (key kv)) b1 = Some (key kv)"
      and r1: "readable B (AdvanceRead B (length (key kv)) b1) = wire_str K False (val kv) @ (?tail @ rest)"
      using prefix_str [OF B K] by metis
    from prefix_str [OF B K fv r1] obtain w b2 where
      s: "ParseComponent_u64 K B (AdvanceRead B (length (key kv)) b1) = (Some w, b2)"
        "unat w = length (val kv)" "peek_bytes B (length (val kv)) b2 = Some (val kv)"
      and r2: "readable B (AdvanceRead B (length (val kv)) b2) = ?tail @ rest"
      by metis
    have "reads B (parse_kvs_loop K B (replicate (length kvs) \<lparr>key = [], val = []\<rparr>) v w) ?tail kvs"
      using Cons by simp
    from readsE [OF this r2] obtain b3 where
      "parse_kvs_loop K B (replicate (length kvs) \<lparr>key = [], val = []\<rparr>) v w
         (AdvanceRead B (length (val kv)) b2) = Some (kvs, b3)"
      and "readable B b3 = rest" by blast
    with k s show "\<exists>b'. parse_kvs_loop K B (replicate (length (kv # kvs)) \<lparr>key = [], val = []\<rparr>) m n b
        = Some (kv # kvs, b') \<and> readable B b' = rest"
      by simp
  qed
qed

lemma reads_kvs:
  assumes B: "kanon_buffer B" and K: "kvarint_spec K" and fits: "fits_kvs kvs"
  shows "reads B (ParseComponent_kvs K B []) (wire_kvs K kvs) kvs"
proof (rule readsI)
  fix b rest
  assume "readable B b = wire_kvs K kvs @ rest"
  then obtain w b1 where w: "ParseComponent_u32 K B b = (Some w, b1)" "unat w = length kvs"
    and r1: "readable B b1 = concat (map (wire_kv K) kvs) @ rest"
    using reads_count [OF B K, of kvs b] fits by (auto simp: wire_kvs_def fits_kvs_def)
  from readsD [OF reads_kvs_loop [OF B K, of kvs 0 0] r1] fits w
  show "\<exists>b'. ParseComponent_kvs K B [] b = Some (kvs, b') \<and> readable B b' = rest"
    by (auto simp: ParseComponent_kvs_def fits_kvs_def)
qed

lemma reads_weights_loop:
  assumes B: "kanon_buffer B" and K: "kvarint_spec K"
  shows "list_all (\<lambda>wv. fits_str False (val wv)) wvs \<Longrightarrow>
    reads B (parse_weights_loop K B (replicate (length wvs) \<lparr>key = Double 0, val = []\<rparr>) n)
      (concat (map (wire_weight K B) wvs)) wvs"
proof (induction wvs arbitrary: n)
  case Nil
  show ?case by (simp add: reads_def)
next
  case (Cons wv wvs)
  let ?tail = "concat (map (wire_weight K B) wvs)"
  show ?case
  proof (rule readsI)
    fix b rest
    assume "readable B b = concat (map (wire_weight K B) (wv # wvs)) @ rest"
    then have "readable B b = net64 B (double2u64 (key wv)) @ (wire_str K False (val wv) @ ?tail @ rest)"
      by (simp add: wire_weight_def)
    from Read64_net64 [OF B this] obtain b0 where
      r64: "Read64 B b = Some (double2u64 (key wv), b0)"
      and r0: "readable B b0 = wire_str K False (val wv) @ (?tail @ rest)" by auto
    moreover have fv: "fits_str False (val wv)" using Cons.prems by simp
    from prefix_str [OF B K fv r0] obtain w b2 where
      s: "ParseComponent_u64 K B b0 = (Some w, b2)" "unat w = length (val wv)"
        "peek_bytes B (length (val wv)) b2 = Some (val wv)"
      and r2: "readable B (AdvanceRead B (length (val wv)) b2) = ?tail @ rest"
      by metis
    have "reads B (parse_weights_loop K B (replicate (length wvs) \<lparr>key = Double 0, val = []\<rparr>) w) ?tail wvs"
      using Cons by simp
    from readsE [OF this r2] obtain b3 where
      "parse_weights_loop K B (replicate (length wvs) \<lparr>key = Double 0, val = []\<rparr>) w
         (AdvanceRead B (length (val wv)) b2) = Some (wvs, b3)"
      and "readable B b3 = rest" by blast
    with r64 s show "\<exists>b'. parse_weights_loop K B
        (replicate (length (wv # wvs)) \<lparr>key = Double 0, val = []\<rparr>) n b = Some (wv # wvs, b')
        \<and> readable B b' = rest"
      by simp
  qed
qed

lemma reads_weights:
  assumes B: "kanon_buffer B" and K: "kvarint_spec K" and fits: "fits_weights wvs"
  shows "reads B (ParseComponent_weights K B []) (wire_weights K B wvs) wvs"
proof (rule readsI)
  fix b rest
  assume "readable B b = wire_weights K B wvs @ rest"
  then obtain w b1 where w: "ParseComponent_u32 K B b = (Some w, b1)" "unat w = length wvs"
    and r1: "readable B b1 = concat (map (wire_weight K B) wvs) @ rest"
    using reads_count [OF B K, of wvs b] fits by (auto simp: wire_weights_def fits_weights_def)
  from readsD [OF reads_weights_loop [OF B K] r1] fits w
  show "\<exists>b'. ParseComponent_weights K B [] b = Some (wvs, b') \<and> readable B b' = rest"
    by (auto simp: ParseComponent_weights_def fits_weights_def)
qed

end
