(* ===== verification/Command.thy ===== *)
theory Command
  imports Prelude
begin

text \<open>
  \<open>mmkv/protocol/command.h\<close> and \<open>command.cc\<close>: the command codes of the protocol and the
  table of their names. The enumerators carry the prefix \<open>CMD_\<close>; \<open>command_code\<close> is their
  \<open>uint16_t\<close> value, \<open>COMMAND_NUM\<close> the number of commands and the initial command of a request.
\<close>

datatype (plugins only: ) Command =
    CMD_STR_ADD | CMD_STR_DEL | CMD_STR_GET | CMD_STR_SET | CMD_STRLEN | CMD_STRAPPEND |
    CMD_STRPOPBACK | CMD_LADD | CMD_LAPPEND | CMD_LPREPEND | CMD_LGETSIZE | CMD_LGETALL |
    CMD_LGETRANGE | CMD_LPOPFRONT | CMD_LPOPBACK | CMD_LDEL | CMD_VADD | CMD_VDELM |
    CMD_VDELMRANGE | CMD_VDELMRANGEBYWEIGHT | CMD_VSIZE | CMD_VSIZEBYWEIGHT | CMD_VWEIGHT |
    CMD_VORDER | CMD_VRORDER | CMD_VRANGE | CMD_VALL | CMD_VRANGEBYWEIGHT | CMD_VRRANGE |
    CMD_VRRANGEBYWEIGHT | CMD_MADD | CMD_MSET | CMD_MGET | CMD_MGETS | CMD_MDEL | CMD_MALL |
    CMD_MFIELDS | CMD_MVALUES | CMD_MSIZE | CMD_MEXISTS | CMD_SADD | CMD_SDELM | CMD_SSIZE |
    CMD_SALL | CMD_SEXISTS | CMD_SAND | CMD_SANDTO | CMD_SSUB | CMD_SSUBTO | CMD_SOR |
    CMD_SORTO | CMD_SANDSIZE | CMD_SSUBSIZE | CMD_SORSIZE | CMD_SRANDDELM | CMD_MEM_STAT |
    CMD_EXPIRE_AT | CMD_EXPIRE_AFTER | CMD_EXPIREM_AT | CMD_EXPIREM_AFTER | CMD_PERSIST |
    CMD_EXPIRATION | CMD_TTL | CMD_DEL | CMD_RENAME | CMD_TYPE | CMD_KEYALL | CMD_DELS |
    CMD_DELALL | CMD_SHARD_JOIN | CMD_SHARD_LEAVE

primrec command_code :: "Command \<Rightarrow> u16" where
  "command_code CMD_STR_ADD = 0"
| "command_code CMD_STR_DEL = 1"
| "command_code CMD_STR_GET = 2"
| "command_code CMD_STR_SET = 3"
| "command_code CMD_STRLEN = 4"
| "command_code CMD_STRAPPEND = 5"
| "command_code CMD_STRPOPBACK = 6"
| "command_code CMD_LADD = 7"
| "command_code CMD_LAPPEND = 8"
| "command_code CMD_LPREPEND = 9"
| "command_code CMD_LGETSIZE = 10"
| "command_code CMD_LGETALL = 11"
| "command_code CMD_LGETRANGE = 12"
| "command_code CMD_LPOPFRONT = 13"
| "command_code CMD_LPOPBACK = 14"
| "command_code CMD_LDEL = 15"
| "command_code CMD_VADD = 16"
| "command_code CMD_VDELM = 17"
| "command_code CMD_VDELMRANGE = 18"
| "command_code CMD_VDELMRANGEBYWEIGHT = 19"
| "command_code CMD_VSIZE = 20"
| "command_code CMD_VSIZEBYWEIGHT = 21"
| "command_code CMD_VWEIGHT = 22"
| "command_code CMD_VORDER = 23"
| "command_code CMD_VRORDER = 24"
| "command_code CMD_VRANGE = 25"
| "command_code CMD_VALL = 26"
| "command_code CMD_VRANGEBYWEIGHT = 27"
| "command_code CMD_VRRANGE = 28"
| "command_code CMD_VRRANGEBYWEIGHT = 29"
| "command_code CMD_MADD = 30"
| "command_code CMD_MSET = 31"
| "command_code CMD_MGET = 32"
| "command_code CMD_MGETS = 33"
| "command_code CMD_MDEL = 34"
| "command_code CMD_MALL = 35"
| "command_code CMD_MFIELDS = 36"
| "command_code CMD_MVALUES = 37"
| "command_code CMD_MSIZE = 38"
| "command_code CMD_MEXISTS = 39"
| "command_code CMD_SADD = 40"
| "command_code CMD_SDELM = 41"
| "command_code CMD_SSIZE = 42"
| "command_code CMD_SALL = 43"
| "command_code CMD_SEXISTS = 44"
| "command_code CMD_SAND = 45"
| "command_code CMD_SANDTO = 46"
| "command_code CMD_SSUB = 47"
| "command_code CMD_SSUBTO = 48"
| "command_code CMD_SOR = 49"
| "command_code CMD_SORTO = 50"
| "command_code CMD_SANDSIZE = 51"
| "command_code CMD_SSUBSIZE = 52"
| "command_code CMD_SORSIZE = 53"
| "command_code CMD_SRANDDELM = 54"
| "command_code CMD_MEM_STAT = 55"
| "command_code CMD_EXPIRE_AT = 56"
| "command_code CMD_EXPIRE_AFTER = 57"
| "command_code CMD_EXPIREM_AT = 58"
| "command_code CMD_EXPIREM_AFTER = 59"
| "command_code CMD_PERSIST = 60"
| "command_code CMD_EXPIRATION = 61"
| "command_code CMD_TTL = 62"
| "command_code CMD_DEL = 63"
| "command_code CMD_RENAME = 64"
| "command_code CMD_TYPE = 65"
| "command_code CMD_KEYALL = 66"
| "command_code CMD_DELS = 67"
| "command_code CMD_DELALL = 68"
| "command_code CMD_SHARD_JOIN = 69"
| "command_code CMD_SHARD_LEAVE = 70"

definition COMMAND_NUM :: u16 where
  "COMMAND_NUM = 71"

definition all_commands :: "Command list" where
  "all_commands = [
    CMD_STR_ADD, CMD_STR_DEL, CMD_STR_GET, CMD_STR_SET, CMD_STRLEN, CMD_STRAPPEND,
    CMD_STRPOPBACK, CMD_LADD, CMD_LAPPEND, CMD_LPREPEND, CMD_LGETSIZE, CMD_LGETALL,
    CMD_LGETRANGE, CMD_LPOPFRONT, CMD_LPOPBACK, CMD_LDEL, CMD_VADD, CMD_VDELM,
    CMD_VDELMRANGE, CMD_VDELMRANGEBYWEIGHT, CMD_VSIZE, CMD_VSIZEBYWEIGHT, CMD_VWEIGHT,
    CMD_VORDER, CMD_VRORDER, CMD_VRANGE, CMD_VALL, CMD_VRANGEBYWEIGHT, CMD_VRRANGE,
    CMD_VRRANGEBYWEIGHT, CMD_MADD, CMD_MSET, CMD_MGET, CMD_MGETS, CMD_MDEL, CMD_MALL,
    CMD_MFIELDS, CMD_MVALUES, CMD_MSIZE, CMD_MEXISTS, CMD_SADD, CMD_SDELM, CMD_SSIZE,
    CMD_SALL, CMD_SEXISTS, CMD_SAND, CMD_SANDTO, CMD_SSUB, CMD_SSUBTO, CMD_SOR, CMD_SORTO,
    CMD_SANDSIZE, CMD_SSUBSIZE, CMD_SORSIZE, CMD_SRANDDELM, CMD_MEM_STAT, CMD_EXPIRE_AT,
    CMD_EXPIRE_AFTER, CMD_EXPIREM_AT, CMD_EXPIREM_AFTER, CMD_PERSIST, CMD_EXPIRATION,
    CMD_TTL, CMD_DEL, CMD_RENAME, CMD_TYPE, CMD_KEYALL, CMD_DELS, CMD_DELALL,
    CMD_SHARD_JOIN, CMD_SHARD_LEAVE]"

definition command_strings :: "string list" where
  "command_strings = [
    ''STRADD'', ''STRDEL'', ''STRGET'', ''STRSET'', ''STRLEN'', ''STRAPPEND'',
    ''STRPOPBACK'', ''LADD'', ''LAPPEND'', ''LPREPEND'', ''LGETSIZE'', ''LGETALL'',
    ''LGETRANGE'', ''LPOPFRONT'', ''LPOPBACK'', ''LDEL'', ''VADD'', ''VDELM'',
    ''VDELMRANGE'', ''VDELMRANGEBYWEIGHT'', ''VSIZE'', ''VSIZEBYWEIGHT'', ''VWEIGHT'',
    ''VORDER'', ''VRORDER'', ''VRANGE'', ''VALL'', ''VRANGEBYWEIGHT'', ''VRRANGE'',
    ''VRRANGEBYWEIGHT'', ''MADD'', ''MSET'', ''MGET'', ''MGETS'', ''MDEL'', ''MALL'',
    ''MFIELDS'', ''MVALUES'', ''MSIZE'', ''MEXISTS'', ''SADD'', ''SDELM'', ''SSIZE'',
    ''SALL'', ''SEXISTS'', ''SAND'', ''SANDTO'', ''SSUB'', ''SSUBTO'', ''SOR'', ''SORTO'',
    ''SANDSIZE'', ''SSUBSIZE'', ''SORSIZE'', ''SRANDDELM'', ''MEMORYSTAT'', ''EXPIREAT'',
    ''EXPIREAFTER'', ''EXPIREMAT'', ''EXPIREMAFTER'', ''PERSIST'', ''EXPIRATION'', ''TTL'',
    ''DEL'', ''RENAME'', ''TYPE'', ''KEYALL'', ''DELS'', ''DELALL'', ''SHARD_JOIN'',
    ''SHARD_LEAVE'']"

text \<open>\<open>GetCommandString\<close> indexes the table; an index past its end is undefined.\<close>

definition GetCommandString :: "u16 \<Rightarrow> string option" where
  "GetCommandString cmd =
     (if unat cmd < length command_strings then Some (command_strings ! unat cmd) else None)"

text \<open>
  The table of names has one entry per command and no name occurs twice, so a name determines
  its command.
\<close>

lemma length_command_strings [simp]: "length command_strings = 71"
  by (simp add: command_strings_def)

lemma distinct_command_strings: "distinct command_strings"
  by (simp add: command_strings_def)

lemma unat_command_code: "all_commands ! unat (command_code c) = c \<and> unat (command_code c) < 71"
  by (cases c) (simp_all add: all_commands_def)

lemma command_code_inj: "unat (command_code c) = unat (command_code d) \<Longrightarrow> c = d"
  using unat_command_code by metis

lemma GetCommandString_Some:
  "GetCommandString (command_code c) = Some (command_strings ! unat (command_code c))"
  using unat_command_code [of c] by (simp add: GetCommandString_def)

lemma command_names_unique:
  "GetCommandString (command_code c) = GetCommandString (command_code d) \<longleftrightarrow> c = d"
  using unat_command_code distinct_command_strings
  by (auto simp: GetCommandString_Some nth_eq_iff_index_eq command_code_inj)

end
