(* ===== verification/Mmbp_Request.thy ===== *)
theory Mmbp_Request
  imports Mmbp_Wire Command
begin

text \<open>
  \<open>MmbpRequest\<close> (\<open>mmbp_request.h\<close>, \<open>mmbp_request.cc\<close>): the fields of a request, the bits that
  say which of them are present, and its serializer and parser. The anonymous union of
  \<open>count\<close> and \<open>range\<close> is a datatype of its active member; reading the other member is
  undefined. An uninitialised \<open>expire_time\<close> or \<open>range.right\<close> is \<open>None\<close>.
\<close>

datatype count_or_range = Inactive | Count u32 | Range u64 "u64 option"

record MmbpRequest =
  rq_has_bits :: byte
  rq_command :: u16
  rq_key :: bstring
  rq_kvs :: StrKvs
  rq_values :: StrValues
  rq_value :: bstring
  rq_vmembers :: WeightValues
  rq_expire_time :: "u64 option"
  rq_union :: count_or_range

definition MmbpRequest_init :: MmbpRequest where
  "MmbpRequest_init = \<lparr>rq_has_bits = 0, rq_command = COMMAND_NUM, rq_key = [], rq_kvs = [],
     rq_values = [], rq_value = [], rq_vmembers = [], rq_expire_time = None, rq_union = Inactive\<rparr>"

section \<open>The presence bits\<close>

definition rq_set_bit :: "nat \<Rightarrow> MmbpRequest \<Rightarrow> MmbpRequest" where
  "rq_set_bit i r = r\<lparr>rq_has_bits := SetBit (rq_has_bits r) i\<rparr>"

definition rq_SetKey :: "MmbpRequest \<Rightarrow> MmbpRequest" where "rq_SetKey = rq_set_bit 0"
definition rq_SetValue :: "MmbpRequest \<Rightarrow> MmbpRequest" where "rq_SetValue = rq_set_bit 1"
definition rq_SetExpireTime :: "MmbpRequest \<Rightarrow> MmbpRequest" where "rq_SetExpireTime = rq_set_bit 2"
definition rq_SetValues :: "MmbpRequest \<Rightarrow> MmbpRequest" where "rq_SetValues = rq_set_bit 3"
definition rq_SetKvs :: "MmbpRequest \<Rightarrow> MmbpRequest" where "rq_SetKvs = rq_set_bit 4"
definition rq_SetCount :: "MmbpRequest \<Rightarrow> MmbpRequest" where "rq_SetCount = rq_set_bit 5"
definition rq_SetRange :: "MmbpRequest \<Rightarrow> MmbpRequest" where "rq_SetRange = rq_set_bit 6"
definition rq_SetVmembers :: "MmbpRequest \<Rightarrow> MmbpRequest" where "rq_SetVmembers = rq_set_bit 7"

definition rq_SetWeightRange :: "double \<Rightarrow> double \<Rightarrow> MmbpRequest \<Rightarrow> MmbpRequest" where
  "rq_SetWeightRange l r req = (rq_SetRange req)\<lparr>rq_union := Range (double2u64 l) (Some (double2u64 r))\<rparr>"

definition rq_GetWeightRange :: "MmbpRequest \<Rightarrow> (double \<times> double) option" where
  "rq_GetWeightRange req =
     (case rq_union req of Range l (Some r) \<Rightarrow> Some (int2double l, int2double r) | _ \<Rightarrow> None)"

definition rq_HasKey :: "MmbpRequest \<Rightarrow> bool" where "rq_HasKey r = TestBit (rq_has_bits r) 0"
definition rq_HasValue :: "MmbpRequest \<Rightarrow> bool" where "rq_HasValue r = TestBit (rq_has_bits r) 1"
definition rq_HasExpireTime :: "MmbpRequest \<Rightarrow> bool" where "rq_HasExpireTime r = TestBit (rq_has_bits r) 2"
definition rq_HasValues :: "MmbpRequest \<Rightarrow> bool" where "rq_HasValues r = TestBit (rq_has_bits r) 3"
definition rq_HasKvs :: "MmbpRequest \<Rightarrow> bool" where "rq_HasKvs r = TestBit (rq_has_bits r) 4"
definition rq_HasCount :: "MmbpRequest \<Rightarrow> bool" where "rq_HasCount r = TestBit (rq_has_bits r) 5"
definition rq_HasRange :: "MmbpRequest \<Rightarrow> bool" where "rq_HasRange r = TestBit (rq_has_bits r) 6"
definition rq_HasVmembers :: "MmbpRequest \<Rightarrow> bool" where "rq_HasVmembers r = TestBit (rq_has_bits r) 7"
definition rq_HasNone :: "MmbpRequest \<Rightarrow> bool" where "rq_HasNone r = (rq_has_bits r = 0)"

lemmas rq_has_defs = rq_HasKey_def rq_HasValue_def rq_HasExpireTime_def rq_HasValues_def
  rq_HasKvs_def rq_HasCount_def rq_HasRange_def rq_HasVmembers_def

lemmas rq_set_defs = rq_SetKey_def rq_SetValue_def rq_SetExpireTime_def rq_SetValues_def
  rq_SetKvs_def rq_SetCount_def rq_SetRange_def rq_SetVmembers_def rq_set_bit_def

section \<open>SerializeTo\<close>

text \<open>
  The payload is the first present one in the order value, values, kvs, count, range,
  vmembers. The two overloads (\<open>Buffer\<close>, \<open>ChunkList\<close>) have the same body.
\<close>

definition rq_SerializePayload :: "kvarint \<Rightarrow> 'b buffer_ops \<Rightarrow> MmbpRequest \<Rightarrow> 'b \<Rightarrow> 'b option" where
  "rq_SerializePayload K C r buffer =
     (if rq_HasValue r then Some (SerializeComponent_str K C (rq_value r) False buffer)
      else if rq_HasValues r then Some (SerializeComponent_strs K C (rq_values r) buffer)
      else if rq_HasKvs r then Some (SerializeComponent_kvs K C (rq_kvs r) buffer)
      else if rq_HasCount r then
        (case rq_union r of Count c \<Rightarrow> Some (SerializeComponent_u32 K C c buffer) | _ \<Rightarrow> None)
      else if rq_HasRange r then
        (case rq_union r of
           Range left (Some right) \<Rightarrow>
             Some (SerializeComponent_i64 K C right (SerializeComponent_i64 K C left buffer))
         | _ \<Rightarrow> None)
      else if rq_HasVmembers r then Some (SerializeComponent_weights K C (rq_vmembers r) buffer)
      else Some buffer)"

definition rq_SerializeTo :: "kvarint \<Rightarrow> 'b buffer_ops \<Rightarrow> MmbpRequest \<Rightarrow> 'b \<Rightarrow> 'b option" where
  "rq_SerializeTo K C r buffer = do {
     let buffer = SerializeComponent_u16 K C (rq_command r) buffer;
     let buffer = SerializeComponent_u8 K C (rq_has_bits r) buffer;
     let buffer = (if rq_HasKey r then SerializeComponent_str K C (rq_key r) True buffer else buffer);
     buffer \<leftarrow> rq_SerializePayload K C r buffer;
     (if rq_HasExpireTime r then do {
        t \<leftarrow> rq_expire_time r;
        Some (SerializeComponent_u64 K C t buffer) }
      else Some buffer) }"

text \<open>The overload for a \<open>Buffer\<close> repeats the one for a \<open>ChunkList\<close>; both write the same.\<close>

definition rq_SerializeTo_Buffer :: "kvarint \<Rightarrow> 'b buffer_ops \<Rightarrow> MmbpRequest \<Rightarrow> 'b \<Rightarrow> 'b option" where
  "rq_SerializeTo_Buffer K B r buffer = do {
     let buffer = SerializeComponent_u8 K B (rq_has_bits r) (SerializeComponent_u16 K B (rq_command r) buffer);
     let buffer = (if rq_HasKey r then SerializeComponent_str K B (rq_key r) True buffer else buffer);
     buffer \<leftarrow>
       (if rq_HasValue r then Some (SerializeComponent_str K B (rq_value r) False buffer)
        else if rq_HasValues r then Some (SerializeComponent_strs K B (rq_values r) buffer)
        else if rq_HasKvs r then Some (SerializeComponent_kvs K B (rq_kvs r) buffer)
        else if rq_HasCount r \<or> rq_HasRange r then rq_SerializePayload K B r buffer
        else if rq_HasVmembers r then Some (SerializeComponent_weights K B (rq_vmembers r) buffer)
        else Some buffer);
     (if rq_HasExpireTime r
      then map_option (\<lambda>t. SerializeComponent_u64 K B t buffer) (rq_expire_time r)
      else Some buffer) }"

lemma rq_SerializeTo_Buffer_eq: "rq_SerializeTo_Buffer K B r buffer = rq_SerializeTo K B r buffer"
  by (cases "rq_expire_time r")
    (auto simp: rq_SerializeTo_Buffer_def rq_SerializeTo_def rq_SerializePayload_def Let_def
      split: bind_splits)

section \<open>ParseFrom\<close>

text \<open>
  The results of the component parsers are ignored, except for the command, the bits and the
  range. The first component of the result is the returned flag.
\<close>

definition rq_ParseKey :: "kvarint \<Rightarrow> 'b buffer_ops \<Rightarrow> MmbpRequest \<Rightarrow> 'b \<Rightarrow> (MmbpRequest \<times> 'b) option" where
  "rq_ParseKey K B r buffer =
     (if rq_HasKey r then do {
        (k, buffer) \<leftarrow> ParseComponent_str K B True buffer;
        Some (r\<lparr>rq_key := k\<rparr>, buffer) }
      else Some (r, buffer))"

text \<open>\<open>range.left\<close> is written before \<open>range.right\<close> is parsed, so it makes the range active.\<close>

definition rq_ParseRange :: "kvarint \<Rightarrow> 'b buffer_ops \<Rightarrow> MmbpRequest \<Rightarrow> 'b \<Rightarrow> bool \<times> MmbpRequest \<times> 'b" where
  "rq_ParseRange K B r buffer =
     (case ParseComponent_i64 K B buffer of
        (None, buffer) \<Rightarrow> (False, r, buffer)
      | (Some left, buffer) \<Rightarrow>
          (let right0 = (case rq_union r of Range _ right \<Rightarrow> right | _ \<Rightarrow> None);
               r = r\<lparr>rq_union := Range left right0\<rparr>
           in case ParseComponent_i64 K B buffer of
                (None, buffer) \<Rightarrow> (False, r, buffer)
              | (Some right, buffer) \<Rightarrow> (True, r\<lparr>rq_union := Range left (Some right)\<rparr>, buffer)))"

definition rq_ParsePayload ::
    "kvarint \<Rightarrow> 'b buffer_ops \<Rightarrow> MmbpRequest \<Rightarrow> 'b \<Rightarrow> (bool \<times> MmbpRequest \<times> 'b) option" where
  "rq_ParsePayload K B r buffer =
     (if rq_HasValue r then do {
        (v, buffer) \<leftarrow> ParseComponent_str K B False buffer;
        Some (True, r\<lparr>rq_value := v\<rparr>, buffer) }
      else if rq_HasValues r then do {
        (vs, buffer) \<leftarrow> ParseComponent_strs K B (rq_values r) buffer;
        Some (True, r\<lparr>rq_values := vs\<rparr>, buffer) }
      else if rq_HasKvs r then do {
        (kvs, buffer) \<leftarrow> ParseComponent_kvs K B (rq_kvs r) buffer;
        Some (True, r\<lparr>rq_kvs := kvs\<rparr>, buffer) }
      else if rq_HasCount r then
        (let (c, buffer) = ParseComponent_u32 K B buffer
         in Some (True, (case c of Some c \<Rightarrow> r\<lparr>rq_union := Count c\<rparr> | None \<Rightarrow> r), buffer))
      else if rq_HasRange r then Some (rq_ParseRange K B r buffer)
      else if rq_HasVmembers r then do {
        (wvs, buffer) \<leftarrow> ParseComponent_weights K B (rq_vmembers r) buffer;
        Some (True, r\<lparr>rq_vmembers := wvs\<rparr>, buffer) }
      else Some (True, r, buffer))"

definition rq_ParseExpireTime :: "kvarint \<Rightarrow> 'b buffer_ops \<Rightarrow> MmbpRequest \<Rightarrow> 'b \<Rightarrow> MmbpRequest \<times> 'b" where
  "rq_ParseExpireTime K B r buffer =
     (if rq_HasExpireTime r
      then (let (t, buffer) = ParseComponent_u64 K B buffer
            in (case t of Some t \<Rightarrow> r\<lparr>rq_expire_time := Some t\<rparr> | None \<Rightarrow> r, buffer))
      else (r, buffer))"

definition rq_ParseFrom ::
    "kvarint \<Rightarrow> 'b buffer_ops \<Rightarrow> MmbpRequest \<Rightarrow> 'b \<Rightarrow> (bool \<times> MmbpRequest \<times> 'b) option" where
  "rq_ParseFrom K B r buffer =
     (case ParseComponent_u16 K B buffer of
        (None, buffer) \<Rightarrow> Some (False, r, buffer)
      | (Some command, buffer) \<Rightarrow>
          (let r = r\<lparr>rq_command := command\<rparr>
           in case ParseComponent_u8 K B buffer of
                (None, buffer) \<Rightarrow> Some (False, r, buffer)
              | (Some bits, buffer) \<Rightarrow> do {
                  (r, buffer) \<leftarrow> rq_ParseKey K B (r\<lparr>rq_has_bits := bits\<rparr>) buffer;
                  (ok, r, buffer) \<leftarrow> rq_ParsePayload K B r buffer;
                  (if ok
                   then (let (r, buffer) = rq_ParseExpireTime K B r buffer in Some (True, r, buffer))
                   else Some (False, r, buffer)) }))"

section \<open>Reset and PeekCommand\<close>

text \<open>\<open>Reset\<close> keeps the command, the expire time and the union.\<close>

definition rq_Reset :: "MmbpRequest \<Rightarrow> MmbpRequest" where
  "rq_Reset r = r\<lparr>rq_has_bits := 0, rq_key := [], rq_kvs := [], rq_values := [], rq_value := [],
     rq_vmembers := []\<rparr>"

definition rq_PeekCommand :: "kvarint \<Rightarrow> 'b buffer_ops \<Rightarrow> 'b \<Rightarrow> u16 option" where
  "rq_PeekCommand K B buffer =
     (case kvarint_decode16 K (readable B buffer) of KVARINT_OK len cmd \<Rightarrow> Some cmd | _ \<Rightarrow> None)"

text \<open>
  \<open>DebugPrint\<close> indexes the name table for every command up to \<open>COMMAND_NUM\<close> included; the
  lines it logs after the command do not change any state.
\<close>

definition rq_DebugPrint_command :: "MmbpRequest \<Rightarrow> string option option" where
  "rq_DebugPrint_command r =
     (if rq_command r \<le> COMMAND_NUM then map_option Some (GetCommandString (rq_command r))
      else Some None)"

section \<open>Round trip\<close>

text \<open>
  A request is well formed when what its bits select is there and fits the format; then
  \<open>rq_wire\<close> is what it looks like on the wire, and \<open>rq_carried\<close> is the request a fresh
  message becomes when it reads those bytes: the selected fields and nothing else.
\<close>

definition rq_wf :: "MmbpRequest \<Rightarrow> bool" where
  "rq_wf r \<longleftrightarrow>
     (rq_HasKey r \<longrightarrow> fits_str True (rq_key r))
   \<and> (if rq_HasValue r then fits_str False (rq_value r)
      else if rq_HasValues r then fits_strs (rq_values r)
      else if rq_HasKvs r then fits_kvs (rq_kvs r)
      else if rq_HasCount r then (\<exists>c. rq_union r = Count c)
      else if rq_HasRange r then (\<exists>left right. rq_union r = Range left (Some right))
      else if rq_HasVmembers r then fits_weights (rq_vmembers r)
      else True)
   \<and> (rq_HasExpireTime r \<longrightarrow> rq_expire_time r \<noteq> None)"

definition rq_wire_payload :: "kvarint \<Rightarrow> 'b buffer_ops \<Rightarrow> MmbpRequest \<Rightarrow> byte list" where
  "rq_wire_payload K B r =
     (if rq_HasValue r then wire_str K False (rq_value r)
      else if rq_HasValues r then wire_strs K (rq_values r)
      else if rq_HasKvs r then wire_kvs K (rq_kvs r)
      else if rq_HasCount r then (case rq_union r of Count c \<Rightarrow> kvarint_encode32 K c | _ \<Rightarrow> [])
      else if rq_HasRange r then
        (case rq_union r of
           Range left (Some right) \<Rightarrow> kvarint_encode64s K left @ kvarint_encode64s K right | _ \<Rightarrow> [])
      else if rq_HasVmembers r then wire_weights K B (rq_vmembers r)
      else [])"

definition rq_wire :: "kvarint \<Rightarrow> 'b buffer_ops \<Rightarrow> MmbpRequest \<Rightarrow> byte list" where
  "rq_wire K B r =
     kvarint_encode16 K (rq_command r) @ kvarint_encode8 K (rq_has_bits r)
     @ (if rq_HasKey r then wire_str K True (rq_key r) else [])
     @ rq_wire_payload K B r
     @ (if rq_HasExpireTime r then kvarint_encode64 K (the (rq_expire_time r)) else [])"

definition rq_take_payload :: "MmbpRequest \<Rightarrow> MmbpRequest \<Rightarrow> MmbpRequest" where
  "rq_take_payload r r0 =
     (if rq_HasValue r then r0\<lparr>rq_value := rq_value r\<rparr>
      else if rq_HasValues r then r0\<lparr>rq_values := rq_values r\<rparr>
      else if rq_HasKvs r then r0\<lparr>rq_kvs := rq_kvs r\<rparr>
      else if rq_HasCount r \<or> rq_HasRange r then r0\<lparr>rq_union := rq_union r\<rparr>
      else if rq_HasVmembers r then r0\<lparr>rq_vmembers := rq_vmembers r\<rparr>
      else r0)"

definition rq_carried :: "MmbpRequest \<Rightarrow> MmbpRequest" where
  "rq_carried r =
     (rq_take_payload r
        (MmbpRequest_init\<lparr>rq_command := rq_command r, rq_has_bits := rq_has_bits r,
           rq_key := (if rq_HasKey r then rq_key r else [])\<rparr>))
     \<lparr>rq_expire_time := (if rq_HasExpireTime r then rq_expire_time r else None)\<rparr>"

lemma rq_SerializePayload_wire:
  assumes "kanon_buffer C" and "rq_wf r"
  shows "\<exists>c'. rq_SerializePayload K C r c = Some c' \<and> readable C c' = readable C c @ rq_wire_payload K C r"
  using assms by (auto simp: rq_SerializePayload_def rq_wire_payload_def rq_wf_def wire_simps)

lemma rq_SerializeTo_wire:
  assumes C: "kanon_buffer C" and wf: "rq_wf r"
  shows "\<exists>c'. rq_SerializeTo K C r c = Some c' \<and> readable C c' = readable C c @ rq_wire K C r"
proof -
  let ?c1 = "SerializeComponent_u8 K C (rq_has_bits r) (SerializeComponent_u16 K C (rq_command r) c)"
  let ?c2 = "if rq_HasKey r then SerializeComponent_str K C (rq_key r) True ?c1 else ?c1"
  obtain c3 where c3: "rq_SerializePayload K C r ?c2 = Some c3"
    "readable C c3 = readable C ?c2 @ rq_wire_payload K C r"
    using rq_SerializePayload_wire [OF C wf] by blast
  then show ?thesis
    using C wf by (auto simp: rq_SerializeTo_def rq_wire_def rq_wf_def Let_def wire_simps)
qed

lemma rq_ParseRange_wire:
  assumes B: "kanon_buffer B" and K: "kvarint_spec K"
    and b: "readable B b = kvarint_encode64s K left @ kvarint_encode64s K right @ rest"
  shows "\<exists>b'. rq_ParseRange K B r0 b = (True, r0\<lparr>rq_union := Range left (Some right)\<rparr>, b')
    \<and> readable B b' = rest"
proof -
  from readsE [OF reads_ints(5) [OF B K] b] obtain b1 where
    b1: "ParseComponent_i64 K B b = (Some left, b1)" "readable B b1 = kvarint_encode64s K right @ rest"
    by auto
  from readsE [OF reads_ints(5) [OF B K] b1(2)] obtain b2 where
    "ParseComponent_i64 K B b1 = (Some right, b2)" "readable B b2 = rest"
    by auto
  with b1(1) show ?thesis by (simp add: rq_ParseRange_def Let_def)
qed

lemma rq_ParsePayload_wire:
  assumes B: "kanon_buffer B" and K: "kvarint_spec K" and wf: "rq_wf r"
    and bits: "rq_has_bits r0 = rq_has_bits r"
    and fresh: "rq_values r0 = []" "rq_kvs r0 = []" "rq_vmembers r0 = []"
    and b: "readable B b = rq_wire_payload K B r @ rest"
  shows "\<exists>b'. rq_ParsePayload K B r0 b = Some (True, rq_take_payload r r0, b') \<and> readable B b' = rest"
proof -
  have has: "rq_HasValue r0 = rq_HasValue r" "rq_HasValues r0 = rq_HasValues r"
    "rq_HasKvs r0 = rq_HasKvs r" "rq_HasCount r0 = rq_HasCount r" "rq_HasRange r0 = rq_HasRange r"
    "rq_HasVmembers r0 = rq_HasVmembers r"
    by (simp_all add: rq_has_defs bits)
  note defs = rq_ParsePayload_def rq_take_payload_def rq_wf_def rq_wire_payload_def has fresh
  consider "rq_HasValue r" | "\<not> rq_HasValue r" "rq_HasValues r"
    | "\<not> rq_HasValue r" "\<not> rq_HasValues r" "rq_HasKvs r"
    | (count) "\<not> rq_HasValue r" "\<not> rq_HasValues r" "\<not> rq_HasKvs r" "rq_HasCount r"
    | (range) "\<not> rq_HasValue r" "\<not> rq_HasValues r" "\<not> rq_HasKvs r" "\<not> rq_HasCount r" "rq_HasRange r"
    | "\<not> rq_HasValue r" "\<not> rq_HasValues r" "\<not> rq_HasKvs r" "\<not> rq_HasCount r" "\<not> rq_HasRange r"
    by blast
  then show ?thesis
  proof cases
    case 1
    with readsD [OF reads_str [OF B K, of False "rq_value r"], of b rest] b wf show ?thesis
      by (auto simp: defs)
  next
    case 2
    with readsD [OF reads_strs [OF B K, of "rq_values r"], of b rest] b wf show ?thesis
      by (auto simp: defs)
  next
    case 3
    with readsD [OF reads_kvs [OF B K, of "rq_kvs r"], of b rest] b wf show ?thesis
      by (auto simp: defs)
  next
    case count
    with wf obtain c where c: "rq_union r = Count c" by (auto simp: rq_wf_def)
    with readsD [OF reads_ints(3) [OF B K, of c], of b rest] b count show ?thesis
      by (auto simp: defs)
  next
    case range
    with wf obtain left right where u: "rq_union r = Range left (Some right)" by (auto simp: rq_wf_def)
    with rq_ParseRange_wire [OF B K, of b left right rest r0] b range show ?thesis
      by (auto simp: defs)
  next
    case 6
    with readsD [OF reads_weights [OF B K, of "rq_vmembers r"], of b rest] b wf show ?thesis
      by (auto simp: defs)
  qed
qed

lemma rq_ParseFrom_wire:
  assumes B: "kanon_buffer B" and K: "kvarint_spec K" and wf: "rq_wf r"
    and b: "readable B b = rq_wire K B r @ rest"
  shows "\<exists>b'. rq_ParseFrom K B MmbpRequest_init b = Some (True, rq_carried r, b') \<and> readable B b' = rest"
proof -
  let ?r1 = "MmbpRequest_init\<lparr>rq_command := rq_command r, rq_has_bits := rq_has_bits r\<rparr>"
  let ?key = "if rq_HasKey r then wire_str K True (rq_key r) else []"
  let ?exp = "if rq_HasExpireTime r then kvarint_encode64 K (the (rq_expire_time r)) else []"
  let ?r2 = "?r1\<lparr>rq_key := (if rq_HasKey r then rq_key r else [])\<rparr>"
  from b have "readable B b = kvarint_encode16 K (rq_command r) @ (kvarint_encode8 K (rq_has_bits r)
      @ ?key @ rq_wire_payload K B r @ ?exp @ rest)"
    by (simp add: rq_wire_def)
  from readsE [OF reads_ints(2) [OF B K] this] obtain b1 where
    b1: "ParseComponent_u16 K B b = (Some (rq_command r), b1)"
      "readable B b1 = kvarint_encode8 K (rq_has_bits r) @ (?key @ rq_wire_payload K B r @ ?exp @ rest)"
    by auto
  from readsE [OF reads_ints(1) [OF B K] b1(2)] obtain b2 where
    b2: "ParseComponent_u8 K B b1 = (Some (rq_has_bits r), b2)"
      "readable B b2 = ?key @ (rq_wire_payload K B r @ ?exp @ rest)"
    by auto
  have "\<exists>b3. rq_ParseKey K B ?r1 b2 = Some (?r2, b3) \<and> readable B b3 = rq_wire_payload K B r @ (?exp @ rest)"
  proof (cases "rq_HasKey r")
    case True
    with wf have "fits_str True (rq_key r)" by (simp add: rq_wf_def)
    with readsD [OF reads_str [OF B K, of True "rq_key r"], of b2] b2(2) True show ?thesis
      by (fastforce simp: rq_ParseKey_def rq_has_defs)
  next
    case False
    with b2(2) show ?thesis by (simp add: rq_ParseKey_def rq_has_defs MmbpRequest_init_def)
  qed
  then obtain b3 where b3: "rq_ParseKey K B ?r1 b2 = Some (?r2, b3)"
    "readable B b3 = rq_wire_payload K B r @ (?exp @ rest)" by blast
  obtain b4 where b4: "rq_ParsePayload K B ?r2 b3 = Some (True, rq_take_payload r ?r2, b4)"
    "readable B b4 = ?exp @ rest"
    using rq_ParsePayload_wire [OF B K wf _ _ _ _ b3(2), of ?r2] by (auto simp: MmbpRequest_init_def)
  have exp: "\<exists>b5. rq_ParseExpireTime K B (rq_take_payload r ?r2) b4 = (rq_carried r, b5) \<and> readable B b5 = rest"
  proof (cases "rq_HasExpireTime r")
    case True
    with wf obtain t where t: "rq_expire_time r = Some t" by (auto simp: rq_wf_def)
    from b4(2) True t have "readable B b4 = kvarint_encode64 K t @ rest" by simp
    from readsE [OF reads_ints(4) [OF B K] this] obtain b5 where
      "ParseComponent_u64 K B b4 = (Some t, b5)" "readable B b5 = rest" by auto
    moreover have "rq_HasExpireTime (rq_take_payload r ?r2)"
      using True by (simp add: rq_has_defs rq_take_payload_def)
    ultimately show ?thesis
      using True t by (simp add: rq_ParseExpireTime_def rq_carried_def)
  next
    case False
    then have "\<not> rq_HasExpireTime (rq_take_payload r ?r2)"
      by (simp add: rq_has_defs rq_take_payload_def)
    with False b4(2) show ?thesis
      by (simp add: rq_ParseExpireTime_def rq_carried_def rq_take_payload_def MmbpRequest_init_def)
  qed
  with b1(1) b2(1) b3(1) b4(1) show ?thesis
    by (auto simp: rq_ParseFrom_def Let_def)
qed

end
