(* ===== verification/Status.thy ===== *)
theory Status
  imports Prelude
begin

text \<open>
  \<open>mmkv/protocol/status_code.h\<close> and \<open>status_code.cc\<close>: the status codes of a response and
  their texts. A response carries a raw byte that is cast to the enumeration, so the two text
  functions are modelled on bytes: \<open>status_of\<close> is the enumerator of a byte, if it has one.
\<close>

datatype StatusCode =
    S_OK | S_EXISTS | S_NONEXISTS | S_INVALID_MESSAGE | S_INVALID_RANGE | S_VMEMBER_NONEXISTS | S_EXISTS_DIFF_TYPE | S_FIELD_NONEXISTS
  | S_SET_MEMBER_NONEXISTS | S_INVALID_REQUEST | S_SET_NO_MEMBER | S_DEST_EXISTS | S_EXPIRE_DISABLE | S_SHARD_LOCKED | S_SHARD_PROCESSING | S_INVALID_SHARD | S_UNSET

primrec status_code :: "StatusCode \<Rightarrow> byte" where
  "status_code S_OK = 0"
| "status_code S_EXISTS = 1"
| "status_code S_NONEXISTS = 2"
| "status_code S_INVALID_MESSAGE = 3"
| "status_code S_INVALID_RANGE = 4"
| "status_code S_VMEMBER_NONEXISTS = 5"
| "status_code S_EXISTS_DIFF_TYPE = 6"
| "status_code S_FIELD_NONEXISTS = 7"
| "status_code S_SET_MEMBER_NONEXISTS = 8"
| "status_code S_INVALID_REQUEST = 9"
| "status_code S_SET_NO_MEMBER = 10"
| "status_code S_DEST_EXISTS = 11"
| "status_code S_EXPIRE_DISABLE = 12"
| "status_code S_SHARD_LOCKED = 13"
| "status_code S_SHARD_PROCESSING = 14"
| "status_code S_INVALID_SHARD = 15"
| "status_code S_UNSET = 16"

definition all_status :: "StatusCode list" where
  "all_status = [
    S_OK, S_EXISTS, S_NONEXISTS, S_INVALID_MESSAGE, S_INVALID_RANGE, S_VMEMBER_NONEXISTS, S_EXISTS_DIFF_TYPE, S_FIELD_NONEXISTS,
    S_SET_MEMBER_NONEXISTS, S_INVALID_REQUEST, S_SET_NO_MEMBER, S_DEST_EXISTS, S_EXPIRE_DISABLE, S_SHARD_LOCKED, S_SHARD_PROCESSING, S_INVALID_SHARD, S_UNSET]"

definition status_of :: "byte \<Rightarrow> StatusCode option" where
  "status_of b = (if unat b < length all_status then Some (all_status ! unat b) else None)"

text \<open>\<open>GetStatusMessage\<close> aborts the process in its default case: \<open>None\<close>.\<close>

definition GetStatusMessage :: "byte \<Rightarrow> string option" where
  "GetStatusMessage code = (case status_of code of None \<Rightarrow> None | Some s \<Rightarrow> (case s of
       S_OK \<Rightarrow> Some ''OK''
     | S_EXISTS \<Rightarrow> Some ''ERROR: Key already exists''
     | S_NONEXISTS \<Rightarrow> Some (''ERROR: Key doesn'' @ CHR 0x27 # ''t exists'')
     | S_INVALID_MESSAGE \<Rightarrow> Some ''ERROR: Invalid message''
     | S_INVALID_RANGE \<Rightarrow> Some ''ERROR: Invalid range''
     | S_VMEMBER_NONEXISTS \<Rightarrow> Some (''ERROR: Member doesn'' @ CHR 0x27 # ''t exists in vset'')
     | S_EXISTS_DIFF_TYPE \<Rightarrow> Some ''ERROR: Key exists but with different type''
     | S_FIELD_NONEXISTS \<Rightarrow> Some (''ERROR: Field doesn'' @ CHR 0x27 # ''t exists'')
     | S_SET_MEMBER_NONEXISTS \<Rightarrow> Some (''ERROR: Member doesn'' @ CHR 0x27 # ''t exists in set'')
     | S_INVALID_REQUEST \<Rightarrow> Some ''ERROR: Invalid request(client error)''
     | S_SET_NO_MEMBER \<Rightarrow> Some ''ERROR: No member in the set''
     | S_DEST_EXISTS \<Rightarrow> Some ''ERROR: The destination set already exists''
     | S_EXPIRE_DISABLE \<Rightarrow> Some ''ERROR: The expiration is disable''
     | S_SHARD_LOCKED \<Rightarrow> Some ''ERROR: The shard which key belonging is locked''
     | _ \<Rightarrow> None))"

definition StatusCode2Str :: "byte \<Rightarrow> string" where
  "StatusCode2Str code = (case status_of code of None \<Rightarrow> ''Unknown status code'' | Some s \<Rightarrow> (case s of
       S_OK \<Rightarrow> ''ok''
     | S_EXISTS \<Rightarrow> ''exists''
     | S_NONEXISTS \<Rightarrow> ''nonexists''
     | S_INVALID_MESSAGE \<Rightarrow> ''invalid message''
     | S_INVALID_RANGE \<Rightarrow> ''invalid range''
     | S_VMEMBER_NONEXISTS \<Rightarrow> ''vmember nonexists''
     | S_EXISTS_DIFF_TYPE \<Rightarrow> ''exists diff type''
     | S_FIELD_NONEXISTS \<Rightarrow> ''field nonexists''
     | S_SET_MEMBER_NONEXISTS \<Rightarrow> ''set member nonexists''
     | S_INVALID_REQUEST \<Rightarrow> ''invalid request''
     | S_SET_NO_MEMBER \<Rightarrow> ''set no member''
     | S_DEST_EXISTS \<Rightarrow> ''dest exists''
     | S_EXPIRE_DISABLE \<Rightarrow> ''expire disable''
     | S_SHARD_PROCESSING \<Rightarrow> ''Shard is processing''
     | S_INVALID_SHARD \<Rightarrow> ''The mmkvd don'' @ CHR 0x27 # ''t hold the shard''
     | _ \<Rightarrow> ''Unknown status code''))"

lemma all_status_nth: "all_status ! unat (status_code s) = s \<and> unat (status_code s) < 17"
  by (cases s) (simp_all add: all_status_def)

lemma length_all_status [simp]: "length all_status = 17"
  by (simp add: all_status_def)

lemma status_of_code [simp]: "status_of (status_code s) = Some s"
  using all_status_nth [of s] by (simp add: status_of_def)

lemma status_of_Some: "status_of b = Some s \<longleftrightarrow> b = status_code s"
proof
  assume s: "status_of b = Some s"
  then have "unat b < 17" "all_status ! unat b = s" by (auto simp: status_of_def split: if_splits)
  moreover have "distinct all_status" by (simp add: all_status_def)
  ultimately have "unat b = unat (status_code s)"
    using all_status_nth [of s] by (metis length_all_status nth_eq_iff_index_eq)
  then show "b = status_code s" by (simp add: word_unat_eq_iff)
qed simp

text \<open>The codes \<open>GetStatusMessage\<close> has a text for; every other byte aborts.\<close>

definition has_message :: "byte \<Rightarrow> bool" where
  "has_message b \<longleftrightarrow> b \<le> status_code S_SHARD_LOCKED"

lemma GetStatusMessage_defined: "GetStatusMessage b \<noteq> None \<longleftrightarrow> has_message b"
proof (cases "status_of b")
  case None
  then have "17 \<le> unat b" by (simp add: status_of_def split: if_splits)
  then show ?thesis using None
    by (simp add: GetStatusMessage_def has_message_def word_le_nat_alt)
next
  case (Some s)
  then have b: "b = status_code s" by (simp add: status_of_Some)
  have "GetStatusMessage b \<noteq> None \<longleftrightarrow> s \<notin> {S_SHARD_PROCESSING, S_INVALID_SHARD, S_UNSET}"
    using Some by (cases s) (simp_all add: GetStatusMessage_def)
  moreover have "has_message b \<longleftrightarrow> s \<notin> {S_SHARD_PROCESSING, S_INVALID_SHARD, S_UNSET}"
    using b by (cases s) (simp_all add: has_message_def)
  ultimately show ?thesis by simp
qed

end
