(* ===== verification/Mmbp_Response.thy ===== *)
theory Mmbp_Response
  imports Mmbp_Wire Status
begin

text \<open>
  \<open>MmbpResponse\<close> (\<open>mmbp_response.h\<close>, \<open>mmbp_response.cc\<close>): a status byte, the presence
  bits and one payload. An uninitialised \<open>count\<close> is \<open>None\<close>.
\<close>

record MmbpResponse =
  rs_has_bits :: byte
  rs_status_code :: byte
  rs_count :: "u64 option"
  rs_value :: bstring
  rs_values :: StrValues
  rs_kvs :: StrKvs
  rs_vmembers :: WeightValues

definition MmbpResponse_init :: MmbpResponse where
  "MmbpResponse_init = \<lparr>rs_has_bits = 0, rs_status_code = - 1, rs_count = None, rs_value = [],
     rs_values = [], rs_kvs = [], rs_vmembers = []\<rparr>"

section \<open>The presence bits\<close>

definition rs_set_bit :: "nat \<Rightarrow> MmbpResponse \<Rightarrow> MmbpResponse" where
  "rs_set_bit i r = r\<lparr>rs_has_bits := SetBit (rs_has_bits r) i\<rparr>"

definition rs_SetOk :: "MmbpResponse \<Rightarrow> MmbpResponse" where
  "rs_SetOk r = r\<lparr>rs_status_code := status_code S_OK\<rparr>"

definition rs_SetValue :: "MmbpResponse \<Rightarrow> MmbpResponse" where "rs_SetValue = rs_set_bit 0"
definition rs_SetValues :: "MmbpResponse \<Rightarrow> MmbpResponse" where "rs_SetValues = rs_set_bit 1"
definition rs_SetKvs :: "MmbpResponse \<Rightarrow> MmbpResponse" where "rs_SetKvs = rs_set_bit 2"
definition rs_SetCount :: "MmbpResponse \<Rightarrow> MmbpResponse" where "rs_SetCount = rs_set_bit 3"
definition rs_SetVmembers :: "MmbpResponse \<Rightarrow> MmbpResponse" where "rs_SetVmembers = rs_set_bit 4"

definition rs_HasValue :: "MmbpResponse \<Rightarrow> bool" where "rs_HasValue r = TestBit (rs_has_bits r) 0"
definition rs_HasValues :: "MmbpResponse \<Rightarrow> bool" where "rs_HasValues r = TestBit (rs_has_bits r) 1"
definition rs_HasKvs :: "MmbpResponse \<Rightarrow> bool" where "rs_HasKvs r = TestBit (rs_has_bits r) 2"
definition rs_HasCount :: "MmbpResponse \<Rightarrow> bool" where "rs_HasCount r = TestBit (rs_has_bits r) 3"
definition rs_HasVmembers :: "MmbpResponse \<Rightarrow> bool" where "rs_HasVmembers r = TestBit (rs_has_bits r) 4"

lemmas rs_has_defs = rs_HasValue_def rs_HasValues_def rs_HasKvs_def rs_HasCount_def rs_HasVmembers_def

lemmas rs_set_defs = rs_SetValue_def rs_SetValues_def rs_SetKvs_def rs_SetCount_def
  rs_SetVmembers_def rs_set_bit_def

section \<open>SerializeTo and ParseFrom\<close>

definition rs_SerializeTo :: "kvarint \<Rightarrow> 'b buffer_ops \<Rightarrow> MmbpResponse \<Rightarrow> 'b \<Rightarrow> 'b option" where
  "rs_SerializeTo K C r buffer =
     (let buffer = SerializeComponent_u8 K C (rs_status_code r) buffer;
          buffer = SerializeComponent_u8 K C (rs_has_bits r) buffer
      in if rs_HasValue r then Some (SerializeComponent_str K C (rs_value r) False buffer)
         else if rs_HasValues r then Some (SerializeComponent_strs K C (rs_values r) buffer)
         else if rs_HasKvs r then Some (SerializeComponent_kvs K C (rs_kvs r) buffer)
         else if rs_HasCount r then
           map_option (\<lambda>c. SerializeComponent_u64 K C c buffer) (rs_count r)
         else if rs_HasVmembers r then Some (SerializeComponent_weights K C (rs_vmembers r) buffer)
         else Some buffer)"

text \<open>The overload for a \<open>Buffer\<close>.\<close>

definition rs_SerializeTo_Buffer :: "kvarint \<Rightarrow> 'b buffer_ops \<Rightarrow> MmbpResponse \<Rightarrow> 'b \<Rightarrow> 'b option" where
  "rs_SerializeTo_Buffer K B r buffer = do {
     let buffer = SerializeComponent_u8 K B (rs_has_bits r) (SerializeComponent_u8 K B (rs_status_code r) buffer);
     (if rs_HasValue r then Some (SerializeComponent_str K B (rs_value r) False buffer)
      else if rs_HasValues r then Some (SerializeComponent_strs K B (rs_values r) buffer)
      else if rs_HasKvs r then Some (SerializeComponent_kvs K B (rs_kvs r) buffer)
      else if rs_HasCount r then do { c \<leftarrow> rs_count r; Some (SerializeComponent_u64 K B c buffer) }
      else if rs_HasVmembers r then Some (SerializeComponent_weights K B (rs_vmembers r) buffer)
      else Some buffer) }"

lemma rs_SerializeTo_Buffer_eq: "rs_SerializeTo_Buffer K B r buffer = rs_SerializeTo K B r buffer"
  by (cases "rs_count r") (simp_all add: rs_SerializeTo_Buffer_def rs_SerializeTo_def Let_def)

definition rs_ParsePayload ::
    "kvarint \<Rightarrow> 'b buffer_ops \<Rightarrow> MmbpResponse \<Rightarrow> 'b \<Rightarrow> (MmbpResponse \<times> 'b) option" where
  "rs_ParsePayload K B r buffer =
     (if rs_HasValue r then do {
        (v, buffer) \<leftarrow> ParseComponent_str K B False buffer;
        Some (r\<lparr>rs_value := v\<rparr>, buffer) }
      else if rs_HasValues r then do {
        (vs, buffer) \<leftarrow> ParseComponent_strs K B (rs_values r) buffer;
        Some (r\<lparr>rs_values := vs\<rparr>, buffer) }
      else if rs_HasKvs r then do {
        (kvs, buffer) \<leftarrow> ParseComponent_kvs K B (rs_kvs r) buffer;
        Some (r\<lparr>rs_kvs := kvs\<rparr>, buffer) }
      else if rs_HasCount r then
        (let (c, buffer) = ParseComponent_u64 K B buffer
         in Some (case c of Some c \<Rightarrow> r\<lparr>rs_count := Some c\<rparr> | None \<Rightarrow> r, buffer))
      else if rs_HasVmembers r then do {
        (wvs, buffer) \<leftarrow> ParseComponent_weights K B (rs_vmembers r) buffer;
        Some (r\<lparr>rs_vmembers := wvs\<rparr>, buffer) }
      else Some (r, buffer))"

definition rs_ParseFrom ::
    "kvarint \<Rightarrow> 'b buffer_ops \<Rightarrow> MmbpResponse \<Rightarrow> 'b \<Rightarrow> (bool \<times> MmbpResponse \<times> 'b) option" where
  "rs_ParseFrom K B r buffer =
     (case ParseComponent_u8 K B buffer of
        (None, buffer) \<Rightarrow> Some (False, r, buffer)
      | (Some code, buffer) \<Rightarrow>
          (let r = r\<lparr>rs_status_code := code\<rparr>
           in case ParseComponent_u8 K B buffer of
                (None, buffer) \<Rightarrow> Some (False, r, buffer)
              | (Some bits, buffer) \<Rightarrow> do {
                  (r, buffer) \<leftarrow> rs_ParsePayload K B (r\<lparr>rs_has_bits := bits\<rparr>) buffer;
                  Some (True, r, buffer) }))"

section \<open>Round trip\<close>

definition rs_wf :: "MmbpResponse \<Rightarrow> bool" where
  "rs_wf r \<longleftrightarrow>
     (if rs_HasValue r then fits_str False (rs_value r)
      else if rs_HasValues r then fits_strs (rs_values r)
      else if rs_HasKvs r then fits_kvs (rs_kvs r)
      else if rs_HasCount r then rs_count r \<noteq> None
      else if rs_HasVmembers r then fits_weights (rs_vmembers r)
      else True)"

definition rs_wire_payload :: "kvarint \<Rightarrow> 'b buffer_ops \<Rightarrow> MmbpResponse \<Rightarrow> byte list" where
  "rs_wire_payload K B r =
     (if rs_HasValue r then wire_str K False (rs_value r)
      else if rs_HasValues r then wire_strs K (rs_values r)
      else if rs_HasKvs r then wire_kvs K (rs_kvs r)
      else if rs_HasCount r then kvarint_encode64 K (the (rs_count r))
      else if rs_HasVmembers r then wire_weights K B (rs_vmembers r)
      else [])"

definition rs_wire :: "kvarint \<Rightarrow> 'b buffer_ops \<Rightarrow> MmbpResponse \<Rightarrow> byte list" where
  "rs_wire K B r =
     kvarint_encode8 K (rs_status_code r) @ kvarint_encode8 K (rs_has_bits r) @ rs_wire_payload K B r"

definition rs_take_payload :: "MmbpResponse \<Rightarrow> MmbpResponse \<Rightarrow> MmbpResponse" where
  "rs_take_payload r r0 =
     (if rs_HasValue r then r0\<lparr>rs_value := rs_value r\<rparr>
      else if rs_HasValues r then r0\<lparr>rs_values := rs_values r\<rparr>
      else if rs_HasKvs r then r0\<lparr>rs_kvs := rs_kvs r\<rparr>
      else if rs_HasCount r then r0\<lparr>rs_count := rs_count r\<rparr>
      else if rs_HasVmembers r then r0\<lparr>rs_vmembers := rs_vmembers r\<rparr>
      else r0)"

definition rs_carried :: "MmbpResponse \<Rightarrow> MmbpResponse" where
  "rs_carried r =
     rs_take_payload r
       (MmbpResponse_init\<lparr>rs_status_code := rs_status_code r, rs_has_bits := rs_has_bits r\<rparr>)"

lemma rs_wire_cong: "net64 C = net64 B \<Longrightarrow> rs_wire K C r = rs_wire K B r"
  by (simp add: rs_wire_def rs_wire_payload_def wire_weights_cong [of C B])

lemma rs_SerializeTo_wire:
  assumes "kanon_buffer C" and "rs_wf r"
  shows "\<exists>c'. rs_SerializeTo K C r c = Some c' \<and> readable C c' = readable C c @ rs_wire K C r"
  using assms by (auto simp: rs_SerializeTo_def rs_wire_def rs_wire_payload_def rs_wf_def Let_def wire_simps)

lemma rs_ParsePayload_wire:
  assumes B: "kanon_buffer B" and K: "kvarint_spec K" and wf: "rs_wf r"
    and bits: "rs_has_bits r0 = rs_has_bits r"
    and fresh: "rs_values r0 = []" "rs_kvs r0 = []" "rs_vmembers r0 = []"
    and b: "readable B b = rs_wire_payload K B r @ rest"
  shows "\<exists>b'. rs_ParsePayload K B r0 b = Some (rs_take_payload r r0, b') \<and> readable B b' = rest"
proof -
  have has: "rs_HasValue r0 = rs_HasValue r" "rs_HasValues r0 = rs_HasValues r"
    "rs_HasKvs r0 = rs_HasKvs r" "rs_HasCount r0 = rs_HasCount r" "rs_HasVmembers r0 = rs_HasVmembers r"
    by (simp_all add: rs_has_defs bits)
  note defs = rs_ParsePayload_def rs_take_payload_def rs_wf_def rs_wire_payload_def has fresh
  consider "rs_HasValue r" | "\<not> rs_HasValue r" "rs_HasValues r"
    | "\<not> rs_HasValue r" "\<not> rs_HasValues r" "rs_HasKvs r"
    | "\<not> rs_HasValue r" "\<not> rs_HasValues r" "\<not> rs_HasKvs r" "rs_HasCount r"
    | "\<not> rs_HasValue r" "\<not> rs_HasValues r" "\<not> rs_HasKvs r" "\<not> rs_HasCount r"
    by blast
  then show ?thesis
  proof cases
    case 1
    with readsD [OF reads_str [OF B K, of False "rs_value r"], of b rest] b wf show ?thesis
      by (auto simp: defs)
  next
    case 2
    with readsD [OF reads_strs [OF B K, of "rs_values r"], of b rest] b wf show ?thesis
      by (auto simp: defs)
  next
    case 3
    with readsD [OF reads_kvs [OF B K, of "rs_kvs r"], of b rest] b wf show ?thesis
      by (auto simp: defs)
  next
    case 4
    with wf obtain c where c: "rs_count r = Some c" by (auto simp: rs_wf_def)
    with readsD [OF reads_ints(4) [OF B K, of c], of b rest] b 4 show ?thesis
      by (auto simp: defs)
  next
    case 5
    with readsD [OF reads_weights [OF B K, of "rs_vmembers r"], of b rest] b wf show ?thesis
      by (auto simp: defs)
  qed
qed

lemma rs_ParseFrom_wire:
  assumes B: "kanon_buffer B" and K: "kvarint_spec K" and wf: "rs_wf r"
    and b: "readable B b = rs_wire K B r @ rest"
  shows "\<exists>b'. rs_ParseFrom K B MmbpResponse_init b = Some (True, rs_carried r, b') \<and> readable B b' = rest"
proof -
  let ?r1 = "MmbpResponse_init\<lparr>rs_status_code := rs_status_code r, rs_has_bits := rs_has_bits r\<rparr>"
  from b have "readable B b = kvarint_encode8 K (rs_status_code r) @ (kvarint_encode8 K (rs_has_bits r)
      @ rs_wire_payload K B r @ rest)"
    by (simp add: rs_wire_def)
  from readsE [OF reads_ints(1) [OF B K] this] obtain b1 where
    b1: "ParseComponent_u8 K B b = (Some (rs_status_code r), b1)"
      "readable B b1 = kvarint_encode8 K (rs_has_bits r) @ (rs_wire_payload K B r @ rest)"
    by auto
  from readsE [OF reads_ints(1) [OF B K] b1(2)] obtain b2 where
    b2: "ParseComponent_u8 K B b1 = (Some (rs_has_bits r), b2)"
      "readable B b2 = rs_wire_payload K B r @ rest"
    by auto
  obtain b3 where "rs_ParsePayload K B ?r1 b2 = Some (rs_carried r, b3)" "readable B b3 = rest"
    using rs_ParsePayload_wire [OF B K wf _ _ _ _ b2(2), of ?r1]
    by (auto simp: MmbpResponse_init_def rs_carried_def)
  with b1(1) b2(1) show ?thesis
    by (auto simp: rs_ParseFrom_def Let_def)
qed

text \<open>
  A response whose parse returns false has no payload: the caller that ignores the flag sees
  the fields the message had before.
\<close>

lemma rs_ParseFrom_False:
  "rs_ParseFrom K B r b = Some (False, r', b') \<Longrightarrow>
     rs_has_bits r' = rs_has_bits r \<and> rs_value r' = rs_value r \<and> rs_values r' = rs_values r
   \<and> rs_kvs r' = rs_kvs r \<and> rs_count r' = rs_count r \<and> rs_vmembers r' = rs_vmembers r"
  by (auto simp: rs_ParseFrom_def Let_def split: prod.splits option.splits bind_splits)

end
