(* ===== verification/Mmbp_Codec.thy ===== *)
theory Mmbp_Codec
  imports Mmbp_Request Mmbp_Response
begin

text \<open>
  \<open>MmbpCodec\<close> (\<open>mmbp_codec.h\<close>, \<open>mmbp_codec.cc\<close>): framing of messages on a TCP stream. A frame
  is a varint of the length that follows, the tag \<open>MMBP\<close>, the message and a checksum. The
  hash is a parameter \<open>xxh32\<close> (the streaming interface of xxHash gives the hash of the
  concatenated chunks); the callbacks are functions on a state of the caller's choice.
\<close>

datatype ErrorCode =
    E_NOERROR | E_INVALID_SIZE_HEADER | E_INVALID_CHECKSUM | E_INVALID_MESSAGE | E_NO_COMPLETE_MESSAGE

definition CHECKSUM_LENGTH :: nat where "CHECKSUM_LENGTH = 4"
definition MAX_SIZE :: nat where "MAX_SIZE = 2 ^ 26"
definition MMBP_TAG :: "byte list" where "MMBP_TAG = [0x4D, 0x4D, 0x42, 0x50]"
definition MMBP_TAG_SIZE :: nat where "MMBP_TAG_SIZE = 4"
definition MIN_SIZE :: nat where "MIN_SIZE = MMBP_TAG_SIZE + CHECKSUM_LENGTH"

lemmas codec_consts = CHECKSUM_LENGTH_def MAX_SIZE_def MMBP_TAG_SIZE_def MIN_SIZE_def

definition GetErrorString :: "ErrorCode \<Rightarrow> string" where
  "GetErrorString code = (case code of
     E_NOERROR \<Rightarrow> ''INFO: OK''
   | E_INVALID_MESSAGE \<Rightarrow> ''FATAL: Invalid message''
   | E_INVALID_CHECKSUM \<Rightarrow> ''FATAL: Invalid CheckSum''
   | E_INVALID_SIZE_HEADER \<Rightarrow> ''FATAL: Invalid size header''
   | E_NO_COMPLETE_MESSAGE \<Rightarrow> ''INFO: This is not a error'')"

section \<open>Sending\<close>

definition codec_SerializeTo ::
    "(byte list \<Rightarrow> u32) \<Rightarrow> kvarint \<Rightarrow> 'b buffer_ops \<Rightarrow> ('b \<Rightarrow> 'b option) \<Rightarrow> 'b \<Rightarrow> 'b option" where
  "codec_SerializeTo xxh32 K C serialize buffer = do {
     buffer \<leftarrow> serialize (Append C MMBP_TAG buffer);
     let checksum = xxh32 (readable C buffer);
     let buffer = Append32 C checksum buffer;
     Some (Prepend C (kvarint_encode32 K (of_nat (length (readable C buffer)))) buffer) }"

text \<open>What a connection is asked to do; \<open>Send\<close> hands it the bytes of a fresh output buffer.\<close>

datatype conn_action = ConnSend "byte list" | ConnShutdownWrite

definition codec_Send ::
    "(byte list \<Rightarrow> u32) \<Rightarrow> kvarint \<Rightarrow> 'b buffer_ops \<Rightarrow> 'b \<Rightarrow> ('b \<Rightarrow> 'b option) \<Rightarrow> conn_action option" where
  "codec_Send xxh32 K C fresh serialize = do {
     buffer \<leftarrow> codec_SerializeTo xxh32 K C serialize fresh;
     Some (ConnSend (readable C buffer)) }"

text \<open>The error callback the constructor installs: a bare response, then a half close.\<close>

definition default_error_cb ::
    "kvarint \<Rightarrow> 'b buffer_ops \<Rightarrow> 'b \<Rightarrow> conn_action list \<Rightarrow> ErrorCode \<Rightarrow> conn_action list option" where
  "default_error_cb K C fresh acts code = do {
     buffer \<leftarrow> rs_SerializeTo K C (MmbpResponse_init\<lparr>rs_status_code := status_code S_INVALID_MESSAGE\<rparr>) fresh;
     Some (acts @ [ConnSend (readable C buffer), ConnShutdownWrite]) }"

section \<open>Receiving\<close>

definition VerifyCheckSum ::
    "(byte list \<Rightarrow> u32) \<Rightarrow> 'b buffer_ops \<Rightarrow> 'b \<Rightarrow> u32 \<Rightarrow> bool option" where
  "VerifyCheckSum xxh32 B buffer size_header = do {
     let n = unat (size_header - of_nat CHECKSUM_LENGTH);
     message \<leftarrow> peek_bytes B n buffer;
     framed \<leftarrow> peek_bytes B (n + CHECKSUM_LENGTH) buffer;
     Some (xxh32 message = host32 B (drop n framed)) }"

datatype ('s, 'b) loop_ctl = Again 's 'b | Done 's 'b

text \<open>
  One turn of the \<open>while (true)\<close> loop of the connection's message callback: \<open>Done\<close> for each
  \<open>break\<close> or \<open>return\<close>. Sizes are compared as \<open>size_t\<close>.
\<close>

definition codec_turn ::
    "(byte list \<Rightarrow> u32) \<Rightarrow> kvarint \<Rightarrow> 'b buffer_ops \<Rightarrow> ('s \<Rightarrow> 'b \<Rightarrow> u32 \<Rightarrow> ('s \<times> 'b) option)
       \<Rightarrow> ('s \<Rightarrow> ErrorCode \<Rightarrow> 's option) \<Rightarrow> 's \<Rightarrow> 'b \<Rightarrow> ('s, 'b) loop_ctl option" where
  "codec_turn xxh32 K B message_cb error_cb s buffer =
     (case kvarint_decode32 K (readable B buffer) of
        KVARINT_DECODE_BUF_INVALID \<Rightarrow> do { s \<leftarrow> error_cb s E_INVALID_MESSAGE; Some (Done s buffer) }
      | KVARINT_DECODE_BUF_SHORT \<Rightarrow> Some (Done s buffer)
      | KVARINT_OK size_header_len size_header \<Rightarrow>
          (if unat size_header < MIN_SIZE
              \<or> (ucast size_header :: size_t) \<ge> of_nat MAX_SIZE - of_nat size_header_len
           then do { s \<leftarrow> error_cb s E_INVALID_SIZE_HEADER; Some (Done s buffer) }
           else if (of_nat (length (readable B buffer)) - of_nat size_header_len :: size_t) < ucast size_header
           then Some (Done s buffer)
           else do {
             let buffer = AdvanceRead B size_header_len buffer;
             valid \<leftarrow> VerifyCheckSum xxh32 B buffer size_header;
             (if \<not> valid then do { s \<leftarrow> error_cb s E_INVALID_CHECKSUM; Some (Done s buffer) }
              else do {
                tag \<leftarrow> peek_bytes B MMBP_TAG_SIZE buffer;
                (if tag \<noteq> MMBP_TAG then do { s \<leftarrow> error_cb s E_INVALID_MESSAGE; Some (Done s buffer) }
                 else do {
                   let buffer = AdvanceRead B MMBP_TAG_SIZE buffer;
                   (s, buffer) \<leftarrow> message_cb s buffer
                     (size_header - of_nat MMBP_TAG_SIZE - of_nat CHECKSUM_LENGTH);
                   Some (Again s (AdvanceRead B 4 buffer)) }) }) }))"

partial_function (option) codec_loop ::
    "(byte list \<Rightarrow> u32) \<Rightarrow> kvarint \<Rightarrow> 'b buffer_ops \<Rightarrow> ('s \<Rightarrow> 'b \<Rightarrow> u32 \<Rightarrow> ('s \<times> 'b) option)
       \<Rightarrow> ('s \<Rightarrow> ErrorCode \<Rightarrow> 's option) \<Rightarrow> 's \<Rightarrow> 'b \<Rightarrow> ('s \<times> 'b) option" where
  [code]: "codec_loop xxh32 K B message_cb error_cb s buffer =
     do {
       r \<leftarrow> codec_turn xxh32 K B message_cb error_cb s buffer;
       (case r of
          Done s buffer \<Rightarrow> Some (s, buffer)
        | Again s buffer \<Rightarrow> codec_loop xxh32 K B message_cb error_cb s buffer) }"

definition codec_OnMessage ::
    "(byte list \<Rightarrow> u32) \<Rightarrow> kvarint \<Rightarrow> 'b buffer_ops \<Rightarrow> ('s \<Rightarrow> 'b \<Rightarrow> u32 \<Rightarrow> ('s \<times> 'b) option)
       \<Rightarrow> ('s \<Rightarrow> ErrorCode \<Rightarrow> 's option) \<Rightarrow> 's \<Rightarrow> 'b \<Rightarrow> ('s \<times> 'b) option" where
  "codec_OnMessage xxh32 K B message_cb error_cb s buffer =
     (if MAX_SIZE \<le> length (readable B buffer)
      then do { s \<leftarrow> error_cb s E_INVALID_SIZE_HEADER; Some (s, AdvanceAll B buffer) }
      else codec_loop xxh32 K B message_cb error_cb s buffer)"

text \<open>
  The deprecated \<open>Parse\<close>: inside the branch it declares a second \<open>size_header\<close> that reads
  four bytes in network order, and it assigns the new message to its own parameter, so the
  caller's message is not part of the result.
\<close>

definition codec_Parse ::
    "(byte list \<Rightarrow> u32) \<Rightarrow> kvarint \<Rightarrow> 'b buffer_ops \<Rightarrow> ('b \<Rightarrow> (bool \<times> 'm \<times> 'b) option)
       \<Rightarrow> 'b \<Rightarrow> (ErrorCode \<times> 'b) option" where
  "codec_Parse xxh32 K B parse_new buffer =
     (case kvarint_decode32 K (readable B buffer) of
        KVARINT_OK size_header_len _ \<Rightarrow> do {
          bs \<leftarrow> peek_bytes B 4 buffer;
          let size_header = host32 B bs;
          let size = length (readable B buffer);
          (if size < MIN_SIZE \<or> MAX_SIZE \<le> size then Some (E_INVALID_MESSAGE, buffer)
           else if (of_nat size - of_nat size_header_len :: size_t) \<ge> ucast size_header then do {
             let buffer = AdvanceRead B 4 buffer;
             (if unat size_header < MIN_SIZE \<or> MAX_SIZE \<le> unat size_header
              then Some (E_INVALID_SIZE_HEADER, buffer)
              else do {
                valid \<leftarrow> VerifyCheckSum xxh32 B buffer size_header;
                (if valid then do {
                   tag \<leftarrow> peek_bytes B MMBP_TAG_SIZE buffer;
                   (if tag \<noteq> MMBP_TAG then Some (E_INVALID_MESSAGE, buffer)
                    else do {
                      (ok, message, buffer) \<leftarrow> parse_new (AdvanceRead B MMBP_TAG_SIZE buffer);
                      (if \<not> ok then Some (E_INVALID_MESSAGE, buffer)
                       else Some (E_NOERROR, AdvanceRead B 4 buffer)) }) }
                 else Some (E_INVALID_CHECKSUM, buffer)) }) }
           else Some (E_NO_COMPLETE_MESSAGE, buffer)) }
      | _ \<Rightarrow> Some (E_NO_COMPLETE_MESSAGE, buffer))"

end
