(* ===== verification/Mmbp_Frame.thy ===== *)
theory Mmbp_Frame
  imports Mmbp_Codec
begin

text \<open>
  The abstract specification of the codec: \<open>frame\<close> is the byte string of one message,
  \<open>deframe\<close> cuts a byte stream into message bodies, the error that stops it, if any, and the
  bytes left. The receive loop refines \<open>deframe\<close>, \<open>deframe\<close> inverts \<open>frame\<close>, and cutting a
  stream into pieces does not change what is received.
\<close>

section \<open>The specification\<close>

definition frame_body :: "(byte list \<Rightarrow> u32) \<Rightarrow> 'b buffer_ops \<Rightarrow> byte list \<Rightarrow> byte list" where
  "frame_body xxh32 C msg = MMBP_TAG @ msg @ net32 C (xxh32 (MMBP_TAG @ msg))"

definition frame :: "(byte list \<Rightarrow> u32) \<Rightarrow> kvarint \<Rightarrow> 'b buffer_ops \<Rightarrow> byte list \<Rightarrow> byte list" where
  "frame xxh32 K C msg =
     kvarint_encode32 K (of_nat (length (frame_body xxh32 C msg))) @ frame_body xxh32 C msg"

text \<open>The first frame of a stream: its body and what follows, or why there is none.\<close>

datatype deframed = Frame "byte list" "byte list" | Incomplete | Broken ErrorCode "byte list"

definition deframe1 :: "(byte list \<Rightarrow> u32) \<Rightarrow> kvarint \<Rightarrow> (byte list \<Rightarrow> u32) \<Rightarrow> byte list \<Rightarrow> deframed" where
  "deframe1 xxh32 K host xs =
     (case kvarint_decode32 K xs of
        KVARINT_DECODE_BUF_INVALID \<Rightarrow> Broken E_INVALID_MESSAGE xs
      | KVARINT_DECODE_BUF_SHORT \<Rightarrow> Incomplete
      | KVARINT_OK n sz \<Rightarrow>
          (let size = unat sz; ys = drop n xs in
           if size < MIN_SIZE \<or> MAX_SIZE \<le> size + n then Broken E_INVALID_SIZE_HEADER xs
           else if length ys < size then Incomplete
           else if xxh32 (take (size - 4) ys) \<noteq> host (take 4 (drop (size - 4) ys))
             then Broken E_INVALID_CHECKSUM ys
           else if take 4 ys \<noteq> MMBP_TAG then Broken E_INVALID_MESSAGE ys
           else Frame (take (size - 8) (drop 4 ys)) (drop size ys)))"

lemma deframe1_shorter:
  "deframe1 xxh32 K host xs = Frame body rest \<Longrightarrow> length rest < length xs"
  by (auto simp: deframe1_def Let_def codec_consts split: kvarint_result.splits if_splits)

function deframe ::
    "(byte list \<Rightarrow> u32) \<Rightarrow> kvarint \<Rightarrow> (byte list \<Rightarrow> u32) \<Rightarrow> byte list
       \<Rightarrow> byte list list \<times> ErrorCode option \<times> byte list" where
  "deframe xxh32 K host xs =
     (case deframe1 xxh32 K host xs of
        Incomplete \<Rightarrow> ([], None, xs)
      | Broken e rest \<Rightarrow> ([], Some e, rest)
      | Frame body rest \<Rightarrow>
          (case deframe xxh32 K host rest of (bodies, e, left) \<Rightarrow> (body # bodies, e, left)))"
  by pat_completeness auto
termination
  by (relation "measure (\<lambda>(_, _, _, xs). length xs)") (auto dest: deframe1_shorter)

declare deframe.simps [simp del]

lemma deframe_Incomplete: "deframe1 xxh32 K host xs = Incomplete \<Longrightarrow> deframe xxh32 K host xs = ([], None, xs)"
  by (subst deframe.simps) simp

lemma deframe_Broken: "deframe1 xxh32 K host xs = Broken e ys \<Longrightarrow> deframe xxh32 K host xs = ([], Some e, ys)"
  by (subst deframe.simps) simp

lemma deframe1_Broken_le: "deframe1 xxh32 K host xs = Broken e rest \<Longrightarrow> length rest \<le> length xs"
  by (auto simp: deframe1_def Let_def split: kvarint_result.splits if_splits)

lemma deframe_left: "length (snd (snd (deframe xxh32 K host xs))) \<le> length xs"
proof (induction xs rule: length_induct)
  case (1 xs)
  show ?case
  proof (cases "deframe1 xxh32 K host xs")
    case (Frame body rest)
    with 1 deframe1_shorter [OF Frame] show ?thesis
      by (fastforce simp: deframe.simps [of xxh32 K host xs] split: prod.splits)
  qed (auto simp: deframe.simps [of xxh32 K host xs] dest: deframe1_Broken_le)
qed

section \<open>Cutting the stream\<close>

lemma deframe1_append:
  assumes "kvarint_spec K"
  shows "deframe1 xxh32 K host xs = Frame body rest \<Longrightarrow>
           deframe1 xxh32 K host (xs @ ys) = Frame body (rest @ ys)"
    and "deframe1 xxh32 K host xs = Broken e rest \<Longrightarrow>
           deframe1 xxh32 K host (xs @ ys) = Broken e (rest @ ys)"
proof -
  have ok: "decoder_ok (kvarint_decode32 K)" using assms by (simp add: kvarint_spec_def)
  note D = decoder_okD(2,4) [OF ok]
  show "deframe1 xxh32 K host (xs @ ys) = Frame body (rest @ ys)"
    if "deframe1 xxh32 K host xs = Frame body rest"
    using that D
    by (auto simp: deframe1_def Let_def codec_consts split: kvarint_result.splits if_splits)
  show "deframe1 xxh32 K host (xs @ ys) = Broken e (rest @ ys)"
    if "deframe1 xxh32 K host xs = Broken e rest"
    using that D ok
    by (auto simp: deframe1_def Let_def codec_consts decoder_ok_def split: kvarint_result.splits if_splits)
qed

lemma deframe_append:
  assumes K: "kvarint_spec K"
  shows "deframe xxh32 K host (xs @ ys) =
    (case deframe xxh32 K host xs of
       (ps, Some e, left) \<Rightarrow> (ps, Some e, left @ ys)
     | (ps, None, left) \<Rightarrow> (case deframe xxh32 K host (left @ ys) of (qs, e, left') \<Rightarrow> (ps @ qs, e, left')))"
proof (induction xs rule: length_induct)
  case (1 xs)
  show ?case
  proof (cases "deframe1 xxh32 K host xs")
    case (Frame body rest)
    with 1 deframe1_shorter [OF Frame] show ?thesis
      by (simp add: deframe.simps [of xxh32 K host xs] deframe.simps [of xxh32 K host "xs @ ys"]
          deframe1_append [OF K] split: prod.splits option.splits)
  next
    case (Broken e rest)
    then show ?thesis
      by (simp add: deframe.simps [of xxh32 K host xs] deframe.simps [of xxh32 K host "xs @ ys"]
          deframe1_append [OF K])
  next
    case Incomplete
    then show ?thesis
      by (simp add: deframe.simps [of xxh32 K host xs] split: prod.splits)
  qed
qed

section \<open>Reading back what was framed\<close>

lemma deframe1_Frame:
  assumes dec: "kvarint_decode32 K xs = KVARINT_OK n sz" and n: "n \<le> 10"
    and sz: "unat sz = length msg + 8" and small: "length msg + 8 + n < MAX_SIZE"
    and ys: "drop n xs = (MMBP_TAG @ msg) @ chk @ rest"
    and chk: "length chk = 4" "host chk = xxh32 (MMBP_TAG @ msg)"
  shows "deframe1 xxh32 K host xs = Frame msg rest"
proof -
  have tag: "length MMBP_TAG = 4" by (simp add: MMBP_TAG_def)
  have "\<not> (unat sz < MIN_SIZE \<or> MAX_SIZE \<le> unat sz + n)" "\<not> length (drop n xs) < unat sz"
    using n small chk(1) by (simp_all add: sz codec_consts tag ys)
  moreover have "take (unat sz - 4) (drop n xs) = MMBP_TAG @ msg"
    "take 4 (drop (unat sz - 4) (drop n xs)) = chk" "take 4 (drop n xs) = MMBP_TAG"
    "take (unat sz - 8) (drop 4 (drop n xs)) = msg" "drop (unat sz) (drop n xs) = rest"
    using chk(1) by (simp_all only: ys sz) (simp_all add: tag)
  ultimately show ?thesis
    by (simp only: deframe1_def dec Let_def kvarint_result.case if_False chk(2) simp_thms if_True)
qed

lemma deframe1_frame:
  assumes K: "kvarint_spec K" and B: "kanon_buffer B" and small: "length (frame xxh32 K B msg) < MAX_SIZE"
  shows "deframe1 xxh32 K (host32 B) (frame xxh32 K B msg @ rest) = Frame msg rest"
proof (rule deframe1_Frame)
  let ?body = "frame_body xxh32 B msg"
  let ?hd = "kvarint_encode32 K (of_nat (length ?body))"
  show dec: "kvarint_decode32 K (frame xxh32 K B msg @ rest) = KVARINT_OK (length ?hd) (of_nat (length ?body))"
    using decodesD [OF kvarint_specD(3) [OF K]] by (simp add: frame_def)
  have "decoder_ok (kvarint_decode32 K)" using K by (simp add: kvarint_spec_def)
  from decoder_okD(3) [OF this dec] show "length ?hd \<le> 10" .
  have len: "length ?body = length msg + 8"
    using B by (simp add: frame_body_def MMBP_TAG_def wire_simps)
  with small show small': "length msg + 8 + length ?hd < MAX_SIZE" by (simp add: frame_def)
  have "unat (of_nat (length msg + 8) :: u32) = length msg + 8"
    using small' by (intro unat_of_nat_lt) (simp add: codec_consts)
  with len show "unat (of_nat (length ?body) :: u32) = length msg + 8" by simp
  show "drop (length ?hd) (frame xxh32 K B msg @ rest)
      = (MMBP_TAG @ msg) @ net32 B (xxh32 (MMBP_TAG @ msg)) @ rest"
    by (simp add: frame_def) (simp add: frame_body_def)
  show "length (net32 B (xxh32 (MMBP_TAG @ msg))) = 4"
    "host32 B (net32 B (xxh32 (MMBP_TAG @ msg))) = xxh32 (MMBP_TAG @ msg)"
    using B by (simp_all add: wire_simps)
qed

lemma deframe_frames:
  assumes K: "kvarint_spec K" and B: "kanon_buffer B"
    and small: "\<And>msg. msg \<in> set msgs \<Longrightarrow> length (frame xxh32 K B msg) < MAX_SIZE"
  shows "deframe xxh32 K (host32 B) (concat (map (frame xxh32 K B) msgs) @ rest) =
    (case deframe xxh32 K (host32 B) rest of (ps, e, left) \<Rightarrow> (msgs @ ps, e, left))"
  using small
proof (induction msgs)
  case Nil
  show ?case by (simp split: prod.splits)
next
  case (Cons msg msgs)
  then show ?case
    by (subst deframe.simps) (simp add: deframe1_frame [OF K B] split: prod.splits)
qed

text \<open>The empty stream is the start of a frame.\<close>

lemma deframe_Nil: "kvarint_spec K \<Longrightarrow> deframe xxh32 K host [] = (case kvarint_decode32 K [] of
    KVARINT_DECODE_BUF_INVALID \<Rightarrow> ([], Some E_INVALID_MESSAGE, []) | _ \<Rightarrow> ([], None, []))"
proof -
  assume "kvarint_spec K"
  then have "decoder_ok (kvarint_decode32 K)" by (simp add: kvarint_spec_def)
  from decoder_okD(1,2) [OF this, of "[]"] show ?thesis
    by (subst deframe.simps) (auto simp: deframe1_def split: kvarint_result.splits)
qed

lemma deframe_only_frames:
  assumes K: "kvarint_spec K" and B: "kanon_buffer B"
    and small: "\<And>msg. msg \<in> set msgs \<Longrightarrow> length (frame xxh32 K B msg) < MAX_SIZE"
  shows "deframe xxh32 K (host32 B) (concat (map (frame xxh32 K B) msgs)) = (msgs, None, [])"
proof -
  let ?e = "kvarint_encode32 K 0"
  have "decoder_ok (kvarint_decode32 K)" using K by (simp add: kvarint_spec_def)
  then have "kvarint_decode32 K [] \<noteq> KVARINT_DECODE_BUF_INVALID"
    using decodesD [OF kvarint_specD(3) [OF K, of 0], of "[]"]
    by (auto simp: decoder_ok_def)
  then have "deframe xxh32 K (host32 B) [] = ([], None, [])"
    by (simp add: deframe_Nil [OF K] split: kvarint_result.splits)
  with deframe_frames [OF K B small, of msgs "[]"] show ?thesis by simp
qed

section \<open>The receive loop refines the specification\<close>

text \<open>
  The message callback is handed the body's length and must consume exactly the body; \<open>on_msg\<close>
  is its effect on the state (\<open>None\<close> when it does not return), \<open>P\<close> the bodies for which this is
  required.
\<close>

definition consumes ::
    "'b buffer_ops \<Rightarrow> (byte list \<Rightarrow> bool) \<Rightarrow> ('s \<Rightarrow> 'b \<Rightarrow> u32 \<Rightarrow> ('s \<times> 'b) option)
       \<Rightarrow> ('s \<Rightarrow> byte list \<Rightarrow> 's option) \<Rightarrow> bool" where
  "consumes B P message_cb on_msg \<longleftrightarrow>
     (\<forall>s b body rest. P body \<and> readable B b = body @ rest \<longrightarrow>
        (\<exists>b'. readable B b' = rest
           \<and> message_cb s b (of_nat (length body)) = map_option (\<lambda>s'. (s', b')) (on_msg s body)))"

fun foldM :: "('s \<Rightarrow> 'a \<Rightarrow> 's option) \<Rightarrow> 's \<Rightarrow> 'a list \<Rightarrow> 's option" where
  "foldM f s [] = Some s"
| "foldM f s (x # xs) = do { s \<leftarrow> f s x; foldM f s xs }"

lemma foldM_append: "foldM f s (xs @ ys) = do { s \<leftarrow> foldM f s xs; foldM f s ys }"
  by (induction xs arbitrary: s) (auto split: bind_splits)

definition received ::
    "('s \<Rightarrow> byte list \<Rightarrow> 's option) \<Rightarrow> ('s \<Rightarrow> ErrorCode \<Rightarrow> 's option) \<Rightarrow> 's
       \<Rightarrow> byte list list \<times> ErrorCode option \<times> byte list \<Rightarrow> 's option" where
  "received on_msg error_cb s r =
     (case r of (bodies, e, _) \<Rightarrow> do {
        s \<leftarrow> foldM on_msg s bodies;
        (case e of None \<Rightarrow> Some s | Some e \<Rightarrow> error_cb s e) })"

lemma size_guards:
  fixes sz :: u32
  assumes n: "n \<le> len" "n \<le> 10" and len: "len < MAX_SIZE"
  shows "(ucast sz :: size_t) \<ge> of_nat MAX_SIZE - of_nat n \<longleftrightarrow> MAX_SIZE \<le> unat sz + n"
    and "(of_nat len - of_nat n :: size_t) < ucast sz \<longleftrightarrow> len - n < unat sz"
proof -
  have "(of_nat MAX_SIZE - of_nat n :: size_t) = of_nat (MAX_SIZE - n)"
    using n by (simp add: codec_consts)
  moreover have "unat (of_nat (MAX_SIZE - n) :: size_t) = MAX_SIZE - n"
    by (intro unat_of_nat_lt) (simp add: codec_consts)
  ultimately show "(ucast sz :: size_t) \<ge> of_nat MAX_SIZE - of_nat n \<longleftrightarrow> MAX_SIZE \<le> unat sz + n"
    by (simp add: word_le_nat_alt le_diff_conv)
  have "(of_nat len - of_nat n :: size_t) = of_nat (len - n)"
    using n by simp
  moreover have "unat (of_nat (len - n) :: size_t) = len - n"
    using len by (intro unat_of_nat_lt) (simp add: codec_consts)
  ultimately show "(of_nat len - of_nat n :: size_t) < ucast sz \<longleftrightarrow> len - n < unat sz"
    by (simp add: word_less_nat_alt)
qed

lemma VerifyCheckSum_eq:
  assumes sz: "8 \<le> unat (sz :: u32)" and le: "unat sz \<le> length (readable B b)"
  shows "VerifyCheckSum xxh32 B b sz =
    Some (xxh32 (take (unat sz - 4) (readable B b)) = host32 B (take 4 (drop (unat sz - 4) (readable B b))))"
proof -
  have "unat (sz - of_nat CHECKSUM_LENGTH) = unat sz - 4"
    using sz by (simp add: codec_consts unat_sub word_le_nat_alt)
  with assms show ?thesis
    by (simp add: VerifyCheckSum_def peek_bytes_def codec_consts drop_take Let_def)
qed

lemma bind_Done: "do { s \<leftarrow> m; Some (Done s b) } = map_option (\<lambda>s. Done s b) m"
  by (cases m) simp_all

lemma bind_Again:
  "map_option (\<lambda>s. (s, b2)) m \<bind> (\<lambda>(s, b). Some (Again s (f b))) = map_option (\<lambda>s. Again s (f b2)) m"
  by (cases m) simp_all

lemma codec_turn_cases:
  assumes K: "kvarint_spec K" and B: "kanon_buffer B" and len: "length (readable B b) < MAX_SIZE"
    and cb: "consumes B P message_cb on_msg"
  shows "case deframe1 xxh32 K (host32 B) (readable B b) of
      Incomplete \<Rightarrow> codec_turn xxh32 K B message_cb error_cb s b = Some (Done s b)
    | Broken e rest \<Rightarrow> (\<exists>b'. readable B b' = rest
        \<and> codec_turn xxh32 K B message_cb error_cb s b = map_option (\<lambda>s'. Done s' b') (error_cb s e))
    | Frame body rest \<Rightarrow> P body \<longrightarrow>
        (\<exists>b'. readable B b' = rest
        \<and> codec_turn xxh32 K B message_cb error_cb s b = map_option (\<lambda>s'. Again s' b') (on_msg s body))"
proof (cases "kvarint_decode32 K (readable B b)")
  case KVARINT_DECODE_BUF_INVALID
  then show ?thesis by (auto simp: deframe1_def codec_turn_def bind_Done)
next
  case KVARINT_DECODE_BUF_SHORT
  then show ?thesis by (simp add: deframe1_def codec_turn_def)
next
  case dec: (KVARINT_OK n sz)
  have ok: "decoder_ok (kvarint_decode32 K)" using K by (simp add: kvarint_spec_def)
  note n = decoder_okD(2,3) [OF ok dec]
  note guards = size_guards [OF n len, of sz]
  let ?b1 = "AdvanceRead B n b"
  let ?ys = "drop n (readable B b)"
  have b1: "readable B ?b1 = ?ys" using B n by (simp add: wire_simps)
  show ?thesis
  proof (cases "unat sz < MIN_SIZE \<or> MAX_SIZE \<le> unat sz + n \<or> length ?ys < unat sz")
    case True
    then show ?thesis by (auto simp: deframe1_def codec_turn_def dec guards Let_def bind_Done)
  next
    case False
    then have sz: "8 \<le> unat sz" "unat sz \<le> length ?ys" by (auto simp: codec_consts)
    with VerifyCheckSum_eq [of sz B ?b1] have v: "VerifyCheckSum xxh32 B ?b1 sz =
      Some (xxh32 (take (unat sz - 4) ?ys) = host32 B (take 4 (drop (unat sz - 4) ?ys)))"
      by (simp add: b1)
    have tag: "peek_bytes B MMBP_TAG_SIZE ?b1 = Some (take 4 ?ys)"
      using sz by (simp add: peek_bytes_def b1 codec_consts)
    let ?body = "take (unat sz - 8) (drop 4 ?ys)"
    have sub: "(of_nat (length ?body) :: u32) = sz - 8"
    proof -
      have "length ?body = unat sz - 8" using sz by simp
      moreover have "of_nat (unat sz - 8) = (of_nat (unat sz) :: u32) - of_nat 8"
        using sz by (intro of_nat_diff) simp
      ultimately show ?thesis by simp
    qed
    have "readable B (AdvanceRead B 4 ?b1) = ?body @ drop (unat sz - 8) (drop 4 ?ys)"
      using B sz b1 by (simp add: wire_simps del: drop_drop)
    with cb have cb': "P ?body \<Longrightarrow> \<exists>b2. readable B b2 = drop (unat sz - 8) (drop 4 ?ys)
        \<and> message_cb s (AdvanceRead B 4 ?b1) (sz - 8) = map_option (\<lambda>s'. (s', b2)) (on_msg s ?body)"
      unfolding consumes_def sub [symmetric] by blast
    have rest: "readable B b2 = drop (unat sz - 8) (drop 4 ?ys) \<Longrightarrow>
        readable B (AdvanceRead B 4 b2) = drop (unat sz) ?ys" for b2
      using B sz by (simp add: wire_simps algebra_simps)
    have t: "codec_turn xxh32 K B message_cb error_cb s b =
      (if xxh32 (take (unat sz - 4) ?ys) \<noteq> host32 B (take 4 (drop (unat sz - 4) ?ys))
       then do { s \<leftarrow> error_cb s E_INVALID_CHECKSUM; Some (Done s ?b1) }
       else if take 4 ?ys \<noteq> MMBP_TAG then do { s \<leftarrow> error_cb s E_INVALID_MESSAGE; Some (Done s ?b1) }
       else do {
         (s, buffer) \<leftarrow> message_cb s (AdvanceRead B 4 ?b1) (sz - 8);
         Some (Again s (AdvanceRead B 4 buffer)) })"
      using False
      by (simp add: codec_turn_def dec guards v tag Let_def del: drop_drop) (simp add: codec_consts)
    have d: "deframe1 xxh32 K (host32 B) (readable B b) =
      (if xxh32 (take (unat sz - 4) ?ys) \<noteq> host32 B (take 4 (drop (unat sz - 4) ?ys))
       then Broken E_INVALID_CHECKSUM ?ys
       else if take 4 ?ys \<noteq> MMBP_TAG then Broken E_INVALID_MESSAGE ?ys
       else Frame ?body (drop (unat sz) ?ys))"
      using False by (simp add: deframe1_def dec Let_def del: drop_drop)
    show ?thesis
      unfolding t d using b1 cb' rest
      by (auto simp del: drop_drop simp: bind_Done bind_Again) blast?
  qed
qed

lemma ex_readable: "kanon_buffer B \<Longrightarrow> \<exists>b. readable B b = xs"
  by (rule exI [of _ "Append B xs (AdvanceAll B undefined)"]) (simp add: wire_simps)

lemma codec_loop_deframe:
  assumes K: "kvarint_spec K" and B: "kanon_buffer B" and cb: "consumes B P message_cb on_msg"
    and len: "length (readable B b) < MAX_SIZE"
    and P: "\<forall>body \<in> set (fst (deframe xxh32 K (host32 B) (readable B b))). P body"
  shows "\<exists>b'. readable B b' = snd (snd (deframe xxh32 K (host32 B) (readable B b)))
    \<and> codec_loop xxh32 K B message_cb error_cb s b = map_option (\<lambda>s'. (s', b'))
        (received on_msg error_cb s (deframe xxh32 K (host32 B) (readable B b)))"
  using len P
proof (induction "length (readable B b)" arbitrary: s b rule: less_induct)
  case less
  note turn = codec_turn_cases [OF K B less.prems(1) cb, of xxh32 error_cb s]
  note unf = deframe.simps [of xxh32 K "host32 B" "readable B b"]
    codec_loop.simps [of xxh32 K B message_cb error_cb s b]
  show ?case
  proof (cases "deframe1 xxh32 K (host32 B) (readable B b)")
    case (Frame body rest)
    with turn less.prems(2) obtain b' where b': "readable B b' = rest"
      "codec_turn xxh32 K B message_cb error_cb s b = map_option (\<lambda>s'. Again s' b') (on_msg s body)"
      by (auto simp: unf split: prod.splits)
    have shorter: "length (readable B b') < length (readable B b)"
      using deframe1_shorter [OF Frame] b'(1) by simp
    show ?thesis
    proof (cases "on_msg s body")
      case None
      with Frame b' show ?thesis
        using ex_readable [OF B] by (auto simp: unf received_def split: prod.splits)
    next
      case (Some s1)
      from less.hyps [OF shorter, of s1] less.prems shorter Frame b' Some show ?thesis
        by (auto simp: unf received_def split: prod.splits)
    qed
  next
    case (Broken e rest)
    with turn show ?thesis by (cases "error_cb s e") (auto simp: unf received_def)
  qed (use turn in \<open>auto simp: unf received_def\<close>)
qed

section \<open>Sending\<close>

lemma codec_Send_frame:
  assumes C: "kanon_buffer C" and fresh: "readable C fresh = []"
    and ser: "\<exists>c. serialize (Append C MMBP_TAG fresh) = Some c \<and> readable C c = MMBP_TAG @ msg"
  shows "codec_Send xxh32 K C fresh serialize = Some (ConnSend (frame xxh32 K C msg))"
  using ser C
  by (auto simp: codec_Send_def codec_SerializeTo_def Let_def frame_def frame_body_def wire_simps
      MMBP_TAG_def)

lemma codec_Send_response:
  assumes C: "kanon_buffer C" and fresh: "readable C fresh = []" and wf: "rs_wf r"
  shows "codec_Send xxh32 K C fresh (rs_SerializeTo K C r) = Some (ConnSend (frame xxh32 K C (rs_wire K C r)))"
  by (rule codec_Send_frame [OF C fresh])
    (use rs_SerializeTo_wire [OF C wf, of K "Append C MMBP_TAG fresh"] in \<open>simp add: kanon_bufferD(3) [OF C] fresh\<close>)

lemma codec_Send_request:
  assumes C: "kanon_buffer C" and fresh: "readable C fresh = []" and wf: "rq_wf r"
  shows "codec_Send xxh32 K C fresh (rq_SerializeTo K C r) = Some (ConnSend (frame xxh32 K C (rq_wire K C r)))"
  by (rule codec_Send_frame [OF C fresh])
    (use rq_SerializeTo_wire [OF C wf, of K "Append C MMBP_TAG fresh"] in \<open>simp add: kanon_bufferD(3) [OF C] fresh\<close>)

section \<open>A connection\<close>

text \<open>The network layer appends the bytes of each segment to the buffer and calls back.\<close>

fun codec_session ::
    "(byte list \<Rightarrow> u32) \<Rightarrow> kvarint \<Rightarrow> 'b buffer_ops \<Rightarrow> ('s \<Rightarrow> 'b \<Rightarrow> u32 \<Rightarrow> ('s \<times> 'b) option)
       \<Rightarrow> ('s \<Rightarrow> ErrorCode \<Rightarrow> 's option) \<Rightarrow> 's \<Rightarrow> 'b \<Rightarrow> byte list list \<Rightarrow> ('s \<times> 'b) option" where
  "codec_session xxh32 K B message_cb error_cb s b [] = Some (s, b)"
| "codec_session xxh32 K B message_cb error_cb s b (seg # segs) = do {
     (s, b) \<leftarrow> codec_OnMessage xxh32 K B message_cb error_cb s (Append B seg b);
     codec_session xxh32 K B message_cb error_cb s b segs }"

lemma codec_OnMessage_deframe:
  assumes K: "kvarint_spec K" and B: "kanon_buffer B" and cb: "consumes B P message_cb on_msg"
    and len: "length (readable B b) < MAX_SIZE"
    and P: "\<forall>body \<in> set (fst (deframe xxh32 K (host32 B) (readable B b))). P body"
  shows "\<exists>b'. readable B b' = snd (snd (deframe xxh32 K (host32 B) (readable B b)))
    \<and> codec_OnMessage xxh32 K B message_cb error_cb s b = map_option (\<lambda>s'. (s', b'))
        (received on_msg error_cb s (deframe xxh32 K (host32 B) (readable B b)))"
  using codec_loop_deframe [OF K B cb len P] len by (simp add: codec_OnMessage_def)

text \<open>
  The receiver gives up when \<open>MAX_SIZE\<close> bytes are in its buffer. A cut of a stream avoids that when
  each segment, with the bytes of an incomplete frame that are left from before, stays below.
\<close>

fun never_full :: "(byte list \<Rightarrow> u32) \<Rightarrow> kvarint \<Rightarrow> (byte list \<Rightarrow> u32) \<Rightarrow> byte list \<Rightarrow> byte list list \<Rightarrow> bool" where
  "never_full xxh32 K host buf [] \<longleftrightarrow> True"
| "never_full xxh32 K host buf (seg # segs) \<longleftrightarrow> length (buf @ seg) < MAX_SIZE
     \<and> never_full xxh32 K host (snd (snd (deframe xxh32 K host (buf @ seg)))) segs"

lemma never_full_small: "length (buf @ concat segs) < MAX_SIZE \<Longrightarrow> never_full xxh32 K host buf segs"
proof (induction segs arbitrary: buf)
  case (Cons seg segs)
  then show ?case using deframe_left [of xxh32 K host "buf @ seg"] by simp
qed simp

text \<open>Whichever of these cuts, the effect of an error-free session is the effect of its bodies.\<close>

lemma codec_session_never_full:
  assumes K: "kvarint_spec K" and B: "kanon_buffer B" and cb: "consumes B P message_cb on_msg"
    and full: "never_full xxh32 K (host32 B) (readable B b) segs"
    and d: "deframe xxh32 K (host32 B) (readable B b @ concat segs) = (bodies, None, left)"
    and P: "\<forall>body \<in> set bodies. P body" and segs: "segs \<noteq> []"
  shows "\<exists>b'. readable B b' = left
    \<and> codec_session xxh32 K B message_cb error_cb s b segs
      = map_option (\<lambda>s'. (s', b')) (foldM on_msg s bodies)"
  using full d P segs
proof (induction segs arbitrary: s b bodies)
  case Nil
  then show ?case by simp
next
  case (Cons seg segs)
  let ?d = "deframe xxh32 K (host32 B)"
  let ?b1 = "Append B seg b"
  have b1: "readable B ?b1 = readable B b @ seg" using B by (simp add: wire_simps)
  obtain ps e r where d1: "?d (readable B ?b1) = (ps, e, r)" by (metis prod_cases3)
  have split: "?d (readable B ?b1 @ concat segs) = (bodies, None, left)"
    using Cons.prems(2) by (simp add: b1)
  note app = deframe_append [OF K, of xxh32 "host32 B" "readable B ?b1" "concat segs", unfolded split d1]
  from app have e: "e = None" by (simp split: option.splits)
  from app obtain qs where d2: "?d (r @ concat segs) = (qs, None, left)" and bodies: "bodies = ps @ qs"
    by (simp add: e split: prod.splits)
  have l1: "length (readable B ?b1) < MAX_SIZE" and full: "never_full xxh32 K (host32 B) r segs"
    using Cons.prems(1) d1 by (simp_all add: b1)
  have p1: "\<forall>body \<in> set (fst (?d (readable B ?b1))). P body"
    using Cons.prems(3) unfolding d1 bodies by simp
  from codec_OnMessage_deframe [OF K B cb l1 p1, of error_cb s] obtain b2 where
    b2: "readable B b2 = r" "codec_OnMessage xxh32 K B message_cb error_cb s ?b1
      = map_option (\<lambda>s'. (s', b2)) (foldM on_msg s ps)"
    by (auto simp: d1 e received_def)
  show ?case
  proof (cases "segs = []")
    case True
    with split d1 have "qs = [] \<and> left = r" by (simp add: bodies)
    with True b2 show ?thesis by (cases "foldM on_msg s ps") (auto simp: bodies)
  next
    case False
    have P: "\<forall>body \<in> set qs. P body" using Cons.prems(3) by (simp add: bodies)
    note IH = Cons.IH [unfolded b2(1) [symmetric], OF full [folded b2(1)] d2 [folded b2(1)] P False]
    show ?thesis
    proof (cases "foldM on_msg s ps")
      case None
      with IH [of s] b2 show ?thesis by (auto simp: bodies foldM_append)
    next
      case (Some s1)
      with IH [of s1] b2 show ?thesis by (auto simp: bodies foldM_append)
    qed
  qed
qed

lemma codec_session_deframe:
  assumes "kvarint_spec K" and "kanon_buffer B" and "consumes B P message_cb on_msg"
    and "length (readable B b @ concat segs) < MAX_SIZE"
    and "deframe xxh32 K (host32 B) (readable B b @ concat segs) = (bodies, None, left)"
    and "\<forall>body \<in> set bodies. P body" and "segs \<noteq> []"
  shows "\<exists>b'. readable B b' = left
    \<and> codec_session xxh32 K B message_cb error_cb s b segs
      = map_option (\<lambda>s'. (s', b')) (foldM on_msg s bodies)"
  using codec_session_never_full [OF assms(1-3) never_full_small [OF assms(4)] assms(5-7)] .

text \<open>A buffer that is too full is emptied, whatever frames are in it.\<close>

lemma codec_session_discards:
  assumes B: "kanon_buffer B" and b: "readable B b = []" and big: "MAX_SIZE \<le> length xs"
  shows "\<exists>b'. readable B b' = [] \<and> codec_session xxh32 K B message_cb error_cb s b [xs]
    = map_option (\<lambda>s'. (s', b')) (error_cb s E_INVALID_SIZE_HEADER)"
proof -
  have "readable B (AdvanceAll B (Append B xs b)) = []" "readable B (Append B xs b) = xs" using B b by (simp_all add: wire_simps)
  with big show ?thesis
    by (intro exI [of _ "AdvanceAll B (Append B xs b)"]) (cases "error_cb s E_INVALID_SIZE_HEADER"; simp add: codec_OnMessage_def)
qed

end
