(* ===== verification/Kanon_Instance.thy ===== *)
theory Kanon_Instance
  imports Kanon
begin

text \<open>
  A concrete instance of the third-party interface, which shows that the hypotheses
  \<open>kvarint_spec\<close> and \<open>kanon_buffer\<close> can hold and which the witnesses evaluate: base-128
  varints (seven bits per byte, least significant group first, the top bit set on every byte
  but the last) and buffers that are byte lists with big-endian integers.
\<close>

section \<open>Base-128 varints\<close>

fun leb128 :: "nat \<Rightarrow> byte list" where
  "leb128 n = (if n < 128 then [of_nat n] else of_nat (n mod 128 + 128) # leb128 (n div 128))"

declare leb128.simps [simp del]

text \<open>The first argument bounds the number of bytes.\<close>

fun unleb128 :: "nat \<Rightarrow> byte list \<Rightarrow> nat kvarint_result" where
  "unleb128 0 bs = KVARINT_DECODE_BUF_INVALID"
| "unleb128 (Suc k) [] = KVARINT_DECODE_BUF_SHORT"
| "unleb128 (Suc k) (b # bs) =
     (if unat b < 128 then KVARINT_OK 1 (unat b)
      else (case unleb128 k bs of
              KVARINT_OK len v \<Rightarrow> KVARINT_OK (Suc len) (unat b - 128 + 128 * v)
            | r \<Rightarrow> r))"

lemma unleb128_leb128:
  "n < 128 ^ Suc k \<Longrightarrow> unleb128 (Suc k) (leb128 n @ rest) = KVARINT_OK (length (leb128 n)) n"
proof (induction k arbitrary: n)
  case 0
  then show ?case by (simp add: leb128.simps [of n] unat_of_nat_lt)
next
  case (Suc k)
  show ?case
  proof (cases "n < 128")
    case True
    then show ?thesis by (simp add: leb128.simps [of n] unat_of_nat_lt)
  next
    case False
    have "n div 128 < 128 ^ Suc k"
      using Suc.prems by (simp add: less_mult_imp_div_less mult.commute)
    note IH = Suc.IH [OF this]
    have "unat (of_nat (n mod 128 + 128) :: byte) = n mod 128 + 128"
      by (rule unat_of_nat_lt) simp
    moreover have "unleb128 (Suc (Suc k)) (of_nat (n mod 128 + 128) # leb128 (n div 128) @ rest)
        = (let b = of_nat (n mod 128 + 128) :: byte in
           if unat b < 128 then KVARINT_OK 1 (unat b)
           else (case unleb128 (Suc k) (leb128 (n div 128) @ rest) of
              KVARINT_OK len v \<Rightarrow> KVARINT_OK (Suc len) (unat b - 128 + 128 * v)
            | r \<Rightarrow> r))"
      by (simp only: unleb128.simps Let_def)
    ultimately show ?thesis
      using False by (subst (1 2) leb128.simps) (simp add: IH del: unleb128.simps)
  qed
qed

lemma unleb128_OK:
  "unleb128 k xs = KVARINT_OK n v \<Longrightarrow>
     0 < n \<and> n \<le> length xs \<and> n \<le> k \<and> unleb128 k (xs @ ys) = KVARINT_OK n v"
  by (induction k xs arbitrary: n v rule: unleb128.induct)
    (auto split: if_splits kvarint_result.splits)

lemma unleb128_INVALID:
  "unleb128 k xs = KVARINT_DECODE_BUF_INVALID \<Longrightarrow> unleb128 k (xs @ ys) = KVARINT_DECODE_BUF_INVALID"
  by (induction k xs rule: unleb128.induct) (auto split: if_splits kvarint_result.splits)

definition leb_encode :: "'w::len word \<Rightarrow> byte list" where
  "leb_encode w = leb128 (unat w)"

definition leb_decode :: "nat \<Rightarrow> byte list \<Rightarrow> ('w::len word) kvarint_result" where
  "leb_decode k bs = map_kvarint_result of_nat (unleb128 k bs)"

lemma leb_decode_iff:
  "leb_decode k xs = KVARINT_OK n v \<longleftrightarrow> (\<exists>m. unleb128 k xs = KVARINT_OK n m \<and> v = of_nat m)"
  "leb_decode k xs = KVARINT_DECODE_BUF_INVALID \<longleftrightarrow> unleb128 k xs = KVARINT_DECODE_BUF_INVALID"
  by (cases "unleb128 k xs"; auto simp: leb_decode_def)+

lemma decoder_ok_leb:
  assumes "k \<le> 10"
  shows "decoder_ok (leb_decode k)"
proof -
  have "0 < n \<and> n \<le> length xs \<and> n \<le> 10 \<and> unleb128 k (xs @ ys) = KVARINT_OK n m"
    if "unleb128 k xs = KVARINT_OK n m" for xs ys n m
    using unleb128_OK [OF that, of ys] assms by linarith
  then show ?thesis
    unfolding decoder_ok_def leb_decode_iff by (metis unleb128_INVALID)
qed

lemma decodes_leb:
  fixes w :: "'a::len word"
  assumes "LENGTH('a) \<le> LENGTH('b)" and "LENGTH('a) \<le> 7 * Suc k"
  shows "decodes (leb_decode (Suc k)) (leb_encode w) (ucast w :: 'b::len word)"
proof -
  have "unat w < 2 ^ LENGTH('a)" by (rule unsigned_less)
  also have "(2::nat) ^ LENGTH('a) \<le> 2 ^ (7 * Suc k)" using assms(2) by (rule power_increasing) simp
  also have "\<dots> = 128 ^ Suc k" by (simp add: power_mult del: power_Suc mult_Suc_right)
  finally show ?thesis
    by (simp add: decodes_def leb_decode_def leb_encode_def unleb128_leb128 del: unleb128.simps power_Suc)
qed

definition leb_kvarint :: kvarint where
  "leb_kvarint = \<lparr>
     kvarint_encode8 = leb_encode, kvarint_encode16 = leb_encode, kvarint_encode32 = leb_encode,
     kvarint_encode64 = leb_encode, kvarint_encode64s = leb_encode,
     kvarint_decode8 = leb_decode 2, kvarint_decode16 = leb_decode 3, kvarint_decode32 = leb_decode 5,
     kvarint_decode64 = leb_decode 10, kvarint_decode64s = leb_decode 10 \<rparr>"

lemma leb_kvarint_spec: "kvarint_spec leb_kvarint"
proof -
  have d: "decodes (leb_decode 2) (leb_encode a) a" "decodes (leb_decode 3) (leb_encode b) b"
    "decodes (leb_decode 5) (leb_encode c) c" "decodes (leb_decode 10) (leb_encode d) d"
    "decodes (leb_decode 10) (leb_encode b) (ucast b :: u64)"
    "decodes (leb_decode 10) (leb_encode c) (ucast c :: u64)"
    for a :: byte and b :: u16 and c :: u32 and d :: u64
    using decodes_leb [where 'b = 8, of 1 a] decodes_leb [where 'b = 16, of 2 b]
      decodes_leb [where 'b = 32, of 4 c] decodes_leb [where 'b = 64, of 9 d]
      decodes_leb [where 'b = 64, of 9 b] decodes_leb [where 'b = 64, of 9 c]
    by (simp_all add: eval_nat_numeral del: unleb128.simps)
  then show ?thesis
    by (simp add: kvarint_spec_def leb_kvarint_def decoder_ok_leb)
qed

section \<open>Byte-list buffers\<close>

definition be16 :: "u16 \<Rightarrow> byte list" where
  "be16 x = [ucast (drop_bit 8 x), ucast x]"

definition be32 :: "u32 \<Rightarrow> byte list" where
  "be32 x = [ucast (drop_bit 24 x), ucast (drop_bit 16 x), ucast (drop_bit 8 x), ucast x]"

definition be64 :: "u64 \<Rightarrow> byte list" where
  "be64 x = be32 (ucast (drop_bit 32 x)) @ be32 (ucast x)"

definition unbe32 :: "byte list \<Rightarrow> u32" where
  "unbe32 bs = push_bit 24 (ucast (bs ! 0)) OR push_bit 16 (ucast (bs ! 1))
     OR push_bit 8 (ucast (bs ! 2)) OR ucast (bs ! 3)"

definition unbe64 :: "byte list \<Rightarrow> u64" where
  "unbe64 bs = push_bit 32 (ucast (unbe32 (take 4 bs))) OR ucast (unbe32 (drop 4 bs))"

lemma length_be [simp]: "length (be16 w) = 2" "length (be32 x) = 4" "length (be64 y) = 8"
  by (simp_all add: be16_def be32_def be64_def)

lemma split_word32:
  fixes x :: u32
  shows "push_bit 24 (ucast (ucast (drop_bit 24 x) :: byte)) OR push_bit 16 (ucast (ucast (drop_bit 16 x) :: byte))
    OR push_bit 8 (ucast (ucast (drop_bit 8 x) :: byte)) OR ucast (ucast x :: byte) = x" (is "?l = x")
proof (rule bit_word_eqI)
  fix n :: nat
  assume n: "n < LENGTH(32)"
  consider "n < 8" | "8 \<le> n" "n < 16" | "16 \<le> n" "n < 24" | "24 \<le> n" by linarith
  then show "bit ?l n = bit x n"
    using n by cases (auto simp: bit_simps)
qed

lemma unbe32_be32 [simp]: "unbe32 (be32 x) = x"
  using split_word32 [of x] by (simp add: unbe32_def be32_def)

lemma unbe64_be64 [simp]: "unbe64 (be64 x) = x"
proof -
  have "unbe64 (be64 x) = push_bit 32 (ucast (ucast (drop_bit 32 x) :: u32)) OR ucast (ucast x :: u32)"
    by (simp add: unbe64_def be64_def)
  also have "\<dots> = x"
    by (rule bit_word_eqI) (auto simp: bit_simps)
  finally show ?thesis .
qed

definition list_buffer :: "byte list buffer_ops" where
  "list_buffer = \<lparr>
     readable = (\<lambda>b. b), AdvanceRead = drop, AdvanceAll = (\<lambda>b. []),
     Append = (\<lambda>xs b. b @ xs), Prepend = (\<lambda>xs b. xs @ b),
     net16 = be16, net32 = be32, net64 = be64, host32 = unbe32, host64 = unbe64 \<rparr>"

lemma kanon_list_buffer: "kanon_buffer list_buffer"
  by (simp add: kanon_buffer_def list_buffer_def)

lemma list_buffer_simps [simp]:
  "readable list_buffer = (\<lambda>b. b)" "AdvanceRead list_buffer = drop"
  "Append list_buffer = (\<lambda>xs b. b @ xs)" "Prepend list_buffer = (\<lambda>xs b. xs @ b)"
  "AdvanceAll list_buffer = (\<lambda>b. [])"
  by (simp_all add: list_buffer_def)

end
