(* ===== verification/Protocol_Props.thy ===== *)
theory Protocol_Props
  imports Mmbp_Frame Command Status Kanon_Instance
begin

text \<open>
  The properties of the protocol layer: round trips of requests and responses, the codec's
  receive loop against its specification, the table lookups, and the behaviours of the format
  that its code does not handle. Witnesses use the instance of \<open>Kanon_Instance\<close>.
\<close>

section \<open>Requests and responses\<close>

text \<open>
  C6: serializing a well-formed request succeeds and parsing the bytes into a fresh request gives
  back the command, the bits and every field the bits select, and consumes exactly the bytes of
  the request, whatever follows them.
\<close>
theorem request_roundtrip:
  assumes B: "kanon_buffer B" and K: "kvarint_spec K" and wf: "rq_wf r"
  shows "\<exists>out. rq_SerializeTo K B r c = Some out \<and>
    (\<exists>bytes. readable B out = readable B c @ bytes \<and>
      (\<forall>b rest. readable B b = bytes @ rest \<longrightarrow>
        (\<exists>b'. rq_ParseFrom K B MmbpRequest_init b = Some (True, rq_carried r, b') \<and> readable B b' = rest)))"
  using rq_SerializeTo_wire [OF B wf, of K c] rq_ParseFrom_wire [OF B K wf] by blast

definition demo_request :: MmbpRequest where
  "demo_request = rq_SetExpireTime (rq_SetValue (rq_SetKey
     (MmbpRequest_init\<lparr>rq_command := 3, rq_key := [1, 2], rq_value := [7], rq_expire_time := Some 300\<rparr>)))"

theorem request_roundtrip_witness:
  "\<exists>out. rq_SerializeTo leb_kvarint list_buffer demo_request [] = Some out \<and>
    (\<exists>bytes. readable list_buffer out = readable list_buffer [] @ bytes \<and>
      (\<forall>b rest. readable list_buffer b = bytes @ rest \<longrightarrow>
        (\<exists>b'. rq_ParseFrom leb_kvarint list_buffer MmbpRequest_init b = Some (True, rq_carried demo_request, b')
          \<and> readable list_buffer b' = rest)))"
  by (rule request_roundtrip [OF kanon_list_buffer leb_kvarint_spec])
    (simp add: rq_wf_def demo_request_def rq_set_defs rq_set_bit_def rq_has_defs MmbpRequest_init_def
      SetBit_def TestBit_def fits_str_def)

text \<open>
  C7: serializing a well-formed response succeeds and parsing the bytes into a fresh response
  gives back the status, the bits and the one payload the bits select, and consumes exactly the
  bytes of the response, whatever follows them.
\<close>
theorem response_roundtrip:
  assumes B: "kanon_buffer B" and K: "kvarint_spec K" and wf: "rs_wf r"
  shows "\<exists>out. rs_SerializeTo K B r c = Some out \<and>
    (\<exists>bytes. readable B out = readable B c @ bytes \<and>
      (\<forall>b rest. readable B b = bytes @ rest \<longrightarrow>
        (\<exists>b'. rs_ParseFrom K B MmbpResponse_init b = Some (True, rs_carried r, b') \<and> readable B b' = rest)))"
  using rs_SerializeTo_wire [OF B wf, of K c] rs_ParseFrom_wire [OF B K wf] by blast

definition demo_value_response :: MmbpResponse where
  "demo_value_response = rs_SetKvs (rs_SetOk MmbpResponse_init)\<lparr>rs_kvs := [\<lparr>key = [1], val = [2, 3]\<rparr>]\<rparr>"

theorem response_roundtrip_witness:
  "\<exists>out. rs_SerializeTo leb_kvarint list_buffer demo_value_response [] = Some out \<and>
    (\<exists>bytes. readable list_buffer out = readable list_buffer [] @ bytes \<and>
      (\<forall>b rest. readable list_buffer b = bytes @ rest \<longrightarrow>
        (\<exists>b'. rs_ParseFrom leb_kvarint list_buffer MmbpResponse_init b = Some (True, rs_carried demo_value_response, b')
          \<and> readable list_buffer b' = rest)))"
  by (rule response_roundtrip [OF kanon_list_buffer leb_kvarint_spec])
    (simp add: rs_wf_def demo_value_response_def rs_set_defs rs_SetOk_def rs_set_bit_def rs_has_defs MmbpResponse_init_def
      SetBit_def TestBit_def fits_str_def fits_kvs_def fits_vec_def)

text \<open>
  C38: a key longer than its 16-bit length prefix is not read back. The prefix is the length
  modulo 65536, so the parser returns only that many bytes of the key, and the rest of the key
  is left in front of the fields that follow.
\<close>
theorem long_key_truncated:
  assumes B: "kanon_buffer B" and K: "kvarint_spec K"
    and b: "readable B b = []" and len: "2 ^ 16 \<le> length s"
  shows "\<exists>b'. ParseComponent_str K B True (SerializeComponent_str K B s True b)
      = Some (take (length s mod 2 ^ 16) s, b')
    \<and> readable B b' = drop (length s mod 2 ^ 16) s \<and> readable B b' \<noteq> []"
proof -
  let ?b = "SerializeComponent_str K B s True b"
  let ?n = "length s mod 2 ^ 16"
  have r: "readable B ?b = kvarint_encode16 K (of_nat (length s)) @ s"
    using B b by (simp add: SerializeComponent_str_def SerializeComponent_u16_def wire_simps)
  from readsE [OF reads_ints(2) [OF B K] r] obtain b' where
    b': "ParseComponent_u16 K B ?b = (Some (of_nat (length s)), b')" "readable B b' = s" by auto
  have n: "unat (of_nat (length s) :: u16) = ?n" by (simp add: unat_of_nat take_bit_eq_mod)
  have "?n < length s" using len by (intro less_le_trans [OF mod_less_divisor]) auto
  with b' n B show ?thesis
    by (auto simp: ParseComponent_str_def peek_bytes_def kanon_bufferD)
qed

theorem long_key_truncated_witness:
  "\<exists>b'. ParseComponent_str leb_kvarint list_buffer True
      (SerializeComponent_str leb_kvarint list_buffer (replicate 65537 (7 :: byte)) True [])
      = Some (take (length (replicate 65537 (7 :: byte)) mod 2 ^ 16) (replicate 65537 7), b')
    \<and> readable list_buffer b' = drop (length (replicate 65537 (7 :: byte)) mod 2 ^ 16) (replicate 65537 7)
    \<and> readable list_buffer b' \<noteq> []"
  by (rule long_key_truncated [OF kanon_list_buffer leb_kvarint_spec]) simp_all

section \<open>The codec\<close>

text \<open>
  C2: on any bytes whatsoever, up to the size limit, the codec's receive loop terminates and does
  what \<open>deframe\<close> says: the message callback runs on the body of every complete valid frame in
  order, then the error callback runs once if the stream is broken, and the bytes of an
  incomplete frame stay in the buffer. It reads no byte past the buffer.
\<close>
theorem codec_refines_deframe:
  assumes K: "kvarint_spec K" and B: "kanon_buffer B" and cb: "consumes B P message_cb on_msg"
    and len: "length (readable B b) < MAX_SIZE"
    and P: "\<forall>body \<in> set (fst (deframe xxh32 K (host32 B) (readable B b))). P body"
  shows "\<exists>b'. readable B b' = snd (snd (deframe xxh32 K (host32 B) (readable B b)))
    \<and> codec_OnMessage xxh32 K B message_cb error_cb s b = map_option (\<lambda>s'. (s', b'))
        (received on_msg error_cb s (deframe xxh32 K (host32 B) (readable B b)))"
  by (rule codec_OnMessage_deframe [OF K B cb len P])

definition take_body :: "byte list list \<Rightarrow> byte list \<Rightarrow> u32 \<Rightarrow> (byte list list \<times> byte list) option" where
  "take_body s b n = Some (s @ [take (unat n) b], drop (unat n) b)"

lemma take_body_consumes:
  "consumes list_buffer (\<lambda>body. length body < 2 ^ 32) take_body (\<lambda>s body. Some (s @ [body]))"
  by (auto simp: consumes_def take_body_def unat_of_nat_lt)

text \<open>A frame with the body \<open>[7]\<close>, for a hash that is always 0: ten bytes.\<close>

definition seven :: "byte list" where
  "seven = frame (\<lambda>_. 0) leb_kvarint list_buffer [7]"

lemma seven_bytes: "seven = [9, 0x4D, 0x4D, 0x42, 0x50, 7, 0, 0, 0, 0]"
  by code_simp

lemma seven_frames: "deframe (\<lambda>_. 0) leb_kvarint (host32 list_buffer) (concat (replicate n seven)) = (replicate n [7], None, [])"
proof -
  have "length seven < MAX_SIZE" by (simp add: seven_bytes MAX_SIZE_def)
  then show ?thesis
    using deframe_only_frames [OF leb_kvarint_spec kanon_list_buffer, of "replicate n [7]" "\<lambda>_. 0"]
    by (simp add: seven_def [symmetric])
qed

lemma seven_frame: "deframe (\<lambda>_. 0) leb_kvarint (host32 list_buffer) seven = ([[7]], None, [])"
  using seven_frames [of 1] by simp

lemma seven_started: "deframe (\<lambda>_. 0) leb_kvarint (host32 list_buffer) (take 5 seven) = ([], None, take 5 seven)"
proof -
  have "kvarint_decode32 leb_kvarint (take 5 seven) = KVARINT_OK 1 9" by code_simp
  then have "deframe1 (\<lambda>_. 0) leb_kvarint (host32 list_buffer) (take 5 seven) = Incomplete"
    by (simp add: deframe1_def codec_consts seven_bytes)
  then show ?thesis by (rule deframe_Incomplete)
qed

lemma foldM_collect: "foldM (\<lambda>s body. Some (s @ [body])) s bodies = Some (s @ bodies)"
  by (induction bodies arbitrary: s) simp_all

text \<open>A complete frame and the start of another.\<close>

lemma seven_and_half:
  "deframe (\<lambda>_. 0) leb_kvarint (host32 list_buffer) (seven @ take 5 seven) = ([[7]], None, take 5 seven)"
  using deframe_append [OF leb_kvarint_spec, of "\<lambda>_. 0" "host32 list_buffer" seven "take 5 seven"]
  by (simp add: seven_frame seven_started)

theorem codec_refines_deframe_witness:
  "codec_OnMessage (\<lambda>_. 0) leb_kvarint list_buffer take_body (\<lambda>s e. Some (s @ [[1]])) [] (seven @ take 5 seven)
    = Some ([[7]], take 5 seven)"
proof -
  let ?d = "deframe (\<lambda>_. 0) leb_kvarint (host32 list_buffer) (readable list_buffer (seven @ take 5 seven))"
  have d: "?d = ([[7]], None, take 5 seven)" using seven_and_half by simp
  have "length (readable list_buffer (seven @ take 5 seven)) < MAX_SIZE" by (simp add: MAX_SIZE_def seven_bytes)
  moreover have "\<forall>body \<in> set (fst ?d). length body < 2 ^ 32" unfolding d by simp
  ultimately show ?thesis
    using codec_refines_deframe [OF leb_kvarint_spec kanon_list_buffer take_body_consumes, of "seven @ take 5 seven" "\<lambda>_. 0" "\<lambda>s e. Some (s @ [[1]])" "[]"]
    unfolding d by (simp add: received_def)
qed

text \<open>
  C8: when cutting a stream into segments does not matter. Let a stream be free of errors, and let
  every segment of a cut, with the bytes of an incomplete frame left over before it, be shorter than
  \<open>MAX_SIZE\<close> (64 MB). Then the receiver handles the bodies of all the complete frames, in order, and
  keeps the bytes of the last incomplete one. So any two such cuts have the same effect, and every
  cut is one if the whole stream is shorter than \<open>MAX_SIZE\<close>. It does matter otherwise: a stream of
  at least \<open>MAX_SIZE\<close> bytes that is received in one segment is discarded with an error, even where
  it consists of valid frames. (After an error in the stream, which the hypothesis excludes, the
  codec reports again with each further segment.)
\<close>
theorem codec_segmentation:
  assumes K: "kvarint_spec K" and B: "kanon_buffer B" and cb: "consumes B P message_cb on_msg"
    and b: "readable B b = []" and ne: "segs \<noteq> []"
    and ok: "deframe xxh32 K (host32 B) (concat segs) = (bodies, None, left)"
    and P: "\<forall>body \<in> set bodies. P body" and full: "never_full xxh32 K (host32 B) [] segs"
  shows "(\<exists>b1. readable B b1 = left
      \<and> codec_session xxh32 K B message_cb error_cb s b segs = map_option (\<lambda>s'. (s', b1)) (foldM on_msg s bodies))
    \<and> (\<forall>segs'. concat segs' = concat segs \<and> segs' \<noteq> []
          \<and> (never_full xxh32 K (host32 B) [] segs' \<or> length (concat segs) < MAX_SIZE) \<longrightarrow>
        (\<exists>b2. readable B b2 = left
          \<and> codec_session xxh32 K B message_cb error_cb s b segs' = map_option (\<lambda>s'. (s', b2)) (foldM on_msg s bodies)))
    \<and> (MAX_SIZE \<le> length (concat segs) \<longrightarrow>
        (\<exists>b3. readable B b3 = []
          \<and> codec_session xxh32 K B message_cb error_cb s b [concat segs]
            = map_option (\<lambda>s'. (s', b3)) (error_cb s E_INVALID_SIZE_HEADER)))"
proof -
  have run: "\<exists>b2. readable B b2 = left
      \<and> codec_session xxh32 K B message_cb error_cb s b us = map_option (\<lambda>s'. (s', b2)) (foldM on_msg s bodies)"
    if "concat us = concat segs" "us \<noteq> []" "never_full xxh32 K (host32 B) [] us" for us
  proof (rule codec_session_never_full [OF K B cb _ _ P that(2)])
    show "never_full xxh32 K (host32 B) (readable B b) us" unfolding b by (rule that(3))
    show "deframe xxh32 K (host32 B) (readable B b @ concat us) = (bodies, None, left)"
      unfolding b that(1) append_Nil by (rule ok)
  qed
  have small: "never_full xxh32 K (host32 B) [] us"
    if "concat us = concat segs" "length (concat segs) < MAX_SIZE" for us
    using that by (intro never_full_small) simp
  show ?thesis
  proof (intro conjI allI impI)
    show "\<exists>b1. readable B b1 = left
      \<and> codec_session xxh32 K B message_cb error_cb s b segs = map_option (\<lambda>s'. (s', b1)) (foldM on_msg s bodies)"
      by (rule run [OF refl ne full])
  next
    fix us
    assume us: "concat us = concat segs \<and> us \<noteq> []
      \<and> (never_full xxh32 K (host32 B) [] us \<or> length (concat segs) < MAX_SIZE)"
    then have "never_full xxh32 K (host32 B) [] us" using small [of us] by metis
    with us run [of us] show "\<exists>b2. readable B b2 = left
      \<and> codec_session xxh32 K B message_cb error_cb s b us = map_option (\<lambda>s'. (s', b2)) (foldM on_msg s bodies)" by metis
  qed (rule codec_session_discards [OF B b])
qed

text \<open>
  The instance is a stream of so many frames that it is longer than \<open>MAX_SIZE\<close>: they arrive when each
  comes in two pieces, and none does when they come at once.
\<close>

lemma never_full_sevens: "never_full (\<lambda>_. 0) leb_kvarint (host32 list_buffer) [] (concat (replicate n [take 5 seven, drop 5 seven]))"
proof (induction n)
  case (Suc n)
  have "length (take 5 seven) < MAX_SIZE" "length seven < MAX_SIZE" by (simp_all add: seven_bytes MAX_SIZE_def)
  with Suc show ?case by (simp add: seven_started seven_frame)
qed simp

lemma concat_sevens: "concat (concat (replicate n [take 5 seven, drop 5 seven])) = concat (replicate n seven)"
  by (induction n) simp_all

theorem codec_segmentation_witness:
  "\<exists>n b1 b2. 0 < n
    \<and> codec_session (\<lambda>_. 0) leb_kvarint list_buffer take_body (\<lambda>s _. Some (s @ [[1]])) [] []
        (concat (replicate n [take 5 seven, drop 5 seven])) = Some (replicate n [7], b1)
    \<and> codec_session (\<lambda>_. 0) leb_kvarint list_buffer take_body (\<lambda>s _. Some (s @ [[1]])) [] [] [concat (replicate n seven)]
      = Some ([[1]], b2)"
proof -
  define n where "n = MAX_SIZE"
  let ?segs = "concat (replicate n [take 5 seven, drop 5 seven])"
  have n: "0 < n" by (simp add: n_def MAX_SIZE_def)
  have "length (concat (replicate m seven)) = 10 * m" for m by (induction m) (simp_all add: seven_bytes)
  then have big: "MAX_SIZE \<le> length (concat ?segs)" by (simp add: concat_sevens n_def)
  have ne: "?segs \<noteq> []" using n by (cases n) simp_all
  have d: "deframe (\<lambda>_. 0) leb_kvarint (host32 list_buffer) (concat ?segs) = (replicate n [7], None, [])"
    unfolding concat_sevens by (rule seven_frames)
  have e: "readable list_buffer [] = []" by simp
  have P: "\<forall>body \<in> set (replicate n [7 :: byte]). length body < 2 ^ 32" by simp
  note seg = codec_segmentation [OF leb_kvarint_spec kanon_list_buffer take_body_consumes e ne d P never_full_sevens,
      of "\<lambda>s _. Some (s @ [[1]])" "[]"]
  show ?thesis using seg big n unfolding concat_sevens foldM_collect by auto
qed

text \<open>
  The error reply that the codec's default error callback sends is not a frame. A peer that
  runs the same codec does not see the status \<open>S_INVALID_MESSAGE\<close>: its loop takes the status
  byte for a size header and reports \<open>E_INVALID_SIZE_HEADER\<close>.
\<close>
theorem default_error_reply_unframed:
  "\<exists>bytes. default_error_cb leb_kvarint list_buffer [] [] code = Some [ConnSend bytes, ConnShutdownWrite]
    \<and> deframe xxh32 leb_kvarint (host32 list_buffer) bytes = ([], Some E_INVALID_SIZE_HEADER, bytes)"
proof -
  have "default_error_cb leb_kvarint list_buffer [] [] E_NOERROR
    = Some [ConnSend [status_code S_INVALID_MESSAGE, 0], ConnShutdownWrite]"
    by code_simp
  moreover have "deframe1 xxh32 leb_kvarint (host32 list_buffer) [status_code S_INVALID_MESSAGE, 0]
    = Broken E_INVALID_SIZE_HEADER [status_code S_INVALID_MESSAGE, 0]"
  proof -
    have "kvarint_decode32 leb_kvarint [status_code S_INVALID_MESSAGE, 0] = KVARINT_OK 1 (ucast (status_code S_INVALID_MESSAGE))"
      by code_simp
    moreover have "unat (ucast (status_code S_INVALID_MESSAGE) :: u32) < MIN_SIZE" by code_simp
    ultimately show ?thesis by (simp add: deframe1_def)
  qed
  ultimately show ?thesis by (auto simp: default_error_cb_def deframe_Broken)
qed

section \<open>Tables\<close>

text \<open>
  Every command of the protocol has a name of its own: the table lookup is defined for the code
  of every command, and two commands with the same name are the same command.
\<close>
theorem command_names:
  "GetCommandString (command_code c) \<noteq> None
   \<and> (GetCommandString (command_code c) = GetCommandString (command_code d) \<longleftrightarrow> c = d)"
  using command_names_unique [of c d] by (simp add: GetCommandString_Some)

text \<open>
  The guard that \<open>DebugPrint\<close> puts before the name lookup is one too wide: it lets exactly one
  code through that has no name, \<open>COMMAND_NUM\<close>, which is the command of every fresh request, so
  printing a request whose command was not set reads past the end of the table.
\<close>
theorem DebugPrint_reads_past_table:
  "(rq_DebugPrint_command r = None \<longleftrightarrow> rq_command r = COMMAND_NUM)
   \<and> rq_DebugPrint_command MmbpRequest_init = None"
proof -
  have "rq_DebugPrint_command r = None \<longleftrightarrow> rq_command r = COMMAND_NUM" for r
    by (auto simp: rq_DebugPrint_command_def GetCommandString_def COMMAND_NUM_def word_le_nat_alt
        word_unat_eq_iff)
  then show ?thesis by (simp add: MmbpRequest_init_def)
qed

text \<open>
  A status byte has a message exactly when it is one of the codes up to \<open>S_SHARD_LOCKED\<close>; on
  every other byte, the codes \<open>S_SHARD_PROCESSING\<close>, \<open>S_INVALID_SHARD\<close> and \<open>S_UNSET\<close> and every byte
  a peer may send that is no code at all, \<open>GetStatusMessage\<close> aborts.
\<close>
theorem status_messages:
  "(GetStatusMessage b \<noteq> None \<longleftrightarrow> b \<le> status_code S_SHARD_LOCKED)
   \<and> GetStatusMessage (status_code S_SHARD_PROCESSING) = None
   \<and> GetStatusMessage (status_code S_INVALID_SHARD) = None"
  using GetStatusMessage_defined [of b] GetStatusMessage_defined [of "status_code S_SHARD_PROCESSING"]
    GetStatusMessage_defined [of "status_code S_INVALID_SHARD"]
  by (auto simp: has_message_def)

end
