(* ===== verification/Mmkv_Value.thy ===== *)
theory Mmkv_Value
  imports Mmbp_Response
begin

text \<open>
  \<open>MmkvValue\<close> (\<open>client/mmkv_value.h\<close>, \<open>client/mmkv_value.cc\<close>): what a callback of the client
  receives, a status with a tagged union. The union is modelled by the member that is alive;
  \<open>U_none\<close> is the raw storage the default constructor leaves. Assigning to a \<open>std::string\<close> or
  \<open>std::vector\<close> member that was never constructed, and reading a member that is not alive, are
  undefined behaviour: the value \<open>None\<close>.
\<close>

datatype (plugins only: ) ValueType =
    V_INVALID | V_COUNT | V_STR_VALUE | V_STR_VALUES | V_STR_KVS | V_WEIGHT_VALUES | V_WEIGHT | V_USR

datatype (plugins only: ) val_union =
    U_none
  | U_count u64
  | U_value bstring
  | U_values StrValues
  | U_kvs StrKvs
  | U_wvs WeightValues
  | U_weight double

record MmkvValue =
  mv_status_code :: byte
  mv_type :: ValueType
  mv_union :: val_union

text \<open>The status of a fresh value is not initialised; it is the argument \<open>garbage\<close>.\<close>

definition MmkvValue_init :: "byte \<Rightarrow> MmkvValue" where
  "MmkvValue_init garbage = \<lparr>mv_status_code = garbage, mv_type = V_INVALID, mv_union = U_none\<rparr>"

section \<open>Members of the union\<close>

definition get_count :: "val_union \<Rightarrow> u64 option" where
  "get_count u = (case u of U_count c \<Rightarrow> Some c | _ \<Rightarrow> None)"
definition get_value :: "val_union \<Rightarrow> bstring option" where
  "get_value u = (case u of U_value c \<Rightarrow> Some c | _ \<Rightarrow> None)"
definition get_values :: "val_union \<Rightarrow> StrValues option" where
  "get_values u = (case u of U_values c \<Rightarrow> Some c | _ \<Rightarrow> None)"
definition get_kvs :: "val_union \<Rightarrow> StrKvs option" where
  "get_kvs u = (case u of U_kvs c \<Rightarrow> Some c | _ \<Rightarrow> None)"
definition get_wvs :: "val_union \<Rightarrow> WeightValues option" where
  "get_wvs u = (case u of U_wvs c \<Rightarrow> Some c | _ \<Rightarrow> None)"
definition get_weight :: "val_union \<Rightarrow> double option" where
  "get_weight u = (case u of U_weight c \<Rightarrow> Some c | _ \<Rightarrow> None)"

lemmas get_union_defs = get_count_def get_value_def get_values_def get_kvs_def get_wvs_def get_weight_def

text \<open>Assignment to a class-type member needs that member to be alive; scalars need nothing.\<close>

definition assign_value :: "val_union \<Rightarrow> bstring \<Rightarrow> val_union option" where
  "assign_value u x = (case u of U_value _ \<Rightarrow> Some (U_value x) | _ \<Rightarrow> None)"
definition assign_values :: "val_union \<Rightarrow> StrValues \<Rightarrow> val_union option" where
  "assign_values u x = (case u of U_values _ \<Rightarrow> Some (U_values x) | _ \<Rightarrow> None)"
definition assign_kvs :: "val_union \<Rightarrow> StrKvs \<Rightarrow> val_union option" where
  "assign_kvs u x = (case u of U_kvs _ \<Rightarrow> Some (U_kvs x) | _ \<Rightarrow> None)"
definition assign_wvs :: "val_union \<Rightarrow> WeightValues \<Rightarrow> val_union option" where
  "assign_wvs u x = (case u of U_wvs _ \<Rightarrow> Some (U_wvs x) | _ \<Rightarrow> None)"

lemmas assign_union_defs = assign_value_def assign_values_def assign_kvs_def assign_wvs_def

text \<open>The conversion of a \<open>uint64_t\<close> to a \<open>double\<close>, rounding to nearest, ties to even.\<close>

fun bit_length :: "nat \<Rightarrow> nat" where
  "bit_length n = (if n = 0 then 0 else Suc (bit_length (n div 2)))"

declare bit_length.simps [simp del]

definition double_of_u64 :: "u64 \<Rightarrow> double" where
  "double_of_u64 c =
     (let n = unat c; l = bit_length n in
      if n = 0 then Double 0
      else if l \<le> 53 then Double (of_nat ((1022 + l) * 2 ^ 52 + (n * 2 ^ (53 - l) - 2 ^ 52)))
      else (let k = 2 ^ (l - 53); q = n div k; r = n mod k;
                m = (if k < 2 * r \<or> (k = 2 * r \<and> odd q) then q + 1 else q) in
            Double (of_nat ((1022 + l) * 2 ^ 52 + (m - 2 ^ 52)))))"

section \<open>Operations\<close>

definition mv_destroy :: "MmkvValue \<Rightarrow> MmkvValue option" where
  "mv_destroy v =
     (case mv_type v of
        V_STR_VALUE \<Rightarrow> do { _ \<leftarrow> get_value (mv_union v); Some (v\<lparr>mv_type := V_INVALID, mv_union := U_none\<rparr>) }
      | V_STR_VALUES \<Rightarrow> do { _ \<leftarrow> get_values (mv_union v); Some (v\<lparr>mv_type := V_INVALID, mv_union := U_none\<rparr>) }
      | V_STR_KVS \<Rightarrow> do { _ \<leftarrow> get_kvs (mv_union v); Some (v\<lparr>mv_type := V_INVALID, mv_union := U_none\<rparr>) }
      | V_WEIGHT_VALUES \<Rightarrow> do { _ \<leftarrow> get_wvs (mv_union v); Some (v\<lparr>mv_type := V_INVALID, mv_union := U_none\<rparr>) }
      | _ \<Rightarrow> Some (v\<lparr>mv_type := V_INVALID\<rparr>))"

text \<open>The switch of the copy and the move constructor, from the union of \<open>rhs\<close> into \<open>u\<close>.\<close>

definition mv_construct_from :: "ValueType \<Rightarrow> val_union \<Rightarrow> val_union \<Rightarrow> val_union option" where
  "mv_construct_from t u rhs =
     (case t of
        V_COUNT \<Rightarrow> do { c \<leftarrow> get_count rhs; Some (U_count c) }
      | V_STR_VALUE \<Rightarrow> do { x \<leftarrow> get_value rhs; assign_value u x }
      | V_STR_VALUES \<Rightarrow> do { x \<leftarrow> get_values rhs; assign_values u x }
      | V_STR_KVS \<Rightarrow> do { x \<leftarrow> get_kvs rhs; assign_kvs u x }
      | V_WEIGHT \<Rightarrow> do { w \<leftarrow> get_weight rhs; Some (U_weight w) }
      | V_WEIGHT_VALUES \<Rightarrow> do { x \<leftarrow> get_wvs rhs; assign_wvs u x }
      | V_USR \<Rightarrow> None
      | V_INVALID \<Rightarrow> Some u)"

definition mv_copy :: "MmkvValue \<Rightarrow> MmkvValue option" where
  "mv_copy rhs = do {
     u \<leftarrow> mv_construct_from (mv_type rhs) U_none (mv_union rhs);
     Some \<lparr>mv_status_code = mv_status_code rhs, mv_type = mv_type rhs, mv_union = u\<rparr> }"

text \<open>
  The move constructor resets \<open>rhs\<close> before it switches on the type of \<open>rhs\<close>. The result is the
  new value and what is left in \<open>rhs\<close>.
\<close>

definition mv_move :: "MmkvValue \<Rightarrow> (MmkvValue \<times> MmkvValue) option" where
  "mv_move rhs = do {
     let rhs' = rhs\<lparr>mv_status_code := status_code S_UNSET, mv_type := V_INVALID\<rparr>;
     u \<leftarrow> mv_construct_from (mv_type rhs') U_none (mv_union rhs');
     Some (\<lparr>mv_status_code = mv_status_code rhs, mv_type = mv_type rhs, mv_union = u\<rparr>, rhs') }"

text \<open>The assignments construct a new object in place, whatever the old one holds.\<close>

definition mv_assign :: "MmkvValue \<Rightarrow> MmkvValue \<Rightarrow> MmkvValue option" where
  "mv_assign this rhs = mv_copy rhs"

definition mv_assign_move :: "MmkvValue \<Rightarrow> MmkvValue \<Rightarrow> (MmkvValue \<times> MmkvValue) option" where
  "mv_assign_move this rhs = mv_move rhs"

definition mv_swap :: "MmkvValue \<Rightarrow> MmkvValue \<Rightarrow> (MmkvValue \<times> MmkvValue) option" where
  "mv_swap v rhs =
     (let v1 = v\<lparr>mv_status_code := mv_status_code rhs, mv_type := mv_type rhs\<rparr>;
          r1 = rhs\<lparr>mv_status_code := mv_status_code v, mv_type := mv_type v\<rparr>;
          swapped = Some (v1\<lparr>mv_union := mv_union rhs\<rparr>, r1\<lparr>mv_union := mv_union v\<rparr>) in
      if mv_type v1 = mv_type r1 then
        (case mv_type v1 of
           V_STR_VALUE \<Rightarrow> do { _ \<leftarrow> get_value (mv_union v); _ \<leftarrow> get_value (mv_union rhs); swapped }
         | V_STR_VALUES \<Rightarrow> do { _ \<leftarrow> get_values (mv_union v); _ \<leftarrow> get_values (mv_union rhs); swapped }
         | V_COUNT \<Rightarrow> do { _ \<leftarrow> get_count (mv_union v); _ \<leftarrow> get_count (mv_union rhs); swapped }
         | V_WEIGHT \<Rightarrow> do { _ \<leftarrow> get_weight (mv_union v); _ \<leftarrow> get_weight (mv_union rhs); swapped }
         | V_WEIGHT_VALUES \<Rightarrow> do { _ \<leftarrow> get_wvs (mv_union v); _ \<leftarrow> get_wvs (mv_union rhs); swapped }
         | V_STR_KVS \<Rightarrow> do { _ \<leftarrow> get_kvs (mv_union v); _ \<leftarrow> get_kvs (mv_union rhs); swapped }
         | _ \<Rightarrow> Some (v1, r1))
      else Some (v1, r1))"

definition ToStrValue :: "MmkvValue \<Rightarrow> bstring option" where
  "ToStrValue v = (if mv_type v = V_STR_VALUE then get_value (mv_union v) else None)"

definition ToStrValues :: "MmkvValue \<Rightarrow> StrValues option" where
  "ToStrValues v = (if mv_type v = V_STR_VALUES then get_values (mv_union v) else None)"

definition ToCount :: "MmkvValue \<Rightarrow> u64 option" where
  "ToCount v = (if mv_type v = V_COUNT then get_count (mv_union v) else None)"

definition ToWeight :: "MmkvValue \<Rightarrow> double option" where
  "ToWeight v = (if mv_type v = V_WEIGHT then get_weight (mv_union v) else None)"

definition ToStrKvs :: "MmkvValue \<Rightarrow> StrKvs option" where
  "ToStrKvs v = (if mv_type v = V_STR_VALUES then get_kvs (mv_union v) else None)"

definition ToWeightValues :: "MmkvValue \<Rightarrow> WeightValues option" where
  "ToWeightValues v = (if mv_type v = V_WEIGHT_VALUES then get_wvs (mv_union v) else None)"

lemmas mv_to_defs = ToStrValue_def ToStrValues_def ToCount_def ToWeight_def ToStrKvs_def ToWeightValues_def

text \<open>The response's count is not initialised until it is set.\<close>

definition FromResponse :: "MmbpResponse \<Rightarrow> MmkvValue \<Rightarrow> MmkvValue option" where
  "FromResponse r v0 =
     (let v = v0\<lparr>mv_status_code := rs_status_code r\<rparr>; u = mv_union v0 in
      case mv_type v of
        V_STR_VALUE \<Rightarrow> do { u \<leftarrow> assign_value u (rs_value r); Some (v\<lparr>mv_union := u\<rparr>) }
      | V_STR_VALUES \<Rightarrow> do { u \<leftarrow> assign_values u (rs_values r); Some (v\<lparr>mv_union := u\<rparr>) }
      | V_COUNT \<Rightarrow> do { c \<leftarrow> rs_count r; Some (v\<lparr>mv_union := U_count c\<rparr>) }
      | V_WEIGHT \<Rightarrow> do { c \<leftarrow> rs_count r; Some (v\<lparr>mv_union := U_weight (double_of_u64 c)\<rparr>) }
      | V_WEIGHT_VALUES \<Rightarrow> do { u \<leftarrow> assign_wvs u (rs_vmembers r); Some (v\<lparr>mv_union := u\<rparr>) }
      | V_STR_KVS \<Rightarrow> do { u \<leftarrow> assign_kvs u (rs_kvs r); Some (v\<lparr>mv_union := u\<rparr>) }
      | _ \<Rightarrow> Some v)"

section \<open>Well-formed values\<close>

text \<open>The member that the tag announces is alive.\<close>

definition union_tag :: "val_union \<Rightarrow> ValueType" where
  "union_tag u = (case u of U_none \<Rightarrow> V_INVALID | U_count _ \<Rightarrow> V_COUNT | U_value _ \<Rightarrow> V_STR_VALUE
     | U_values _ \<Rightarrow> V_STR_VALUES | U_kvs _ \<Rightarrow> V_STR_KVS | U_wvs _ \<Rightarrow> V_WEIGHT_VALUES
     | U_weight _ \<Rightarrow> V_WEIGHT)"

definition mv_wf :: "MmkvValue \<Rightarrow> bool" where
  "mv_wf v \<longleftrightarrow> mv_type v \<in> {V_INVALID, V_USR} \<or> union_tag (mv_union v) = mv_type v"

lemma mv_wf_tag: "mv_wf v \<Longrightarrow> mv_type v \<notin> {V_INVALID, V_USR} \<Longrightarrow> mv_type v = union_tag (mv_union v)"
  by (auto simp: mv_wf_def)

lemma mv_swap_same:
  assumes "union_tag (mv_union v) = mv_type v" "union_tag (mv_union w) = mv_type w"
    and "mv_type v = mv_type w" "mv_type v \<noteq> V_INVALID"
  shows "mv_swap v w = Some (w, v)"
  using assms
  by (cases "mv_union v"; cases "mv_union w")
    (simp_all add: mv_swap_def Let_def union_tag_def get_union_defs)

lemma FromResponse_invalid:
  "mv_type v = V_INVALID \<Longrightarrow> FromResponse r v = Some (v\<lparr>mv_status_code := rs_status_code r\<rparr>)"
  by (simp add: FromResponse_def)

lemma mv_move_Some:
  "mv_move v = Some (\<lparr>mv_status_code = mv_status_code v, mv_type = mv_type v, mv_union = U_none\<rparr>,
     v\<lparr>mv_status_code := status_code S_UNSET, mv_type := V_INVALID\<rparr>)"
  by (simp add: mv_move_def mv_construct_from_def)

lemma mv_move_init: "mv_move (MmkvValue_init g) =
    Some (MmkvValue_init g, MmkvValue_init (status_code S_UNSET))"
  by (simp add: mv_move_Some MmkvValue_init_def)

text \<open>
  Moving a value never moves its payload. The move constructor clears the type of the source
  before it switches on that type, so it always succeeds, the new value has the source's tag
  and status but raw storage, and it is well formed only for a tag without payload; every
  accessor of a moved value is undefined.
\<close>
theorem mv_move_loses_payload:
  "\<exists>w rest. mv_move v = Some (w, rest) \<and> mv_type w = mv_type v \<and> mv_status_code w = mv_status_code v
     \<and> mv_union w = U_none \<and> (mv_wf w \<longleftrightarrow> mv_type v \<in> {V_INVALID, V_USR})
     \<and> ToStrValue w = None \<and> ToStrValues w = None \<and> ToCount w = None \<and> ToWeight w = None
     \<and> ToStrKvs w = None \<and> ToWeightValues w = None"
  by (auto simp: mv_move_Some mv_wf_def union_tag_def get_union_defs mv_to_defs)

text \<open>
  \<open>swap\<close> exchanges two well-formed values of one type, whatever the type: doing it twice gives
  them back. For values of different types it exchanges the tags and leaves the payloads, so
  that neither result is well formed when both tags announce a payload.
\<close>
theorem mv_swap_cases:
  assumes "mv_wf v" and "mv_wf w"
    and "mv_type v \<notin> {V_INVALID, V_USR}" and "mv_type w \<notin> {V_INVALID, V_USR}"
  shows "if mv_type v = mv_type w then mv_swap v w = Some (w, v)
    else \<exists>v' w'. mv_swap v w = Some (v', w') \<and> \<not> mv_wf v' \<and> \<not> mv_wf w'"
proof (cases "mv_type v = mv_type w")
  case True
  with assms mv_swap_same [of v w] show ?thesis by (auto simp: mv_wf_def)
next
  case False
  with assms show ?thesis by (auto simp: mv_swap_def Let_def mv_wf_def)
qed

theorem mv_swap_cases_witness:
  "\<not> mv_wf (fst (the (mv_swap \<lparr>mv_status_code = 0, mv_type = V_COUNT, mv_union = U_count 7\<rparr>
      \<lparr>mv_status_code = 0, mv_type = V_STR_VALUE, mv_union = U_value [0x61]\<rparr>)))"
  using mv_swap_cases [of "\<lparr>mv_status_code = 0, mv_type = V_COUNT, mv_union = U_count 7\<rparr>"
      "\<lparr>mv_status_code = 0, mv_type = V_STR_VALUE, mv_union = U_value [0x61]\<rparr>"]
  by (simp add: mv_swap_def Let_def mv_wf_def union_tag_def)

section \<open>What the operations do to well-formedness\<close>

text \<open>The values a program can make: the type is private and every value starts with the default constructor.\<close>

inductive mv_made :: "MmkvValue \<Rightarrow> bool" where
  made_init: "mv_made (MmkvValue_init g)"
| made_from: "mv_made v \<Longrightarrow> FromResponse r v = Some v' \<Longrightarrow> mv_made v'"
| made_destroy: "mv_made v \<Longrightarrow> mv_destroy v = Some v' \<Longrightarrow> mv_made v'"
| made_copy: "mv_made v \<Longrightarrow> mv_copy v = Some v' \<Longrightarrow> mv_made v'"
| made_move: "mv_made v \<Longrightarrow> mv_move v = Some (v', rest) \<Longrightarrow> u \<in> {v', rest} \<Longrightarrow> mv_made u"
| made_swap: "mv_made v \<Longrightarrow> mv_made w \<Longrightarrow> mv_swap v w = Some (v', w') \<Longrightarrow> u \<in> {v', w'} \<Longrightarrow> mv_made u"

lemma mv_made_invalid: "mv_made v \<Longrightarrow> mv_type v = V_INVALID"
  by (induction rule: mv_made.induct)
    (auto simp: MmkvValue_init_def FromResponse_invalid mv_destroy_def mv_copy_def mv_move_Some mv_swap_def
      split: bind_splits)

lemma FromResponse_exact:
  assumes "mv_wf v"
  shows "if rs_count r = None \<and> mv_type v \<in> {V_COUNT, V_WEIGHT} then FromResponse r v = None
    else \<exists>v'. FromResponse r v = Some v' \<and> mv_wf v' \<and> mv_type v' = mv_type v"
  using assms by (cases "mv_union v"; cases "mv_type v"; cases "rs_count r")
    (auto simp: FromResponse_def mv_wf_def union_tag_def Let_def assign_union_defs)

lemma mv_destroy_exact: "mv_wf v \<Longrightarrow> \<exists>v'. mv_destroy v = Some v' \<and> mv_wf v' \<and> mv_type v' = V_INVALID"
  by (cases "mv_union v"; cases "mv_type v") (auto simp: mv_destroy_def mv_wf_def union_tag_def get_union_defs)

lemma mv_copy_exact:
  assumes "mv_wf v"
  shows "if mv_type v \<in> {V_INVALID, V_COUNT, V_WEIGHT} then \<exists>v'. mv_copy v = Some v' \<and> mv_wf v' \<and> mv_type v' = mv_type v
    else mv_copy v = None"
  using assms by (cases "mv_union v"; cases "mv_type v")
    (auto simp: mv_copy_def mv_construct_from_def mv_wf_def union_tag_def get_union_defs assign_union_defs)

lemma mv_swap_exact:
  assumes "mv_wf v" and "mv_wf w"
  shows "\<exists>v' w'. mv_swap v w = Some (v', w')
    \<and> (mv_wf v' \<longleftrightarrow> mv_type v = mv_type w \<or> mv_type w \<in> {V_INVALID, V_USR} \<or> union_tag (mv_union v) = mv_type w)
    \<and> (mv_wf w' \<longleftrightarrow> mv_type v = mv_type w \<or> mv_type v \<in> {V_INVALID, V_USR} \<or> union_tag (mv_union w) = mv_type v)"
proof (cases "mv_type v = mv_type w")
  case True
  show ?thesis
  proof (cases "mv_type v \<in> {V_INVALID, V_USR}")
    case False
    with assms True mv_swap_same [of v w] show ?thesis by (auto simp: mv_wf_def)
  qed (use True in \<open>auto simp: mv_swap_def Let_def mv_wf_def\<close>)
next
  case False
  then show ?thesis by (auto simp: mv_swap_def Let_def mv_wf_def)
qed

text \<open>
  C28: exactly which operations on \<open>MmkvValue\<close> keep the match between the type and the member of
  the union that is alive. Of two values for which it holds: filling one from a response is defined,
  unless it takes a count that the response does not have, and keeps it; destruction keeps it; a copy
  is defined only for a value without a class member and then keeps it; a move is always defined and
  leaves the source matching, but its result matches only where the type has no payload; a swap is
  always defined and keeps the match for values of one type, while for different types each result
  matches only if its new type has no payload or happens to be that of the member it had. For the
  values a program can make this means that the type is never other than \<open>V_INVALID\<close>: it is private,
  starts so and no operation sets it, so every accessor fails on every value.
\<close>
theorem value_member_matches_type:
  assumes "mv_wf v" and "mv_wf w"
  shows "(if rs_count r = None \<and> mv_type v \<in> {V_COUNT, V_WEIGHT} then FromResponse r v = None
      else \<exists>v'. FromResponse r v = Some v' \<and> mv_wf v' \<and> mv_type v' = mv_type v)
    \<and> (\<exists>v'. mv_destroy v = Some v' \<and> mv_wf v' \<and> mv_type v' = V_INVALID)
    \<and> (if mv_type v \<in> {V_INVALID, V_COUNT, V_WEIGHT} then \<exists>v'. mv_copy v = Some v' \<and> mv_wf v' \<and> mv_type v' = mv_type v
       else mv_copy v = None)
    \<and> (\<exists>v' rest. mv_move v = Some (v', rest) \<and> mv_wf rest \<and> (mv_wf v' \<longleftrightarrow> mv_type v \<in> {V_INVALID, V_USR}))
    \<and> (\<exists>v' w'. mv_swap v w = Some (v', w')
        \<and> (mv_wf v' \<longleftrightarrow> mv_type v = mv_type w \<or> mv_type w \<in> {V_INVALID, V_USR} \<or> union_tag (mv_union v) = mv_type w)
        \<and> (mv_wf w' \<longleftrightarrow> mv_type v = mv_type w \<or> mv_type v \<in> {V_INVALID, V_USR} \<or> union_tag (mv_union w) = mv_type v))
    \<and> (mv_made u \<longrightarrow> mv_type u = V_INVALID \<and> ToStrValue u = None \<and> ToStrValues u = None \<and> ToCount u = None
        \<and> ToWeight u = None \<and> ToStrKvs u = None \<and> ToWeightValues u = None)"
proof (intro conjI FromResponse_exact [OF assms(1)] mv_destroy_exact [OF assms(1)] mv_copy_exact [OF assms(1)] mv_swap_exact [OF assms])
  show "\<exists>v' rest. mv_move v = Some (v', rest) \<and> mv_wf rest \<and> (mv_wf v' \<longleftrightarrow> mv_type v \<in> {V_INVALID, V_USR})"
    by (auto simp: mv_move_Some mv_wf_def union_tag_def)
  show "mv_made u \<longrightarrow> mv_type u = V_INVALID \<and> ToStrValue u = None \<and> ToStrValues u = None \<and> ToCount u = None
      \<and> ToWeight u = None \<and> ToStrKvs u = None \<and> ToWeightValues u = None"
    using mv_made_invalid [of u] by (auto simp: mv_to_defs)
qed

text \<open>
  The instance: a string value and a count. The string cannot be copied, loses its payload when
  moved, and swapping the two breaks both; a made value that a response filled has no accessor.
\<close>

definition demo_string :: MmkvValue where
  "demo_string = \<lparr>mv_status_code = 0, mv_type = V_STR_VALUE, mv_union = U_value [0x61]\<rparr>"

definition demo_count :: MmkvValue where
  "demo_count = \<lparr>mv_status_code = 0, mv_type = V_COUNT, mv_union = U_count 7\<rparr>"

theorem value_member_matches_type_witness:
  "mv_copy demo_string = None \<and> (\<exists>v' rest. mv_move demo_string = Some (v', rest) \<and> \<not> mv_wf v')
    \<and> (\<exists>v' w'. mv_swap demo_string demo_count = Some (v', w') \<and> \<not> mv_wf v' \<and> \<not> mv_wf w')
    \<and> (\<exists>u. FromResponse (MmbpResponse_init\<lparr>rs_count := Some 1\<rparr>) (MmkvValue_init 0) = Some u \<and> ToCount u = None)"
proof -
  obtain u where u: "FromResponse (MmbpResponse_init\<lparr>rs_count := Some 1\<rparr>) (MmkvValue_init 0) = Some u"
    by (simp add: FromResponse_invalid MmkvValue_init_def)
  have made: "mv_made u" by (rule made_from [OF made_init u])
  have "mv_wf demo_string" "mv_wf demo_count" by (simp_all add: demo_string_def demo_count_def mv_wf_def union_tag_def)
  from value_member_matches_type [OF this, of MmbpResponse_init u] u made show ?thesis
    by (auto simp: demo_string_def demo_count_def union_tag_def)
qed

end
