(* ===== verification/Mmkv_Client.thy ===== *)
theory Mmkv_Client
  imports Mmbp_Frame Mmkv_Value Command Kanon_Instance "HOL-Library.Multiset"
begin

text \<open>
  \<open>MmkvClient\<close> (\<open>client/mmkv_client.h\<close>, \<open>client/mmkv_client.cc\<close>): requests are sent on one
  connection, the callback of each is queued in \<open>cbq_\<close>, and responses are matched to callbacks
  by order. Here the operations run one after another; \<open>Client_Threads\<close> interleaves the
  user's threads with the event loop, at the granularity of the two mutexes.
\<close>

section \<open>State\<close>

text \<open>
  The two \<open>std::future\<close> variants install a lambda that completes a promise; promises are
  numbered. A user's callback is recorded in \<open>cl_called\<close> with the value it is given.
\<close>

datatype 'c callback = NoCallback | UserCallback 'c | AddStrPromise nat | GetStrPromise nat

datatype promise_result = PBool bool | PString bstring

record 'c outstanding =
  oc_value :: MmkvValue
  oc_cb :: "'c callback"

text \<open>
  \<open>cl_sent\<close> is the sequence of requests handed to \<open>codec_.Send\<close>; \<open>cl_connected\<close> tells whether
  \<open>cli_->GetConnection()\<close> is not null, and \<open>cl_new_conn\<close> that the connection is made but its
  callback has not run yet.
\<close>

record 'c client =
  cbq :: "'c outstanding list"
  pending_requestq :: "MmbpRequest list"
  cl_connected :: bool
  cl_new_conn :: bool
  cl_sent :: "MmbpRequest list"
  promises :: "nat \<rightharpoonup> promise_result"
  cl_called :: "('c \<times> MmkvValue) list"

definition client_init :: "'c client" where
  "client_init = \<lparr>cbq = [], pending_requestq = [], cl_connected = False, cl_new_conn = False, cl_sent = [],
     promises = Map.empty, cl_called = []\<rparr>"

section \<open>Operations\<close>

definition push_call :: "byte \<Rightarrow> 'c callback \<Rightarrow> 'c client \<Rightarrow> 'c client option" where
  "push_call garbage cb cl = do {
     (value, _) \<leftarrow> mv_move (MmkvValue_init garbage);
     Some (cl\<lparr>cbq := cbq cl @ [\<lparr>oc_value = value, oc_cb = cb\<rparr>]\<rparr>) }"

definition push_pending :: "MmbpRequest \<Rightarrow> 'c client \<Rightarrow> 'c client" where
  "push_pending req cl = cl\<lparr>pending_requestq := pending_requestq cl @ [req]\<rparr>"

definition send_request :: "MmbpRequest \<Rightarrow> 'c client \<Rightarrow> 'c client" where
  "send_request req cl = cl\<lparr>cl_sent := cl_sent cl @ [req]\<rparr>"

definition PrepareOutstandingCall ::
    "byte \<Rightarrow> MmbpRequest \<Rightarrow> 'c callback \<Rightarrow> 'c client \<Rightarrow> 'c client option" where
  "PrepareOutstandingCall garbage req cb cl = do {
     cl \<leftarrow> push_call garbage cb cl;
     (if \<not> cl_connected cl then Some (push_pending req cl) else Some (send_request req cl)) }"

definition AddStr_request :: "bstring \<Rightarrow> bstring \<Rightarrow> MmbpRequest" where
  "AddStr_request k value =
     rq_SetValue (rq_SetKey (MmbpRequest_init\<lparr>rq_command := command_code CMD_STR_ADD, rq_key := k\<rparr>)
       \<lparr>rq_value := value\<rparr>)"

definition GetStr_request :: "bstring \<Rightarrow> MmbpRequest" where
  "GetStr_request k =
     rq_SetKey (MmbpRequest_init\<lparr>rq_command := command_code CMD_STR_GET, rq_key := k\<rparr>)"

definition AddStr :: "byte \<Rightarrow> bstring \<Rightarrow> bstring \<Rightarrow> 'c callback \<Rightarrow> 'c client \<Rightarrow> 'c client option" where
  "AddStr garbage k value cb = PrepareOutstandingCall garbage (AddStr_request k value) cb"

definition GetStr :: "byte \<Rightarrow> bstring \<Rightarrow> 'c callback \<Rightarrow> 'c client \<Rightarrow> 'c client option" where
  "GetStr garbage k cb = PrepareOutstandingCall garbage (GetStr_request k) cb"

definition AddStr_future :: "byte \<Rightarrow> nat \<Rightarrow> bstring \<Rightarrow> bstring \<Rightarrow> 'c client \<Rightarrow> 'c client option" where
  "AddStr_future garbage p k value = AddStr garbage k value (AddStrPromise p)"

definition GetStr_future :: "byte \<Rightarrow> nat \<Rightarrow> bstring \<Rightarrow> 'c client \<Rightarrow> 'c client option" where
  "GetStr_future garbage p k = GetStr garbage k (GetStrPromise p)"

text \<open>The callback of an outstanding call; \<open>ToStrValue\<close> aborts on a value of another type.\<close>

fun run_callback :: "'c callback \<Rightarrow> MmkvValue \<Rightarrow> 'c client \<Rightarrow> 'c client option" where
  "run_callback NoCallback v cl = Some cl"
| "run_callback (UserCallback c) v cl = Some (cl\<lparr>cl_called := cl_called cl @ [(c, v)]\<rparr>)"
| "run_callback (AddStrPromise p) v cl =
     Some (cl\<lparr>promises := (promises cl)(p \<mapsto> PBool (mv_status_code v = status_code S_OK))\<rparr>)"
| "run_callback (GetStrPromise p) v cl = do {
     x \<leftarrow> ToStrValue v;
     Some (cl\<lparr>promises := (promises cl)(p \<mapsto> PString x)\<rparr>) }"

text \<open>
  The codec's message callback: the result of \<open>ParseFrom\<close> is dropped, the front of the queue is
  taken (undefined when the queue is empty), filled and called.
\<close>

definition take_call :: "MmbpResponse \<Rightarrow> 'c client \<Rightarrow> 'c client option" where
  "take_call resp cl =
     (case cbq cl of
        [] \<Rightarrow> None
      | front # rest \<Rightarrow> do {
          (value, _) \<leftarrow> mv_assign_move (MmkvValue_init 0) (oc_value front);
          value \<leftarrow> FromResponse resp value;
          run_callback (oc_cb front) value (cl\<lparr>cbq := rest\<rparr>) })"

definition client_on_message ::
    "kvarint \<Rightarrow> 'b buffer_ops \<Rightarrow> 'c client \<Rightarrow> 'b \<Rightarrow> u32 \<Rightarrow> ('c client \<times> 'b) option" where
  "client_on_message K B cl buffer payload_size = do {
     (_, resp, buffer) \<leftarrow> rs_ParseFrom K B MmbpResponse_init buffer;
     cl \<leftarrow> take_call resp cl;
     Some (cl, buffer) }"

text \<open>The connection callback, on connection and on disconnection.\<close>

definition client_on_connected :: "'c client \<Rightarrow> 'c client" where
  "client_on_connected cl =
     (fold send_request (pending_requestq cl) (cl\<lparr>cl_connected := True, cl_new_conn := False\<rparr>))
       \<lparr>pending_requestq := []\<rparr>"

definition client_on_disconnected :: "'c client \<Rightarrow> 'c client" where
  "client_on_disconnected cl = cl\<lparr>cl_connected := False, cl_new_conn := False\<rparr>"

text \<open>The bytes of the requests handed to the codec.\<close>

definition client_wire ::
    "(byte list \<Rightarrow> u32) \<Rightarrow> kvarint \<Rightarrow> 'b buffer_ops \<Rightarrow> 'b \<Rightarrow> 'c client \<Rightarrow> conn_action option list" where
  "client_wire xxh32 K C fresh cl =
     map (\<lambda>r. codec_Send xxh32 K C fresh (rq_SerializeTo K C r)) (cl_sent cl)"

section \<open>One call after another\<close>

text \<open>A sequence of calls; \<open>client_calls\<close> issues them in order.\<close>

fun client_calls :: "byte \<Rightarrow> (MmbpRequest \<times> 'c callback) list \<Rightarrow> 'c client \<Rightarrow> 'c client option" where
  "client_calls g [] cl = Some cl"
| "client_calls g ((req, cb) # calls) cl = do {
     cl \<leftarrow> PrepareOutstandingCall g req cb cl;
     client_calls g calls cl }"

definition fresh_call :: "byte \<Rightarrow> 'c callback \<Rightarrow> 'c outstanding" where
  "fresh_call g cb = \<lparr>oc_value = MmkvValue_init g, oc_cb = cb\<rparr>"

lemma push_call_eq: "push_call g cb cl = Some (cl\<lparr>cbq := cbq cl @ [fresh_call g cb]\<rparr>)"
  by (simp add: push_call_def mv_move_init fresh_call_def)

lemma PrepareOutstandingCall_eq:
  "PrepareOutstandingCall g req cb cl =
     Some ((if cl_connected cl then send_request req else push_pending req)
       (cl\<lparr>cbq := cbq cl @ [fresh_call g cb]\<rparr>))"
  by (simp add: PrepareOutstandingCall_def push_call_eq)

lemma client_calls_eq:
  "client_calls g calls cl = Some (cl\<lparr>cbq := cbq cl @ map (fresh_call g \<circ> snd) calls,
     pending_requestq := pending_requestq cl @ (if cl_connected cl then [] else map fst calls),
     cl_sent := cl_sent cl @ (if cl_connected cl then map fst calls else [])\<rparr>)"
  by (induction g calls cl rule: client_calls.induct)
    (auto simp: PrepareOutstandingCall_eq send_request_def push_pending_def)

lemma fold_send_request:
  "fold send_request reqs cl = cl\<lparr>cl_sent := cl_sent cl @ reqs\<rparr>"
  by (induction reqs arbitrary: cl) (simp_all add: send_request_def)

lemma client_on_connected_eq:
  "client_on_connected cl =
     cl\<lparr>cl_connected := True, cl_new_conn := False, cl_sent := cl_sent cl @ pending_requestq cl, pending_requestq := []\<rparr>"
  by (simp add: client_on_connected_def fold_send_request)

section \<open>Responses meet their callbacks\<close>

definition filled :: "byte \<Rightarrow> MmbpResponse \<Rightarrow> MmkvValue" where
  "filled g resp = (MmkvValue_init g)\<lparr>mv_status_code := rs_status_code resp\<rparr>"

lemma take_call_eq:
  "cbq cl = fresh_call g cb # rest \<Longrightarrow>
     take_call resp cl = run_callback cb (filled g resp) (cl\<lparr>cbq := rest\<rparr>)"
  by (simp add: take_call_def fresh_call_def mv_assign_move_def mv_move_init filled_def)
    (simp add: MmkvValue_init_def FromResponse_invalid)

text \<open>What one response body does to the client.\<close>

definition client_on_body :: "kvarint \<Rightarrow> 'b buffer_ops \<Rightarrow> (byte list \<Rightarrow> MmbpResponse) \<Rightarrow> 'c client \<Rightarrow> byte list \<Rightarrow> 'c client option" where
  "client_on_body K B parsed cl body = take_call (parsed body) cl"

lemma rs_wire_consumes:
  assumes B: "kanon_buffer B" and K: "kvarint_spec K"
    and wf: "\<And>r. r \<in> R \<Longrightarrow> rs_wf r"
    and parsed: "\<And>r. r \<in> R \<Longrightarrow> parsed (rs_wire K B r) = rs_carried r"
  shows "consumes B (\<lambda>body. body \<in> rs_wire K B ` R) (client_on_message K B) (client_on_body K B parsed)"
  unfolding consumes_def
proof (intro allI impI, elim conjE imageE)
  fix cl :: "'c client" and b body rest r
  assume b: "readable B b = body @ rest" and r: "body = rs_wire K B r" "r \<in> R"
  from rs_ParseFrom_wire [OF B K wf [OF r(2)], of b rest] b r(1) obtain b' where
    "rs_ParseFrom K B MmbpResponse_init b = Some (True, rs_carried r, b')" "readable B b' = rest"
    by auto
  with r parsed [OF r(2)] show "\<exists>b'. readable B b' = rest \<and> client_on_message K B cl b (of_nat (length body))
      = map_option (\<lambda>s'. (s', b')) (client_on_body K B parsed cl body)"
    by (intro exI [of _ b']) (cases "take_call (rs_carried r) cl",
      simp_all add: client_on_message_def client_on_body_def)
qed

lemma rs_wire_carried:
  assumes B: "kanon_buffer B" and K: "kvarint_spec K" and wf: "rs_wf r" "rs_wf r'"
    and eq: "rs_wire K B r = rs_wire K B r'"
  shows "rs_carried r = rs_carried r'"
proof -
  obtain b where b: "readable B b = rs_wire K B r @ []" using ex_readable [OF B] by auto
  from rs_ParseFrom_wire [OF B K wf(1) b] rs_ParseFrom_wire [OF B K wf(2), of b "[]"] b eq
  show ?thesis by auto
qed

lemma foldM_responses:
  assumes "\<And>r. r \<in> set resps \<Longrightarrow> parsed (rs_wire K B r) = rs_carried r"
    and "length cbs = length resps" and "cbq cl = map (fresh_call g \<circ> UserCallback) cbs"
  shows "foldM (client_on_body K B parsed) cl (map (rs_wire K B) resps) =
    Some (cl\<lparr>cbq := [], cl_called := cl_called cl @ zip cbs (map (filled g) resps)\<rparr>)"
  using assms
proof (induction resps arbitrary: cl cbs)
  case Nil
  then show ?case by simp
next
  case (Cons r resps)
  from Cons.prems(2) obtain cb cbs' where cbs: "cbs = cb # cbs'" by (cases cbs) auto
  with Cons.prems(3) have "cbq cl = fresh_call g (UserCallback cb) # map (fresh_call g \<circ> UserCallback) cbs'"
    by simp
  note take = take_call_eq [OF this]
  have "filled g (rs_carried r) = filled g r"
    by (simp add: filled_def rs_carried_def rs_take_payload_def)
  with Cons take cbs show ?case by (simp add: client_on_body_def)
qed

lemma packets_are_frames:
  assumes C: "kanon_buffer C" and fresh: "readable C fresh = []" and wf: "\<forall>r \<in> set resps. rs_wf r"
    and net: "net32 C = net32 B" "net64 C = net64 B"
    and sent: "map (\<lambda>r. codec_Send xxh32 K C fresh (rs_SerializeTo K C r)) resps = map (Some \<circ> ConnSend) packets"
  shows "packets = map (frame xxh32 K B) (map (rs_wire K B) resps)"
proof (rule nth_equalityI)
  show len: "length packets = length (map (frame xxh32 K B) (map (rs_wire K B) resps))"
    using arg_cong [OF sent, of length] by simp
  fix i assume i: "i < length packets"
  with len have i': "i < length resps" by simp
  with wf have "rs_wf (resps ! i)" by simp
  from codec_Send_response [OF C fresh this] arg_cong [OF sent, of "\<lambda>xs. xs ! i"] i i'
  have "packets ! i = frame xxh32 K C (rs_wire K C (resps ! i))" by simp
  also have "\<dots> = frame xxh32 K B (rs_wire K B (resps ! i))"
    using net by (simp add: frame_def frame_body_def rs_wire_cong [OF net(2)])
  finally show "packets ! i = map (frame xxh32 K B) (map (rs_wire K B) resps) ! i"
    using i' by simp
qed

text \<open>
  C1: calls made before and after the connection is established are sent in the order they were
  made, and the responses, each sent by the codec and received in segments cut anywhere, reach
  the callbacks in that same order: the i-th callback is called exactly once, with the status
  of the i-th response; afterwards no call is outstanding and the buffer is empty.
\<close>
theorem client_responses_in_order:
  fixes calls calls' :: "(MmbpRequest \<times> 'c) list"
  assumes K: "kvarint_spec K" and B: "kanon_buffer B" and C: "kanon_buffer C"
    and net: "net32 C = net32 B" "net64 C = net64 B" and fresh: "readable C fresh = []"
    and wf: "\<forall>r \<in> set resps. rs_wf r" and n: "length resps = length (calls @ calls')"
    and sent: "map (\<lambda>r. codec_Send xxh32 K C fresh (rs_SerializeTo K C r)) resps = map (Some \<circ> ConnSend) packets"
    and segs: "concat segs = concat packets" "segs \<noteq> []" and len: "length (concat packets) < MAX_SIZE"
    and b: "readable B b = []"
  shows "\<exists>cl1 cl2 cl3 b'.
      client_calls g (map (apsnd UserCallback) calls) client_init = Some cl1
    \<and> client_calls g (map (apsnd UserCallback) calls') (client_on_connected cl1) = Some cl2
    \<and> codec_session xxh32 K B (client_on_message K B) error_cb cl2 b segs = Some (cl3, b')
    \<and> cl_sent cl3 = map fst (calls @ calls') \<and> pending_requestq cl3 = []
    \<and> cl_called cl3 = zip (map snd (calls @ calls')) (map (filled g) resps)
    \<and> cbq cl3 = [] \<and> readable B b' = []"
proof -
  let ?cbs = "map snd (calls @ calls')"
  let ?cl2 = "client_init\<lparr>cl_connected := True, cl_sent := map fst (calls @ calls'),
      cbq := map (fresh_call g \<circ> UserCallback) ?cbs\<rparr> :: 'c client"
  let ?wires = "map (rs_wire K B) resps"
  define parsed where "parsed body = rs_carried (inv_into (set resps) (rs_wire K B) body)" for body
  have parsed: "parsed (rs_wire K B r) = rs_carried r" if r: "r \<in> set resps" for r
    unfolding parsed_def using r wf
    by (intro rs_wire_carried [OF B K]) (auto simp: f_inv_into_f inv_into_into)
  note packets = packets_are_frames [OF C fresh wf net sent]
  have small: "length (frame xxh32 K B msg) < MAX_SIZE" if "msg \<in> set ?wires" for msg
  proof -
    from that have "frame xxh32 K B msg \<in> set packets" by (auto simp: packets)
    then have "length (frame xxh32 K B msg) \<le> length (concat packets)"
      by (simp add: length_concat member_le_sum_list)
    with len show ?thesis by simp
  qed
  have cb: "consumes B (\<lambda>body. body \<in> rs_wire K B ` set resps) (client_on_message K B)
      (client_on_body K B parsed)"
    using rs_wire_consumes [OF B K, of "set resps" parsed] wf parsed by auto
  have d: "deframe xxh32 K (host32 B) (readable B b @ concat segs) = (?wires, None, [])"
    using deframe_only_frames [OF K B small, of ?wires] by (simp add: b segs packets)
  have P: "\<forall>body \<in> set ?wires. body \<in> rs_wire K B ` set resps" by simp
  have l: "length (readable B b @ concat segs) < MAX_SIZE" using len by (simp add: b segs)
  from codec_session_deframe [OF K B cb l d P segs(2), of error_cb ?cl2]
    foldM_responses [of resps parsed K B ?cbs ?cl2 g, OF parsed] n
  obtain b' where b': "readable B b' = []"
    "codec_session xxh32 K B (client_on_message K B) error_cb ?cl2 b segs =
       Some (?cl2\<lparr>cbq := [], cl_called := zip ?cbs (map (filled g) resps)\<rparr>, b')"
    by (auto simp: client_init_def)
  show ?thesis
    by (rule exI [of _ "client_init\<lparr>cbq := map (fresh_call g \<circ> UserCallback) (map snd calls),
          pending_requestq := map fst calls\<rparr>"], rule exI [of _ ?cl2])
      (use b' in \<open>auto simp: client_calls_eq client_on_connected_eq client_init_def o_def\<close>)
qed

definition demo_response :: MmbpResponse where
  "demo_response = rs_SetOk MmbpResponse_init"

definition demo_packet :: "byte list" where
  "demo_packet = [10, 0x4D, 0x4D, 0x42, 0x50, 0, 0, 0, 0, 0, 7]"

lemma demo_packet_sent:
  "codec_Send (\<lambda>_. 7) leb_kvarint list_buffer [] (rs_SerializeTo leb_kvarint list_buffer demo_response)
     = Some (ConnSend demo_packet)"
  by code_simp

lemma demo_response_wf: "rs_wf demo_response"
  by (simp add: rs_wf_def demo_response_def rs_SetOk_def MmbpResponse_init_def rs_has_defs TestBit_def)

theorem client_responses_in_order_witness:
  "\<exists>cl1 cl2 cl3 b'.
      client_calls 0 (map (apsnd UserCallback) [(AddStr_request [1] [2], True)]) client_init = Some cl1
    \<and> client_calls 0 (map (apsnd UserCallback) [(GetStr_request [1], False)]) (client_on_connected cl1) = Some cl2
    \<and> codec_session (\<lambda>_. 7) leb_kvarint list_buffer (client_on_message leb_kvarint list_buffer)
        (\<lambda>s _. Some s) cl2 [] [take 3 demo_packet, drop 3 demo_packet @ demo_packet] = Some (cl3, b')
    \<and> cl_sent cl3 = map fst ([(AddStr_request [1] [2], True)] @ [(GetStr_request [1], False)])
    \<and> pending_requestq cl3 = []
    \<and> cl_called cl3 = zip (map snd ([(AddStr_request [1] [2], True)] @ [(GetStr_request [1], False)]))
        (map (filled 0) [demo_response, demo_response])
    \<and> cbq cl3 = [] \<and> readable list_buffer b' = []"
  by (rule client_responses_in_order [where C = list_buffer and fresh = "[]"
        and packets = "[demo_packet, demo_packet]", OF leb_kvarint_spec kanon_list_buffer kanon_list_buffer])
    (simp_all add: demo_packet_sent demo_response_wf, simp_all add: demo_packet_def MAX_SIZE_def)

text \<open>
  The future that \<open>AddStr\<close> returns is completed with the verdict of its response: true exactly
  for the status \<open>S_OK\<close>. No other promise is touched.
\<close>
theorem AddStr_future_completes:
  "\<exists>cl' cl''. AddStr_future g p k v (client_init\<lparr>cl_connected := True\<rparr>) = Some cl'
      \<and> cl_sent cl' = [AddStr_request k v] \<and> take_call resp cl' = Some cl''
      \<and> promises cl'' = [p \<mapsto> PBool (rs_status_code resp = status_code S_OK)] \<and> cbq cl'' = []"
  by (simp add: AddStr_future_def AddStr_def PrepareOutstandingCall_eq send_request_def client_init_def
      take_call_eq) (simp add: filled_def)

end
