(* ===== verification/Client_Threads.thy ===== *)
theory Client_Threads
  imports Mmkv_Client
begin

text \<open>
  The client under concurrency. A user's thread runs \<open>PrepareOutstandingCall\<close> in three steps:
  the callback is queued under \<open>cbq_mu_\<close>, the connection is read, and the request is either
  queued under \<open>pending_requestq_mu_\<close> or sent. The event loop makes the connection, which is when
  \<open>GetConnection\<close> stops being null, runs the connection callback after that, handles responses, and
  may lose the connection again. The step relation interleaves them.
\<close>

section \<open>Steps\<close>

text \<open>A thread's position: the calls it still has to make, and the request it is in the middle of.\<close>

datatype 'c thread =
    Ready "(MmbpRequest \<times> 'c callback) list"
  | Queued MmbpRequest "(MmbpRequest \<times> 'c callback) list"
  | SawNoConnection MmbpRequest "(MmbpRequest \<times> 'c callback) list"
  | SawConnection MmbpRequest "(MmbpRequest \<times> 'c callback) list"

type_synonym 'c system = "'c client \<times> 'c thread list"

inductive client_step :: "'c system \<Rightarrow> 'c system \<Rightarrow> bool" where
  queue_call: "i < length ts \<Longrightarrow> ts ! i = Ready ((req, cb) # calls) \<Longrightarrow> push_call g cb cl = Some cl' \<Longrightarrow>
     client_step (cl, ts) (cl', ts[i := Queued req calls])"
| read_connection: "i < length ts \<Longrightarrow> ts ! i = Queued req calls \<Longrightarrow>
     client_step (cl, ts) (cl, ts[i := (if cl_connected cl then SawConnection req calls
                                        else SawNoConnection req calls)])"
| queue_request: "i < length ts \<Longrightarrow> ts ! i = SawNoConnection req calls \<Longrightarrow>
     client_step (cl, ts) (push_pending req cl, ts[i := Ready calls])"
| send_now: "i < length ts \<Longrightarrow> ts ! i = SawConnection req calls \<Longrightarrow>
     client_step (cl, ts) (send_request req cl, ts[i := Ready calls])"
| connection_made: "\<not> cl_connected cl \<Longrightarrow> client_step (cl, ts) (cl\<lparr>cl_connected := True, cl_new_conn := True\<rparr>, ts)"
| connected: "cl_new_conn cl \<Longrightarrow> client_step (cl, ts) (client_on_connected cl, ts)"
| disconnected: "cl_connected cl \<Longrightarrow> client_step (cl, ts) (client_on_disconnected cl, ts)"
| response: "take_call resp cl = Some cl' \<Longrightarrow> client_step (cl, ts) (cl', ts)"

inductive client_reach :: "'c system \<Rightarrow> 'c system \<Rightarrow> bool" for s where
  start: "client_reach s s"
| step: "client_reach s t \<Longrightarrow> client_step t u \<Longrightarrow> client_reach s u"

inductive_cases client_stepE: "client_step (cl, ts) s"

section \<open>Nothing is lost\<close>

text \<open>Requests a thread has not yet handed over; calls it has not yet queued a callback for.\<close>

fun thread_requests :: "'c thread \<Rightarrow> MmbpRequest multiset" where
  "thread_requests (Ready calls) = mset (map fst calls)"
| "thread_requests (Queued req calls) = add_mset req (mset (map fst calls))"
| "thread_requests (SawNoConnection req calls) = add_mset req (mset (map fst calls))"
| "thread_requests (SawConnection req calls) = add_mset req (mset (map fst calls))"

fun thread_callbacks :: "'c thread \<Rightarrow> 'c callback multiset" where
  "thread_callbacks (Ready calls) = mset (map snd calls)"
| "thread_callbacks (Queued req calls) = mset (map snd calls)"
| "thread_callbacks (SawNoConnection req calls) = mset (map snd calls)"
| "thread_callbacks (SawConnection req calls) = mset (map snd calls)"

definition all_requests :: "'c system \<Rightarrow> MmbpRequest multiset" where
  "all_requests s = (case s of (cl, ts) \<Rightarrow>
     mset (cl_sent cl) + mset (pending_requestq cl) + sum_list (map thread_requests ts))"

lemma sum_list_update_mset:
  fixes f :: "'t \<Rightarrow> 'a multiset"
  shows "i < length ts \<Longrightarrow> sum_list (map f (ts[i := t])) + f (ts ! i) = sum_list (map f ts) + f t"
proof (induction ts arbitrary: i)
  case (Cons x xs)
  then show ?case by (cases i) (auto simp: ac_simps)
qed simp

lemma run_callback_frame:
  "run_callback cb v cl = Some cl' \<Longrightarrow> cl_sent cl' = cl_sent cl \<and> pending_requestq cl' = pending_requestq cl
     \<and> cl_connected cl' = cl_connected cl \<and> cbq cl' = cbq cl"
  by (cases cb) (auto split: bind_splits)

lemma take_call_frame:
  "take_call resp cl = Some cl' \<Longrightarrow> cl_sent cl' = cl_sent cl \<and> pending_requestq cl' = pending_requestq cl
     \<and> cl_connected cl' = cl_connected cl \<and> cbq cl' = tl (cbq cl) \<and> cbq cl \<noteq> []"
  by (auto simp: take_call_def split: list.splits bind_splits prod.splits dest!: run_callback_frame)

lemma client_step_requests:
  assumes "client_step s s'"
  shows "all_requests s' = all_requests s"
  using assms
proof cases
  case (queue_call i ts req cb calls g cl cl')
  with sum_list_update_mset [of i ts thread_requests "Queued req calls"] show ?thesis
    by (auto simp: all_requests_def push_call_eq)
next
  case (read_connection i ts req calls cl)
  with sum_list_update_mset [of i ts thread_requests "SawConnection req calls"]
    sum_list_update_mset [of i ts thread_requests "SawNoConnection req calls"] show ?thesis
    by (auto simp: all_requests_def)
next
  case (queue_request i ts req calls cl)
  with sum_list_update_mset [of i ts thread_requests "Ready calls"] show ?thesis
    by (auto simp: all_requests_def push_pending_def)
next
  case (send_now i ts req calls cl)
  with sum_list_update_mset [of i ts thread_requests "Ready calls"] show ?thesis
    by (auto simp: all_requests_def send_request_def)
next
  case (connection_made cl ts)
  then show ?thesis by (simp add: all_requests_def)
next
  case (connected cl ts)
  then show ?thesis by (simp add: all_requests_def client_on_connected_eq)
next
  case (disconnected cl ts)
  then show ?thesis by (simp add: all_requests_def client_on_disconnected_def)
next
  case (response resp cl cl' ts)
  then show ?thesis by (auto simp: all_requests_def dest!: take_call_frame)
qed

text \<open>
  C9: however the threads of the user and the event loop interleave, no request is lost or sent
  twice: at every reachable state the requests sent, the pending ones and those the threads
  have still to hand over are, as a multiset, the requests of the calls the threads started with.
\<close>
theorem client_conserves_requests:
  assumes "client_reach (client_init, map Ready callss) (cl, ts)"
  shows "mset (cl_sent cl) + mset (pending_requestq cl) + sum_list (map thread_requests ts)
    = mset (map fst (concat callss))"
proof -
  have start: "all_requests (client_init, map Ready callss) = mset (map fst (concat callss))"
    by (induction callss) (auto simp: all_requests_def client_init_def)
  have "all_requests s = all_requests (client_init, map Ready callss)"
    if "client_reach (client_init, map Ready callss) s" for s
    using that by induction (auto simp: client_step_requests)
  from this [OF assms] start show ?thesis by (simp add: all_requests_def)
qed

section \<open>Order is lost\<close>

text \<open>The steps as rules that extend an execution.\<close>

lemma then_queue_call:
  "client_reach s (cl, ts) \<Longrightarrow> i < length ts \<Longrightarrow> ts ! i = Ready ((req, cb) # calls) \<Longrightarrow>
     cl' = cl\<lparr>cbq := cbq cl @ [fresh_call g cb]\<rparr> \<Longrightarrow> ts' = ts[i := Queued req calls] \<Longrightarrow>
     client_reach s (cl', ts')"
  using client_reach.step client_step.queue_call push_call_eq by blast

lemma then_read_connection:
  "client_reach s (cl, ts) \<Longrightarrow> i < length ts \<Longrightarrow> ts ! i = Queued req calls \<Longrightarrow>
     ts' = ts[i := (if cl_connected cl then SawConnection req calls else SawNoConnection req calls)] \<Longrightarrow>
     client_reach s (cl, ts')"
  using client_reach.step client_step.read_connection by blast

lemma then_queue_request:
  "client_reach s (cl, ts) \<Longrightarrow> i < length ts \<Longrightarrow> ts ! i = SawNoConnection req calls \<Longrightarrow>
     cl' = push_pending req cl \<Longrightarrow> ts' = ts[i := Ready calls] \<Longrightarrow> client_reach s (cl', ts')"
  using client_reach.step client_step.queue_request by blast

lemma then_send_now:
  "client_reach s (cl, ts) \<Longrightarrow> i < length ts \<Longrightarrow> ts ! i = SawConnection req calls \<Longrightarrow>
     cl' = send_request req cl \<Longrightarrow> ts' = ts[i := Ready calls] \<Longrightarrow> client_reach s (cl', ts')"
  using client_reach.step client_step.send_now by blast

text \<open>The connection is made and its callback run at once.\<close>

lemma then_connected:
  assumes "client_reach s (cl, ts)" and "\<not> cl_connected cl" and "cl' = client_on_connected cl"
  shows "client_reach s (cl', ts)"
proof -
  let ?cl = "cl\<lparr>cl_connected := True, cl_new_conn := True\<rparr>"
  have r: "client_reach s (?cl, ts)" by (rule client_reach.step [OF assms(1) client_step.connection_made [OF assms(2)]])
  have st: "client_step (?cl, ts) (client_on_connected ?cl, ts)" by (rule client_step.connected) simp
  have "client_on_connected ?cl = cl'" unfolding assms(3) by (simp add: client_on_connected_eq)
  with client_reach.step [OF r st] show ?thesis by simp
qed

definition client_state :: "bool \<Rightarrow> 'c list \<Rightarrow> MmbpRequest list \<Rightarrow> MmbpRequest list \<Rightarrow> 'c client" where
  "client_state conn cbs pending sent = client_init\<lparr>cl_connected := conn,
     cbq := map (fresh_call 0 \<circ> UserCallback) cbs, pending_requestq := pending, cl_sent := sent\<rparr>"

lemma client_state_simps:
  "cl_connected (client_state conn cbs pending sent) = conn"
  "client_state conn cbs pending sent\<lparr>cbq := cbq (client_state conn cbs pending sent) @ [fresh_call 0 (UserCallback c)]\<rparr>
     = client_state conn (cbs @ [c]) pending sent"
  "push_pending req (client_state conn cbs pending sent) = client_state conn cbs (pending @ [req]) sent"
  "send_request req (client_state conn cbs pending sent) = client_state conn cbs pending (sent @ [req])"
  "client_on_connected (client_state conn cbs pending sent) = client_state True cbs [] (sent @ pending)"
  by (simp_all add: client_state_def push_pending_def send_request_def client_on_connected_eq client_init_def)

theorem client_conserves_requests_witness:
  "mset (cl_sent (client_state False [1 :: nat] [] []))
    + mset (pending_requestq (client_state False [1 :: nat] [] []))
    + sum_list (map thread_requests [Queued (GetStr_request [1]) [] :: nat thread])
    = mset (map fst (concat [[(GetStr_request [1], UserCallback (1 :: nat))]]))"
proof (rule client_conserves_requests)
  have "client_reach (client_init, map Ready [[(GetStr_request [1], UserCallback (1 :: nat))]])
      (client_state False [] [] [], [Ready [(GetStr_request [1], UserCallback 1)]])"
    using client_reach.start by (simp add: client_state_def client_init_def)
  then show "client_reach (client_init, map Ready [[(GetStr_request [1], UserCallback (1 :: nat))]])
      (client_state False [1] [] [], [Queued (GetStr_request [1]) []])"
    by (rule then_queue_call [where i = 0 and g = 0 and cb = "UserCallback 1"])
      (simp_all add: client_state_simps)
qed

text \<open>
  C33: two threads that each make one call on a connected client can finish with the callbacks
  queued in one order and the requests sent in the other, because the callback is queued and
  the request sent under different locks: the response to the second request is then
  delivered to the first callback.
\<close>
theorem client_callbacks_swapped:
  "\<exists>cl. client_reach (client_state True [] [] [], [Ready [(r1, UserCallback c1)], Ready [(r2, UserCallback c2)]])
      (cl, [Ready [], Ready []])
    \<and> cl_sent cl = [r2, r1] \<and> map oc_cb (cbq cl) = [UserCallback c1, UserCallback c2]"
proof -
  let ?r = "client_reach (client_state True [] [] [], [Ready [(r1, UserCallback c1)], Ready [(r2, UserCallback c2)]])"
  have "?r (client_state True [] [] [], [Ready [(r1, UserCallback c1)], Ready [(r2, UserCallback c2)]])"
    by (rule client_reach.start)
  then have "?r (client_state True [c1] [] [], [Queued r1 [], Ready [(r2, UserCallback c2)]])"
    by (rule then_queue_call [where i = 0 and g = 0 and cb = "UserCallback c1"])
      (simp_all add: client_state_simps)
  then have "?r (client_state True [c1, c2] [] [], [Queued r1 [], Queued r2 []])"
    by (rule then_queue_call [where i = 1 and g = 0 and cb = "UserCallback c2"])
      (simp_all add: client_state_simps)
  from then_read_connection [OF this, of 1]
  have "?r (client_state True [c1, c2] [] [], [Queued r1 [], SawConnection r2 []])"
    by (simp add: client_state_simps)
  from then_send_now [OF this, of 1]
  have "?r (client_state True [c1, c2] [] [r2], [Queued r1 [], Ready []])"
    by (simp add: client_state_simps)
  from then_read_connection [OF this, of 0]
  have "?r (client_state True [c1, c2] [] [r2], [SawConnection r1 [], Ready []])"
    by (simp add: client_state_simps)
  from then_send_now [OF this, of 0]
  have "?r (client_state True [c1, c2] [] [r2, r1], [Ready [], Ready []])"
    by (simp add: client_state_simps)
  then show ?thesis
    by (intro exI [of _ "client_state True [c1, c2] [] [r2, r1]"])
      (simp add: client_state_def fresh_call_def)
qed

text \<open>
  C35: one thread suffices against the event loop. It reads that there is no connection, the event
  loop then establishes it and drains the pending requests, and only after that the request is
  queued as pending: the client is connected, the thread is done, and the request is not sent
  although the thread's next request is. The response to that next request is delivered to the
  callback of the one that was never sent.
\<close>
theorem client_request_stuck:
  "\<exists>cl. client_reach (client_state False [] [] [], [Ready [(r1, UserCallback c1), (r2, UserCallback c2)]])
      (cl, [Ready []])
    \<and> cl_connected cl \<and> pending_requestq cl = [r1] \<and> cl_sent cl = [r2]
    \<and> map oc_cb (cbq cl) = [UserCallback c1, UserCallback c2]"
proof -
  let ?r = "client_reach (client_state False [] [] [], [Ready [(r1, UserCallback c1), (r2, UserCallback c2)]])"
  have "?r (client_state False [] [] [], [Ready [(r1, UserCallback c1), (r2, UserCallback c2)]])"
    by (rule client_reach.start)
  then have "?r (client_state False [c1] [] [], [Queued r1 [(r2, UserCallback c2)]])"
    by (rule then_queue_call [where i = 0 and g = 0 and cb = "UserCallback c1"])
      (simp_all add: client_state_simps)
  from then_read_connection [OF this, of 0]
  have "?r (client_state False [c1] [] [], [SawNoConnection r1 [(r2, UserCallback c2)]])"
    by (simp add: client_state_simps)
  from then_connected [OF this]
  have "?r (client_state True [c1] [] [], [SawNoConnection r1 [(r2, UserCallback c2)]])"
    by (simp add: client_state_simps)
  from then_queue_request [OF this, of 0]
  have "?r (client_state True [c1] [r1] [], [Ready [(r2, UserCallback c2)]])"
    by (simp add: client_state_simps)
  then have "?r (client_state True [c1, c2] [r1] [], [Queued r2 []])"
    by (rule then_queue_call [where i = 0 and g = 0 and cb = "UserCallback c2"])
      (simp_all add: client_state_simps)
  from then_read_connection [OF this, of 0]
  have "?r (client_state True [c1, c2] [r1] [], [SawConnection r2 []])"
    by (simp add: client_state_simps)
  from then_send_now [OF this, of 0]
  have "?r (client_state True [c1, c2] [r1] [r2], [Ready []])"
    by (simp add: client_state_simps)
  then show ?thesis
    by (intro exI [of _ "client_state True [c1, c2] [r1] [r2]"])
      (simp add: client_state_def fresh_call_def)
qed

section \<open>The future of GetStr\<close>

text \<open>
  What every reachable state has: no promise holds a string, and each outstanding call has the value
  it was queued with.
\<close>

definition calls_fresh :: "'c client \<Rightarrow> bool" where
  "calls_fresh cl \<longleftrightarrow> (\<forall>oc \<in> set (cbq cl). \<exists>g cb. oc = fresh_call g cb) \<and> (\<forall>p x. promises cl p \<noteq> Some (PString x))"

lemma take_call_None_iff:
  assumes "cbq cl = fresh_call g cb # rest"
  shows "take_call resp cl = None \<longleftrightarrow> (\<exists>p. cb = GetStrPromise p)"
proof -
  have "ToStrValue (filled g resp) = None" by (simp add: filled_def MmkvValue_init_def ToStrValue_def)
  then show ?thesis unfolding take_call_eq [OF assms] by (cases cb) simp_all
qed

lemma take_call_fresh:
  assumes fr: "calls_fresh cl" and t: "take_call resp cl = Some cl'"
  shows "calls_fresh cl'"
proof -
  from take_call_frame [OF t] obtain oc rest where q: "cbq cl = oc # rest" "cbq cl' = rest" by (cases "cbq cl") auto
  with fr obtain g cb where oc: "oc = fresh_call g cb" by (auto simp: calls_fresh_def)
  have "cb \<noteq> GetStrPromise p" for p using take_call_None_iff [OF q(1) [unfolded oc], of resp] t by auto
  moreover have "run_callback cb (filled g resp) (cl\<lparr>cbq := rest\<rparr>) = Some cl'"
    using t take_call_eq [OF q(1) [unfolded oc]] by simp
  ultimately show ?thesis using fr q by (cases cb) (auto simp: calls_fresh_def split: if_splits)
qed

lemma fresh_call_ex [simp]: "\<exists>g' cb'. fresh_call g cb = fresh_call g' cb'"
  by blast

lemma client_step_fresh: "client_step s s' \<Longrightarrow> calls_fresh (fst s) \<Longrightarrow> calls_fresh (fst s')"
proof (induction rule: client_step.induct)
  case (response resp cl cl' ts)
  then show ?case using take_call_fresh by simp
qed (auto simp: calls_fresh_def push_call_eq push_pending_def send_request_def client_on_connected_eq client_on_disconnected_def)

lemma client_reach_fresh: "client_reach (client_init, ts0) s \<Longrightarrow> calls_fresh (fst s)"
proof (induction rule: client_reach.induct)
  case start
  then show ?case by (simp add: calls_fresh_def client_init_def)
next
  case (step t u)
  then show ?case using client_step_fresh by blast
qed

text \<open>
  C37: the future that \<open>GetStr\<close> returns is never completed, in any interleaving of any calls: no
  promise ever gets a string, because every outstanding call has a value of the type \<open>V_INVALID\<close>,
  which no code changes, so that the payload of the response is not stored. In every reachable state
  \<open>GetStr\<close> queues its promise behind the calls that are outstanding, and when there is a call to
  take, handling a response fails (\<open>ToStrValue\<close> aborts) exactly if that call is one of these,
  whatever the response.
\<close>
theorem GetStr_future_aborts:
  assumes "client_reach (client_init, map Ready callss) (cl, ts)"
  shows "(\<forall>p x. promises cl p \<noteq> Some (PString x))
    \<and> (\<exists>cl'. GetStr_future g p k cl = Some cl' \<and> cbq cl' = cbq cl @ [fresh_call g (GetStrPromise p)])
    \<and> (\<forall>oc rest resp. cbq cl = oc # rest \<longrightarrow>
        (if \<exists>p. oc_cb oc = GetStrPromise p then take_call resp cl = None
         else \<exists>cl'. take_call resp cl = Some cl' \<and> cbq cl' = rest))"
proof -
  from client_reach_fresh [OF assms] have fr: "calls_fresh cl" by simp
  have "if \<exists>p. oc_cb oc = GetStrPromise p then take_call resp cl = None
      else \<exists>cl'. take_call resp cl = Some cl' \<and> cbq cl' = rest" if q: "cbq cl = oc # rest" for oc rest resp
  proof -
    from fr q obtain g cb where oc: "oc = fresh_call g cb" by (auto simp: calls_fresh_def)
    have "oc_cb oc = cb" by (simp add: oc fresh_call_def)
    with take_call_None_iff [OF q [unfolded oc], of resp] show ?thesis
      using q by (cases "take_call resp cl") (auto dest: take_call_frame)
  qed
  then show ?thesis using fr
    by (simp add: calls_fresh_def GetStr_future_def GetStr_def PrepareOutstandingCall_eq send_request_def push_pending_def)
qed

theorem GetStr_future_aborts_witness:
  "\<exists>cl ts. client_reach (client_init, map Ready [[(GetStr_request [1], GetStrPromise 0)]]) (cl, ts)
    \<and> cbq cl \<noteq> [] \<and> (\<forall>resp. take_call resp (cl :: nat client) = None)"
proof -
  let ?cl = "client_init\<lparr>cbq := [fresh_call 0 (GetStrPromise 0)]\<rparr> :: nat client"
  have r: "client_reach (client_init, map Ready [[(GetStr_request [1], GetStrPromise 0)]]) (?cl, [Queued (GetStr_request [1]) []])"
    by (rule then_queue_call [OF client_reach.start, where i = 0 and g = 0 and cb = "GetStrPromise 0"])
      (simp_all add: client_init_def)
  from GetStr_future_aborts [OF this] have "\<forall>resp. take_call resp ?cl = None" by (auto simp: fresh_call_def)
  with r show ?thesis by (intro exI [of _ ?cl] exI [of _ "[Queued (GetStr_request [1]) []]"]) simp
qed

end
