(* ===== verification/Slist.thy ===== *)
theory Slist
  imports Prelude
begin

text \<open>
  \<open>Slist\<close> (\<open>algo/slist.h\<close>, \<open>algo/internal/snode.h\<close>, \<open>algo/internal/slist_iterator.h\<close>): a singly
  linked list without sentinel, on a heap of nodes. A list is its \<open>header_\<close>; every operation
  takes the heap and returns the heap it leaves. Loops over nodes may run for ever on a cyclic
  list, so they are partial functions. The address an allocation returns is an argument: 0 when
  \<open>malloc\<close> fails, which \<open>CreateNode\<close> does not check.
\<close>

record 'v SNode =
  snext :: ptr
  svalue :: 'v

section \<open>Nodes\<close>

definition CreateNode :: "'v SNode heap \<Rightarrow> ptr \<Rightarrow> 'v \<Rightarrow> 'v SNode heap option" where
  "CreateNode h node v =
     (if node = nullptr then None else Some (h(node \<mapsto> \<lparr>snext = nullptr, svalue = v\<rparr>)))"

definition DropNode :: "'v SNode heap \<Rightarrow> ptr \<Rightarrow> 'v SNode heap option" where
  "DropNode h node = do { _ \<leftarrow> deref h node; Some (h(node := None)) }"

definition set_next :: "'v SNode heap \<Rightarrow> ptr \<Rightarrow> ptr \<Rightarrow> 'v SNode heap option" where
  "set_next h p q = store h p (\<lambda>n. n\<lparr>snext := q\<rparr>)"

definition set_value :: "'v SNode heap \<Rightarrow> ptr \<Rightarrow> 'v \<Rightarrow> 'v SNode heap option" where
  "set_value h p v = store h p (\<lambda>n. n\<lparr>svalue := v\<rparr>)"

section \<open>Getters and the iterator\<close>

partial_function (option) slist_count :: "'v SNode heap \<Rightarrow> ptr \<Rightarrow> nat \<Rightarrow> nat option" where
  [code]: "slist_count h header ret =
     (if header = nullptr then Some ret
      else do { n \<leftarrow> deref h header; slist_count h (snext n) (Suc ret) })"

definition slist_GetSize :: "'v SNode heap \<Rightarrow> ptr \<Rightarrow> nat option" where
  "slist_GetSize h header = slist_count h header 0"

definition slist_IsEmpty :: "ptr \<Rightarrow> bool" where
  "slist_IsEmpty header \<longleftrightarrow> header = nullptr"

definition slist_Front :: "'v SNode heap \<Rightarrow> ptr \<Rightarrow> 'v option" where
  "slist_Front h header = do { n \<leftarrow> deref h header; Some (svalue n) }"

text \<open>An iterator is a node pointer; \<open>end()\<close> is \<open>nullptr\<close>.\<close>

definition slist_begin :: "ptr \<Rightarrow> ptr" where "slist_begin header = header"
definition slist_end :: ptr where "slist_end = nullptr"

definition SlistIterator_incr :: "'v SNode heap \<Rightarrow> ptr \<Rightarrow> ptr option" where
  "SlistIterator_incr h it = do { n \<leftarrow> deref h it; Some (snext n) }"

definition SlistIterator_deref :: "'v SNode heap \<Rightarrow> ptr \<Rightarrow> 'v option" where
  "SlistIterator_deref h it = do { n \<leftarrow> deref h it; Some (svalue n) }"

definition SlistIterator_eq :: "ptr \<Rightarrow> ptr \<Rightarrow> bool" where
  "SlistIterator_eq x y \<longleftrightarrow> x = y"

text \<open>The iterator over a constant list, with both increments.\<close>

definition SlistConstIterator_incr :: "'v SNode heap \<Rightarrow> ptr \<Rightarrow> (ptr \<times> ptr) option" where
  "SlistConstIterator_incr h it = do { n \<leftarrow> deref h it; let it = snext n; Some (it, it) }"

definition SlistConstIterator_postincr :: "'v SNode heap \<Rightarrow> ptr \<Rightarrow> (ptr \<times> ptr) option" where
  "SlistConstIterator_postincr h it = (let ret = it in do { n \<leftarrow> deref h it; Some (ret, snext n) })"

definition SlistConstIterator_deref :: "'v SNode heap \<Rightarrow> ptr \<Rightarrow> 'v option" where
  "SlistConstIterator_deref h it = do { n \<leftarrow> deref h it; Some (svalue n) }"

definition slist_FrontNode :: "ptr \<Rightarrow> ptr" where
  "slist_FrontNode header = header"

section \<open>Insertion\<close>

text \<open>The link of the node is set only when the list is not empty.\<close>

definition slist_EmplaceFrontNode :: "'v SNode heap \<Rightarrow> ptr \<Rightarrow> ptr \<Rightarrow> ('v SNode heap \<times> ptr) option" where
  "slist_EmplaceFrontNode h header node = do {
     h \<leftarrow> (if header \<noteq> nullptr then set_next h node header else Some h);
     Some (h, node) }"

definition slist_EmplaceFront :: "'v SNode heap \<Rightarrow> ptr \<Rightarrow> ptr \<Rightarrow> 'v \<Rightarrow> ('v SNode heap \<times> ptr) option" where
  "slist_EmplaceFront h header fresh v = do {
     h \<leftarrow> CreateNode h fresh v;
     slist_EmplaceFrontNode h header fresh }"

definition slist_InsertAfterNode :: "'v SNode heap \<Rightarrow> ptr \<Rightarrow> ptr \<Rightarrow> 'v \<Rightarrow> 'v SNode heap option" where
  "slist_InsertAfterNode h pos fresh v = do {
     h \<leftarrow> CreateNode h fresh v;
     n \<leftarrow> deref h pos;
     h \<leftarrow> set_next h fresh (snext n);
     set_next h pos fresh }"

text \<open>The constructor from an initializer list pushes every element to the front.\<close>

fun slist_of_list :: "'v SNode heap \<Rightarrow> ptr \<Rightarrow> (ptr \<times> 'v) list \<Rightarrow> ('v SNode heap \<times> ptr) option" where
  "slist_of_list h header [] = Some (h, header)"
| "slist_of_list h header ((fresh, e) # il) = do {
     (h, header) \<leftarrow> slist_EmplaceFront h header fresh e;
     slist_of_list h header il }"

section \<open>Search\<close>

partial_function (option) slist_SearchNodeIf :: "'v SNode heap \<Rightarrow> ('v \<Rightarrow> bool) \<Rightarrow> ptr \<Rightarrow> ptr option" where
  [code]: "slist_SearchNodeIf h pred header =
     (if header = nullptr then Some nullptr
      else do {
        n \<leftarrow> deref h header;
        (if pred (svalue n) then Some header else slist_SearchNodeIf h pred (snext n)) })"

definition slist_Search :: "'v SNode heap \<Rightarrow> 'v \<Rightarrow> ptr \<Rightarrow> ptr option" where
  "slist_Search h value header = slist_SearchNodeIf h (\<lambda>val. val = value) header"

section \<open>Extraction and erasure\<close>

definition slist_ExtractFront :: "'v SNode heap \<Rightarrow> ptr \<Rightarrow> (('v SNode heap \<times> ptr) \<times> ptr) option" where
  "slist_ExtractFront h header = do {
     n \<leftarrow> deref h header;
     h \<leftarrow> set_next h header nullptr;
     Some ((h, snext n), header) }"

text \<open>The loop of \<open>ExtractNodeIf\<close>: \<open>header\<close> is the node before the one that is looked at.\<close>

partial_function (option) slist_extract_loop ::
    "'v SNode heap \<Rightarrow> ('v \<Rightarrow> bool) \<Rightarrow> ptr \<Rightarrow> ('v SNode heap \<times> ptr) option" where
  [code]: "slist_extract_loop h pred header = do {
     n \<leftarrow> deref h header;
     (if snext n = nullptr then Some (h, nullptr)
      else do {
        m \<leftarrow> deref h (snext n);
        (if pred (svalue m) then do {
           h \<leftarrow> set_next h header (snext m);
           h \<leftarrow> set_next h (snext n) nullptr;
           Some (h, snext n) }
         else slist_extract_loop h pred (snext n)) }) }"

definition slist_ExtractNodeIf ::
    "'v SNode heap \<Rightarrow> ptr \<Rightarrow> ('v \<Rightarrow> bool) \<Rightarrow> (('v SNode heap \<times> ptr) \<times> ptr) option" where
  "slist_ExtractNodeIf h header pred =
     (if header = nullptr then Some ((h, header), nullptr)
      else do {
        n \<leftarrow> deref h header;
        (if pred (svalue n) then do {
           h \<leftarrow> set_next h header nullptr;
           Some ((h, snext n), header) }
         else do {
           (h, ret) \<leftarrow> slist_extract_loop h pred header;
           Some ((h, header), ret) }) })"

definition slist_ExtractNode ::
    "'v SNode heap \<Rightarrow> ptr \<Rightarrow> 'v \<Rightarrow> (('v SNode heap \<times> ptr) \<times> ptr) option" where
  "slist_ExtractNode h header value = slist_ExtractNodeIf h header (\<lambda>val. value = val)"

definition slist_PopFront :: "'v SNode heap \<Rightarrow> ptr \<Rightarrow> ('v SNode heap \<times> ptr) option" where
  "slist_PopFront h header = do {
     ((h, header), node) \<leftarrow> slist_ExtractFront h header;
     h \<leftarrow> DropNode h node;
     Some (h, header) }"

definition slist_EraseIf ::
    "'v SNode heap \<Rightarrow> ptr \<Rightarrow> ('v \<Rightarrow> bool) \<Rightarrow> (('v SNode heap \<times> ptr) \<times> nat) option" where
  "slist_EraseIf h header pred = do {
     ((h, header), node) \<leftarrow> slist_ExtractNodeIf h header pred;
     (if node \<noteq> nullptr then do { h \<leftarrow> DropNode h node; Some ((h, header), 1) }
      else Some ((h, header), 0)) }"

definition slist_Erase ::
    "'v SNode heap \<Rightarrow> ptr \<Rightarrow> 'v \<Rightarrow> (('v SNode heap \<times> ptr) \<times> nat) option" where
  "slist_Erase h header value = slist_EraseIf h header (\<lambda>val. value = val)"

definition slist_EraseAfterNode :: "'v SNode heap \<Rightarrow> ptr \<Rightarrow> 'v SNode heap option" where
  "slist_EraseAfterNode h pos = do {
     n \<leftarrow> deref h pos;
     m \<leftarrow> deref h (snext n);
     h \<leftarrow> set_next h pos (snext m);
     DropNode h (snext n) }"

partial_function (option) slist_Clear :: "'v SNode heap \<Rightarrow> ptr \<Rightarrow> ('v SNode heap \<times> ptr) option" where
  [code]: "slist_Clear h header =
     (if header = nullptr then Some (h, header)
      else do {
        n \<leftarrow> deref h header;
        h \<leftarrow> DropNode h header;
        slist_Clear h (snext n) })"

definition slist_swap :: "ptr \<Rightarrow> ptr \<Rightarrow> ptr \<times> ptr" where
  "slist_swap header other = (other, header)"

text \<open>Moving: the first header is that of the new, or assigned, list.\<close>

definition slist_move :: "ptr \<Rightarrow> ptr \<times> ptr" where
  "slist_move other = (other, nullptr)"

definition slist_move_assign :: "ptr \<Rightarrow> ptr \<Rightarrow> ptr \<times> ptr" where
  "slist_move_assign header other = slist_swap header other"

definition slist_destroy :: "'v SNode heap \<Rightarrow> ptr \<Rightarrow> 'v SNode heap option" where
  "slist_destroy h header = do { (h, _) \<leftarrow> slist_Clear h header; Some h }"

section \<open>Copying\<close>

text \<open>
  The copy loops take the addresses of the nodes they create. \<open>slist_append_copy\<close> is the loop
  of the copy constructor and the first loop after the assignment's overwriting loop.
\<close>

fun slist_append_copy ::
    "'v SNode heap \<Rightarrow> ptr \<Rightarrow> ptr \<Rightarrow> ptr list \<Rightarrow> 'v SNode heap option" where
  "slist_append_copy h header header2 addrs =
     (if header2 = nullptr then Some h
      else do {
        n2 \<leftarrow> deref h header2;
        (case addrs of
           [] \<Rightarrow> None
         | fresh # addrs \<Rightarrow> do {
             h \<leftarrow> slist_InsertAfterNode h header fresh (svalue n2);
             n \<leftarrow> deref h header;
             n2 \<leftarrow> deref h header2;
             slist_append_copy h (snext n) (snext n2) addrs }) })"

declare slist_append_copy.simps [simp del]

definition slist_copy :: "'v SNode heap \<Rightarrow> ptr \<Rightarrow> ptr list \<Rightarrow> ('v SNode heap \<times> ptr) option" where
  "slist_copy h other addrs =
     (if other = nullptr then Some (h, nullptr)
      else (case addrs of
         [] \<Rightarrow> None
       | fresh # addrs \<Rightarrow> do {
           v \<leftarrow> slist_Front h other;
           (h, header) \<leftarrow> slist_EmplaceFront h nullptr fresh v;
           n2 \<leftarrow> deref h other;
           h \<leftarrow> slist_append_copy h header (snext n2) addrs;
           Some (h, header) }))"

text \<open>
  Copy assignment: values are overwritten while both lists last, then the rest of \<open>other\<close> is
  appended or the rest of the list erased.
\<close>

partial_function (option) slist_overwrite ::
    "'v SNode heap \<Rightarrow> ptr \<Rightarrow> ptr \<Rightarrow> ('v SNode heap \<times> ptr \<times> ptr) option" where
  [code]: "slist_overwrite h header header2 = do {
     n2 \<leftarrow> deref h header2;
     h \<leftarrow> set_value h header (svalue n2);
     n \<leftarrow> deref h header;
     n2 \<leftarrow> deref h header2;
     (if snext n = nullptr then Some (h, header, snext n2)
      else if snext n2 = nullptr then Some (h, header, snext n2)
      else slist_overwrite h (snext n) (snext n2)) }"

partial_function (option) slist_erase_rest :: "'v SNode heap \<Rightarrow> ptr \<Rightarrow> 'v SNode heap option" where
  [code]: "slist_erase_rest h header = do {
     n \<leftarrow> deref h header;
     (if snext n = nullptr then Some h
      else do {
        h \<leftarrow> slist_EraseAfterNode h header;
        slist_erase_rest h header }) }"

definition slist_assign ::
    "'v SNode heap \<Rightarrow> ptr \<Rightarrow> bool \<Rightarrow> ptr \<Rightarrow> ptr list \<Rightarrow> ('v SNode heap \<times> ptr) option" where
  "slist_assign h this same_object other addrs =
     (if same_object then Some (h, this)
      else do {
        (h, this, addrs) \<leftarrow>
          (if slist_IsEmpty this then do { (h, copied) \<leftarrow> slist_copy h other addrs; Some (h, copied, []) }
           else Some (h, this, addrs));
        (h, header, header2) \<leftarrow> slist_overwrite h this other;
        n \<leftarrow> deref h header;
        h \<leftarrow> (if snext n = nullptr then slist_append_copy h header header2 addrs
              else slist_erase_rest h header);
        Some (h, this) })"

end
