(* ===== verification/Slist_Refine.thy ===== *)
theory Slist_Refine
  imports Slist
begin

text \<open>
  The list operations on the heap refine operations on sequences. \<open>slist_at h p as\<close>: from \<open>p\<close>
  the list consists of the nodes \<open>as\<close>; \<open>vals h as\<close> are their values. Every refinement lemma
  also says that cells outside the list keep their contents.
\<close>

section \<open>The shape of a list\<close>

fun slist_at :: "'v SNode heap \<Rightarrow> ptr \<Rightarrow> ptr list \<Rightarrow> bool" where
  "slist_at h p [] \<longleftrightarrow> p = nullptr"
| "slist_at h p (a # as) \<longleftrightarrow>
     p = a \<and> a \<noteq> nullptr \<and> (case h a of None \<Rightarrow> False | Some n \<Rightarrow> slist_at h (snext n) as)"

definition vals :: "'v SNode heap \<Rightarrow> ptr list \<Rightarrow> 'v list" where
  "vals h as = map (\<lambda>a. svalue (the (h a))) as"

lemma vals_simps [simp]: "vals h [] = []" "vals h (a # as) = svalue (the (h a)) # vals h as"
  "vals h (as @ bs) = vals h as @ vals h bs" "length (vals h as) = length as"
  by (simp_all add: vals_def)

lemma vals_drop: "vals h (drop n as) = drop n (vals h as)"
  by (simp add: vals_def drop_map)

lemma slist_at_null [simp]: "slist_at h nullptr as \<longleftrightarrow> as = []"
  by (cases as) auto

lemma slist_at_Cons:
  "slist_at h p (a # as) \<longleftrightarrow> p = a \<and> a \<noteq> nullptr \<and> (\<exists>n. h a = Some n \<and> slist_at h (snext n) as)"
  by (auto split: option.splits)

lemmas slist_at_ConsE = slist_at_Cons [THEN iffD1, elim_format]

lemma slist_at_nonnull:
  "slist_at h p as \<Longrightarrow> p \<noteq> nullptr \<Longrightarrow> \<exists>n bs. as = p # bs \<and> h p = Some n \<and> slist_at h (snext n) bs"
  by (cases as) (auto split: option.splits)

lemma slist_at_dom: "slist_at h p as \<Longrightarrow> a \<in> set as \<Longrightarrow> a \<noteq> nullptr \<and> h a \<noteq> None"
  by (induction as arbitrary: p) (auto split: option.splits)

lemma slist_at_fresh: "slist_at h p as \<Longrightarrow> h a = None \<Longrightarrow> a \<notin> set as"
  using slist_at_dom by fastforce

lemma slist_at_unique: "slist_at h p as \<Longrightarrow> slist_at h p bs \<Longrightarrow> as = bs"
proof (induction as arbitrary: p bs)
  case Nil
  then show ?case by simp
next
  case (Cons a as)
  then show ?case by (cases bs) (auto split: option.splits)
qed

lemma slist_at_append:
  "slist_at h p (as @ bs) \<longleftrightarrow> (\<exists>q. slist_at h p (as @ bs) \<and> slist_at h q bs \<and>
     (if as = [] then q = p else h (last as) \<noteq> None \<and> q = snext (the (h (last as)))))"
proof (induction as arbitrary: p)
  case (Cons a as)
  then show ?case by (cases as) (auto split: option.splits)
qed auto

lemma slist_at_suffix: "slist_at h p (as @ bs) \<Longrightarrow> \<exists>q. slist_at h q bs"
  using slist_at_append by blast

lemma slist_at_distinct: "slist_at h p as \<Longrightarrow> distinct as"
proof (induction as arbitrary: p)
  case (Cons a as)
  then obtain n where n: "h a = Some n" "slist_at h (snext n) as" by (auto split: option.splits)
  have "a \<notin> set as"
  proof
    assume "a \<in> set as"
    then obtain us vs where as: "as = us @ a # vs" by (auto simp: in_set_conv_decomp)
    with n obtain q where "slist_at h q (a # vs)" using slist_at_suffix by blast
    then have "slist_at h (snext n) vs" using n by auto
    with n(2) as slist_at_unique show False by fastforce
  qed
  with Cons.IH [OF n(2)] show ?case by simp
qed simp

text \<open>Cells outside the list do not matter.\<close>

lemma slist_at_cong: "(\<And>a. a \<in> set as \<Longrightarrow> h' a = h a) \<Longrightarrow> slist_at h' p as = slist_at h p as"
  by (induction as arbitrary: p) (auto split: option.splits)

lemma slist_at_upd [simp]: "a \<notin> set as \<Longrightarrow> slist_at (h(a := x)) p as = slist_at h p as"
  by (rule slist_at_cong) auto

lemma vals_cong: "(\<And>a. a \<in> set as \<Longrightarrow> h' a = h a) \<Longrightarrow> vals h' as = vals h as"
  by (simp add: vals_def)

lemma vals_upd [simp]: "a \<notin> set as \<Longrightarrow> vals (h(a := x)) as = vals h as"
  by (rule vals_cong) auto

lemma same_outside_slist:
  "same_outside A h h' \<Longrightarrow> set as \<inter> A = {} \<Longrightarrow> slist_at h' p as = slist_at h p as \<and> vals h' as = vals h as"
  by (auto simp: same_outside_def intro!: slist_at_cong vals_cong)

section \<open>Getters and search\<close>

lemma slist_count_at: "slist_at h p as \<Longrightarrow> slist_count h p k = Some (k + length as)"
  by (induction as arbitrary: p k)
    (auto simp: slist_count.simps deref_def split: option.splits)

lemma slist_GetSize_at: "slist_at h p as \<Longrightarrow> slist_GetSize h p = Some (length as)"
  by (simp add: slist_GetSize_def slist_count_at)

text \<open>The address of the first node whose value satisfies a predicate, 0 when there is none.\<close>

fun first_node :: "'v SNode heap \<Rightarrow> ('v \<Rightarrow> bool) \<Rightarrow> ptr list \<Rightarrow> ptr" where
  "first_node h pred [] = nullptr"
| "first_node h pred (a # as) = (if pred (svalue (the (h a))) then a else first_node h pred as)"

lemma slist_SearchNodeIf_at: "slist_at h p as \<Longrightarrow> slist_SearchNodeIf h pred p = Some (first_node h pred as)"
  by (induction as arbitrary: p)
    (auto simp: slist_SearchNodeIf.simps deref_def split: option.splits)

text \<open>The nodes before and after it.\<close>

fun before_node :: "'v SNode heap \<Rightarrow> ('v \<Rightarrow> bool) \<Rightarrow> ptr list \<Rightarrow> ptr list" where
  "before_node h pred [] = []"
| "before_node h pred (a # as) = (if pred (svalue (the (h a))) then [] else a # before_node h pred as)"

fun after_node :: "'v SNode heap \<Rightarrow> ('v \<Rightarrow> bool) \<Rightarrow> ptr list \<Rightarrow> ptr list" where
  "after_node h pred [] = []"
| "after_node h pred (a # as) = (if pred (svalue (the (h a))) then as else after_node h pred as)"

lemma first_node_split:
  "\<exists>v \<in> set (vals h as). pred v \<Longrightarrow>
     before_node h pred as @ first_node h pred as # after_node h pred as = as
     \<and> (\<forall>v \<in> set (vals h (before_node h pred as)). \<not> pred v)
     \<and> pred (svalue (the (h (first_node h pred as))))"
  by (induction as) auto

lemma first_node_none: "(\<forall>v \<in> set (vals h as). \<not> pred v) \<Longrightarrow> first_node h pred as = nullptr"
  by (induction as) auto

section \<open>Insertion\<close>

lemma slist_EmplaceFrontNode_at:
  assumes "slist_at h p as" and "h a = Some n" and "snext n = nullptr \<or> p \<noteq> nullptr"
    and "a \<noteq> nullptr" and "a \<notin> set as"
  shows "\<exists>h'. slist_EmplaceFrontNode h p a = Some (h', a) \<and> slist_at h' a (a # as)
    \<and> vals h' (a # as) = svalue n # vals h as \<and> same_outside {a} h h'"
proof (cases "p = nullptr")
  case True
  with assms show ?thesis
    by (auto simp: slist_EmplaceFrontNode_def same_outside_def)
next
  case False
  with assms show ?thesis
    by (auto simp: slist_EmplaceFrontNode_def set_next_def store_nonnull same_outside_def)
qed

lemma slist_EmplaceFront_at:
  assumes "slist_at h p as" and "a \<noteq> nullptr" and "h a = None"
  shows "\<exists>h'. slist_EmplaceFront h p a v = Some (h', a) \<and> slist_at h' a (a # as)
    \<and> vals h' (a # as) = v # vals h as \<and> same_outside {a} h h'"
proof -
  let ?h = "h(a \<mapsto> \<lparr>snext = nullptr, svalue = v\<rparr>)"
  have a: "a \<notin> set as" by (rule slist_at_fresh [OF assms(1,3)])
  with assms(1) have "slist_at ?h p as" by simp
  from slist_EmplaceFrontNode_at [OF this, of a] assms(2) a show ?thesis
    by (auto simp: slist_EmplaceFront_def CreateNode_def same_outside_def)
qed

text \<open>Changing the link of one node of a list.\<close>

lemma slist_at_relink:
  assumes "slist_at h p (us @ a # vs)" and "h a = Some n" and "slist_at h q ws" and "a \<notin> set ws"
  shows "slist_at (h(a \<mapsto> n\<lparr>snext := q\<rparr>)) p (us @ a # ws)"
proof -
  have "distinct (us @ a # vs)" using assms(1) by (rule slist_at_distinct)
  then show ?thesis
    using assms by (induction us arbitrary: p) (auto split: option.splits)
qed

lemma vals_relink [simp]: "h a = Some n \<Longrightarrow> vals (h(a \<mapsto> n\<lparr>snext := q\<rparr>)) as = vals h as"
  by (simp add: vals_def)

lemma slist_at_node:
  "slist_at h p (us @ a # vs) \<Longrightarrow> \<exists>n. a \<noteq> nullptr \<and> h a = Some n \<and> slist_at h (snext n) vs
     \<and> a \<notin> set vs \<and> a \<notin> set us"
  using slist_at_distinct [of h p "us @ a # vs"] slist_at_suffix [of h p us "a # vs"]
  by (auto split: option.splits)

lemma set_next_Some: "p \<noteq> nullptr \<Longrightarrow> h p = Some n \<Longrightarrow> set_next h p q = Some (h(p \<mapsto> n\<lparr>snext := q\<rparr>))"
  by (simp add: set_next_def store_nonnull)

lemma slist_InsertAfterNode_at:
  assumes at: "slist_at h p (us @ a # vs)" and b: "b \<noteq> nullptr" "h b = None"
  shows "\<exists>h'. slist_InsertAfterNode h a b v = Some h' \<and> slist_at h' p (us @ a # b # vs)
    \<and> vals h' (us @ a # b # vs) = vals h us @ svalue (the (h a)) # v # vals h vs
    \<and> same_outside {a, b} h h'"
proof -
  have nb: "b \<notin> set (us @ a # vs)" using at b(2) by (rule slist_at_fresh)
  obtain n where n: "a \<noteq> nullptr" "h a = Some n" "slist_at h (snext n) vs" "a \<notin> set vs" "a \<notin> set us"
    using slist_at_node [OF at] by auto
  let ?h1 = "h(b \<mapsto> \<lparr>snext = snext n, svalue = v\<rparr>)"
  have "slist_at ?h1 p (us @ a # vs)" and "slist_at ?h1 b (b # vs)" and "?h1 a = Some n"
    using at nb b n by auto
  from slist_at_relink [OF this(1,3,2)] nb n
  have "slist_at (?h1(a \<mapsto> n\<lparr>snext := b\<rparr>)) p (us @ a # b # vs)" by auto
  moreover have "slist_InsertAfterNode h a b v = Some (?h1(a \<mapsto> n\<lparr>snext := b\<rparr>))"
    using b n nb by (auto simp: slist_InsertAfterNode_def CreateNode_def set_next_Some deref_nonnull)
  ultimately show ?thesis
    using nb n by (auto simp: same_outside_def)
qed

section \<open>Extraction\<close>

lemma slist_ExtractFront_at:
  assumes "slist_at h p (a # as)"
  shows "\<exists>n h' p'. h a = Some n \<and> slist_ExtractFront h p = Some ((h', p'), a) \<and> slist_at h' p' as
    \<and> vals h' as = vals h as \<and> h' a = Some (n\<lparr>snext := nullptr\<rparr>) \<and> same_outside {a} h h'"
proof -
  obtain n where "p = a" "a \<noteq> nullptr" "h a = Some n" "slist_at h (snext n) as" "a \<notin> set as"
    using slist_at_node [of h p "[]" a as] assms by auto
  then show ?thesis
    by (auto simp: slist_ExtractFront_def set_next_Some deref_nonnull same_outside_def)
qed

text \<open>
  What \<open>ExtractNodeIf\<close> does to the list \<open>as\<close>: nothing when no value satisfies the predicate,
  otherwise the first node that does leaves the list with its link cleared.
\<close>

definition extracted ::
    "'v SNode heap \<Rightarrow> ptr list \<Rightarrow> ('v \<Rightarrow> bool) \<Rightarrow> 'v SNode heap \<Rightarrow> ptr \<Rightarrow> ptr \<Rightarrow> bool" where
  "extracted h as pred h' p' ret \<longleftrightarrow>
     ret = first_node h pred as
   \<and> (if \<exists>v \<in> set (vals h as). pred v
      then h' ret = Some ((the (h ret))\<lparr>snext := nullptr\<rparr>)
         \<and> slist_at h' p' (before_node h pred as @ after_node h pred as)
         \<and> vals h' (before_node h pred as @ after_node h pred as)
             = vals h (before_node h pred as @ after_node h pred as)
         \<and> same_outside (set as) h h'
      else h' = h \<and> slist_at h' p' as)"

lemma slist_extract_loop_at:
  "slist_at h p (ws @ a # as) \<Longrightarrow> \<exists>h'. slist_extract_loop h pred a = Some (h', first_node h pred as) \<and>
     (if \<exists>v \<in> set (vals h as). pred v
      then h' (first_node h pred as) = Some ((the (h (first_node h pred as)))\<lparr>snext := nullptr\<rparr>)
         \<and> slist_at h' p (ws @ a # before_node h pred as @ after_node h pred as)
         \<and> vals h' (ws @ a # before_node h pred as @ after_node h pred as)
             = vals h (ws @ a # before_node h pred as @ after_node h pred as)
         \<and> same_outside (set (ws @ a # as)) h h'
      else h' = h)"
proof (induction as arbitrary: ws a)
  case Nil
  from slist_at_node [OF Nil] show ?case
    by (auto simp: slist_extract_loop.simps [of h pred a] deref_nonnull)
next
  case (Cons b bs)
  obtain n where n: "a \<noteq> nullptr" "h a = Some n" "slist_at h (snext n) (b # bs)" "a \<notin> set (b # bs)"
    using slist_at_node [OF Cons.prems] by auto
  from slist_at_node [of h "snext n" "[]" b bs] n(3) obtain m where
    m: "snext n = b" "b \<noteq> nullptr" "h b = Some m" "slist_at h (snext m) bs" "b \<notin> set bs" by auto
  note unf = slist_extract_loop.simps [of h pred a]
  show ?case
  proof (cases "pred (svalue m)")
    case True
    let ?h1 = "h(a \<mapsto> n\<lparr>snext := snext m\<rparr>)"
    let ?h2 = "?h1(b \<mapsto> m\<lparr>snext := nullptr\<rparr>)"
    have "slist_at ?h1 p (ws @ a # bs)"
      using slist_at_relink [OF Cons.prems n(2) m(4)] n(4) by auto
    moreover have "b \<notin> set (ws @ a # bs)"
      using slist_at_distinct [OF Cons.prems] by auto
    ultimately have "slist_at ?h2 p (ws @ a # bs)" by simp
    moreover have "slist_extract_loop h pred a = Some (?h2, b)"
      using True n m by (auto simp: unf deref_nonnull set_next_Some)
    moreover have "vals ?h2 (ws @ a # bs) = vals h (ws @ a # bs)"
      using n m by (auto simp: vals_def)
    ultimately show ?thesis
      using True n m by (intro exI [of _ ?h2]) (auto simp: same_outside_def)
  next
    case False
    from Cons.prems have "slist_at h p ((ws @ [a]) @ b # bs)" by simp
    from Cons.IH [OF this] obtain h' where IH: "slist_extract_loop h pred b = Some (h', first_node h pred bs)"
      "if \<exists>v \<in> set (vals h bs). pred v
      then h' (first_node h pred bs) = Some ((the (h (first_node h pred bs)))\<lparr>snext := nullptr\<rparr>)
         \<and> slist_at h' p ((ws @ [a]) @ b # before_node h pred bs @ after_node h pred bs)
         \<and> vals h' ((ws @ [a]) @ b # before_node h pred bs @ after_node h pred bs)
             = vals h ((ws @ [a]) @ b # before_node h pred bs @ after_node h pred bs)
         \<and> same_outside (set ((ws @ [a]) @ b # bs)) h h'
      else h' = h"
      by blast
    have "slist_extract_loop h pred a = Some (h', first_node h pred (b # bs))"
      using IH(1) False n m by (simp add: unf deref_nonnull)
    with IH(2) False m show ?thesis
      by (intro exI [of _ h']) (auto split: if_splits)
  qed
qed

lemma slist_ExtractNodeIf_at:
  assumes at: "slist_at h p as"
  shows "\<exists>h' p' ret. slist_ExtractNodeIf h p pred = Some ((h', p'), ret) \<and> extracted h as pred h' p' ret"
proof (cases as)
  case Nil
  with at show ?thesis by (simp add: slist_ExtractNodeIf_def extracted_def)
next
  case (Cons a bs)
  with at slist_at_node [of h p "[]" a bs] obtain n where
    n: "p = a" "a \<noteq> nullptr" "h a = Some n" "slist_at h (snext n) bs" "a \<notin> set bs" by auto
  show ?thesis
  proof (cases "pred (svalue n)")
    case True
    with n show ?thesis unfolding Cons
      by (auto simp: slist_ExtractNodeIf_def extracted_def deref_nonnull set_next_Some same_outside_def)
  next
    case False
    from at Cons have "slist_at h p ([] @ a # bs)" by simp
    from slist_extract_loop_at [OF this, of pred] obtain h' where
      loop: "slist_extract_loop h pred a = Some (h', first_node h pred bs)"
      "if \<exists>v \<in> set (vals h bs). pred v
      then h' (first_node h pred bs) = Some ((the (h (first_node h pred bs)))\<lparr>snext := nullptr\<rparr>)
         \<and> slist_at h' p ([] @ a # before_node h pred bs @ after_node h pred bs)
         \<and> vals h' ([] @ a # before_node h pred bs @ after_node h pred bs)
             = vals h ([] @ a # before_node h pred bs @ after_node h pred bs)
         \<and> same_outside (set ([] @ a # bs)) h h'
      else h' = h" by blast
    have "slist_ExtractNodeIf h p pred = Some ((h', p), first_node h pred as)"
      using loop(1) False n Cons by (simp add: slist_ExtractNodeIf_def deref_nonnull)
    moreover have "extracted h as pred h' p (first_node h pred as)"
      using loop(2) False n at unfolding Cons extracted_def by (auto split: if_splits)
    ultimately show ?thesis by blast
  qed
qed

section \<open>Erasure\<close>

lemma DropNode_Some: "p \<noteq> nullptr \<Longrightarrow> h p = Some n \<Longrightarrow> DropNode h p = Some (h(p := None))"
  by (simp add: DropNode_def deref_nonnull)

lemma first_node_in: "\<exists>v \<in> set (vals h as). pred v \<Longrightarrow> first_node h pred as \<in> set as"
  by (induction as) auto

lemma slist_EraseIf_at:
  assumes at: "slist_at h p as" and ex: "\<exists>v \<in> set (vals h as). pred v"
  shows "\<exists>h' p'. slist_EraseIf h p pred = Some ((h', p'), 1) \<and> h' (first_node h pred as) = None
    \<and> slist_at h' p' (before_node h pred as @ after_node h pred as)
    \<and> vals h' (before_node h pred as @ after_node h pred as)
        = vals h (before_node h pred as @ after_node h pred as)
    \<and> same_outside (set as) h h'"
proof -
  let ?a = "first_node h pred as"
  let ?rest = "before_node h pred as @ after_node h pred as"
  from slist_ExtractNodeIf_at [OF at, of pred] ex obtain h1 p' n where
    h1: "slist_ExtractNodeIf h p pred = Some ((h1, p'), ?a)" "h1 ?a = Some n"
      "slist_at h1 p' ?rest" "vals h1 ?rest = vals h ?rest" "same_outside (set as) h h1"
    by (auto simp: extracted_def)
  have a: "?a \<in> set as" using ex by (rule first_node_in)
  then have nn: "?a \<noteq> nullptr" using slist_at_dom [OF at] by blast
  have "distinct (before_node h pred as @ ?a # after_node h pred as)"
    using slist_at_distinct [OF at] first_node_split [OF ex] by metis
  then have "?a \<notin> set ?rest" by simp
  with h1 nn a show ?thesis
    by (intro exI [of _ "h1(?a := None)"] exI [of _ p'])
      (auto simp: slist_EraseIf_def DropNode_Some same_outside_def simp del: vals_simps(3))
qed

lemma slist_EraseIf_none:
  assumes at: "slist_at h p as" and ex: "\<not> (\<exists>v \<in> set (vals h as). pred v)"
  shows "slist_EraseIf h p pred = Some ((h, p), 0)"
proof -
  from slist_ExtractNodeIf_at [OF at, of pred] ex first_node_none [of h as pred] obtain p' where
    x: "slist_ExtractNodeIf h p pred = Some ((h, p'), nullptr)" "slist_at h p' as"
    by (auto simp: extracted_def)
  have "p' = p" using at x(2) by (cases as) auto
  with x(1) show ?thesis by (simp add: slist_EraseIf_def)
qed

lemma slist_EraseAfterNode_at:
  assumes at: "slist_at h p (us @ a # b # vs)"
  shows "\<exists>h'. slist_EraseAfterNode h a = Some h' \<and> slist_at h' p (us @ a # vs) \<and> h' b = None
    \<and> vals h' (us @ a # vs) = vals h (us @ a # vs) \<and> same_outside {a, b} h h'"
proof -
  obtain n where n: "a \<noteq> nullptr" "h a = Some n" "slist_at h (snext n) (b # vs)" "a \<notin> set (b # vs)"
    using slist_at_node [OF at] by auto
  from slist_at_node [of h "snext n" "[]" b vs] n(3) obtain m where
    m: "snext n = b" "b \<noteq> nullptr" "h b = Some m" "slist_at h (snext m) vs" "b \<notin> set vs" by auto
  let ?h1 = "h(a \<mapsto> n\<lparr>snext := snext m\<rparr>)"
  have "slist_at ?h1 p (us @ a # vs)"
    using slist_at_relink [OF at n(2) m(4)] n(4) by simp
  moreover have b: "b \<notin> set (us @ a # vs)" using slist_at_distinct [OF at] by auto
  ultimately have "slist_at (?h1(b := None)) p (us @ a # vs)" by simp
  moreover have "slist_EraseAfterNode h a = Some (?h1(b := None))"
    using n m by (auto simp: slist_EraseAfterNode_def deref_nonnull set_next_Some DropNode_Some)
  moreover have "vals (?h1(b := None)) (us @ a # vs) = vals h (us @ a # vs)"
    using b n by (simp add: vals_relink del: vals_simps)
  ultimately show ?thesis by (auto simp: same_outside_def)
qed

lemma slist_erase_rest_at:
  "slist_at h p (us @ a # vs) \<Longrightarrow> \<exists>h'. slist_erase_rest h a = Some h' \<and> slist_at h' p (us @ [a])
    \<and> vals h' (us @ [a]) = vals h (us @ [a]) \<and> (\<forall>v \<in> set vs. h' v = None) \<and> same_outside (set (a # vs)) h h'"
proof (induction vs arbitrary: h)
  case Nil
  with slist_at_node [OF Nil] show ?case
    by (auto simp: slist_erase_rest.simps [of h a] deref_nonnull same_outside_def)
next
  case (Cons b vs)
  from slist_EraseAfterNode_at [OF Cons.prems] obtain h1 where
    h1: "slist_EraseAfterNode h a = Some h1" "slist_at h1 p (us @ a # vs)" "h1 b = None"
      "vals h1 (us @ a # vs) = vals h (us @ a # vs)" "same_outside {a, b} h h1" by blast
  from Cons.IH [OF h1(2)] obtain h2 where
    h2: "slist_erase_rest h1 a = Some h2" "slist_at h2 p (us @ [a])"
      "vals h2 (us @ [a]) = vals h1 (us @ [a])" "\<forall>v \<in> set vs. h2 v = None"
      "same_outside (set (a # vs)) h1 h2" by blast
  obtain n where n: "a \<noteq> nullptr" "h a = Some n" "slist_at h (snext n) (b # vs)"
    using slist_at_node [OF Cons.prems] by auto
  then have "snext n \<noteq> nullptr" by auto
  with n h1(1) h2(1) have "slist_erase_rest h a = Some h2"
    by (simp add: slist_erase_rest.simps [of h a] deref_nonnull)
  moreover have "b \<notin> set (a # vs)" using slist_at_distinct [OF Cons.prems] by auto
  then have "h2 b = None" using h1(3) h2(5) by (auto simp: same_outside_def)
  ultimately show ?case
    using h1(4,5) h2 by (auto simp: same_outside_def)
qed

lemma slist_Clear_at:
  "slist_at h p as \<Longrightarrow> \<exists>h'. slist_Clear h p = Some (h', nullptr) \<and> (\<forall>a \<in> set as. h' a = None)
    \<and> same_outside (set as) h h'"
proof (induction as arbitrary: h p)
  case Nil
  then show ?case by (simp add: slist_Clear.simps same_outside_def)
next
  case (Cons a as)
  with slist_at_node [of h p "[]" a as] obtain n where
    n: "p = a" "a \<noteq> nullptr" "h a = Some n" "slist_at h (snext n) as" "a \<notin> set as" by auto
  then have "slist_at (h(a := None)) (snext n) as" by simp
  from Cons.IH [OF this] obtain h' where h': "slist_Clear (h(a := None)) (snext n) = Some (h', nullptr)"
    "\<forall>a \<in> set as. h' a = None" "same_outside (set as) (h(a := None)) h'" by blast
  then have "h' a = None" using n(5) by (simp add: same_outside_def)
  moreover have "slist_Clear h p = Some (h', nullptr)"
    using n h'(1) by (simp add: slist_Clear.simps [of h a] deref_nonnull DropNode_Some)
  ultimately show ?case using h' by (auto simp: same_outside_def)
qed

section \<open>Copying\<close>

text \<open>Addresses that an allocator may return: not null, pairwise distinct, not in use.\<close>

definition fresh_addrs :: "'v heap \<Rightarrow> ptr list \<Rightarrow> bool" where
  "fresh_addrs h addrs \<longleftrightarrow> distinct addrs \<and> (\<forall>a \<in> set addrs. a \<noteq> nullptr \<and> h a = None)"

lemma slist_append_copy_at:
  "slist_at h p (us @ [a]) \<Longrightarrow> slist_at h q bs \<Longrightarrow> set bs \<inter> set (us @ [a]) = {} \<Longrightarrow>
   fresh_addrs h addrs \<Longrightarrow> length bs \<le> length addrs \<Longrightarrow>
     \<exists>h'. slist_append_copy h a q addrs = Some h' \<and> slist_at h' p (us @ a # take (length bs) addrs)
      \<and> vals h' (us @ a # take (length bs) addrs) = vals h (us @ [a]) @ vals h bs
      \<and> same_outside (insert a (set (take (length bs) addrs))) h h'"
proof (induction bs arbitrary: h us a q addrs)
  case Nil
  then show ?case by (auto simp: slist_append_copy.simps same_outside_def)
next
  case (Cons b bs)
  from Cons.prems(5) obtain x xs where addrs: "addrs = x # xs" by (cases addrs) auto
  from slist_at_node [of h q "[]" b bs] Cons.prems(2) obtain m where
    m: "q = b" "b \<noteq> nullptr" "h b = Some m" "slist_at h (snext m) bs" "b \<notin> set bs" by auto
  have x: "x \<noteq> nullptr" "h x = None" using Cons.prems(4) by (auto simp: addrs fresh_addrs_def)
  have xb: "x \<notin> set (b # bs)" using Cons.prems(2) x(2) by (rule slist_at_fresh)
  from slist_InsertAfterNode_at [OF Cons.prems(1) x, of "svalue m"] obtain h1 where
    h1: "slist_InsertAfterNode h a x (svalue m) = Some h1" "slist_at h1 p ((us @ [a]) @ [x])"
      "vals h1 (us @ [a, x]) = vals h us @ [svalue (the (h a)), svalue m]" "same_outside {a, x} h h1"
    by auto
  have disj: "set (b # bs) \<inter> {a, x} = {}" using Cons.prems(3) xb by auto
  have hb: "h1 b = Some m" using h1(4) m(3) disj by (auto simp: same_outside_def)
  have bs: "slist_at h1 (snext m) bs" "vals h1 bs = vals h bs"
    using same_outside_slist [OF h1(4), of bs] m(4) disj by auto
  obtain n where n: "a \<noteq> nullptr" "h1 a = Some n" "snext n = x"
    using slist_at_node [of h1 p us a "[x]"] h1(2) by auto
  have "a \<notin> set addrs" using slist_at_fresh [OF Cons.prems(1)] Cons.prems(4)
    by (auto simp: fresh_addrs_def)
  then have fr: "fresh_addrs h1 xs"
    using Cons.prems(4) h1(4) by (auto simp: fresh_addrs_def same_outside_def addrs)
  have d: "set bs \<inter> set ((us @ [a]) @ [x]) = {}" using Cons.prems(3) xb by auto
  have l: "length bs \<le> length xs" using Cons.prems(5) addrs by simp
  from Cons.IH [OF h1(2) bs(1) d fr l] obtain h2 where
    h2: "slist_append_copy h1 x (snext m) xs = Some h2"
      "slist_at h2 p ((us @ [a]) @ x # take (length bs) xs)"
      "vals h2 ((us @ [a]) @ x # take (length bs) xs) = vals h1 ((us @ [a]) @ [x]) @ vals h1 bs"
      "same_outside (insert x (set (take (length bs) xs))) h1 h2" by blast
  have "slist_append_copy h a q addrs = Some h2"
    using m hb h1(1) h2(1) n
    by (simp add: slist_append_copy.simps [of h a b "x # xs"] addrs deref_nonnull)
  with h2 h1(3,4) m(3) bs(2) addrs show ?case
    by (auto simp: same_outside_def)
qed

lemma slist_copy_at:
  assumes at: "slist_at h q bs" and fr: "fresh_addrs h addrs" and len: "length bs \<le> length addrs"
  shows "\<exists>h' p'. slist_copy h q addrs = Some (h', p') \<and> slist_at h' p' (take (length bs) addrs)
    \<and> vals h' (take (length bs) addrs) = vals h bs \<and> same_outside (set (take (length bs) addrs)) h h'"
proof (cases bs)
  case Nil
  with at show ?thesis by (simp add: slist_copy_def same_outside_def)
next
  case (Cons b bs')
  with len obtain x xs where addrs: "addrs = x # xs" by (cases addrs) auto
  from slist_at_node [of h q "[]" b bs'] at Cons obtain m where
    m: "q = b" "b \<noteq> nullptr" "h b = Some m" "slist_at h (snext m) bs'" by auto
  have x: "x \<noteq> nullptr" "h x = None" using fr by (auto simp: addrs fresh_addrs_def)
  have xb: "x \<notin> set bs" using at x(2) by (rule slist_at_fresh)
  let ?h = "h(x \<mapsto> \<lparr>snext = nullptr, svalue = svalue m\<rparr>)"
  have e: "slist_EmplaceFront h nullptr x (svalue m) = Some (?h, x)"
    using x by (simp add: slist_EmplaceFront_def CreateNode_def slist_EmplaceFrontNode_def)
  have 1: "slist_at ?h x ([] @ [x])" using x by simp
  have 2: "slist_at ?h (snext m) bs'" using m xb Cons by simp
  have 3: "set bs' \<inter> set ([] @ [x]) = {}" using xb Cons by simp
  have 4: "fresh_addrs ?h xs" using fr by (auto simp: addrs fresh_addrs_def)
  have 5: "length bs' \<le> length xs" using len Cons addrs by simp
  from slist_append_copy_at [OF 1 2 3 4 5] obtain h' where
    h': "slist_append_copy ?h x (snext m) xs = Some h'" "slist_at h' x ([] @ x # take (length bs') xs)"
      "vals h' ([] @ x # take (length bs') xs) = vals ?h ([] @ [x]) @ vals ?h bs'"
      "same_outside (insert x (set (take (length bs') xs))) ?h h'" by blast
  have "slist_copy h q addrs = Some (h', x)"
    using m x xb e h'(1) Cons by (auto simp: slist_copy_def addrs slist_Front_def deref_nonnull)
  with h' m xb Cons addrs show ?thesis by (auto simp: same_outside_def)
qed

section \<open>Assignment\<close>

lemma slist_at_set_value [simp]:
  "h a = Some n \<Longrightarrow> slist_at (h(a \<mapsto> n\<lparr>svalue := v\<rparr>)) p as = slist_at h p as"
  by (induction as arbitrary: p) (auto split: option.splits)

lemma set_value_Some: "p \<noteq> nullptr \<Longrightarrow> h p = Some n \<Longrightarrow> set_value h p v = Some (h(p \<mapsto> n\<lparr>svalue := v\<rparr>))"
  by (simp add: set_value_def store_nonnull)

text \<open>
  The overwriting loop stops at the end of the shorter list: at its last common node, with what
  is left of the other list.
\<close>

lemma slist_overwrite_at:
  "slist_at h a (a # as) \<Longrightarrow> slist_at h b (b # bs) \<Longrightarrow> set (a # as) \<inter> set (b # bs) = {} \<Longrightarrow>
     \<exists>h' r. slist_overwrite h a b = Some (h', (a # as) ! min (length as) (length bs), r)
      \<and> slist_at h' r (drop (length as) bs)
      \<and> (\<forall>p xs. slist_at h' p xs = slist_at h p xs)
      \<and> vals h' (a # as) = take (Suc (length as)) (vals h (b # bs)) @ drop (Suc (length bs)) (vals h (a # as))
      \<and> same_outside (set (a # as)) h h'"
proof (induction as arbitrary: h a b bs)
  case Nil
  obtain n where n: "a \<noteq> nullptr" "h a = Some n" "snext n = nullptr"
    using slist_at_node [of h a "[]" a "[]"] Nil by auto
  obtain m where m: "b \<noteq> nullptr" "h b = Some m" "slist_at h (snext m) bs" "b \<noteq> a"
    using slist_at_node [of h b "[]" b bs] Nil by auto
  let ?h = "h(a \<mapsto> n\<lparr>svalue := svalue m\<rparr>)"
  have "slist_overwrite h a b = Some (?h, a, snext m)"
    using n m by (simp add: slist_overwrite.simps [of h a b] deref_nonnull set_value_Some)
  with n m show ?case by (auto simp: same_outside_def)
next
  case (Cons a' as)
  obtain n where n: "a \<noteq> nullptr" "h a = Some n" "slist_at h (snext n) (a' # as)" "a \<notin> set (a' # as)"
    using slist_at_node [of h a "[]" a "a' # as"] Cons.prems by auto
  then have a': "snext n = a'" "a' \<noteq> nullptr" by auto
  obtain m where m: "b \<noteq> nullptr" "h b = Some m" "slist_at h (snext m) bs" "b \<noteq> a" "b \<notin> set bs"
    using slist_at_node [of h b "[]" b bs] Cons.prems by auto
  let ?h = "h(a \<mapsto> n\<lparr>svalue := svalue m\<rparr>)"
  note unf = slist_overwrite.simps [of h a b]
  show ?case
  proof (cases bs)
    case Nil
    then have "slist_overwrite h a b = Some (?h, a, nullptr)"
      using n m a' by (simp add: unf deref_nonnull set_value_Some)
    with n m Nil show ?thesis by (auto simp: same_outside_def)
  next
    case bs: (Cons b' bs')
    then have b': "snext m = b'" "b' \<noteq> nullptr" using m(3) by auto
    have 1: "slist_at ?h a' (a' # as)" using n(3) a' slist_at_set_value [where h = h and a = a and n = n and p = a' and as = "a' # as"] n(2) by simp
    have 2: "slist_at ?h b' (b' # bs')"
      using m(3) b' bs slist_at_set_value [where h = h and a = a and n = n and p = b' and as = "b' # bs'"] n(2) by simp
    have 3: "set (a' # as) \<inter> set (b' # bs') = {}" using Cons.prems(3) bs by auto
    from Cons.IH [OF 1 2 3] obtain h' r where
      IH: "slist_overwrite ?h a' b' = Some (h', (a' # as) ! min (length as) (length bs'), r)"
        "slist_at h' r (drop (length as) bs')" "\<forall>p xs. slist_at h' p xs = slist_at ?h p xs"
        "vals h' (a' # as) = take (Suc (length as)) (vals ?h (b' # bs')) @ drop (Suc (length bs')) (vals ?h (a' # as))"
        "same_outside (set (a' # as)) ?h h'" by blast
    have step: "slist_overwrite h a b = Some (h', (a # a' # as) ! min (length (a' # as)) (length bs), r)"
      using IH(1) n m a' b' bs by (simp add: unf deref_nonnull set_value_Some)
    have v1: "vals ?h (b' # bs') = vals h (b' # bs')" "vals ?h (a' # as) = vals h (a' # as)"
      using Cons.prems(3) n(4) bs by (auto intro!: vals_cong)
    have "h' a = ?h a" using IH(5) n(4) by (simp add: same_outside_def)
    then have va: "svalue (the (h' a)) = svalue m" using n by simp
    have at: "\<forall>p xs. slist_at h' p xs = slist_at h p xs" using IH(3) n by simp
    have so: "same_outside (set (a # a' # as)) h h'" using IH(5) by (auto simp: same_outside_def)
    have vs: "vals h' (a # a' # as) = take (Suc (length (a' # as))) (vals h (b # bs))
        @ drop (Suc (length bs)) (vals h (a # a' # as))"
      using IH(4) va v1 m bs by simp
    show ?thesis using step IH(2) at so vs bs by auto
  qed
qed

lemma slist_at_Cons_head: "slist_at h p (a # as) \<Longrightarrow> p = a"
  by simp

text \<open>
  Assigning a non-empty list to a non-empty one: the nodes of the left side are kept as far as
  they go, new ones are appended or the rest freed.
\<close>

lemma slist_assign_at:
  assumes a: "slist_at h p as" "as \<noteq> []" and b: "slist_at h q bs" "bs \<noteq> []" and disj: "set as \<inter> set bs = {}"
    and fr: "fresh_addrs h addrs" and len: "length bs - length as \<le> length addrs"
  shows "\<exists>h'. slist_assign h p False q addrs = Some (h', p)
    \<and> slist_at h' p (take (length bs) as @ take (length bs - length as) addrs)
    \<and> vals h' (take (length bs) as @ take (length bs - length as) addrs) = vals h bs
    \<and> slist_at h' q bs \<and> vals h' bs = vals h bs"
proof -
  obtain x as' where as: "as = x # as'" using a(2) by (cases as) auto
  obtain y bs' where bs: "bs = y # bs'" using b(2) by (cases bs) auto
  have p: "p = x" "q = y" "x \<noteq> nullptr" using a(1) b(1) as bs by auto
  let ?k = "min (length as') (length bs')"
  have l: "length as = Suc (length as')" "length bs = Suc (length bs')" using as bs by auto
  from slist_overwrite_at [of h x as' y bs'] a(1) b(1) disj as bs p obtain h1 r where
    h1: "slist_overwrite h x y = Some (h1, as ! ?k, r)" "slist_at h1 r (drop (length as') bs')"
      "\<forall>p xs. slist_at h1 p xs = slist_at h p xs"
      "vals h1 as = take (length as) (vals h bs) @ drop (length bs) (vals h as)"
      "same_outside (set as) h h1" by auto
  have at1: "slist_at h1 p as" "slist_at h1 q bs" using a(1) b(1) h1(3) by auto
  have vb1: "vals h1 bs = vals h bs"
    using same_outside_slist [OF h1(5), of bs] disj by auto
  have k: "?k < length as" using l by simp
  from id_take_nth_drop [OF k] have split: "as = take ?k as @ as ! ?k # drop (Suc ?k) as" .
  obtain n where n: "as ! ?k \<noteq> nullptr" "h1 (as ! ?k) = Some n" "slist_at h1 (snext n) (drop (Suc ?k) as)"
    using slist_at_node [of h1 p "take ?k as" "as ! ?k" "drop (Suc ?k) as"] at1(1) split by metis
  show ?thesis
  proof (cases "length as \<le> length bs")
    case True
    with l have k': "?k = length as'" by simp
    then have nn: "snext n = nullptr" using n(3) l(1) by simp
    have as_eq: "take ?k as @ [as ! ?k] = as"
      by (metis take_Suc_conv_app_nth [OF k] k' l(1) take_all order_refl)
    have 1: "slist_at h1 p (take ?k as @ [as ! ?k])" using at1(1) unfolding as_eq .
    have d: "set (drop (length as') bs') \<inter> set (take ?k as @ [as ! ?k]) = {}"
      using disj bs unfolding as_eq by (auto dest: in_set_dropD)
    have fr1: "fresh_addrs h1 addrs"
      using fr h1(5) slist_at_fresh [OF a(1)] by (auto simp: fresh_addrs_def same_outside_def)
    have len1: "length (drop (length as') bs') \<le> length addrs" using len l by simp
    from slist_append_copy_at [OF 1 h1(2) d fr1 len1] obtain h2 where
      h2: "slist_append_copy h1 (as ! ?k) r addrs = Some h2"
        "slist_at h2 p (take ?k as @ as ! ?k # take (length (drop (length as') bs')) addrs)"
        "vals h2 (take ?k as @ as ! ?k # take (length (drop (length as') bs')) addrs)
           = vals h1 (take ?k as @ [as ! ?k]) @ vals h1 (drop (length as') bs')"
        "same_outside (insert (as ! ?k) (set (take (length (drop (length as') bs')) addrs))) h1 h2"
      by blast
    have addrs_eq: "take ?k as @ as ! ?k # take (length (drop (length as') bs')) addrs
        = take (length bs) as @ take (length bs - length as) addrs"
      using as_eq True l by (metis append.assoc append_Cons append_Nil diff_Suc_Suc length_drop take_all)
    have "slist_assign h p False q addrs = Some (h2, p)"
      using h1(1) n nn h2(1) p by (simp add: slist_assign_def slist_IsEmpty_def deref_nonnull)
    moreover have "vals h2 (take (length bs) as @ take (length bs - length as) addrs) = vals h bs"
    proof -
      have "vals h1 (drop (length as') bs') = drop (length as) (vals h bs)"
        unfolding vb1 [symmetric] by (simp add: bs as vals_drop)
      then have "vals h2 (take (length bs) as @ take (length bs - length as) addrs)
          = vals h1 as @ drop (length as) (vals h bs)"
        using h2(3) unfolding addrs_eq as_eq by (simp only:)
      also have "\<dots> = vals h bs" using h1(4) True by simp
      finally show ?thesis .
    qed
    moreover have "set bs \<inter> insert (as ! ?k) (set (take (length (drop (length as') bs')) addrs)) = {}"
    proof -
      have "set bs \<inter> set addrs = {}" using slist_at_fresh [OF b(1)] fr by (auto simp: fresh_addrs_def)
      moreover have "as ! ?k \<in> set as" using k by simp
      ultimately show ?thesis using disj by (auto dest: in_set_takeD)
    qed
    with same_outside_slist [OF h2(4), of bs q] at1(2) vb1 have "slist_at h2 q bs" "vals h2 bs = vals h bs" by auto
    ultimately show ?thesis using h2(2) addrs_eq by auto
  next
    case False
    with l have k': "?k = length bs'" by simp
    have ne: "drop (Suc ?k) as \<noteq> []" using False l k' by simp
    then have nn: "snext n \<noteq> nullptr" using n(3) by (cases "drop (Suc ?k) as") auto
    from slist_erase_rest_at [of h1 p "take ?k as" "as ! ?k" "drop (Suc ?k) as"] at1(1) split obtain h2 where
      h2: "slist_erase_rest h1 (as ! ?k) = Some h2" "slist_at h2 p (take ?k as @ [as ! ?k])"
        "vals h2 (take ?k as @ [as ! ?k]) = vals h1 (take ?k as @ [as ! ?k])"
        "same_outside (set (as ! ?k # drop (Suc ?k) as)) h1 h2" by metis
    have eq: "take ?k as @ [as ! ?k] = take (length bs) as"
      using k k' l by (simp add: take_Suc_conv_app_nth)
    have "slist_assign h p False q addrs = Some (h2, p)"
      using h1(1) n nn h2(1) p by (simp add: slist_assign_def slist_IsEmpty_def deref_nonnull)
    moreover have "vals h2 (take (length bs) as) = vals h bs"
    proof -
      have "vals h2 (take (length bs) as) = take (length bs) (vals h1 as)"
        using h2(3) eq by (simp add: vals_def take_map)
      also have "\<dots> = vals h bs" using h1(4) False by simp
      finally show ?thesis .
    qed
    moreover have "set (as ! ?k # drop (Suc ?k) as) \<subseteq> set as" using k by (auto dest: in_set_dropD)
    with same_outside_slist [OF h2(4), of bs q] at1(2) vb1 disj
    have "slist_at h2 q bs" "vals h2 bs = vals h bs" by auto
    ultimately show ?thesis using h2(2) eq False by auto
  qed
qed

section \<open>Properties\<close>

text \<open>
  C24: on every well-formed list, the searching, extracting and erasing operations terminate
  without undefined behaviour and act on the first element that satisfies the predicate: it
  leaves the list, the others keep their order, values and links, and no cell outside the
  list changes; without such an element nothing changes.
\<close>
theorem slist_search_extract_erase:
  assumes "slist_at h p as"
  shows "slist_GetSize h p = Some (length as)
    \<and> slist_SearchNodeIf h pred p = Some (first_node h pred as)
    \<and> (\<exists>h' p' ret. slist_ExtractNodeIf h p pred = Some ((h', p'), ret) \<and> extracted h as pred h' p' ret)
    \<and> (if \<exists>v \<in> set (vals h as). pred v
       then \<exists>h' p'. slist_EraseIf h p pred = Some ((h', p'), 1) \<and> h' (first_node h pred as) = None
          \<and> slist_at h' p' (before_node h pred as @ after_node h pred as)
          \<and> vals h' (before_node h pred as @ after_node h pred as)
              = vals h (before_node h pred as @ after_node h pred as)
          \<and> same_outside (set as) h h'
       else slist_EraseIf h p pred = Some ((h, p), 0))"
  using slist_GetSize_at [OF assms] slist_SearchNodeIf_at [OF assms] slist_ExtractNodeIf_at [OF assms]
    slist_EraseIf_at [OF assms] slist_EraseIf_none [OF assms] by auto

definition demo_heap :: "nat SNode heap" where
  "demo_heap = [1 \<mapsto> \<lparr>snext = 2, svalue = 10\<rparr>, 2 \<mapsto> \<lparr>snext = 3, svalue = 20\<rparr>, 3 \<mapsto> \<lparr>snext = 0, svalue = 20\<rparr>]"

theorem slist_search_extract_erase_witness:
  "slist_SearchNodeIf demo_heap (\<lambda>v. v = 20) 1 = Some 2 \<and> slist_GetSize demo_heap 1 = Some 3"
  using slist_search_extract_erase [of demo_heap 1 "[1, 2, 3]" "\<lambda>v. v = 20"]
  by (simp add: demo_heap_def)

text \<open>
  The copy constructor builds a list with the same values in the same order out of fresh nodes
  only, and copy assignment from a non-empty list to a non-empty one gives the left side the
  values of the right side, which keeps its own, whatever the two lengths.
\<close>
theorem slist_copy_assign:
  assumes a: "slist_at h p as" "as \<noteq> []" and b: "slist_at h q bs" "bs \<noteq> []" and disj: "set as \<inter> set bs = {}"
    and fr: "fresh_addrs h addrs" and len: "length bs \<le> length addrs"
  shows "(\<exists>h' p'. slist_copy h q addrs = Some (h', p') \<and> slist_at h' p' (take (length bs) addrs)
      \<and> vals h' (take (length bs) addrs) = vals h bs \<and> same_outside (set (take (length bs) addrs)) h h')
    \<and> (\<exists>h' as'. slist_assign h p False q addrs = Some (h', p) \<and> slist_at h' p as'
      \<and> vals h' as' = vals h bs \<and> slist_at h' q bs \<and> vals h' bs = vals h bs)"
  using slist_copy_at [OF b(1) fr len] slist_assign_at [OF a b disj fr] len by (meson diff_le_self order_trans)

theorem slist_copy_assign_witness:
  "\<exists>h' as'. slist_assign (demo_heap(7 \<mapsto> \<lparr>snext = 0, svalue = 5\<rparr>)) 7 False 1 [11, 12, 13] = Some (h', 7)
    \<and> slist_at h' 7 as' \<and> vals h' as' = [10, 20, 20]"
  using slist_copy_assign [of "demo_heap(7 \<mapsto> \<lparr>snext = 0, svalue = 5\<rparr>)" 7 "[7]" 1 "[1, 2, 3]" "[11, 12, 13]"]
  by (auto simp: demo_heap_def fresh_addrs_def)

text \<open>
  Copy assignment dereferences the null pointer when the right side is another, empty list,
  whether the left side is empty or not.
\<close>
theorem slist_assign_empty_undefined:
  "slist_assign h p False nullptr addrs = None"
  by (simp add: slist_assign_def slist_copy_def slist_overwrite.simps)

text \<open>
  \<open>Clear\<close> terminates on every well-formed list, frees every node of it and no other cell, and
  leaves the empty list.
\<close>
theorem slist_Clear_frees:
  assumes "slist_at h p as"
  shows "\<exists>h'. slist_Clear h p = Some (h', nullptr) \<and> (\<forall>a \<in> set as. h' a = None) \<and> same_outside (set as) h h'"
  by (rule slist_Clear_at [OF assms])

theorem slist_Clear_frees_witness:
  "\<exists>h'. slist_Clear demo_heap 1 = Some (h', nullptr) \<and> (\<forall>a \<in> set [1, 2, 3]. h' a = None)
    \<and> same_outside (set [1, 2, 3]) demo_heap h'"
  by (rule slist_Clear_frees) (simp add: demo_heap_def)

end
