(* ===== verification/Bucket.thy ===== *)
theory Bucket
  imports Prelude "HOL-Library.Multiset"
begin

text \<open>
  The interface between the two hash tables and their buckets. A hash table is an array of
  buckets; it finds, pushes and pulls out entries of one bucket by key. \<open>HashTable\<close> takes a
  singly linked list as bucket, \<open>TreeHashTable\<close> an AVL tree; what both rely on is the locale
  \<open>key_bucket\<close>, and what they conclude about an array of buckets is proved once in it.
\<close>

section \<open>Arrays of buckets\<close>

text \<open>All entries of an array of buckets, and that every entry is in the bucket of its index.\<close>

definition slots_mset :: "('b \<Rightarrow> 'v list) \<Rightarrow> 'b list \<Rightarrow> 'v multiset" where
  "slots_mset items slots = sum_list (map (\<lambda>b. mset (items b)) slots)"

definition hashed :: "('b \<Rightarrow> 'v list) \<Rightarrow> ('v \<Rightarrow> nat) \<Rightarrow> 'b list \<Rightarrow> bool" where
  "hashed items ix slots \<longleftrightarrow> (\<forall>i < length slots. \<forall>v \<in> set (items (slots ! i)). ix v = i)"

lemma slots_mset_simps [simp]:
  "slots_mset items [] = {#}"
  "slots_mset items (b # bs) = mset (items b) + slots_mset items bs"
  "slots_mset items (bs @ cs) = slots_mset items bs + slots_mset items cs"
  by (simp_all add: slots_mset_def)

lemma slots_mset_replicate [simp]: "items b = [] \<Longrightarrow> slots_mset items (replicate n b) = {#}"
  by (induction n) simp_all

lemma in_slots_mset: "v \<in># slots_mset items slots \<longleftrightarrow> (\<exists>i < length slots. v \<in> set (items (slots ! i)))"
proof (induction slots)
  case (Cons b bs)
  then show ?case by (auto simp: less_Suc_eq_0_disj)
qed simp

lemma slots_mset_update:
  "i < length slots \<Longrightarrow> slots_mset items (slots[i := b]) + mset (items (slots ! i)) = slots_mset items slots + mset (items b)"
proof (induction slots arbitrary: i)
  case (Cons c cs)
  then show ?case by (cases i) (auto simp: ac_simps)
qed simp

lemma slots_mset_add:
  assumes "i < length slots" and "mset (items b) = add_mset v (mset (items (slots ! i)))"
  shows "slots_mset items (slots[i := b]) = add_mset v (slots_mset items slots)"
proof -
  from slots_mset_update [OF assms(1), of items b]
  have "slots_mset items (slots[i := b]) + mset (items (slots ! i))
      = add_mset v (slots_mset items slots) + mset (items (slots ! i))"
    by (simp add: assms(2))
  then show ?thesis by (simp only: add_right_cancel)
qed

lemma slots_mset_remove:
  assumes "i < length slots" and "mset (items (slots ! i)) = add_mset v (mset (items b))"
  shows "slots_mset items slots = add_mset v (slots_mset items (slots[i := b]))"
proof -
  from slots_mset_update [OF assms(1), of items b]
  have "slots_mset items slots + mset (items b)
      = add_mset v (slots_mset items (slots[i := b])) + mset (items b)"
    by (simp add: assms(2))
  then show ?thesis by (simp only: add_right_cancel)
qed

lemma slots_mset_same:
  "i < length slots \<Longrightarrow> mset (items b) = mset (items (slots ! i)) \<Longrightarrow>
     slots_mset items (slots[i := b]) = slots_mset items slots"
  using slots_mset_update [of i slots items b] by simp

lemma hashedD: "hashed items ix slots \<Longrightarrow> i < length slots \<Longrightarrow> v \<in> set (items (slots ! i)) \<Longrightarrow> ix v = i"
  by (simp add: hashed_def)

lemma hashed_update:
  "hashed items ix slots \<Longrightarrow> (\<And>v. v \<in> set (items b) \<Longrightarrow> ix v = i) \<Longrightarrow> hashed items ix (slots[i := b])"
  unfolding hashed_def by (metis length_list_update nth_list_update_eq nth_list_update_neq)

lemma hashed_Nil [simp]: "hashed items ix []"
  by (simp add: hashed_def)

lemma hashed_replicate: "items b = [] \<Longrightarrow> hashed items ix (replicate n b)"
  by (simp add: hashed_def)

section \<open>The interface\<close>

text \<open>
  \<open>items\<close> lists the entries of a bucket, \<open>binv\<close> is its invariant, \<open>key\<close> the key of an entry.
  \<open>find\<close> looks an entry up, \<open>push\<close> adds one whose key is new, \<open>pull\<close> takes one out.
\<close>

locale key_bucket =
  fixes items :: "'b \<Rightarrow> 'v list"
    and binv :: "'b \<Rightarrow> bool"
    and key :: "'v \<Rightarrow> 'k"
    and find :: "'k \<Rightarrow> 'b \<Rightarrow> 'v option"
    and push :: "'v \<Rightarrow> 'b \<Rightarrow> 'b"
    and pull :: "'k \<Rightarrow> 'b \<Rightarrow> ('v \<times> 'b) option"
  assumes find_None: "binv b \<Longrightarrow> find k b = None \<longleftrightarrow> k \<notin> key ` set (items b)"
    and find_Some: "binv b \<Longrightarrow> find k b = Some v \<Longrightarrow> v \<in> set (items b) \<and> key v = k"
    and push_inv: "binv b \<Longrightarrow> key v \<notin> key ` set (items b) \<Longrightarrow> binv (push v b)"
    and push_items: "binv b \<Longrightarrow> key v \<notin> key ` set (items b) \<Longrightarrow>
          mset (items (push v b)) = add_mset v (mset (items b))"
    and pull_None: "binv b \<Longrightarrow> pull k b = None \<longleftrightarrow> k \<notin> key ` set (items b)"
    and pull_Some: "binv b \<Longrightarrow> pull k b = Some (v, b') \<Longrightarrow>
          binv b' \<and> key v = k \<and> mset (items b) = add_mset v (mset (items b'))"
begin

lemma push_set: "binv b \<Longrightarrow> key v \<notin> key ` set (items b) \<Longrightarrow> set (items (push v b)) = insert v (set (items b))"
  using push_items [of b v] by (metis set_mset_add_mset_insert set_mset_mset)

lemma pull_set: "binv b \<Longrightarrow> pull k b = Some (v, b') \<Longrightarrow> set (items b) = insert v (set (items b'))"
  using pull_Some [of b k v b'] by (metis set_mset_add_mset_insert set_mset_mset)

text \<open>Looking a key up in its bucket is looking it up in the whole array.\<close>

lemma key_in_slots:
  assumes h: "hashed items ix slots" and i: "i < length slots" and ix: "\<And>v. key v = k \<Longrightarrow> ix v = i"
  shows "k \<in> key ` set (items (slots ! i)) \<longleftrightarrow> (\<exists>v. v \<in># slots_mset items slots \<and> key v = k)"
proof
  assume "k \<in> key ` set (items (slots ! i))"
  with i show "\<exists>v. v \<in># slots_mset items slots \<and> key v = k" by (auto simp: in_slots_mset)
next
  assume "\<exists>v. v \<in># slots_mset items slots \<and> key v = k"
  then obtain v j where v: "j < length slots" "v \<in> set (items (slots ! j))" "key v = k"
    by (auto simp: in_slots_mset)
  with hashedD [OF h] ix have "j = i" by metis
  with v show "k \<in> key ` set (items (slots ! i))" by auto
qed

lemma find_in_slots:
  assumes h: "hashed items ix slots" and i: "i < length slots" and ix: "\<And>v. key v = k \<Longrightarrow> ix v = i"
    and inv: "binv (slots ! i)"
  shows "find k (slots ! i) = None \<longleftrightarrow> \<not> (\<exists>v. v \<in># slots_mset items slots \<and> key v = k)"
    and "find k (slots ! i) = Some v \<Longrightarrow> v \<in># slots_mset items slots \<and> key v = k"
  using find_None [OF inv, of k] key_in_slots [OF h i, of k] ix find_Some [OF inv, of k v] i
  by (auto simp: in_slots_mset)

lemma pull_in_slots_None:
  assumes h: "hashed items ix slots" and i: "i < length slots" and ix: "\<And>v. key v = k \<Longrightarrow> ix v = i"
    and inv: "binv (slots ! i)"
  shows "pull k (slots ! i) = None \<longleftrightarrow> \<not> (\<exists>v. v \<in># slots_mset items slots \<and> key v = k)"
  using pull_None [OF inv, of k] key_in_slots [OF h i, of k] ix by blast

lemma pull_in_slots:
  assumes h: "hashed items ix slots" and i: "i < length slots"
    and inv: "binv (slots ! i)" and e: "pull k (slots ! i) = Some (v, b')"
  shows "key v = k" and "binv b'"
    and "slots_mset items slots = add_mset v (slots_mset items (slots[i := b']))"
    and "hashed items ix (slots[i := b'])"
proof -
  show "hashed items ix (slots[i := b'])"
    using pull_set [OF inv e] hashedD [OF h i] by (intro hashed_update [OF h]) auto
  show "key v = k" and "binv b'" using pull_Some [OF inv e] by auto
  show "slots_mset items slots = add_mset v (slots_mset items (slots[i := b']))"
    using pull_Some [OF inv e] by (intro slots_mset_remove [OF i]) auto
qed

lemma push_in_slots:
  assumes h: "hashed items ix slots" and i: "i < length slots" and ix: "ix v = i"
    and inv: "binv (slots ! i)" and new: "key v \<notin> key ` set (items (slots ! i))"
  shows "slots_mset items (slots[i := push v (slots ! i)]) = add_mset v (slots_mset items slots)"
    and "hashed items ix (slots[i := push v (slots ! i)])" and "binv (push v (slots ! i))"
  using slots_mset_add [OF i push_items [OF inv new]] push_inv [OF inv new] push_set [OF inv new]
    hashedD [OF h i] ix
  by (auto intro!: hashed_update [OF h])

end

section \<open>Keys\<close>

text \<open>Entries with pairwise different keys, as a map.\<close>

definition unique_keys :: "('v \<Rightarrow> 'k) \<Rightarrow> 'v multiset \<Rightarrow> bool" where
  "unique_keys key M \<longleftrightarrow> (\<forall>k. size (filter_mset (\<lambda>v. key v = k) M) \<le> 1)"

lemma unique_keys_empty [simp]: "unique_keys key {#}"
  by (simp add: unique_keys_def)

lemma unique_keys_add:
  "unique_keys key (add_mset v M) \<longleftrightarrow> unique_keys key M \<and> (\<forall>w \<in># M. key w \<noteq> key v)"
proof
  assume u: "unique_keys key (add_mset v M)"
  have "size (filter_mset (\<lambda>w. key w = k) M) \<le> 1" for k
    by (rule order_trans [OF _ spec [OF u [unfolded unique_keys_def], of k]]) simp
  moreover have "filter_mset (\<lambda>w. key w = key v) M = {#}"
    using spec [OF u [unfolded unique_keys_def], of "key v"] by simp
  ultimately show "unique_keys key M \<and> (\<forall>w \<in># M. key w \<noteq> key v)"
    by (simp add: unique_keys_def)
next
  assume u: "unique_keys key M \<and> (\<forall>w \<in># M. key w \<noteq> key v)"
  then have "filter_mset (\<lambda>w. key w = key v) M = {#}" by simp
  with u show "unique_keys key (add_mset v M)"
    by (auto simp: unique_keys_def)
qed

lemma unique_keysD:
  assumes "unique_keys key M" and "v \<in># M" and "w \<in># M" and "key v = key w"
  shows "v = w"
proof -
  from assms(2) obtain N where N: "M = add_mset v N" by (metis insert_DiffM)
  with assms show ?thesis by (auto simp: unique_keys_add)
qed

definition entry_map :: "('v \<Rightarrow> 'k) \<Rightarrow> 'v multiset \<Rightarrow> 'k \<rightharpoonup> 'v" where
  "entry_map key M k = (if \<exists>v. v \<in># M \<and> key v = k then Some (THE v. v \<in># M \<and> key v = k) else None)"

lemma entry_map_Some:
  assumes "unique_keys key M" and "v \<in># M"
  shows "entry_map key M (key v) = Some v"
proof -
  have "(THE w. w \<in># M \<and> key w = key v) = v"
    using assms by (intro the_equality) (auto dest: unique_keysD)
  with assms(2) show ?thesis by (auto simp: entry_map_def)
qed

lemma entry_map_None: "entry_map key M k = None \<longleftrightarrow> (\<forall>v \<in># M. key v \<noteq> k)"
  by (auto simp: entry_map_def)

lemma entry_map_iff:
  assumes "unique_keys key M"
  shows "entry_map key M k = Some v \<longleftrightarrow> v \<in># M \<and> key v = k"
proof
  assume v: "entry_map key M k = Some v"
  then obtain w where w: "w \<in># M" "key w = k"
    by (metis entry_map_def option.distinct(1))
  with v entry_map_Some [OF assms w(1)] show "v \<in># M \<and> key v = k" by simp
next
  assume "v \<in># M \<and> key v = k"
  then show "entry_map key M k = Some v" using entry_map_Some [OF assms] by blast
qed

lemma entry_map_add:
  assumes "unique_keys key (add_mset v M)"
  shows "entry_map key (add_mset v M) = (entry_map key M)(key v \<mapsto> v)"
proof
  fix k
  have u: "unique_keys key M" using assms by (simp add: unique_keys_add)
  show "entry_map key (add_mset v M) k = ((entry_map key M)(key v \<mapsto> v)) k"
  proof (cases "entry_map key (add_mset v M) k")
    case None
    then have "\<forall>w \<in># add_mset v M. key w \<noteq> k" by (simp only: entry_map_None)
    then show ?thesis using None entry_map_None [of key M k] by auto
  next
    case (Some w)
    then have "w \<in># add_mset v M" "key w = k" using entry_map_iff [OF assms] by auto
    then show ?thesis using Some assms entry_map_iff [OF u, of k w]
      by (auto simp: unique_keys_add)
  qed
qed

lemma entry_map_remove:
  assumes "unique_keys key (add_mset v M)"
  shows "entry_map key M = (entry_map key (add_mset v M))(key v := None)"
proof -
  have "entry_map key M (key v) = None"
    using assms by (auto simp: entry_map_None unique_keys_add)
  then show ?thesis by (auto simp: entry_map_add [OF assms] fun_eq_iff)
qed

lemma entry_map_empty [simp]: "entry_map key {#} = Map.empty"
  by (auto simp: entry_map_def)

end
