(* ===== verification/Hash_Table.thy ===== *)
theory Hash_Table
  imports Bucket Slist_Refine
begin

text \<open>
  \<open>HashTable\<close> (\<open>algo/hash_table.h\<close>, \<open>algo/internal/hash_table_impl.h\<close>): two tables of buckets,
  the second one used only while the entries move from the first to it, one bucket with every
  operation. A bucket is given by its sequence of values from the header on; the refinement
  lemmas of \<open>Slist_Refine\<close> are what allows this, and the lemmas on slots below connect the two.
  The hash function, the key extractor and the success of the allocations are parameters.
\<close>

section \<open>Exceptions and buckets\<close>

text \<open>\<open>Inl bad_alloc\<close> is the exception an array throws; its state change, if any, is kept.\<close>

datatype exn = bad_alloc

type_synonym 'v slot = "'v list"

text \<open>The operations of \<open>Slist\<close> the table uses, on sequences.\<close>

definition slot_EmplaceFrontNode :: "'v \<Rightarrow> 'v slot \<Rightarrow> 'v slot" where
  "slot_EmplaceFrontNode v s = v # s"

text \<open>
  \<open>EmplaceFront\<close> creates the node first. \<open>CreateNode\<close> does not look at what \<open>malloc\<close> returns: when
  there is no memory for the node (\<open>node\<close> is false) it constructs the value at a null address.
\<close>

definition slot_EmplaceFront :: "bool \<Rightarrow> 'v \<Rightarrow> 'v slot \<Rightarrow> 'v slot option" where
  "slot_EmplaceFront node v s = (if node then Some (slot_EmplaceFrontNode v s) else None)"

fun slot_SearchIf :: "('v \<Rightarrow> bool) \<Rightarrow> 'v slot \<Rightarrow> 'v option" where
  "slot_SearchIf pred [] = None"
| "slot_SearchIf pred (v # s) = (if pred v then Some v else slot_SearchIf pred s)"

fun slot_ExtractNodeIf :: "('v \<Rightarrow> bool) \<Rightarrow> 'v slot \<Rightarrow> ('v \<times> 'v slot) option" where
  "slot_ExtractNodeIf pred [] = None"
| "slot_ExtractNodeIf pred (v # s) =
     (if pred v then Some (v, s) else map_option (apsnd ((#) v)) (slot_ExtractNodeIf pred s))"

text \<open>They are the operations on nodes.\<close>

lemma vals_before_after:
  assumes "\<exists>v \<in> set (vals h as). pred v"
  shows "slot_ExtractNodeIf pred (vals h as) =
    Some (svalue (the (h (first_node h pred as))), vals h (before_node h pred as @ after_node h pred as))"
  using assms by (induction as) auto

lemma slot_ExtractNodeIf_refines:
  assumes "slist_at h p as" and "slist_ExtractNodeIf h p pred = Some ((h', p'), ret)"
  shows "case slot_ExtractNodeIf pred (vals h as) of
      None \<Rightarrow> ret = nullptr \<and> h' = h \<and> slist_at h' p' as
    | Some (v, s) \<Rightarrow> svalue (the (h' ret)) = v \<and>
        (\<exists>as'. slist_at h' p' as' \<and> vals h' as' = s)"
proof -
  from slist_ExtractNodeIf_at [OF assms(1), of pred] assms(2) have e: "extracted h as pred h' p' ret" by auto
  show ?thesis
  proof (cases "\<exists>v \<in> set (vals h as). pred v")
    case True
    then show ?thesis
      using e vals_before_after [OF True] unfolding extracted_def by auto
  next
    case False
    then have "slot_ExtractNodeIf pred (vals h as) = None" by (induction as) auto
    with e False first_node_none [of h as pred] show ?thesis by (auto simp: extracted_def)
  qed
qed

lemma slot_SearchIf_refines:
  assumes "slist_at h p as"
  shows "\<exists>q. slist_SearchNodeIf h pred p = Some q
    \<and> slot_SearchIf pred (vals h as) = (if q = nullptr then None else Some (svalue (the (h q))))"
proof -
  have "slot_SearchIf pred (vals h as) =
      (if first_node h pred as = nullptr then None else Some (svalue (the (h (first_node h pred as)))))"
    if "\<forall>a \<in> set as. a \<noteq> nullptr" for as
    using that by (induction as) auto
  with slist_SearchNodeIf_at [OF assms] slist_at_dom [OF assms] show ?thesis by auto
qed

section \<open>Tables\<close>

record 'v Table =
  table :: "'v slot list"
  used :: size_t
  size_mask :: size_t

definition Table_init :: "'v Table" where
  "Table_init = \<lparr>table = [], used = 0, size_mask = 0 - 1\<rparr>"

text \<open>The constructor: \<open>table(0)\<close> allocates an array of no buckets, and throws when it gets no memory.\<close>

definition Table_new :: "bool \<Rightarrow> exn + 'v Table" where
  "Table_new ok = (if ok then Inr Table_init else Inl bad_alloc)"

definition Table_size :: "'v Table \<Rightarrow> size_t" where
  "Table_size t = of_nat (length (table t))"

text \<open>\<open>ReservedArray::operator[]\<close> asserts its bound.\<close>

definition table_at :: "'v Table \<Rightarrow> size_t \<Rightarrow> 'v slot option" where
  "table_at t i = (if unat i < length (table t) then Some (table t ! unat i) else None)"

definition table_set :: "'v Table \<Rightarrow> size_t \<Rightarrow> 'v slot \<Rightarrow> 'v Table" where
  "table_set t i s = t\<lparr>table := (table t)[unat i := s]\<rparr>"

text \<open>\<open>Grow\<close> default-constructs the new buckets; it throws when the reallocation fails.\<close>

definition Table_Grow :: "bool \<Rightarrow> size_t \<Rightarrow> 'v Table \<Rightarrow> exn + 'v Table" where
  "Table_Grow ok n t =
     (if n \<le> Table_size t then Inr (t\<lparr>size_mask := Table_size t - 1\<rparr>)
      else if \<not> ok then Inl bad_alloc
      else Inr (t\<lparr>table := table t @ replicate (unat n - length (table t)) [], size_mask := n - 1\<rparr>))"

text \<open>
  Shrinking to a size that is not smaller does nothing. Otherwise it destroys the surplus buckets
  and reallocates the array, which throws when it gets no memory, unless no bucket is to be left.
  After the exception the destroyed buckets are still counted: there is no table to go on with.
\<close>

definition Table_cut :: "size_t \<Rightarrow> 'v Table \<Rightarrow> 'v Table" where
  "Table_cut n t =
     (if Table_size t \<le> n then t\<lparr>size_mask := Table_size t - 1\<rparr>
      else t\<lparr>table := take (unat n) (table t), size_mask := n - 1\<rparr>)"

definition Table_Shrink :: "bool \<Rightarrow> size_t \<Rightarrow> 'v Table \<Rightarrow> exn + 'v Table" where
  "Table_Shrink ok n t =
     (if n < Table_size t \<and> n \<noteq> 0 \<and> \<not> ok then Inl bad_alloc else Inr (Table_cut n t))"

lemma Table_Shrink_simps [simp]: "Table_Shrink True n t = Inr (Table_cut n t)" "Table_Shrink ok 0 t = Inr (Table_cut 0 t)"
  by (simp_all add: Table_Shrink_def)

text \<open>\<open>Reset\<close> shrinks to nothing, which never throws.\<close>

definition Table_Reset :: "'v Table \<Rightarrow> 'v Table" where
  "Table_Reset t = Table_cut 0 t"

lemma Shrink_0: "Table_Shrink ok 0 t = Inr (Table_Reset t)"
  by (simp add: Table_Reset_def)

text \<open>\<open>swap\<close> exchanges everything but \<open>used\<close>.\<close>

definition Table_swap :: "'v Table \<Rightarrow> 'v Table \<Rightarrow> 'v Table \<times> 'v Table" where
  "Table_swap t other =
     (t\<lparr>table := table other, size_mask := size_mask other\<rparr>,
      other\<lparr>table := table t, size_mask := size_mask t\<rparr>)"

section \<open>The hash table\<close>

record 'v HashTable =
  table1 :: "'v Table"
  table2 :: "'v Table"
  rehash_move_bucket_index :: size_t

text \<open>The constructor makes the two tables and grows the first; \<open>ok\<close> says that its allocations succeed.\<close>

definition HashTable_new :: "bool \<Rightarrow> exn + 'v HashTable" where
  "HashTable_new ok =
     (case Table_new ok of
        Inl e \<Rightarrow> Inl e
      | Inr t1 \<Rightarrow>
          (case Table_new ok of
             Inl e \<Rightarrow> Inl e
           | Inr t2 \<Rightarrow>
               (case Table_Grow ok 4 t1 of
                  Inl e \<Rightarrow> Inl e
                | Inr t1 \<Rightarrow> Inr \<lparr>table1 = t1, table2 = t2, rehash_move_bucket_index = 0 - 1\<rparr>)))"

definition HashTable_size :: "'v HashTable \<Rightarrow> size_t" where
  "HashTable_size ht = used (table1 ht)"

definition HashTable_empty :: "'v HashTable \<Rightarrow> bool" where
  "HashTable_empty ht \<longleftrightarrow> HashTable_size ht = 0"

definition HashTable_max_size :: size_t where
  "HashTable_max_size = - 1"

definition InRehashing :: "'v HashTable \<Rightarrow> bool" where
  "InRehashing ht \<longleftrightarrow> rehash_move_bucket_index ht \<noteq> 0 - 1"

definition bucket_index :: "'v Table \<Rightarrow> u64 \<Rightarrow> size_t" where
  "bucket_index t hash_val = hash_val AND size_mask t"

definition Rehash :: "bool \<Rightarrow> 'v HashTable \<Rightarrow> exn + 'v HashTable" where
  "Rehash ok ht =
     (if \<not> InRehashing ht \<and> used (table1 ht) \<ge> Table_size (table1 ht) then
        (case Table_Grow ok (push_bit 1 (Table_size (table1 ht))) (table2 ht) of
           Inl e \<Rightarrow> Inl e
         | Inr t2 \<Rightarrow> Inr (ht\<lparr>table2 := t2, rehash_move_bucket_index := 0\<rparr>))
      else Inr ht)"

text \<open>The loop that moves the nodes of a bucket, front first, to the second table.\<close>

fun move_bucket :: "('k \<Rightarrow> u64) \<Rightarrow> ('v \<Rightarrow> 'k) \<Rightarrow> 'v slot \<Rightarrow> 'v Table \<Rightarrow> 'v Table option" where
  "move_bucket HF GK [] t2 = Some t2"
| "move_bucket HF GK (v # bucket1) t2 = do {
     let i = bucket_index t2 (HF (GK v));
     s \<leftarrow> table_at t2 i;
     move_bucket HF GK bucket1 (table_set t2 i (slot_EmplaceFrontNode v s)) }"

definition finish_rehash :: "'v HashTable \<Rightarrow> 'v HashTable" where
  "finish_rehash ht =
     (if rehash_move_bucket_index ht = Table_size (table1 ht) then
        (let ht = ht\<lparr>rehash_move_bucket_index := 0 - 1\<rparr> in
         if table (table2 ht) \<noteq> [] then
           (case Table_swap (table1 ht) (table2 ht) of
              (t1, t2) \<Rightarrow> ht\<lparr>table1 := t1, table2 := Table_Reset t2\<rparr>)
         else ht)
      else ht)"

definition IncrementalRehash :: "('k \<Rightarrow> u64) \<Rightarrow> ('v \<Rightarrow> 'k) \<Rightarrow> 'v HashTable \<Rightarrow> 'v HashTable option" where
  "IncrementalRehash HF GK ht =
     (if \<not> InRehashing ht then Some ht
      else do {
        let i = rehash_move_bucket_index ht;
        bucket1 \<leftarrow> table_at (table1 ht) i;
        t2 \<leftarrow> move_bucket HF GK bucket1 (table2 ht);
        let ht = ht\<lparr>table1 := table_set (table1 ht) i [], table2 := t2,
                     rehash_move_bucket_index := i + 1\<rparr>;
        Some (finish_rehash ht) })"

text \<open>
  \<open>InsertWithDuplicate\<close>: the result is the returned flag with the entry \<open>duplicate\<close> points to. Two
  allocations may fail: \<open>ok\<close> is the one of the buckets for a rehash, \<open>node\<close> the one of the node.
\<close>

definition insert_front ::
    "bool \<Rightarrow> bool \<Rightarrow> size_t \<Rightarrow> 'v slot \<Rightarrow> 'v \<Rightarrow> 'v HashTable \<Rightarrow> ((exn + bool \<times> 'v) \<times> 'v HashTable) option" where
  "insert_front node second i bucket elem ht = do {
     s \<leftarrow> slot_EmplaceFront node elem bucket;
     let ht = (if second then ht\<lparr>table2 := table_set (table2 ht) i s\<rparr>
               else ht\<lparr>table1 := table_set (table1 ht) i s\<rparr>);
     Some (Inr (True, elem), ht\<lparr>table1 := (table1 ht)\<lparr>used := used (table1 ht) + 1\<rparr>\<rparr>) }"

definition GetDuplicate :: "('v \<Rightarrow> 'k) \<Rightarrow> 'v \<Rightarrow> 'v slot \<Rightarrow> 'v option" where
  [simp]: "GetDuplicate GK elem bucket = slot_SearchIf (\<lambda>val. GK elem = GK val) bucket"

definition CheckDuplicate :: "('v \<Rightarrow> 'k) \<Rightarrow> 'v \<Rightarrow> 'v slot \<Rightarrow> bool" where
  "CheckDuplicate GK elem bucket \<longleftrightarrow> GetDuplicate GK elem bucket \<noteq> None"

definition insert_checked ::
    "bool \<Rightarrow> ('k \<Rightarrow> u64) \<Rightarrow> ('v \<Rightarrow> 'k) \<Rightarrow> 'v \<Rightarrow> 'v HashTable \<Rightarrow> ((exn + bool \<times> 'v) \<times> 'v HashTable) option" where
  "insert_checked node HF GK elem ht = do {
     let hash_val = HF (GK elem);
     let bucket_index1 = bucket_index (table1 ht) hash_val;
     let duplicate_in = GetDuplicate GK elem;
     (if \<not> InRehashing ht then do {
        bucket \<leftarrow> table_at (table1 ht) bucket_index1;
        (case duplicate_in bucket of
           Some d \<Rightarrow> Some (Inr (False, d), ht)
         | None \<Rightarrow> insert_front node False bucket_index1 bucket elem ht) }
      else do {
        let bucket_index2 = bucket_index (table2 ht) hash_val;
        (if rehash_move_bucket_index ht > bucket_index1 then do {
           bucket \<leftarrow> table_at (table2 ht) bucket_index2;
           (case duplicate_in bucket of
              Some d \<Rightarrow> Some (Inr (False, d), ht)
            | None \<Rightarrow> insert_front node True bucket_index2 bucket elem ht) }
         else do {
           bucket \<leftarrow> table_at (table1 ht) bucket_index1;
           (case duplicate_in bucket of
              Some d \<Rightarrow> Some (Inr (False, d), ht)
            | None \<Rightarrow> do {
                bucket \<leftarrow> table_at (table2 ht) bucket_index2;
                (case duplicate_in bucket of
                   Some d \<Rightarrow> Some (Inr (False, d), ht)
                 | None \<Rightarrow> insert_front node True bucket_index2 bucket elem ht) }) }) }) }"

definition InsertWithDuplicate ::
    "bool \<Rightarrow> bool \<Rightarrow> ('k \<Rightarrow> u64) \<Rightarrow> ('v \<Rightarrow> 'k) \<Rightarrow> 'v \<Rightarrow> 'v HashTable \<Rightarrow> ((exn + bool \<times> 'v) \<times> 'v HashTable) option" where
  "InsertWithDuplicate ok node HF GK elem ht =
     (case Rehash ok ht of
        Inl e \<Rightarrow> Some (Inl e, ht)
      | Inr ht \<Rightarrow> do {
          ht \<leftarrow> IncrementalRehash HF GK ht;
          insert_checked node HF GK elem ht })"

definition Insert ::
    "bool \<Rightarrow> bool \<Rightarrow> ('k \<Rightarrow> u64) \<Rightarrow> ('v \<Rightarrow> 'k) \<Rightarrow> 'v \<Rightarrow> 'v HashTable \<Rightarrow> ((exn + 'v option) \<times> 'v HashTable) option" where
  "Insert ok node HF GK elem ht = do {
     (r, ht) \<leftarrow> InsertWithDuplicate ok node HF GK elem ht;
     Some (map_sum id (\<lambda>(inserted, e). if inserted then Some e else None) r, ht) }"

text \<open>
  \<open>FindSlot\<close> moves the entry it finds to the front of its bucket and returns where that is: the
  table and the bucket. The loop tries the first table, then, while rehashing, the second.
\<close>

definition find_in_table ::
    "('k \<Rightarrow> u64) \<Rightarrow> ('v \<Rightarrow> 'k) \<Rightarrow> 'k \<Rightarrow> 'v Table \<Rightarrow> (size_t \<times> 'v Table) option option" where
  "find_in_table HF GK k t = do {
     let i = bucket_index t (HF k);
     bucket \<leftarrow> table_at t i;
     Some (case slot_ExtractNodeIf (\<lambda>value. GK value = k) bucket of
             None \<Rightarrow> None
           | Some (v, rest) \<Rightarrow> Some (i, table_set t i (slot_EmplaceFrontNode v rest))) }"

definition FindSlot ::
    "('k \<Rightarrow> u64) \<Rightarrow> ('v \<Rightarrow> 'k) \<Rightarrow> 'k \<Rightarrow> 'v HashTable \<Rightarrow> ((bool \<times> size_t) option \<times> 'v HashTable) option" where
  "FindSlot HF GK k ht = do {
     ht \<leftarrow> IncrementalRehash HF GK ht;
     r1 \<leftarrow> find_in_table HF GK k (table1 ht);
     (case r1 of
        Some (i, t1) \<Rightarrow> Some (Some (False, i), ht\<lparr>table1 := t1\<rparr>)
      | None \<Rightarrow>
          (if \<not> InRehashing ht then Some (None, ht)
           else do {
             r2 \<leftarrow> find_in_table HF GK k (table2 ht);
             (case r2 of
                Some (i, t2) \<Rightarrow> Some (Some (True, i), ht\<lparr>table2 := t2\<rparr>)
              | None \<Rightarrow> Some (None, ht)) })) }"

definition slot_of :: "bool \<times> size_t \<Rightarrow> 'v HashTable \<Rightarrow> 'v slot option" where
  "slot_of p ht = table_at (if fst p then table2 ht else table1 ht) (snd p)"

definition Find :: "('k \<Rightarrow> u64) \<Rightarrow> ('v \<Rightarrow> 'k) \<Rightarrow> 'k \<Rightarrow> 'v HashTable \<Rightarrow> ('v option \<times> 'v HashTable) option" where
  "Find HF GK k ht = do {
     (p, ht) \<leftarrow> FindSlot HF GK k ht;
     (case p of
        None \<Rightarrow> Some (None, ht)
      | Some p \<Rightarrow> do {
          s \<leftarrow> slot_of p ht;
          (case s of [] \<Rightarrow> None | v # _ \<Rightarrow> Some (Some v, ht)) }) }"

text \<open>\<open>EraseAfterFindSlot\<close> drops the front node of the slot; the count is not adjusted.\<close>

definition EraseAfterFindSlot :: "bool \<times> size_t \<Rightarrow> 'v HashTable \<Rightarrow> 'v HashTable option" where
  "EraseAfterFindSlot p ht = do {
     s \<leftarrow> slot_of p ht;
     (case s of
        [] \<Rightarrow> None
      | _ # rest \<Rightarrow>
          Some (if fst p then ht\<lparr>table2 := table_set (table2 ht) (snd p) rest\<rparr>
                else ht\<lparr>table1 := table_set (table1 ht) (snd p) rest\<rparr>)) }"

definition extract_from_table ::
    "('k \<Rightarrow> u64) \<Rightarrow> ('v \<Rightarrow> 'k) \<Rightarrow> 'k \<Rightarrow> 'v Table \<Rightarrow> ('v \<times> 'v Table) option option" where
  "extract_from_table HF GK k t = do {
     let i = bucket_index t (HF k);
     bucket \<leftarrow> table_at t i;
     Some (case slot_ExtractNodeIf (\<lambda>value. GK value = k) bucket of
             None \<Rightarrow> None
           | Some (v, rest) \<Rightarrow> Some (v, table_set t i rest)) }"

definition Extract :: "('k \<Rightarrow> u64) \<Rightarrow> ('v \<Rightarrow> 'k) \<Rightarrow> 'k \<Rightarrow> 'v HashTable \<Rightarrow> ('v option \<times> 'v HashTable) option" where
  "Extract HF GK k ht = do {
     ht \<leftarrow> IncrementalRehash HF GK ht;
     let dec = (\<lambda>ht. ht\<lparr>table1 := (table1 ht)\<lparr>used := used (table1 ht) - 1\<rparr>\<rparr>);
     r1 \<leftarrow> extract_from_table HF GK k (table1 ht);
     (case r1 of
        Some (v, t1) \<Rightarrow> Some (Some v, dec (ht\<lparr>table1 := t1\<rparr>))
      | None \<Rightarrow>
          (if \<not> InRehashing ht then Some (None, ht)
           else do {
             r2 \<leftarrow> extract_from_table HF GK k (table2 ht);
             (case r2 of
                Some (v, t2) \<Rightarrow> Some (Some v, dec (ht\<lparr>table2 := t2\<rparr>))
              | None \<Rightarrow> Some (None, ht)) })) }"

definition Erase :: "('k \<Rightarrow> u64) \<Rightarrow> ('v \<Rightarrow> 'k) \<Rightarrow> 'k \<Rightarrow> 'v HashTable \<Rightarrow> (nat \<times> 'v HashTable) option" where
  "Erase HF GK k ht = do {
     (node, ht) \<leftarrow> Extract HF GK k ht;
     (case node of None \<Rightarrow> Some (0, ht) | Some _ \<Rightarrow> Some (1, ht)) }"

text \<open>\<open>Clear\<close> keeps the first four buckets and empties them; it passes the exceptions of \<open>Shrink\<close> on.\<close>

definition Clear :: "bool \<Rightarrow> 'v HashTable \<Rightarrow> (exn + 'v HashTable) option" where
  "Clear ok ht =
     (case Table_Shrink ok 4 (table1 ht) of
        Inl e \<Rightarrow> Some (Inl e)
      | Inr t1 \<Rightarrow> do {
          (if length (table t1) < 4 then None else Some ());
          let t1 = t1\<lparr>table := replicate 4 [] @ drop 4 (table t1), used := 0\<rparr>;
          (case (if InRehashing ht then Table_Shrink ok 0 (table2 ht) else Inr (table2 ht)) of
             Inl e \<Rightarrow> Some (Inl e)
           | Inr t2 \<Rightarrow> Some (Inr \<lparr>table1 = t1, table2 = t2, rehash_move_bucket_index = 0 - 1\<rparr>)) })"

text \<open>
  \<open>Clone\<close> pushes the values of every bucket to the front of the bucket with the same index. While
  the source is rehashing it hashes the value itself, not its key, for the entries that have
  not moved: \<open>HV\<close> is the hash function at the type of values.
\<close>

fun clone_bucket :: "bool \<Rightarrow> 'v slot \<Rightarrow> 'v slot \<Rightarrow> 'v slot option" where
  "clone_bucket node [] lst = Some lst"
| "clone_bucket node (v # olst) lst = do { lst \<leftarrow> slot_EmplaceFront node v lst; clone_bucket node olst lst }"

fun clone_buckets :: "bool \<Rightarrow> nat \<Rightarrow> 'v slot list \<Rightarrow> 'v Table \<Rightarrow> 'v Table option" where
  "clone_buckets node i [] t = Some t"
| "clone_buckets node i (olst # olsts) t = do {
     lst \<leftarrow> table_at t (of_nat i);
     lst \<leftarrow> clone_bucket node olst lst;
     clone_buckets node (Suc i) olsts (table_set t (of_nat i) lst) }"

fun clone_hashed :: "bool \<Rightarrow> ('v \<Rightarrow> u64) \<Rightarrow> 'v slot \<Rightarrow> 'v Table \<Rightarrow> 'v Table option" where
  "clone_hashed node HV [] t = Some t"
| "clone_hashed node HV (v # olst) t = do {
     let i = bucket_index t (HV v);
     lst \<leftarrow> table_at t i;
     lst \<leftarrow> slot_EmplaceFront node v lst;
     clone_hashed node HV olst (table_set t i lst) }"

definition Clone :: "bool \<Rightarrow> bool \<Rightarrow> ('v \<Rightarrow> u64) \<Rightarrow> 'v HashTable \<Rightarrow> 'v HashTable \<Rightarrow> (exn + 'v HashTable) option" where
  "Clone ok node HV this ht =
     (let source = (if InRehashing ht then table2 ht else table1 ht) in
      case Table_Grow ok (Table_size source) (table1 this) of
        Inl e \<Rightarrow> Some (Inl e)
      | Inr t \<Rightarrow> do {
          t \<leftarrow> clone_buckets node 0 (table source) t;
          t \<leftarrow> (if InRehashing ht
                then clone_hashed node HV (concat (drop (unat (rehash_move_bucket_index ht)) (table (table1 ht)))) t
                else Some t);
          Some (Inr (this\<lparr>table1 := t\<lparr>used := used (table1 ht)\<rparr>\<rparr>)) })"

end
