(* ===== verification/Hash_Table_Inv.thy ===== *)
theory Hash_Table_Inv
  imports Hash_Table
begin

text \<open>
  The invariant of \<open>HashTable\<close> and the correctness of its operations: the table is a map from
  keys to entries, whatever the phase of the incremental rehash, every operation is defined
  (no index out of range), and the number of entries is bounded by the number of buckets.
\<close>

section \<open>The bucket is a list\<close>

lemma slot_SearchIf_None: "slot_SearchIf pred s = None \<longleftrightarrow> (\<forall>v \<in> set s. \<not> pred v)"
  by (induction s) auto

lemma slot_SearchIf_Some: "slot_SearchIf pred s = Some v \<Longrightarrow> v \<in> set s \<and> pred v"
  by (induction s) (auto split: if_splits)

lemma slot_ExtractNodeIf_None: "slot_ExtractNodeIf pred s = None \<longleftrightarrow> (\<forall>v \<in> set s. \<not> pred v)"
  by (induction s) auto

lemma slot_ExtractNodeIf_Some:
  "slot_ExtractNodeIf pred s = Some (v, s') \<Longrightarrow> pred v \<and> mset s = add_mset v (mset s')"
  by (induction s arbitrary: s') (auto split: if_splits)

interpretation slot: key_bucket "\<lambda>b. b" "\<lambda>_. True" GK "\<lambda>k. slot_SearchIf (\<lambda>v. GK v = k)"
    slot_EmplaceFrontNode "\<lambda>k. slot_ExtractNodeIf (\<lambda>v. GK v = k)"
  for GK :: "'v \<Rightarrow> 'k"
  by unfold_locales
    (auto simp: slot_SearchIf_None slot_ExtractNodeIf_None slot_EmplaceFrontNode_def
      dest: slot_SearchIf_Some slot_ExtractNodeIf_Some)

section \<open>The invariant\<close>

definition slots_entries :: "'v Table \<Rightarrow> 'v multiset" where
  "slots_entries t = slots_mset (\<lambda>b. b) (table t)"

definition entries :: "'v HashTable \<Rightarrow> 'v multiset" where
  "entries ht = slots_entries (table1 ht) + slots_entries (table2 ht)"

text \<open>The abstraction: the entry of a key.\<close>

definition ht_map :: "('v \<Rightarrow> 'k) \<Rightarrow> 'v HashTable \<Rightarrow> 'k \<rightharpoonup> 'v" where
  "ht_map GK ht = entry_map GK (entries ht)"

definition table_ok :: "('k \<Rightarrow> u64) \<Rightarrow> ('v \<Rightarrow> 'k) \<Rightarrow> 'v Table \<Rightarrow> bool" where
  "table_ok HF GK t \<longleftrightarrow>
     (\<exists>k. 2 \<le> k \<and> k \<le> 60 \<and> length (table t) = 2 ^ k) \<and> size_mask t = Table_size t - 1
   \<and> hashed (\<lambda>b. b) (\<lambda>v. unat (HF (GK v)) mod length (table t)) (table t)"

text \<open>The number of entries the table may hold in its phase.\<close>

definition room :: "'v HashTable \<Rightarrow> nat" where
  "room ht = length (table (table1 ht)) + (if InRehashing ht then unat (rehash_move_bucket_index ht) else 0)"

definition ht_inv :: "('k \<Rightarrow> u64) \<Rightarrow> ('v \<Rightarrow> 'k) \<Rightarrow> 'v HashTable \<Rightarrow> bool" where
  "ht_inv HF GK ht \<longleftrightarrow>
     table_ok HF GK (table1 ht) \<and> unique_keys GK (entries ht)
   \<and> unat (used (table1 ht)) = size (entries ht) \<and> size (entries ht) \<le> room ht
   \<and> (if InRehashing ht then
        table_ok HF GK (table2 ht) \<and> length (table (table2 ht)) = 2 * length (table (table1 ht))
        \<and> unat (rehash_move_bucket_index ht) < length (table (table1 ht))
        \<and> (\<forall>i < unat (rehash_move_bucket_index ht). table (table1 ht) ! i = [])
      else table (table2 ht) = [])"

section \<open>Indices\<close>

lemma unat_and_mask: "k < 64 \<Longrightarrow> unat ((h :: u64) AND (of_nat (2 ^ k) - 1)) = unat h mod 2 ^ k"
proof -
  assume k: "k < 64"
  have m: "(of_nat (2 ^ k) - 1 :: u64) = mask k"
    by (simp add: mask_eq_exp_minus_1)
  have "unat (h AND mask k) = take_bit k (unat h)"
    unfolding take_bit_eq_mask [symmetric] by (rule unsigned_take_bit_eq)
  then show ?thesis unfolding m by (simp only: take_bit_eq_mod)
qed

lemma table_ok_index:
  assumes "table_ok HF GK t"
  shows "unat (bucket_index t h) = unat h mod length (table t)"
    and "unat (bucket_index t h) < length (table t)"
proof -
  from assms obtain k where k: "k \<le> 60" "length (table t) = 2 ^ k" "size_mask t = of_nat (2 ^ k) - 1"
    by (auto simp: table_ok_def Table_size_def)
  show 1: "unat (bucket_index t h) = unat h mod length (table t)"
    unfolding bucket_index_def k(2,3) using k(1) by (intro unat_and_mask) simp
  show "unat (bucket_index t h) < length (table t)" unfolding 1 by (simp add: k(2))
qed

lemma table_ok_length: "table_ok HF GK t \<Longrightarrow> 4 \<le> length (table t) \<and> length (table t) \<le> 2 ^ 60"
proof -
  assume "table_ok HF GK t"
  then obtain k where k: "2 \<le> k" "k \<le> 60" "length (table t) = 2 ^ k" by (auto simp: table_ok_def)
  have "(2::nat) ^ 2 \<le> 2 ^ k" by (rule power_increasing) (use k in auto)
  moreover have "(2::nat) ^ k \<le> 2 ^ 60" by (rule power_increasing) (use k in auto)
  ultimately show ?thesis unfolding k(3) by simp
qed

lemma table_ok_at:
  "table_ok HF GK t \<Longrightarrow> table_at t (bucket_index t h) = Some (table t ! (unat h mod length (table t)))"
  using table_ok_index [of HF GK t h] by (simp add: table_at_def)

text \<open>Replacing one bucket by another with entries that belong there.\<close>

lemma table_ok_set:
  assumes ok: "table_ok HF GK t" and "\<And>v. v \<in> set s \<Longrightarrow> unat (HF (GK v)) mod length (table t) = unat i"
  shows "table_ok HF GK (table_set t i s)"
  using assms hashed_update [where items = "\<lambda>b. b" and b = s]
  by (auto simp: table_ok_def table_set_def Table_size_def)

lemma table_set_simps [simp]:
  "length (table (table_set t i s)) = length (table t)" "used (table_set t i s) = used t"
  "size_mask (table_set t i s) = size_mask t" "table (table_set t i s) = (table t)[unat i := s]"
  by (simp_all add: table_set_def)

lemma table_ok_hashed:
  "table_ok HF GK t \<Longrightarrow> hashed (\<lambda>b. b) (\<lambda>v. unat (HF (GK v)) mod length (table t)) (table t)"
  by (simp add: table_ok_def)

text \<open>The key of an entry decides its bucket.\<close>

lemma key_in_table:
  assumes "table_ok HF GK t"
  shows "(\<exists>v \<in> set (table t ! (unat (HF k) mod length (table t))). GK v = k) \<longleftrightarrow> (\<exists>v. v \<in># slots_entries t \<and> GK v = k)"
proof -
  have "unat (HF k) mod length (table t) < length (table t)"
    using table_ok_length [OF assms] by (intro mod_less_divisor) auto
  from slot.key_in_slots [OF table_ok_hashed [OF assms] this, of GK k] show ?thesis
    unfolding slots_entries_def by auto
qed

section \<open>Moving buckets\<close>

lemma slots_entries_set:
  assumes "unat i < length (table t)" and "mset s = add_mset v (mset (table t ! unat i))"
  shows "slots_entries (table_set t i s) = add_mset v (slots_entries t)"
  using slots_mset_add [OF assms(1), of "\<lambda>b. b" s v] assms(2) by (simp add: slots_entries_def)

lemma move_bucket_ok:
  "table_ok HF GK t2 \<Longrightarrow> \<exists>t2'. move_bucket HF GK b t2 = Some t2' \<and> table_ok HF GK t2'
     \<and> length (table t2') = length (table t2) \<and> used t2' = used t2
     \<and> slots_entries t2' = mset b + slots_entries t2"
proof (induction b arbitrary: t2)
  case Nil
  then show ?case by simp
next
  case (Cons v b)
  let ?i = "bucket_index t2 (HF (GK v))"
  let ?s = "table t2 ! unat ?i"
  note ix = table_ok_index [OF Cons.prems, of "HF (GK v)"]
  have "table_ok HF GK (table_set t2 ?i (slot_EmplaceFrontNode v ?s))"
    using hashedD [OF table_ok_hashed [OF Cons.prems] ix(2)] ix(1)
    by (intro table_ok_set [OF Cons.prems]) (auto simp: slot_EmplaceFrontNode_def)
  moreover have "slots_entries (table_set t2 ?i (slot_EmplaceFrontNode v ?s)) = add_mset v (slots_entries t2)"
    using ix(2) by (intro slots_entries_set) (auto simp: slot_EmplaceFrontNode_def)
  ultimately show ?case
    using Cons.IH [of "table_set t2 ?i (slot_EmplaceFrontNode v ?s)"] ix
    by (auto simp: table_at_def Let_def)
qed

lemma slots_entries_clear:
  assumes "unat i < length (table t)"
  shows "mset (table t ! unat i) + slots_entries (table_set t i []) = slots_entries t"
  using slots_mset_update [OF assms, of "\<lambda>b. b" "[]"] by (simp add: slots_entries_def add.commute)

text \<open>A table all of whose buckets are empty.\<close>

lemma slots_mset_empty: "(\<forall>i < length bs. bs ! i = []) \<Longrightarrow> slots_mset (\<lambda>b. b) bs = {#}"
proof -
  assume "\<forall>i < length bs. bs ! i = []"
  then have "bs = replicate (length bs) []" by (intro nth_equalityI) auto
  then show ?thesis by (metis slots_mset_replicate)
qed

lemma Table_size_unat: "length (table t) < 2 ^ 64 \<Longrightarrow> unat (Table_size t) = length (table t)"
  unfolding Table_size_def by (intro unat_of_nat_lt) simp

lemma Table_Reset_simps: "length (table t) < 2 ^ 64 \<Longrightarrow> table (Table_Reset t) = []"
  using Table_size_unat [of t] by (auto simp: Table_Reset_def Table_cut_def)

lemma word_inc: "unat (i :: size_t) < n \<Longrightarrow> n \<le> 2 ^ 60 \<Longrightarrow> unat (i + 1) = Suc (unat i)"
  by (subst unat_add_lem [THEN iffD1]) auto

lemma InRehashing_index: "unat i < 2 ^ 62 \<Longrightarrow> i \<noteq> (0 - 1 :: size_t)"
proof
  assume "unat i < 2 ^ 62" "i = 0 - 1"
  then have "unat (- 1 :: size_t) < 2 ^ 62" by simp
  then show False by (simp add: unsigned_minus_1_eq_mask mask_eq_exp_minus_1)
qed

text \<open>One step of a rehash, for any way to move the entries of the bucket.\<close>

definition rehash_step :: "'v Table \<Rightarrow> 'v HashTable \<Rightarrow> 'v HashTable" where
  "rehash_step t2 ht = finish_rehash
     (ht\<lparr>table1 := table_set (table1 ht) (rehash_move_bucket_index ht) [], table2 := t2,
        rehash_move_bucket_index := rehash_move_bucket_index ht + 1\<rparr>)"

lemma rehash_step_ok:
  assumes inv: "ht_inv HF GK ht" and re: "InRehashing ht"
    and t2': "table_ok HF GK t2'" "length (table t2') = 2 * length (table (table1 ht))"
      "slots_entries t2' = mset (table (table1 ht) ! unat (rehash_move_bucket_index ht)) + slots_entries (table2 ht)"
  shows "ht_inv HF GK (rehash_step t2' ht) \<and> entries (rehash_step t2' ht) = entries ht \<and> room (rehash_step t2' ht) = Suc (room ht)"
proof -
  let ?i = "rehash_move_bucket_index ht" and ?t1 = "table1 ht" and ?t2 = "table2 ht"
  let ?n = "length (table ?t1)"
  from inv re have i: "unat ?i < ?n" and ok1: "table_ok HF GK ?t1" and empty: "\<forall>j < unat ?i. table ?t1 ! j = []"
    and uk: "unique_keys GK (entries ht)" and us: "unat (used ?t1) = size (entries ht)"
    and rm: "size (entries ht) \<le> room ht"
    by (auto simp: ht_inv_def)
  have nn: "?n \<le> 2 ^ 60" using table_ok_length [OF ok1] by simp
  note inc = word_inc [OF i nn]
  let ?ht1 = "ht\<lparr>table1 := table_set ?t1 ?i [], table2 := t2', rehash_move_bucket_index := ?i + 1\<rparr>"
  have step: "rehash_step t2' ht = finish_rehash ?ht1" by (simp add: rehash_step_def)
  have ent: "slots_entries (table_set ?t1 ?i []) + slots_entries t2' = entries ht"
    using slots_entries_clear [OF i] t2'(3) by (simp add: entries_def ac_simps)
  have empty': "\<forall>j < Suc (unat ?i). (table ?t1)[unat ?i := []] ! j = []"
    using empty i by (auto simp: less_Suc_eq nth_list_update)
  have ok1': "table_ok HF GK (table_set ?t1 ?i [])"
    by (rule table_ok_set [OF ok1]) simp
  have room: "room ht = ?n + unat ?i" using re by (simp add: room_def)
  show ?thesis
  proof (cases "Suc (unat ?i) = ?n")
    case True
    then have fin: "?i + 1 = Table_size (table_set ?t1 ?i [])"
      using inc nn by (simp add: Table_size_def word_unat_eq_iff unat_of_nat_lt)
    have "slots_entries (table_set ?t1 ?i []) = {#}"
      unfolding slots_entries_def using empty' True by (intro slots_mset_empty) simp
    with ent have ent2: "slots_entries t2' = entries ht" by simp
    have ne: "table t2' \<noteq> []" using t2'(2) i by auto
    let ?ht' = "finish_rehash ?ht1"
    have small: "length (table ?t1) < 2 ^ 64" using nn by simp
    have h: "table (table1 ?ht') = table t2'" "size_mask (table1 ?ht') = size_mask t2'"
      "used (table1 ?ht') = used ?t1" "table (table2 ?ht') = []" "\<not> InRehashing ?ht'"
      using fin ne small by (simp_all add: finish_rehash_def Table_swap_def Table_Reset_simps InRehashing_def Let_def)
    have "entries ?ht' = entries ht" using h ent2 by (simp add: entries_def slots_entries_def)
    moreover have "table_ok HF GK (table1 ?ht')"
      using t2'(1) h by (simp add: table_ok_def Table_size_def)
    moreover have "room ?ht' = Suc (room ht)" using h t2'(2) True room by (simp add: room_def)
    ultimately have "ht_inv HF GK ?ht'"
      using uk us rm h by (simp add: ht_inv_def)
    then show ?thesis unfolding step using \<open>entries ?ht' = entries ht\<close> \<open>room ?ht' = Suc (room ht)\<close> by blast
  next
    case False
    then have "?i + 1 \<noteq> Table_size (table_set ?t1 ?i [])"
      using inc nn by (auto simp: Table_size_def word_unat_eq_iff unat_of_nat_lt)
    then have fin: "finish_rehash ?ht1 = ?ht1" by (simp add: finish_rehash_def)
    have re': "InRehashing ?ht1"
      using InRehashing_index [of "?i + 1"] inc i nn by (simp add: InRehashing_def)
    have "entries ?ht1 = entries ht" using ent by (simp add: entries_def)
    moreover have "room ?ht1 = Suc (room ht)" using re' inc room by (simp add: room_def)
    moreover have "unat (?i + 1) < ?n" using False i inc by simp
    moreover have "\<forall>j < unat (?i + 1). (table ?t1)[unat ?i := []] ! j = []" using empty' inc by simp
    ultimately have "ht_inv HF GK ?ht1"
      using uk us rm re' ok1' t2' by (simp add: ht_inv_def)
    then show ?thesis
      unfolding step fin using \<open>entries ?ht1 = entries ht\<close> \<open>room ?ht1 = Suc (room ht)\<close> by blast
  qed
qed

lemma IncrementalRehash_ok:
  assumes inv: "ht_inv HF GK ht"
  shows "\<exists>ht'. IncrementalRehash HF GK ht = Some ht' \<and> ht_inv HF GK ht' \<and> entries ht' = entries ht
    \<and> (if InRehashing ht then room ht' = Suc (room ht) else ht' = ht)"
proof (cases "InRehashing ht")
  case False
  with inv show ?thesis by (auto simp: IncrementalRehash_def)
next
  case re: True
  let ?i = "rehash_move_bucket_index ht"
  from inv re have i: "unat ?i < length (table (table1 ht))" and ok2: "table_ok HF GK (table2 ht)"
    and n2: "length (table (table2 ht)) = 2 * length (table (table1 ht))" by (auto simp: ht_inv_def)
  from move_bucket_ok [OF ok2, of "table (table1 ht) ! unat ?i"] n2 obtain t2' where
    t2': "move_bucket HF GK (table (table1 ht) ! unat ?i) (table2 ht) = Some t2'" "table_ok HF GK t2'"
      "length (table t2') = 2 * length (table (table1 ht))"
      "slots_entries t2' = mset (table (table1 ht) ! unat ?i) + slots_entries (table2 ht)"
    by auto
  have "IncrementalRehash HF GK ht = Some (rehash_step t2' ht)"
    using re i t2'(1) by (simp add: IncrementalRehash_def table_at_def Let_def rehash_step_def)
  then show ?thesis using rehash_step_ok [OF inv re t2'(2-4)] re by simp
qed

section \<open>Starting a rehash\<close>

lemma ht_inv_bounds:
  assumes "ht_inv HF GK ht"
  shows "room ht < 2 ^ 61" and "4 \<le> length (table (table1 ht))" and "length (table (table1 ht)) \<le> 2 ^ 60"
    and "room ht \<le> 2 * length (table (table1 ht))"
  using assms table_ok_length [of HF GK "table1 ht"]
  by (auto simp: ht_inv_def room_def)

lemma Table_Grow_empty:
  assumes "table t = []" and "2 \<le> k" and "k \<le> 60"
  shows "Table_Grow ok (of_nat (2 ^ k)) t =
      (if ok then Inr (t\<lparr>table := replicate (2 ^ k) [], size_mask := of_nat (2 ^ k) - 1\<rparr>) else Inl bad_alloc)"
    and "table_ok HF GK (t\<lparr>table := replicate (2 ^ k) [], size_mask := of_nat (2 ^ k) - 1\<rparr>)"
proof -
  have "(2::nat) ^ k < 2 ^ 64" using assms by (intro power_strict_increasing) auto
  then have "unat (of_nat (2 ^ k) :: size_t) = 2 ^ k" by (intro unat_of_nat_lt) simp
  moreover from this have "\<not> (of_nat (2 ^ k) :: size_t) \<le> 0" by (simp add: word_le_nat_alt del: of_nat_power)
  ultimately show "Table_Grow ok (of_nat (2 ^ k)) t =
      (if ok then Inr (t\<lparr>table := replicate (2 ^ k) [], size_mask := of_nat (2 ^ k) - 1\<rparr>) else Inl bad_alloc)"
    using assms(1) by (simp add: Table_Grow_def Table_size_def del: of_nat_power)
  show "table_ok HF GK (t\<lparr>table := replicate (2 ^ k) [], size_mask := of_nat (2 ^ k) - 1\<rparr>)"
    using assms(2,3) by (auto simp: table_ok_def Table_size_def hashed_replicate)
qed

lemma slots_entries_replicate: "slots_entries (t\<lparr>table := replicate n [], size_mask := m\<rparr>) = {#}"
  by (simp add: slots_entries_def)

lemma start_rehash:
  assumes inv: "ht_inv HF GK ht" and "\<not> InRehashing ht" and "table_ok HF GK t2" and "slots_entries t2 = {#}"
    and "length (table t2) = 2 * length (table (table1 ht))"
  defines "ht' \<equiv> ht\<lparr>table2 := t2, rehash_move_bucket_index := 0\<rparr>"
  shows "ht_inv HF GK ht' \<and> entries ht' = entries ht \<and> InRehashing ht'"
proof -
  have r: "InRehashing ht'" by (simp add: InRehashing_def ht'_def)
  have "table (table2 ht) = []" using inv assms(2) by (simp add: ht_inv_def)
  then have e: "entries ht' = entries ht"
    using assms(4) by (simp add: entries_def ht'_def) (simp add: slots_entries_def)
  have m: "room ht' = room ht" using assms(2) r by (simp add: room_def) (simp add: ht'_def)
  have "0 < length (table (table1 ht))" using ht_inv_bounds(2) [OF inv] by linarith
  then have "ht_inv HF GK ht'"
    using inv assms(3,5) by (simp add: ht_inv_def r e m) (simp add: ht'_def)
  with r e show ?thesis by simp
qed

text \<open>The rehash that has to start before a table that is full takes another entry.\<close>

definition must_rehash :: "'v HashTable \<Rightarrow> bool" where
  "must_rehash ht \<longleftrightarrow> \<not> InRehashing ht \<and> length (table (table1 ht)) \<le> size (entries ht)"

lemma Rehash_ok:
  assumes inv: "ht_inv HF GK ht" and small: "size (entries ht) < 2 ^ 60"
  shows "if must_rehash ht \<and> \<not> ok then Rehash ok ht = Inl bad_alloc
    else \<exists>ht'. Rehash ok ht = Inr ht' \<and> ht_inv HF GK ht' \<and> entries ht' = entries ht
      \<and> (InRehashing ht' \<or> size (entries ht') < room ht')"
proof -
  let ?t1 = "table1 ht" and ?n = "length (table (table1 ht))"
  note b = ht_inv_bounds [OF inv]
  have us: "unat (used ?t1) = size (entries ht)" and ok1: "table_ok HF GK ?t1" using inv by (auto simp: ht_inv_def)
  have sz: "unat (Table_size ?t1) = ?n" using b(3) by (intro Table_size_unat) simp
  have must: "must_rehash ht \<longleftrightarrow> \<not> InRehashing ht \<and> used ?t1 \<ge> Table_size ?t1"
    using us sz by (simp add: must_rehash_def word_le_nat_alt)
  show ?thesis
  proof (cases "\<not> InRehashing ht \<and> used ?t1 \<ge> Table_size ?t1")
    case False
    then have "InRehashing ht \<or> size (entries ht) < room ht"
      using us sz by (auto simp: word_le_nat_alt room_def)
    with False inv show ?thesis by (auto simp: Rehash_def must)
  next
    case True
    from ok1 obtain k where k: "2 \<le> k" "k \<le> 60" "?n = 2 ^ k" by (auto simp: table_ok_def)
    have "?n \<le> size (entries ht)" using True us sz by (simp add: word_le_nat_alt)
    with small k(3) have "(2::nat) ^ k < 2 ^ 60" by simp
    then have "k < 60" by (rule power_less_imp_less_exp [rotated]) simp
    then have k': "2 \<le> Suc k" "Suc k \<le> 60" using k by auto
    have t2: "table (table2 ht) = []" using inv True by (simp add: ht_inv_def)
    have sh: "push_bit 1 (Table_size ?t1) = of_nat (2 ^ Suc k)"
      by (simp add: Table_size_def k(3) push_bit_eq_mult)
    let ?t2 = "(table2 ht)\<lparr>table := replicate (2 ^ Suc k) [], size_mask := of_nat (2 ^ Suc k) - 1\<rparr>"
    let ?ht = "ht\<lparr>table2 := ?t2, rehash_move_bucket_index := 0\<rparr>"
    note g = Table_Grow_empty [OF t2 k']
    have R: "Rehash ok ht = (if ok then Inr ?ht else Inl bad_alloc)"
      unfolding Rehash_def sh g(1) using True by simp
    have "\<not> InRehashing ht" using True by simp
    moreover have "length (table ?t2) = 2 * ?n" by (simp add: k(3))
    ultimately have "ht_inv HF GK ?ht \<and> entries ?ht = entries ht \<and> InRehashing ?ht"
      by (rule start_rehash [OF inv _ g(2) slots_entries_replicate])
    then show ?thesis unfolding R must using True by (cases ok) (simp_all only: if_True if_False simp_thms, blast)
  qed
qed

lemma Rehash_cases:
  assumes "ht_inv HF GK ht" and "size (entries ht) < 2 ^ 60"
  shows "case Rehash ok ht of
      Inl e \<Rightarrow> \<not> ok
    | Inr ht' \<Rightarrow> ht_inv HF GK ht' \<and> entries ht' = entries ht \<and> (InRehashing ht' \<or> size (entries ht') < room ht')"
  using Rehash_ok [OF assms, of ok] by (auto split: if_splits)

lemma Rehash_starts:
  assumes "ht_inv HF GK ht" and "must_rehash ht" and "Rehash True ht = Inr ht'"
  shows "InRehashing ht' \<and> rehash_move_bucket_index ht' = 0 \<and> table1 ht' = table1 ht"
proof -
  have "unat (used (table1 ht)) = size (entries ht)" and "unat (Table_size (table1 ht)) = length (table (table1 ht))"
    using assms(1) ht_inv_bounds(3) [OF assms(1)] by (auto simp: ht_inv_def intro!: Table_size_unat)
  then show ?thesis
    using assms(2,3) by (auto simp: Rehash_def must_rehash_def word_le_nat_alt InRehashing_def split: sum.splits if_splits)
qed

section \<open>Where a key is\<close>

lemma unique_keys_union:
  assumes "unique_keys GK (M + N)"
  shows "unique_keys GK M" and "unique_keys GK N"
    and "entry_map GK (M + N) k = (case entry_map GK M k of None \<Rightarrow> entry_map GK N k | Some v \<Rightarrow> Some v)"
proof -
  have u: "size (filter_mset (\<lambda>v. GK v = k) M) + size (filter_mset (\<lambda>v. GK v = k) N) \<le> 1" for k
    using assms by (simp add: unique_keys_def)
  show M: "unique_keys GK M"
    unfolding unique_keys_def using u add_leD1 by blast
  show N: "unique_keys GK N"
    unfolding unique_keys_def using u add_leD2 by blast
  show "entry_map GK (M + N) k = (case entry_map GK M k of None \<Rightarrow> entry_map GK N k | Some v \<Rightarrow> Some v)"
  proof (cases "entry_map GK (M + N) k")
    case None
    then have "\<forall>v \<in># M + N. GK v \<noteq> k" by (simp only: entry_map_None)
    then have "entry_map GK M k = None" "entry_map GK N k = None" by (auto simp: entry_map_None)
    with None show ?thesis by simp
  next
    case (Some v)
    then have v: "v \<in># M + N" "GK v = k" using entry_map_iff [OF assms] by auto
    show ?thesis
    proof (cases "entry_map GK M k")
      case None
      then have "v \<in># N" using v by (auto simp: entry_map_None)
      then show ?thesis using entry_map_iff [OF N, of k v] Some None v by simp
    next
      case (Some w)
      then have "w \<in># M + N" "GK w = k" using entry_map_iff [OF M, of k w] by auto
      then show ?thesis using unique_keysD [OF assms _ v(1)] v(2) Some \<open>entry_map GK (M + N) k = Some v\<close> by simp
    qed
  qed
qed

lemma ht_map_cases:
  assumes "ht_inv HF GK ht"
  shows "ht_map GK ht k = (case entry_map GK (slots_entries (table1 ht)) k of
      None \<Rightarrow> entry_map GK (slots_entries (table2 ht)) k | Some v \<Rightarrow> Some v)"
    and "unique_keys GK (slots_entries (table1 ht))" and "unique_keys GK (slots_entries (table2 ht))"
  using unique_keys_union [of GK "slots_entries (table1 ht)" "slots_entries (table2 ht)"] assms
  by (simp_all add: ht_inv_def ht_map_def entries_def)

lemma ht_map_not_rehashing:
  "ht_inv HF GK ht \<Longrightarrow> \<not> InRehashing ht \<Longrightarrow> ht_map GK ht k = entry_map GK (slots_entries (table1 ht)) k"
  by (auto simp: ht_map_cases ht_inv_def slots_entries_def split: option.splits)

lemma search_table:
  assumes ok: "table_ok HF GK t" and uk: "unique_keys GK (slots_entries t)"
  shows "slot_SearchIf (\<lambda>v. GK v = k) (table t ! (unat (HF k) mod length (table t))) = entry_map GK (slots_entries t) k"
    (is "?s = _")
proof -
  have i: "unat (HF k) mod length (table t) < length (table t)"
    using table_ok_length [OF ok] by (intro mod_less_divisor) auto
  note f = slot.find_in_slots [OF table_ok_hashed [OF ok] i, of GK k, folded slots_entries_def]
  show ?thesis
  proof (cases ?s)
    case None
    then show ?thesis using f(1) entry_map_None [of GK "slots_entries t" k] by auto
  next
    case (Some v)
    then show ?thesis using f(2) [of v] entry_map_iff [OF uk, of k v] by auto
  qed
qed

lemma moved_bucket:
  assumes "ht_inv HF GK ht" and "InRehashing ht" and "rehash_move_bucket_index ht > bucket_index (table1 ht) (HF k)"
  shows "entry_map GK (slots_entries (table1 ht)) k = None"
proof -
  have ok: "table_ok HF GK (table1 ht)" using assms(1) by (simp add: ht_inv_def)
  have "table (table1 ht) ! (unat (HF k) mod length (table (table1 ht))) = []"
    using assms table_ok_index [OF ok, of "HF k"] by (auto simp: ht_inv_def word_less_nat_alt)
  then show ?thesis using search_table [OF ok ht_map_cases(2) [OF assms(1)], of k]
    by simp
qed

section \<open>Insertion\<close>

lemma used_inc:
  assumes "ht_inv HF GK ht" and "size (entries ht) < room ht"
  shows "unat (used (table1 ht) + 1) = Suc (size (entries ht))"
  using assms ht_inv_bounds(1) [OF assms(1)] unat_add_lem [of "used (table1 ht)" "1 :: size_t"]
  by (auto simp: ht_inv_def)

text \<open>Pushing an entry whose key is new into its bucket.\<close>

lemma push_table:
  fixes elem :: 'v and HF :: "'k \<Rightarrow> u64" and GK :: "'v \<Rightarrow> 'k"
  assumes "table_ok HF GK t"
  defines "i \<equiv> bucket_index t (HF (GK elem))"
  defines "t' \<equiv> table_set t i (slot_EmplaceFrontNode elem (table t ! unat i))"
  shows "table_ok HF GK t'" and "slots_entries t' = add_mset elem (slots_entries t)"
    and "length (table t') = length (table t)" and "used t' = used t" and "size_mask t' = size_mask t"
proof -
  note ix = table_ok_index [OF assms(1), of "HF (GK elem)", folded i_def]
  show "table_ok HF GK t'"
    using hashedD [OF table_ok_hashed [OF assms(1)] ix(2)] ix(1) unfolding t'_def
    by (intro table_ok_set [OF assms(1)]) (auto simp: slot_EmplaceFrontNode_def)
  show "slots_entries t' = add_mset elem (slots_entries t)"
    unfolding t'_def using ix(2) by (intro slots_entries_set) (auto simp: slot_EmplaceFrontNode_def)
qed (simp_all add: t'_def)

definition insert_post ::
    "('k \<Rightarrow> u64) \<Rightarrow> ('v \<Rightarrow> 'k) \<Rightarrow> 'v \<Rightarrow> 'v HashTable \<Rightarrow> ((exn + bool \<times> 'v) \<times> 'v HashTable) option \<Rightarrow> bool" where
  "insert_post HF GK elem ht res \<longleftrightarrow> (\<exists>ht'. res = Some (Inr (True, elem), ht') \<and> ht_inv HF GK ht'
     \<and> entries ht' = add_mset elem (entries ht) \<and> InRehashing ht' = InRehashing ht
     \<and> length (table (table1 ht')) = length (table (table1 ht)))"

lemma insert_front_first:
  fixes elem :: 'v and HF :: "'k \<Rightarrow> u64" and GK :: "'v \<Rightarrow> 'k"
  assumes inv: "ht_inv HF GK ht" and sz: "size (entries ht) < room ht" and new: "ht_map GK ht (GK elem) = None"
    and re: "\<not> InRehashing ht"
  defines "i \<equiv> bucket_index (table1 ht) (HF (GK elem))"
  shows "insert_post HF GK elem ht (insert_front True False i (table (table1 ht) ! unat i) elem ht)"
proof -
  let ?t = "table_set (table1 ht) i (slot_EmplaceFrontNode elem (table (table1 ht) ! unat i))"
  let ?ht = "ht\<lparr>table1 := ?t\<lparr>used := used (table1 ht) + 1\<rparr>\<rparr>"
  have ok: "table_ok HF GK (table1 ht)" using inv by (simp add: ht_inv_def)
  note p = push_table [OF ok, of elem, folded i_def]
  have e: "entries ?ht = add_mset elem (entries ht)"
    using p(2) by (simp add: entries_def) (simp add: slots_entries_def)
  have r: "\<not> InRehashing ?ht" using re by (simp add: InRehashing_def)
  have m: "room ?ht = room ht" using re r by (simp add: room_def)
  have "table_ok HF GK (table1 ?ht)" using p(1) by (simp add: table_ok_def Table_size_def)
  moreover have "unique_keys GK (entries ?ht)"
    using inv new unfolding e by (auto simp: unique_keys_add ht_inv_def ht_map_def entry_map_None)
  ultimately have "ht_inv HF GK ?ht"
    using inv used_inc [OF inv sz] sz re r by (simp add: ht_inv_def e m)
  then show ?thesis unfolding insert_post_def using e r re by (auto simp: insert_front_def slot_EmplaceFront_def Let_def)
qed

lemma insert_front_second:
  fixes elem :: 'v and HF :: "'k \<Rightarrow> u64" and GK :: "'v \<Rightarrow> 'k"
  assumes inv: "ht_inv HF GK ht" and sz: "size (entries ht) < room ht" and new: "ht_map GK ht (GK elem) = None"
    and re: "InRehashing ht"
  defines "i \<equiv> bucket_index (table2 ht) (HF (GK elem))"
  shows "insert_post HF GK elem ht (insert_front True True i (table (table2 ht) ! unat i) elem ht)"
proof -
  let ?t = "table_set (table2 ht) i (slot_EmplaceFrontNode elem (table (table2 ht) ! unat i))"
  let ?ht = "ht\<lparr>table2 := ?t, table1 := (table1 ht)\<lparr>used := used (table1 ht) + 1\<rparr>\<rparr>"
  have ok: "table_ok HF GK (table2 ht)" using inv re by (simp add: ht_inv_def)
  note p = push_table [OF ok, of elem, folded i_def]
  have e: "entries ?ht = add_mset elem (entries ht)"
    using p(2) by (simp add: entries_def) (simp add: slots_entries_def)
  have r: "InRehashing ?ht" using re by (simp add: InRehashing_def)
  have m: "room ?ht = room ht" using re r by (simp add: room_def)
  have "table_ok HF GK (table1 ?ht)" using inv by (simp add: ht_inv_def) (simp add: table_ok_def Table_size_def)
  moreover have "unique_keys GK (entries ?ht)"
    using inv new unfolding e by (auto simp: unique_keys_add ht_inv_def ht_map_def entry_map_None)
  ultimately have "ht_inv HF GK ?ht"
    using inv used_inc [OF inv sz] sz re r p(1) by (simp add: ht_inv_def e m)
  then show ?thesis unfolding insert_post_def using e r re by (auto simp: insert_front_def slot_EmplaceFront_def Let_def)
qed

lemma insert_front_no_node [simp]: "insert_front False second i bucket elem ht = None"
  by (simp add: insert_front_def slot_EmplaceFront_def)

lemma search_flipped: "slot_SearchIf (\<lambda>v. k = GK v) = slot_SearchIf (\<lambda>v. GK v = k)"
  by (simp add: eq_commute)

lemma bucket_search:
  assumes "table_ok HF GK t" and "unique_keys GK (slots_entries t)"
  shows "table_at t (bucket_index t (HF k)) = Some (table t ! unat (bucket_index t (HF k)))"
    and "slot_SearchIf (\<lambda>v. GK v = k) (table t ! unat (bucket_index t (HF k))) = entry_map GK (slots_entries t) k"
  using search_table [OF assms] table_ok_index [OF assms(1)] by (simp_all add: table_at_def)

lemma insert_checked_ok:
  assumes inv: "ht_inv HF GK ht" and sz: "size (entries ht) < room ht"
  shows "case ht_map GK ht (GK elem) of
      Some d \<Rightarrow> insert_checked node HF GK elem ht = Some (Inr (False, d), ht)
    | None \<Rightarrow> if node then insert_post HF GK elem ht (insert_checked node HF GK elem ht)
        else insert_checked node HF GK elem ht = None"
proof (cases "InRehashing ht")
  case False
  have ok: "table_ok HF GK (table1 ht)" using inv by (simp add: ht_inv_def)
  note s = bucket_search [OF ok ht_map_cases(2) [OF inv], of "GK elem"]
  show ?thesis
    using ht_map_not_rehashing [OF inv False, of "GK elem"] insert_front_first [OF inv sz _ False, of elem] s False
    by (auto simp: insert_checked_def Let_def search_flipped split: option.splits)
next
  case True
  have ok1: "table_ok HF GK (table1 ht)" and ok2: "table_ok HF GK (table2 ht)"
    using inv True by (simp_all add: ht_inv_def)
  note s1 = bucket_search [OF ok1 ht_map_cases(2) [OF inv], of "GK elem"]
  note s2 = bucket_search [OF ok2 ht_map_cases(3) [OF inv], of "GK elem"]
  note m = ht_map_cases(1) [OF inv, of "GK elem"] moved_bucket [OF inv True, of "GK elem"]
  show ?thesis
    using m insert_front_second [OF inv sz _ True, of elem] s1 s2 True
    by (auto simp: insert_checked_def Let_def search_flipped split: option.splits)
qed

text \<open>
  \<open>InsertWithDuplicate\<close> throws without effect when the rehash it has to start gets no memory. Otherwise
  it reports the entry of a known key and inserts a new one, for which it needs a node.
\<close>

lemma ht_map_entries: "entries ht = entries ht' \<Longrightarrow> ht_map GK ht = ht_map GK ht'"
  by (simp add: ht_map_def)

lemma ht_map_insert:
  "ht_inv HF GK ht' \<Longrightarrow> entries ht' = add_mset elem (entries ht) \<Longrightarrow> ht_map GK ht' = (ht_map GK ht)(GK elem \<mapsto> elem)"
  using entry_map_add [of GK elem "entries ht"] by (simp add: ht_map_def ht_inv_def)

lemma ht_map_remove:
  "ht_inv HF GK ht \<Longrightarrow> entries ht = add_mset v (entries ht') \<Longrightarrow> ht_map GK ht' = (ht_map GK ht)(GK v := None)"
  using entry_map_remove [of GK v "entries ht'"] by (simp add: ht_map_def ht_inv_def)

definition inserted_ok ::
    "bool \<Rightarrow> ('k \<Rightarrow> u64) \<Rightarrow> ('v \<Rightarrow> 'k) \<Rightarrow> 'v \<Rightarrow> 'v HashTable \<Rightarrow> ((exn + bool \<times> 'v) \<times> 'v HashTable) option \<Rightarrow> bool" where
  "inserted_ok node HF GK elem ht res \<longleftrightarrow>
     (case ht_map GK ht (GK elem) of
        Some d \<Rightarrow> \<exists>ht'. res = Some (Inr (False, d), ht') \<and> ht_inv HF GK ht' \<and> entries ht' = entries ht
      | None \<Rightarrow> if node then \<exists>ht'. res = Some (Inr (True, elem), ht') \<and> ht_inv HF GK ht' \<and> entries ht' = add_mset elem (entries ht)
          else res = None)"

lemma InsertWithDuplicate_ok:
  assumes inv: "ht_inv HF GK ht" and small: "size (entries ht) < 2 ^ 60"
  shows "if must_rehash ht \<and> \<not> ok then InsertWithDuplicate ok node HF GK elem ht = Some (Inl bad_alloc, ht)
    else inserted_ok node HF GK elem ht (InsertWithDuplicate ok node HF GK elem ht)"
proof (cases "must_rehash ht \<and> \<not> ok")
  case True
  then show ?thesis using Rehash_ok [OF inv small, of ok]
    by (simp add: InsertWithDuplicate_def)
next
  case False
  with Rehash_ok [OF inv small, of ok] obtain ht1 where 1: "Rehash ok ht = Inr ht1" "ht_inv HF GK ht1"
    "entries ht1 = entries ht" "InRehashing ht1 \<or> size (entries ht1) < room ht1" by auto
  from IncrementalRehash_ok [OF 1(2)] obtain ht2 where 2: "IncrementalRehash HF GK ht1 = Some ht2"
    "ht_inv HF GK ht2" "entries ht2 = entries ht1"
    "if InRehashing ht1 then room ht2 = Suc (room ht1) else ht2 = ht1" by auto
  have "size (entries ht2) < room ht2"
    using 1 2 by (auto simp: ht_inv_def split: if_splits)
  note I = insert_checked_ok [OF 2(2) this, where elem = elem and node = node]
  have "InsertWithDuplicate ok node HF GK elem ht = insert_checked node HF GK elem ht2"
    using 1(1) 2(1) by (simp add: InsertWithDuplicate_def)
  with I ht_map_entries [of ht2 ht GK] 1(3) 2(2,3) False show ?thesis
    by (auto simp: inserted_ok_def insert_post_def split: option.splits)
qed

section \<open>Lookup\<close>

lemma ht_inv_replace:
  assumes inv: "ht_inv HF GK ht" and "table_ok HF GK t1" and "length (table t1) = length (table (table1 ht))"
    and "\<forall>j < length (table t1). table (table1 ht) ! j = [] \<longrightarrow> table t1 ! j = []"
    and "if InRehashing ht then table_ok HF GK t2 \<and> length (table t2) = length (table (table2 ht)) else table t2 = []"
    and "slots_entries t1 + slots_entries t2 \<subseteq># entries ht"
    and "unat (used t1) = size (slots_entries t1 + slots_entries t2)"
  shows "ht_inv HF GK (ht\<lparr>table1 := t1, table2 := t2\<rparr>)"
proof -
  let ?ht = "ht\<lparr>table1 := t1, table2 := t2\<rparr>"
  have r: "InRehashing ?ht = InRehashing ht" by (simp add: InRehashing_def)
  have m: "room ?ht = room ht" using assms(3) by (simp add: room_def r)
  obtain N where N: "entries ht = (slots_entries t1 + slots_entries t2) + N"
    using assms(6) by (metis subset_mset.add_diff_inverse)
  have e: "entries ?ht = slots_entries t1 + slots_entries t2" by (simp add: entries_def)
  have "unique_keys GK (entries ?ht)"
    unfolding e using inv unique_keys_union(1) [of GK _ N] N by (simp add: ht_inv_def)
  moreover have "size (entries ?ht) \<le> room ?ht"
    using inv N by (simp add: e m ht_inv_def)
  ultimately show ?thesis
    using inv assms by (auto simp: ht_inv_def r m e)
qed

lemma pull_table:
  fixes k :: 'k and HF :: "'k \<Rightarrow> u64" and GK :: "'v \<Rightarrow> 'k"
  assumes ok: "table_ok HF GK t" and uk: "unique_keys GK (slots_entries t)"
  defines "i \<equiv> bucket_index t (HF k)"
  shows "table_at t i = Some (table t ! unat i)" and "unat i < length (table t)"
    and "slot_ExtractNodeIf (\<lambda>v. GK v = k) (table t ! unat i) = None \<longleftrightarrow> entry_map GK (slots_entries t) k = None"
    and "slot_ExtractNodeIf (\<lambda>v. GK v = k) (table t ! unat i) = Some (v, rest) \<Longrightarrow>
          entry_map GK (slots_entries t) k = Some v \<and> table_ok HF GK (table_set t i rest)
          \<and> table_ok HF GK (table_set t i (slot_EmplaceFrontNode v rest))
          \<and> slots_entries t = add_mset v (slots_entries (table_set t i rest))
          \<and> slots_entries (table_set t i (slot_EmplaceFrontNode v rest)) = slots_entries t
          \<and> table t ! unat i \<noteq> []"
proof -
  have ix: "unat i = unat (HF k) mod length (table t)" and i: "unat i < length (table t)"
    using table_ok_index [OF ok, of "HF k"] by (simp_all add: i_def)
  show "table_at t i = Some (table t ! unat i)" and "unat i < length (table t)"
    using i by (simp_all add: table_at_def)
  note h = table_ok_hashed [OF ok]
  show "slot_ExtractNodeIf (\<lambda>v. GK v = k) (table t ! unat i) = None \<longleftrightarrow> entry_map GK (slots_entries t) k = None"
    using slot.pull_in_slots_None [OF h i, of GK k] ix
    by (auto simp: entry_map_None slots_entries_def)
  assume e: "slot_ExtractNodeIf (\<lambda>v. GK v = k) (table t ! unat i) = Some (v, rest)"
  note p = slot.pull_in_slots [OF h i _ e]
  have m: "mset (table t ! unat i) = add_mset v (mset rest)"
    using slot_ExtractNodeIf_Some [OF e] by simp
  then have st: "set (table t ! unat i) = insert v (set rest)"
    by (metis set_mset_add_mset_insert set_mset_mset)
  have v: "v \<in># slots_entries t" "GK v = k" using p by (auto simp: slots_entries_def)
  have r: "slots_entries t = add_mset v (slots_entries (table_set t i rest))"
    using p(3) by (simp add: slots_entries_def)
  have "slots_entries (table_set t i (slot_EmplaceFrontNode v rest)) = slots_entries t"
    unfolding slots_entries_def table_set_simps using i m
    by (intro slots_mset_same) (simp_all add: slot_EmplaceFrontNode_def)
  moreover have "table_ok HF GK (table_set t i rest)" "table_ok HF GK (table_set t i (slot_EmplaceFrontNode v rest))"
    using hashedD [OF h i] st by (auto intro!: table_ok_set [OF ok] simp: slot_EmplaceFrontNode_def)
  moreover have "table t ! unat i \<noteq> []" using st by auto
  moreover have "entry_map GK (slots_entries t) k = Some v"
    using entry_map_iff [OF uk, of k v] v by simp
  ultimately show "entry_map GK (slots_entries t) k = Some v \<and> table_ok HF GK (table_set t i rest)
          \<and> table_ok HF GK (table_set t i (slot_EmplaceFrontNode v rest))
          \<and> slots_entries t = add_mset v (slots_entries (table_set t i rest))
          \<and> slots_entries (table_set t i (slot_EmplaceFrontNode v rest)) = slots_entries t
          \<and> table t ! unat i \<noteq> []"
    using r by blast
qed

text \<open>Replacing the bucket of a key in the first or in the second table.\<close>

lemma ht_inv_set1:
  assumes inv: "ht_inv HF GK ht" and ok: "table_ok HF GK (table_set (table1 ht) i s)"
    and i: "unat i < length (table (table1 ht))" and ne: "table (table1 ht) ! unat i \<noteq> []"
    and sub: "slots_entries (table_set (table1 ht) i s) + slots_entries (table2 ht) \<subseteq># entries ht"
    and u: "unat n = size (slots_entries (table_set (table1 ht) i s) + slots_entries (table2 ht))"
  shows "ht_inv HF GK (ht\<lparr>table1 := (table_set (table1 ht) i s)\<lparr>used := n\<rparr>\<rparr>)"
proof -
  let ?t = "(table_set (table1 ht) i s)\<lparr>used := n\<rparr>"
  have e: "slots_entries ?t = slots_entries (table_set (table1 ht) i s)" by (simp add: slots_entries_def)
  have "ht_inv HF GK (ht\<lparr>table1 := ?t, table2 := table2 ht\<rparr>)"
  proof (rule ht_inv_replace [OF inv])
    show "table_ok HF GK ?t" using ok by (simp add: table_ok_def Table_size_def)
    show "\<forall>j < length (table ?t). table (table1 ht) ! j = [] \<longrightarrow> table ?t ! j = []"
      using ne by (simp add: all_conj_distrib) (metis nth_list_update_neq)
    show "if InRehashing ht then table_ok HF GK (table2 ht) \<and> length (table (table2 ht)) = length (table (table2 ht))
        else table (table2 ht) = []" using inv by (simp add: ht_inv_def)
  qed (use sub u in \<open>simp_all add: e\<close>)
  then show ?thesis by simp
qed

lemma ht_inv_set2:
  assumes inv: "ht_inv HF GK ht" and re: "InRehashing ht" and ok: "table_ok HF GK (table_set (table2 ht) i s)"
    and sub: "slots_entries (table1 ht) + slots_entries (table_set (table2 ht) i s) \<subseteq># entries ht"
    and u: "unat n = size (slots_entries (table1 ht) + slots_entries (table_set (table2 ht) i s))"
  shows "ht_inv HF GK (ht\<lparr>table1 := (table1 ht)\<lparr>used := n\<rparr>, table2 := table_set (table2 ht) i s\<rparr>)"
proof (rule ht_inv_replace [OF inv])
  show "table_ok HF GK ((table1 ht)\<lparr>used := n\<rparr>)"
    using inv by (simp add: ht_inv_def) (simp add: table_ok_def Table_size_def)
qed (use re ok sub u in \<open>simp_all add: slots_entries_def\<close>)

lemma keep_used: "(table_set t i s)\<lparr>used := used t\<rparr> = table_set t i s"
  by (simp add: table_set_def)

lemma used_dec:
  "ht_inv HF GK ht \<Longrightarrow> entries ht = add_mset v M \<Longrightarrow> unat (used (table1 ht) - 1) = size M"
  by (subst unat_sub) (auto simp: ht_inv_def word_le_nat_alt)

definition find_post ::
    "('k \<Rightarrow> u64) \<Rightarrow> ('v \<Rightarrow> 'k) \<Rightarrow> 'k \<Rightarrow> 'v HashTable \<Rightarrow> (bool \<times> size_t) option \<Rightarrow> 'v HashTable \<Rightarrow> bool" where
  "find_post HF GK k ht p ht' \<longleftrightarrow> ht_inv HF GK ht' \<and> entries ht' = entries ht
     \<and> (case p of
          None \<Rightarrow> ht_map GK ht k = None
        | Some q \<Rightarrow> (fst q \<longrightarrow> InRehashing ht') \<and> (\<exists>v rest. slot_of q ht' = Some (v # rest) \<and> ht_map GK ht k = Some v))"

text \<open>The two loops, over the tables of a state whose rehash step is done.\<close>

lemma FindSlot_tables:
  assumes inv: "ht_inv HF GK ht"
  shows "\<exists>p ht'. (do {
      r1 \<leftarrow> find_in_table HF GK k (table1 ht);
     (case r1 of
        Some (i, t1) \<Rightarrow> Some (Some (False, i), ht\<lparr>table1 := t1\<rparr>)
      | None \<Rightarrow>
          (if \<not> InRehashing ht then Some (None, ht)
           else do {
             r2 \<leftarrow> find_in_table HF GK k (table2 ht);
             (case r2 of
                Some (i, t2) \<Rightarrow> Some (Some (True, i), ht\<lparr>table2 := t2\<rparr>)
              | None \<Rightarrow> Some (None, ht)) })) }) = Some (p, ht') \<and> find_post HF GK k ht p ht'"
proof -
  let ?i = "bucket_index (table1 ht) (HF k)" and ?j = "bucket_index (table2 ht) (HF k)"
  let ?pull = "slot_ExtractNodeIf (\<lambda>v. GK v = k)"
  have ok1: "table_ok HF GK (table1 ht)" using inv by (simp add: ht_inv_def)
  note m = ht_map_cases(1) [OF inv, of k] and us = ht_inv_def [of HF GK ht]
  note p1 = pull_table [OF ok1 ht_map_cases(2) [OF inv], of k]
  show ?thesis
  proof (cases "?pull (table (table1 ht) ! unat ?i)")
    case (Some vr)
    obtain v rest where vr: "vr = (v, rest)" by (cases vr)
    let ?t = "table_set (table1 ht) ?i (slot_EmplaceFrontNode v rest)"
    note q = p1(4) [OF Some [unfolded vr]]
    have "ht_inv HF GK (ht\<lparr>table1 := ?t\<lparr>used := used (table1 ht)\<rparr>\<rparr>)"
      using q inv p1(2) by (intro ht_inv_set1) (auto simp: ht_inv_def entries_def)
    then have "ht_inv HF GK (ht\<lparr>table1 := ?t\<rparr>)" by (simp only: keep_used)
    moreover have "entries (ht\<lparr>table1 := ?t\<rparr>) = entries ht" using q by (simp add: entries_def)
    moreover have "ht_map GK ht k = Some v" using m conjunct1 [OF q] by simp
    ultimately have "find_post HF GK k ht (Some (False, ?i)) (ht\<lparr>table1 := ?t\<rparr>)"
      using p1(2) by (simp add: find_post_def slot_of_def table_at_def slot_EmplaceFrontNode_def)
    then show ?thesis using p1(1) Some vr by (auto simp: find_in_table_def Let_def)
  next
    case n1: None
    then have e1: "entry_map GK (slots_entries (table1 ht)) k = None" using p1(3) by simp
    show ?thesis
    proof (cases "InRehashing ht")
      case False
      with e1 ht_map_not_rehashing [OF inv] inv have "find_post HF GK k ht None ht" by (simp add: find_post_def)
      then show ?thesis using p1(1) n1 False by (simp add: find_in_table_def Let_def)
    next
      case True
      then have ok2: "table_ok HF GK (table2 ht)" using inv by (simp add: ht_inv_def)
      note p2 = pull_table [OF ok2 ht_map_cases(3) [OF inv], of k]
      show ?thesis
      proof (cases "?pull (table (table2 ht) ! unat ?j)")
        case None
        then have "find_post HF GK k ht None ht" using p2(3) m e1 inv by (simp add: find_post_def)
        then show ?thesis using p1(1) n1 p2(1) None True by (simp add: find_in_table_def Let_def)
      next
        case (Some vr)
        obtain v rest where vr: "vr = (v, rest)" by (cases vr)
        let ?t = "table_set (table2 ht) ?j (slot_EmplaceFrontNode v rest)"
        note q = p2(4) [OF Some [unfolded vr]]
        have "ht_inv HF GK (ht\<lparr>table1 := (table1 ht)\<lparr>used := used (table1 ht)\<rparr>, table2 := ?t\<rparr>)"
          using q inv True by (intro ht_inv_set2) (auto simp: ht_inv_def entries_def)
        moreover have "entries (ht\<lparr>table2 := ?t\<rparr>) = entries ht" using q by (simp add: entries_def)
        moreover have "InRehashing (ht\<lparr>table2 := ?t\<rparr>)" using True by (simp add: InRehashing_def)
        moreover have "ht_map GK ht k = Some v" using m e1 conjunct1 [OF q] by simp
        ultimately have "find_post HF GK k ht (Some (True, ?j)) (ht\<lparr>table2 := ?t\<rparr>)"
          using p2(2) by (simp add: find_post_def slot_of_def table_at_def slot_EmplaceFrontNode_def)
        then show ?thesis using p1(1) n1 p2(1) Some vr True by (auto simp: find_in_table_def Let_def)
      qed
    qed
  qed
qed

lemma FindSlot_ok:
  assumes "ht_inv HF GK ht"
  shows "\<exists>p ht'. FindSlot HF GK k ht = Some (p, ht') \<and> find_post HF GK k ht p ht'"
proof -
  from IncrementalRehash_ok [OF assms] obtain ht1 where 1: "IncrementalRehash HF GK ht = Some ht1"
    "ht_inv HF GK ht1" "entries ht1 = entries ht" by auto
  from FindSlot_tables [OF 1(2), of k] obtain p ht' where 2:
    "FindSlot HF GK k ht = Some (p, ht')" "find_post HF GK k ht1 p ht'"
    unfolding FindSlot_def 1(1) by auto
  then show ?thesis using 1(3) ht_map_entries [of ht1 ht GK] by (auto simp: find_post_def split: option.splits)
qed

lemma Find_ok:
  assumes "ht_inv HF GK ht"
  shows "\<exists>ht'. Find HF GK k ht = Some (ht_map GK ht k, ht') \<and> ht_inv HF GK ht' \<and> entries ht' = entries ht"
  using FindSlot_ok [OF assms, of k]
  by (auto simp: Find_def find_post_def split: option.splits)

end
