(* ===== verification/Hash_Table_Ops.thy ===== *)
theory Hash_Table_Ops
  imports Hash_Table_Inv
begin

text \<open>
  Extraction, erasure, construction, clearing and cloning of \<open>HashTable\<close>, and sequences of
  operations: from construction on the table behaves as a finite map. The count \<open>used\<close> is exact
  for every operation except \<open>EraseAfterFindSlot\<close>.
\<close>

section \<open>Extraction\<close>

definition extract_post ::
    "('k \<Rightarrow> u64) \<Rightarrow> ('v \<Rightarrow> 'k) \<Rightarrow> 'k \<Rightarrow> 'v HashTable \<Rightarrow> 'v HashTable \<Rightarrow> bool" where
  "extract_post HF GK k ht ht' \<longleftrightarrow> ht_inv HF GK ht'
     \<and> (case ht_map GK ht k of None \<Rightarrow> entries ht' = entries ht | Some v \<Rightarrow> entries ht = add_mset v (entries ht'))"

lemma Extract_tables:
  assumes inv: "ht_inv HF GK ht"
  defines "dec \<equiv> (\<lambda>ht. ht\<lparr>table1 := (table1 ht)\<lparr>used := used (table1 ht) - 1\<rparr>\<rparr>)"
  shows "\<exists>ht'. (do {
      r1 \<leftarrow> extract_from_table HF GK k (table1 ht);
      (case r1 of
        Some (v, t1) \<Rightarrow> Some (Some v, dec (ht\<lparr>table1 := t1\<rparr>))
      | None \<Rightarrow>
          (if \<not> InRehashing ht then Some (None, ht)
           else do {
             r2 \<leftarrow> extract_from_table HF GK k (table2 ht);
             (case r2 of
                Some (v, t2) \<Rightarrow> Some (Some v, dec (ht\<lparr>table2 := t2\<rparr>))
              | None \<Rightarrow> Some (None, ht)) })) }) = Some (ht_map GK ht k, ht') \<and> extract_post HF GK k ht ht'"
proof -
  let ?i = "bucket_index (table1 ht) (HF k)" and ?j = "bucket_index (table2 ht) (HF k)"
  let ?pull = "slot_ExtractNodeIf (\<lambda>v. GK v = k)"
  have ok1: "table_ok HF GK (table1 ht)" using inv by (simp add: ht_inv_def)
  note m = ht_map_cases(1) [OF inv, of k]
  note p1 = pull_table [OF ok1 ht_map_cases(2) [OF inv], of k]
  show ?thesis
  proof (cases "?pull (table (table1 ht) ! unat ?i)")
    case (Some vr)
    obtain v rest where vr: "vr = (v, rest)" by (cases vr)
    let ?t = "table_set (table1 ht) ?i rest"
    note q = p1(4) [OF Some [unfolded vr]]
    have mv: "ht_map GK ht k = Some v" using m conjunct1 [OF q] by simp
    let ?ht = "ht\<lparr>table1 := ?t\<lparr>used := used (table1 ht) - 1\<rparr>\<rparr>"
    have e: "entries ht = add_mset v (slots_entries ?t + slots_entries (table2 ht))"
      using q by (simp add: entries_def)
    have e': "entries ?ht = slots_entries ?t + slots_entries (table2 ht)"
      by (simp add: entries_def) (simp add: slots_entries_def)
    have "ht_inv HF GK ?ht"
      using q p1(2) by (intro ht_inv_set1 [OF inv]) (auto simp: used_dec [OF inv e] e)
    then have "extract_post HF GK k ht ?ht" using mv e e' by (simp add: extract_post_def)
    then show ?thesis using p1(1) Some vr mv by (auto simp: extract_from_table_def Let_def dec_def table_set_def)
  next
    case n1: None
    then have e1: "entry_map GK (slots_entries (table1 ht)) k = None" using p1(3) by simp
    show ?thesis
    proof (cases "InRehashing ht")
      case False
      with e1 ht_map_not_rehashing [OF inv, of k] inv have "ht_map GK ht k = None" "extract_post HF GK k ht ht"
        by (simp_all add: extract_post_def)
      then show ?thesis using p1(1) n1 False by (auto simp: extract_from_table_def Let_def)
    next
      case True
      then have ok2: "table_ok HF GK (table2 ht)" using inv by (simp add: ht_inv_def)
      note p2 = pull_table [OF ok2 ht_map_cases(3) [OF inv], of k]
      show ?thesis
      proof (cases "?pull (table (table2 ht) ! unat ?j)")
        case None
        then have "ht_map GK ht k = None" "extract_post HF GK k ht ht" using p2(3) m e1 inv by (simp_all add: extract_post_def)
        then show ?thesis using p1(1) n1 p2(1) None True by (auto simp: extract_from_table_def Let_def)
      next
        case (Some vr)
        obtain v rest where vr: "vr = (v, rest)" by (cases vr)
        let ?t = "table_set (table2 ht) ?j rest"
        note q = p2(4) [OF Some [unfolded vr]]
        have mv: "ht_map GK ht k = Some v" using m e1 conjunct1 [OF q] by simp
        let ?ht = "ht\<lparr>table1 := (table1 ht)\<lparr>used := used (table1 ht) - 1\<rparr>, table2 := ?t\<rparr>"
        have e: "entries ht = add_mset v (slots_entries (table1 ht) + slots_entries ?t)"
          using q by (simp add: entries_def)
        have e': "entries ?ht = slots_entries (table1 ht) + slots_entries ?t"
          by (simp add: entries_def) (simp add: slots_entries_def)
        have "ht_inv HF GK ?ht"
          using q by (intro ht_inv_set2 [OF inv True]) (auto simp: used_dec [OF inv e] e)
        then have "extract_post HF GK k ht ?ht" using mv e e' by (simp add: extract_post_def)
        moreover have "?ht = dec (ht\<lparr>table2 := ?t\<rparr>)" by (simp add: dec_def)
        ultimately show ?thesis
          using p1(1) n1 p2(1) Some vr True mv by (auto simp: extract_from_table_def Let_def)
      qed
    qed
  qed
qed

lemma Extract_ok:
  assumes "ht_inv HF GK ht"
  shows "\<exists>ht'. Extract HF GK k ht = Some (ht_map GK ht k, ht') \<and> extract_post HF GK k ht ht'"
proof -
  from IncrementalRehash_ok [OF assms] obtain ht1 where 1: "IncrementalRehash HF GK ht = Some ht1"
    "ht_inv HF GK ht1" "entries ht1 = entries ht" by auto
  from Extract_tables [OF 1(2), of k] obtain ht' where 2:
    "Extract HF GK k ht = Some (ht_map GK ht1 k, ht')" "extract_post HF GK k ht1 ht'"
    unfolding Extract_def 1(1) Let_def Option.bind.simps by blast
  then show ?thesis using 1(3) ht_map_entries [OF 1(3), of GK] by (auto simp: extract_post_def split: option.splits)
qed

lemma Erase_ok:
  assumes "ht_inv HF GK ht"
  shows "\<exists>ht'. Erase HF GK k ht = Some (if ht_map GK ht k = None then 0 else 1, ht')
    \<and> ht_inv HF GK ht' \<and> ht_map GK ht' = (ht_map GK ht)(k := None) \<and> size (entries ht') \<le> size (entries ht)"
proof -
  from Extract_ok [OF assms, of k] obtain ht' where e: "Extract HF GK k ht = Some (ht_map GK ht k, ht')"
    "extract_post HF GK k ht ht'" by blast
  show ?thesis
  proof (cases "ht_map GK ht k")
    case None
    with e ht_map_entries [of ht' ht GK] show ?thesis by (auto simp: Erase_def extract_post_def fun_eq_iff)
  next
    case (Some v)
    then have "GK v = k" using assms entry_map_iff [of GK "entries ht" k v] by (simp add: ht_inv_def ht_map_def)
    with Some e ht_map_remove [OF assms, of v ht'] show ?thesis by (auto simp: Erase_def extract_post_def)
  qed
qed

text \<open>\<open>EraseAfterFindSlot\<close> removes the entry found but leaves the count as it was.\<close>

lemma EraseAfterFindSlot_ok:
  assumes "find_post HF GK k ht (Some p) ht'"
  shows "\<exists>ht2 v. EraseAfterFindSlot p ht' = Some ht2 \<and> ht_map GK ht k = Some v \<and> entries ht' = add_mset v (entries ht2)
     \<and> used (table1 ht2) = used (table1 ht')"
proof -
  from assms obtain v rest where s: "slot_of p ht' = Some (v # rest)" "ht_map GK ht k = Some v" "ht_inv HF GK ht'"
    "fst p \<longrightarrow> InRehashing ht'"
    by (auto simp: find_post_def)
  obtain b i where p: "p = (b, i)" by (cases p)
  have e: "slots_entries t = add_mset v (slots_entries (table_set t i rest))" if "table_at t i = Some (v # rest)" for t
    using that by (auto simp: slots_entries_def table_at_def split: if_splits intro!: slots_mset_remove)
  show ?thesis
    using s e by (cases b) (auto simp: EraseAfterFindSlot_def slot_of_def p entries_def)
qed

section \<open>Construction and clearing\<close>

lemma replicate_four: "replicate 4 x = [x, x, x, x]"
  by (simp add: numeral_eq_Suc)

lemma HashTable_new_ok:
  "HashTable_new True = Inr \<lparr>table1 = \<lparr>table = replicate 4 [], used = 0, size_mask = 3\<rparr>,
     table2 = Table_init, rehash_move_bucket_index = - 1\<rparr>"
  "HashTable_new False = Inl bad_alloc"
  by (simp_all add: HashTable_new_def Table_new_def Table_Grow_def Table_init_def Table_size_def)

lemma cleared_inv:
  assumes "table t1 = replicate 4 []" and "used t1 = 0" and "size_mask t1 = 3" and "table t2 = []"
  defines "ht \<equiv> \<lparr>table1 = t1, table2 = t2, rehash_move_bucket_index = - 1\<rparr>"
  shows "ht_inv HF GK ht \<and> entries ht = {#}"
proof -
  have "\<exists>k. 2 \<le> k \<and> k \<le> 60 \<and> (4::nat) = 2 ^ k" by (rule exI [of _ 2]) simp
  then have "table_ok HF GK t1"
    using assms by (simp add: table_ok_def Table_size_def hashed_replicate)
  moreover have "entries ht = {#}" using assms by (simp add: entries_def slots_entries_def)
  ultimately show ?thesis using assms by (simp add: ht_inv_def InRehashing_def room_def)
qed

lemma new_inv:
  "HashTable_new ok = Inr ht \<Longrightarrow> ht_inv HF GK ht \<and> entries ht = {#}"
  using cleared_inv [of "\<lparr>table = replicate 4 [], used = 0, size_mask = 3\<rparr>" Table_init HF GK]
  by (cases ok) (auto simp: HashTable_new_ok Table_init_def)

text \<open>With memory \<open>Clear\<close> gives the table back as it was made; without, it throws unless the table has its first size.\<close>

lemma Clear_throws:
  assumes inv: "ht_inv HF GK ht" and "4 < length (table (table1 ht))"
  shows "Clear False ht = Some (Inl bad_alloc)"
  using assms(2) Table_size_unat [of "table1 ht"] ht_inv_bounds(3) [OF inv]
  by (simp add: Clear_def Table_Shrink_def word_less_nat_alt)

lemma Clear_ok:
  assumes inv: "ht_inv HF GK ht"
  shows "\<exists>ht'. Clear True ht = Some (Inr ht') \<and> ht_inv HF GK ht' \<and> entries ht' = {#} \<and> length (table (table1 ht')) = 4"
proof -
  note b = ht_inv_bounds [OF inv]
  let ?t = "Table_cut 4 (table1 ht)"
  have sz: "unat (Table_size (table1 ht)) = length (table (table1 ht))"
    using b(3) by (intro Table_size_unat) simp
  have t: "length (table ?t) = 4" "size_mask ?t = 3"
    using b(2) sz by (auto simp: Table_cut_def word_le_nat_alt Table_size_def)
  let ?t1 = "?t\<lparr>table := replicate 4 [] @ drop 4 (table ?t), used := 0\<rparr>"
  let ?t2 = "if InRehashing ht then Table_cut 0 (table2 ht) else table2 ht"
  have "table ?t2 = []"
    using inv b(3) Table_Reset_simps [of "table2 ht"] by (auto simp: ht_inv_def Table_Reset_def)
  then have "ht_inv HF GK \<lparr>table1 = ?t1, table2 = ?t2, rehash_move_bucket_index = - 1\<rparr>
      \<and> entries \<lparr>table1 = ?t1, table2 = ?t2, rehash_move_bucket_index = - 1\<rparr> = {#}"
    using t by (intro cleared_inv) simp_all
  moreover have "Clear True ht = Some (Inr \<lparr>table1 = ?t1, table2 = ?t2, rehash_move_bucket_index = - 1\<rparr>)"
    using t(1) by (simp add: Clear_def Let_def)
  ultimately show ?thesis using t(1) by simp
qed

section \<open>Cloning\<close>

lemma clone_bucket_eq: "clone_bucket True olst lst = Some (rev olst @ lst)"
  by (induction olst arbitrary: lst) (simp_all add: slot_EmplaceFront_def slot_EmplaceFrontNode_def)

lemma clone_buckets_eq:
  "length (table t) = i + length olsts \<Longrightarrow> length (table t) < 2 ^ 64 \<Longrightarrow> drop i (table t) = replicate (length olsts) [] \<Longrightarrow>
     clone_buckets True i olsts t = Some (t\<lparr>table := take i (table t) @ map rev olsts\<rparr>)"
proof (induction olsts arbitrary: i t)
  case Nil
  then show ?case by simp
next
  case (Cons b bs)
  have i: "unat (of_nat i :: size_t) = i" using Cons.prems by (intro unat_of_nat_lt) simp
  have lt: "i < length (table t)" using Cons.prems by simp
  have "drop i (table t) = [] # replicate (length bs) []" using Cons.prems(3) by simp
  then have at: "table t ! i = []" and dr: "drop (Suc i) (table t) = replicate (length bs) []"
    using lt by (simp_all add: Cons_nth_drop_Suc [symmetric])
  let ?t = "table_set t (of_nat i) (rev b)"
  have "table ?t = (table t)[i := rev b]" by (simp add: i)
  then have "take (Suc i) (table ?t) = take i (table t) @ [rev b]" "drop (Suc i) (table ?t) = replicate (length bs) []"
    using lt dr by (simp_all add: take_Suc_conv_app_nth)
  moreover have "?t\<lparr>table := xs\<rparr> = t\<lparr>table := xs\<rparr>" for xs by (simp add: table_set_def)
  ultimately have "clone_buckets True (Suc i) bs ?t = Some (t\<lparr>table := take i (table t) @ rev b # map rev bs\<rparr>)"
    using Cons.IH [of ?t "Suc i"] Cons.prems by simp
  then show ?case using lt at by (simp add: table_at_def i clone_bucket_eq)
qed

lemma clone_hashed_eq: "(\<And>v. HV v = HF (GK v)) \<Longrightarrow> clone_hashed True HV b t = move_bucket HF GK b t"
  by (induction b arbitrary: t) (simp_all add: Let_def slot_EmplaceFront_def)

lemma slots_mset_concat: "slots_mset (\<lambda>b. b) bs = mset (concat bs)"
  by (induction bs) simp_all

lemma slots_mset_rev: "slots_mset (\<lambda>b. b) (map rev bs) = slots_mset (\<lambda>b. b) bs"
  by (induction bs) simp_all

lemma drop_empties:
  assumes "\<forall>j < i. bs ! j = []"
  shows "mset (concat (drop i bs)) = slots_mset (\<lambda>b. b) bs"
proof -
  have "concat (take i bs) = []"
    using assms by (auto simp: in_set_conv_nth)
  then have "concat bs = concat (drop i bs)"
    by (metis append_Nil append_take_drop_id concat_append)
  then show ?thesis by (simp add: slots_mset_concat)
qed

text \<open>Growing the four empty buckets of a new table.\<close>

lemma Grow_new:
  assumes t: "t = \<lparr>table = replicate 4 [], used = 0, size_mask = 3\<rparr>" and "2 \<le> k" "k \<le> 60"
  shows "Table_Grow True (of_nat (2 ^ k)) t = Inr \<lparr>table = replicate (2 ^ k) [], used = 0, size_mask = of_nat (2 ^ k) - 1\<rparr>"
proof -
  have "(2::nat) ^ k < 2 ^ 64" using assms by (intro power_strict_increasing) auto
  then have u: "unat (of_nat (2 ^ k) :: size_t) = 2 ^ k" by (intro unat_of_nat_lt) simp
  have "(2::nat) ^ 2 \<le> 2 ^ k" by (rule power_increasing) (use assms in auto)
  then have n: "(4::nat) \<le> 2 ^ k" by simp
  show ?thesis
  proof (cases "(2::nat) ^ k = 4")
    case True
    then show ?thesis unfolding True t by (simp add: Table_Grow_def Table_size_def numeral_eq_Suc)
  next
    case False
    then have "\<not> (of_nat (2 ^ k) :: size_t) \<le> 4" using u n by (simp add: word_le_nat_alt del: of_nat_power)
    moreover have "replicate 4 [] @ replicate (2 ^ k - 4) [] = replicate (2 ^ k) ([] :: 'a slot)"
      using n by (simp only: replicate_add [symmetric]) simp
    ultimately show ?thesis using u unfolding t
      by (simp add: Table_Grow_def Table_size_def del: of_nat_power replicate_Suc)
  qed
qed

lemma Clone_ok:
  fixes HF :: "'k \<Rightarrow> u64" and GK :: "'v \<Rightarrow> 'k"
  assumes inv: "ht_inv HF GK ht" and HV: "\<And>v. HV v = HF (GK v)" and new: "HashTable_new True = Inr this"
  shows "\<exists>ht'. Clone True True HV this ht = Some (Inr ht') \<and> ht_inv HF GK ht' \<and> entries ht' = entries ht
    \<and> \<not> InRehashing ht' \<and> (\<not> InRehashing ht \<longrightarrow> table (table1 ht') = map rev (table (table1 ht)))"
proof -
  let ?src = "if InRehashing ht then table2 ht else table1 ht"
  let ?n = "length (table ?src)"
  have ok: "table_ok HF GK ?src" using inv by (simp add: ht_inv_def)
  then obtain k where k: "2 \<le> k" "k \<le> 60" "?n = 2 ^ k" by (auto simp: table_ok_def simp del: if_split)
  have thisD: "this = \<lparr>table1 = \<lparr>table = replicate 4 [], used = 0, size_mask = 3\<rparr>, table2 = Table_init, rehash_move_bucket_index = - 1\<rparr>"
    using new by (simp add: HashTable_new_ok)
  let ?t0 = "\<lparr>table = replicate ?n [], used = 0, size_mask = of_nat ?n - 1\<rparr> :: 'v Table"
  let ?t1 = "\<lparr>table = map rev (table ?src), used = 0, size_mask = of_nat ?n - 1\<rparr> :: 'v Table"
  have g: "Table_Grow True (Table_size ?src) (table1 this) = Inr ?t0"
    using Grow_new [OF _ k(1,2), of "table1 this"] thisD unfolding Table_size_def k(3) by simp
  have "?n < 2 ^ 64" using table_ok_length [OF ok] by simp
  then have c: "clone_buckets True 0 (table ?src) ?t0 = Some ?t1"
    using clone_buckets_eq [of ?t0 0 "table ?src"] by simp
  have ok1: "table_ok HF GK ?t1"
    using ok k by (auto simp: table_ok_def Table_size_def hashed_def simp del: if_split)
  have e1: "slots_entries ?t1 = slots_entries ?src"
    by (simp only: slots_entries_def Table.simps slots_mset_rev)
  let ?rest = "if InRehashing ht then concat (drop (unat (rehash_move_bucket_index ht)) (table (table1 ht))) else []"
  from move_bucket_ok [OF ok1, of ?rest] obtain t2 where
    t2: "move_bucket HF GK ?rest ?t1 = Some t2" "table_ok HF GK t2" "length (table t2) = ?n"
      "slots_entries t2 = mset ?rest + slots_entries ?src"
    unfolding e1 by (auto simp del: if_split)
  let ?ht' = "this\<lparr>table1 := t2\<lparr>used := used (table1 ht)\<rparr>\<rparr>"
  have C: "Clone True True HV this ht = Some (Inr ?ht')"
    using g c t2(1) by (cases "InRehashing ht") (simp_all add: Clone_def Let_def clone_hashed_eq [of HV HF GK, OF HV])
  have r: "\<not> InRehashing ?ht'" by (simp add: thisD InRehashing_def)
  have ee: "entries ?ht' = slots_entries t2" by (simp add: entries_def slots_entries_def thisD Table_init_def)
  have "mset ?rest + slots_entries ?src = entries ht"
    using inv drop_empties [of "unat (rehash_move_bucket_index ht)" "table (table1 ht)"]
    by (auto simp: entries_def ht_inv_def slots_entries_def)
  then have e: "entries ?ht' = entries ht" using ee t2(4) by simp
  have rm: "room ht \<le> room ?ht'"
    using ht_inv_bounds(4) [OF inv] inv t2(3) r by (auto simp: room_def ht_inv_def)
  have "table_ok HF GK (table1 ?ht')" using t2(2) by (simp add: table_ok_def Table_size_def)
  then have "ht_inv HF GK ?ht'"
    using inv rm r e by (simp add: ht_inv_def thisD Table_init_def)
  moreover have "\<not> InRehashing ht \<longrightarrow> table (table1 ?ht') = map rev (table (table1 ht))"
    using t2(1) by auto
  ultimately show ?thesis using C e r by blast
qed

end
