(* ===== verification/Simulation.thy ===== *)
theory Simulation
  imports Prelude
begin

text \<open>
  Sequences of operations against a specification. The states of a model and of its specification
  are related step by step in the locale \<open>simulation\<close>; that whole runs are related follows once, and the
  interfaces of the containers (\<open>map_impl\<close>, \<open>deque\<close>, the arrays) are instances of it.
\<close>

text \<open>A sequence of operations, each of which returns a result and may be undefined.\<close>

fun run_steps :: "('op \<Rightarrow> 's \<Rightarrow> ('out \<times> 's) option) \<Rightarrow> 'op list \<Rightarrow> 's \<Rightarrow> ('out list \<times> 's) option" where
  "run_steps step [] s = Some ([], s)"
| "run_steps step (op # ops) s = do {
     (out, s) \<leftarrow> step op s;
     (outs, s) \<leftarrow> run_steps step ops s;
     Some (out # outs, s) }"

text \<open>
  \<open>rep s x n\<close>: the state \<open>s\<close> represents \<open>x\<close>, after at most \<open>n\<close> operations, of which there may be as many as
  the limit; \<open>good\<close> are the operations the promise is about. Where the specification is undefined, so is
  the model.
\<close>

locale simulation =
  fixes rep :: "'s \<Rightarrow> 'x \<Rightarrow> nat \<Rightarrow> bool" and limit :: nat and good :: "'op \<Rightarrow> bool"
    and step :: "'op \<Rightarrow> 's \<Rightarrow> ('out \<times> 's) option" and spec :: "'op \<Rightarrow> 'x \<Rightarrow> ('out \<times> 'x) option"
  assumes simulates: "rep s x n \<Longrightarrow> n < limit \<Longrightarrow> good op \<Longrightarrow>
    (case spec op x of
       None \<Rightarrow> step op s = None
     | Some (out, x') \<Rightarrow> (\<exists>s'. step op s = Some (out, s') \<and> rep s' x' (Suc n)))"
begin

lemma run_simulates:
  "rep s x n \<Longrightarrow> n + length ops \<le> limit \<Longrightarrow> list_all good ops \<Longrightarrow>
    (case run_steps spec ops x of
       None \<Rightarrow> run_steps step ops s = None
     | Some (outs, x') \<Rightarrow> (\<exists>s'. run_steps step ops s = Some (outs, s') \<and> rep s' x' (n + length ops)))"
proof (induction ops arbitrary: s x n)
  case (Cons op ops)
  then have "n < limit" and "good op" by simp_all
  note R = simulates [OF Cons.prems(1) this]
  show ?case
  proof (cases "spec op x")
    case None
    with R show ?thesis by simp
  next
    case (Some r)
    obtain out x1 where r: "r = (out, x1)" by (cases r)
    with Some R obtain s1 where s1: "step op s = Some (out, s1)" "rep s1 x1 (Suc n)" by auto
    have "Suc n + length ops \<le> limit" and "list_all good ops" using Cons.prems(2,3) by simp_all
    from Cons.IH [OF s1(2) this] show ?thesis using Some r s1(1) by (auto split: option.splits)
  qed
qed simp

end

end
