(* ===== verification/Map_Spec.thy ===== *)
theory Map_Spec
  imports Simulation Bucket
begin

text \<open>
  The specification both keyed containers implement, \<open>HashTable\<close> and \<open>AvlTree\<close>: sequences of
  insertions, lookups, erasures and clears on a finite map from keys to entries.
\<close>

datatype ('k, 'v) map_op = Op_Insert 'v | Op_Find 'k | Op_Erase 'k | Op_Clear

datatype 'v map_out = Inserted bool 'v | Found "'v option" | Erased nat | Cleared | Threw

fun map_step :: "('v \<Rightarrow> 'k) \<Rightarrow> ('k, 'v) map_op \<Rightarrow> ('k \<rightharpoonup> 'v) \<Rightarrow> 'v map_out \<times> ('k \<rightharpoonup> 'v)" where
  "map_step GK (Op_Insert v) m =
     (case m (GK v) of Some d \<Rightarrow> (Inserted False d, m) | None \<Rightarrow> (Inserted True v, m(GK v \<mapsto> v)))"
| "map_step GK (Op_Find k) m = (Found (m k), m)"
| "map_step GK (Op_Erase k) m = (Erased (if m k = None then 0 else 1), m(k := None))"
| "map_step GK Op_Clear m = (Cleared, Map.empty)"

fun map_run :: "('v \<Rightarrow> 'k) \<Rightarrow> ('k, 'v) map_op list \<Rightarrow> ('k \<rightharpoonup> 'v) \<Rightarrow> 'v map_out list \<times> ('k \<rightharpoonup> 'v)" where
  "map_run GK [] m = ([], m)"
| "map_run GK (op # ops) m =
     (case map_step GK op m of (out, m) \<Rightarrow> apfst ((#) out) (map_run GK ops m))"

text \<open>The count is the number of keys.\<close>

lemma card_entry_map: "unique_keys GK M \<Longrightarrow> finite (dom (entry_map GK M)) \<and> card (dom (entry_map GK M)) = size M"
proof (induction M)
  case (add v M)
  then have u: "unique_keys GK M" and "entry_map GK M (GK v) = None"
    by (auto simp: unique_keys_add entry_map_None)
  then have "GK v \<notin> dom (entry_map GK M)" by blast
  with add u show ?case by (simp add: entry_map_add [OF add.prems] del: fun_upd_apply)
qed simp

text \<open>
  What an implementation promises, as a locale: \<open>rep s m n\<close> says that the state \<open>s\<close> stands for the
  map \<open>m\<close>, with at most \<open>n\<close> entries, and each operation does to the map what \<open>map_step\<close> says as
  long as \<open>n\<close> is below the limit. A run of operations is then a run on the map.
\<close>

locale map_impl =
  fixes GK :: "'v \<Rightarrow> 'k" and step :: "('k, 'v) map_op \<Rightarrow> 's \<Rightarrow> ('v map_out \<times> 's) option"
    and rep :: "'s \<Rightarrow> ('k \<rightharpoonup> 'v) \<Rightarrow> nat \<Rightarrow> bool" and limit :: nat
  assumes step_refines: "rep s m n \<Longrightarrow> n < limit \<Longrightarrow>
    \<exists>s'. step op s = Some (fst (map_step GK op m), s') \<and> rep s' (snd (map_step GK op m)) (Suc n)"

lemma run_steps_total: "run_steps (\<lambda>op m. Some (map_step GK op m)) ops m = Some (map_run GK ops m)"
  by (induction ops arbitrary: m) (auto simp: split_beta prod_eq_iff)

sublocale map_impl \<subseteq> runs: simulation rep limit "\<lambda>_. True" step "\<lambda>op m. Some (map_step GK op m)"
  by unfold_locales (use step_refines in \<open>auto simp: split_beta\<close>)

context map_impl begin

lemma run_refines:
  assumes "rep s m n" and "n + length ops \<le> limit"
  shows "\<exists>s'. run_steps step ops s = Some (fst (map_run GK ops m), s') \<and> rep s' (snd (map_run GK ops m)) (n + length ops)"
  using runs.run_simulates [of s m n ops] assms by (auto simp: run_steps_total list_all_iff split_beta)

end

text \<open>An implementation that also reports how many entries it holds.\<close>

locale counted_map_impl = map_impl GK step rep limit
  for GK :: "'v \<Rightarrow> 'k" and step :: "('k, 'v) map_op \<Rightarrow> 's \<Rightarrow> ('v map_out \<times> 's) option"
    and rep :: "'s \<Rightarrow> ('k \<rightharpoonup> 'v) \<Rightarrow> nat \<Rightarrow> bool" and limit +
  fixes count_of :: "'s \<Rightarrow> nat"
  assumes count_of: "rep s m n \<Longrightarrow> count_of s = card (dom m)"
begin

lemma run_from_empty:
  assumes "rep s Map.empty 0" and "length ops \<le> limit"
  shows "\<exists>s'. run_steps step ops s = Some (fst (map_run GK ops Map.empty), s')
    \<and> rep s' (snd (map_run GK ops Map.empty)) (length ops) \<and> count_of s' = card (dom (snd (map_run GK ops Map.empty)))"
  using run_refines [OF assms(1), of ops] assms(2) count_of by auto

end

end
