(* ===== verification/Hash_Table_Props.thy ===== *)
theory Hash_Table_Props
  imports Hash_Table_Ops Map_Spec
begin

text \<open>
  The properties of \<open>HashTable\<close>: one operation at a time and sequences of operations against
  a finite map, the end of the incremental rehash, the load bound, exception safety, cloning,
  and the count after \<open>EraseAfterFindSlot\<close>.
\<close>

section \<open>Sequences of operations\<close>

fun ht_step :: "('k \<Rightarrow> u64) \<Rightarrow> ('v \<Rightarrow> 'k) \<Rightarrow> ('k, 'v) map_op \<Rightarrow> 'v HashTable \<Rightarrow> ('v map_out \<times> 'v HashTable) option" where
  "ht_step HF GK (Op_Insert v) ht = do {
     (r, ht) \<leftarrow> InsertWithDuplicate True True HF GK v ht;
     Some (case r of Inl _ \<Rightarrow> Threw | Inr (b, e) \<Rightarrow> Inserted b e, ht) }"
| "ht_step HF GK (Op_Find k) ht = do { (r, ht) \<leftarrow> Find HF GK k ht; Some (Found r, ht) }"
| "ht_step HF GK (Op_Erase k) ht = do { (n, ht) \<leftarrow> Erase HF GK k ht; Some (Erased n, ht) }"
| "ht_step HF GK Op_Clear ht = do {
     r \<leftarrow> Clear True ht;
     Some (case r of Inl _ \<Rightarrow> (Threw, ht) | Inr ht \<Rightarrow> (Cleared, ht)) }"

abbreviation ht_run :: "('k \<Rightarrow> u64) \<Rightarrow> ('v \<Rightarrow> 'k) \<Rightarrow> ('k, 'v) map_op list \<Rightarrow> 'v HashTable \<Rightarrow> ('v map_out list \<times> 'v HashTable) option" where
  "ht_run HF GK \<equiv> run_steps (ht_step HF GK)"

lemma ht_step_refines:
  assumes inv: "ht_inv HF GK ht" and small: "size (entries ht) < 2 ^ 60"
  shows "\<exists>ht'. ht_step HF GK op ht = Some (fst (map_step GK op (ht_map GK ht)), ht') \<and> ht_inv HF GK ht'
    \<and> ht_map GK ht' = snd (map_step GK op (ht_map GK ht)) \<and> size (entries ht') \<le> Suc (size (entries ht))"
proof (cases op)
  case (Op_Insert v)
  from InsertWithDuplicate_ok [OF inv small, where ok = True and node = True and elem = v] obtain r ht' where
    r: "InsertWithDuplicate True True HF GK v ht = Some (Inr r, ht')" "ht_inv HF GK ht'"
      "case ht_map GK ht (GK v) of Some d \<Rightarrow> r = (False, d) \<and> entries ht' = entries ht
       | None \<Rightarrow> r = (True, v) \<and> entries ht' = add_mset v (entries ht)"
    by (auto simp: inserted_ok_def split: option.splits)
  show ?thesis
  proof (cases "ht_map GK ht (GK v)")
    case None
    with r ht_map_insert [OF r(2), of v ht] show ?thesis by (auto simp: Op_Insert)
  next
    case (Some d)
    with r ht_map_entries [of ht' ht GK] show ?thesis by (auto simp: Op_Insert)
  qed
next
  case (Op_Find k)
  from Find_ok [OF inv, of k] obtain ht' where
    "Find HF GK k ht = Some (ht_map GK ht k, ht')" "ht_inv HF GK ht'" "entries ht' = entries ht" by blast
  then show ?thesis using ht_map_entries [of ht' ht GK] by (simp add: Op_Find)
next
  case (Op_Erase k)
  from Erase_ok [OF inv, of k] obtain ht' where
    "Erase HF GK k ht = Some (if ht_map GK ht k = None then 0 else 1, ht')" "ht_inv HF GK ht'"
    "ht_map GK ht' = (ht_map GK ht)(k := None)" "size (entries ht') \<le> size (entries ht)" by blast
  then show ?thesis by (simp add: Op_Erase)
next
  case Op_Clear
  with Clear_ok [OF inv] show ?thesis by (auto simp: ht_map_def)
qed

lemma HashTable_size_ok: "ht_inv HF GK ht \<Longrightarrow> unat (HashTable_size ht) = card (dom (ht_map GK ht))"
  using card_entry_map [of GK "entries ht"] by (simp add: HashTable_size_def ht_inv_def ht_map_def)

definition ht_rep :: "('k \<Rightarrow> u64) \<Rightarrow> ('v \<Rightarrow> 'k) \<Rightarrow> 'v HashTable \<Rightarrow> ('k \<rightharpoonup> 'v) \<Rightarrow> nat \<Rightarrow> bool" where
  "ht_rep HF GK ht m n \<longleftrightarrow> ht_inv HF GK ht \<and> m = ht_map GK ht \<and> size (entries ht) \<le> n"

interpretation hash_map: counted_map_impl GK "ht_step HF GK" "ht_rep HF GK" "2 ^ 60" "\<lambda>ht. unat (HashTable_size ht)"
  for HF GK
proof
  fix ht m op and n :: nat
  assume "ht_rep HF GK ht m n"
  then have rep: "ht_inv HF GK ht" "m = ht_map GK ht" "size (entries ht) \<le> n" by (simp_all add: ht_rep_def)
  show "unat (HashTable_size ht) = card (dom m)" using HashTable_size_ok [OF rep(1)] rep(2) by simp
  assume "n < 2 ^ 60"
  with rep(3) have "size (entries ht) < 2 ^ 60" by simp
  from ht_step_refines [OF rep(1) this, of op] rep(2,3)
  show "\<exists>ht'. ht_step HF GK op ht = Some (fst (map_step GK op m), ht') \<and> ht_rep HF GK ht' (snd (map_step GK op m)) (Suc n)"
    by (auto simp: ht_rep_def)
qed

section \<open>Example tables\<close>

text \<open>A new table, a full one and one in a rehash, for the instances of the properties below.\<close>

definition demo_table :: "u64 HashTable" where
  "demo_table = \<lparr>table1 = \<lparr>table = replicate 4 [], used = 0, size_mask = 3\<rparr>,
     table2 = Table_init, rehash_move_bucket_index = - 1\<rparr>"

lemma demo_table_inv: "ht_inv HF GK demo_table"
  using new_inv [of True demo_table HF GK] by (simp add: demo_table_def HashTable_new_ok)

lemma demo_table_entries [simp]: "entries demo_table = {#}"
  using new_inv [of True demo_table "\<lambda>k. k" "\<lambda>k. k"] by (simp add: demo_table_def HashTable_new_ok)

definition demo_rehashing :: "u64 HashTable" where
  "demo_rehashing = \<lparr>table1 = \<lparr>table = [[4], [1], [6], [7]], used = 4, size_mask = 3\<rparr>,
     table2 = \<lparr>table = replicate 8 [], used = 0, size_mask = 7\<rparr>, rehash_move_bucket_index = 0\<rparr>"

lemma demo_rehashing_facts:
  "InRehashing demo_rehashing" "length (table (table1 demo_rehashing)) = 4"
  "unat (rehash_move_bucket_index demo_rehashing) = 0" "entries demo_rehashing = {#4, 1, 6, 7#}"
  by (simp_all add: demo_rehashing_def InRehashing_def entries_def slots_entries_def)

lemma demo_rehashing_hashed: "hashed (\<lambda>b. b) (\<lambda>v. unat (v :: u64) mod 4) [[4], [1], [6], [7]]"
  by (auto simp: hashed_def less_Suc_eq)

lemma demo_rehashing_inv: "ht_inv (\<lambda>k. k) (\<lambda>k. k) demo_rehashing"
proof -
  have "\<exists>k. 2 \<le> k \<and> k \<le> 60 \<and> length (table (table1 demo_rehashing)) = 2 ^ k"
    by (rule exI [of _ 2]) (simp add: demo_rehashing_def)
  then have 1: "table_ok (\<lambda>k. k) (\<lambda>k. k) (table1 demo_rehashing)"
    using demo_rehashing_hashed unfolding table_ok_def by (simp add: demo_rehashing_def Table_size_def)
  have "\<exists>k. 2 \<le> k \<and> k \<le> 60 \<and> (8::nat) = 2 ^ k" by (rule exI [of _ 3]) simp
  then have 2: "table_ok (\<lambda>k. k) (\<lambda>k. k) (table2 demo_rehashing)"
    by (simp add: table_ok_def demo_rehashing_def Table_size_def hashed_replicate)
  show ?thesis
    unfolding ht_inv_def room_def demo_rehashing_facts using demo_rehashing_facts(1) 1 2
    by (simp add: unique_keys_add) (simp add: demo_rehashing_def)
qed

lemma demo_rehashing_map:
  "ht_map (\<lambda>k. k) demo_rehashing k = (if k \<in> {4, 1, 6, 7} then Some k else None)"
proof -
  have "unique_keys (\<lambda>k. k) (entries demo_rehashing)" using demo_rehashing_inv by (simp add: ht_inv_def)
  note m = entry_map_iff [OF this, of k k] entry_map_None [of "\<lambda>k. k" "entries demo_rehashing" k]
  show ?thesis using m by (auto simp: ht_map_def demo_rehashing_facts)
qed

definition demo_full :: "u64 HashTable" where
  "demo_full = \<lparr>table1 = \<lparr>table = [[4], [1], [6], [7]], used = 4, size_mask = 3\<rparr>, table2 = Table_init,
     rehash_move_bucket_index = - 1\<rparr>"

lemma demo_full_facts:
  "\<not> InRehashing demo_full" "length (table (table1 demo_full)) = 4" "entries demo_full = {#4, 1, 6, 7#}"
  "unat (HashTable_size demo_full) = 4" "ht_map (\<lambda>k. k) demo_full = ht_map (\<lambda>k. k) demo_rehashing"
  by (simp_all add: demo_full_def InRehashing_def entries_def slots_entries_def HashTable_size_def Table_init_def
      ht_map_def demo_rehashing_def)

lemma demo_full_inv: "ht_inv (\<lambda>k. k) (\<lambda>k. k) demo_full"
proof -
  have "table_ok (\<lambda>k. k) (\<lambda>k. k) (table1 demo_full)" and "unique_keys (\<lambda>k. k) (entries demo_full)"
    using demo_rehashing_inv by (simp_all add: ht_inv_def demo_full_facts demo_rehashing_facts)
      (simp_all add: demo_full_def demo_rehashing_def)
  then show ?thesis
    by (simp add: ht_inv_def demo_full_facts room_def) (simp add: demo_full_def Table_init_def)
qed

section \<open>Properties\<close>

text \<open>
  C3: from construction on, any sequence of insertions, lookups, erasures and clears of at most
  2^60 operations is defined (no bucket index is out of range) and its results are those of a
  finite map, whatever the hash function and the phase of the rehash; the reported size is the
  number of keys.
\<close>
theorem hash_table_refines_map:
  fixes HF :: "'k \<Rightarrow> u64" and GK :: "'v \<Rightarrow> 'k"
  assumes "length ops \<le> 2 ^ 60"
  shows "\<exists>ht ht'. HashTable_new True = Inr ht \<and> ht_run HF GK ops ht = Some (fst (map_run GK ops Map.empty), ht')
    \<and> ht_map GK ht' = snd (map_run GK ops Map.empty) \<and> unat (HashTable_size ht') = card (dom (ht_map GK ht'))"
proof -
  obtain ht :: "'v HashTable" where new: "HashTable_new True = Inr ht" using HashTable_new_ok(1) by blast
  from new_inv [OF new, of HF GK] have ht: "ht_inv HF GK ht" "ht_map GK ht = Map.empty" "entries ht = {#}"
    by (auto simp: ht_map_def)
  then have "ht_rep HF GK ht Map.empty 0" by (simp add: ht_rep_def)
  from hash_map.run_from_empty [OF this assms] new show ?thesis by (auto simp: ht_rep_def)
qed

definition demo_ops :: "(u64, u64 \<times> nat) map_op list" where
  "demo_ops = [Op_Insert (1, 5), Op_Insert (1, 6), Op_Find 1, Op_Erase 1, Op_Find 1]"

theorem hash_table_refines_map_witness:
  "\<exists>ht ht'. HashTable_new True = Inr ht
    \<and> ht_run (\<lambda>k. k) fst demo_ops ht
        = Some ([Inserted True (1, 5), Inserted False (1, 5), Found (Some (1, 5)), Erased 1, Found None], ht')
    \<and> unat (HashTable_size ht') = 0"
proof -
  have m: "map_run fst demo_ops Map.empty =
      ([Inserted True (1, 5), Inserted False (1, 5), Found (Some (1, 5)), Erased 1, Found None], Map.empty)"
    by (simp add: demo_ops_def)
  have "length demo_ops \<le> 2 ^ 60" by (simp add: demo_ops_def)
  from hash_table_refines_map [OF this, of "\<lambda>k. k" fst] show ?thesis unfolding m by auto
qed

text \<open>
  C18: \<open>InsertWithDuplicate\<close> on any valid table that holds fewer than 2^60 entries, whichever of its
  allocations succeed. If a rehash has to start, because the table is full and none runs, and its
  buckets get no memory, it throws and the table is exactly as before. In every other case it does
  not throw: a known key is reported with its entry and the map stays, even where there is no
  memory for a node; a new key is added when there is a node for it, and the invariant holds;
  without a node the value is constructed at a null address and the outcome is undefined.
\<close>
theorem hash_insert:
  assumes inv: "ht_inv HF GK ht" and small: "size (entries ht) < 2 ^ 60"
  shows "if \<not> InRehashing ht \<and> length (table (table1 ht)) \<le> size (entries ht) \<and> \<not> ok
    then InsertWithDuplicate ok node HF GK elem ht = Some (Inl bad_alloc, ht)
    else (case ht_map GK ht (GK elem) of
        Some d \<Rightarrow> \<exists>ht'. InsertWithDuplicate ok node HF GK elem ht = Some (Inr (False, d), ht') \<and> ht_inv HF GK ht'
          \<and> ht_map GK ht' = ht_map GK ht
      | None \<Rightarrow>
          if node then \<exists>ht'. InsertWithDuplicate ok node HF GK elem ht = Some (Inr (True, elem), ht') \<and> ht_inv HF GK ht'
            \<and> ht_map GK ht' = (ht_map GK ht)(GK elem \<mapsto> elem)
          else InsertWithDuplicate ok node HF GK elem ht = None)"
proof (cases "must_rehash ht \<and> \<not> ok")
  case True
  then show ?thesis
    using InsertWithDuplicate_ok [OF inv small, where ok = ok and node = node and elem = elem] by (simp add: must_rehash_def)
next
  case False
  then have "inserted_ok node HF GK elem ht (InsertWithDuplicate ok node HF GK elem ht)"
    using InsertWithDuplicate_ok [OF inv small, where ok = ok and node = node and elem = elem] by simp
  then have "case ht_map GK ht (GK elem) of
        Some d \<Rightarrow> \<exists>ht'. InsertWithDuplicate ok node HF GK elem ht = Some (Inr (False, d), ht') \<and> ht_inv HF GK ht'
          \<and> ht_map GK ht' = ht_map GK ht
      | None \<Rightarrow>
          if node then \<exists>ht'. InsertWithDuplicate ok node HF GK elem ht = Some (Inr (True, elem), ht') \<and> ht_inv HF GK ht'
            \<and> ht_map GK ht' = (ht_map GK ht)(GK elem \<mapsto> elem)
          else InsertWithDuplicate ok node HF GK elem ht = None"
    using ht_map_insert [of HF GK _ elem ht] by (auto simp: inserted_ok_def intro: ht_map_entries split: option.splits)
  with False show ?thesis by (auto simp: must_rehash_def split: option.split)
qed

theorem hash_insert_witness:
  "InsertWithDuplicate False True (\<lambda>k. k) (\<lambda>k. k) 9 demo_full = Some (Inl bad_alloc, demo_full)
    \<and> (\<exists>ht'. InsertWithDuplicate True False (\<lambda>k. k) (\<lambda>k. k) 6 demo_full = Some (Inr (False, 6), ht'))
    \<and> InsertWithDuplicate True False (\<lambda>k. k) (\<lambda>k. k) 9 demo_full = None
    \<and> (\<exists>ht'. InsertWithDuplicate False True (\<lambda>k. k) (\<lambda>k. k) 9 demo_rehashing = Some (Inr (True, 9), ht') \<and> ht_map (\<lambda>k. k) ht' 9 = Some 9)"
proof -
  have "size (entries demo_full) < 2 ^ 60" "size (entries demo_rehashing) < 2 ^ 60"
    by (simp_all add: demo_full_facts demo_rehashing_facts)
  note I = hash_insert [OF demo_full_inv this(1)] hash_insert [OF demo_rehashing_inv this(2)]
  show ?thesis
    using I(1) [where ok = False and node = True and elem = 9] I(1) [where ok = True and node = False and elem = 6]
      I(1) [where ok = True and node = False and elem = 9] I(2) [where ok = False and node = True and elem = 9]
    by (auto simp: demo_full_facts demo_rehashing_facts demo_rehashing_map)
qed

text \<open>
  C19: \<open>Find\<close> returns the entry of the key in the first or the second table and keeps all
  entries, although it moves the entry to the front of its bucket and may finish a rehash.
\<close>
theorem hash_find:
  assumes "ht_inv HF GK ht"
  shows "\<exists>ht'. Find HF GK k ht = Some (ht_map GK ht k, ht') \<and> ht_inv HF GK ht' \<and> entries ht' = entries ht"
  using assms by (rule Find_ok)

theorem hash_find_witness:
  "\<exists>ht'. Find (\<lambda>k. k) (\<lambda>k. k) 6 demo_rehashing = Some (Some 6, ht') \<and> entries ht' = {#4, 1, 6, 7#}"
  using hash_find [OF demo_rehashing_inv, of 6] by (auto simp: demo_rehashing_facts demo_rehashing_map)

text \<open>
  C20: \<open>Erase\<close> reports whether the key was there and removes exactly its entry, in any phase.
\<close>
theorem hash_erase:
  assumes "ht_inv HF GK ht"
  shows "\<exists>ht'. Erase HF GK k ht = Some (if ht_map GK ht k = None then 0 else 1, ht')
    \<and> ht_inv HF GK ht' \<and> ht_map GK ht' = (ht_map GK ht)(k := None)"
  using Erase_ok [OF assms, of k] by blast

theorem hash_erase_witness:
  "\<exists>ht'. Erase (\<lambda>k. k) (\<lambda>k. k) 6 demo_rehashing = Some (1, ht')
    \<and> ht_map (\<lambda>k. k) ht' 6 = None \<and> ht_map (\<lambda>k. k) ht' 7 = Some 7"
  using hash_erase [OF demo_rehashing_inv, of 6] by (auto simp: demo_rehashing_map)

subsection \<open>The incremental rehash\<close>

fun rehash_steps :: "('k \<Rightarrow> u64) \<Rightarrow> ('v \<Rightarrow> 'k) \<Rightarrow> nat \<Rightarrow> 'v HashTable \<Rightarrow> 'v HashTable option" where
  "rehash_steps HF GK 0 ht = Some ht"
| "rehash_steps HF GK (Suc n) ht = do { ht \<leftarrow> IncrementalRehash HF GK ht; rehash_steps HF GK n ht }"

lemma IncrementalRehash_progress:
  assumes inv: "ht_inv HF GK ht" and re: "InRehashing ht"
  shows "\<exists>ht'. IncrementalRehash HF GK ht = Some ht' \<and> ht_inv HF GK ht' \<and> entries ht' = entries ht
    \<and> (if Suc (unat (rehash_move_bucket_index ht)) = length (table (table1 ht))
       then \<not> InRehashing ht' \<and> length (table (table1 ht')) = 2 * length (table (table1 ht))
       else InRehashing ht' \<and> length (table (table1 ht')) = length (table (table1 ht))
         \<and> unat (rehash_move_bucket_index ht') = Suc (unat (rehash_move_bucket_index ht)))"
proof -
  from IncrementalRehash_ok [OF inv] re obtain ht' where
    ht': "IncrementalRehash HF GK ht = Some ht'" "ht_inv HF GK ht'" "entries ht' = entries ht" "room ht' = Suc (room ht)"
    by auto
  let ?n = "length (table (table1 ht))" and ?i = "unat (rehash_move_bucket_index ht)"
  have m: "room ht = ?n + ?i" and i: "?i < ?n" using inv re by (simp_all add: room_def ht_inv_def)
  have "InRehashing ht' \<and> length (table (table1 ht')) = ?n \<or> \<not> InRehashing ht' \<and> length (table (table1 ht')) = 2 * ?n"
    using inv re ht'(1)
  proof -
    from ht'(1) re obtain t2 where t2: "move_bucket HF GK (table (table1 ht) ! ?i) (table2 ht) = Some t2"
      "ht' = finish_rehash (ht\<lparr>table1 := table_set (table1 ht) (rehash_move_bucket_index ht) [], table2 := t2,
          rehash_move_bucket_index := rehash_move_bucket_index ht + 1\<rparr>)"
      by (auto simp: IncrementalRehash_def Let_def table_at_def split: option.splits Option.bind_splits if_splits)
    have "length (table t2) = 2 * ?n"
      using move_bucket_ok [of HF GK "table2 ht" "table (table1 ht) ! ?i"] inv re t2(1) by (auto simp: ht_inv_def)
    moreover from this have "table t2 \<noteq> []" using i by auto
    moreover have "rehash_move_bucket_index ht + 1 \<noteq> - 1"
      using word_inc [OF i] ht_inv_bounds(3) [OF inv] i InRehashing_index [of "rehash_move_bucket_index ht + 1"] by simp
    ultimately show ?thesis
      unfolding t2(2) by (auto simp: finish_rehash_def Let_def Table_swap_def InRehashing_def)
  qed
  then show ?thesis
    using ht' m i ht'(2) by (auto simp: room_def ht_inv_def)
qed

lemma rehash_steps_ok:
  "ht_inv HF GK ht \<Longrightarrow> InRehashing ht \<Longrightarrow> n = length (table (table1 ht)) - unat (rehash_move_bucket_index ht) \<Longrightarrow>
    \<exists>ht'. rehash_steps HF GK n ht = Some ht' \<and> ht_inv HF GK ht' \<and> \<not> InRehashing ht' \<and> entries ht' = entries ht
      \<and> length (table (table1 ht')) = 2 * length (table (table1 ht))"
proof (induction n arbitrary: ht)
  case 0
  then show ?case by (auto simp: ht_inv_def)
next
  case (Suc n)
  from IncrementalRehash_progress [OF Suc.prems(1,2)] obtain ht1 where
    1: "IncrementalRehash HF GK ht = Some ht1" "ht_inv HF GK ht1" "entries ht1 = entries ht"
      "if Suc (unat (rehash_move_bucket_index ht)) = length (table (table1 ht))
       then \<not> InRehashing ht1 \<and> length (table (table1 ht1)) = 2 * length (table (table1 ht))
       else InRehashing ht1 \<and> length (table (table1 ht1)) = length (table (table1 ht))
         \<and> unat (rehash_move_bucket_index ht1) = Suc (unat (rehash_move_bucket_index ht))" by blast
  show ?case
  proof (cases "Suc (unat (rehash_move_bucket_index ht)) = length (table (table1 ht))")
    case True
    then have "n = 0" using Suc.prems(3) by simp
    with 1 True show ?thesis by simp
  next
    case False
    then have "n = length (table (table1 ht1)) - unat (rehash_move_bucket_index ht1)" using 1(4) Suc.prems(3) by simp
    from Suc.IH [OF 1(2) _ this] 1 False show ?thesis by simp
  qed
qed

text \<open>
  C21: a rehash ends: one bucket moves with every operation, and after as many steps as buckets
  are left the table is out of the rehash, has twice the buckets and the same entries.
\<close>
theorem rehash_completes:
  assumes "ht_inv HF GK ht" and "InRehashing ht"
  shows "\<exists>ht'. rehash_steps HF GK (length (table (table1 ht)) - unat (rehash_move_bucket_index ht)) ht = Some ht'
    \<and> ht_inv HF GK ht' \<and> \<not> InRehashing ht' \<and> entries ht' = entries ht
    \<and> length (table (table1 ht')) = 2 * length (table (table1 ht))"
  using rehash_steps_ok [OF assms refl] .

theorem rehash_completes_witness:
  "\<exists>ht'. rehash_steps (\<lambda>k. k) (\<lambda>k. k) 4 demo_rehashing = Some ht' \<and> \<not> InRehashing ht' \<and> length (table (table1 ht')) = 8"
  using rehash_completes [OF demo_rehashing_inv demo_rehashing_facts(1), unfolded demo_rehashing_facts(2,3)]
  by auto

text \<open>A new key in a full table starts a rehash, which has one bucket less to move when it is in.\<close>

lemma insert_full:
  assumes inv: "ht_inv HF GK ht" and small: "size (entries ht) < 2 ^ 60" and re: "\<not> InRehashing ht"
    and full: "size (entries ht) = length (table (table1 ht))" and new: "ht_map GK ht (GK v) = None"
  shows "\<exists>ht'. InsertWithDuplicate True True HF GK v ht = Some (Inr (True, v), ht') \<and> InRehashing ht'
    \<and> unat (HashTable_size ht') = Suc (size (entries ht)) \<and> length (table (table1 ht')) = length (table (table1 ht))"
proof -
  have must: "must_rehash ht" using re full by (simp add: must_rehash_def)
  from Rehash_ok [OF inv small, of True] obtain ht1 where 1: "Rehash True ht = Inr ht1" "ht_inv HF GK ht1"
    "entries ht1 = entries ht" by auto
  note st = Rehash_starts [OF inv must 1(1)]
  from IncrementalRehash_progress [OF 1(2)] st ht_inv_bounds(2) [OF inv] obtain ht2 where
    2: "IncrementalRehash HF GK ht1 = Some ht2" "ht_inv HF GK ht2" "entries ht2 = entries ht1" "InRehashing ht2"
      "length (table (table1 ht2)) = length (table (table1 ht))" "unat (rehash_move_bucket_index ht2) = 1"
    by (auto split: if_splits)
  have "size (entries ht2) < room ht2" using 1(3) 2 full by (simp add: room_def)
  from insert_checked_ok [OF 2(2) this, where elem = v and node = True] ht_map_entries [of ht2 ht GK] 1(3) 2(3) new
  obtain ht3 where 3: "insert_checked True HF GK v ht2 = Some (Inr (True, v), ht3)" "ht_inv HF GK ht3"
    "entries ht3 = add_mset v (entries ht2)" "InRehashing ht3" "length (table (table1 ht3)) = length (table (table1 ht2))"
    using 2(4) by (auto simp: insert_post_def)
  have "unat (HashTable_size ht3) = Suc (size (entries ht))"
    using 3(2,3) 1(3) 2(3) by (simp add: HashTable_size_def ht_inv_def)
  then show ?thesis using 1(1) 2(1,5) 3 by (simp add: InsertWithDuplicate_def)
qed

text \<open>
  C29: the load of a table that any sequence of fewer than 2^60 operations has made from a new one,
  whatever the hash function: outside a rehash at most one entry per bucket, in a rehash fewer than
  two per bucket of the first table. The first bound is reached: one more new key in a full table
  starts a rehash and leaves more entries than buckets, so the assertion \<open>load_factor < 1.0\<close> that
  the comment of \<open>load_factor\<close> offers as an invariant does not hold.
\<close>
theorem load_bounded:
  fixes HF :: "'k \<Rightarrow> u64" and GK :: "'v \<Rightarrow> 'k"
  assumes "length ops < 2 ^ 60"
  shows "\<exists>ht ht'. HashTable_new True = Inr ht \<and> (\<exists>outs. ht_run HF GK ops ht = Some (outs, ht'))
    \<and> (if InRehashing ht' then unat (HashTable_size ht') < 2 * length (table (table1 ht'))
       else unat (HashTable_size ht') \<le> length (table (table1 ht')))
    \<and> (\<not> InRehashing ht' \<and> unat (HashTable_size ht') = length (table (table1 ht')) \<longrightarrow>
        (\<forall>v. ht_map GK ht' (GK v) = None \<longrightarrow> (\<exists>ht2. InsertWithDuplicate True True HF GK v ht' = Some (Inr (True, v), ht2)
          \<and> InRehashing ht2 \<and> unat (HashTable_size ht2) = Suc (length (table (table1 ht2))))))"
proof -
  obtain ht :: "'v HashTable" where new: "HashTable_new True = Inr ht" using HashTable_new_ok(1) by blast
  from new_inv [OF new, of HF GK] have "ht_rep HF GK ht Map.empty 0" by (auto simp: ht_rep_def ht_map_def)
  from hash_map.run_refines [OF this, of ops] assms obtain outs ht' n where
    r: "ht_run HF GK ops ht = Some (outs, ht')" and rep: "ht_rep HF GK ht' (snd (map_run GK ops Map.empty)) n" "n < 2 ^ 60"
    by auto
  then have inv: "ht_inv HF GK ht'" and small: "size (entries ht') < 2 ^ 60" by (auto simp: ht_rep_def)
  have s: "unat (HashTable_size ht') = size (entries ht')" using inv by (simp add: HashTable_size_def ht_inv_def)
  have "if InRehashing ht' then unat (HashTable_size ht') < 2 * length (table (table1 ht'))
      else unat (HashTable_size ht') \<le> length (table (table1 ht'))"
    using inv s by (auto simp: ht_inv_def room_def)
  moreover have "\<exists>ht2. InsertWithDuplicate True True HF GK v ht' = Some (Inr (True, v), ht2)
      \<and> InRehashing ht2 \<and> unat (HashTable_size ht2) = Suc (length (table (table1 ht2)))"
    if "\<not> InRehashing ht'" "unat (HashTable_size ht') = length (table (table1 ht'))" "ht_map GK ht' (GK v) = None" for v
    using insert_full [OF inv small that(1), of v] that s by auto
  ultimately show ?thesis using new r by blast
qed

definition demo_fill :: "(u64, u64) map_op list" where
  "demo_fill = map Op_Insert [4, 1, 6, 7]"

definition four_buckets :: "u64 slot list \<Rightarrow> size_t \<Rightarrow> u64 HashTable" where
  "four_buckets bs n = \<lparr>table1 = \<lparr>table = bs, used = n, size_mask = 3\<rparr>, table2 = Table_init, rehash_move_bucket_index = - 1\<rparr>"

lemma four_buckets_facts:
  "HashTable_new True = Inr (four_buckets [[], [], [], []] 0)" "four_buckets [[4], [1], [6], [7]] 4 = demo_full"
  by (simp_all add: four_buckets_def HashTable_new_ok replicate_four demo_full_def)

lemma four_buckets_insert:
  assumes "bs ! (unat v mod 4) = []" and "length bs = 4" and "n < 4"
  shows "InsertWithDuplicate True True (\<lambda>k. k) (\<lambda>k. k) v (four_buckets bs n)
    = Some (Inr (True, v), four_buckets (bs[unat v mod 4 := [v]]) (n + 1))"
proof -
  have i: "unat (v AND 3) = unat v mod 4" using unat_and_mask [of 2 v] by simp
  have "\<not> Table_size (table1 (four_buckets bs n)) \<le> n" using assms(2,3) by (simp add: four_buckets_def Table_size_def)
  then show ?thesis
    using assms(1,2) by (simp add: four_buckets_def InsertWithDuplicate_def Rehash_def IncrementalRehash_def InRehashing_def
      insert_checked_def insert_front_def slot_EmplaceFront_def slot_EmplaceFrontNode_def bucket_index_def i
      table_at_def table_set_def)
qed

lemma demo_fill_run:
  "HashTable_new True = Inr ht \<Longrightarrow> ht_run (\<lambda>k. k) (\<lambda>k. k) demo_fill ht = Some (map (Inserted True) [4, 1, 6, 7], demo_full)"
  unfolding demo_fill_def four_buckets_facts(2) [symmetric] by (auto simp: four_buckets_facts(1) four_buckets_insert)

theorem load_bounded_witness:
  "\<exists>ht ht2. HashTable_new True = Inr ht
    \<and> ht_run (\<lambda>k. k) (\<lambda>k. k) demo_fill ht = Some (map (Inserted True) [4, 1, 6, 7], demo_full)
    \<and> unat (HashTable_size demo_full) = length (table (table1 demo_full))
    \<and> InsertWithDuplicate True True (\<lambda>k. k) (\<lambda>k. k) 9 demo_full = Some (Inr (True, 9), ht2)
    \<and> unat (HashTable_size ht2) = Suc (length (table (table1 ht2)))"
proof -
  obtain ht :: "u64 HashTable" where new: "HashTable_new True = Inr ht" using HashTable_new_ok(1) by blast
  have "length demo_fill < 2 ^ 60" by (simp add: demo_fill_def)
  from load_bounded [OF this, of "\<lambda>k. k" "\<lambda>k. k"] new demo_fill_run [OF new]
  have "ht_map (\<lambda>k. k) demo_full v = None \<longrightarrow> (\<exists>ht2. InsertWithDuplicate True True (\<lambda>k. k) (\<lambda>k. k) v demo_full = Some (Inr (True, v), ht2)
      \<and> InRehashing ht2 \<and> unat (HashTable_size ht2) = Suc (length (table (table1 ht2))))" for v
    by (auto simp: demo_full_facts)
  from this [of 9] new demo_fill_run [OF new] show ?thesis
    by (auto simp: demo_full_facts demo_rehashing_map)
qed

text \<open>
  C30: cloning a valid table into a new one succeeds and gives a valid table with the same
  entries, out of any rehash; the order within every bucket is reversed. The hypothesis on the
  hash of a value holds for sets, whose values are their keys.
\<close>
theorem clone_same_entries:
  assumes "ht_inv HF GK ht" and "\<And>v. HV v = HF (GK v)" and "HashTable_new True = Inr this"
  shows "\<exists>ht'. Clone True True HV this ht = Some (Inr ht') \<and> ht_inv HF GK ht' \<and> entries ht' = entries ht
    \<and> \<not> InRehashing ht' \<and> (\<not> InRehashing ht \<longrightarrow> table (table1 ht') = map rev (table (table1 ht)))"
  using assms by (rule Clone_ok)

theorem clone_same_entries_witness:
  "\<exists>ht'. Clone True True (\<lambda>k. k) demo_table demo_rehashing = Some (Inr ht') \<and> entries ht' = {#4, 1, 6, 7#}"
  using clone_same_entries [OF demo_rehashing_inv, of "\<lambda>k. k" demo_table]
  by (auto simp: HashTable_new_ok demo_table_def demo_rehashing_def entries_def slots_entries_def)

text \<open>
  Erasing through the slot that \<open>FindSlot\<close> returned removes the entry but not its count:
  the table then reports one entry more than it holds, so its invariant is broken.
\<close>
theorem erase_after_find_keeps_count:
  assumes "ht_inv HF GK ht" and "ht_map GK ht k \<noteq> None"
  shows "\<exists>p ht1 ht2. FindSlot HF GK k ht = Some (Some p, ht1) \<and> EraseAfterFindSlot p ht1 = Some ht2
    \<and> unat (HashTable_size ht2) = Suc (size (entries ht2)) \<and> \<not> ht_inv HF GK ht2"
proof -
  from FindSlot_ok [OF assms(1), of k] obtain p ht1 where
    1: "FindSlot HF GK k ht = Some (p, ht1)" "find_post HF GK k ht p ht1" by blast
  with assms(2) obtain q where p: "p = Some q" by (cases p) (auto simp: find_post_def)
  from EraseAfterFindSlot_ok [OF 1(2) [unfolded p]] obtain ht2 v where
    2: "EraseAfterFindSlot q ht1 = Some ht2" "entries ht1 = add_mset v (entries ht2)"
      "used (table1 ht2) = used (table1 ht1)" by blast
  have "unat (HashTable_size ht2) = Suc (size (entries ht2))"
    using 1(2) 2 by (auto simp: find_post_def ht_inv_def HashTable_size_def)
  then show ?thesis using 1 2 p by (auto simp: ht_inv_def HashTable_size_def)
qed

theorem erase_after_find_keeps_count_witness:
  "\<exists>p ht1 ht2. FindSlot (\<lambda>k. k) (\<lambda>k. k) 6 demo_rehashing = Some (Some p, ht1) \<and> EraseAfterFindSlot p ht1 = Some ht2
    \<and> unat (HashTable_size ht2) = Suc (size (entries ht2))"
proof -
  have "ht_map (\<lambda>k. k) demo_rehashing 6 \<noteq> None"
    by (simp add: ht_map_def entry_map_None entries_def slots_entries_def demo_rehashing_def)
  from erase_after_find_keeps_count [OF demo_rehashing_inv this] show ?thesis by blast
qed

end
