(* ===== verification/Hash_Table_Iterator.thy ===== *)
theory Hash_Table_Iterator
  imports Hash_Table_Ops
begin

text \<open>
  The iterators of \<open>HashTable\<close> (\<open>algo/internal/hash_table_iterator.h\<close>). The entries of a table
  have different keys, so a node is given by its entry: the node \<open>slot\<close> points to and, in the
  table as it is now, the node that follows it. That is what matters when the table changes
  while it is iterated.
\<close>

section \<open>The iterator\<close>

record 'v HashTableIterator =
  table_index :: nat
  bucket_at :: size_t
  slot :: "'v option"

definition ht_table :: "'v HashTable \<Rightarrow> nat \<Rightarrow> 'v Table" where
  "ht_table ht i = (if i = 0 then table1 ht else table2 ht)"

text \<open>The first non-empty bucket at or after \<open>j\<close>: the inner loop of the constructor and of \<open>Increment\<close>.\<close>

function scan_buckets :: "'v slot list \<Rightarrow> nat \<Rightarrow> nat option" where
  "scan_buckets bs j = (if j < length bs then if bs ! j \<noteq> [] then Some j else scan_buckets bs (Suc j) else None)"
  by auto
termination by (relation "measure (\<lambda>(bs, j). length bs - j)") auto

declare scan_buckets.simps [simp del]

text \<open>The constructor looks at the tables \<open>i\<close>, ..., 1, always from the given bucket on.\<close>

fun iter_init_loop :: "'v HashTable \<Rightarrow> nat list \<Rightarrow> 'v HashTableIterator \<Rightarrow> 'v HashTableIterator" where
  "iter_init_loop ht [] it = it"
| "iter_init_loop ht (i # todo) it =
     (case scan_buckets (table (ht_table ht i)) (unat (bucket_at it)) of
        None \<Rightarrow> iter_init_loop ht todo it
      | Some j \<Rightarrow> \<lparr>table_index = i, bucket_at = of_nat j, slot = Some (hd (table (ht_table ht i) ! j))\<rparr>)"

definition iter_make :: "'v HashTable \<Rightarrow> nat \<Rightarrow> size_t \<Rightarrow> 'v HashTableIterator" where
  "iter_make ht i j = iter_init_loop ht [i..<2] \<lparr>table_index = i, bucket_at = j, slot = None\<rparr>"

definition ht_begin :: "'v HashTable \<Rightarrow> 'v HashTableIterator" where
  "ht_begin ht = iter_make ht 0 0"

definition ht_end :: "'v HashTable \<Rightarrow> 'v HashTableIterator" where
  "ht_end ht = iter_make ht 1 (Table_size (table2 ht))"

definition iter_eq :: "'v HashTableIterator \<Rightarrow> 'v HashTableIterator \<Rightarrow> bool" where
  "iter_eq x y \<longleftrightarrow> slot x = slot y"

definition iter_deref :: "'v HashTableIterator \<Rightarrow> 'v option" where
  "iter_deref it = slot it"

text \<open>The node after the node of an entry, wherever it is; no node holds the entry: dangling.\<close>

fun next_in_bucket :: "'v \<Rightarrow> 'v slot \<Rightarrow> 'v option" where
  "next_in_bucket v [] = None"
| "next_in_bucket v (x # xs) = (if x = v then (case xs of [] \<Rightarrow> None | y # _ \<Rightarrow> Some y) else next_in_bucket v xs)"

definition node_next :: "'v HashTable \<Rightarrow> 'v \<Rightarrow> 'v option option" where
  "node_next ht v = map_option (next_in_bucket v) (find (\<lambda>b. v \<in> set b) (table (table1 ht) @ table (table2 ht)))"

text \<open>The loop of \<open>Increment\<close> over the table indices; it reads the table of the member \<open>table_index_\<close>.\<close>

fun iter_next_loop :: "'v HashTable \<Rightarrow> nat list \<Rightarrow> 'v HashTableIterator \<Rightarrow> 'v HashTableIterator" where
  "iter_next_loop ht [] it = it"
| "iter_next_loop ht (i # todo) it =
     (let tbl = ht_table ht (table_index it) in
      case scan_buckets (table tbl) (unat (bucket_at it + 1)) of
        Some j \<Rightarrow> \<lparr>table_index = i, bucket_at = of_nat j, slot = Some (hd (table tbl ! j))\<rparr>
      | None \<Rightarrow> iter_next_loop ht todo \<lparr>table_index = 1, bucket_at = 0 - 1, slot = None\<rparr>)"

definition Increment :: "'v HashTable \<Rightarrow> 'v HashTableIterator \<Rightarrow> 'v HashTableIterator option" where
  "Increment ht it = do {
     v \<leftarrow> slot it;
     nx \<leftarrow> node_next ht v;
     Some (case nx of
             Some w \<Rightarrow> it\<lparr>slot := Some w\<rparr>
           | None \<Rightarrow> iter_next_loop ht [table_index it..<2] it) }"

text \<open>The operators: what they return, and the iterator they leave.\<close>

definition iter_preincr :: "'v HashTable \<Rightarrow> 'v HashTableIterator \<Rightarrow> ('v HashTableIterator \<times> 'v HashTableIterator) option" where
  "iter_preincr ht it = do { it \<leftarrow> Increment ht it; Some (it, it) }"

definition iter_postincr :: "'v HashTable \<Rightarrow> 'v HashTableIterator \<Rightarrow> ('v HashTableIterator \<times> 'v HashTableIterator) option" where
  "iter_postincr ht it = (let ret = it in do { it \<leftarrow> Increment ht it; Some (ret, it) })"

text \<open>A range-for loop that only reads.\<close>

partial_function (option) ht_for_each :: "'v HashTable \<Rightarrow> 'v HashTableIterator \<Rightarrow> 'v list \<Rightarrow> 'v list option" where
  "ht_for_each ht it acc =
     (case slot it of
        None \<Rightarrow> Some acc
      | Some v \<Rightarrow> do { it \<leftarrow> Increment ht it; ht_for_each ht it (acc @ [v]) })"

section \<open>Traversal\<close>

definition elems :: "'v HashTable \<Rightarrow> 'v list" where
  "elems ht = concat (table (table1 ht)) @ concat (table (table2 ht))"

lemma mset_elems: "mset (elems ht) = entries ht"
  by (simp add: elems_def entries_def slots_entries_def slots_mset_concat)

lemma scan_buckets_Some:
  "scan_buckets bs j = Some k \<Longrightarrow> k < length bs \<and> bs ! k \<noteq> [] \<and> concat (drop j bs) = bs ! k @ concat (drop (Suc k) bs)"
proof (induction bs j rule: scan_buckets.induct)
  case (1 bs j)
  from 1(2) have j: "j < length bs" by (simp add: scan_buckets.simps [of bs j] split: if_splits)
  show ?case
  proof (cases "bs ! j = []")
    case True
    then have "scan_buckets bs (Suc j) = Some k" using 1(2) j by (simp add: scan_buckets.simps [of bs j])
    then show ?thesis using 1(1) [OF j] True j by (simp add: Cons_nth_drop_Suc [symmetric])
  next
    case False
    then have "k = j" using 1(2) j by (simp add: scan_buckets.simps [of bs j])
    then show ?thesis using False j by (simp add: Cons_nth_drop_Suc [symmetric])
  qed
qed

lemma scan_buckets_None: "scan_buckets bs j = None \<Longrightarrow> concat (drop j bs) = []"
proof (induction bs j rule: scan_buckets.induct)
  case (1 bs j)
  show ?case
  proof (cases "j < length bs")
    case True
    then have "bs ! j = []" "scan_buckets bs (Suc j) = None"
      using 1(2) by (auto simp: scan_buckets.simps [of bs j] split: if_splits)
    then show ?thesis using 1(1) True by (simp add: Cons_nth_drop_Suc [symmetric])
  qed simp
qed

lemma next_in_bucket_at: "distinct (pre @ v # suf) \<Longrightarrow> next_in_bucket v (pre @ v # suf) = (case suf of [] \<Rightarrow> None | y # _ \<Rightarrow> Some y)"
  by (induction pre) auto

text \<open>An iterator and the entries it has still to visit.\<close>

definition iter_at :: "'v HashTable \<Rightarrow> 'v HashTableIterator \<Rightarrow> 'v list \<Rightarrow> bool" where
  "iter_at ht it todo \<longleftrightarrow>
     (case todo of
        [] \<Rightarrow> slot it = None
      | v # rest \<Rightarrow> slot it = Some v \<and> table_index it < 2
          \<and> unat (bucket_at it) < length (table (ht_table ht (table_index it)))
          \<and> (\<exists>pre suf. table (ht_table ht (table_index it)) ! unat (bucket_at it) = pre @ v # suf
             \<and> rest = suf @ concat (drop (Suc (unat (bucket_at it))) (table (ht_table ht (table_index it))))
                  @ (if table_index it = 0 then concat (table (table2 ht)) else [])))"

lemma iter_at_found:
  assumes "scan_buckets (table (ht_table ht i)) j = Some k" and "i < 2" and "length (table (ht_table ht i)) < 2 ^ 64"
  shows "iter_at ht \<lparr>table_index = i, bucket_at = of_nat k, slot = Some (hd (table (ht_table ht i) ! k))\<rparr>
    (concat (drop j (table (ht_table ht i))) @ (if i = 0 then concat (table (table2 ht)) else []))"
proof -
  note s = scan_buckets_Some [OF assms(1)]
  have u: "unat (of_nat k :: size_t) = k" using s assms(3) by (intro unat_of_nat_lt) simp
  from s obtain v vs where v: "table (ht_table ht i) ! k = v # vs" by (cases "table (ht_table ht i) ! k") auto
  show ?thesis using s v u assms(2) by (auto simp: iter_at_def intro: exI [of _ "[]"])
qed

definition ht_small :: "'v HashTable \<Rightarrow> bool" where
  "ht_small ht \<longleftrightarrow> length (table (table1 ht)) < 2 ^ 64 \<and> length (table (table2 ht)) < 2 ^ 64"

lemma ht_smallD: "ht_small ht \<Longrightarrow> length (table (ht_table ht i)) < 2 ^ 64"
  by (simp add: ht_small_def ht_table_def)

lemma ht_inv_small: "ht_inv HF GK ht \<Longrightarrow> ht_small ht"
  using table_ok_length [of HF GK "table1 ht"] table_ok_length [of HF GK "table2 ht"]
  by (auto simp: ht_inv_def ht_small_def split: if_splits)

lemma ht_begin_at: "ht_small ht \<Longrightarrow> iter_at ht (ht_begin ht) (elems ht)"
proof -
  assume sm: "ht_small ht"
  have two: "[0..<2] = [0, 1 :: nat]" by (simp add: numeral_2_eq_2)
  show ?thesis
  proof (cases "scan_buckets (table (ht_table ht 0)) 0")
    case (Some k)
    then show ?thesis using iter_at_found [OF Some _ ht_smallD [OF sm]]
      by (simp add: ht_begin_def iter_make_def two elems_def ht_table_def)
  next
    case None
    then have e: "concat (table (table1 ht)) = []" using scan_buckets_None [OF None] by (simp add: ht_table_def)
    show ?thesis
    proof (cases "scan_buckets (table (ht_table ht 1)) 0")
      case (Some k)
      then show ?thesis using iter_at_found [OF Some _ ht_smallD [OF sm]] None e
        by (simp add: ht_begin_def iter_make_def two elems_def ht_table_def del: concat_eq_Nil_conv)
    next
      case none2: None
      then have "concat (table (table2 ht)) = []" using scan_buckets_None [OF none2] by (simp add: ht_table_def)
      then show ?thesis using None none2 e
        by (simp add: ht_begin_def iter_make_def two elems_def iter_at_def del: concat_eq_Nil_conv)
    qed
  qed
qed

lemma ht_end_slot: "ht_small ht \<Longrightarrow> slot (ht_end ht) = None"
  using Table_size_unat [of "table2 ht"]
  by (simp add: ht_end_def iter_make_def ht_small_def numeral_2_eq_2 ht_table_def scan_buckets.simps)

lemma next_loop_at:
  assumes sm: "ht_small ht" and i: "i < 2" and b: "unat b < length (table (ht_table ht i))"
  shows "iter_at ht (iter_next_loop ht [i..<2] \<lparr>table_index = i, bucket_at = b, slot = Some v\<rparr>)
    (concat (drop (Suc (unat b)) (table (ht_table ht i))) @ (if i = 0 then concat (table (table2 ht)) else []))"
proof -
  have inc: "unat (b + 1) = Suc (unat b)"
    using b ht_smallD [OF sm, of i] by (subst unat_add_lem [THEN iffD1]) auto
  have m1: "unat ((0 - 1) + 1 :: size_t) = 0" by simp
  show ?thesis
  proof (cases "scan_buckets (table (ht_table ht i)) (Suc (unat b))")
    case (Some k)
    then show ?thesis using iter_at_found [OF Some i ht_smallD [OF sm]] i inc
      by (simp add: upt_conv_Cons Let_def)
  next
    case None
    then have e: "concat (drop (Suc (unat b)) (table (ht_table ht i))) = []" by (rule scan_buckets_None)
    show ?thesis
    proof (cases "i = 0")
      case False
      then show ?thesis using i None inc e by (simp add: upt_conv_Cons Let_def iter_at_def del: concat_eq_Nil_conv)
    next
      case True
      show ?thesis
      proof (cases "scan_buckets (table (ht_table ht 1)) 0")
        case (Some k)
        then show ?thesis using iter_at_found [OF Some _ ht_smallD [OF sm]] True None inc e
          by (simp add: upt_conv_Cons Let_def ht_table_def del: concat_eq_Nil_conv)
      next
        case none2: None
        then have "concat (table (table2 ht)) = []" using scan_buckets_None [OF none2] by (simp add: ht_table_def)
        then show ?thesis using True None inc e none2
          by (simp add: upt_conv_Cons Let_def iter_at_def ht_table_def del: concat_eq_Nil_conv)
      qed
    qed
  qed
qed

lemma distinct_bucket:
  assumes "distinct (concat bs)" and "i < length bs" and "v \<in> set (bs ! i)"
  shows "find (\<lambda>b. v \<in> set b) bs = Some (bs ! i) \<and> distinct (bs ! i)"
  using assms
proof (induction bs arbitrary: i)
  case (Cons b bs)
  then show ?case
  proof (cases i)
    case (Suc j)
    then have "v \<in> set (concat bs)" using Cons.prems by auto
    then have "v \<notin> set b" using Cons.prems(1) by auto
    then show ?thesis using Cons Suc by auto
  qed auto
qed simp

lemma node_next_at:
  assumes d: "distinct (elems ht)" and i: "i < 2" and b: "j < length (table (ht_table ht i))"
    and s: "table (ht_table ht i) ! j = pre @ v # suf"
  shows "node_next ht v = Some (case suf of [] \<Rightarrow> None | y # _ \<Rightarrow> Some y)"
proof -
  let ?bs = "table (table1 ht) @ table (table2 ht)"
  let ?k = "if i = 0 then j else length (table (table1 ht)) + j"
  have d': "distinct (concat ?bs)" using d by (simp add: elems_def)
  have k: "?k < length ?bs" "?bs ! ?k = pre @ v # suf"
    using b s by (auto simp: ht_table_def nth_append split: if_splits)
  have db: "find (\<lambda>b. v \<in> set b) ?bs = Some (pre @ v # suf) \<and> distinct (pre @ v # suf)"
    using distinct_bucket [OF d' k(1), of v] unfolding k(2) by (simp only: set_append set_simps) blast
  then show ?thesis
    using next_in_bucket_at [OF conjunct2 [OF db]] unfolding node_next_def by simp
qed

lemma Increment_at:
  assumes sm: "ht_small ht" and d: "distinct (elems ht)" and at: "iter_at ht it (v # rest)"
  shows "\<exists>it'. Increment ht it = Some it' \<and> iter_at ht it' rest"
proof -
  let ?i = "table_index it" and ?b = "bucket_at it"
  from at obtain pre suf where a: "slot it = Some v" "?i < 2" "unat ?b < length (table (ht_table ht ?i))"
    "table (ht_table ht ?i) ! unat ?b = pre @ v # suf"
    "rest = suf @ concat (drop (Suc (unat ?b)) (table (ht_table ht ?i))) @ (if ?i = 0 then concat (table (table2 ht)) else [])"
    by (auto simp: iter_at_def)
  note n = node_next_at [OF d a(2,3,4)]
  show ?thesis
  proof (cases suf)
    case Nil
    have "it = \<lparr>table_index = ?i, bucket_at = ?b, slot = Some v\<rparr>" using a(1) by simp
    with next_loop_at [OF sm a(2,3), of v] show ?thesis using n a(1,5) Nil by (simp add: Increment_def)
  next
    case (Cons w ws)
    have "iter_at ht (it\<lparr>slot := Some w\<rparr>) rest"
      using a Cons by (auto simp: iter_at_def intro!: exI [of _ "pre @ [v]"])
    then show ?thesis using n a(1) Cons by (simp add: Increment_def)
  qed
qed

lemma ht_for_each_at:
  assumes "ht_small ht" and "distinct (elems ht)"
  shows "iter_at ht it todo \<Longrightarrow> ht_for_each ht it acc = Some (acc @ todo)"
proof (induction todo arbitrary: it acc)
  case Nil
  then show ?case by (subst ht_for_each.simps) (simp add: iter_at_def)
next
  case (Cons v rest)
  from Increment_at [OF assms Cons.prems] obtain it' where
    "Increment ht it = Some it'" "iter_at ht it' rest" by blast
  moreover have "slot it = Some v" using Cons.prems by (simp add: iter_at_def)
  ultimately show ?case using Cons.IH [of it' "acc @ [v]"] by (subst ht_for_each.simps) simp
qed

lemma unique_keys_distinct: "unique_keys GK (mset xs) \<Longrightarrow> distinct xs"
  by (induction xs) (auto simp: unique_keys_add)

lemma ht_elems_distinct: "ht_inv HF GK ht \<Longrightarrow> distinct (elems ht)"
  by (rule unique_keys_distinct [of GK]) (simp add: mset_elems ht_inv_def)

end
