(* ===== verification/Hash_Set.thy ===== *)
theory Hash_Set
  imports Hash_Table_Iterator Hash_Table_Props
begin

text \<open>
  \<open>HashSet\<close> (\<open>algo/hash_set.h\<close>, \<open>algo/internal/hash_set_impl.h\<close>) and \<open>Dictionary\<close>
  (\<open>algo/dictionary.h\<close>) on top of \<open>HashTable\<close>. The callbacks of the set operations collect the
  members they are called with. The set operations look members up in one table while they
  iterate the other, and a lookup changes the table it is in, even a const one: the two tables
  are threaded through the loop, and \<open>alias\<close> says that both are the same object.
\<close>

section \<open>Set operations\<close>

definition Set_Insert :: "bool \<Rightarrow> bool \<Rightarrow> ('k \<Rightarrow> u64) \<Rightarrow> 'k \<Rightarrow> 'k HashTable \<Rightarrow> ((exn + 'k option) \<times> 'k HashTable) option" where
  "Set_Insert ok node HF = Insert ok node HF (\<lambda>k. k)"

text \<open>The constructor from a list inserts one element after the other; an exception leaves no set.\<close>

fun HashSet_of_list ::
    "bool \<Rightarrow> bool \<Rightarrow> ('k \<Rightarrow> u64) \<Rightarrow> 'k list \<Rightarrow> 'k HashTable \<Rightarrow> (exn + 'k HashTable) option" where
  "HashSet_of_list ok node HF [] hs = Some (Inr hs)"
| "HashSet_of_list ok node HF (e # il) hs = do {
     (r, hs) \<leftarrow> Set_Insert ok node HF e hs;
     (case r of Inl x \<Rightarrow> Some (Inl x) | Inr _ \<Rightarrow> HashSet_of_list ok node HF il hs) }"

text \<open>
  \<open>for (m : *xs) if (ys->Find(m) == want) cb(m)\<close>: the loop the three operations share.
\<close>

partial_function (option) filter_loop ::
    "bool \<Rightarrow> ('k \<Rightarrow> u64) \<Rightarrow> bool \<Rightarrow> 'k HashTableIterator \<Rightarrow> 'k HashTable \<Rightarrow> 'k HashTable \<Rightarrow> 'k list \<Rightarrow>
      ('k list \<times> 'k HashTable \<times> 'k HashTable) option" where
  "filter_loop alias HF want it xs ys acc =
     (case slot it of
        None \<Rightarrow> Some (acc, xs, ys)
      | Some m \<Rightarrow> do {
          (r, ys) \<leftarrow> Find HF (\<lambda>k. k) m ys;
          let xs = (if alias then ys else xs);
          it \<leftarrow> Increment xs it;
          filter_loop alias HF want it xs ys (if (r \<noteq> None) = want then acc @ [m] else acc) })"

text \<open>The results are the members the callback got, the table of \<open>this\<close> and that of \<open>hs\<close>.\<close>

definition Difference ::
    "bool \<Rightarrow> ('k \<Rightarrow> u64) \<Rightarrow> 'k HashTable \<Rightarrow> 'k HashTable \<Rightarrow> ('k list \<times> 'k HashTable \<times> 'k HashTable) option" where
  "Difference alias HF this hs = filter_loop alias HF False (ht_begin this) this hs []"

definition Intersection ::
    "bool \<Rightarrow> ('k \<Rightarrow> u64) \<Rightarrow> 'k HashTable \<Rightarrow> 'k HashTable \<Rightarrow> ('k list \<times> 'k HashTable \<times> 'k HashTable) option" where
  "Intersection alias HF this hs =
     (if HashTable_size hs > HashTable_size this then filter_loop alias HF True (ht_begin this) this hs []
      else do {
        (out, hs, this) \<leftarrow> filter_loop alias HF True (ht_begin hs) hs this [];
        Some (out, this, hs) })"

definition Union ::
    "bool \<Rightarrow> ('k \<Rightarrow> u64) \<Rightarrow> 'k HashTable \<Rightarrow> 'k HashTable \<Rightarrow> ('k list \<times> 'k HashTable \<times> 'k HashTable) option" where
  "Union alias HF this hs =
     (if HashTable_size hs > HashTable_size this then do {
        out \<leftarrow> ht_for_each hs (ht_begin hs) [];
        filter_loop alias HF False (ht_begin this) this hs out }
      else do {
        out \<leftarrow> ht_for_each this (ht_begin this) [];
        (out, hs, this) \<leftarrow> filter_loop alias HF False (ht_begin hs) hs this out;
        Some (out, this, hs) })"

text \<open>\<open>EraseRandom\<close> pops the front of the first non-empty bucket; the count is not adjusted.\<close>

definition pop_front_at :: "bool \<Rightarrow> nat \<Rightarrow> 'v HashTable \<Rightarrow> 'v HashTable" where
  "pop_front_at second j ht =
     (if second then ht\<lparr>table2 := (table2 ht)\<lparr>table := (table (table2 ht))[j := tl (table (table2 ht) ! j)]\<rparr>\<rparr>
      else ht\<lparr>table1 := (table1 ht)\<lparr>table := (table (table1 ht))[j := tl (table (table1 ht) ! j)]\<rparr>\<rparr>)"

definition EraseRandom :: "('k \<Rightarrow> u64) \<Rightarrow> 'k HashTable \<Rightarrow> (nat \<times> 'k HashTable) option" where
  "EraseRandom HF ht = do {
     ht \<leftarrow> IncrementalRehash HF (\<lambda>k. k) ht;
     Some (case scan_buckets (table (table1 ht)) (if InRehashing ht then unat (rehash_move_bucket_index ht) else 0) of
             Some j \<Rightarrow> (1, pop_front_at False j ht)
           | None \<Rightarrow>
               if \<not> InRehashing ht then (0, ht)
               else (case scan_buckets (table (table2 ht)) 0 of
                       Some j \<Rightarrow> (1, pop_front_at True j ht)
                     | None \<Rightarrow> (0, ht))) }"

section \<open>Dictionary\<close>

definition InsertKv ::
    "bool \<Rightarrow> bool \<Rightarrow> ('k \<Rightarrow> u64) \<Rightarrow> 'k \<Rightarrow> 'w \<Rightarrow> ('k \<times> 'w) HashTable \<Rightarrow> ((exn + ('k \<times> 'w) option) \<times> ('k \<times> 'w) HashTable) option" where
  "InsertKv ok node HF k v d = Insert ok node HF fst (k, v) d"

definition InsertKvWithDuplicate ::
    "bool \<Rightarrow> bool \<Rightarrow> ('k \<Rightarrow> u64) \<Rightarrow> 'k \<Rightarrow> 'w \<Rightarrow> ('k \<times> 'w) HashTable \<Rightarrow> ((exn + bool \<times> 'k \<times> 'w) \<times> ('k \<times> 'w) HashTable) option" where
  "InsertKvWithDuplicate ok node HF k v d = InsertWithDuplicate ok node HF fst (k, v) d"

text \<open>\<open>operator[]\<close>: the value of the key, after inserting the default value for a new key.\<close>

definition Dictionary_at ::
    "bool \<Rightarrow> bool \<Rightarrow> ('k \<Rightarrow> u64) \<Rightarrow> 'w \<Rightarrow> 'k \<Rightarrow> ('k \<times> 'w) HashTable \<Rightarrow> ((exn + 'w) \<times> ('k \<times> 'w) HashTable) option" where
  "Dictionary_at ok node HF dflt k d = do {
     (kv, d) \<leftarrow> Find HF fst k d;
     (case kv of
        Some e \<Rightarrow> Some (Inr (snd e), d)
      | None \<Rightarrow> do {
          (r, d) \<leftarrow> Insert ok node HF fst (k, dflt) d;
          (case r of
             Inl e \<Rightarrow> Some (Inl e, d)
           | Inr None \<Rightarrow> None
           | Inr (Some e) \<Rightarrow> Some (Inr (snd e), d)) }) }"

section \<open>Correctness\<close>

text \<open>With two different tables the loop visits every member once and keeps both tables' entries.\<close>

lemma filter_loop_ok:
  assumes xs: "ht_inv HF (\<lambda>k. k) xs"
  shows "ht_inv HF (\<lambda>k. k) ys \<Longrightarrow> iter_at xs it todo \<Longrightarrow>
    \<exists>ys'. filter_loop False HF want it xs ys acc
        = Some (acc @ filter (\<lambda>m. (m \<in># entries ys) = want) todo, xs, ys')
      \<and> ht_inv HF (\<lambda>k. k) ys' \<and> entries ys' = entries ys"
proof (induction todo arbitrary: ys it acc)
  case Nil
  then show ?case by (subst filter_loop.simps) (simp add: iter_at_def)
next
  case (Cons m todo)
  from Find_ok [OF Cons.prems(1), of m] obtain ys1 where 1: "Find HF (\<lambda>k. k) m ys = Some (ht_map (\<lambda>k. k) ys m, ys1)"
    "ht_inv HF (\<lambda>k. k) ys1" "entries ys1 = entries ys" by blast
  from Increment_at [OF ht_inv_small [OF xs] ht_elems_distinct [OF xs] Cons.prems(2)] obtain it1 where
    2: "Increment xs it = Some it1" "iter_at xs it1 todo" by blast
  have m: "(\<exists>y. ht_map (\<lambda>k. k) ys m = Some y) = (m \<in># entries ys)"
    using entry_map_None [of "\<lambda>k. k" "entries ys" m] by (auto simp: ht_map_def)
  have s: "slot it = Some m" using Cons.prems(2) by (simp add: iter_at_def)
  from Cons.IH [OF 1(2) 2(2), of "if (m \<in># entries ys) = want then acc @ [m] else acc"] obtain ys' where
    3: "filter_loop False HF want it1 xs ys1 (if (m \<in># entries ys) = want then acc @ [m] else acc)
        = Some ((if (m \<in># entries ys) = want then acc @ [m] else acc) @ filter (\<lambda>m. (m \<in># entries ys) = want) todo, xs, ys')"
      "ht_inv HF (\<lambda>k. k) ys'" "entries ys' = entries ys" using 1(3) by auto
  show ?case
    using 3 by (subst filter_loop.simps) (simp add: s 1(1) 2(1) m Let_def)
qed

lemma elems_set: "set (elems ht) = set_mset (entries ht)"
  by (metis mset_elems set_mset_mset)

text \<open>What the callback gets is each member once.\<close>

definition each_once :: "'k list \<Rightarrow> 'k set \<Rightarrow> bool" where
  "each_once out S \<longleftrightarrow> distinct out \<and> set out = S"

lemma Difference_ok:
  assumes a: "ht_inv HF (\<lambda>k. k) a" and b: "ht_inv HF (\<lambda>k. k) b"
  shows "\<exists>out b'. Difference False HF a b = Some (out, a, b') \<and> ht_inv HF (\<lambda>k. k) b' \<and> entries b' = entries b
    \<and> each_once out (set_mset (entries a) - set_mset (entries b))"
  using filter_loop_ok [OF a b ht_begin_at [OF ht_inv_small [OF a]], of False "[]"] ht_elems_distinct [OF a]
  by (auto simp: Difference_def each_once_def elems_set)

lemma Intersection_ok:
  assumes a: "ht_inv HF (\<lambda>k. k) a" and b: "ht_inv HF (\<lambda>k. k) b"
  shows "\<exists>out a' b'. Intersection False HF a b = Some (out, a', b') \<and> ht_inv HF (\<lambda>k. k) a' \<and> ht_inv HF (\<lambda>k. k) b'
    \<and> entries a' = entries a \<and> entries b' = entries b
    \<and> each_once out (set_mset (entries a) \<inter> set_mset (entries b))"
proof (cases "HashTable_size b > HashTable_size a")
  case True
  then show ?thesis
    using filter_loop_ok [OF a b ht_begin_at [OF ht_inv_small [OF a]], of True "[]"] ht_elems_distinct [OF a] a
    by (auto simp: Intersection_def each_once_def elems_set)
next
  case False
  then show ?thesis
    using filter_loop_ok [OF b a ht_begin_at [OF ht_inv_small [OF b]], of True "[]"] ht_elems_distinct [OF b] b
    by (auto simp: Intersection_def each_once_def elems_set)
qed

lemma Union_ok:
  assumes a: "ht_inv HF (\<lambda>k. k) a" and b: "ht_inv HF (\<lambda>k. k) b"
  shows "\<exists>out a' b'. Union False HF a b = Some (out, a', b') \<and> ht_inv HF (\<lambda>k. k) a' \<and> ht_inv HF (\<lambda>k. k) b'
    \<and> entries a' = entries a \<and> entries b' = entries b
    \<and> each_once out (set_mset (entries a) \<union> set_mset (entries b))"
proof (cases "HashTable_size b > HashTable_size a")
  case True
  then show ?thesis
    using filter_loop_ok [OF a b ht_begin_at [OF ht_inv_small [OF a]], of False "elems b"]
      ht_for_each_at [OF ht_inv_small [OF b] ht_elems_distinct [OF b] ht_begin_at [OF ht_inv_small [OF b]], of "[]"]
      ht_elems_distinct [OF a] ht_elems_distinct [OF b] a
    by (auto simp: Union_def each_once_def elems_set)
next
  case False
  then show ?thesis
    using filter_loop_ok [OF b a ht_begin_at [OF ht_inv_small [OF b]], of False "elems a"]
      ht_for_each_at [OF ht_inv_small [OF a] ht_elems_distinct [OF a] ht_begin_at [OF ht_inv_small [OF a]], of "[]"]
      ht_elems_distinct [OF a] ht_elems_distinct [OF b] b
    by (auto simp: Union_def each_once_def elems_set)
qed

section \<open>A set with itself\<close>

text \<open>
  With \<open>alias\<close> a lookup moves the node the iterator is at to the front of its bucket. Two members
  of one bucket then take turns at the front and the loop never ends.
\<close>

lemma filter_loop_diverges:
  assumes step: "\<And>it xs. (it, xs) \<in> S \<Longrightarrow> \<exists>m r xs' it'. slot it = Some m \<and> Find HF (\<lambda>k. k) m xs = Some (r, xs')
      \<and> Increment xs' it = Some it' \<and> (it', xs') \<in> S"
    and S: "(it, xs) \<in> S"
  shows "filter_loop True HF want it xs xs acc = None"
proof -
  have "\<not> (al \<and> HF' = HF \<and> xs = ys \<and> (it, xs) \<in> S)"
    if "filter_loop al HF' w it xs ys acc = Some y" for al HF' w it xs ys acc y
  proof (rule filter_loop.raw_induct [where P = "\<lambda>al HF' w it xs ys acc y. \<not> (al \<and> HF' = HF \<and> xs = ys \<and> (it, xs) \<in> S)",
        OF _ that], intro notI)
    fix loop al HF' w it xs ys acc y
    assume IH: "\<And>al HF' w it xs ys acc y. loop al HF' w it xs ys acc = Some y \<Longrightarrow> \<not> (al \<and> HF' = HF \<and> xs = ys \<and> (it, xs) \<in> S)"
      and body: "(case slot it of None \<Rightarrow> Some (acc, xs, ys)
        | Some m \<Rightarrow> do {
            (r, ys) \<leftarrow> Find HF' (\<lambda>k. k) m ys;
            let xs = (if al then ys else xs);
            it \<leftarrow> Increment xs it;
            loop al HF' w it xs ys (if (r \<noteq> None) = w then acc @ [m] else acc) }) = Some y"
      and al: "al \<and> HF' = HF \<and> xs = ys \<and> (it, xs) \<in> S"
    from step [of it xs] al obtain m r xs' it' where st: "slot it = Some m" "Find HF (\<lambda>k. k) m xs = Some (r, xs')"
      "Increment xs' it = Some it'" "(it', xs') \<in> S" by auto
    then have "loop al HF' w it' xs' xs' (if (r \<noteq> None) = w then acc @ [m] else acc) = Some y"
      using body al by (simp add: Let_def)
    from IH [OF this] st(4) al show False by simp
  qed
  then show ?thesis using S by (cases "filter_loop True HF want it xs xs acc") auto
qed

definition two_in_a_bucket :: "u64 \<Rightarrow> u64 \<Rightarrow> u64 HashTable" where
  "two_in_a_bucket x y = \<lparr>table1 = \<lparr>table = [[x, y], [], [], []], used = 2, size_mask = 3\<rparr>,
     table2 = Table_init, rehash_move_bucket_index = - 1\<rparr>"

lemma built_two: "HashTable_new True = Inr hs \<Longrightarrow> HashSet_of_list True True (\<lambda>k. k) [0, 4] hs = Some (Inr (two_in_a_bucket 4 0))"
  by (auto simp: HashTable_new_ok replicate_four Set_Insert_def Insert_def InsertWithDuplicate_def Rehash_def IncrementalRehash_def
      InRehashing_def Table_size_def insert_checked_def insert_front_def bucket_index_def table_at_def table_set_def
      slot_EmplaceFront_def slot_EmplaceFrontNode_def Let_def two_in_a_bucket_def Table_init_def word_le_nat_alt)

definition at_slot :: "u64 \<Rightarrow> u64 HashTableIterator" where
  "at_slot m = \<lparr>table_index = 0, bucket_at = 0, slot = Some m\<rparr>"

lemmas two_simps = two_in_a_bucket_def at_slot_def Find_def FindSlot_def IncrementalRehash_def InRehashing_def
  find_in_table_def bucket_index_def table_at_def table_set_def slot_EmplaceFrontNode_def slot_of_def Let_def
  Increment_def node_next_def Table_init_def

lemma two_alternate:
  "Find (\<lambda>k. k) (\<lambda>k. k) 4 (two_in_a_bucket 4 0) = Some (Some 4, two_in_a_bucket 4 0)"
  "Find (\<lambda>k. k) (\<lambda>k. k) 0 (two_in_a_bucket 4 0) = Some (Some 0, two_in_a_bucket 0 4)"
  "Find (\<lambda>k. k) (\<lambda>k. k) 4 (two_in_a_bucket 0 4) = Some (Some 4, two_in_a_bucket 4 0)"
  "Increment (two_in_a_bucket 4 0) (at_slot 4) = Some (at_slot 0)"
  "Increment (two_in_a_bucket 0 4) (at_slot 0) = Some (at_slot 4)"
  by (simp_all add: two_simps)

lemma two_begin: "ht_begin (two_in_a_bucket 4 0) = at_slot 4"
  by (simp add: ht_begin_def iter_make_def numeral_2_eq_2 two_simps ht_table_def scan_buckets.simps)

lemma self_loop_diverges:
  "filter_loop True (\<lambda>k. k) want (at_slot 4) (two_in_a_bucket 4 0) (two_in_a_bucket 4 0) acc = None"
proof (rule filter_loop_diverges [where S = "{(at_slot 4, two_in_a_bucket 4 0), (at_slot 0, two_in_a_bucket 4 0),
    (at_slot 4, two_in_a_bucket 0 4)}"])
  fix it xs
  assume "(it, xs) \<in> {(at_slot 4, two_in_a_bucket 4 0), (at_slot 0, two_in_a_bucket 4 0), (at_slot 4, two_in_a_bucket 0 4)}"
  then show "\<exists>m r xs' it'. slot it = Some m \<and> Find (\<lambda>k. k) (\<lambda>k. k) m xs = Some (r, xs') \<and> Increment xs' it = Some it'
      \<and> (it', xs') \<in> {(at_slot 4, two_in_a_bucket 4 0), (at_slot 0, two_in_a_bucket 4 0), (at_slot 4, two_in_a_bucket 0 4)}"
    using two_alternate by (auto simp: at_slot_def [of 4, THEN arg_cong [where f = slot]]
        at_slot_def [of 0, THEN arg_cong [where f = slot]])
qed simp

section \<open>EraseRandom and Dictionary\<close>

lemma pop_front_entries:
  assumes "scan_buckets (table (if second then table2 ht else table1 ht)) i = Some j"
  shows "\<exists>v. entries ht = add_mset v (entries (pop_front_at second j ht))"
proof -
  let ?t = "if second then table2 ht else table1 ht"
  from scan_buckets_Some [OF assms] obtain v vs where j: "j < length (table ?t)" "table ?t ! j = v # vs"
    by (cases "table ?t ! j") auto
  have "slots_entries ?t = add_mset v (slots_mset (\<lambda>b. b) ((table ?t)[j := vs]))"
    unfolding slots_entries_def using j by (intro slots_mset_remove) simp_all
  then show ?thesis using j by (cases second) (auto simp: pop_front_at_def entries_def slots_entries_def)
qed

lemma EraseRandom_ok:
  assumes inv: "ht_inv HF (\<lambda>k. k) ht"
  shows "\<exists>n ht'. EraseRandom HF ht = Some (n, ht') \<and> used (table1 ht') = of_nat (size (entries ht))
    \<and> (if entries ht = {#} then n = 0 \<and> entries ht' = {#} else n = 1 \<and> Suc (size (entries ht')) = size (entries ht))"
proof -
  from IncrementalRehash_ok [OF inv] obtain ht1 where 1: "IncrementalRehash HF (\<lambda>k. k) ht = Some ht1"
    "ht_inv HF (\<lambda>k. k) ht1" "entries ht1 = entries ht" by auto
  let ?i = "if InRehashing ht1 then unat (rehash_move_bucket_index ht1) else 0"
  have "unat (used (table1 ht1)) = size (entries ht)" using 1(2,3) by (simp add: ht_inv_def)
  from arg_cong [OF this, of "of_nat :: nat \<Rightarrow> size_t"] have u: "used (table1 ht1) = of_nat (size (entries ht))" by simp
  have up: "used (table1 (pop_front_at s j ht1)) = used (table1 ht1)" for s j by (simp add: pop_front_at_def)
  have e1: "mset (concat (drop ?i (table (table1 ht1)))) = slots_entries (table1 ht1)"
    unfolding slots_entries_def using 1(2) by (intro drop_empties) (auto simp: ht_inv_def split: if_splits)
  show ?thesis
  proof (cases "scan_buckets (table (table1 ht1)) ?i")
    case (Some j)
    with pop_front_entries [of False ht1 ?i j] obtain v where "entries ht1 = add_mset v (entries (pop_front_at False j ht1))"
      by auto
    then show ?thesis using 1 u up Some by (auto simp: EraseRandom_def)
  next
    case None
    then have z1: "slots_entries (table1 ht1) = {#}" using e1 scan_buckets_None [OF None] by simp
    show ?thesis
    proof (cases "InRehashing ht1")
      case False
      then have "entries ht1 = {#}" using z1 1(2) by (simp add: entries_def ht_inv_def slots_entries_def)
      then show ?thesis using 1 u None False by (auto simp: EraseRandom_def)
    next
      case True
      show ?thesis
      proof (cases "scan_buckets (table (table2 ht1)) 0")
        case (Some j)
        with pop_front_entries [of True ht1 0 j] obtain v where "entries ht1 = add_mset v (entries (pop_front_at True j ht1))"
          by auto
        then show ?thesis using 1 u up Some None True by (auto simp: EraseRandom_def)
      next
        case none2: None
        then have "entries ht1 = {#}" using z1 scan_buckets_None [OF none2]
          by (simp add: entries_def slots_entries_def slots_mset_concat del: concat_eq_Nil_conv)
        then show ?thesis using 1 u None none2 True by (auto simp: EraseRandom_def)
      qed
    qed
  qed
qed

lemma Insert_ok:
  assumes "ht_inv HF GK ht" and "size (entries ht) < 2 ^ 60" and "ht_map GK ht (GK e) = None"
  shows "\<exists>ht'. Insert True True HF GK e ht = Some (Inr (Some e), ht') \<and> ht_inv HF GK ht' \<and> ht_map GK ht' = (ht_map GK ht)(GK e \<mapsto> e)"
  using InsertWithDuplicate_ok [OF assms(1,2), where ok = True and node = True and elem = e] ht_map_insert [of HF GK _ e ht] assms(3)
  by (fastforce simp: Insert_def inserted_ok_def)

lemma Dictionary_at_ok:
  assumes inv: "ht_inv HF fst d" and small: "size (entries d) < 2 ^ 60"
  shows "\<exists>d' v. Dictionary_at True True HF dflt k d = Some (Inr v, d') \<and> ht_inv HF fst d'
    \<and> v = (case ht_map fst d k of None \<Rightarrow> dflt | Some kv \<Rightarrow> snd kv)
    \<and> ht_map fst d' = (ht_map fst d)(k \<mapsto> (k, v))"
proof -
  from Find_ok [OF inv, of k] obtain d1 where 1: "Find HF fst k d = Some (ht_map fst d k, d1)" "ht_inv HF fst d1"
    "entries d1 = entries d" by blast
  note m = ht_map_entries [OF 1(3), of fst]
  show ?thesis
  proof (cases "ht_map fst d k")
    case None
    from Insert_ok [OF 1(2), of "(k, dflt)"] None m 1(3) small obtain d2 where
      "Insert True True HF fst (k, dflt) d1 = Some (Inr (Some (k, dflt)), d2)" "ht_inv HF fst d2"
      "ht_map fst d2 = (ht_map fst d)(k \<mapsto> (k, dflt))" by auto
    then show ?thesis using 1 None by (auto simp: Dictionary_at_def)
  next
    case (Some kv)
    then have kv: "fst kv = k" using inv entry_map_iff [of fst "entries d" k kv] by (simp add: ht_inv_def ht_map_def)
    then have "ht_map fst d = (ht_map fst d)(k \<mapsto> (k, snd kv))" using Some by (auto simp: fun_eq_iff)
    then show ?thesis using 1 Some m by (auto simp: Dictionary_at_def)
  qed
qed

section \<open>Properties\<close>

text \<open>
  C31: on two different valid sets \<open>Union\<close>, \<open>Intersection\<close> and \<open>Difference\<close> terminate, call the
  callback once for every member of the union, intersection or difference and for nothing else,
  and leave both sets valid with their members, although the lookups reorder buckets and may
  advance a rehash of the set they are in.
\<close>
theorem hash_set_operations:
  assumes "ht_inv HF (\<lambda>k. k) a" and "ht_inv HF (\<lambda>k. k) b"
  shows "(\<exists>out a' b'. Union False HF a b = Some (out, a', b') \<and> ht_inv HF (\<lambda>k. k) a' \<and> ht_inv HF (\<lambda>k. k) b'
      \<and> entries a' = entries a \<and> entries b' = entries b
      \<and> each_once out (set_mset (entries a) \<union> set_mset (entries b)))
    \<and> (\<exists>out a' b'. Intersection False HF a b = Some (out, a', b') \<and> ht_inv HF (\<lambda>k. k) a' \<and> ht_inv HF (\<lambda>k. k) b'
      \<and> entries a' = entries a \<and> entries b' = entries b
      \<and> each_once out (set_mset (entries a) \<inter> set_mset (entries b)))
    \<and> (\<exists>out b'. Difference False HF a b = Some (out, a, b') \<and> ht_inv HF (\<lambda>k. k) b' \<and> entries b' = entries b
      \<and> each_once out (set_mset (entries a) - set_mset (entries b)))"
  using Union_ok [OF assms] Intersection_ok [OF assms] Difference_ok [OF assms] by blast

lemma two_in_a_bucket_inv: "ht_inv (\<lambda>k. k) (\<lambda>k. k) (two_in_a_bucket 4 0)"
proof -
  have "table_ok (\<lambda>k. k) (\<lambda>k. k) (table1 (two_in_a_bucket 4 0))"
    unfolding table_ok_def by (auto simp: two_in_a_bucket_def Table_size_def hashed_def less_Suc_eq intro: exI [of _ 2])
  then show ?thesis
    by (simp add: ht_inv_def room_def InRehashing_def)
      (simp add: two_in_a_bucket_def Table_init_def entries_def slots_entries_def unique_keys_add)
qed

lemma two_in_a_bucket_entries: "set_mset (entries (two_in_a_bucket 4 0)) = {0, 4}"
  by (auto simp: two_in_a_bucket_def Table_init_def entries_def slots_entries_def)

text \<open>The instance has one set in a rehash and another with which it shares one member.\<close>

theorem hash_set_operations_witness:
  "(\<exists>out a' b'. Union False (\<lambda>k. k) demo_rehashing (two_in_a_bucket 4 0) = Some (out, a', b') \<and> each_once out {0, 1, 4, 6, 7})
    \<and> (\<exists>out a' b'. Intersection False (\<lambda>k. k) demo_rehashing (two_in_a_bucket 4 0) = Some (out, a', b') \<and> each_once out {4})
    \<and> (\<exists>out b'. Difference False (\<lambda>k. k) demo_rehashing (two_in_a_bucket 4 0) = Some (out, demo_rehashing, b') \<and> each_once out {1, 6, 7})"
proof -
  have "{4, 1, 6, 7} \<union> {0, 4} = {0, 1, 4, 6, 7 :: u64}" "{4, 1, 6, 7} \<inter> {0, 4} = {4 :: u64}" "{4, 1, 6, 7} - {0, 4} = {1, 6, 7 :: u64}"
    by auto
  moreover have "set_mset (entries demo_rehashing) = {4, 1, 6, 7}" by (simp add: demo_rehashing_facts)
  moreover note hash_set_operations [OF demo_rehashing_inv two_in_a_bucket_inv]
  ultimately show ?thesis unfolding two_in_a_bucket_entries by metis
qed

text \<open>
  C36: a set operation with the set itself as argument need not return: the set built from 0 and
  4, which share a bucket, has a union, an intersection and a difference with itself that loop
  forever, because every lookup moves the node under the iterator to the front of its bucket.
\<close>
theorem set_operation_with_itself_diverges:
  "\<exists>hs s. HashTable_new True = Inr hs \<and> HashSet_of_list True True (\<lambda>k. k) [0, 4] hs = Some (Inr s)
    \<and> Intersection True (\<lambda>k. k) s s = None \<and> Difference True (\<lambda>k. k) s s = None \<and> Union True (\<lambda>k. k) s s = None"
proof -
  obtain hs :: "u64 HashTable" where new: "HashTable_new True = Inr hs" using HashTable_new_ok(1) by blast
  have "Union True (\<lambda>k. k) (two_in_a_bucket 4 0) (two_in_a_bucket 4 0) = None"
    using self_loop_diverges [of False]
    by (cases "ht_for_each (two_in_a_bucket 4 0) (at_slot 4) []") (simp_all add: Union_def two_begin)
  with new built_two [OF new] self_loop_diverges show ?thesis
    by (simp add: Intersection_def Difference_def two_begin)
qed

text \<open>
  \<open>operator[]\<close> of a dictionary returns the value of the key, the default value for a new
  key, which is then in the dictionary, and changes no other key.
\<close>
theorem dictionary_subscript:
  assumes "ht_inv HF fst d" and "size (entries d) < 2 ^ 60"
  shows "\<exists>d' v. Dictionary_at True True HF dflt k d = Some (Inr v, d') \<and> ht_inv HF fst d'
    \<and> v = (case ht_map fst d k of None \<Rightarrow> dflt | Some kv \<Rightarrow> snd kv)
    \<and> ht_map fst d' = (ht_map fst d)(k \<mapsto> (k, v))"
  using assms by (rule Dictionary_at_ok)

definition demo_dictionary :: "(u64 \<times> nat) HashTable" where
  "demo_dictionary = \<lparr>table1 = \<lparr>table = replicate 4 [], used = 0, size_mask = 3\<rparr>, table2 = Table_init,
     rehash_move_bucket_index = - 1\<rparr>"

theorem dictionary_subscript_witness:
  "\<exists>d' v. Dictionary_at True True (\<lambda>k. k) 7 5 demo_dictionary = Some (Inr v, d') \<and> v = 7 \<and> ht_map fst d' = [5 \<mapsto> (5, 7)]"
proof -
  have "ht_inv (\<lambda>k. k) fst demo_dictionary" and e: "entries demo_dictionary = {#}"
    using new_inv [of True demo_dictionary "\<lambda>k. k" fst] by (simp_all add: HashTable_new_ok demo_dictionary_def)
  moreover have "size (entries demo_dictionary) < 2 ^ 60" by (simp add: e)
  ultimately show ?thesis using dictionary_subscript [of "\<lambda>k. k" demo_dictionary 7 5] e by (auto simp: ht_map_def)
qed

text \<open>
  \<open>EraseRandom\<close> removes a member of a non-empty set, in any phase of a rehash, but not its
  count: the size that is reported stays.
\<close>
theorem EraseRandom_keeps_count:
  assumes "ht_inv HF (\<lambda>k. k) ht" and "entries ht \<noteq> {#}"
  shows "\<exists>ht'. EraseRandom HF ht = Some (1, ht') \<and> Suc (size (entries ht')) = size (entries ht)
    \<and> HashTable_size ht' = HashTable_size ht"
proof -
  have "HashTable_size ht = of_nat (unat (used (table1 ht)))" by (simp add: HashTable_size_def)
  also have "\<dots> = of_nat (size (entries ht))" using assms(1) by (simp only: ht_inv_def)
  finally show ?thesis using EraseRandom_ok [OF assms(1)] assms(2) by (auto simp: HashTable_size_def)
qed

theorem EraseRandom_keeps_count_witness:
  "\<exists>ht'. EraseRandom (\<lambda>k. k) (two_in_a_bucket 4 0) = Some (1, ht') \<and> HashTable_size ht' = 2"
proof -
  have "\<exists>k. 2 \<le> k \<and> k \<le> 60 \<and> Suc (Suc (Suc (Suc 0))) = (2 :: nat) ^ k" by (rule exI [of _ 2]) simp
  then have "ht_inv (\<lambda>k. k) (\<lambda>k. k) (two_in_a_bucket 4 0)"
    by (auto simp: ht_inv_def two_in_a_bucket_def InRehashing_def room_def table_ok_def Table_size_def entries_def
        slots_entries_def unique_keys_add Table_init_def hashed_def less_Suc_eq)
  moreover have "entries (two_in_a_bucket 4 0) \<noteq> {#}"
    by (simp add: two_in_a_bucket_def entries_def slots_entries_def)
  ultimately show ?thesis
    using EraseRandom_keeps_count [of "\<lambda>k. k" "two_in_a_bucket 4 0"] by (auto simp: two_in_a_bucket_def HashTable_size_def)
qed

end
