(* ===== verification/Avl_Node.thy ===== *)
theory Avl_Node
  imports Prelude
begin

text \<open>
  The nodes of the AVL trees and the routines of \<open>algo/internal/avl_util.h\<close> on them: linking,
  rotations, the two repair loops, unlinking and the traversal steps, on a heap of nodes with
  parent pointers. The state is the heap and the members of the tree: \<open>root\<close>, which the routines get a pointer to, and
  the count of \<open>AvlTree\<close>. Heights are \<open>int\<close>s that never exceed the number of nodes.
\<close>

section \<open>Nodes\<close>

record 'v AvlNode =
  parent :: ptr
  left :: ptr
  right :: ptr
  height :: int
  node_value :: 'v

record 'v avl =
  nodes :: "'v AvlNode heap"
  root :: ptr
  tree_count :: size_t

definition node_at :: "'v avl \<Rightarrow> ptr \<Rightarrow> 'v AvlNode option" where
  "node_at s p = deref (nodes s) p"

definition upd :: "'v avl \<Rightarrow> ptr \<Rightarrow> ('v AvlNode \<Rightarrow> 'v AvlNode) \<Rightarrow> 'v avl option" where
  "upd s p f = do { h \<leftarrow> store (nodes s) p f; Some (s\<lparr>nodes := h\<rparr>) }"

text \<open>A pointer to a slot: the root variable or a child member of a node.\<close>

datatype slot_ref = Root_slot | Left_slot ptr | Right_slot ptr

definition read_slot :: "'v avl \<Rightarrow> slot_ref \<Rightarrow> ptr option" where
  "read_slot s r =
     (case r of
        Root_slot \<Rightarrow> Some (root s)
      | Left_slot p \<Rightarrow> do { n \<leftarrow> node_at s p; Some (left n) }
      | Right_slot p \<Rightarrow> do { n \<leftarrow> node_at s p; Some (right n) })"

definition write_slot :: "'v avl \<Rightarrow> slot_ref \<Rightarrow> ptr \<Rightarrow> 'v avl option" where
  "write_slot s r q =
     (case r of
        Root_slot \<Rightarrow> Some (s\<lparr>root := q\<rparr>)
      | Left_slot p \<Rightarrow> upd s p (\<lambda>n. n\<lparr>left := q\<rparr>)
      | Right_slot p \<Rightarrow> upd s p (\<lambda>n. n\<lparr>right := q\<rparr>))"

section \<open>Linking and rotations\<close>

definition LinkSlot :: "'v avl \<Rightarrow> slot_ref \<Rightarrow> ptr \<Rightarrow> ptr \<Rightarrow> 'v avl option" where
  "LinkSlot s sl node par = do {
     s \<leftarrow> write_slot s sl node;
     upd s node (\<lambda>n. n\<lparr>parent := par\<rparr>) }"

definition ChildPlace :: "'v avl \<Rightarrow> ptr \<Rightarrow> ptr \<Rightarrow> ptr \<Rightarrow> 'v avl option" where
  "ChildPlace s old_node new_node par =
     (if old_node = nullptr then None
      else if par \<noteq> nullptr then do {
        n \<leftarrow> node_at s par;
        (if old_node = left n then upd s par (\<lambda>n. n\<lparr>left := new_node\<rparr>)
         else upd s par (\<lambda>n. n\<lparr>right := new_node\<rparr>)) }
      else Some (s\<lparr>root := new_node\<rparr>))"

definition RotateLeft :: "'v avl \<Rightarrow> ptr \<Rightarrow> ('v avl \<times> ptr) option" where
  "RotateLeft s node = do {
     n \<leftarrow> node_at s node;
     let rp = right n;
     let par = parent n;
     r \<leftarrow> node_at s rp;
     s \<leftarrow> upd s node (\<lambda>n. n\<lparr>right := left r\<rparr>);
     s \<leftarrow> (if left r \<noteq> nullptr then upd s (left r) (\<lambda>n. n\<lparr>parent := node\<rparr>) else Some s);
     s \<leftarrow> upd s rp (\<lambda>n. n\<lparr>left := node\<rparr>);
     s \<leftarrow> upd s rp (\<lambda>n. n\<lparr>parent := par\<rparr>);
     s \<leftarrow> upd s node (\<lambda>n. n\<lparr>parent := rp\<rparr>);
     s \<leftarrow> ChildPlace s node rp par;
     Some (s, rp) }"

definition RotateRight :: "'v avl \<Rightarrow> ptr \<Rightarrow> ('v avl \<times> ptr) option" where
  "RotateRight s node = do {
     n \<leftarrow> node_at s node;
     let lp = left n;
     let par = parent n;
     l \<leftarrow> node_at s lp;
     s \<leftarrow> upd s node (\<lambda>n. n\<lparr>left := right l\<rparr>);
     s \<leftarrow> (if right l \<noteq> nullptr then upd s (right l) (\<lambda>n. n\<lparr>parent := node\<rparr>) else Some s);
     s \<leftarrow> upd s lp (\<lambda>n. n\<lparr>right := node\<rparr>);
     s \<leftarrow> upd s lp (\<lambda>n. n\<lparr>parent := par\<rparr>);
     s \<leftarrow> upd s node (\<lambda>n. n\<lparr>parent := lp\<rparr>);
     s \<leftarrow> ChildPlace s node lp par;
     Some (s, lp) }"

definition child_height :: "'v avl \<Rightarrow> ptr \<Rightarrow> int option" where
  "child_height s p = (if p = nullptr then Some 0 else do { n \<leftarrow> node_at s p; Some (height n) })"

definition LEFT_HEIGHT :: "'v avl \<Rightarrow> ptr \<Rightarrow> int option" where
  "LEFT_HEIGHT s node = do { n \<leftarrow> node_at s node; child_height s (left n) }"

definition RIGHT_HEIGHT :: "'v avl \<Rightarrow> ptr \<Rightarrow> int option" where
  "RIGHT_HEIGHT s node = do { n \<leftarrow> node_at s node; child_height s (right n) }"

definition UpdateHeight :: "'v avl \<Rightarrow> ptr \<Rightarrow> 'v avl option" where
  "UpdateHeight s node = do {
     lh \<leftarrow> LEFT_HEIGHT s node;
     rh \<leftarrow> RIGHT_HEIGHT s node;
     upd s node (\<lambda>n. n\<lparr>height := (if lh < rh then rh else lh) + 1\<rparr>) }"

section \<open>Repair\<close>

definition FixupLeftHeavy :: "'v avl \<Rightarrow> ptr \<Rightarrow> ('v avl \<times> ptr) option" where
  "FixupLeftHeavy s node = do {
     n \<leftarrow> node_at s node;
     let lp = left n;
     lh \<leftarrow> LEFT_HEIGHT s lp;
     rh \<leftarrow> RIGHT_HEIGHT s lp;
     s \<leftarrow> (if lh < rh then do {
             (s, lp) \<leftarrow> RotateLeft s lp;
             l \<leftarrow> node_at s lp;
             s \<leftarrow> UpdateHeight s (left l);
             UpdateHeight s lp }
           else Some s);
     (s, node) \<leftarrow> RotateRight s node;
     n \<leftarrow> node_at s node;
     s \<leftarrow> UpdateHeight s (right n);
     s \<leftarrow> UpdateHeight s node;
     Some (s, node) }"

definition FixupRightHeavy :: "'v avl \<Rightarrow> ptr \<Rightarrow> ('v avl \<times> ptr) option" where
  "FixupRightHeavy s node = do {
     n \<leftarrow> node_at s node;
     let rp = right n;
     lh \<leftarrow> LEFT_HEIGHT s rp;
     rh \<leftarrow> RIGHT_HEIGHT s rp;
     s \<leftarrow> (if lh > rh then do {
             (s, rp) \<leftarrow> RotateRight s rp;
             r \<leftarrow> node_at s rp;
             s \<leftarrow> UpdateHeight s (right r);
             UpdateHeight s rp }
           else Some s);
     (s, node) \<leftarrow> RotateLeft s node;
     n \<leftarrow> node_at s node;
     s \<leftarrow> UpdateHeight s (left n);
     s \<leftarrow> UpdateHeight s node;
     Some (s, node) }"

text \<open>The branch both loops share: repair a node whose balance factor is out of bounds.\<close>

definition Fixup :: "'v avl \<Rightarrow> int \<Rightarrow> ptr \<Rightarrow> ('v avl \<times> ptr) option" where
  "Fixup s bf node =
     (if bf \<ge> 2 then FixupLeftHeavy s node
      else if bf \<le> - 2 then FixupRightHeavy s node
      else Some (s, node))"

partial_function (option) InsertFixup :: "'v avl \<Rightarrow> ptr \<Rightarrow> 'v avl option" where
  [code]: "InsertFixup s node =
     (if node = nullptr then Some s
      else do {
        lh \<leftarrow> LEFT_HEIGHT s node;
        rh \<leftarrow> RIGHT_HEIGHT s node;
        let h = (if lh < rh then rh else lh) + 1;
        n \<leftarrow> node_at s node;
        (if height n = h then Some s
         else do {
           s \<leftarrow> upd s node (\<lambda>n. n\<lparr>height := h\<rparr>);
           (s, node) \<leftarrow> Fixup s (lh - rh) node;
           n \<leftarrow> node_at s node;
           InsertFixup s (parent n) }) })"

partial_function (option) EraseFixup :: "'v avl \<Rightarrow> ptr \<Rightarrow> 'v avl option" where
  [code]: "EraseFixup s node =
     (if node = nullptr then Some s
      else do {
        lh \<leftarrow> LEFT_HEIGHT s node;
        rh \<leftarrow> RIGHT_HEIGHT s node;
        let h = (if lh < rh then rh else lh) + 1;
        let bf = lh - rh;
        n \<leftarrow> node_at s node;
        (if height n = h \<and> bf \<ge> - 1 \<and> bf \<le> 1 then Some s
         else do {
           s \<leftarrow> (if height n \<noteq> h then upd s node (\<lambda>n. n\<lparr>height := h\<rparr>) else Some s);
           (s, node) \<leftarrow> Fixup s bf node;
           n \<leftarrow> node_at s node;
           EraseFixup s (parent n) }) })"

section \<open>First, last, next, previous\<close>

partial_function (option) GetFirstNode :: "'v avl \<Rightarrow> ptr \<Rightarrow> ptr option" where
  [code]: "GetFirstNode s node =
     (if node = nullptr then Some nullptr
      else do {
        n \<leftarrow> node_at s node;
        (if left n \<noteq> nullptr then GetFirstNode s (left n) else Some node) })"

partial_function (option) GetLastNode :: "'v avl \<Rightarrow> ptr \<Rightarrow> ptr option" where
  [code]: "GetLastNode s node =
     (if node = nullptr then Some nullptr
      else do {
        n \<leftarrow> node_at s node;
        (if right n \<noteq> nullptr then GetLastNode s (right n) else Some node) })"

text \<open>The ascents: up from \<open>cur\<close> until it is a left (right) child or the root was left.\<close>

partial_function (option) ascend_left :: "'v avl \<Rightarrow> ptr \<Rightarrow> ptr option" where
  [code]: "ascend_left s cur = do {
     c \<leftarrow> node_at s cur;
     let node = parent c;
     (if node = nullptr then Some node
      else do {
        n \<leftarrow> node_at s node;
        (if left n = cur then Some node else ascend_left s node) }) }"

partial_function (option) ascend_right :: "'v avl \<Rightarrow> ptr \<Rightarrow> ptr option" where
  [code]: "ascend_right s cur = do {
     c \<leftarrow> node_at s cur;
     let node = parent c;
     (if node = nullptr then Some node
      else do {
        n \<leftarrow> node_at s node;
        (if right n = cur then Some node else ascend_right s node) }) }"

definition GetNextNode :: "'v avl \<Rightarrow> ptr \<Rightarrow> ptr option" where
  "GetNextNode s node =
     (if node = nullptr then Some nullptr
      else do {
        n \<leftarrow> node_at s node;
        (if right n \<noteq> nullptr then GetFirstNode s (right n) else ascend_left s node) })"

definition GetPrevNode :: "'v avl \<Rightarrow> ptr \<Rightarrow> ptr option" where
  "GetPrevNode s node =
     (if node = nullptr then Some nullptr
      else do {
        n \<leftarrow> node_at s node;
        (if left n \<noteq> nullptr then GetLastNode s (left n) else ascend_right s node) })"

section \<open>Unlinking\<close>

text \<open>
  \<open>_Erase\<close>: the successor of a node with two children takes its place. The result of the
  unlinking is the node the repair starts at.
\<close>

definition unlink :: "'v avl \<Rightarrow> ptr \<Rightarrow> ('v avl \<times> ptr) option" where
  "unlink s old_node = do {
     n \<leftarrow> node_at s old_node;
     let par = parent n;
     (if left n \<noteq> nullptr \<and> right n \<noteq> nullptr then do {
        node \<leftarrow> GetFirstNode s (right n);
        m \<leftarrow> node_at s node;
        (if parent m = old_node then do {
           s \<leftarrow> upd s node (\<lambda>m. m\<lparr>left := left n\<rparr>);
           s \<leftarrow> upd s (left n) (\<lambda>l. l\<lparr>parent := node\<rparr>);
           s \<leftarrow> upd s node (\<lambda>m. m\<lparr>parent := par\<rparr>);
           s \<leftarrow> upd s node (\<lambda>m. m\<lparr>height := height n\<rparr>);
           s \<leftarrow> ChildPlace s old_node node par;
           Some (s, node) }
         else do {
           let parent2 = parent m;
           let rp = right m;
           s \<leftarrow> ChildPlace s node rp parent2;
           s \<leftarrow> (if rp \<noteq> nullptr then upd s rp (\<lambda>r. r\<lparr>parent := parent2\<rparr>) else Some s);
           o1 \<leftarrow> node_at s old_node;
           let rp = right o1;
           let lp = left o1;
           (if rp = nullptr \<or> lp = nullptr then None else Some ());
           s \<leftarrow> upd s node (\<lambda>m. m\<lparr>right := rp\<rparr>);
           s \<leftarrow> upd s rp (\<lambda>r. r\<lparr>parent := node\<rparr>);
           s \<leftarrow> upd s node (\<lambda>m. m\<lparr>left := lp\<rparr>);
           s \<leftarrow> upd s lp (\<lambda>l. l\<lparr>parent := node\<rparr>);
           s \<leftarrow> upd s node (\<lambda>m. m\<lparr>height := height o1\<rparr>);
           s \<leftarrow> upd s node (\<lambda>m. m\<lparr>parent := par\<rparr>);
           s \<leftarrow> ChildPlace s old_node node par;
           Some (s, parent2) }) }
      else do {
        let child = (if left n \<noteq> nullptr then left n else right n);
        s \<leftarrow> ChildPlace s old_node child par;
        s \<leftarrow> (if child \<noteq> nullptr then upd s child (\<lambda>c. c\<lparr>parent := par\<rparr>) else Some s);
        Some (s, par) }) }"

definition Avl_Erase :: "'v avl \<Rightarrow> ptr \<Rightarrow> 'v avl option" where
  "Avl_Erase s node = do {
     (s, start) \<leftarrow> unlink s node;
     EraseFixup s start }"

end
