(* ===== verification/Avl_Tree.thy ===== *)
theory Avl_Tree
  imports Prelude "HOL-Library.Multiset"
begin

text \<open>
  AVL trees with stored heights as values, the specification the pointer code of \<open>Avl_Node\<close> and
  \<open>Avl\<close> is refined to. A place in a tree is the subtree there with the frames above it, nearest
  first, which is what the parent pointers give the code. The operations keep what the code
  does with the stored heights, right or wrong; \<open>avl\<close> says that they are right and that the
  tree is balanced.
\<close>

section \<open>Trees and places\<close>

datatype 'n atree = Tip | Nd "'n atree" 'n int "'n atree"

fun ht :: "'n atree \<Rightarrow> int" where
  "ht Tip = 0"
| "ht (Nd l a h r) = h"

fun inord :: "'n atree \<Rightarrow> 'n list" where
  "inord Tip = []"
| "inord (Nd l a h r) = inord l @ a # inord r"

text \<open>The hole is the left, or the right, child of a node.\<close>

datatype 'n frame = InLeft 'n int "'n atree" | InRight "'n atree" 'n int

fun plug1 :: "'n atree \<Rightarrow> 'n frame \<Rightarrow> 'n atree" where
  "plug1 t (InLeft a h r) = Nd t a h r"
| "plug1 t (InRight l a h) = Nd l a h t"

fun plug :: "'n atree \<Rightarrow> 'n frame list \<Rightarrow> 'n atree" where
  "plug t [] = t"
| "plug t (f # c) = plug (plug1 t f) c"

fun before_hole :: "'n frame list \<Rightarrow> 'n list" where
  "before_hole [] = []"
| "before_hole (InLeft a h r # c) = before_hole c"
| "before_hole (InRight l a h # c) = before_hole c @ inord l @ [a]"

fun after_hole :: "'n frame list \<Rightarrow> 'n list" where
  "after_hole [] = []"
| "after_hole (InLeft a h r # c) = a # inord r @ after_hole c"
| "after_hole (InRight l a h # c) = after_hole c"

lemma inord_plug: "inord (plug t c) = before_hole c @ inord t @ after_hole c"
proof (induction c arbitrary: t)
  case (Cons f c)
  then show ?case by (cases f) simp_all
qed simp

lemma plug_append [simp]: "plug t (c @ d) = plug (plug t c) d"
  by (induction c arbitrary: t) simp_all

lemma plug1_not_Tip [simp]: "plug1 t f \<noteq> Tip" "Tip \<noteq> plug1 t f"
  by (cases f; simp)+

section \<open>Rotations and repair\<close>

text \<open>The height \<open>_UpdateHeight\<close> stores.\<close>

definition new_ht :: "'n atree \<Rightarrow> 'n atree \<Rightarrow> int" where
  "new_ht l r = (if ht l < ht r then ht r else ht l) + 1"

lemma new_ht_max: "new_ht l r = max (ht l) (ht r) + 1"
  by (simp add: new_ht_def)

definition mk :: "'n atree \<Rightarrow> 'n \<Rightarrow> 'n atree \<Rightarrow> 'n atree" where
  "mk l a r = Nd l a (new_ht l r) r"

fun rot_left :: "'n atree \<Rightarrow> 'n atree" where
  "rot_left (Nd A x hx (Nd B y hy C)) = Nd (Nd A x hx B) y hy C"
| "rot_left t = t"

fun rot_right :: "'n atree \<Rightarrow> 'n atree" where
  "rot_right (Nd (Nd A x hx B) y hy C) = Nd A x hx (Nd B y hy C)"
| "rot_right t = t"

fun fix_left_heavy :: "'n atree \<Rightarrow> 'n atree" where
  "fix_left_heavy (Nd (Nd A x hx B) z hz C) =
     (if ht A < ht B then (case B of Nd B1 y hy B2 \<Rightarrow> mk (mk A x B1) y (mk B2 z C) | Tip \<Rightarrow> Nd (Nd A x hx B) z hz C)
      else mk A x (mk B z C))"
| "fix_left_heavy t = t"

fun fix_right_heavy :: "'n atree \<Rightarrow> 'n atree" where
  "fix_right_heavy (Nd C z hz (Nd A x hx B)) =
     (if ht A > ht B then (case A of Nd A1 y hy A2 \<Rightarrow> mk (mk C z A1) y (mk A2 x B) | Tip \<Rightarrow> Nd C z hz (Nd A x hx B))
      else mk (mk C z A) x B)"
| "fix_right_heavy t = t"

definition fixup :: "int \<Rightarrow> 'n atree \<Rightarrow> 'n atree" where
  "fixup bf t = (if bf \<ge> 2 then fix_left_heavy t else if bf \<le> - 2 then fix_right_heavy t else t)"

fun insert_fix :: "'n atree \<Rightarrow> 'n frame list \<Rightarrow> 'n atree" where
  "insert_fix Tip c = plug Tip c"
| "insert_fix (Nd l a h r) c =
     (let h' = new_ht l r in
      if h = h' then plug (Nd l a h r) c
      else (let t = fixup (ht l - ht r) (Nd l a h' r) in
            case c of [] \<Rightarrow> t | f # c' \<Rightarrow> insert_fix (plug1 t f) c'))"

fun erase_fix :: "'n atree \<Rightarrow> 'n frame list \<Rightarrow> 'n atree" where
  "erase_fix Tip c = plug Tip c"
| "erase_fix (Nd l a h r) c =
     (let h' = new_ht l r; bf = ht l - ht r in
      if h = h' \<and> bf \<ge> - 1 \<and> bf \<le> 1 then plug (Nd l a h r) c
      else (let t = fixup bf (Nd l a h' r) in
            case c of [] \<Rightarrow> t | f # c' \<Rightarrow> erase_fix (plug1 t f) c'))"

lemma inord_mk [simp]: "inord (mk l a r) = inord l @ a # inord r"
  by (simp add: mk_def)

lemma ht_mk [simp]: "ht (mk l a r) = max (ht l) (ht r) + 1"
  by (simp add: mk_def new_ht_max)

lemma inord_fix_left_heavy [simp]: "inord (fix_left_heavy t) = inord t"
  by (cases t rule: fix_left_heavy.cases) (auto split: atree.splits)

lemma inord_fix_right_heavy [simp]: "inord (fix_right_heavy t) = inord t"
  by (cases t rule: fix_right_heavy.cases) (auto split: atree.splits)

lemma inord_fixup [simp]: "inord (fixup bf t) = inord t"
  by (simp add: fixup_def)

lemma inord_plug1: "inord t = inord t' \<Longrightarrow> inord (plug1 t f) = inord (plug1 t' f)"
  by (cases f) simp_all

lemma inord_plug_cong: "inord t = inord t' \<Longrightarrow> inord (plug t c) = inord (plug t' c)"
  by (simp add: inord_plug)

lemma inord_insert_fix: "inord (insert_fix t c) = inord (plug t c)"
proof (induction t c rule: insert_fix.induct)
  case (2 l a h r c)
  show ?case
  proof (cases c)
    case (Cons f c')
    let ?h = "new_ht l r"
    have "inord (plug1 (fixup (ht l - ht r) (Nd l a ?h r)) f) = inord (plug1 (Nd l a h r) f)"
      by (rule inord_plug1) simp
    from inord_plug_cong [OF this, of c'] show ?thesis
      using 2 [OF refl _ refl Cons] Cons by (simp add: Let_def)
  qed (simp add: Let_def)
qed simp

lemma inord_erase_fix: "inord (erase_fix t c) = inord (plug t c)"
proof (induction t c rule: erase_fix.induct)
  case (2 l a h r c)
  show ?case
  proof (cases c)
    case (Cons f c')
    let ?h = "new_ht l r"
    have "inord (plug1 (fixup (ht l - ht r) (Nd l a ?h r)) f) = inord (plug1 (Nd l a h r) f)"
      by (rule inord_plug1) simp
    from inord_plug_cong [OF this, of c'] show ?thesis
      using 2 [OF refl refl _ refl Cons] Cons by (simp add: Let_def)
  qed (simp add: Let_def)
qed simp

section \<open>Balance\<close>

fun avl :: "'n atree \<Rightarrow> bool" where
  "avl Tip \<longleftrightarrow> True"
| "avl (Nd l a h r) \<longleftrightarrow> avl l \<and> avl r \<and> \<bar>ht l - ht r\<bar> \<le> 1 \<and> h = max (ht l) (ht r) + 1"

text \<open>What a context expects of the height of its hole.\<close>

fun ctx_ok :: "int \<Rightarrow> 'n frame list \<Rightarrow> bool" where
  "ctx_ok H [] \<longleftrightarrow> True"
| "ctx_ok H (InLeft a h r # c) \<longleftrightarrow> avl r \<and> \<bar>H - ht r\<bar> \<le> 1 \<and> h = max H (ht r) + 1 \<and> ctx_ok h c"
| "ctx_ok H (InRight l a h # c) \<longleftrightarrow> avl l \<and> \<bar>ht l - H\<bar> \<le> 1 \<and> h = max (ht l) H + 1 \<and> ctx_ok h c"

lemma avl_ht_nonneg: "avl t \<Longrightarrow> 0 \<le> ht t"
  by (induction t) auto

lemma avl_ht_pos: "avl (Nd l a h r) \<Longrightarrow> 1 \<le> h"
  using avl_ht_nonneg [of l] by auto

lemma avl_plug: "avl (plug t c) \<longleftrightarrow> avl t \<and> ctx_ok (ht t) c"
proof (induction c arbitrary: t)
  case (Cons f c)
  then show ?case by (cases f) auto
qed simp

lemma avl_mk: "avl l \<Longrightarrow> avl r \<Longrightarrow> \<bar>ht l - ht r\<bar> \<le> 1 \<Longrightarrow> avl (mk l a r)"
  by (auto simp: mk_def new_ht_max)

text \<open>A node whose subtrees differ by two is repaired; the height is that of the higher one or one more.\<close>

lemma fix_left_heavy_avl:
  assumes l: "avl l" and r: "avl r" and d: "ht l = ht r + 2"
  shows "avl (fix_left_heavy (Nd l a h r)) \<and> ht (fix_left_heavy (Nd l a h r)) \<in> {ht l, ht l + 1}"
proof -
  have "0 \<le> ht r" using r by (rule avl_ht_nonneg)
  with d obtain A x hx B where L: "l = Nd A x hx B" by (cases l) auto
  show ?thesis
  proof (cases "ht A < ht B")
    case True
    moreover have "0 \<le> ht A" using l L avl_ht_nonneg by auto
    ultimately obtain B1 y hy B2 where B: "B = Nd B1 y hy B2" by (cases B) auto
    show ?thesis using l r d L B True avl_ht_nonneg [of r]
      by (auto intro!: avl_mk simp: max_def split: if_splits)
  next
    case False
    then show ?thesis using l r d L by (auto intro!: avl_mk simp: max_def split: if_splits)
  qed
qed

lemma fix_right_heavy_avl:
  assumes l: "avl l" and r: "avl r" and d: "ht r = ht l + 2"
  shows "avl (fix_right_heavy (Nd l a h r)) \<and> ht (fix_right_heavy (Nd l a h r)) \<in> {ht r, ht r + 1}"
proof -
  have "0 \<le> ht l" using l by (rule avl_ht_nonneg)
  with d obtain A x hx B where R: "r = Nd A x hx B" by (cases r) auto
  show ?thesis
  proof (cases "ht A > ht B")
    case True
    moreover have "0 \<le> ht B" using r R avl_ht_nonneg by auto
    ultimately obtain A1 y hy A2 where A: "A = Nd A1 y hy A2" by (cases A) auto
    show ?thesis using l r d R A True avl_ht_nonneg [of l]
      by (auto intro!: avl_mk simp: max_def split: if_splits)
  next
    case False
    then show ?thesis using l r d R by (auto intro!: avl_mk simp: max_def split: if_splits)
  qed
qed

lemma fixup_avl:
  assumes l: "avl l" and r: "avl r" and d: "\<bar>ht l - ht r\<bar> \<le> 2" and h: "h = max (ht l) (ht r) + 1"
  shows "avl (fixup (ht l - ht r) (Nd l a h r)) \<and> ht (fixup (ht l - ht r) (Nd l a h r)) \<in> {h - 1, h}"
proof -
  consider "ht l = ht r + 2" | "ht r = ht l + 2" | "\<bar>ht l - ht r\<bar> \<le> 1" using d by linarith
  then show ?thesis
  proof cases
    case 1
    then show ?thesis using fix_left_heavy_avl [OF l r, of a h] h by (auto simp: fixup_def)
  next
    case 2
    then show ?thesis using fix_right_heavy_avl [OF l r, of a h] h by (auto simp: fixup_def)
  next
    case 3
    then show ?thesis using l r h by (auto simp: fixup_def)
  qed
qed

text \<open>
  The repair loops. \<open>H\<close> is the height the subtree at a child position had: after an insertion
  the child there may be one higher, after a removal one lower.
\<close>

lemma insert_frame:
  assumes "avl t" and "ht t \<in> {H, H + 1}" and "ctx_ok H (f # c)"
  obtains l a h r where "plug1 t f = Nd l a h r" and "ctx_ok h c"
    and "h = new_ht l r \<Longrightarrow> avl (Nd l a h r)"
    and "h \<noteq> new_ht l r \<Longrightarrow>
      avl (fixup (ht l - ht r) (Nd l a (new_ht l r) r))
      \<and> ht (fixup (ht l - ht r) (Nd l a (new_ht l r) r)) \<in> {h, h + 1}"
proof -
  obtain l a h r where t: "plug1 t f = Nd l a h r" by (cases f) auto
  have lr: "avl l" "avl r" and c: "ctx_ok h c" and d: "\<bar>ht l - ht r\<bar> \<le> 2"
    and h: "h \<in> {max (ht l) (ht r), max (ht l) (ht r) + 1}"
    and e: "h = max (ht l) (ht r) + 1 \<Longrightarrow> \<bar>ht l - ht r\<bar> \<le> 1"
    using assms t by (cases f; auto simp: max_def split: if_splits)+
  let ?h = "new_ht l r"
  have m: "?h = max (ht l) (ht r) + 1" by (simp add: new_ht_max)
  show thesis
    by (rule that [OF t c]) (use lr e m h fixup_avl [OF lr d m, of a] in auto)
qed

lemma erase_frame:
  assumes "avl t" and "ht t \<in> {H - 1, H}" and "ctx_ok H (f # c)"
  obtains l a h r where "plug1 t f = Nd l a h r" and "ctx_ok h c"
    and "h = new_ht l r \<Longrightarrow> ht l - ht r \<ge> - 1 \<Longrightarrow> ht l - ht r \<le> 1 \<Longrightarrow> avl (Nd l a h r)"
    and "\<not> (h = new_ht l r \<and> ht l - ht r \<ge> - 1 \<and> ht l - ht r \<le> 1) \<Longrightarrow>
      avl (fixup (ht l - ht r) (Nd l a (new_ht l r) r))
      \<and> ht (fixup (ht l - ht r) (Nd l a (new_ht l r) r)) \<in> {h - 1, h}"
proof -
  obtain l a h r where t: "plug1 t f = Nd l a h r" by (cases f) auto
  have lr: "avl l" "avl r" and c: "ctx_ok h c" and d: "\<bar>ht l - ht r\<bar> \<le> 2"
    and h: "h \<in> {max (ht l) (ht r) + 1, max (ht l) (ht r) + 2}"
    and e: "\<bar>ht l - ht r\<bar> = 2 \<Longrightarrow> h = max (ht l) (ht r) + 1"
    using assms t by (cases f; auto simp: max_def split: if_splits)+
  let ?h = "new_ht l r"
  have m: "?h = max (ht l) (ht r) + 1" by (rule new_ht_max)
  have k: "ht (fixup (ht l - ht r) (Nd l a ?h r)) \<in> {h - 1, h}" if "\<not> (h = ?h \<and> ht l - ht r \<ge> - 1 \<and> ht l - ht r \<le> 1)"
  proof (cases "\<bar>ht l - ht r\<bar> = 2")
    case True
    then show ?thesis using fixup_avl [OF lr d m, of a] e m by auto
  next
    case False
    then have "fixup (ht l - ht r) (Nd l a ?h r) = Nd l a ?h r" using d by (auto simp: fixup_def)
    then show ?thesis using False h m d that by auto
  qed
  show thesis
    by (rule that [OF t c]) (use lr m k fixup_avl [OF lr d m, of a] in auto)
qed

lemma insert_fix_avl:
  "avl t \<Longrightarrow> ht t \<in> {H, H + 1} \<Longrightarrow> ctx_ok H (f # c) \<Longrightarrow> avl (insert_fix (plug1 t f) c)"
proof (induction c arbitrary: t H f)
  case Nil
  from insert_frame [OF Nil.prems] obtain l a h r where
    "plug1 t f = Nd l a h r" "h = new_ht l r \<Longrightarrow> avl (Nd l a h r)"
    "h \<noteq> new_ht l r \<Longrightarrow> avl (fixup (ht l - ht r) (Nd l a (new_ht l r) r))" by metis
  then show ?case by (simp add: Let_def del: avl.simps)
next
  case (Cons g c)
  from insert_frame [OF Cons.prems] obtain l a h r where
    t: "plug1 t f = Nd l a h r" and c: "ctx_ok h (g # c)"
    and 1: "h = new_ht l r \<Longrightarrow> avl (Nd l a h r)"
    and 2: "h \<noteq> new_ht l r \<Longrightarrow>
      avl (fixup (ht l - ht r) (Nd l a (new_ht l r) r))
      \<and> ht (fixup (ht l - ht r) (Nd l a (new_ht l r) r)) \<in> {h, h + 1}" by metis
  let ?h = "new_ht l r"
  show ?case
  proof (cases "h = ?h")
    case True
    then have "avl (plug (Nd l a h r) (g # c))" using c 1 by (simp only: avl_plug ht.simps)
    then show ?thesis using True by (simp add: t Let_def)
  next
    case False
    from Cons.IH [OF _ _ c] 2 [OF False] show ?thesis using False by (simp add: t Let_def)
  qed
qed

lemma erase_fix_avl:
  "avl t \<Longrightarrow> ht t \<in> {H - 1, H} \<Longrightarrow> ctx_ok H (f # c) \<Longrightarrow> avl (erase_fix (plug1 t f) c)"
proof (induction c arbitrary: t H f)
  case Nil
  from erase_frame [OF Nil] obtain l a h r where
    t: "plug1 t f = Nd l a h r"
    and 1: "h = new_ht l r \<Longrightarrow> ht l - ht r \<ge> - 1 \<Longrightarrow> ht l - ht r \<le> 1 \<Longrightarrow> avl (Nd l a h r)"
    and 2: "\<not> (h = new_ht l r \<and> ht l - ht r \<ge> - 1 \<and> ht l - ht r \<le> 1) \<Longrightarrow>
      avl (fixup (ht l - ht r) (Nd l a (new_ht l r) r))" by metis
  then show ?case by (auto simp: t Let_def simp del: avl.simps)
next
  case (Cons g c)
  from erase_frame [OF Cons.prems] obtain l a h r where
    t: "plug1 t f = Nd l a h r" and c: "ctx_ok h (g # c)"
    and 1: "h = new_ht l r \<Longrightarrow> ht l - ht r \<ge> - 1 \<Longrightarrow> ht l - ht r \<le> 1 \<Longrightarrow> avl (Nd l a h r)"
    and 2: "\<not> (h = new_ht l r \<and> ht l - ht r \<ge> - 1 \<and> ht l - ht r \<le> 1) \<Longrightarrow>
      avl (fixup (ht l - ht r) (Nd l a (new_ht l r) r))
      \<and> ht (fixup (ht l - ht r) (Nd l a (new_ht l r) r)) \<in> {h - 1, h}" by metis
  let ?h = "new_ht l r"
  show ?case
  proof (cases "h = ?h \<and> ht l - ht r \<ge> - 1 \<and> ht l - ht r \<le> 1")
    case True
    then have "avl (plug (Nd l a h r) (g # c))" using c 1 by (simp only: avl_plug ht.simps)
    then show ?thesis using True by (simp add: t Let_def)
  next
    case False
    from Cons.IH [OF _ _ c] 2 [OF False] show ?thesis using False by (auto simp: t Let_def)
  qed
qed

end
