(* ===== verification/Avl_Tree_Ops.thy ===== *)
theory Avl_Tree_Ops
  imports Avl_Tree Bucket
begin

text \<open>
  Search, insertion and removal on AVL trees as values, for a comparator that satisfies the
  interface \<open>comparator\<close>: the order of the keys, the labels of the tree and its balance.
\<close>

section \<open>Comparators\<close>

text \<open>What a tree needs of its comparator: the sign of the result is a linear order.\<close>

locale comparator =
  fixes cmp :: "'k \<Rightarrow> 'k \<Rightarrow> int"
  assumes cmp_eq: "cmp a b = 0 \<longleftrightarrow> a = b"
    and cmp_flip: "0 < cmp a b \<longleftrightarrow> cmp b a < 0"
    and cmp_trans: "cmp a b < 0 \<Longrightarrow> cmp b c < 0 \<Longrightarrow> cmp a c < 0"

definition ascending :: "('k \<Rightarrow> 'k \<Rightarrow> int) \<Rightarrow> 'k list \<Rightarrow> bool" where
  "ascending cmp ks \<longleftrightarrow> sorted_wrt (\<lambda>a b. cmp a b < 0) ks"

lemma ascending_simps [simp]:
  "ascending cmp []"
  "ascending cmp (x # xs) \<longleftrightarrow> (\<forall>y \<in> set xs. cmp x y < 0) \<and> ascending cmp xs"
  "ascending cmp (xs @ ys) \<longleftrightarrow> ascending cmp xs \<and> ascending cmp ys \<and> (\<forall>x \<in> set xs. \<forall>y \<in> set ys. cmp x y < 0)"
  by (auto simp: ascending_def sorted_wrt_append)

section \<open>Operations\<close>

text \<open>The place of a key: its node, or the empty place where it belongs. \<open>kf\<close> is the key of a label.\<close>

fun descend :: "('k \<Rightarrow> 'k \<Rightarrow> int) \<Rightarrow> ('n \<Rightarrow> 'k) \<Rightarrow> 'k \<Rightarrow> 'n atree \<Rightarrow> 'n frame list \<Rightarrow> 'n atree \<times> 'n frame list" where
  "descend cmp kf k Tip c = (Tip, c)"
| "descend cmp kf k (Nd l a h r) c =
     (if cmp (kf a) k > 0 then descend cmp kf k l (InLeft a h r # c)
      else if cmp (kf a) k < 0 then descend cmp kf k r (InRight l a h # c)
      else (Nd l a h r, c))"

definition t_find :: "('k \<Rightarrow> 'k \<Rightarrow> int) \<Rightarrow> ('n \<Rightarrow> 'k) \<Rightarrow> 'k \<Rightarrow> 'n atree \<Rightarrow> 'n option" where
  "t_find cmp kf k t = (case fst (descend cmp kf k t []) of Tip \<Rightarrow> None | Nd l a h r \<Rightarrow> Some a)"

text \<open>A subtree put in a hole; the repair starts at the node above.\<close>

definition attach :: "'n atree \<Rightarrow> 'n frame list \<Rightarrow> 'n atree" where
  "attach t c = (case c of [] \<Rightarrow> t | f # c' \<Rightarrow> insert_fix (plug1 t f) c')"

definition detach :: "'n atree \<Rightarrow> 'n frame list \<Rightarrow> 'n atree" where
  "detach t c = (case c of [] \<Rightarrow> t | f # c' \<Rightarrow> erase_fix (plug1 t f) c')"

text \<open>
  \<open>PushWithDuplicate\<close> and \<open>InsertWithDuplicate\<close>: a tree of one node gets its second node without
  an update of the height above.
\<close>

definition t_push :: "('k \<Rightarrow> 'k \<Rightarrow> int) \<Rightarrow> ('n \<Rightarrow> 'k) \<Rightarrow> 'n \<Rightarrow> int \<Rightarrow> 'n atree \<Rightarrow> (bool \<times> 'n) \<times> 'n atree" where
  "t_push cmp kf n hn t =
     (case t of
        Tip \<Rightarrow> ((True, n), Nd Tip n hn Tip)
      | Nd l a h r \<Rightarrow>
          if l = Tip \<and> r = Tip then
            (if cmp (kf n) (kf a) > 0 then ((True, n), Nd Tip a h (Nd Tip n hn Tip))
             else if cmp (kf n) (kf a) < 0 then ((True, n), Nd (Nd Tip n hn Tip) a h Tip)
             else ((False, a), t))
          else
            (case descend cmp kf (kf n) t [] of
               (Nd l' b h' r', c) \<Rightarrow> ((False, b), t)
             | (Tip, c) \<Rightarrow> ((True, n), attach (Nd Tip n hn Tip) c)))"

fun leftmost :: "'n atree \<Rightarrow> 'n frame list \<Rightarrow> 'n atree \<times> 'n frame list" where
  "leftmost (Nd (Nd l' b hb r') a h r) c = leftmost (Nd l' b hb r') (InLeft a h r # c)"
| "leftmost t c = (t, c)"

text \<open>Removing the node with the given children and height from its context.\<close>

definition t_erase :: "'n atree \<Rightarrow> int \<Rightarrow> 'n atree \<Rightarrow> 'n frame list \<Rightarrow> 'n atree" where
  "t_erase l h r c =
     (if l = Tip then detach r c
      else if r = Tip then detach l c
      else (case leftmost r [] of
              (Nd zl z hz zr, []) \<Rightarrow> erase_fix (Nd l z h zr) c
            | (Nd zl z hz zr, sp) \<Rightarrow> detach zr (sp @ InRight l z h # c)
            | (Tip, _) \<Rightarrow> Tip))"

definition t_extract :: "('k \<Rightarrow> 'k \<Rightarrow> int) \<Rightarrow> ('n \<Rightarrow> 'k) \<Rightarrow> 'k \<Rightarrow> 'n atree \<Rightarrow> ('n \<times> 'n atree) option" where
  "t_extract cmp kf k t =
     (case descend cmp kf k t [] of
        (Tip, c) \<Rightarrow> None
      | (Nd l a h r, c) \<Rightarrow> Some (a, t_erase l h r c))"

section \<open>Labels\<close>

lemma descend_plug: "descend cmp kf k t c = (t', c') \<Longrightarrow> plug t' c' = plug t c"
  by (induction cmp kf k t c rule: descend.induct) (auto split: if_splits)

lemma inord_attach: "inord (attach t c) = before_hole c @ inord t @ after_hole c"
  by (auto simp: attach_def inord_insert_fix inord_plug [symmetric] split: list.splits)

lemma inord_detach: "inord (detach t c) = before_hole c @ inord t @ after_hole c"
  by (auto simp: detach_def inord_erase_fix inord_plug [symmetric] split: list.splits)

lemma leftmost_plug:
  "leftmost t c = (t', c') \<Longrightarrow> plug t' c' = plug t c
    \<and> (t \<noteq> Tip \<longrightarrow> (\<exists>z hz zr. t' = Nd Tip z hz zr)) \<and> before_hole c' = before_hole c"
  by (induction t c rule: leftmost.induct) auto

lemma hole_append: "before_hole (c @ d) = before_hole d @ before_hole c" "after_hole (c @ d) = after_hole c @ after_hole d"
proof (induction c)
  case (Cons f c)
  {
    case 1
    then show ?case using Cons by (cases f) simp_all
  next
    case 2
    then show ?case using Cons by (cases f) simp_all
  }
qed simp_all

lemma inord_t_erase: "inord (t_erase l h r c) = before_hole c @ inord l @ inord r @ after_hole c"
proof (cases "l = Tip \<or> r = Tip")
  case True
  then show ?thesis by (auto simp: t_erase_def inord_detach)
next
  case False
  obtain t' sp where e: "leftmost r [] = (t', sp)" by fastforce
  from leftmost_plug [OF e] False obtain z hz zr where
    t': "t' = Nd Tip z hz zr" and p: "plug t' sp = r" and b: "before_hole sp = []" by auto
  from arg_cong [OF p, of inord] b t' have r: "inord r = z # inord zr @ after_hole sp"
    by (simp add: inord_plug)
  show ?thesis
  proof (cases sp)
    case Nil
    then show ?thesis using False e t' r
      by (simp add: t_erase_def inord_erase_fix inord_plug del: erase_fix.simps)
  next
    case (Cons f sp')
    have "inord (detach zr (sp @ InRight l z h # c)) = before_hole c @ inord l @ inord r @ after_hole c"
      using b r by (simp add: inord_detach hole_append)
    then show ?thesis using False e t' Cons by (simp add: t_erase_def)
  qed
qed

section \<open>Balance\<close>

text \<open>
  Balanced, up to the height that the second insertion into an empty tree does not update.
\<close>

definition avl_state :: "'n atree \<Rightarrow> bool" where
  "avl_state t \<longleftrightarrow> avl t \<or> (\<exists>a b. t = Nd Tip a 1 (Nd Tip b 1 Tip) \<or> t = Nd (Nd Tip b 1 Tip) a 1 Tip)"

lemma attach_avl: "avl t \<Longrightarrow> ht t \<in> {H, H + 1} \<Longrightarrow> ctx_ok H c \<Longrightarrow> avl (attach t c)"
  by (cases c) (auto simp: attach_def intro: insert_fix_avl)

lemma detach_avl: "avl t \<Longrightarrow> ht t \<in> {H - 1, H} \<Longrightarrow> ctx_ok H c \<Longrightarrow> avl (detach t c)"
  by (cases c) (auto simp: detach_def intro: erase_fix_avl)

lemma avl_leaf: "avl (Nd Tip n 1 Tip) \<and> ht (Nd Tip n 1 Tip) = 1"
  by simp

lemma stale_attach:
  assumes "t = Nd Tip a 1 (Nd Tip b 1 Tip) \<or> t = Nd (Nd Tip b 1 Tip) a 1 Tip" and "plug Tip c = t"
  shows "avl (attach (Nd Tip n 1 Tip) c)"
proof -
  have c: "c \<noteq> []" using assms by auto
  have "before_hole c @ after_hole c = inord t" using arg_cong [OF assms(2), of inord] by (simp add: inord_plug)
  from assms(2) c obtain f c' where f: "c = f # c'" by (cases c) auto
  have 1: "plug u c' = t \<Longrightarrow> u \<noteq> Tip \<Longrightarrow> (c' = [] \<and> u = t)
      \<or> (u = Nd Tip b 1 Tip \<and> (c' = [InRight Tip a 1] \<or> c' = [InLeft a 1 Tip]))" for u
  proof (induction c' arbitrary: u)
    case (Cons g c')
    from Cons.IH [of "plug1 u g"] Cons.prems show ?case using assms(1)
      by (cases g) auto
  qed simp
  from 1 [of "plug1 Tip f"] assms f show ?thesis
    by (cases f) (auto simp: attach_def new_ht_def fixup_def mk_def Let_def)
qed

lemma t_push_avl:
  assumes "avl_state t"
  shows "avl_state (snd (t_push cmp kf n 1 t))"
proof (cases t)
  case Tip
  then show ?thesis by (simp add: t_push_def avl_state_def)
next
  case (Nd l a h r)
  show ?thesis
  proof (cases "l = Tip \<and> r = Tip")
    case True
    then show ?thesis using assms Nd by (auto simp: t_push_def avl_state_def)
  next
    case False
    obtain t' c where d: "descend cmp kf (kf n) t [] = (t', c)" by fastforce
    note p = descend_plug [OF d]
    show ?thesis
    proof (cases t')
      case Tip
      have "avl (attach (Nd Tip n 1 Tip) c)"
      proof (cases "avl t")
        case True
        then have "ctx_ok 0 c" using p Tip avl_plug [of Tip c] by simp
        then show ?thesis using avl_leaf by (intro attach_avl [where H = 0]) auto
      next
        case False
        then show ?thesis using assms p Tip stale_attach [of t _ _ c n] by (auto simp: avl_state_def)
      qed
      then show ?thesis using False Nd d Tip by (auto simp: t_push_def avl_state_def)
    next
      case (Nd l' b h' r')
      then show ?thesis using assms False \<open>t = Nd l a h r\<close> d by (auto simp: t_push_def)
    qed
  qed
qed

lemma t_erase_avl_exact:
  assumes "avl (plug (Nd l a h r) c)"
  shows "avl (t_erase l h r c)"
proof -
  from assms have lr: "avl l" "avl r" "\<bar>ht l - ht r\<bar> \<le> 1" "h = max (ht l) (ht r) + 1" and c: "ctx_ok h c"
    unfolding avl_plug avl.simps ht.simps by blast+
  show ?thesis
  proof (cases "l = Tip \<or> r = Tip")
    case True
    have "avl (detach r c)" if "l = Tip"
      using lr c avl_ht_nonneg [of r] that by (intro detach_avl [where H = h]) auto
    moreover have "avl (detach l c)" if "r = Tip"
      using lr c avl_ht_nonneg [of l] that by (intro detach_avl [where H = h]) auto
    ultimately show ?thesis using True by (auto simp: t_erase_def)
  next
    case False
    obtain t' sp where e: "leftmost r [] = (t', sp)" by fastforce
    from leftmost_plug [OF e] False obtain z hz zr where
      t': "t' = Nd Tip z hz zr" and p: "plug t' sp = r" by auto
    have "avl (plug t' (sp @ InRight l z h # c))"
      using lr c p by (simp add: avl_plug)
    then have z: "avl zr" "hz = ht zr + 1" "ctx_ok hz (sp @ InRight l z h # c)"
      unfolding avl_plug t' using avl_ht_nonneg [of zr] by auto
    show ?thesis
    proof (cases sp)
      case Nil
      have "avl (erase_fix (plug1 zr (InRight l z h)) c)"
        using z Nil by (intro erase_fix_avl [where H = hz]) auto
      then show ?thesis using False e t' Nil by (simp add: t_erase_def del: erase_fix.simps)
    next
      case (Cons f sp')
      have "avl (detach zr (sp @ InRight l z h # c))"
        using z by (intro detach_avl [where H = hz]) auto
      then show ?thesis using False e t' Cons by (simp add: t_erase_def)
    qed
  qed
qed

lemma t_erase_avl:
  assumes "avl_state (plug (Nd l a h r) c)"
  shows "avl (t_erase l h r c)"
proof (cases "avl (plug (Nd l a h r) c)")
  case True
  then show ?thesis by (rule t_erase_avl_exact)
next
  case False
  then obtain x y where x: "plug (Nd l a h r) c = Nd Tip x 1 (Nd Tip y 1 Tip) \<or> plug (Nd l a h r) c = Nd (Nd Tip y 1 Tip) x 1 Tip"
    using assms by (auto simp: avl_state_def)
  have 1: "plug u c = t \<Longrightarrow> u \<noteq> Tip \<Longrightarrow> t = Nd Tip x 1 (Nd Tip y 1 Tip) \<or> t = Nd (Nd Tip y 1 Tip) x 1 Tip \<Longrightarrow>
      (c = [] \<and> u = t) \<or> (u = Nd Tip y 1 Tip \<and> (c = [InRight Tip x 1] \<or> c = [InLeft x 1 Tip]))" for u t
  proof (induction c arbitrary: u)
    case (Cons g c)
    from Cons.IH [of "plug1 u g"] Cons.prems show ?case
      by (cases g) auto
  qed simp
  from 1 [OF refl _ x] x show ?thesis
    by (auto simp: t_erase_def detach_def new_ht_def fixup_def Let_def)
qed

section \<open>Keys\<close>

context comparator
begin

lemma cmp_neq: "cmp a b < 0 \<Longrightarrow> a \<noteq> b" "cmp a b < 0 \<Longrightarrow> b \<noteq> a"
  using cmp_eq [of a b] by auto

lemma cmp_not_flip: "cmp a b < 0 \<Longrightarrow> \<not> cmp b a < 0"
  using cmp_flip [of b a] by auto

text \<open>All keys before the place of \<open>k\<close> are smaller, all keys after it greater.\<close>

lemma descend_bounds:
  "descend cmp kf k t c = (t', c') \<Longrightarrow> ascending cmp (map kf (inord t)) \<Longrightarrow>
    \<forall>x \<in> set (before_hole c). cmp (kf x) k < 0 \<Longrightarrow> \<forall>x \<in> set (after_hole c). cmp k (kf x) < 0 \<Longrightarrow>
    (\<forall>x \<in> set (before_hole c'). cmp (kf x) k < 0) \<and> (\<forall>x \<in> set (after_hole c'). cmp k (kf x) < 0)
    \<and> (case t' of Tip \<Rightarrow> True | Nd l a h r \<Rightarrow> kf a = k
        \<and> (\<forall>x \<in> set (inord l). cmp (kf x) k < 0) \<and> (\<forall>x \<in> set (inord r). cmp k (kf x) < 0))"
proof (induction t arbitrary: c)
  case (Nd l a h r)
  consider "cmp (kf a) k > 0" | "cmp (kf a) k < 0" | "kf a = k" using cmp_eq [of "kf a" k] by linarith
  then show ?case
  proof cases
    case 1
    then have a: "cmp k (kf a) < 0" using cmp_flip by blast
    then have "\<forall>x \<in> set (after_hole (InLeft a h r # c)). cmp k (kf x) < 0"
      using Nd.prems(2,4) cmp_trans by auto
    then show ?thesis using Nd.IH(1) [of "InLeft a h r # c"] Nd.prems 1 by simp
  next
    case 2
    then have "\<forall>x \<in> set (before_hole (InRight l a h # c)). cmp (kf x) k < 0"
      using Nd.prems(2,3) cmp_trans by auto
    then show ?thesis using Nd.IH(2) [of "InRight l a h # c"] Nd.prems 2 by simp
  next
    case 3
    then show ?thesis using Nd.prems cmp_eq [of k k] by auto
  qed
qed simp

lemma t_find_None:
  assumes "ascending cmp (map kf (inord t))"
  shows "t_find cmp kf k t = None \<longleftrightarrow> k \<notin> kf ` set (inord t)"
proof -
  obtain t' c where d: "descend cmp kf k t [] = (t', c)" by fastforce
  from descend_bounds [OF d assms] have b: "\<forall>x \<in> set (before_hole c). cmp (kf x) k < 0"
    "\<forall>x \<in> set (after_hole c). cmp k (kf x) < 0" "case t' of Tip \<Rightarrow> True | Nd l a h r \<Rightarrow> kf a = k" 
    by (auto split: atree.splits)
  have i: "set (inord t) = set (before_hole c) \<union> set (inord t') \<union> set (after_hole c)"
    using arg_cong [OF descend_plug [OF d], of inord] by (simp add: inord_plug) (metis Un_assoc set_append)
  show ?thesis
  proof (cases t')
    case Tip
    then show ?thesis using d b i cmp_neq by (fastforce simp: t_find_def)
  next
    case (Nd l a h r)
    then show ?thesis using d b i by (auto simp: t_find_def)
  qed
qed

lemma t_find_Some:
  assumes "ascending cmp (map kf (inord t))" and "t_find cmp kf k t = Some a"
  shows "a \<in> set (inord t) \<and> kf a = k"
proof -
  obtain t' c where d: "descend cmp kf k t [] = (t', c)" by fastforce
  from assms(2) d obtain l h r where t': "t' = Nd l a h r" by (auto simp: t_find_def split: atree.splits)
  from descend_bounds [OF d assms(1)] t' have "kf a = k" by simp
  moreover have "a \<in> set (inord t)"
    using arg_cong [OF descend_plug [OF d], of inord] t' by (auto simp: inord_plug) (metis in_set_conv_decomp Un_iff set_append)
  ultimately show ?thesis by simp
qed

text \<open>Insertion puts a new label where its key belongs and reports the label of a known key.\<close>

lemma t_push_dup:
  assumes "ascending cmp (map kf (inord t))" and "kf n \<in> kf ` set (inord t)"
  shows "\<exists>a. t_push cmp kf n hn t = ((False, a), t) \<and> t_find cmp kf (kf n) t = Some a"
proof -
  from assms t_find_None [of kf t "kf n"] obtain a where a: "t_find cmp kf (kf n) t = Some a" by auto
  show ?thesis
  proof (cases t)
    case Tip
    then show ?thesis using a by (simp add: t_find_def)
  next
    case (Nd l b h r)
    show ?thesis
    proof (cases "l = Tip \<and> r = Tip")
      case True
      then have "kf b = kf n" using assms(2) Nd by simp
      then show ?thesis using True Nd cmp_eq [of "kf n" "kf n"] by (simp add: t_push_def t_find_def)
    next
      case False
      obtain t' c where d: "descend cmp kf (kf n) t [] = (t', c)" by fastforce
      with a obtain l' h' r' where "t' = Nd l' a h' r'" by (auto simp: t_find_def split: atree.splits)
      then show ?thesis using a False d unfolding Nd by (auto simp: t_push_def simp del: descend.simps)
    qed
  qed
qed

lemma t_push_new:
  assumes asc: "ascending cmp (map kf (inord t))" and new: "kf n \<notin> kf ` set (inord t)"
  shows "fst (t_push cmp kf n hn t) = (True, n)"
    and "\<exists>xs ys. inord t = xs @ ys \<and> inord (snd (t_push cmp kf n hn t)) = xs @ n # ys"
    and "ascending cmp (map kf (inord (snd (t_push cmp kf n hn t))))"
proof -
  have "fst (t_push cmp kf n hn t) = (True, n)
      \<and> (\<exists>xs ys. inord t = xs @ ys \<and> inord (snd (t_push cmp kf n hn t)) = xs @ n # ys
        \<and> (\<forall>x \<in> set xs. cmp (kf x) (kf n) < 0) \<and> (\<forall>y \<in> set ys. cmp (kf n) (kf y) < 0))"
  proof (cases t)
    case Tip
    then show ?thesis by (simp add: t_push_def)
  next
    case (Nd l a h r)
    show ?thesis
    proof (cases "l = Tip \<and> r = Tip")
      case True
      then have "kf n \<noteq> kf a" using new Nd by simp
      then have "cmp (kf n) (kf a) \<noteq> 0" by (simp add: cmp_eq)
      then consider "cmp (kf n) (kf a) > 0" | "cmp (kf n) (kf a) < 0" by linarith
      then show ?thesis
      proof cases
        case 1
        then have "cmp (kf a) (kf n) < 0" using cmp_flip by blast
        then have "inord t = [a] @ [] \<and> inord (snd (t_push cmp kf n hn t)) = [a] @ n # []
            \<and> (\<forall>x \<in> set [a]. cmp (kf x) (kf n) < 0) \<and> (\<forall>y \<in> set []. cmp (kf n) (kf y) < 0)"
          using 1 True Nd by (simp add: t_push_def)
        moreover have "fst (t_push cmp kf n hn t) = (True, n)" using 1 True Nd by (simp add: t_push_def)
        ultimately show ?thesis by blast
      next
        case 2
        then have "inord t = [] @ [a] \<and> inord (snd (t_push cmp kf n hn t)) = [] @ n # [a]
            \<and> (\<forall>x \<in> set []. cmp (kf x) (kf n) < 0) \<and> (\<forall>y \<in> set [a]. cmp (kf n) (kf y) < 0)"
          using True Nd by (simp add: t_push_def)
        moreover have "fst (t_push cmp kf n hn t) = (True, n)" using 2 True Nd by (simp add: t_push_def)
        ultimately show ?thesis by blast
      qed
    next
      case False
      obtain t' c where d: "descend cmp kf (kf n) t [] = (t', c)" by fastforce
      have "t_find cmp kf (kf n) t = None" using t_find_None [OF asc] new by blast
      then have t': "t' = Tip" using d by (cases t') (auto simp: t_find_def)
      from descend_bounds [OF d asc] arg_cong [OF descend_plug [OF d], of inord] t'
      have "inord t = before_hole c @ after_hole c" "\<forall>x \<in> set (before_hole c). cmp (kf x) (kf n) < 0"
        "\<forall>y \<in> set (after_hole c). cmp (kf n) (kf y) < 0" by (simp_all add: inord_plug)
      moreover have "t_push cmp kf n hn t = ((True, n), attach (Nd Tip n hn Tip) c)"
        using False Nd d t' by (auto simp: t_push_def)
      ultimately show ?thesis by (auto simp: inord_attach)
    qed
  qed
  then obtain xs ys where 1: "fst (t_push cmp kf n hn t) = (True, n)" "inord t = xs @ ys"
    "inord (snd (t_push cmp kf n hn t)) = xs @ n # ys"
    "\<forall>x \<in> set xs. cmp (kf x) (kf n) < 0" "\<forall>y \<in> set ys. cmp (kf n) (kf y) < 0" by blast
  show "fst (t_push cmp kf n hn t) = (True, n)" by (rule 1(1))
  show "\<exists>xs ys. inord t = xs @ ys \<and> inord (snd (t_push cmp kf n hn t)) = xs @ n # ys" using 1(2,3) by blast
  show "ascending cmp (map kf (inord (snd (t_push cmp kf n hn t))))"
    using asc 1 by auto
qed

lemma t_extract_None:
  assumes "ascending cmp (map kf (inord t))"
  shows "t_extract cmp kf k t = None \<longleftrightarrow> k \<notin> kf ` set (inord t)"
  unfolding t_find_None [OF assms, symmetric]
  by (auto simp: t_extract_def t_find_def split: atree.splits prod.splits)

lemma t_extract_Some:
  assumes asc: "ascending cmp (map kf (inord t))" and e: "t_extract cmp kf k t = Some (a, t')"
  shows "kf a = k \<and> (\<exists>xs ys. inord t = xs @ a # ys \<and> inord t' = xs @ ys) \<and> ascending cmp (map kf (inord t'))"
proof -
  obtain u c where d: "descend cmp kf k t [] = (u, c)" by fastforce
  from e d obtain l h r where u: "u = Nd l a h r" "t' = t_erase l h r c"
    by (auto simp: t_extract_def split: atree.splits)
  have i: "inord t = (before_hole c @ inord l) @ a # (inord r @ after_hole c)"
    using arg_cong [OF descend_plug [OF d], of inord] u by (simp add: inord_plug)
  have j: "inord t' = (before_hole c @ inord l) @ (inord r @ after_hole c)"
    using u by (simp add: inord_t_erase)
  from descend_bounds [OF d asc] u have k: "kf a = k" by simp
  have "ascending cmp (map kf (inord t'))" using asc unfolding i j by auto
  with i j k show ?thesis by blast
qed

end

text \<open>A tree in key order is a bucket of entries with different keys.\<close>

lemma bucket_of_tree:
  assumes "comparator cmp"
  shows "key_bucket inord (\<lambda>t. ascending cmp (map gk (inord t))) gk (t_find cmp gk)
    (\<lambda>v t. snd (t_push cmp gk v hn t)) (t_extract cmp gk)"
proof -
  note c = comparator.t_find_None [OF assms] comparator.t_find_Some [OF assms]
    comparator.t_push_new [OF assms] comparator.t_extract_None [OF assms] comparator.t_extract_Some [OF assms]
  show ?thesis
  proof (unfold_locales, goal_cases)
    case (1 b k)
    then show ?case by (rule c(1))
  next
    case (2 b k v)
    then show ?case by (rule c(2))
  next
    case (3 b v)
    then show ?case by (rule c(5))
  next
    case (4 b v)
    from c(4) [OF 4, of hn] show ?case by auto
  next
    case (5 b k)
    then show ?case by (rule c(6))
  next
    case (6 b k v b')
    from c(7) [OF 6] show ?case by auto
  qed
qed

end
