(* ===== verification/Avl_Refine.thy ===== *)
theory Avl_Refine
  imports Avl_Node Avl_Tree_Ops
begin

text \<open>
  The routines of \<open>Avl_Node\<close> on a heap that holds a tree do what the operations of \<open>Avl_Tree\<close>
  do on the tree as a value. Labels are the addresses of the nodes. \<open>place\<close> says that a pointer
  is the root of a subtree with the frames of a context above it, reached by parent pointers.
\<close>

section \<open>Trees in the heap\<close>

fun tree_at :: "'v AvlNode heap \<Rightarrow> ptr \<Rightarrow> ptr \<Rightarrow> ptr atree \<Rightarrow> bool" where
  "tree_at h par p Tip \<longleftrightarrow> p = nullptr"
| "tree_at h par p (Nd l a hh r) \<longleftrightarrow> p = a \<and> a \<noteq> nullptr \<and>
     (\<exists>n. h a = Some n \<and> parent n = par \<and> height n = hh \<and> tree_at h a (left n) l \<and> tree_at h a (right n) r)"

fun ctx_at :: "'v AvlNode heap \<Rightarrow> ptr \<Rightarrow> ptr \<Rightarrow> ptr \<Rightarrow> ptr frame list \<Rightarrow> bool" where
  "ctx_at h rt par p [] \<longleftrightarrow> par = nullptr \<and> rt = p"
| "ctx_at h rt par p (InLeft a hh r # c) \<longleftrightarrow> par = a \<and> a \<noteq> nullptr \<and>
     (\<exists>n. h a = Some n \<and> height n = hh \<and> left n = p \<and> tree_at h a (right n) r \<and> ctx_at h rt (parent n) a c)"
| "ctx_at h rt par p (InRight l a hh # c) \<longleftrightarrow> par = a \<and> a \<noteq> nullptr \<and>
     (\<exists>n. h a = Some n \<and> height n = hh \<and> right n = p \<and> tree_at h a (left n) l \<and> ctx_at h rt (parent n) a c)"

definition ctx_addrs :: "ptr frame list \<Rightarrow> ptr set" where
  "ctx_addrs c = set (before_hole c) \<union> set (after_hole c)"

lemma ctx_addrs_simps [simp]:
  "ctx_addrs [] = {}"
  "ctx_addrs (InLeft a h r # c) = insert a (set (inord r) \<union> ctx_addrs c)"
  "ctx_addrs (InRight l a h # c) = insert a (set (inord l) \<union> ctx_addrs c)"
  by (auto simp: ctx_addrs_def)

lemma tree_at_upd [simp]: "a \<notin> set (inord t) \<Longrightarrow> tree_at (h(a \<mapsto> n)) par p t = tree_at h par p t"
  by (induction t arbitrary: par p) auto

lemma tree_at_cong: "(\<And>a. a \<in> set (inord t) \<Longrightarrow> h' a = h a) \<Longrightarrow> tree_at h' par p t = tree_at h par p t"
  by (induction t arbitrary: par p) auto

lemma tree_at_frame: "tree_at h par p t \<Longrightarrow> (\<And>a. a \<in> set (inord t) \<Longrightarrow> h' a = h a) \<Longrightarrow> tree_at h' par p t"
  using tree_at_cong [of t h' h par p] by blast

lemma ctx_at_upd [simp]: "a \<notin> ctx_addrs c \<Longrightarrow> ctx_at (h(a \<mapsto> n)) rt par p c = ctx_at h rt par p c"
proof (induction c arbitrary: par p)
  case (Cons f c)
  then show ?case by (cases f) (auto simp del: fun_upd_apply simp: fun_upd_other)
qed simp

lemma ctx_at_cong: "(\<And>a. a \<in> ctx_addrs c \<Longrightarrow> h' a = h a) \<Longrightarrow> ctx_at h' rt par p c = ctx_at h rt par p c"
proof (induction c arbitrary: par p)
  case (Cons f c)
  have "\<And>t par p. (\<And>a. a \<in> set (inord t) \<Longrightarrow> h' a = h a) \<Longrightarrow> tree_at h' par p t = tree_at h par p t"
    by (rule tree_at_cong)
  then show ?case using Cons by (cases f) auto
qed simp

lemma tree_at_root: "tree_at h par p t \<Longrightarrow> p \<noteq> nullptr \<Longrightarrow> p \<in> set (inord t)"
  by (cases t) auto

lemma tree_at_nonnull: "tree_at h par p t \<Longrightarrow> a \<in> set (inord t) \<Longrightarrow> a \<noteq> nullptr \<and> (\<exists>n. h a = Some n)"
  by (induction t arbitrary: par p) auto

lemma tree_at_null [simp]: "tree_at h par nullptr t \<longleftrightarrow> t = Tip"
  by (cases t) auto

text \<open>Giving the root of a subtree another parent.\<close>

lemma tree_at_reparent:
  "tree_at h par p t \<Longrightarrow> p \<noteq> nullptr \<Longrightarrow> distinct (inord t) \<Longrightarrow> h p = Some n \<Longrightarrow>
     tree_at (h(p \<mapsto> n\<lparr>parent := par'\<rparr>)) par' p t"
  by (cases t) auto

definition distinct_at :: "ptr atree \<Rightarrow> ptr frame list \<Rightarrow> bool" where
  "distinct_at t c \<longleftrightarrow> distinct (inord (plug t c))"

lemma distinct_at_step [simp]: "distinct_at t (f # c) = distinct_at (plug1 t f) c"
  by (simp add: distinct_at_def)

lemma distinct_at_cong: "inord t = inord t' \<Longrightarrow> distinct_at t c = distinct_at t' c"
  by (simp add: distinct_at_def inord_plug)

lemma distinct_atD:
  assumes "distinct_at t c"
  shows "distinct (inord t)" and "distinct (before_hole c @ after_hole c)" and "set (inord t) \<inter> ctx_addrs c = {}"
  using assms by (auto simp: distinct_at_def inord_plug ctx_addrs_def)

definition place :: "'v avl \<Rightarrow> ptr \<Rightarrow> ptr \<Rightarrow> ptr atree \<Rightarrow> ptr frame list \<Rightarrow> bool" where
  "place s par p t c \<longleftrightarrow> tree_at (nodes s) par p t \<and> ctx_at (nodes s) (root s) par p c \<and> distinct_at t c"

text \<open>What an operation on a tree leaves alone: other cells, all values, the count.\<close>

definition touches :: "ptr set \<Rightarrow> 'v avl \<Rightarrow> 'v avl \<Rightarrow> bool" where
  "touches A s s' \<longleftrightarrow> (\<forall>a. a \<notin> A \<longrightarrow> nodes s' a = nodes s a)
     \<and> (\<forall>a. map_option node_value (nodes s' a) = map_option node_value (nodes s a)) \<and> tree_count s' = tree_count s"

lemma touches_refl [simp]: "touches A s s"
  by (simp add: touches_def)

lemma touches_trans: "touches A s s' \<Longrightarrow> touches A s' s'' \<Longrightarrow> touches A s s''"
  by (simp add: touches_def)

lemma touches_mono: "touches A s s' \<Longrightarrow> A \<subseteq> B \<Longrightarrow> touches B s s'"
  by (auto simp: touches_def)

definition addrs :: "ptr atree \<Rightarrow> ptr frame list \<Rightarrow> ptr set" where
  "addrs t c = set (inord t) \<union> ctx_addrs c"

lemma addrs_plug1: "addrs (plug1 t f) c = addrs t (f # c)"
  by (cases f) (auto simp: addrs_def)

lemma addrs_plug: "set (inord (plug t c)) = addrs t c"
  by (auto simp: addrs_def ctx_addrs_def inord_plug)

section \<open>Reads and writes\<close>

lemma node_at_some: "p \<noteq> nullptr \<Longrightarrow> node_at s p = nodes s p"
  by (simp add: node_at_def deref_def)

lemma node_at_null [simp]: "node_at s nullptr = None"
  by (simp add: node_at_def)

lemma upd_some: "p \<noteq> nullptr \<Longrightarrow> nodes s p = Some n \<Longrightarrow> upd s p f = Some (s\<lparr>nodes := (nodes s)(p \<mapsto> f n)\<rparr>)"
  by (simp add: upd_def heap_simps)

lemma upd_touches: "upd s p f = Some s' \<Longrightarrow> (\<And>n. node_value (f n) = node_value n) \<Longrightarrow> p \<in> A \<Longrightarrow> touches A s s'"
  by (auto simp: upd_def store_def deref_def touches_def split: option.splits if_splits)

lemma child_height_at: "tree_at (nodes s) par p t \<Longrightarrow> child_height s p = Some (ht t)"
  by (cases t) (auto simp: child_height_def node_at_some)

lemma heights_at:
  assumes "tree_at (nodes s) par a (Nd l a h r)"
  shows "LEFT_HEIGHT s a = Some (ht l)" and "RIGHT_HEIGHT s a = Some (ht r)"
  using assms by (auto simp: LEFT_HEIGHT_def RIGHT_HEIGHT_def node_at_some child_height_at)

section \<open>Moving the place\<close>

lemma place_node: "place s par p (Nd l a h r) c \<Longrightarrow> p = a \<and> a \<noteq> nullptr \<and> (\<exists>n. node_at s a = Some n \<and> nodes s a = Some n
    \<and> parent n = par \<and> height n = h \<and> place s a (left n) l (InLeft a h r # c) \<and> place s a (right n) r (InRight l a h # c))"
  by (auto simp: place_def node_at_some)

lemma place_up:
  assumes "place s par p t (f # c)"
  shows "\<exists>n. node_at s par = Some n \<and> par \<noteq> nullptr \<and> place s (parent n) par (plug1 t f) c"
proof (cases f)
  case (InLeft a h r)
  then show ?thesis using assms by (auto simp: place_def node_at_some)
next
  case (InRight l a h)
  then show ?thesis using assms by (auto simp: place_def node_at_some)
qed

lemma place_root: "place s par p t [] \<Longrightarrow> par = nullptr \<and> p = root s"
  by (simp add: place_def)

text \<open>A tree and its representation from the root.\<close>

definition rooted :: "'v avl \<Rightarrow> ptr atree \<Rightarrow> bool" where
  "rooted s t \<longleftrightarrow> place s nullptr (root s) t []"

lemma place_rooted: "place s par p t c \<Longrightarrow> rooted s (plug t c)"
proof (induction c arbitrary: par p t)
  case Nil
  then show ?case by (auto simp: rooted_def dest: place_root)
next
  case (Cons f c)
  from place_up [OF Cons.prems] Cons.IH show ?case by auto
qed

section \<open>Heights and rotations\<close>

lemma set_height:
  assumes "place s par a (Nd l a h r) c"
  shows "\<exists>s'. upd s a (\<lambda>n. n\<lparr>height := h'\<rparr>) = Some s' \<and> place s' par a (Nd l a h' r) c \<and> touches (addrs (Nd l a h r) c) s s'"
proof -
  from assms obtain n where n: "a \<noteq> nullptr" "nodes s a = Some n" by (auto simp: place_def)
  let ?s = "s\<lparr>nodes := (nodes s)(a \<mapsto> n\<lparr>height := h'\<rparr>)\<rparr>"
  have u: "upd s a (\<lambda>n. n\<lparr>height := h'\<rparr>) = Some ?s" using n by (simp add: upd_some)
  moreover have "place ?s par a (Nd l a h' r) c"
    using assms n distinct_atD [of "Nd l a h r" c] distinct_at_cong [of "Nd l a h r" "Nd l a h' r" c]
    by (auto simp: place_def simp del: fun_upd_apply simp: fun_upd_same)
  moreover have "touches (addrs (Nd l a h r) c) s ?s"
    by (rule upd_touches [OF u]) (simp_all add: addrs_def)
  ultimately show ?thesis by blast
qed

lemma UpdateHeight_at:
  assumes "place s par a (Nd l a h r) c"
  shows "\<exists>s'. UpdateHeight s a = Some s' \<and> place s' par a (mk l a r) c \<and> touches (addrs (Nd l a h r) c) s s'"
proof -
  from assms have "tree_at (nodes s) par a (Nd l a h r)" by (simp add: place_def)
  from heights_at [OF this] set_height [OF assms, of "new_ht l r"] show ?thesis
    by (simp add: UpdateHeight_def new_ht_def mk_def)
qed

lemma ChildPlace_at:
  assumes c: "ctx_at (nodes s) (root s) par old c" and old: "old \<noteq> nullptr" "old \<notin> ctx_addrs c"
    and d: "distinct (before_hole c @ after_hole c)"
  shows "\<exists>s'. ChildPlace s old new par = Some s' \<and> ctx_at (nodes s') (root s') par new c
    \<and> (\<forall>a. a \<notin> ctx_addrs c \<longrightarrow> nodes s' a = nodes s a)
    \<and> (\<forall>a. map_option node_value (nodes s' a) = map_option node_value (nodes s a)) \<and> tree_count s' = tree_count s"
proof (cases c)
  case Nil
  then show ?thesis using c old by (simp add: ChildPlace_def)
next
  case (Cons f c')
  show ?thesis
  proof (cases f)
    case (InLeft a h r)
    then show ?thesis using c old d Cons
      by (auto simp: ChildPlace_def node_at_some upd_some ctx_addrs_def)
  next
    case (InRight l a h)
    from c Cons InRight obtain n where n: "a \<noteq> nullptr" "nodes s a = Some n" "tree_at (nodes s) a (left n) l" "par = a" by auto
    have "old \<noteq> left n" using tree_at_root [OF n(3)] old Cons InRight by auto
    then show ?thesis using c old d Cons InRight n
      by (auto simp: ChildPlace_def node_at_some upd_some ctx_addrs_def)
  qed
qed

text \<open>Linking two nodes and the subtree between them anew, before the parent is told.\<close>

lemma reparent_at:
  assumes "tree_at (nodes s) y p B" and "distinct (inord B)"
  shows "\<exists>hb. (if p \<noteq> nullptr then upd s p (\<lambda>n. n\<lparr>parent := x\<rparr>) else Some s) = Some (s\<lparr>nodes := hb\<rparr>)
    \<and> tree_at hb x p B \<and> (\<forall>a. a \<notin> set (inord B) \<longrightarrow> hb a = nodes s a)
    \<and> (\<forall>a. map_option node_value (hb a) = map_option node_value (nodes s a))"
proof (cases "p = nullptr")
  case True
  then show ?thesis using assms(1) by (intro exI [of _ "nodes s"]) simp
next
  case False
  from tree_at_nonnull [OF assms(1) tree_at_root [OF assms(1) False]] obtain b where b: "nodes s p = Some b" by blast
  show ?thesis
    using False b tree_at_reparent [OF assms(1) False assms(2) b, of x] tree_at_root [OF assms(1) False]
    by (intro exI [of _ "(nodes s)(p \<mapsto> b\<lparr>parent := x\<rparr>)"]) (auto simp: upd_some)
qed

text \<open>
  A subtree rebuilt in place, from its own cells, takes the place of the old one as soon as the
  parent points to its root.
\<close>

lemma replace_cells:
  assumes c: "ctx_at (nodes s) (root s) par old c" and dc: "distinct (before_hole c @ after_hole c)" and A: "A \<inter> ctx_addrs c = {}"
    and old: "old \<noteq> nullptr" "old \<in> A" and other: "\<And>a. a \<notin> A \<Longrightarrow> nodes s5 a = nodes s a"
    and val: "\<And>a. map_option node_value (nodes s5 a) = map_option node_value (nodes s a)"
    and same: "root s5 = root s" "tree_count s5 = tree_count s"
    and t': "tree_at (nodes s5) par new t'" "set (inord t') \<subseteq> A" "distinct (inord t')"
  shows "\<exists>s'. ChildPlace s5 old new par = Some s' \<and> place s' par new t' c \<and> touches (A \<union> ctx_addrs c) s s'"
proof -
  have "ctx_at (nodes s5) (root s5) par old c"
    unfolding same
  proof (subst ctx_at_cong [of c "nodes s5" "nodes s"])
    fix a assume "a \<in> ctx_addrs c"
    then show "nodes s5 a = nodes s a" using A by (intro other) auto
  qed (rule c)
  from ChildPlace_at [OF this old(1) _ dc, of new] A old(2) obtain s' where s':
    "ChildPlace s5 old new par = Some s'" "ctx_at (nodes s') (root s') par new c"
    "\<And>a. a \<notin> ctx_addrs c \<Longrightarrow> nodes s' a = nodes s5 a"
    "\<And>a. map_option node_value (nodes s' a) = map_option node_value (nodes s5 a)" "tree_count s' = tree_count s5"
    by (metis disjoint_iff)
  have "tree_at (nodes s') par new t'"
    by (rule tree_at_frame [OF t'(1)], rule s'(3)) (use t'(2) A in auto)
  moreover have "distinct_at t' c"
    using dc t'(2,3) A by (auto simp: distinct_at_def inord_plug ctx_addrs_def)
  moreover have "touches (A \<union> ctx_addrs c) s s'"
    using s'(3-5) other val same by (auto simp: touches_def)
  ultimately show ?thesis using s'(1,2) by (auto simp: place_def)
qed

lemma replace_subtree:
  assumes "ctx_at (nodes s) (root s) par old c" and d: "distinct_at t c" and "old \<noteq> nullptr" "old \<in> set (inord t)"
    and "\<And>a. a \<notin> set (inord t) \<Longrightarrow> nodes s5 a = nodes s a"
    and "\<And>a. map_option node_value (nodes s5 a) = map_option node_value (nodes s a)"
    and "root s5 = root s" "tree_count s5 = tree_count s"
    and "tree_at (nodes s5) par new t'" "set (inord t') \<subseteq> set (inord t)" "distinct (inord t')"
  shows "\<exists>s'. ChildPlace s5 old new par = Some s' \<and> place s' par new t' c \<and> touches (addrs t c) s s'"
  unfolding addrs_def by (rule replace_cells) (use assms distinct_atD [OF d] in auto)

lemma RotateLeft_at:
  assumes pl: "place s par x (Nd A x hx (Nd B y hy C)) c"
  shows "\<exists>s'. RotateLeft s x = Some (s', y) \<and> place s' par y (Nd (Nd A x hx B) y hy C) c
    \<and> touches (addrs (Nd A x hx (Nd B y hy C)) c) s s'"
proof -
  let ?t = "Nd A x hx (Nd B y hy C)"
  from pl obtain n r where n: "x \<noteq> nullptr" "nodes s x = Some n" "parent n = par" "height n = hx" "tree_at (nodes s) x (left n) A"
    "right n = y" and r: "y \<noteq> nullptr" "nodes s y = Some r" "parent r = x" "height r = hy" "tree_at (nodes s) y (left r) B"
    "tree_at (nodes s) y (right r) C" and c: "ctx_at (nodes s) (root s) par x c" and d: "distinct_at ?t c"
    by (auto simp: place_def)
  from distinct_atD(1) [OF d] have D: "x \<noteq> y" "x \<notin> set (inord A)" "x \<notin> set (inord B)" "x \<notin> set (inord C)"
    "y \<notin> set (inord A)" "y \<notin> set (inord B)" "y \<notin> set (inord C)" "distinct (inord B)"
    "set (inord A) \<inter> set (inord B) = {}" "set (inord B) \<inter> set (inord C) = {}" by auto
  let ?s1 = "s\<lparr>nodes := (nodes s)(x \<mapsto> n\<lparr>right := left r\<rparr>)\<rparr>"
  have "tree_at (nodes ?s1) y (left r) B" using r(5) D(3) by simp
  from reparent_at [OF this D(8), of x] obtain hb where hb:
    "(if left r \<noteq> nullptr then upd ?s1 (left r) (\<lambda>n. n\<lparr>parent := x\<rparr>) else Some ?s1) = Some (s\<lparr>nodes := hb\<rparr>)"
    "tree_at hb x (left r) B" "\<And>a. a \<notin> set (inord B) \<Longrightarrow> hb a = ((nodes s)(x \<mapsto> n\<lparr>right := left r\<rparr>)) a"
    "\<And>a. map_option node_value (hb a) = map_option node_value (((nodes s)(x \<mapsto> n\<lparr>right := left r\<rparr>)) a)" by auto
  have hx: "hb x = Some (n\<lparr>right := left r\<rparr>)" and hy: "hb y = Some r" using hb(3) D r(2) by simp_all
  let ?h = "hb(x \<mapsto> n\<lparr>right := left r, parent := y\<rparr>, y \<mapsto> r\<lparr>left := x, parent := par\<rparr>)"
  let ?s5 = "s\<lparr>nodes := ?h\<rparr>"
  have eq: "RotateLeft s x = (do { s \<leftarrow> ChildPlace ?s5 x y par; Some (s, y) })"
    using n r hb(1) hx hy D(1)
    by (simp add: RotateLeft_def node_at_some upd_some Let_def fun_upd_twist [of x y] del: fun_upd_apply)
      (simp add: fun_upd_other upd_some fun_upd_twist [of x y] fun_upd_same)
  have ho: "?h a = nodes s a" if "a \<notin> set (inord B)" "a \<noteq> x" "a \<noteq> y" for a using hb(3) that by simp
  have "tree_at ?h x (left n) A" by (rule tree_at_frame [OF n(5)], rule ho) (use D in auto)
  moreover have "tree_at ?h y (right r) C" by (rule tree_at_frame [OF r(6)], rule ho) (use D in auto)
  moreover have "tree_at ?h x (left r) B" by (rule tree_at_frame [OF hb(2)]) (use D in auto)
  ultimately have "tree_at (nodes ?s5) par y (Nd (Nd A x hx B) y hy C)" using n r D by simp
  moreover have "map_option node_value (nodes ?s5 a) = map_option node_value (nodes s a)" for a
    using hb(4) n(2) r(2) hy by simp
  ultimately have "\<exists>s'. ChildPlace ?s5 x y par = Some s' \<and> place s' par y (Nd (Nd A x hx B) y hy C) c \<and> touches (addrs ?t c) s s'"
    by (intro replace_subtree [OF c d n(1)]) (use ho distinct_atD(1) [OF d] in auto)
  then show ?thesis using eq by auto
qed

lemma RotateRight_at:
  assumes pl: "place s par x (Nd (Nd C y hy B) x hx A) c"
  shows "\<exists>s'. RotateRight s x = Some (s', y) \<and> place s' par y (Nd C y hy (Nd B x hx A)) c
    \<and> touches (addrs (Nd (Nd C y hy B) x hx A) c) s s'"
proof -
  let ?t = "Nd (Nd C y hy B) x hx A"
  from pl obtain n r where n: "x \<noteq> nullptr" "nodes s x = Some n" "parent n = par" "height n = hx" "tree_at (nodes s) x (right n) A"
    "left n = y" and r: "y \<noteq> nullptr" "nodes s y = Some r" "parent r = x" "height r = hy" "tree_at (nodes s) y (right r) B"
    "tree_at (nodes s) y (left r) C" and c: "ctx_at (nodes s) (root s) par x c" and d: "distinct_at ?t c"
    by (auto simp: place_def)
  from distinct_atD(1) [OF d] have D: "x \<noteq> y" "x \<notin> set (inord A)" "x \<notin> set (inord B)" "x \<notin> set (inord C)"
    "y \<notin> set (inord A)" "y \<notin> set (inord B)" "y \<notin> set (inord C)" "distinct (inord B)"
    "set (inord A) \<inter> set (inord B) = {}" "set (inord B) \<inter> set (inord C) = {}" by auto
  let ?s1 = "s\<lparr>nodes := (nodes s)(x \<mapsto> n\<lparr>left := right r\<rparr>)\<rparr>"
  have "tree_at (nodes ?s1) y (right r) B" using r(5) D(3) by simp
  from reparent_at [OF this D(8), of x] obtain hb where hb:
    "(if right r \<noteq> nullptr then upd ?s1 (right r) (\<lambda>n. n\<lparr>parent := x\<rparr>) else Some ?s1) = Some (s\<lparr>nodes := hb\<rparr>)"
    "tree_at hb x (right r) B" "\<And>a. a \<notin> set (inord B) \<Longrightarrow> hb a = ((nodes s)(x \<mapsto> n\<lparr>left := right r\<rparr>)) a"
    "\<And>a. map_option node_value (hb a) = map_option node_value (((nodes s)(x \<mapsto> n\<lparr>left := right r\<rparr>)) a)" by auto
  have hx: "hb x = Some (n\<lparr>left := right r\<rparr>)" and hy: "hb y = Some r" using hb(3) D r(2) by simp_all
  let ?h = "hb(x \<mapsto> n\<lparr>left := right r, parent := y\<rparr>, y \<mapsto> r\<lparr>right := x, parent := par\<rparr>)"
  let ?s5 = "s\<lparr>nodes := ?h\<rparr>"
  have eq: "RotateRight s x = (do { s \<leftarrow> ChildPlace ?s5 x y par; Some (s, y) })"
    using n r hb(1) hx hy D(1)
    by (simp add: RotateRight_def node_at_some upd_some Let_def fun_upd_twist [of x y] del: fun_upd_apply)
      (simp add: fun_upd_other upd_some fun_upd_twist [of x y] fun_upd_same)
  have ho: "?h a = nodes s a" if "a \<notin> set (inord B)" "a \<noteq> x" "a \<noteq> y" for a using hb(3) that by simp
  have "tree_at ?h x (right n) A" by (rule tree_at_frame [OF n(5)], rule ho) (use D in auto)
  moreover have "tree_at ?h y (left r) C" by (rule tree_at_frame [OF r(6)], rule ho) (use D in auto)
  moreover have "tree_at ?h x (right r) B" by (rule tree_at_frame [OF hb(2)]) (use D in auto)
  ultimately have "tree_at (nodes ?s5) par y (Nd C y hy (Nd B x hx A))" using n r D by simp
  moreover have "map_option node_value (nodes ?s5 a) = map_option node_value (nodes s a)" for a
    using hb(4) n(2) r(2) hy by simp
  ultimately have "\<exists>s'. ChildPlace ?s5 x y par = Some s' \<and> place s' par y (Nd C y hy (Nd B x hx A)) c \<and> touches (addrs ?t c) s s'"
    by (intro replace_subtree [OF c d n(1)]) (use ho distinct_atD(1) [OF d] in auto)
  then show ?thesis using eq by auto
qed

section \<open>Repair\<close>

fun ctx_par :: "ptr frame list \<Rightarrow> ptr" where
  "ctx_par [] = nullptr"
| "ctx_par (InLeft a h r # c) = a"
| "ctx_par (InRight l a h # c) = a"

lemma place_par: "place s par p t c \<Longrightarrow> par = ctx_par c"
  by (cases c rule: ctx_par.cases) (auto simp: place_def)

lemma place_up_par: "place s par p t (f # c) \<Longrightarrow> place s (ctx_par c) par (plug1 t f) c"
  by (metis place_up place_par)

text \<open>\<open>_UpdateHeight\<close> of a child, seen from its parent.\<close>

lemma UpdateHeight_right:
  assumes "place s par x (Nd A x hx (Nd l a h r)) c"
  shows "\<exists>n s'. node_at s x = Some n \<and> right n = a \<and> UpdateHeight s a = Some s' \<and> place s' par x (Nd A x hx (mk l a r)) c
    \<and> touches (addrs (Nd A x hx (Nd l a h r)) c) s s'"
proof -
  from place_node [OF assms] obtain n where n: "node_at s x = Some n" "place s x (right n) (Nd l a h r) (InRight A x hx # c)" by auto
  then have a: "right n = a" using place_node by blast
  from UpdateHeight_at [OF n(2) [unfolded a]] obtain s' where
    s': "UpdateHeight s a = Some s'" "place s' x a (mk l a r) (InRight A x hx # c)"
      "touches (addrs (Nd l a h r) (InRight A x hx # c)) s s'" by blast
  from place_up_par [OF s'(2)] place_par [OF assms] have "place s' par x (Nd A x hx (mk l a r)) c" by simp
  then show ?thesis using n a s' by (auto simp: addrs_plug1 [symmetric])
qed

lemma UpdateHeight_left:
  assumes "place s par x (Nd (Nd l a h r) x hx A) c"
  shows "\<exists>n s'. node_at s x = Some n \<and> left n = a \<and> UpdateHeight s a = Some s' \<and> place s' par x (Nd (mk l a r) x hx A) c
    \<and> touches (addrs (Nd (Nd l a h r) x hx A) c) s s'"
proof -
  from place_node [OF assms] obtain n where n: "node_at s x = Some n" "place s x (left n) (Nd l a h r) (InLeft x hx A # c)" by auto
  then have a: "left n = a" using place_node by blast
  from UpdateHeight_at [OF n(2) [unfolded a]] obtain s' where
    s': "UpdateHeight s a = Some s'" "place s' x a (mk l a r) (InLeft x hx A # c)"
      "touches (addrs (Nd l a h r) (InLeft x hx A # c)) s s'" by blast
  from place_up_par [OF s'(2)] place_par [OF assms] have "place s' par x (Nd (mk l a r) x hx A) c" by simp
  then show ?thesis using n a s' by (auto simp: addrs_plug1 [symmetric])
qed

text \<open>The last part of both repairs: rotate, then the heights of the lower and the upper node.\<close>

lemma rotate_right_heights:
  assumes "place s par z (Nd (Nd A x hx B) z hz C) c"
  shows "\<exists>s'. (do { (s, node) \<leftarrow> RotateRight s z; n \<leftarrow> node_at s node; s \<leftarrow> UpdateHeight s (right n); s \<leftarrow> UpdateHeight s node;
      Some (s, node) }) = Some (s', x) \<and> place s' par x (mk A x (mk B z C)) c \<and> touches (addrs (Nd (Nd A x hx B) z hz C) c) s s'"
proof -
  let ?X = "addrs (Nd (Nd A x hx B) z hz C) c"
  from RotateRight_at [OF assms] obtain s1 where s1: "RotateRight s z = Some (s1, x)"
    "place s1 par x (Nd A x hx (Nd B z hz C)) c" "touches ?X s s1" by blast
  from UpdateHeight_right [OF s1(2)] obtain n s2 where s2: "node_at s1 x = Some n" "right n = z" "UpdateHeight s1 z = Some s2"
    "place s2 par x (Nd A x hx (mk B z C)) c" "touches (addrs (Nd A x hx (Nd B z hz C)) c) s1 s2" by blast
  from UpdateHeight_at [OF s2(4)] obtain s3 where s3: "UpdateHeight s2 x = Some s3" "place s3 par x (mk A x (mk B z C)) c"
    "touches (addrs (Nd A x hx (mk B z C)) c) s2 s3" by blast
  have "touches ?X s1 s2" "touches ?X s2 s3"
    using s2(5) s3(3) by (auto elim!: touches_mono simp: addrs_def)
  with s1(3) have "touches ?X s s3" by (metis touches_trans)
  then show ?thesis using s1 s2 s3 by auto
qed

lemma rotate_left_heights:
  assumes "place s par z (Nd C z hz (Nd B x hx A)) c"
  shows "\<exists>s'. (do { (s, node) \<leftarrow> RotateLeft s z; n \<leftarrow> node_at s node; s \<leftarrow> UpdateHeight s (left n); s \<leftarrow> UpdateHeight s node;
      Some (s, node) }) = Some (s', x) \<and> place s' par x (mk (mk C z B) x A) c \<and> touches (addrs (Nd C z hz (Nd B x hx A)) c) s s'"
proof -
  let ?X = "addrs (Nd C z hz (Nd B x hx A)) c"
  from RotateLeft_at [OF assms] obtain s1 where s1: "RotateLeft s z = Some (s1, x)"
    "place s1 par x (Nd (Nd C z hz B) x hx A) c" "touches ?X s s1" by blast
  from UpdateHeight_left [OF s1(2)] obtain n s2 where s2: "node_at s1 x = Some n" "left n = z" "UpdateHeight s1 z = Some s2"
    "place s2 par x (Nd (mk C z B) x hx A) c" "touches (addrs (Nd (Nd C z hz B) x hx A) c) s1 s2" by blast
  from UpdateHeight_at [OF s2(4)] obtain s3 where s3: "UpdateHeight s2 x = Some s3" "place s3 par x (mk (mk C z B) x A) c"
    "touches (addrs (Nd (mk C z B) x hx A) c) s2 s3" by blast
  have "touches ?X s1 s2" "touches ?X s2 s3"
    using s2(5) s3(3) by (auto elim!: touches_mono simp: addrs_def)
  with s1(3) have "touches ?X s s3" by (metis touches_trans)
  then show ?thesis using s1 s2 s3 by auto
qed

lemma FixupLeftHeavy_at:
  assumes pl: "place s par z (Nd (Nd A x hx B) z hz C) c" and B: "ht A < ht B \<Longrightarrow> B \<noteq> Tip"
  shows "\<exists>s' q. FixupLeftHeavy s z = Some (s', q) \<and> place s' par q (fix_left_heavy (Nd (Nd A x hx B) z hz C)) c
    \<and> touches (addrs (Nd (Nd A x hx B) z hz C) c) s s'"
proof -
  let ?X = "addrs (Nd (Nd A x hx B) z hz C) c"
  from place_node [OF pl] obtain n where n: "node_at s z = Some n" "place s z (left n) (Nd A x hx B) (InLeft z hz C # c)" by auto
  then have l: "left n = x" using place_node by blast
  then have tx: "tree_at (nodes s) z x (Nd A x hx B)" using n(2) by (simp add: place_def)
  note hts = heights_at [OF tx]
  show ?thesis
  proof (cases "ht A < ht B")
    case False
    with rotate_right_heights [OF pl] n l hts show ?thesis by (auto simp: FixupLeftHeavy_def Let_def mk_def)
  next
    case True
    then obtain B1 y hy B2 where BB: "B = Nd B1 y hy B2" using B by (cases B) auto
    from RotateLeft_at [OF n(2) [unfolded BB l]] obtain s1 where s1: "RotateLeft s x = Some (s1, y)"
      "place s1 z y (Nd (Nd A x hx B1) y hy B2) (InLeft z hz C # c)"
      "touches (addrs (Nd A x hx (Nd B1 y hy B2)) (InLeft z hz C # c)) s s1" by blast
    from UpdateHeight_left [OF s1(2)] obtain m s2 where s2: "node_at s1 y = Some m" "left m = x" "UpdateHeight s1 x = Some s2"
      "place s2 z y (Nd (mk A x B1) y hy B2) (InLeft z hz C # c)"
      "touches (addrs (Nd (Nd A x hx B1) y hy B2) (InLeft z hz C # c)) s1 s2" by blast
    from UpdateHeight_at [OF s2(4)] obtain s3 where s3: "UpdateHeight s2 y = Some s3"
      "place s3 z y (mk (mk A x B1) y B2) (InLeft z hz C # c)" "touches (addrs (Nd (mk A x B1) y hy B2) (InLeft z hz C # c)) s2 s3"
      by blast
    from place_up_par [OF s3(2)] place_par [OF pl] have "place s3 par z (Nd (mk (mk A x B1) y B2) z hz C) c" by simp
    from rotate_right_heights [OF this [unfolded mk_def [of "mk A x B1"]]] obtain s4 where
      s4: "(do { (s, node) \<leftarrow> RotateRight s3 z; n \<leftarrow> node_at s node; s \<leftarrow> UpdateHeight s (right n); s \<leftarrow> UpdateHeight s node;
        Some (s, node) }) = Some (s4, y)" "place s4 par y (mk (mk A x B1) y (mk B2 z C)) c"
      "touches (addrs (Nd (Nd (mk A x B1) y (new_ht (mk A x B1) B2) B2) z hz C) c) s3 s4" by blast
    have "touches ?X s s1" "touches ?X s1 s2" "touches ?X s2 s3" "touches ?X s3 s4"
      using s1(3) s2(5) s3(3) s4(3) unfolding BB by (auto elim!: touches_mono simp: addrs_def)
    then have "touches ?X s s4" by (metis touches_trans)
    moreover have "FixupLeftHeavy s z = Some (s4, y)"
      unfolding FixupLeftHeavy_def Let_def using n(1) l hts True s1(1) s2(1-3) s3(1) s4(1) by simp
    ultimately show ?thesis using s4(2) True BB by auto
  qed
qed

lemma FixupRightHeavy_at:
  assumes pl: "place s par z (Nd C z hz (Nd B x hx A)) c" and B: "ht B > ht A \<Longrightarrow> B \<noteq> Tip"
  shows "\<exists>s' q. FixupRightHeavy s z = Some (s', q) \<and> place s' par q (fix_right_heavy (Nd C z hz (Nd B x hx A))) c
    \<and> touches (addrs (Nd C z hz (Nd B x hx A)) c) s s'"
proof -
  let ?X = "addrs (Nd C z hz (Nd B x hx A)) c"
  from place_node [OF pl] obtain n where n: "node_at s z = Some n" "place s z (right n) (Nd B x hx A) (InRight C z hz # c)" by auto
  then have l: "right n = x" using place_node by blast
  then have tx: "tree_at (nodes s) z x (Nd B x hx A)" using n(2) by (simp add: place_def)
  note hts = heights_at [OF tx]
  show ?thesis
  proof (cases "ht B > ht A")
    case False
    with rotate_left_heights [OF pl] n l hts show ?thesis by (auto simp: FixupRightHeavy_def Let_def mk_def)
  next
    case True
    then obtain B2 y hy B1 where BB: "B = Nd B2 y hy B1" using B by (cases B) auto
    from RotateRight_at [OF n(2) [unfolded BB l]] obtain s1 where s1: "RotateRight s x = Some (s1, y)"
      "place s1 z y (Nd B2 y hy (Nd B1 x hx A)) (InRight C z hz # c)"
      "touches (addrs (Nd (Nd B2 y hy B1) x hx A) (InRight C z hz # c)) s s1" by blast
    from UpdateHeight_right [OF s1(2)] obtain m s2 where s2: "node_at s1 y = Some m" "right m = x" "UpdateHeight s1 x = Some s2"
      "place s2 z y (Nd B2 y hy (mk B1 x A)) (InRight C z hz # c)"
      "touches (addrs (Nd B2 y hy (Nd B1 x hx A)) (InRight C z hz # c)) s1 s2" by blast
    from UpdateHeight_at [OF s2(4)] obtain s3 where s3: "UpdateHeight s2 y = Some s3"
      "place s3 z y (mk B2 y (mk B1 x A)) (InRight C z hz # c)" "touches (addrs (Nd B2 y hy (mk B1 x A)) (InRight C z hz # c)) s2 s3"
      by blast
    from place_up_par [OF s3(2)] place_par [OF pl] have "place s3 par z (Nd C z hz (mk B2 y (mk B1 x A))) c" by simp
    from rotate_left_heights [OF this [unfolded mk_def [of B2]]] obtain s4 where
      s4: "(do { (s, node) \<leftarrow> RotateLeft s3 z; n \<leftarrow> node_at s node; s \<leftarrow> UpdateHeight s (left n); s \<leftarrow> UpdateHeight s node;
        Some (s, node) }) = Some (s4, y)" "place s4 par y (mk (mk C z B2) y (mk B1 x A)) c"
      "touches (addrs (Nd C z hz (Nd B2 y (new_ht B2 (mk B1 x A)) (mk B1 x A))) c) s3 s4" by blast
    have "touches ?X s s1" "touches ?X s1 s2" "touches ?X s2 s3" "touches ?X s3 s4"
      using s1(3) s2(5) s3(3) s4(3) unfolding BB by (auto elim!: touches_mono simp: addrs_def)
    then have "touches ?X s s4" by (metis touches_trans)
    moreover have "FixupRightHeavy s z = Some (s4, y)"
      unfolding FixupRightHeavy_def Let_def using n(1) l hts True s1(1) s2(1-3) s3(1) s4(1) by simp
    ultimately show ?thesis using s4(2) True BB by auto
  qed
qed

section \<open>The repair loops\<close>

text \<open>Stored heights that are not negative are all the repair needs to be defined.\<close>

fun nn :: "'n atree \<Rightarrow> bool" where
  "nn Tip \<longleftrightarrow> True"
| "nn (Nd l a h r) \<longleftrightarrow> nn l \<and> nn r \<and> 0 \<le> h"

fun nn_frame :: "'n frame \<Rightarrow> bool" where
  "nn_frame (InLeft a h r) \<longleftrightarrow> 0 \<le> h \<and> nn r"
| "nn_frame (InRight l a h) \<longleftrightarrow> 0 \<le> h \<and> nn l"

lemma nn_plug1 [simp]: "nn (plug1 t f) \<longleftrightarrow> nn t \<and> nn_frame f"
  by (cases f) auto

lemma nn_plug [simp]: "nn (plug t c) \<longleftrightarrow> nn t \<and> (\<forall>f \<in> set c. nn_frame f)"
  by (induction c arbitrary: t) auto

lemma nn_ht: "nn t \<Longrightarrow> 0 \<le> ht t"
  by (cases t) auto

lemma nn_mk [simp]: "nn (mk l a r) \<longleftrightarrow> nn l \<and> nn r"
  using nn_ht [of l] nn_ht [of r] by (auto simp: mk_def new_ht_def)

lemma avl_nn: "avl t \<Longrightarrow> nn t"
proof (induction t)
  case (Nd l a h r)
  then show ?case using avl_ht_nonneg [of l] avl_ht_nonneg [of r] by (auto simp: max_def)
qed simp

lemma avl_state_nn: "avl_state t \<Longrightarrow> nn t"
  by (auto simp: avl_state_def avl_nn)

lemma nn_fixup: "nn t \<Longrightarrow> nn (fixup bf t)"
  unfolding fixup_def
  by (cases t rule: fix_left_heavy.cases; cases t rule: fix_right_heavy.cases) (auto split: atree.splits)

lemma fixup_not_Tip [simp]: "fixup bf (Nd l a h r) \<noteq> Tip"
  by (metis inord_fixup inord.simps list.distinct(1) append_is_Nil_conv)

lemma place_shape: "place s par p t c \<Longrightarrow> t \<noteq> Tip \<Longrightarrow> \<exists>l h r. t = Nd l p h r"
  by (cases t) (auto simp: place_def)

lemma Fixup_at:
  assumes pl: "place s par a (Nd l a h r) c" and nn: "nn (Nd l a h r)"
  shows "\<exists>s' q. Fixup s (ht l - ht r) a = Some (s', q) \<and> place s' par q (fixup (ht l - ht r) (Nd l a h r)) c
    \<and> touches (addrs (Nd l a h r) c) s s'"
proof -
  consider "ht l - ht r \<ge> 2" | "ht l - ht r \<le> - 2" | "\<not> ht l - ht r \<ge> 2" "\<not> ht l - ht r \<le> - 2" by linarith
  then show ?thesis
  proof cases
    case 1
    then obtain A x hx B where l: "l = Nd A x hx B" using nn nn_ht [of r] by (cases l) auto
    have "ht A < ht B \<Longrightarrow> B \<noteq> Tip" using nn l nn_ht [of A] by auto
    from FixupLeftHeavy_at [OF pl [unfolded l] this] show ?thesis using 1 l by (auto simp: Fixup_def fixup_def)
  next
    case 2
    then obtain A x hx B where r: "r = Nd A x hx B" using nn nn_ht [of l] by (cases r) auto
    have "ht A > ht B \<Longrightarrow> A \<noteq> Tip" using nn r nn_ht [of B] by auto
    from FixupRightHeavy_at [OF pl [unfolded r] this] show ?thesis using 2 r by (auto simp: Fixup_def fixup_def)
  next
    case 3
    then show ?thesis using pl by (auto simp: Fixup_def fixup_def)
  qed
qed

lemma addrs_cong: "set (inord t) = set (inord t') \<Longrightarrow> addrs t c = addrs t' c"
  by (simp add: addrs_def)

text \<open>One round of both loops: the height is stored, the node repaired, and the parent comes next.\<close>

lemma repair_round:
  assumes pl: "place s par a (Nd l a h r) c" and nn: "nn (Nd l a h r)"
  shows "\<exists>n s1 s2 q m. node_at s a = Some n \<and> height n = h \<and> LEFT_HEIGHT s a = Some (ht l) \<and> RIGHT_HEIGHT s a = Some (ht r)
    \<and> upd s a (\<lambda>n. n\<lparr>height := new_ht l r\<rparr>) = Some s1 \<and> Fixup s1 (ht l - ht r) a = Some (s2, q)
    \<and> place s2 par q (fixup (ht l - ht r) (Nd l a (new_ht l r) r)) c \<and> node_at s2 q = Some m \<and> parent m = par
    \<and> touches (addrs (Nd l a h r) c) s s2"
proof -
  let ?t = "Nd l a (new_ht l r) r"
  from set_height [OF pl, of "new_ht l r"] obtain s1 where
    s1: "upd s a (\<lambda>n. n\<lparr>height := new_ht l r\<rparr>) = Some s1" "place s1 par a ?t c" "touches (addrs (Nd l a h r) c) s s1" by blast
  have "nn (mk l a r)" using nn by simp
  then have "nn ?t" by (simp add: mk_def)
  from Fixup_at [OF s1(2) this] obtain s2 q where
    s2: "Fixup s1 (ht l - ht r) a = Some (s2, q)" "place s2 par q (fixup (ht l - ht r) ?t) c" "touches (addrs ?t c) s1 s2" by blast
  have "touches (addrs (Nd l a h r) c) s s2"
    using s1(3) s2(3) by (metis touches_trans addrs_cong inord.simps(2))
  moreover from place_shape [OF s2(2)] obtain l' h' r' where t': "fixup (ht l - ht r) ?t = Nd l' q h' r'" by auto
  from place_node [OF s2(2) [unfolded t']] obtain m where "node_at s2 q = Some m" "parent m = par" by blast
  moreover from place_node [OF pl] obtain n where "node_at s a = Some n" "height n = h" by blast
  moreover have "tree_at (nodes s) par a (Nd l a h r)" using pl by (simp add: place_def)
  ultimately show ?thesis using s1(1) s2(1,2) heights_at [of s par a l h r] by blast
qed

lemma upd_same_height:
  assumes "node_at s p = Some n" and "height n = h"
  shows "upd s p (\<lambda>n. n\<lparr>height := h\<rparr>) = Some s"
proof -
  have "n\<lparr>height := h\<rparr> = n" using assms(2) by (cases n) simp
  moreover have "p \<noteq> nullptr \<and> nodes s p = Some n" using assms(1) by (cases "p = nullptr") (auto simp: node_at_some)
  ultimately show ?thesis by (simp add: upd_some fun_upd_idem)
qed

lemma InsertFixup_null [simp]: "InsertFixup s nullptr = Some s"
  by (simp add: InsertFixup.simps)

lemma EraseFixup_null [simp]: "EraseFixup s nullptr = Some s"
  by (simp add: EraseFixup.simps)

lemma InsertFixup_at:
  "place s par p t c \<Longrightarrow> t \<noteq> Tip \<Longrightarrow> nn (plug t c) \<Longrightarrow>
    \<exists>s'. InsertFixup s p = Some s' \<and> rooted s' (insert_fix t c) \<and> touches (addrs t c) s s'"
proof (induction c arbitrary: s par p t)
  case Nil
  from place_shape [OF Nil.prems(1,2)] obtain l h r where t: "t = Nd l p h r" by blast
  then have p: "p \<noteq> nullptr" using Nil.prems(1) by (simp add: place_def)
  from repair_round [OF Nil.prems(1) [unfolded t]] Nil.prems(3) t obtain n s1 s2 q m where
    R: "node_at s p = Some n" "height n = h" "LEFT_HEIGHT s p = Some (ht l)" "RIGHT_HEIGHT s p = Some (ht r)"
    "upd s p (\<lambda>n. n\<lparr>height := new_ht l r\<rparr>) = Some s1" "Fixup s1 (ht l - ht r) p = Some (s2, q)"
    "place s2 par q (fixup (ht l - ht r) (Nd l p (new_ht l r) r)) []" "node_at s2 q = Some m" "parent m = par"
    "touches (addrs t []) s s2" by auto
  have par: "par = nullptr" using place_par [OF Nil.prems(1)] by simp
  show ?case
  proof (cases "h = new_ht l r")
    case True
    then show ?thesis using R p t place_rooted [OF Nil.prems(1)]
      by (subst InsertFixup.simps) (simp add: Let_def new_ht_def)
  next
    case False
    then show ?thesis using R p t par place_rooted [OF R(7)]
      by (subst InsertFixup.simps) (simp add: Let_def new_ht_def)
  qed
next
  case (Cons f c)
  from place_shape [OF Cons.prems(1,2)] obtain l h r where t: "t = Nd l p h r" by blast
  then have p: "p \<noteq> nullptr" using Cons.prems(1) by (simp add: place_def)
  from repair_round [OF Cons.prems(1) [unfolded t]] Cons.prems(3) t obtain n s1 s2 q m where
    R: "node_at s p = Some n" "height n = h" "LEFT_HEIGHT s p = Some (ht l)" "RIGHT_HEIGHT s p = Some (ht r)"
    "upd s p (\<lambda>n. n\<lparr>height := new_ht l r\<rparr>) = Some s1" "Fixup s1 (ht l - ht r) p = Some (s2, q)"
    "place s2 par q (fixup (ht l - ht r) (Nd l p (new_ht l r) r)) (f # c)" "node_at s2 q = Some m" "parent m = par"
    "touches (addrs t (f # c)) s s2" by auto
  let ?t = "fixup (ht l - ht r) (Nd l p (new_ht l r) r)"
  show ?case
  proof (cases "h = new_ht l r")
    case True
    then show ?thesis using R p t place_rooted [OF Cons.prems(1)]
      by (subst InsertFixup.simps) (simp add: Let_def new_ht_def)
  next
    case False
    have "nn (mk l p r)" using Cons.prems(3) t by simp
    then have "nn ?t" unfolding mk_def by (rule nn_fixup)
    then have "nn (plug (plug1 ?t f) c)" using Cons.prems(3) by simp
    from Cons.IH [OF place_up_par [OF R(7)] _ this] obtain s' where
      s': "InsertFixup s2 par = Some s'" "rooted s' (insert_fix (plug1 ?t f) c)" "touches (addrs (plug1 ?t f) c) s2 s'" by auto
    have "addrs (plug1 ?t f) c = addrs t (f # c)"
      unfolding addrs_plug1 by (rule addrs_cong) (simp add: t)
    then have "touches (addrs t (f # c)) s s'" using R(10) s'(3) by (metis touches_trans)
    then show ?thesis using False R p t s'(1,2)
      by (subst InsertFixup.simps) (simp add: Let_def new_ht_def)
  qed
qed

lemma EraseFixup_at:
  "place s par p t c \<Longrightarrow> t \<noteq> Tip \<Longrightarrow> nn (plug t c) \<Longrightarrow>
    \<exists>s'. EraseFixup s p = Some s' \<and> rooted s' (erase_fix t c) \<and> touches (addrs t c) s s'"
proof (induction c arbitrary: s par p t)
  case Nil
  from place_shape [OF Nil.prems(1,2)] obtain l h r where t: "t = Nd l p h r" by blast
  then have p: "p \<noteq> nullptr" using Nil.prems(1) by (simp add: place_def)
  from repair_round [OF Nil.prems(1) [unfolded t]] Nil.prems(3) t obtain n s1 s2 q m where
    R: "node_at s p = Some n" "height n = h" "LEFT_HEIGHT s p = Some (ht l)" "RIGHT_HEIGHT s p = Some (ht r)"
    "upd s p (\<lambda>n. n\<lparr>height := new_ht l r\<rparr>) = Some s1" "Fixup s1 (ht l - ht r) p = Some (s2, q)"
    "place s2 par q (fixup (ht l - ht r) (Nd l p (new_ht l r) r)) []" "node_at s2 q = Some m" "parent m = par"
    "touches (addrs t []) s s2" by auto
  have upd: "(if h \<noteq> new_ht l r then upd s p (\<lambda>n. n\<lparr>height := new_ht l r\<rparr>) else Some s) = Some s1"
    using R(5) upd_same_height [OF R(1,2)] by auto
  have par: "par = nullptr" using place_par [OF Nil.prems(1)] by simp
  show ?case
  proof (cases "h = new_ht l r \<and> ht l - ht r \<ge> - 1 \<and> ht l - ht r \<le> 1")
    case True
    then show ?thesis using R p t place_rooted [OF Nil.prems(1)]
      by (subst EraseFixup.simps) (simp add: Let_def new_ht_def)
  next
    case False
    then have "EraseFixup s p = Some s2" using R p t par upd by (subst EraseFixup.simps) (auto simp: Let_def new_ht_def)
    then show ?thesis using False R t place_rooted [OF R(7)] by (auto simp: Let_def)
  qed
next
  case (Cons f c)
  from place_shape [OF Cons.prems(1,2)] obtain l h r where t: "t = Nd l p h r" by blast
  then have p: "p \<noteq> nullptr" using Cons.prems(1) by (simp add: place_def)
  from repair_round [OF Cons.prems(1) [unfolded t]] Cons.prems(3) t obtain n s1 s2 q m where
    R: "node_at s p = Some n" "height n = h" "LEFT_HEIGHT s p = Some (ht l)" "RIGHT_HEIGHT s p = Some (ht r)"
    "upd s p (\<lambda>n. n\<lparr>height := new_ht l r\<rparr>) = Some s1" "Fixup s1 (ht l - ht r) p = Some (s2, q)"
    "place s2 par q (fixup (ht l - ht r) (Nd l p (new_ht l r) r)) (f # c)" "node_at s2 q = Some m" "parent m = par"
    "touches (addrs t (f # c)) s s2" by auto
  have upd: "(if h \<noteq> new_ht l r then upd s p (\<lambda>n. n\<lparr>height := new_ht l r\<rparr>) else Some s) = Some s1"
    using R(5) upd_same_height [OF R(1,2)] by auto
  let ?t = "fixup (ht l - ht r) (Nd l p (new_ht l r) r)"
  show ?case
  proof (cases "h = new_ht l r \<and> ht l - ht r \<ge> - 1 \<and> ht l - ht r \<le> 1")
    case True
    then show ?thesis using R p t place_rooted [OF Cons.prems(1)]
      by (subst EraseFixup.simps) (simp add: Let_def new_ht_def)
  next
    case False
    have "nn (mk l p r)" using Cons.prems(3) t by simp
    then have "nn ?t" unfolding mk_def by (rule nn_fixup)
    then have "nn (plug (plug1 ?t f) c)" using Cons.prems(3) by simp
    from Cons.IH [OF place_up_par [OF R(7)] _ this] obtain s' where
      s': "EraseFixup s2 par = Some s'" "rooted s' (erase_fix (plug1 ?t f) c)" "touches (addrs (plug1 ?t f) c) s2 s'" by auto
    have "addrs (plug1 ?t f) c = addrs t (f # c)"
      unfolding addrs_plug1 by (rule addrs_cong) (simp add: t)
    then have "touches (addrs t (f # c)) s s'" using R(10) s'(3) by (metis touches_trans)
    moreover have "EraseFixup s p = Some s'"
      using False R p t s'(1) upd by (subst EraseFixup.simps) (auto simp: Let_def new_ht_def)
    ultimately show ?thesis using False t s'(2) by (auto simp: Let_def)
  qed
qed

end
