(* ===== verification/Avl_Unlink.thy ===== *)
theory Avl_Unlink
  imports Avl_Refine
begin

text \<open>
  Removal and traversal on the heap: going down to the smallest node, unlinking a node in each of
  the three cases of \<open>_Erase\<close>, the whole of \<open>_Erase\<close>, and the steps to the next and the previous
  node in key order.
\<close>

section \<open>Going down\<close>

lemma place_down: "place s par p (plug t sp) c \<Longrightarrow> \<exists>par' q. place s par' q t (sp @ c)"
proof (induction sp arbitrary: t)
  case Nil
  then show ?case by auto
next
  case (Cons f sp)
  from Cons.IH [of "plug1 t f"] Cons.prems obtain par' q where q: "place s par' q (plug1 t f) (sp @ c)" by auto
  then show ?case
  proof (cases f)
    case (InLeft a h r)
    from place_node [OF q [unfolded InLeft plug1.simps]] InLeft show ?thesis by auto
  next
    case (InRight l a h)
    from place_node [OF q [unfolded InRight plug1.simps]] InRight show ?thesis by auto
  qed
qed

lemma tree_at_not_Tip: "tree_at h par p t \<Longrightarrow> t \<noteq> Tip \<Longrightarrow> p \<noteq> nullptr"
  by (cases t) auto

lemma leftmost_place:
  "place s par p t c \<Longrightarrow> t \<noteq> Tip \<Longrightarrow> leftmost t c = (u, c') \<Longrightarrow>
    \<exists>par' z. GetFirstNode s p = Some z \<and> place s par' z u c'"
proof (induction t c arbitrary: par p rule: leftmost.induct)
  case (1 l' b hb r' a h r c)
  from place_node [OF 1(2)] obtain n where n: "p = a" "a \<noteq> nullptr" "node_at s a = Some n"
    "place s a (left n) (Nd l' b hb r') (InLeft a h r # c)" by blast
  then have "left n \<noteq> nullptr" using place_node [OF n(4)] by blast
  moreover from 1(1) [OF n(4)] 1(4) obtain par' z where "GetFirstNode s (left n) = Some z" "place s par' z u c'" by auto
  ultimately show ?case using n by (subst GetFirstNode.simps) auto
next
  case "2_1"
  then show ?case by simp
next
  fix a h r c par p
  assume q: "place s par p (Nd Tip a h r) c" and lm: "leftmost (Nd Tip a h r) c = (u, c')"
  from place_node [OF q] obtain n where n: "p = a" "a \<noteq> nullptr" "node_at s a = Some n"
    "place s a (left n) Tip (InLeft a h r # c)" by blast
  then have "left n = nullptr" by (simp add: place_def)
  then show "\<exists>par' z. GetFirstNode s p = Some z \<and> place s par' z u c'"
    using q lm n by (subst GetFirstNode.simps) auto
qed

section \<open>Unlinking\<close>

text \<open>A child takes the place of its parent.\<close>

lemma splice_at:
  assumes c: "ctx_at (nodes s) (root s) par a c" and a: "a \<noteq> nullptr" "a \<notin> addrs r c" and d: "distinct_at r c"
    and r: "tree_at (nodes s) a q r"
  shows "\<exists>s1 s2. ChildPlace s a q par = Some s1 \<and> (if q \<noteq> nullptr then upd s1 q (\<lambda>m. m\<lparr>parent := par\<rparr>) else Some s1) = Some s2
    \<and> place s2 par q r c \<and> touches (addrs r c) s s2"
proof -
  note D = distinct_atD [OF d]
  from ChildPlace_at [OF c a(1) _ D(2), of q] a(2) obtain s1 where s1:
    "ChildPlace s a q par = Some s1" "ctx_at (nodes s1) (root s1) par q c" "\<And>b. b \<notin> ctx_addrs c \<Longrightarrow> nodes s1 b = nodes s b"
    "\<And>b. map_option node_value (nodes s1 b) = map_option node_value (nodes s b)" "tree_count s1 = tree_count s"
    by (auto simp: addrs_def)
  have "tree_at (nodes s1) a q r"
    by (rule tree_at_frame [OF r], rule s1(3)) (use D(3) in auto)
  from reparent_at [OF this D(1), of par] obtain hb where hb:
    "(if q \<noteq> nullptr then upd s1 q (\<lambda>n. n\<lparr>parent := par\<rparr>) else Some s1) = Some (s1\<lparr>nodes := hb\<rparr>)"
    "tree_at hb par q r" "\<And>b. b \<notin> set (inord r) \<Longrightarrow> hb b = nodes s1 b"
    "\<And>b. map_option node_value (hb b) = map_option node_value (nodes s1 b)" by auto
  have "ctx_at hb (root s1) par q c"
  proof (subst ctx_at_cong [of c hb "nodes s1"])
    fix b assume "b \<in> ctx_addrs c"
    then show "hb b = nodes s1 b" using D(3) by (intro hb(3)) auto
  qed (rule s1(2))
  then have "place (s1\<lparr>nodes := hb\<rparr>) par q r c" using hb(2) d by (simp add: place_def)
  moreover have "touches (addrs r c) s (s1\<lparr>nodes := hb\<rparr>)"
    using s1(3-5) hb(3,4) by (simp add: touches_def addrs_def)
  ultimately show ?thesis using s1(1) hb(1) by blast
qed

text \<open>A node outside the tree takes the place of a node with two children.\<close>

lemma replace_node_at:
  assumes pl: "place s par a (Nd l a h r) c" and lr: "l \<noteq> Tip" "r \<noteq> Tip"
    and z: "z \<noteq> nullptr" "z \<notin> addrs (Nd l a h r) c" "nodes s z = Some m"
  shows "\<exists>n s'. node_at s a = Some n \<and> left n \<noteq> nullptr \<and> right n \<noteq> nullptr \<and> height n = h
    \<and> (do { s \<leftarrow> upd s z (\<lambda>m. m\<lparr>right := right n\<rparr>);
           s \<leftarrow> upd s (right n) (\<lambda>r. r\<lparr>parent := z\<rparr>);
           s \<leftarrow> upd s z (\<lambda>m. m\<lparr>left := left n\<rparr>);
           s \<leftarrow> upd s (left n) (\<lambda>l. l\<lparr>parent := z\<rparr>);
           s \<leftarrow> upd s z (\<lambda>m. m\<lparr>height := height n\<rparr>);
           s \<leftarrow> upd s z (\<lambda>m. m\<lparr>parent := par\<rparr>);
           ChildPlace s a z par }) = Some s'
    \<and> place s' par z (Nd l z h r) c \<and> touches (insert z (addrs (Nd l a h r) c)) s s'"
proof -
  from pl lr obtain n where n: "a \<noteq> nullptr" "nodes s a = Some n" "height n = h" "parent n = par"
    "tree_at (nodes s) a (left n) l" "tree_at (nodes s) a (right n) r"
    and c: "ctx_at (nodes s) (root s) par a c" and d: "distinct_at (Nd l a h r) c" by (auto simp: place_def)
  note D = distinct_atD [OF d]
  note ch = tree_at_not_Tip [OF n(5) lr(1)] tree_at_not_Tip [OF n(6) lr(2)]
  note rt = tree_at_root [OF n(5) ch(1)] tree_at_root [OF n(6) ch(2)]
  from tree_at_nonnull [OF n(5) rt(1)] tree_at_nonnull [OF n(6) rt(2)] obtain L R where
    LR: "nodes s (left n) = Some L" "nodes s (right n) = Some R" by blast
  have df: "left n \<noteq> right n" "left n \<noteq> z" "right n \<noteq> z" "a \<noteq> z" using rt D(1) z(2) by (auto simp: addrs_def)
  let ?z = "m\<lparr>right := right n, left := left n, height := h, parent := par\<rparr>"
  let ?h = "(nodes s)(right n \<mapsto> R\<lparr>parent := z\<rparr>, left n \<mapsto> L\<lparr>parent := z\<rparr>, z \<mapsto> ?z)"
  let ?s5 = "s\<lparr>nodes := ?h\<rparr>"
  have "tree_at ((nodes s)(right n \<mapsto> R\<lparr>parent := z\<rparr>)) z (right n) r"
    using D(1) by (intro tree_at_reparent [OF n(6) ch(2) _ LR(2)]) simp
  then have "tree_at ?h z (right n) r"
    by (rule tree_at_frame) (use D(1) z(2) rt df in \<open>auto simp: addrs_def\<close>)
  moreover have "tree_at ((nodes s)(left n \<mapsto> L\<lparr>parent := z\<rparr>)) z (left n) l"
    using D(1) by (intro tree_at_reparent [OF n(5) ch(1) _ LR(1)]) simp
  then have "tree_at ?h z (left n) l"
    by (rule tree_at_frame) (use D(1) z(2) rt df in \<open>auto simp: addrs_def\<close>)
  ultimately have t': "tree_at (nodes ?s5) par z (Nd l z h r)" using z(1) by simp
  have X: "insert z (addrs (Nd l a h r) c) = insert z (set (inord (Nd l a h r))) \<union> ctx_addrs c" by (simp add: addrs_def)
  have "\<exists>s'. ChildPlace ?s5 a z par = Some s' \<and> place s' par z (Nd l z h r) c
      \<and> touches (insert z (addrs (Nd l a h r) c)) s s'"
    unfolding X using c D(2) n(1) t' D z(2,3) LR rt by (intro replace_cells) (auto simp: addrs_def)
  moreover have "(do { s \<leftarrow> upd s z (\<lambda>m. m\<lparr>right := right n\<rparr>);
           s \<leftarrow> upd s (right n) (\<lambda>r. r\<lparr>parent := z\<rparr>);
           s \<leftarrow> upd s z (\<lambda>m. m\<lparr>left := left n\<rparr>);
           s \<leftarrow> upd s (left n) (\<lambda>l. l\<lparr>parent := z\<rparr>);
           s \<leftarrow> upd s z (\<lambda>m. m\<lparr>height := height n\<rparr>);
           s \<leftarrow> upd s z (\<lambda>m. m\<lparr>parent := par\<rparr>);
           ChildPlace s a z par }) = ChildPlace ?s5 a z par"
    using z LR ch df n by (simp add: upd_some fun_upd_twist [of z] fun_upd_twist [of "right n" "left n"])
  ultimately show ?thesis using n ch by (simp add: node_at_some)
qed

lemma leftmost_app: "leftmost t (d @ c) = (fst (leftmost t d), snd (leftmost t d) @ c)"
  by (induction t d rule: leftmost.induct) auto

lemma plug_eq_Tip [simp]: "plug t c = Tip \<longleftrightarrow> t = Tip \<and> c = []"
  by (induction c arbitrary: t) auto

lemma addrs_app: "addrs t (sp @ c) = addrs (plug t sp) c"
  by (metis addrs_plug plug_append)

lemma addrs_mono: "set (inord t) \<subseteq> set (inord t') \<Longrightarrow> addrs t c \<subseteq> addrs t' c"
  by (auto simp: addrs_def)

lemma place_climb: "place s par p t (sp @ c) \<Longrightarrow> \<exists>p'. place s (ctx_par c) p' (plug t sp) c"
proof (induction sp arbitrary: par p t)
  case Nil
  then show ?case using place_par [of s par p t c] by auto
next
  case (Cons f sp)
  from place_up [of s par p t f "sp @ c"] Cons show ?case by auto
qed

lemma unlink_child:
  assumes pl: "place s par a (Nd l a h r) c" and lr: "l = Tip \<or> r = Tip"
  shows "\<exists>s' q. unlink s a = Some (s', par) \<and> place s' par q (if l = Tip then r else l) c \<and> touches (addrs (Nd l a h r) c) s s'"
proof -
  let ?t = "if l = Tip then r else l"
  from pl obtain n where n: "a \<noteq> nullptr" "nodes s a = Some n" "height n = h" "parent n = par"
    "tree_at (nodes s) a (left n) l" "tree_at (nodes s) a (right n) r"
    and c: "ctx_at (nodes s) (root s) par a c" and d: "distinct_at (Nd l a h r) c" by (auto simp: place_def)
  let ?q = "if left n \<noteq> nullptr then left n else right n"
  have q: "tree_at (nodes s) a ?q ?t" using n(5,6) lr tree_at_not_Tip [OF n(5)] by auto
  have "distinct_at ?t c" "a \<notin> addrs ?t c" using d by (auto simp: distinct_at_def inord_plug addrs_def ctx_addrs_def)
  from splice_at [OF c n(1) this(2,1) q] obtain s1 s2 where
    "ChildPlace s a ?q par = Some s1" "(if ?q \<noteq> nullptr then upd s1 ?q (\<lambda>m. m\<lparr>parent := par\<rparr>) else Some s1) = Some s2"
    "place s2 par ?q ?t c" "touches (addrs ?t c) s s2" by blast
  moreover have "\<not> (left n \<noteq> nullptr \<and> right n \<noteq> nullptr)" using n(5,6) lr by auto
  moreover have "addrs ?t c \<subseteq> addrs (Nd l a h r) c" by (rule addrs_mono) auto
  ultimately show ?thesis using n by (auto simp: unlink_def node_at_some Let_def elim: touches_mono)
qed

text \<open>The smallest node of the right subtree, and its place.\<close>

lemma successor_at:
  assumes pl: "place s par a (Nd l a h r) c" and lr: "l \<noteq> Tip" "r \<noteq> Tip"
  obtains n z hz zr sp par' where "node_at s a = Some n" "left n \<noteq> nullptr" "right n \<noteq> nullptr" "parent n = par"
    "leftmost r [] = (Nd Tip z hz zr, sp)" "GetFirstNode s (right n) = Some z"
    "place s par' z (Nd Tip z hz zr) (sp @ InRight l a h # c)" "r = plug (Nd Tip z hz zr) sp"
proof -
  from place_node [OF pl] obtain n where n: "node_at s a = Some n" "parent n = par"
    "place s a (left n) l (InLeft a h r # c)" "place s a (right n) r (InRight l a h # c)" by blast
  have ch: "left n \<noteq> nullptr" "right n \<noteq> nullptr"
    using n(3,4) lr tree_at_not_Tip unfolding place_def by blast+
  obtain u sp where e: "leftmost r [] = (u, sp)" by fastforce
  from leftmost_plug [OF e] lr obtain z hz zr where u: "u = Nd Tip z hz zr" "plug u sp = r" by auto
  from leftmost_app [of r "[]" "InRight l a h # c"] e have "leftmost r (InRight l a h # c) = (u, sp @ InRight l a h # c)" by simp
  from leftmost_place [OF n(4) lr(2) this] obtain par' z' where
    z': "GetFirstNode s (right n) = Some z'" "place s par' z' u (sp @ InRight l a h # c)" by blast
  have "z' = z" using place_node [OF z'(2) [unfolded u(1)]] by simp
  then show thesis using that n(1,2) ch e u z' by auto
qed

lemma unlink_next:
  assumes pl: "place s par a (Nd l a h (Nd Tip z hz zr)) c" and l: "l \<noteq> Tip"
  shows "\<exists>s'. unlink s a = Some (s', z) \<and> place s' par z (Nd l z h zr) c \<and> touches (addrs (Nd l a h (Nd Tip z hz zr)) c) s s'"
proof -
  from pl obtain n m where n: "a \<noteq> nullptr" "nodes s a = Some n" "height n = h" "parent n = par"
    "tree_at (nodes s) a (left n) l" "right n = z" "z \<noteq> nullptr" "nodes s z = Some m" "parent m = a" "height m = hz" "left m = nullptr"
    "tree_at (nodes s) z (right m) zr"
    and c: "ctx_at (nodes s) (root s) par a c" and d: "distinct_at (Nd l a h (Nd Tip z hz zr)) c" by (auto simp: place_def)
  note D = distinct_atD [OF d]
  note ch = tree_at_not_Tip [OF n(5) l]
  note rt = tree_at_root [OF n(5) ch]
  from tree_at_nonnull [OF n(5) rt] obtain L where L: "nodes s (left n) = Some L" by blast
  have df: "left n \<noteq> z" "a \<noteq> z" "z \<noteq> a" "z \<noteq> left n" using rt D(1) by auto
  have g: "GetFirstNode s z = Some z" using n(7,8,11) by (subst GetFirstNode.simps) (simp add: node_at_some)
  let ?z = "m\<lparr>left := left n, parent := par, height := h\<rparr>"
  let ?h = "(nodes s)(left n \<mapsto> L\<lparr>parent := z\<rparr>, z \<mapsto> ?z)"
  let ?s5 = "s\<lparr>nodes := ?h\<rparr>"
  have "tree_at ((nodes s)(left n \<mapsto> L\<lparr>parent := z\<rparr>)) z (left n) l"
    using D(1) by (intro tree_at_reparent [OF n(5) ch _ L]) simp
  then have "tree_at ?h z (left n) l"
    by (rule tree_at_frame) (use D(1) in auto)
  moreover have "tree_at ?h z (right m) zr"
    by (rule tree_at_frame [OF n(12)]) (use D(1) rt in auto)
  ultimately have t': "tree_at (nodes ?s5) par z (Nd l z h zr)" using n(7) by simp
  have "\<exists>s'. ChildPlace ?s5 a z par = Some s' \<and> place s' par z (Nd l z h zr) c
      \<and> touches (addrs (Nd l a h (Nd Tip z hz zr)) c) s s'"
    by (rule replace_subtree [OF c d n(1)]) (use t' D(1) n(8) L rt in auto)
  moreover have "unlink s a = (do { s \<leftarrow> ChildPlace ?s5 a z par; Some (s, z) })"
    using n L ch df g by (simp add: unlink_def node_at_some upd_some fun_upd_twist [of z] Let_def)
  ultimately show ?thesis by auto
qed

lemma unlink_deep:
  assumes pl: "place s par a (Nd l a h r) c" and lr: "l \<noteq> Tip" "r \<noteq> Tip"
    and lm: "leftmost r [] = (Nd Tip z hz zr, sp)" "sp \<noteq> []"
  shows "\<exists>s' q. unlink s a = Some (s', ctx_par sp) \<and> place s' (ctx_par sp) q zr (sp @ InRight l z h # c)
    \<and> touches (addrs (Nd l a h r) c) s s'"
proof -
  from successor_at [OF pl lr] lm(1) obtain n par' where n: "node_at s a = Some n" "left n \<noteq> nullptr" "right n \<noteq> nullptr" "parent n = par"
    and g: "GetFirstNode s (right n) = Some z" and z: "place s par' z (Nd Tip z hz zr) (sp @ InRight l a h # c)"
    and r: "r = plug (Nd Tip z hz zr) sp" by (metis prod.inject atree.inject)
  let ?C = "sp @ InRight l a h # c"
  have sp: "ctx_par ?C = ctx_par sp" using lm(2) by (cases sp rule: ctx_par.cases) auto
  then have par': "par' = ctx_par sp" using place_par [OF z] by simp
  from z obtain m where m: "z \<noteq> nullptr" "nodes s z = Some m" "parent m = par'" "tree_at (nodes s) z (right m) zr"
    "ctx_at (nodes s) (root s) par' z ?C" "distinct_at (Nd Tip z hz zr) ?C" by (auto simp: place_def)
  note D = distinct_atD [OF m(6)]
  have "a \<in> ctx_addrs ?C" by (simp add: ctx_addrs_def hole_append)
  then have za: "a \<noteq> z" using D(3) by auto
  have "a \<in> addrs (Nd Tip z hz zr) sp \<longrightarrow> False"
  proof -
    have "distinct_at (plug (Nd Tip z hz zr) sp) (InRight l a h # c)" using m(6) by (simp add: distinct_at_def)
    from distinct_atD(3) [OF this] show ?thesis unfolding addrs_plug by auto
  qed
  then have pm: "parent m \<noteq> a" unfolding m(3) par'
    using lm(2) by (cases sp rule: ctx_par.cases) (auto simp: addrs_def)
  have zr: "distinct_at zr ?C" "z \<notin> addrs zr ?C"
    using m(6) unfolding distinct_at_def inord_plug addrs_def ctx_addrs_def inord.simps by (auto simp del: before_hole.simps after_hole.simps)
  from splice_at [OF m(5,1) zr(2,1) m(4)] obtain s1 s2 where s2:
    "ChildPlace s z (right m) par' = Some s1"
    "(if right m \<noteq> nullptr then upd s1 (right m) (\<lambda>m. m\<lparr>parent := par'\<rparr>) else Some s1) = Some s2"
    "place s2 par' (right m) zr ?C" "touches (addrs zr ?C) s s2" by blast
  from place_climb [of s2 par' _ zr "sp @ [InRight l a h]" c] s2(3) place_par [OF pl] obtain p' where
    "place s2 par p' (Nd l a h (plug zr sp)) c" by auto
  then have pl2: "place s2 par a (Nd l a h (plug zr sp)) c" using place_node by blast
  have X: "addrs zr ?C = addrs (Nd l a h (plug zr sp)) c"
    using addrs_app [of zr "sp @ [InRight l a h]" c] by simp
  have Y: "insert z (addrs (Nd l a h (plug zr sp)) c) \<subseteq> addrs (Nd l a h r) c"
    unfolding r by (auto simp: addrs_def inord_plug)
  have z2: "nodes s2 z = Some m" using s2(4) zr(2) m(2) by (simp add: touches_def)
  have "plug zr sp \<noteq> Tip" using lm(2) by simp
  from replace_node_at [OF pl2 lr(1) this m(1) _ z2] zr(2) X obtain o1 s3 where o1:
    "node_at s2 a = Some o1" "left o1 \<noteq> nullptr" "right o1 \<noteq> nullptr"
    "(do { s \<leftarrow> upd s2 z (\<lambda>m. m\<lparr>right := right o1\<rparr>);
           s \<leftarrow> upd s (right o1) (\<lambda>r. r\<lparr>parent := z\<rparr>);
           s \<leftarrow> upd s z (\<lambda>m. m\<lparr>left := left o1\<rparr>);
           s \<leftarrow> upd s (left o1) (\<lambda>l. l\<lparr>parent := z\<rparr>);
           s \<leftarrow> upd s z (\<lambda>m. m\<lparr>height := height o1\<rparr>);
           s \<leftarrow> upd s z (\<lambda>m. m\<lparr>parent := par\<rparr>);
           ChildPlace s a z par }) = Some s3"
    "place s3 par z (Nd l z h (plug zr sp)) c" "touches (insert z (addrs (Nd l a h (plug zr sp)) c)) s2 s3" by auto
  have "place s3 par z (plug zr (sp @ [InRight l z h])) c" using o1(5) by simp
  from place_down [OF this] obtain q par3 where q: "place s3 par3 q zr (sp @ InRight l z h # c)" by auto
  have "ctx_par (sp @ InRight l z h # c) = ctx_par sp" using lm(2) by (cases sp rule: ctx_par.cases) auto
  then have "place s3 (ctx_par sp) q zr (sp @ InRight l z h # c)" using q place_par [OF q] by simp
  moreover have "touches (addrs (Nd l a h r) c) s s3"
  proof (rule touches_trans)
    show "touches (addrs (Nd l a h r) c) s s2" using s2(4) Y by (auto simp: X elim: touches_mono)
    show "touches (addrs (Nd l a h r) c) s2 s3" using o1(6) Y by (rule touches_mono)
  qed
  moreover have "unlink s a = Some (s3, ctx_par sp)"
    using n g m pm s2(1,2) par' o1(1-4) by (auto simp: unlink_def node_at_some Let_def Option.bind_eq_Some_conv split: if_splits)
  ultimately show ?thesis by blast
qed

lemma Avl_Erase_at:
  assumes pl: "place s par a (Nd l a h r) c" and nn: "nn (plug (Nd l a h r) c)"
  shows "\<exists>s'. Avl_Erase s a = Some s' \<and> rooted s' (t_erase l h r c) \<and> touches (addrs (Nd l a h r) c) s s'"
proof -
  have detach_at: "\<exists>s'. EraseFixup s1 (ctx_par k) = Some s' \<and> rooted s' (detach t k) \<and> touches (addrs t k) s1 s'"
    if "place s1 (ctx_par k) q t k" "nn t" "\<forall>f \<in> set k. nn_frame f" for s1 q t k
  proof (cases k)
    case Nil
    then show ?thesis using place_rooted [OF that(1)] by (auto simp: detach_def)
  next
    case (Cons f k')
    from EraseFixup_at [OF place_up_par [OF that(1) [unfolded Cons]]] that Cons
    show ?thesis by (auto simp: detach_def addrs_plug1)
  qed
  have N: "nn l" "nn r" "\<forall>f \<in> set c. nn_frame f" "0 \<le> h" using nn by simp_all
  consider "l = Tip \<or> r = Tip" | "l \<noteq> Tip" "r \<noteq> Tip" by blast
  then show ?thesis
  proof cases
    case 1
    let ?t = "if l = Tip then r else l"
    have nt: "nn ?t" using N by simp
    from unlink_child [OF pl 1] obtain s1 q where s1:
      "unlink s a = Some (s1, par)" "place s1 par q ?t c" "touches (addrs (Nd l a h r) c) s s1" by blast
    from s1(2) detach_at [of s1 c q ?t] N(3) nt place_par [OF pl] obtain s2 where s2:
      "EraseFixup s1 par = Some s2" "rooted s2 (detach ?t c)" "touches (addrs ?t c) s1 s2" by auto
    have "addrs ?t c \<subseteq> addrs (Nd l a h r) c" by (rule addrs_mono) auto
    then have "touches (addrs (Nd l a h r) c) s s2" using s1(3) s2(3) touches_mono touches_trans by metis
    moreover have "detach ?t c = t_erase l h r c" using 1 by (auto simp: t_erase_def)
    ultimately show ?thesis using s1 s2 by (simp add: Avl_Erase_def)
  next
    case 2
    from successor_at [OF pl 2] obtain z hz zr sp where lm: "leftmost r [] = (Nd Tip z hz zr, sp)" "r = plug (Nd Tip z hz zr) sp" by metis
    have M: "nn zr" "\<forall>f \<in> set sp. nn_frame f" "0 \<le> hz" using N(2) unfolding lm(2) by simp_all
    show ?thesis
    proof (cases sp)
      case Nil
      then have r: "r = Nd Tip z hz zr" using lm by simp
      from unlink_next [OF pl [unfolded r] 2(1)] r obtain s1 where s1:
        "unlink s a = Some (s1, z)" "place s1 par z (Nd l z h zr) c" "touches (addrs (Nd l a h r) c) s s1" by auto
      from EraseFixup_at [OF s1(2)] N M obtain s2 where s2:
        "EraseFixup s1 z = Some s2" "rooted s2 (erase_fix (Nd l z h zr) c)" "touches (addrs (Nd l z h zr) c) s1 s2" by auto
      have "addrs (Nd l z h zr) c \<subseteq> addrs (Nd l a h r) c" by (rule addrs_mono) (auto simp: r)
      then have "touches (addrs (Nd l a h r) c) s s2" using s1(3) s2(3) touches_mono touches_trans by metis
      then show ?thesis using s1 s2 2 lm Nil by (simp add: Avl_Erase_def t_erase_def del: erase_fix.simps)
    next
      case (Cons f sp')
      then have spn: "sp \<noteq> []" by simp
      let ?C = "sp @ InRight l z h # c"
      from unlink_deep [OF pl 2 lm(1) spn] obtain s1 q where s1:
        "unlink s a = Some (s1, ctx_par sp)" "place s1 (ctx_par sp) q zr ?C" "touches (addrs (Nd l a h r) c) s s1" by blast
      have "ctx_par ?C = ctx_par sp" using Cons by (cases f) auto
      with detach_at [of s1 ?C q zr] s1(2) N M obtain s2 where s2:
        "EraseFixup s1 (ctx_par sp) = Some s2" "rooted s2 (detach zr ?C)" "touches (addrs zr ?C) s1 s2" by auto
      have "addrs zr ?C \<subseteq> addrs (Nd l a h r) c"
        unfolding lm(2) by (auto simp: addrs_def ctx_addrs_def hole_append inord_plug)
      then have "touches (addrs (Nd l a h r) c) s s2" using s1(3) s2(3) touches_mono touches_trans by metis
      then show ?thesis using s1 s2 2 lm Cons by (simp add: Avl_Erase_def t_erase_def)
    qed
  qed
qed

section \<open>Traversal\<close>

text \<open>The place of a node of a tree.\<close>

lemma split_at: "a \<in> set (inord t) \<Longrightarrow> \<exists>l h r c. t = plug (Nd l a h r) c"
proof (induction t)
  case (Nd l b h r)
  consider "a = b" | "a \<in> set (inord l)" | "a \<in> set (inord r)" using Nd.prems by auto
  then show ?case
  proof cases
    case 1
    then show ?thesis by (metis plug.simps(1))
  next
    case 2
    with Nd.IH(1) obtain l' h' r' c where "l = plug (Nd l' a h' r') c" by blast
    then have "Nd l b h r = plug (Nd l' a h' r') (c @ [InLeft b h r])" by simp
    then show ?thesis by blast
  next
    case 3
    with Nd.IH(2) obtain l' h' r' c where "r = plug (Nd l' a h' r') c" by blast
    then have "Nd l b h r = plug (Nd l' a h' r') (c @ [InRight l b h])" by simp
    then show ?thesis by blast
  qed
qed simp

lemma locate:
  assumes "rooted s t" and "a \<in> set (inord t)"
  obtains l h r c par where "place s par a (Nd l a h r) c" "t = plug (Nd l a h r) c"
proof -
  from split_at [OF assms(2)] obtain l h r c where t: "t = plug (Nd l a h r) c" by blast
  from assms(1) [unfolded rooted_def t] place_down obtain par q where q: "place s par q (Nd l a h r) c"
    by (metis append_Nil2)
  then have "place s par a (Nd l a h r) c" using place_node by blast
  then show thesis using that t by blast
qed

definition first_or_null :: "ptr list \<Rightarrow> ptr" where
  "first_or_null xs = (case xs of [] \<Rightarrow> nullptr | x # _ \<Rightarrow> x)"

definition last_or_null :: "ptr list \<Rightarrow> ptr" where
  "last_or_null xs = (if xs = [] then nullptr else last xs)"

lemma first_or_null_simps [simp]:
  "first_or_null [] = nullptr" "first_or_null (x # xs) = x" "xs \<noteq> [] \<Longrightarrow> first_or_null (xs @ ys) = first_or_null xs"
  by (auto simp: first_or_null_def split: list.splits)

lemma last_or_null_simps [simp]:
  "last_or_null [] = nullptr" "last_or_null (xs @ [x]) = x" "ys \<noteq> [] \<Longrightarrow> last_or_null (xs @ ys) = last_or_null ys"
  by (auto simp: last_or_null_def)

lemma inord_Nil [simp]: "inord t = [] \<longleftrightarrow> t = Tip"
  by (cases t) auto

lemma GetFirstNode_tree: "tree_at (nodes s) par p t \<Longrightarrow> GetFirstNode s p = Some (first_or_null (inord t))"
proof (induction t arbitrary: par p)
  case Tip
  then show ?case by (subst GetFirstNode.simps) simp
next
  case (Nd l a h r)
  from Nd.prems obtain n where n: "p = a" "a \<noteq> nullptr" "nodes s a = Some n" "tree_at (nodes s) a (left n) l" by auto
  show ?case
  proof (cases "l = Tip")
    case True
    then show ?thesis using n by (subst GetFirstNode.simps) (simp add: node_at_some)
  next
    case False
    then show ?thesis using n tree_at_not_Tip [OF n(4)] Nd.IH(1) [OF n(4)]
      by (subst GetFirstNode.simps) (simp add: node_at_some)
  qed
qed

lemma GetLastNode_tree: "tree_at (nodes s) par p t \<Longrightarrow> GetLastNode s p = Some (last_or_null (inord t))"
proof (induction t arbitrary: par p)
  case Tip
  then show ?case by (subst GetLastNode.simps) simp
next
  case (Nd l a h r)
  from Nd.prems obtain n where n: "p = a" "a \<noteq> nullptr" "nodes s a = Some n" "tree_at (nodes s) a (right n) r" by auto
  show ?case
  proof (cases "r = Tip")
    case True
    then show ?thesis using n by (subst GetLastNode.simps) (simp add: node_at_some)
  next
    case False
    then have "inord r \<noteq> []" by simp
    then have "last_or_null (inord (Nd l a h r)) = last_or_null (inord r)" by (simp add: last_or_null_def)
    then show ?thesis using n tree_at_not_Tip [OF n(4) False] Nd.IH(2) [OF n(4)]
      by (subst GetLastNode.simps) (simp add: node_at_some)
  qed
qed

lemma ascend_left_at: "place s par p t c \<Longrightarrow> t \<noteq> Tip \<Longrightarrow> ascend_left s p = Some (first_or_null (after_hole c))"
proof (induction c arbitrary: par p t)
  case Nil
  from place_shape [OF Nil] obtain l h r where t: "t = Nd l p h r" by blast
  from place_node [OF Nil(1) [unfolded t]] obtain m where "node_at s p = Some m" "parent m = par" by blast
  with place_par [OF Nil(1)] show ?case by (subst ascend_left.simps) (simp add: Let_def)
next
  case (Cons f c)
  from place_shape [OF Cons.prems] obtain l h r where t: "t = Nd l p h r" by blast
  from place_node [OF Cons.prems(1) [unfolded t]] obtain m where m: "node_at s p = Some m" "parent m = par" "p \<noteq> nullptr" by blast
  note up = place_up_par [OF Cons.prems(1)]
  show ?case
  proof (cases f)
    case (InLeft b hb rb)
    then have "\<exists>n. node_at s par = Some n \<and> left n = p \<and> par = b \<and> par \<noteq> nullptr"
      using Cons.prems(1) by (auto simp: place_def node_at_some)
    then show ?thesis using m InLeft by (subst ascend_left.simps) (auto simp: Let_def)
  next
    case (InRight lb b hb)
    then obtain n where n: "node_at s par = Some n" "par = b" "par \<noteq> nullptr" "tree_at (nodes s) b (left n) lb" "distinct_at t (f # c)"
      using Cons.prems(1) by (auto simp: place_def node_at_some)
    have "p \<notin> set (inord lb)" using distinct_atD(3) [OF n(5)] t InRight by auto
    then have "left n \<noteq> p" using tree_at_root [OF n(4)] m(3) by auto
    then show ?thesis using m n Cons.IH [OF up] InRight by (subst ascend_left.simps) (auto simp: Let_def)
  qed
qed

lemma ascend_right_at: "place s par p t c \<Longrightarrow> t \<noteq> Tip \<Longrightarrow> ascend_right s p = Some (last_or_null (before_hole c))"
proof (induction c arbitrary: par p t)
  case Nil
  from place_shape [OF Nil] obtain l h r where t: "t = Nd l p h r" by blast
  from place_node [OF Nil(1) [unfolded t]] obtain m where "node_at s p = Some m" "parent m = par" by blast
  with place_par [OF Nil(1)] show ?case by (subst ascend_right.simps) (simp add: Let_def)
next
  case (Cons f c)
  from place_shape [OF Cons.prems] obtain l h r where t: "t = Nd l p h r" by blast
  from place_node [OF Cons.prems(1) [unfolded t]] obtain m where m: "node_at s p = Some m" "parent m = par" "p \<noteq> nullptr" by blast
  note up = place_up_par [OF Cons.prems(1)]
  show ?case
  proof (cases f)
    case (InRight lb b hb)
    then have "\<exists>n. node_at s par = Some n \<and> right n = p \<and> par = b \<and> par \<noteq> nullptr"
      using Cons.prems(1) by (auto simp: place_def node_at_some)
    then show ?thesis using m InRight by (subst ascend_right.simps) (auto simp: Let_def last_or_null_def)
  next
    case (InLeft b hb rb)
    then obtain n where n: "node_at s par = Some n" "par = b" "par \<noteq> nullptr" "tree_at (nodes s) b (right n) rb" "distinct_at t (f # c)"
      using Cons.prems(1) by (auto simp: place_def node_at_some)
    have "p \<notin> set (inord rb)" using distinct_atD(3) [OF n(5)] t InLeft by auto
    then have "right n \<noteq> p" using tree_at_root [OF n(4)] m(3) by auto
    then show ?thesis using m n Cons.IH [OF up] InLeft by (subst ascend_right.simps) (auto simp: Let_def)
  qed
qed

lemma unique_split:
  assumes "distinct (xs @ a # ys)" and "xs @ a # ys = xs' @ a # ys'"
  shows "xs = xs' \<and> ys = ys'"
proof -
  from assms(1) have "a \<notin> set xs" "a \<notin> set ys" by simp_all
  from append_Cons_eq_iff [OF this] assms(2) show ?thesis by blast
qed

lemma rooted_distinct: "rooted s t \<Longrightarrow> distinct (inord t)"
  by (simp add: rooted_def place_def distinct_at_def)

lemma GetNextNode_at:
  assumes "rooted s t" and "inord t = xs @ a # ys"
  shows "GetNextNode s a = Some (first_or_null ys)"
proof -
  from assms(2) have a: "a \<in> set (inord t)" by simp
  obtain l h r c par where pl: "place s par a (Nd l a h r) c" "t = plug (Nd l a h r) c" by (rule locate [OF assms(1) a])
  have "xs @ a # ys = (before_hole c @ inord l) @ a # (inord r @ after_hole c)"
    using assms(2) pl(2) by (simp add: inord_plug)
  from unique_split [OF _ this] rooted_distinct [OF assms(1)] assms(2) have ys: "ys = inord r @ after_hole c" by simp
  from place_node [OF pl(1)] obtain n where n: "a \<noteq> nullptr" "node_at s a = Some n" "place s a (right n) r (InRight l a h # c)" by blast
  then have r: "tree_at (nodes s) a (right n) r" by (simp add: place_def)
  show ?thesis
  proof (cases "r = Tip")
    case True
    then show ?thesis using n r ys ascend_left_at [OF pl(1)] by (simp add: GetNextNode_def)
  next
    case False
    then show ?thesis using n ys tree_at_not_Tip [OF r] GetFirstNode_tree [OF r] by (simp add: GetNextNode_def)
  qed
qed

lemma GetPrevNode_at:
  assumes "rooted s t" and "inord t = xs @ a # ys"
  shows "GetPrevNode s a = Some (last_or_null xs)"
proof -
  from assms(2) have a: "a \<in> set (inord t)" by simp
  obtain l h r c par where pl: "place s par a (Nd l a h r) c" "t = plug (Nd l a h r) c" by (rule locate [OF assms(1) a])
  have "xs @ a # ys = (before_hole c @ inord l) @ a # (inord r @ after_hole c)"
    using assms(2) pl(2) by (simp add: inord_plug)
  from unique_split [OF _ this] rooted_distinct [OF assms(1)] assms(2) have xs: "xs = before_hole c @ inord l" by simp
  from place_node [OF pl(1)] obtain n where n: "a \<noteq> nullptr" "node_at s a = Some n" "place s a (left n) l (InLeft a h r # c)" by blast
  then have l: "tree_at (nodes s) a (left n) l" by (simp add: place_def)
  show ?thesis
  proof (cases "l = Tip")
    case True
    then show ?thesis using n l xs ascend_right_at [OF pl(1)] by (simp add: GetPrevNode_def)
  next
    case False
    then have "last_or_null xs = last_or_null (inord l)" using xs by simp
    then show ?thesis using n tree_at_not_Tip [OF l False] GetLastNode_tree [OF l] by (simp add: GetPrevNode_def)
  qed
qed

end
