(* ===== verification/Avl_Tree_Base.thy ===== *)
theory Avl_Tree_Base
  imports Avl_Unlink
begin

text \<open>
  \<open>AvlTreeBase\<close> and \<open>AvlTree\<close> (\<open>algo/internal/avl_tree_base.h\<close>, \<open>avl_tree_base_impl.h\<close>,
  \<open>avl_tree.h\<close>, \<open>avl_tree_iterator.h\<close>): search, insertion, removal and the loops over all nodes.
  \<open>cmp\<close> is the comparator and \<open>gk\<close> the key of a value. A pointer to a duplicate that the caller
  may pass as null is the flag \<open>want\<close>; what is written through it is the address of the node
  that holds the value. The address an allocation returns is an argument, 0 when it fails.
\<close>

section \<open>Construction, nodes and the count\<close>

text \<open>The constructor sets the root; \<open>count_\<close> keeps whatever the memory held.\<close>

definition AvlTree_new :: "'v AvlNode heap \<Rightarrow> size_t \<Rightarrow> 'v avl" where
  "AvlTree_new h junk = \<lparr>nodes = h, root = nullptr, tree_count = junk\<rparr>"

definition IncreaseCount :: "'v avl \<Rightarrow> 'v avl" where
  "IncreaseCount s = s\<lparr>tree_count := tree_count s + 1\<rparr>"

definition DecreaseCount :: "'v avl \<Rightarrow> 'v avl" where
  "DecreaseCount s = s\<lparr>tree_count := tree_count s - 1\<rparr>"

definition SetCount :: "size_t \<Rightarrow> 'v avl \<Rightarrow> 'v avl" where
  "SetCount n s = s\<lparr>tree_count := n\<rparr>"

definition avl_size :: "'v avl \<Rightarrow> size_t" where
  "avl_size s = tree_count s"

definition avl_empty :: "'v avl \<Rightarrow> bool" where
  "avl_empty s \<longleftrightarrow> root s = nullptr"

text \<open>\<open>swap\<close> is the one of the base class, which does not know the count.\<close>

definition avl_swap :: "'v avl \<Rightarrow> 'v avl \<Rightarrow> 'v avl \<times> 'v avl" where
  "avl_swap s o1 = (s\<lparr>root := root o1\<rparr>, o1\<lparr>root := root s\<rparr>)"

text \<open>
  The move operations of \<open>AvlTree\<close> are the implicit ones: those of the base class for the root, a copy
  for the count. The first tree of the result is the new, or assigned, one.
\<close>

definition avl_move_construct :: "'v avl \<Rightarrow> 'v avl \<times> 'v avl" where
  "avl_move_construct o1 = (o1, o1\<lparr>root := nullptr\<rparr>)"

definition avl_move_assign :: "'v avl \<Rightarrow> 'v avl \<Rightarrow> 'v avl \<times> 'v avl" where
  "avl_move_assign s o1 = (case avl_swap o1 s of (o2, s) \<Rightarrow> (s\<lparr>tree_count := tree_count o1\<rparr>, o2))"

definition avl_CreateNode :: "'v avl \<Rightarrow> ptr \<Rightarrow> 'v \<Rightarrow> 'v avl option" where
  "avl_CreateNode s fresh v =
     (if fresh = nullptr then None
      else Some (s\<lparr>nodes := (nodes s)(fresh \<mapsto>
        \<lparr>parent = nullptr, left = nullptr, right = nullptr, height = 1, node_value = v\<rparr>)\<rparr>))"

definition avl_DropNode :: "'v AvlNode heap \<Rightarrow> ptr \<Rightarrow> 'v AvlNode heap option" where
  "avl_DropNode h node = do { _ \<leftarrow> deref h node; Some (h(node := None)) }"

section \<open>Search\<close>

partial_function (option) find_loop :: "('k \<Rightarrow> 'k \<Rightarrow> int) \<Rightarrow> ('v \<Rightarrow> 'k) \<Rightarrow> 'v avl \<Rightarrow> 'k \<Rightarrow> ptr \<Rightarrow> ptr option" where
  [code]: "find_loop cmp gk s k node =
     (if node = nullptr then Some nullptr
      else do {
        n \<leftarrow> node_at s node;
        let res = cmp (gk (node_value n)) k;
        (if res > 0 then find_loop cmp gk s k (left n)
         else if res < 0 then find_loop cmp gk s k (right n)
         else Some node) })"

definition avl_FindNode :: "('k \<Rightarrow> 'k \<Rightarrow> int) \<Rightarrow> ('v \<Rightarrow> 'k) \<Rightarrow> 'v avl \<Rightarrow> 'k \<Rightarrow> ptr option" where
  "avl_FindNode cmp gk s k = find_loop cmp gk s k (root s)"

definition avl_Find :: "('k \<Rightarrow> 'k \<Rightarrow> int) \<Rightarrow> ('v \<Rightarrow> 'k) \<Rightarrow> 'v avl \<Rightarrow> 'k \<Rightarrow> 'v option option" where
  "avl_Find cmp gk s k = do {
     node \<leftarrow> avl_FindNode cmp gk s k;
     (if node = nullptr then Some None else do { n \<leftarrow> node_at s node; Some (Some (node_value n)) }) }"

text \<open>Both bounds keep the last node they went left from.\<close>

partial_function (option) lower_loop ::
  "('k \<Rightarrow> 'k \<Rightarrow> int) \<Rightarrow> ('v \<Rightarrow> 'k) \<Rightarrow> 'v avl \<Rightarrow> 'k \<Rightarrow> ptr \<Rightarrow> ptr \<Rightarrow> ptr option" where
  [code]: "lower_loop cmp gk s k node track =
     (if node = nullptr then Some track
      else do {
        n \<leftarrow> node_at s node;
        (if cmp (gk (node_value n)) k \<ge> 0 then lower_loop cmp gk s k (left n) node
         else lower_loop cmp gk s k (right n) track) })"

definition LowerBound :: "('k \<Rightarrow> 'k \<Rightarrow> int) \<Rightarrow> ('v \<Rightarrow> 'k) \<Rightarrow> 'v avl \<Rightarrow> 'k \<Rightarrow> ptr option" where
  "LowerBound cmp gk s k = lower_loop cmp gk s k (root s) nullptr"

partial_function (option) upper_loop ::
  "('k \<Rightarrow> 'k \<Rightarrow> int) \<Rightarrow> ('v \<Rightarrow> 'k) \<Rightarrow> 'v avl \<Rightarrow> 'k \<Rightarrow> ptr \<Rightarrow> ptr \<Rightarrow> ptr option" where
  [code]: "upper_loop cmp gk s k node track =
     (if node = nullptr then Some track
      else do {
        n \<leftarrow> node_at s node;
        (if cmp (gk (node_value n)) k > 0 then upper_loop cmp gk s k (left n) node
         else upper_loop cmp gk s k (right n) track) })"

definition UpperBound :: "('k \<Rightarrow> 'k \<Rightarrow> int) \<Rightarrow> ('v \<Rightarrow> 'k) \<Rightarrow> 'v avl \<Rightarrow> 'k \<Rightarrow> ptr option" where
  "UpperBound cmp gk s k = upper_loop cmp gk s k (root s) nullptr"

section \<open>Insertion\<close>

text \<open>
  The descent of the insertions: the node of a known key, or the empty slot for a new key with
  the node above it.
\<close>

partial_function (option) slot_search ::
  "('k \<Rightarrow> 'k \<Rightarrow> int) \<Rightarrow> ('v \<Rightarrow> 'k) \<Rightarrow> 'v avl \<Rightarrow> 'k \<Rightarrow> ptr \<Rightarrow> slot_ref \<Rightarrow> (ptr \<times> slot_ref + ptr) option" where
  [code]: "slot_search cmp gk s k par slot = do {
     p \<leftarrow> read_slot s slot;
     (if p = nullptr then Some (Inl (par, slot))
      else do {
        n \<leftarrow> node_at s p;
        let res = cmp (gk (node_value n)) k;
        (if res > 0 then slot_search cmp gk s k p (Left_slot p)
         else if res < 0 then slot_search cmp gk s k p (Right_slot p)
         else Some (Inr p)) }) }"

text \<open>Linking the node to the slot and repairing the tree from the node above.\<close>

definition link_and_fix :: "'v avl \<Rightarrow> ptr \<Rightarrow> slot_ref \<Rightarrow> ptr \<Rightarrow> 'v avl option" where
  "link_and_fix s node slot par = do {
     s \<leftarrow> LinkSlot s slot node par;
     s \<leftarrow> InsertFixup s par;
     Some (IncreaseCount s) }"

definition report :: "bool \<Rightarrow> ptr \<Rightarrow> ptr option" where
  "report want p = (if want then Some p else None)"

text \<open>
  A second node is linked without \<open>IncreaseCount\<close>. For a known key in a tree of one node the
  address of the duplicate is taken through a slot that is still null.
\<close>

definition avl_PushWithDuplicate ::
  "('k \<Rightarrow> 'k \<Rightarrow> int) \<Rightarrow> ('v \<Rightarrow> 'k) \<Rightarrow> 'v avl \<Rightarrow> ptr \<Rightarrow> bool \<Rightarrow> ((bool \<times> ptr option) \<times> 'v avl) option" where
  "avl_PushWithDuplicate cmp gk s node want =
     (if root s = nullptr then Some ((True, report want node), IncreaseCount (s\<lparr>root := node\<rparr>))
      else do {
        r \<leftarrow> node_at s (root s);
        n \<leftarrow> node_at s node;
        (if left r = nullptr \<and> right r = nullptr then
           (let res = cmp (gk (node_value n)) (gk (node_value r)) in
            if res = 0 then (if want then None else Some ((False, None), s))
            else do {
              s \<leftarrow> write_slot s (if res > 0 then Right_slot (root s) else Left_slot (root s)) node;
              s \<leftarrow> upd s node (\<lambda>n. n\<lparr>parent := root s\<rparr>);
              Some ((True, report want node), s) })
         else do {
           place \<leftarrow> slot_search cmp gk s (gk (node_value n)) nullptr Root_slot;
           (case place of
              Inr p \<Rightarrow> Some ((False, report want p), s)
            | Inl (par, slot) \<Rightarrow> do {
                s \<leftarrow> link_and_fix s node slot par;
                Some ((True, report want node), s) }) }) })"

definition avl_Push :: "('k \<Rightarrow> 'k \<Rightarrow> int) \<Rightarrow> ('v \<Rightarrow> 'k) \<Rightarrow> 'v avl \<Rightarrow> ptr \<Rightarrow> (bool \<times> 'v avl) option" where
  "avl_Push cmp gk s node = do { ((b, _), s) \<leftarrow> avl_PushWithDuplicate cmp gk s node False; Some (b, s) }"

definition avl_InsertWithDuplicate ::
  "('k \<Rightarrow> 'k \<Rightarrow> int) \<Rightarrow> ('v \<Rightarrow> 'k) \<Rightarrow> 'v avl \<Rightarrow> ptr \<Rightarrow> 'v \<Rightarrow> bool \<Rightarrow> ((bool \<times> ptr option) \<times> 'v avl) option" where
  "avl_InsertWithDuplicate cmp gk s fresh v want =
     (if root s = nullptr then do {
        s \<leftarrow> avl_CreateNode s fresh v;
        Some ((True, report want fresh), IncreaseCount (s\<lparr>root := fresh\<rparr>)) }
      else do {
        r \<leftarrow> node_at s (root s);
        (if left r = nullptr \<and> right r = nullptr then
           (let res = cmp (gk v) (gk (node_value r)) in
            if res = 0 then Some ((False, report want (root s)), s)
            else do {
              s \<leftarrow> avl_CreateNode s fresh v;
              s \<leftarrow> write_slot s (if res > 0 then Right_slot (root s) else Left_slot (root s)) fresh;
              s \<leftarrow> upd s fresh (\<lambda>n. n\<lparr>parent := root s\<rparr>);
              Some ((True, report want fresh), s) })
         else do {
           place \<leftarrow> slot_search cmp gk s (gk v) nullptr Root_slot;
           (case place of
              Inr p \<Rightarrow> Some ((False, report want p), s)
            | Inl (par, slot) \<Rightarrow> do {
                s \<leftarrow> avl_CreateNode s fresh v;
                s \<leftarrow> link_and_fix s fresh slot par;
                Some ((True, report want fresh), s) }) }) })"

definition avl_Insert :: "('k \<Rightarrow> 'k \<Rightarrow> int) \<Rightarrow> ('v \<Rightarrow> 'k) \<Rightarrow> 'v avl \<Rightarrow> ptr \<Rightarrow> 'v \<Rightarrow> (bool \<times> 'v avl) option" where
  "avl_Insert cmp gk s fresh v = do { ((b, _), s) \<leftarrow> avl_InsertWithDuplicate cmp gk s fresh v False; Some (b, s) }"

text \<open>Insertion next to equal keys goes to the lower subtree.\<close>

partial_function (option) slot_search_eq ::
  "('k \<Rightarrow> 'k \<Rightarrow> int) \<Rightarrow> ('v \<Rightarrow> 'k) \<Rightarrow> 'v avl \<Rightarrow> 'k \<Rightarrow> ptr \<Rightarrow> slot_ref \<Rightarrow> (ptr \<times> slot_ref) option" where
  [code]: "slot_search_eq cmp gk s k par slot = do {
     p \<leftarrow> read_slot s slot;
     (if p = nullptr then Some (par, slot)
      else do {
        n \<leftarrow> node_at s p;
        let res = cmp (gk (node_value n)) k;
        (if res > 0 then slot_search_eq cmp gk s k p (Left_slot p)
         else if res < 0 then slot_search_eq cmp gk s k p (Right_slot p)
         else do {
           lh \<leftarrow> LEFT_HEIGHT s p;
           rh \<leftarrow> RIGHT_HEIGHT s p;
           (if lh < rh then slot_search_eq cmp gk s k p (Left_slot p)
            else slot_search_eq cmp gk s k p (Right_slot p)) }) }) }"

definition avl_PushEq :: "('k \<Rightarrow> 'k \<Rightarrow> int) \<Rightarrow> ('v \<Rightarrow> 'k) \<Rightarrow> 'v avl \<Rightarrow> ptr \<Rightarrow> 'v avl option" where
  "avl_PushEq cmp gk s node =
     (if root s = nullptr then Some (IncreaseCount (s\<lparr>root := node\<rparr>))
      else do {
        n \<leftarrow> node_at s node;
        (par, slot) \<leftarrow> slot_search_eq cmp gk s (gk (node_value n)) nullptr Root_slot;
        link_and_fix s node slot par })"

definition avl_InsertEq :: "('k \<Rightarrow> 'k \<Rightarrow> int) \<Rightarrow> ('v \<Rightarrow> 'k) \<Rightarrow> 'v avl \<Rightarrow> ptr \<Rightarrow> 'v \<Rightarrow> 'v avl option" where
  "avl_InsertEq cmp gk s fresh v = do { s \<leftarrow> avl_CreateNode s fresh v; avl_PushEq cmp gk s fresh }"

section \<open>Removal\<close>

definition isolate :: "'v AvlNode \<Rightarrow> 'v AvlNode" where
  "isolate n = n\<lparr>parent := nullptr, left := nullptr, right := nullptr\<rparr>"

definition avl_Extract :: "('k \<Rightarrow> 'k \<Rightarrow> int) \<Rightarrow> ('v \<Rightarrow> 'k) \<Rightarrow> 'v avl \<Rightarrow> 'k \<Rightarrow> (ptr \<times> 'v avl) option" where
  "avl_Extract cmp gk s k = do {
     node \<leftarrow> avl_FindNode cmp gk s k;
     (if node = nullptr then Some (nullptr, s)
      else do {
        s \<leftarrow> Avl_Erase s node;
        s \<leftarrow> upd (DecreaseCount s) node isolate;
        Some (node, s) }) }"

text \<open>
  \<open>Extract()\<close> without a key takes the root out and hangs one subtree below the other, without
  repair, parent pointer or count.
\<close>

partial_function (option) rightmost_link :: "'v avl \<Rightarrow> ptr \<Rightarrow> ptr option" where
  [code]: "rightmost_link s p = do {
     n \<leftarrow> node_at s p;
     (if right n = nullptr then Some p else rightmost_link s (right n)) }"

partial_function (option) leftmost_link :: "'v avl \<Rightarrow> ptr \<Rightarrow> ptr option" where
  [code]: "leftmost_link s p = do {
     n \<leftarrow> node_at s p;
     (if left n = nullptr then Some p else leftmost_link s (left n)) }"

definition avl_ExtractRoot :: "'v avl \<Rightarrow> (ptr \<times> 'v avl) option" where
  "avl_ExtractRoot s =
     (let ret = root s in
      if ret = nullptr then Some (nullptr, s)
      else do {
        r \<leftarrow> node_at s ret;
        (if left r = nullptr \<and> right r = nullptr then
           (if parent r = nullptr then Some (ret, s\<lparr>root := nullptr\<rparr>) else None)
         else do {
           s \<leftarrow> (if left r \<noteq> nullptr then do {
                   p \<leftarrow> rightmost_link s (left r);
                   upd (s\<lparr>root := left r\<rparr>) p (\<lambda>n. n\<lparr>right := right r\<rparr>) }
                 else do {
                   p \<leftarrow> leftmost_link s (right r);
                   upd (s\<lparr>root := right r\<rparr>) p (\<lambda>n. n\<lparr>left := left r\<rparr>) });
           s \<leftarrow> upd s (root s) (\<lambda>n. n\<lparr>parent := nullptr\<rparr>);
           s \<leftarrow> upd s ret isolate;
           Some (ret, s) }) })"

definition EraseRoutine :: "'v avl \<Rightarrow> ptr \<Rightarrow> 'v avl option" where
  "EraseRoutine s node = do {
     s \<leftarrow> Avl_Erase s node;
     h \<leftarrow> avl_DropNode (nodes s) node;
     Some (DecreaseCount (s\<lparr>nodes := h\<rparr>)) }"

definition avl_EraseKey :: "('k \<Rightarrow> 'k \<Rightarrow> int) \<Rightarrow> ('v \<Rightarrow> 'k) \<Rightarrow> 'v avl \<Rightarrow> 'k \<Rightarrow> (bool \<times> 'v avl) option" where
  "avl_EraseKey cmp gk s k = do {
     node \<leftarrow> avl_FindNode cmp gk s k;
     (if node = nullptr then Some (False, s)
      else do { s \<leftarrow> EraseRoutine s node; Some (True, s) }) }"

definition avl_EraseNode :: "'v avl \<Rightarrow> ptr \<Rightarrow> (bool \<times> 'v avl) option" where
  "avl_EraseNode s node =
     (if node = nullptr then Some (False, s)
      else do { s \<leftarrow> EraseRoutine s node; Some (True, s) })"

text \<open>Erasure with a predicate: the loop reads the next node without a test for the end.\<close>

partial_function (option) erase_if_loop ::
  "('k \<Rightarrow> 'k \<Rightarrow> int) \<Rightarrow> ('v \<Rightarrow> 'k) \<Rightarrow> ('v \<Rightarrow> bool) \<Rightarrow> 'v avl \<Rightarrow> 'k \<Rightarrow> ptr \<Rightarrow> (bool \<times> 'v avl) option" where
  [code]: "erase_if_loop cmp gk pred s k node = do {
     n \<leftarrow> node_at s node;
     (if pred (node_value n) then do { s \<leftarrow> EraseRoutine s node; Some (True, s) }
      else do {
        node \<leftarrow> GetNextNode s node;
        m \<leftarrow> node_at s node;
        (if cmp (gk (node_value m)) k \<noteq> 0 then Some (False, s) else erase_if_loop cmp gk pred s k node) }) }"

definition avl_EraseIf ::
  "('k \<Rightarrow> 'k \<Rightarrow> int) \<Rightarrow> ('v \<Rightarrow> 'k) \<Rightarrow> ('v \<Rightarrow> bool) \<Rightarrow> 'v avl \<Rightarrow> 'k \<Rightarrow> (bool \<times> 'v avl) option" where
  "avl_EraseIf cmp gk pred s k = do {
     node \<leftarrow> avl_FindNode cmp gk s k;
     (if node = nullptr then Some (False, s) else erase_if_loop cmp gk pred s k node) }"

section \<open>All nodes\<close>

text \<open>
  \<open>ReuseAllNodes\<close> takes the leaves off one by one, in post-order, with the links and the height
  cleared, and hands them to a callback, which may free them or put them in another tree: it maps
  the heap and a state of its own.
\<close>

partial_function (option) reuse_loop ::
  "(ptr \<Rightarrow> 'v AvlNode heap \<Rightarrow> 'x \<Rightarrow> ('v AvlNode heap \<times> 'x) option) \<Rightarrow> 'v AvlNode heap \<Rightarrow> 'x \<Rightarrow> ptr
    \<Rightarrow> ('v AvlNode heap \<times> 'x) option" where
  [code]: "reuse_loop cb h x node =
     (if node = nullptr then Some (h, x)
      else do {
        n \<leftarrow> deref h node;
        (if left n \<noteq> nullptr then reuse_loop cb h x (left n)
         else if right n \<noteq> nullptr then reuse_loop cb h x (right n)
         else do {
           h \<leftarrow> store h node (\<lambda>n. (isolate n)\<lparr>height := 0\<rparr>);
           (if parent n = nullptr then cb node h x
            else do {
              p \<leftarrow> deref h (parent n);
              h \<leftarrow> store h (parent n) (\<lambda>p. if left p = node then p\<lparr>left := nullptr\<rparr> else p\<lparr>right := nullptr\<rparr>);
              (h, x) \<leftarrow> cb node h x;
              reuse_loop cb h x (parent n) }) }) })"

definition ReuseAllNodes ::
  "(ptr \<Rightarrow> 'v AvlNode heap \<Rightarrow> 'x \<Rightarrow> ('v AvlNode heap \<times> 'x) option) \<Rightarrow> 'v avl \<Rightarrow> 'x \<Rightarrow> ('x \<times> 'v avl) option" where
  "ReuseAllNodes cb s x = do {
     (h, x) \<leftarrow> reuse_loop cb (nodes s) x (root s);
     Some (x, SetCount 0 (s\<lparr>nodes := h, root := nullptr\<rparr>)) }"

definition avl_Clear :: "'v avl \<Rightarrow> 'v avl option" where
  "avl_Clear s = do {
     (_, s) \<leftarrow> ReuseAllNodes (\<lambda>node h x. do { h \<leftarrow> avl_DropNode h node; Some (h, x) }) s ();
     Some s }"

definition avl_destroy :: "'v avl \<Rightarrow> 'v AvlNode heap option" where
  "avl_destroy s = do { s \<leftarrow> avl_Clear s; Some (nodes s) }"

definition avl_ClearApply :: "('v \<Rightarrow> 'x \<Rightarrow> 'x) \<Rightarrow> 'v avl \<Rightarrow> 'x \<Rightarrow> ('x \<times> 'v avl) option" where
  "avl_ClearApply cb s x =
     ReuseAllNodes (\<lambda>node h x. do { n \<leftarrow> deref h node; h \<leftarrow> avl_DropNode h node; Some (h, cb (node_value n) x) }) s x"

text \<open>\<open>DoInAll\<close>: an in-order walk with a stack of the nodes whose left subtree is being walked.\<close>

partial_function (option) push_left :: "'v avl \<Rightarrow> ptr \<Rightarrow> ptr list \<Rightarrow> ptr list option" where
  [code]: "push_left s r stack =
     (if r = nullptr then Some stack
      else do { n \<leftarrow> node_at s r; push_left s (left n) (r # stack) })"

partial_function (option) do_in_all :: "('v \<Rightarrow> 'x \<Rightarrow> 'x) \<Rightarrow> 'v avl \<Rightarrow> ptr \<Rightarrow> ptr list \<Rightarrow> 'x \<Rightarrow> 'x option" where
  [code]: "do_in_all cb s r stack x =
     (if r = nullptr \<and> stack = [] then Some x
      else do {
        stack \<leftarrow> push_left s r stack;
        (case stack of
           [] \<Rightarrow> None
         | t # stack \<Rightarrow> do { n \<leftarrow> node_at s t; do_in_all cb s (right n) stack (cb (node_value n) x) }) })"

definition DoInAll :: "('v \<Rightarrow> 'x \<Rightarrow> 'x) \<Rightarrow> 'v avl \<Rightarrow> 'x \<Rightarrow> 'x option" where
  "DoInAll cb s x = do_in_all cb s (root s) [] x"

section \<open>Iterators\<close>

text \<open>An iterator is a node; \<open>end()\<close> is \<open>nullptr\<close>.\<close>

definition avl_begin :: "'v avl \<Rightarrow> ptr option" where "avl_begin s = GetFirstNode s (root s)"
definition avl_end :: ptr where "avl_end = nullptr"
definition avl_before_end :: "'v avl \<Rightarrow> ptr option" where "avl_before_end s = GetLastNode s (root s)"

definition avl_iter_deref :: "'v avl \<Rightarrow> ptr \<Rightarrow> 'v option" where
  "avl_iter_deref s it = do { n \<leftarrow> node_at s it; Some (node_value n) }"

definition avl_iter_eq :: "ptr \<Rightarrow> ptr \<Rightarrow> bool" where
  "avl_iter_eq x y \<longleftrightarrow> x = y"

definition avl_iter_Increment :: "'v avl \<Rightarrow> ptr \<Rightarrow> ptr option" where
  "avl_iter_Increment s it = GetNextNode s it"

definition avl_iter_Decrement :: "'v avl \<Rightarrow> ptr \<Rightarrow> ptr option" where
  "avl_iter_Decrement s it = GetPrevNode s it"

text \<open>The operators: the prefix forms return the iterator they moved, the postfix forms the old one.\<close>

definition avl_iter_preincr :: "'v avl \<Rightarrow> ptr \<Rightarrow> (ptr \<times> ptr) option" where
  "avl_iter_preincr s it = do { it \<leftarrow> avl_iter_Increment s it; Some (it, it) }"

definition avl_iter_predecr :: "'v avl \<Rightarrow> ptr \<Rightarrow> (ptr \<times> ptr) option" where
  "avl_iter_predecr s it = do { it \<leftarrow> avl_iter_Decrement s it; Some (it, it) }"

definition avl_iter_postincr :: "'v avl \<Rightarrow> ptr \<Rightarrow> (ptr \<times> ptr) option" where
  "avl_iter_postincr s it = (let ret = it in do { it \<leftarrow> avl_iter_Increment s it; Some (ret, it) })"

definition avl_iter_postdecr :: "'v avl \<Rightarrow> ptr \<Rightarrow> (ptr \<times> ptr) option" where
  "avl_iter_postdecr s it = (let ret = it in do { it \<leftarrow> avl_iter_Decrement s it; Some (ret, it) })"

partial_function (option) avl_for_each :: "'v avl \<Rightarrow> ptr \<Rightarrow> ('v \<Rightarrow> 'x \<Rightarrow> 'x) \<Rightarrow> 'x \<Rightarrow> 'x option" where
  [code]: "avl_for_each s it cb x =
     (if avl_iter_eq it avl_end then Some x
      else do {
        v \<leftarrow> avl_iter_deref s it;
        it \<leftarrow> avl_iter_Increment s it;
        avl_for_each s it cb (cb v x) })"

section \<open>The checker\<close>

text \<open>\<open>CalculateHeight\<close> and \<open>VerifyAvlProperties\<close>, which the debug build compiles; the messages are left out.\<close>

partial_function (option) CalculateHeight :: "'v avl \<Rightarrow> ptr \<Rightarrow> int option" where
  [code]: "CalculateHeight s node =
     (if node = nullptr then Some 0
      else do {
        n \<leftarrow> node_at s node;
        lh \<leftarrow> CalculateHeight s (left n);
        rh \<leftarrow> CalculateHeight s (right n);
        Some (1 + (if lh < rh then rh else lh)) })"

definition Height :: "'v avl \<Rightarrow> int option" where
  "Height s = CalculateHeight s (root s)"

definition verify_node :: "('k \<Rightarrow> 'k \<Rightarrow> int) \<Rightarrow> ('v \<Rightarrow> 'k) \<Rightarrow> 'v avl \<Rightarrow> ptr \<Rightarrow> bool option" where
  "verify_node cmp gk s node = do {
     n \<leftarrow> node_at s node;
     l \<leftarrow> (if left n = nullptr then Some True
           else do { m \<leftarrow> node_at s (left n); Some (\<not> cmp (gk (node_value m)) (gk (node_value n)) \<ge> 0) });
     r \<leftarrow> (if right n = nullptr then Some True
           else do { m \<leftarrow> node_at s (right n); Some (\<not> cmp (gk (node_value m)) (gk (node_value n)) \<le> 0) });
     lh \<leftarrow> CalculateHeight s (left n);
     rh \<leftarrow> CalculateHeight s (right n);
     Some (l \<and> r \<and> \<not> (lh - rh \<ge> 2 \<or> lh - rh \<le> - 2)) }"

partial_function (option) verify_loop ::
  "('k \<Rightarrow> 'k \<Rightarrow> int) \<Rightarrow> ('v \<Rightarrow> 'k) \<Rightarrow> 'v avl \<Rightarrow> ptr \<Rightarrow> bool \<Rightarrow> bool option" where
  [code]: "verify_loop cmp gk s node ret =
     (if node = nullptr then Some ret
      else do {
        ok \<leftarrow> verify_node cmp gk s node;
        node \<leftarrow> GetNextNode s node;
        verify_loop cmp gk s node (ret \<and> ok) })"

definition VerifyAvlProperties :: "('k \<Rightarrow> 'k \<Rightarrow> int) \<Rightarrow> ('v \<Rightarrow> 'k) \<Rightarrow> 'v avl \<Rightarrow> bool option" where
  "VerifyAvlProperties cmp gk s = do {
     node \<leftarrow> GetFirstNode s (root s);
     verify_loop cmp gk s node True }"

end
