(* ===== verification/Avl_Tree_Refine.thy ===== *)
theory Avl_Tree_Refine
  imports Avl_Tree_Base
begin

text \<open>
  The operations of \<open>Avl_Tree_Base\<close> on a heap that holds a tree do what \<open>t_find\<close>, \<open>t_push\<close> and
  \<open>t_extract\<close> do on the tree as a value, for any comparator.
\<close>

section \<open>Keys and values of a heap\<close>

definition value_at :: "'v avl \<Rightarrow> ptr \<Rightarrow> 'v" where
  "value_at s a = node_value (the (nodes s a))"

definition kf :: "('v \<Rightarrow> 'k) \<Rightarrow> 'v avl \<Rightarrow> ptr \<Rightarrow> 'k" where
  "kf gk s a = gk (value_at s a)"

text \<open>\<open>touches\<close> without the count.\<close>

definition keeps :: "ptr set \<Rightarrow> 'v avl \<Rightarrow> 'v avl \<Rightarrow> bool" where
  "keeps A s s' \<longleftrightarrow> (\<forall>a. a \<notin> A \<longrightarrow> nodes s' a = nodes s a)
     \<and> (\<forall>a. map_option node_value (nodes s' a) = map_option node_value (nodes s a))"

lemma touches_keeps: "touches A s s' \<Longrightarrow> keeps A s s'"
  by (simp add: touches_def keeps_def)

lemma touches_count: "touches A s s' \<Longrightarrow> tree_count s' = tree_count s"
  by (simp add: touches_def)

lemma keeps_refl [simp]: "keeps A s s"
  by (simp add: keeps_def)

lemma keeps_trans: "keeps A s s' \<Longrightarrow> keeps A s' s'' \<Longrightarrow> keeps A s s''"
  by (simp add: keeps_def)

lemma keeps_mono: "keeps A s s' \<Longrightarrow> A \<subseteq> B \<Longrightarrow> keeps B s s'"
  by (auto simp: keeps_def)

lemma keeps_Count [simp]:
  "keeps A s (IncreaseCount s') = keeps A s s'" "keeps A s (DecreaseCount s') = keeps A s s'"
  "keeps A (IncreaseCount s) s' = keeps A s s'" "keeps A (DecreaseCount s) s' = keeps A s s'"
  by (simp_all add: keeps_def IncreaseCount_def DecreaseCount_def)

lemma rooted_Count [simp]: "rooted (IncreaseCount s) t = rooted s t" "rooted (DecreaseCount s) t = rooted s t"
  by (simp_all add: rooted_def place_def IncreaseCount_def DecreaseCount_def)

lemma keeps_value: "keeps A s s' \<Longrightarrow> nodes s a \<noteq> None \<Longrightarrow> value_at s' a = value_at s a"
  unfolding keeps_def value_at_def by (metis map_option_is_None option.map_sel)

lemma keeps_kf: "keeps A s s' \<Longrightarrow> nodes s a \<noteq> None \<Longrightarrow> kf gk s' a = kf gk s a"
  by (simp add: kf_def keeps_value)

lemma rooted_nodes: "rooted s t \<Longrightarrow> a \<in> set (inord t) \<Longrightarrow> a \<noteq> nullptr \<and> nodes s a \<noteq> None"
  using tree_at_nonnull by (fastforce simp: rooted_def place_def)

lemma rooted_frame:
  assumes "rooted s t" and "\<And>a. a \<in> set (inord t) \<Longrightarrow> nodes s' a = nodes s a" and "root s' = root s"
  shows "rooted s' t"
  using assms tree_at_cong [of t "nodes s'" "nodes s"] by (auto simp: rooted_def place_def)

section \<open>Search\<close>

lemma find_loop_at:
  "tree_at (nodes s) par p t \<Longrightarrow>
    find_loop cmp gk s k p = Some (case fst (descend cmp (kf gk s) k t c) of Tip \<Rightarrow> nullptr | Nd l a h r \<Rightarrow> a)"
proof (induction t arbitrary: par p c)
  case Tip
  then show ?case by (subst find_loop.simps) simp
next
  case (Nd l a h r)
  then obtain n where n: "p = a" "a \<noteq> nullptr" "nodes s a = Some n" "tree_at (nodes s) a (left n) l" "tree_at (nodes s) a (right n) r"
    by auto
  then have k: "kf gk s a = gk (node_value n)" by (simp add: kf_def value_at_def)
  show ?case using n k Nd.IH(1) [OF n(4), of "InLeft a h r # c"] Nd.IH(2) [OF n(5), of "InRight l a h # c"]
    by (subst find_loop.simps) (simp add: node_at_some Let_def)
qed

lemma FindNode_at:
  "rooted s t \<Longrightarrow> avl_FindNode cmp gk s k = Some (case t_find cmp (kf gk s) k t of None \<Rightarrow> nullptr | Some a \<Rightarrow> a)"
  using find_loop_at [of s nullptr "root s" t cmp gk k "[]"]
  by (auto simp: avl_FindNode_def rooted_def place_def t_find_def split: atree.splits)

fun slot_of :: "ptr frame list \<Rightarrow> slot_ref" where
  "slot_of [] = Root_slot"
| "slot_of (InLeft a h r # c) = Left_slot a"
| "slot_of (InRight l a h # c) = Right_slot a"

lemma read_slot_at: "place s par p t c \<Longrightarrow> read_slot s (slot_of c) = Some p"
  by (cases c rule: slot_of.cases) (auto simp: place_def read_slot_def node_at_some)

lemma slot_search_at:
  "place s par p t c \<Longrightarrow> descend cmp (kf gk s) k t c = (t', c') \<Longrightarrow>
    slot_search cmp gk s k par (slot_of c) = Some (case t' of Tip \<Rightarrow> Inl (ctx_par c', slot_of c') | Nd l a h r \<Rightarrow> Inr a)
    \<and> (\<exists>p'. place s (ctx_par c') p' t' c')"
proof (induction t arbitrary: par p c)
  case Tip
  then show ?case using read_slot_at [OF Tip(1)] place_par [OF Tip(1)]
    by (subst slot_search.simps) (auto simp: place_def)
next
  case (Nd l a h r)
  from place_node [OF Nd.prems(1)] obtain n where n: "p = a" "a \<noteq> nullptr" "node_at s a = Some n" "nodes s a = Some n"
    "place s a (left n) l (InLeft a h r # c)" "place s a (right n) r (InRight l a h # c)" by blast
  then have k: "kf gk s a = gk (node_value n)" by (simp add: kf_def value_at_def)
  note rs = read_slot_at [OF Nd.prems(1)]
  consider "cmp (gk (node_value n)) k > 0" | "cmp (gk (node_value n)) k < 0" | "cmp (gk (node_value n)) k = 0" by linarith
  then show ?case
  proof cases
    case 1
    then show ?thesis using n k rs Nd.IH(1) [OF n(5)] Nd.prems(2)
      by (subst slot_search.simps) (simp add: Let_def)
  next
    case 2
    then show ?thesis using n k rs Nd.IH(2) [OF n(6)] Nd.prems(2)
      by (subst slot_search.simps) (simp add: Let_def)
  next
    case 3
    then show ?thesis using n k rs Nd.prems place_par [OF Nd.prems(1)]
      by (subst slot_search.simps) (auto simp: Let_def)
  qed
qed

lemma descend_cong:
  "(\<And>a. a \<in> set (inord t) \<Longrightarrow> kf' a = kf0 a) \<Longrightarrow> descend cmp kf' k t c = descend cmp kf0 k t c"
  by (induction t arbitrary: c) auto

lemma t_find_cong: "(\<And>a. a \<in> set (inord t) \<Longrightarrow> kf' a = kf0 a) \<Longrightarrow> t_find cmp kf' k t = t_find cmp kf0 k t"
  unfolding t_find_def by (subst descend_cong [of t kf' kf0]) auto

section \<open>Insertion\<close>

lemma write_slot_at:
  assumes "place s par p t c"
  shows "\<exists>s'. write_slot s (slot_of c) q = Some s' \<and> ctx_at (nodes s') (root s') par q c
    \<and> (\<forall>a. a \<notin> ctx_addrs c \<longrightarrow> nodes s' a = nodes s a)
    \<and> (\<forall>a. map_option node_value (nodes s' a) = map_option node_value (nodes s a)) \<and> tree_count s' = tree_count s"
  using assms distinct_atD(2) [of t c]
  by (cases c rule: slot_of.cases) (auto simp: place_def write_slot_def upd_some ctx_addrs_def)

text \<open>A single node linked to an empty place.\<close>

lemma LinkSlot_at:
  assumes pl: "place s par p Tip c" and n: "q \<noteq> nullptr" "q \<notin> ctx_addrs c" "nodes s q = Some n" "left n = nullptr" "right n = nullptr"
  shows "\<exists>s'. LinkSlot s (slot_of c) q par = Some s' \<and> place s' par q (Nd Tip q (height n) Tip) c
    \<and> touches (insert q (ctx_addrs c)) s s'"
proof -
  from write_slot_at [OF pl, of q] obtain s1 where s1: "write_slot s (slot_of c) q = Some s1" "ctx_at (nodes s1) (root s1) par q c"
    "\<And>a. a \<notin> ctx_addrs c \<Longrightarrow> nodes s1 a = nodes s a"
    "\<And>a. map_option node_value (nodes s1 a) = map_option node_value (nodes s a)" "tree_count s1 = tree_count s" by auto
  have q: "nodes s1 q = Some n" using s1(3) n(2,3) by simp
  let ?s2 = "s1\<lparr>nodes := (nodes s1)(q \<mapsto> n\<lparr>parent := par\<rparr>)\<rparr>"
  have "distinct_at (Nd Tip q (height n) Tip) c"
    using pl n(2) by (auto simp: place_def distinct_at_def inord_plug ctx_addrs_def)
  then have "place ?s2 par q (Nd Tip q (height n) Tip) c" using s1(2) n by (simp add: place_def)
  moreover have "LinkSlot s (slot_of c) q par = Some ?s2" using s1(1) q n(1) by (simp add: LinkSlot_def upd_some)
  moreover have "touches (insert q (ctx_addrs c)) s ?s2" using s1(3-5) q n(3) by (auto simp: touches_def)
  ultimately show ?thesis by blast
qed

lemma link_and_fix_at:
  assumes pl: "place s par p Tip c" and nn: "nn (plug Tip c)"
    and n: "q \<noteq> nullptr" "q \<notin> ctx_addrs c" "nodes s q = Some n" "left n = nullptr" "right n = nullptr" "0 \<le> height n"
  shows "\<exists>s'. link_and_fix s q (slot_of c) par = Some s' \<and> rooted s' (attach (Nd Tip q (height n) Tip) c)
    \<and> keeps (insert q (ctx_addrs c)) s s' \<and> tree_count s' = tree_count s + 1"
proof -
  from LinkSlot_at [OF pl n(1-5)] obtain s1 where s1: "LinkSlot s (slot_of c) q par = Some s1"
    "place s1 par q (Nd Tip q (height n) Tip) c" "touches (insert q (ctx_addrs c)) s s1" by blast
  have par: "par = ctx_par c" using pl by (rule place_par)
  have "\<exists>s2. InsertFixup s1 par = Some s2 \<and> rooted s2 (attach (Nd Tip q (height n) Tip) c) \<and> touches (insert q (ctx_addrs c)) s1 s2"
  proof (cases c)
    case Nil
    then show ?thesis using par place_rooted [OF s1(2)] by (simp add: attach_def)
  next
    case (Cons f c')
    have "nn (plug (plug1 (Nd Tip q (height n) Tip) f) c')" using nn n(6) Cons by simp
    from InsertFixup_at [OF place_up_par [OF s1(2) [unfolded Cons]] _ this] show ?thesis
      unfolding addrs_plug1 using Cons by (simp add: attach_def addrs_def)
  qed
  then obtain s2 where s2: "InsertFixup s1 par = Some s2" "rooted s2 (attach (Nd Tip q (height n) Tip) c)"
    "touches (insert q (ctx_addrs c)) s1 s2" by blast
  have "touches (insert q (ctx_addrs c)) s s2" using s1(3) s2(3) by (rule touches_trans)
  then show ?thesis using s1(1) s2(1,2)
    by (auto simp: link_and_fix_def touches_keeps) (simp add: IncreaseCount_def touches_def)
qed

text \<open>A second node beside the root.\<close>

lemma second_node_at:
  assumes rt: "rooted s (Nd Tip a h Tip)" and n: "q \<noteq> nullptr" "q \<noteq> a" "nodes s q = Some n" "left n = nullptr" "right n = nullptr"
  shows "\<exists>s'. (do { s \<leftarrow> write_slot s (if b then Right_slot (root s) else Left_slot (root s)) q; upd s q (\<lambda>n. n\<lparr>parent := root s\<rparr>) }) = Some s'
    \<and> rooted s' (if b then Nd Tip a h (Nd Tip q (height n) Tip) else Nd (Nd Tip q (height n) Tip) a h Tip)
    \<and> keeps {a, q} s s' \<and> tree_count s' = tree_count s"
proof -
  from rt obtain m where m: "root s = a" "a \<noteq> nullptr" "nodes s a = Some m" "parent m = nullptr" "height m = h"
    "left m = nullptr" "right m = nullptr" by (auto simp: rooted_def place_def)
  let ?m = "if b then m\<lparr>right := q\<rparr> else m\<lparr>left := q\<rparr>"
  let ?s = "s\<lparr>nodes := (nodes s)(a \<mapsto> ?m, q \<mapsto> n\<lparr>parent := a\<rparr>)\<rparr>"
  have "(do { s \<leftarrow> write_slot s (if b then Right_slot (root s) else Left_slot (root s)) q; upd s q (\<lambda>n. n\<lparr>parent := root s\<rparr>) }) = Some ?s"
    using m n by (simp add: write_slot_def upd_some)
  moreover have "rooted ?s (if b then Nd Tip a h (Nd Tip q (height n) Tip) else Nd (Nd Tip q (height n) Tip) a h Tip)"
    using m n by (auto simp: rooted_def place_def distinct_at_def)
  moreover have "keeps {a, q} s ?s" using m n by (auto simp: keeps_def)
  ultimately show ?thesis by auto
qed

lemma rooted_Tip: "rooted s Tip \<longleftrightarrow> root s = nullptr"
  by (auto simp: rooted_def place_def distinct_at_def)

lemma rooted_Nd:
  assumes "rooted s (Nd l a h r)"
  obtains n where "root s = a" "a \<noteq> nullptr" "node_at s a = Some n" "nodes s a = Some n"
    "left n = nullptr \<longleftrightarrow> l = Tip" "right n = nullptr \<longleftrightarrow> r = Tip"
proof -
  from assms obtain n where n: "root s = a" "a \<noteq> nullptr" "nodes s a = Some n"
    "tree_at (nodes s) a (left n) l" "tree_at (nodes s) a (right n) r" by (auto simp: rooted_def place_def)
  have "left n = nullptr \<longleftrightarrow> l = Tip" "right n = nullptr \<longleftrightarrow> r = Tip"
    using n(4,5) tree_at_not_Tip [OF n(4)] tree_at_not_Tip [OF n(5)] by auto
  then show thesis using that n by (simp add: node_at_some)
qed

definition single :: "'n atree \<Rightarrow> bool" where
  "single t \<longleftrightarrow> (\<exists>a h. t = Nd Tip a h Tip)"

lemma single_Nd [simp]: "single (Nd l a h r) \<longleftrightarrow> l = Tip \<and> r = Tip" "\<not> single Tip"
  by (auto simp: single_def)

text \<open>What the insertions have in common: the tree they leave and the count.\<close>

definition pushed :: "'v avl \<Rightarrow> ptr \<Rightarrow> ptr atree \<Rightarrow> bool \<Rightarrow> ptr atree \<Rightarrow> 'v avl \<Rightarrow> bool" where
  "pushed s q t b t' s' \<longleftrightarrow> rooted s' t' \<and> keeps (insert q (set (inord t))) s s'
     \<and> tree_count s' = tree_count s + (if b \<and> \<not> single t then 1 else 0) \<and> (b \<or> s' = s)"

lemma push_empty_at:
  assumes "rooted s Tip" and "q \<noteq> nullptr" "nodes s q = Some n" "left n = nullptr" "right n = nullptr" "parent n = nullptr"
  shows "pushed s q Tip True (Nd Tip q (height n) Tip) (IncreaseCount (s\<lparr>root := q\<rparr>))"
  using assms by (auto simp: pushed_def rooted_def place_def distinct_at_def keeps_def IncreaseCount_def)

lemma push_slot_at:
  assumes rt: "rooted s t" and nn: "nn t" and n: "q \<noteq> nullptr" "q \<notin> set (inord t)" "nodes s q = Some n"
    "left n = nullptr" "right n = nullptr" "0 \<le> height n" and ns: "\<not> single t" and d: "descend cmp kf0 k t [] = (Tip, c)"
    and pl: "place s (ctx_par c) p' Tip c"
  shows "\<exists>s'. link_and_fix s q (slot_of c) (ctx_par c) = Some s'
    \<and> pushed s q t True (attach (Nd Tip q (height n) Tip) c) s'"
proof -
  from descend_plug [OF d] have t: "plug Tip c = t" by simp
  then have c: "ctx_addrs c = set (inord t)" using addrs_plug [of Tip c] by (simp add: addrs_def)
  from link_and_fix_at [OF pl _ n(1) _ n(3-6)] nn n(2) show ?thesis
    unfolding t c pushed_def using ns by simp
qed

lemma PushWithDuplicate_at:
  assumes rt: "rooted s t" and nn: "nn t" and n: "q \<noteq> nullptr" "q \<notin> set (inord t)" "nodes s q = Some n"
    "left n = nullptr" "right n = nullptr" "0 \<le> height n" and root: "t = Tip \<Longrightarrow> parent n = nullptr"
    and p: "t_push cmp (kf gk s) q (height n) t = ((b, a), t')"
  shows "if \<not> b \<and> want \<and> single t then avl_PushWithDuplicate cmp gk s q want = None
    else (\<exists>s'. avl_PushWithDuplicate cmp gk s q want = Some ((b, report want a), s') \<and> pushed s q t b t' s')"
proof -
  have q: "node_at s q = Some n" "kf gk s q = gk (node_value n)" using n by (simp_all add: node_at_some kf_def value_at_def)
  show ?thesis
  proof (cases t)
    case Tip
    with push_empty_at [of s q n] rt n root p show ?thesis
      by (auto simp: avl_PushWithDuplicate_def rooted_Tip t_push_def)
  next
    case (Nd l x h r)
    obtain m where m: "root s = x" "x \<noteq> nullptr" "node_at s x = Some m" "nodes s x = Some m"
      "left m = nullptr \<longleftrightarrow> l = Tip" "right m = nullptr \<longleftrightarrow> r = Tip" by (rule rooted_Nd [OF rt [unfolded Nd]])
    have k: "kf gk s x = gk (node_value m)" using m(4) by (simp add: kf_def value_at_def)
    show ?thesis
    proof (cases "l = Tip \<and> r = Tip")
      case True
      let ?res = "cmp (gk (node_value n)) (gk (node_value m))"
      have "q \<noteq> x" using n(2) Nd by simp
      from second_node_at [OF rt [unfolded Nd True [THEN conjunct1] True [THEN conjunct2]] n(1) this n(3-5), of "?res > 0"]
      obtain s' where s': "(do { s \<leftarrow> write_slot s (if ?res > 0 then Right_slot (root s) else Left_slot (root s)) q;
          upd s q (\<lambda>n. n\<lparr>parent := root s\<rparr>) }) = Some s'"
        "rooted s' (if ?res > 0 then Nd Tip x h (Nd Tip q (height n) Tip) else Nd (Nd Tip q (height n) Tip) x h Tip)"
        "keeps {x, q} s s'" "tree_count s' = tree_count s" by blast
      from s'(1) obtain s1 where s1: "write_slot s (if ?res > 0 then Right_slot (root s) else Left_slot (root s)) q = Some s1"
        "upd s1 q (\<lambda>n. n\<lparr>parent := root s1\<rparr>) = Some s'" by (auto simp: Option.bind_eq_Some_conv)
      have e: "avl_PushWithDuplicate cmp gk s q want =
          (if ?res = 0 then (if want then None else Some ((False, None), s)) else Some ((True, report want q), s'))"
        using m q True s1 by (simp add: avl_PushWithDuplicate_def Let_def)
      show ?thesis
        using p q k True Nd s'(2-4) rt unfolding e
        by (auto simp: t_push_def pushed_def report_def insert_commute split: if_splits)
    next
      case False
      then have ns: "\<not> single t" using Nd by auto
      obtain u c where d: "descend cmp (kf gk s) (gk (node_value n)) t [] = (u, c)" by fastforce
      have "place s nullptr (root s) t []" using rt by (simp add: rooted_def)
      from slot_search_at [OF this d] have ss:
        "slot_search cmp gk s (gk (node_value n)) nullptr Root_slot = Some (case u of Tip \<Rightarrow> Inl (ctx_par c, slot_of c) | Nd l a h r \<Rightarrow> Inr a)"
        "\<exists>p'. place s (ctx_par c) p' u c" by auto
      show ?thesis
      proof (cases u)
        case Tip
        with ss(2) obtain p' where "place s (ctx_par c) p' Tip c" by auto
        from push_slot_at [OF rt nn n ns d [unfolded Tip] this] obtain s' where
          "link_and_fix s q (slot_of c) (ctx_par c) = Some s'" "pushed s q t True (attach (Nd Tip q (height n) Tip) c) s'" by blast
        moreover have "b = True" "a = q" "t' = attach (Nd Tip q (height n) Tip) c"
          using p d Tip False Nd q(2) by (auto simp: t_push_def simp del: descend.simps)
        ultimately show ?thesis using ss(1) Tip q m False Nd ns by (auto simp: avl_PushWithDuplicate_def)
      next
        case (Nd l' y h' r')
        have "b = False" "a = y" "t' = t"
          using p d Nd False \<open>t = Nd l x h r\<close> q(2) by (auto simp: t_push_def simp del: descend.simps)
        then show ?thesis using ss(1) Nd q m False ns rt by (auto simp: avl_PushWithDuplicate_def pushed_def)
      qed
    qed
  qed
qed

text \<open>Insertion creates the node only when it is linked.\<close>

definition created :: "'v avl \<Rightarrow> ptr \<Rightarrow> 'v \<Rightarrow> 'v avl" where
  "created s q v = s\<lparr>nodes := (nodes s)(q \<mapsto>
     \<lparr>parent = nullptr, left = nullptr, right = nullptr, height = 1, node_value = v\<rparr>)\<rparr>"

lemma CreateNode_created: "q \<noteq> nullptr \<Longrightarrow> avl_CreateNode s q v = Some (created s q v)"
  by (simp add: avl_CreateNode_def created_def)

lemma created_simps [simp]:
  "root (created s q v) = root s" "tree_count (created s q v) = tree_count s" "kf gk (created s q v) q = gk v"
  "a \<noteq> q \<Longrightarrow> nodes (created s q v) a = nodes s a" "a \<noteq> q \<Longrightarrow> kf gk (created s q v) a = kf gk s a"
  "value_at (created s q v) q = v"
  by (simp_all add: created_def kf_def value_at_def)

lemma created_rooted: "rooted s t \<Longrightarrow> q \<notin> set (inord t) \<Longrightarrow> rooted (created s q v) t"
  by (erule rooted_frame) (auto simp: created_def)

lemma created_place: "place s par p t c \<Longrightarrow> q \<notin> addrs t c \<Longrightarrow> place (created s q v) par p t c"
  by (simp add: place_def created_def addrs_def)

lemma InsertWithDuplicate_at:
  assumes rt: "rooted s t" and nn: "nn t" and q: "q \<noteq> nullptr" "nodes s q = None"
    and p: "t_push cmp (kf gk (created s q v)) q 1 t = ((b, a), t')"
  shows "\<exists>s'. avl_InsertWithDuplicate cmp gk s q v want = Some ((b, report want a), s')
    \<and> (if b then pushed (created s q v) q t b t' s' else s' = s \<and> t' = t)"
proof -
  let ?s = "created s q v"
  let ?n = "\<lparr>parent = nullptr, left = nullptr, right = nullptr, height = 1, node_value = v\<rparr>"
  have fresh: "q \<notin> set (inord t)" using rooted_nodes [OF rt, of q] q(2) by blast
  have nq: "nodes ?s q = Some ?n" by (simp add: created_def)
  note rt' = created_rooted [OF rt fresh, of v]
  have kfs: "\<And>x. x \<in> set (inord t) \<Longrightarrow> kf gk ?s x = kf gk s x" using fresh by (metis created_simps(5))
  show ?thesis
  proof (cases t)
    case Tip
    have "rooted ?s Tip" using rt' Tip by simp
    from push_empty_at [OF this q(1) nq] show ?thesis using rt Tip p q
      by (auto simp: avl_InsertWithDuplicate_def rooted_Tip t_push_def CreateNode_created)
  next
    case (Nd l x h r)
    obtain m where m: "root s = x" "x \<noteq> nullptr" "node_at s x = Some m" "nodes s x = Some m"
      "left m = nullptr \<longleftrightarrow> l = Tip" "right m = nullptr \<longleftrightarrow> r = Tip" by (rule rooted_Nd [OF rt [unfolded Nd]])
    have xq: "x \<noteq> q" using fresh Nd by auto
    then have k: "kf gk ?s x = gk (node_value m)" using m(4) by (simp add: kf_def value_at_def created_def)
    show ?thesis
    proof (cases "l = Tip \<and> r = Tip")
      case True
      let ?res = "cmp (gk v) (gk (node_value m))"
      have h1: "height ?n = 1" by simp
      from second_node_at [OF rt' [unfolded Nd True [THEN conjunct1] True [THEN conjunct2]] q(1) xq [symmetric] nq, of "?res > 0",
        unfolded created_simps h1]
      obtain s' where s': "(do { s \<leftarrow> write_slot ?s (if ?res > 0 then Right_slot (root s) else Left_slot (root s)) q;
          upd s q (\<lambda>n. n\<lparr>parent := root s\<rparr>) }) = Some s'"
        "rooted s' (if ?res > 0 then Nd Tip x h (Nd Tip q 1 Tip) else Nd (Nd Tip q 1 Tip) x h Tip)"
        "keeps {x, q} ?s s'" "tree_count s' = tree_count s" by auto
      from s'(1) obtain s1 where s1: "write_slot ?s (if ?res > 0 then Right_slot (root s) else Left_slot (root s)) q = Some s1"
        "upd s1 q (\<lambda>n. n\<lparr>parent := root s1\<rparr>) = Some s'" by (auto simp: Option.bind_eq_Some_conv)
      have e: "avl_InsertWithDuplicate cmp gk s q v want =
          (if ?res = 0 then Some ((False, report want x), s) else Some ((True, report want q), s'))"
        using m True s1 q by (auto simp: avl_InsertWithDuplicate_def Let_def CreateNode_created split: if_splits)
      show ?thesis
        using p k True Nd s'(2-4) unfolding e
        by (auto simp: t_push_def pushed_def insert_commute split: if_splits)
    next
      case False
      then have ns: "\<not> single t" using Nd by auto
      obtain u c where d: "descend cmp (kf gk s) (gk v) t [] = (u, c)" by fastforce
      have d': "descend cmp (kf gk ?s) (gk v) t [] = (u, c)" using d kfs descend_cong [of t "kf gk ?s" "kf gk s"] by simp
      have "place s nullptr (root s) t []" using rt by (simp add: rooted_def)
      from slot_search_at [OF this d] have ss:
        "slot_search cmp gk s (gk v) nullptr Root_slot = Some (case u of Tip \<Rightarrow> Inl (ctx_par c, slot_of c) | Nd l a h r \<Rightarrow> Inr a)"
        "\<exists>p'. place s (ctx_par c) p' u c" by auto
      show ?thesis
      proof (cases u)
        case Tip
        with ss(2) obtain p' where pl: "place s (ctx_par c) p' Tip c" by auto
        have "addrs Tip c = set (inord t)" using descend_plug [OF d] Tip addrs_plug [of Tip c] by simp
        with created_place [OF pl] fresh have "place ?s (ctx_par c) p' Tip c" by simp
        from push_slot_at [OF rt' nn q(1) fresh nq _ _ _ ns d' [unfolded Tip] this] obtain s' where
          "link_and_fix ?s q (slot_of c) (ctx_par c) = Some s'" "pushed ?s q t True (attach (Nd Tip q 1 Tip) c) s'" by auto
        moreover have "b = True" "a = q" "t' = attach (Nd Tip q 1 Tip) c"
          using p d' Tip False Nd by (auto simp: t_push_def simp del: descend.simps)
        ultimately show ?thesis using ss(1) Tip q m False Nd by (auto simp: avl_InsertWithDuplicate_def CreateNode_created)
      next
        case (Nd l' y h' r')
        have "b = False" "a = y" "t' = t"
          using p d' Nd False \<open>t = Nd l x h r\<close> by (auto simp: t_push_def simp del: descend.simps)
        then show ?thesis using ss(1) Nd m False by (auto simp: avl_InsertWithDuplicate_def)
      qed
    qed
  qed
qed

section \<open>Removal\<close>

lemma descend_place: "rooted s t \<Longrightarrow> descend cmp kf0 k t [] = (u, c) \<Longrightarrow> \<exists>p. place s (ctx_par c) p u c"
  using place_down [of s nullptr "root s" u c "[]"] descend_plug [of cmp kf0 k t "[]" u c] place_par
  by (fastforce simp: rooted_def)

lemma erase_at:
  assumes rt: "rooted s t" and nn: "nn t" and t: "t = plug (Nd l a h r) c"
  shows "\<exists>s1. Avl_Erase s a = Some s1 \<and> rooted s1 (t_erase l h r c) \<and> touches (set (inord t)) s s1
    \<and> a \<notin> set (inord (t_erase l h r c)) \<and> a \<in> set (inord t)"
proof -
  from rt t place_down [of s nullptr "root s" "Nd l a h r" c "[]"] obtain par q where "place s par q (Nd l a h r) c"
    by (auto simp: rooted_def)
  then have pl: "place s par a (Nd l a h r) c" using place_node by blast
  have A: "addrs (Nd l a h r) c = set (inord t)" unfolding t by (rule addrs_plug [symmetric])
  have "distinct (inord t)" using rt by (rule rooted_distinct)
  then have "a \<notin> set (inord (t_erase l h r c))" "a \<in> set (inord t)" unfolding t by (auto simp: inord_plug inord_t_erase)
  with Avl_Erase_at [OF pl] nn t show ?thesis unfolding A by auto
qed

lemma rooted_other:
  assumes "rooted s t" and "a \<notin> set (inord t)" and "\<And>b. b \<noteq> a \<Longrightarrow> nodes s' b = nodes s b" and "root s' = root s"
  shows "rooted s' t"
proof (rule rooted_frame [OF assms(1)])
  fix b assume "b \<in> set (inord t)"
  then have "b \<noteq> a" using assms(2) by blast
  then show "nodes s' b = nodes s b" by (rule assms(3))
qed (rule assms(4))

lemma touches_dom: "touches A s s' \<Longrightarrow> nodes s' a = None \<longleftrightarrow> nodes s a = None"
  by (metis map_option_is_None touches_def)

definition erased :: "'v avl \<Rightarrow> ptr \<Rightarrow> 'v avl \<Rightarrow> 'v avl" where
  "erased s a s1 = DecreaseCount (s1\<lparr>nodes := (nodes s1)(a := None)\<rparr>)"

lemma t_extract_descend: "t_extract cmp kf0 k t = Some (a, t') \<Longrightarrow>
    \<exists>l h r c. descend cmp kf0 k t [] = (Nd l a h r, c) \<and> t' = t_erase l h r c \<and> t = plug (Nd l a h r) c"
  using descend_plug [of cmp kf0 k t "[]"] by (force simp: t_extract_def split: prod.splits atree.splits)

lemma t_extract_find: "t_extract cmp kf0 k t = None \<longleftrightarrow> t_find cmp kf0 k t = None"
  "t_extract cmp kf0 k t = Some (a, t') \<Longrightarrow> t_find cmp kf0 k t = Some a"
  by (auto simp: t_extract_def t_find_def split: prod.splits atree.splits)

text \<open>What a removal leaves: the tree without the node, all other nodes with their values.\<close>

definition pulled :: "'v avl \<Rightarrow> ptr atree \<Rightarrow> ptr \<Rightarrow> ptr atree \<Rightarrow> 'v avl \<Rightarrow> bool" where
  "pulled s t a t' s' \<longleftrightarrow> rooted s' t' \<and> (\<forall>b. b \<notin> set (inord t) \<longrightarrow> nodes s' b = nodes s b)
     \<and> (\<forall>b. b \<noteq> a \<longrightarrow> map_option node_value (nodes s' b) = map_option node_value (nodes s b))
     \<and> tree_count s' = tree_count s - 1"

lemma pulledI:
  assumes "rooted s1 t'" and "touches (set (inord t)) s s1" and "a \<notin> set (inord t')" and "a \<in> set (inord t)"
  shows "pulled s t a t' (DecreaseCount (s1\<lparr>nodes := (nodes s1)(a := x)\<rparr>))"
proof -
  let ?s = "DecreaseCount (s1\<lparr>nodes := (nodes s1)(a := x)\<rparr>)"
  have "rooted ?s t'" using rooted_other [OF assms(1,3), of "s1\<lparr>nodes := (nodes s1)(a := x)\<rparr>"] by simp
  moreover have "nodes ?s b = nodes s b" if "b \<notin> set (inord t)" for b
  proof -
    have "b \<noteq> a" using that assms(4) by blast
    then show ?thesis using assms(2) that by (simp add: touches_def DecreaseCount_def)
  qed
  moreover have "map_option node_value (nodes ?s b) = map_option node_value (nodes s b)" if "b \<noteq> a" for b
    using assms(2) that by (simp add: touches_def DecreaseCount_def)
  moreover have "tree_count ?s = tree_count s - 1" using touches_count [OF assms(2)] by (simp add: DecreaseCount_def)
  ultimately show ?thesis by (simp add: pulled_def)
qed

lemma EraseRoutine_at:
  assumes rt: "rooted s t" and nn: "nn t" and t: "t = plug (Nd l a h r) c"
  shows "\<exists>s'. EraseRoutine s a = Some s' \<and> pulled s t a (t_erase l h r c) s' \<and> nodes s' a = None"
proof -
  from erase_at [OF assms] obtain s1 where s1: "Avl_Erase s a = Some s1" "rooted s1 (t_erase l h r c)" "touches (set (inord t)) s s1"
    "a \<notin> set (inord (t_erase l h r c))" "a \<in> set (inord t)" by blast
  have "a \<noteq> nullptr" "nodes s1 a \<noteq> None" using rooted_nodes [OF rt s1(5)] touches_dom [OF s1(3), of a] by simp_all
  then have "EraseRoutine s a = Some (DecreaseCount (s1\<lparr>nodes := (nodes s1)(a := None)\<rparr>))"
    using s1(1) by (auto simp: EraseRoutine_def avl_DropNode_def deref_def)
  moreover have "nodes (DecreaseCount (s1\<lparr>nodes := (nodes s1)(a := None)\<rparr>)) a = None" by (simp add: DecreaseCount_def)
  ultimately show ?thesis using pulledI [OF s1(2,3,4,5), of None] by blast
qed

lemma EraseKey_at:
  assumes rt: "rooted s t" and nn: "nn t"
  shows "case t_extract cmp (kf gk s) k t of
      None \<Rightarrow> avl_EraseKey cmp gk s k = Some (False, s)
    | Some (a, t') \<Rightarrow> (\<exists>s'. avl_EraseKey cmp gk s k = Some (True, s') \<and> pulled s t a t' s' \<and> nodes s' a = None)"
proof (cases "t_extract cmp (kf gk s) k t")
  case None
  then show ?thesis using FindNode_at [OF rt, of cmp gk k] t_extract_find(1) [of cmp "kf gk s" k t] by (simp add: avl_EraseKey_def)
next
  case (Some at)
  then obtain a t' where e: "t_extract cmp (kf gk s) k t = Some (a, t')" by (cases at) auto
  from t_extract_descend [OF this] obtain l h r c where t: "t' = t_erase l h r c" "t = plug (Nd l a h r) c" by blast
  then have "a \<in> set (inord t)" by (simp add: inord_plug)
  then have "a \<noteq> nullptr" using rooted_nodes [OF rt] by blast
  with EraseRoutine_at [OF rt nn t(2)] FindNode_at [OF rt, of cmp gk k] t_extract_find(2) [OF e] t(1) show ?thesis
    by (auto simp: e avl_EraseKey_def)
qed

lemma Extract_at:
  assumes rt: "rooted s t" and nn: "nn t"
  shows "case t_extract cmp (kf gk s) k t of
      None \<Rightarrow> avl_Extract cmp gk s k = Some (nullptr, s)
    | Some (a, t') \<Rightarrow> (\<exists>s' n. avl_Extract cmp gk s k = Some (a, s') \<and> pulled s t a t' s'
        \<and> nodes s' a = Some n \<and> node_value n = value_at s a \<and> left n = nullptr \<and> right n = nullptr \<and> parent n = nullptr)"
proof (cases "t_extract cmp (kf gk s) k t")
  case None
  then show ?thesis using FindNode_at [OF rt, of cmp gk k] t_extract_find(1) [of cmp "kf gk s" k t] by (simp add: avl_Extract_def)
next
  case (Some at)
  then obtain a t' where e: "t_extract cmp (kf gk s) k t = Some (a, t')" by (cases at) auto
  from t_extract_descend [OF this] obtain l h r c where t: "t' = t_erase l h r c" "t = plug (Nd l a h r) c" by blast
  from erase_at [OF rt nn t(2)] obtain s1 where s1: "Avl_Erase s a = Some s1" "rooted s1 t'" "touches (set (inord t)) s s1"
    "a \<notin> set (inord t')" "a \<in> set (inord t)" unfolding t(1) by blast
  then have a: "a \<noteq> nullptr" "nodes s a \<noteq> None" using rooted_nodes [OF rt] by blast+
  with s1(3) obtain n where n: "nodes s1 a = Some n" "node_value n = value_at s a"
    unfolding touches_def value_at_def by (metis (no_types, lifting) map_option_eq_Some option.collapse option.map_sel option.sel)
  let ?s' = "DecreaseCount (s1\<lparr>nodes := (nodes s1)(a := Some (isolate n))\<rparr>)"
  have "avl_Extract cmp gk s k = Some (a, ?s')"
    using FindNode_at [OF rt, of cmp gk k] t_extract_find(2) [OF e] a s1(1) n(1)
    by (simp add: avl_Extract_def DecreaseCount_def upd_some)
  moreover have "pulled s t a t' ?s'" using s1 by (intro pulledI)
  moreover have "nodes ?s' a = Some (isolate n)" by (simp add: DecreaseCount_def)
  moreover have "node_value (isolate n) = value_at s a" "left (isolate n) = nullptr" "right (isolate n) = nullptr"
    "parent (isolate n) = nullptr" using n(2) by (simp_all add: isolate_def)
  ultimately show ?thesis using e by auto
qed

end
