(* ===== verification/Avl_Tree_Walk.thy ===== *)
theory Avl_Tree_Walk
  imports Avl_Tree_Refine
begin

text \<open>
  The loops over a whole tree: \<open>ReuseAllNodes\<close> and the two clears take the nodes in post-order,
  \<open>DoInAll\<close> and the iterators visit them in key order, and the bounds find the first node that is
  not below, or above, a key.
\<close>

section \<open>Taking all nodes\<close>

fun postord :: "'n atree \<Rightarrow> 'n list" where
  "postord Tip = []"
| "postord (Nd l a h r) = postord l @ postord r @ [a]"

lemma set_postord [simp]: "set (postord t) = set (inord t)"
  by (induction t) auto

text \<open>
  A callback that frees the node and folds its value into a state: the nodes of a subtree are
  taken in post-order and the link of its parent is cleared.
\<close>

lemma reuse_leaf:
  assumes "a \<noteq> nullptr" and "h a = Some n" and "left n = nullptr" "right n = nullptr"
  shows "reuse_loop cb h x a =
    (if parent n = nullptr then cb a (h(a \<mapsto> (isolate n)\<lparr>height := 0\<rparr>)) x
     else do {
       p \<leftarrow> deref (h(a \<mapsto> (isolate n)\<lparr>height := 0\<rparr>)) (parent n);
       h \<leftarrow> store (h(a \<mapsto> (isolate n)\<lparr>height := 0\<rparr>)) (parent n)
             (\<lambda>p. if left p = a then p\<lparr>left := nullptr\<rparr> else p\<lparr>right := nullptr\<rparr>);
       (h, x) \<leftarrow> cb a h x;
       reuse_loop cb h x (parent n) })"
proof -
  have "deref h a = Some n" "store h a g = Some (h(a \<mapsto> g n))" for g using assms(1,2) by (simp_all add: deref_def store_def)
  then show ?thesis using assms(1,3,4) by (subst reuse_loop.simps) simp
qed

lemma reuse_subtree:
  assumes cb: "\<And>a h n x. deref h a = Some n \<Longrightarrow> cb a h x = Some (h(a := None), f (node_value n) x)"
  shows "tree_at h par p t \<Longrightarrow> t \<noteq> Tip \<Longrightarrow> distinct (inord t) \<Longrightarrow>
    (\<And>b. b \<in> set (inord t) \<Longrightarrow> node_value (the (h b)) = val b) \<Longrightarrow>
    (par = nullptr \<longrightarrow> reuse_loop cb h x p = Some (h |` (- set (inord t)), fold (\<lambda>b. f (val b)) (postord t) x)) \<and>
    (\<forall>P. par \<noteq> nullptr \<and> par \<notin> set (inord t) \<and> h par = Some P \<longrightarrow>
       reuse_loop cb h x p = reuse_loop cb ((h |` (- set (inord t)))(par \<mapsto> (if left P = p then P\<lparr>left := nullptr\<rparr> else P\<lparr>right := nullptr\<rparr>)))
         (fold (\<lambda>b. f (val b)) (postord t) x) par)"
proof (induction t arbitrary: h par p x)
  case Tip
  from Tip(2) show ?case by blast
next
  case (Nd l a hh r)
  then obtain n where n: "p = a" "a \<noteq> nullptr" "h a = Some n" "parent n = par" "tree_at h a (left n) l" "tree_at h a (right n) r"
    by auto
  from Nd.prems(3) have D: "a \<notin> set (inord l)" "a \<notin> set (inord r)" "distinct (inord l)" "distinct (inord r)"
    "set (inord l) \<inter> set (inord r) = {}" by auto
  have v: "node_value n = val a" using Nd.prems(4) [of a] n(3) by simp
  let ?fold = "\<lambda>t. fold (\<lambda>b. f (val b)) (postord t)"
  let ?h1 = "(h |` (- set (inord l)))(a \<mapsto> n\<lparr>left := nullptr\<rparr>)"
  have s1: "reuse_loop cb h x a = reuse_loop cb ?h1 (?fold l x) a"
  proof (cases "l = Tip")
    case True
    then have "?h1 = h" using n by (auto simp: fun_upd_idem)
    then show ?thesis using True by simp
  next
    case False
    from tree_at_not_Tip [OF n(5) False] have "reuse_loop cb h x a = reuse_loop cb h x (left n)"
      using n(2,3) by (subst reuse_loop.simps) (simp add: deref_def)
    also have "\<dots> = reuse_loop cb ?h1 (?fold l x) a"
      using Nd.IH(1) [OF n(5) False D(3), of x] Nd.prems(4) n(2,3) D(1) by (simp del: fun_upd_apply)
    finally show ?thesis .
  qed
  let ?h2 = "(?h1 |` (- set (inord r)))(a \<mapsto> n\<lparr>left := nullptr, right := nullptr\<rparr>)"
  have r1: "tree_at ?h1 a (right n) r" by (rule tree_at_frame [OF n(6)]) (use D in \<open>auto simp: restrict_map_def\<close>)
  have s2: "reuse_loop cb ?h1 (?fold l x) a = reuse_loop cb ?h2 (?fold r (?fold l x)) a"
  proof (cases "r = Tip")
    case True
    then have "n\<lparr>left := nullptr, right := nullptr\<rparr> = n\<lparr>left := nullptr\<rparr>" using n(6) by (cases n) simp
    then have "?h2 = ?h1" using True by (auto simp: restrict_map_def)
    then show ?thesis using True by simp
  next
    case False
    note ch = tree_at_not_Tip [OF n(6) False]
    have vr: "node_value (the (?h1 b)) = val b" if "b \<in> set (inord r)" for b
      using that D Nd.prems(4) [of b] by (auto simp: restrict_map_def)
    from ch have "reuse_loop cb ?h1 (?fold l x) a = reuse_loop cb ?h1 (?fold l x) (right n)"
      using n(2,3) by (subst reuse_loop.simps) (simp add: deref_def)
    also have "\<dots> = reuse_loop cb ?h2 (?fold r (?fold l x)) a"
      using Nd.IH(2) [OF r1 False D(4) vr, of "?fold l x"] n(2) D(2) ch by (simp del: fun_upd_apply add: fun_upd_same)
    finally show ?thesis .
  qed
  let ?h3 = "?h2(a \<mapsto> (isolate (n\<lparr>left := nullptr, right := nullptr\<rparr>))\<lparr>height := 0\<rparr>)"
  have e: "h |` (- set (inord (Nd l a hh r))) = ?h3(a := None)" by (auto simp: restrict_map_def)
  have cba: "cb a ?h3 y = Some (?h3(a := None), f (val a) y)" for y
    using cb [of ?h3 a] n(2) v by (simp add: deref_def isolate_def)
  have root: "reuse_loop cb ?h2 y a = Some (?h3(a := None), f (val a) y)" if "par = nullptr" for y
    using n that cba by (subst reuse_loop.simps) (simp add: deref_def store_def)
  have inner: "reuse_loop cb ?h2 y a = reuse_loop cb
        ((?h3(a := None))(par \<mapsto> (if left P = p then P\<lparr>left := nullptr\<rparr> else P\<lparr>right := nullptr\<rparr>))) (f (val a) y) par"
    if "par \<noteq> nullptr" "par \<notin> set (inord (Nd l a hh r))" "h par = Some P" for y P
  proof -
    let ?P = "if left P = p then P\<lparr>left := nullptr\<rparr> else P\<lparr>right := nullptr\<rparr>"
    have P: "?h3 par = Some P" using that by (auto simp: restrict_map_def)
    have "cb a (?h3(par \<mapsto> ?P)) y = Some ((?h3(par \<mapsto> ?P))(a := None), f (val a) y)"
      using cb [of "?h3(par \<mapsto> ?P)" a] n(2) v that(2) by (simp add: deref_def isolate_def)
    moreover have "(?h3(par \<mapsto> ?P))(a := None) = (?h3(a := None))(par \<mapsto> ?P)" using that(2) by (simp add: fun_upd_twist)
    moreover have "deref ?h3 par = Some P" "store ?h3 par g = Some (?h3(par \<mapsto> g P))" for g
      using that(1) P by (simp_all add: deref_def store_def del: fun_upd_apply)
    moreover have "reuse_loop cb ?h2 y a = (do {
        P \<leftarrow> deref ?h3 par;
        h \<leftarrow> store ?h3 par (\<lambda>P. if left P = a then P\<lparr>left := nullptr\<rparr> else P\<lparr>right := nullptr\<rparr>);
        (h, x) \<leftarrow> cb a h y;
        reuse_loop cb h x par })"
      using reuse_leaf [of a ?h2 "n\<lparr>left := nullptr, right := nullptr\<rparr>" cb y] n(2,4) that(1) by (simp add: fun_upd_same)
    ultimately show ?thesis unfolding n(1) by simp
  qed
  show ?case
  proof (intro conjI impI allI)
    assume "par = nullptr"
    from root [OF this, of "?fold r (?fold l x)"] show
      "reuse_loop cb h x p = Some (h |` (- set (inord (Nd l a hh r))), ?fold (Nd l a hh r) x)"
      unfolding e n(1) s1 s2 by (simp del: fun_upd_apply)
  next
    fix P assume P: "par \<noteq> nullptr \<and> par \<notin> set (inord (Nd l a hh r)) \<and> h par = Some P"
    have x: "?fold (Nd l a hh r) x = f (val a) (?fold r (?fold l x))" by simp
    from P inner [of P "?fold r (?fold l x)"] show
      "reuse_loop cb h x p = reuse_loop cb ((h |` (- set (inord (Nd l a hh r))))
        (par \<mapsto> (if left P = p then P\<lparr>left := nullptr\<rparr> else P\<lparr>right := nullptr\<rparr>))) (?fold (Nd l a hh r) x) par"
      unfolding e x unfolding n(1) s1 s2 by blast
  qed
qed

lemma ReuseAllNodes_at:
  assumes cb: "\<And>a h n x. deref h a = Some n \<Longrightarrow> cb a h x = Some (h(a := None), f (node_value n) x)"
    and rt: "rooted s t"
  shows "\<exists>s'. ReuseAllNodes cb s x = Some (fold (\<lambda>b. f (value_at s b)) (postord t) x, s') \<and> rooted s' Tip
    \<and> nodes s' = nodes s |` (- set (inord t)) \<and> tree_count s' = 0"
proof (cases "t = Tip")
  case True
  then have "root s = nullptr" "nodes s |` (- set (inord t)) = nodes s" using rt True by (auto simp: rooted_Tip restrict_map_def)
  with True show ?thesis by (simp add: ReuseAllNodes_def reuse_loop.simps SetCount_def rooted_Tip)
next
  case False
  have "tree_at (nodes s) nullptr (root s) t" "distinct (inord t)" using rt by (simp_all add: rooted_def place_def distinct_at_def)
  from reuse_subtree [where cb = cb and f = f, OF cb this(1) False this(2), of "value_at s" x] have
    "reuse_loop cb (nodes s) x (root s) = Some (nodes s |` (- set (inord t)), fold (\<lambda>b. f (value_at s b)) (postord t) x)"
    by (simp add: value_at_def)
  then show ?thesis by (simp add: ReuseAllNodes_def SetCount_def rooted_Tip)
qed

lemma Clear_at:
  assumes "rooted s t"
  shows "\<exists>s'. avl_Clear s = Some s' \<and> rooted s' Tip \<and> nodes s' = nodes s |` (- set (inord t)) \<and> tree_count s' = 0"
  using ReuseAllNodes_at [of "\<lambda>node h x. do { h \<leftarrow> avl_DropNode h node; Some (h, x) }" "\<lambda>_ x. x" s t "()", OF _ assms]
  by (auto simp: avl_Clear_def avl_DropNode_def)

lemma ClearApply_at:
  assumes "rooted s t"
  shows "\<exists>s'. avl_ClearApply f s x = Some (fold (\<lambda>b. f (value_at s b)) (postord t) x, s') \<and> rooted s' Tip
    \<and> nodes s' = nodes s |` (- set (inord t)) \<and> tree_count s' = 0"
  unfolding avl_ClearApply_def by (rule ReuseAllNodes_at [OF _ assms]) (simp add: avl_DropNode_def)

section \<open>Walking over all nodes\<close>

text \<open>A stack of nodes stands for the rest of the walk: each node, then its right subtree.\<close>

fun stack_at :: "'v avl \<Rightarrow> (ptr \<times> ptr atree) list \<Rightarrow> bool" where
  "stack_at s [] \<longleftrightarrow> True"
| "stack_at s ((a, r) # st) \<longleftrightarrow> (\<exists>n. node_at s a = Some n \<and> tree_at (nodes s) a (right n) r) \<and> stack_at s st"

definition rest_of :: "(ptr \<times> ptr atree) list \<Rightarrow> ptr list" where
  "rest_of st = concat (map (\<lambda>(a, r). a # inord r) st)"

lemma rest_of_Nil [simp]: "rest_of [] = []" "rest_of st = [] \<longleftrightarrow> st = []"
  by (auto simp: rest_of_def) (cases st; auto)

lemma push_left_at:
  "tree_at (nodes s) par p t \<Longrightarrow> stack_at s st \<Longrightarrow>
    \<exists>st'. push_left s p (map fst st) = Some (map fst st') \<and> stack_at s st' \<and> rest_of st' = inord t @ rest_of st"
proof (induction t arbitrary: par p st)
  case Tip
  then show ?case by (subst push_left.simps) auto
next
  case (Nd l a h r)
  from Nd.prems(1) obtain n where n: "p = a" "a \<noteq> nullptr" "nodes s a = Some n" "tree_at (nodes s) a (left n) l"
    "tree_at (nodes s) a (right n) r" by auto
  have "stack_at s ((a, r) # st)" using Nd.prems(2) n by (simp add: node_at_some)
  from Nd.IH(1) [OF n(4) this] show ?case using n
    by (subst push_left.simps) (simp add: node_at_some rest_of_def)
qed

lemma do_in_all_at:
  "tree_at (nodes s) par p t \<Longrightarrow> stack_at s st \<Longrightarrow>
    do_in_all cb s p (map fst st) x = Some (fold (\<lambda>b. cb (value_at s b)) (inord t @ rest_of st) x)"
proof (induction "length (inord t @ rest_of st)" arbitrary: par p t st x)
  case 0
  then have "t = Tip" "st = []" by simp_all
  then show ?case using 0 by (subst do_in_all.simps) (simp add: rest_of_def)
next
  case (Suc k)
  from push_left_at [OF Suc.prems] obtain st' where
    st': "push_left s p (map fst st) = Some (map fst st')" "stack_at s st'" "rest_of st' = inord t @ rest_of st" by blast
  then have "rest_of st' \<noteq> []" using Suc.hyps(2) by (metis list.size(3) nat.distinct(1))
  then obtain b r st2 where s2: "st' = (b, r) # st2" by (cases st') (simp_all add: split_paired_all)
  with st'(2) obtain n where n: "node_at s b = Some n" "tree_at (nodes s) b (right n) r" "stack_at s st2" by auto
  have e: "inord t @ rest_of st = b # inord r @ rest_of st2" using st'(3) s2 by (simp add: rest_of_def)
  then have "k = length (inord r @ rest_of st2)" using Suc.hyps(2) by simp
  from Suc.hyps(1) [OF this n(2,3)] have "do_in_all cb s (right n) (map fst st2) y =
      Some (fold (\<lambda>b. cb (value_at s b)) (inord r @ rest_of st2) y)" for y .
  moreover have "\<not> (p = nullptr \<and> map fst st = [])" using Suc.prems(1) Suc.hyps(2) by auto
  moreover have "node_value n = value_at s b" using n(1) by (cases "b = nullptr") (auto simp: node_at_some value_at_def)
  ultimately show ?case using st'(1) s2 n(1) unfolding e by (subst do_in_all.simps) auto
qed

lemma DoInAll_at: "rooted s t \<Longrightarrow> DoInAll cb s x = Some (fold (\<lambda>b. cb (value_at s b)) (inord t) x)"
  using do_in_all_at [of s nullptr "root s" t "[]" cb x] by (simp add: DoInAll_def rooted_def place_def rest_of_def)

lemma for_each_at:
  "rooted s t \<Longrightarrow> inord t = xs @ ys \<Longrightarrow>
    avl_for_each s (first_or_null ys) cb x = Some (fold (\<lambda>b. cb (value_at s b)) ys x)"
proof (induction ys arbitrary: xs x)
  case Nil
  then show ?case by (subst avl_for_each.simps) (simp add: avl_iter_eq_def avl_end_def)
next
  case (Cons b ys)
  have b: "b \<noteq> nullptr" "nodes s b \<noteq> None" using rooted_nodes [OF Cons.prems(1), of b] Cons.prems(2) by auto
  then obtain m where m: "nodes s b = Some m" by blast
  have "avl_iter_Increment s b = Some (first_or_null ys)"
    using GetNextNode_at [OF Cons.prems] by (simp add: avl_iter_Increment_def)
  then show ?case using b m Cons.IH [OF Cons.prems(1), of "xs @ [b]"] Cons.prems(2)
    by (subst avl_for_each.simps) (simp add: avl_iter_eq_def avl_end_def avl_iter_deref_def value_at_def node_at_some)
qed

lemma begin_at: "rooted s t \<Longrightarrow> avl_begin s = Some (first_or_null (inord t))"
  using GetFirstNode_tree by (auto simp: avl_begin_def rooted_def place_def)

lemma before_end_at: "rooted s t \<Longrightarrow> avl_before_end s = Some (last_or_null (inord t))"
  using GetLastNode_tree by (auto simp: avl_before_end_def rooted_def place_def)

section \<open>Bounds\<close>

text \<open>The first node, in key order, whose key is not below (is above) the given one.\<close>

definition first_that :: "('n \<Rightarrow> bool) \<Rightarrow> 'n list \<Rightarrow> 'n \<Rightarrow> 'n" where
  "first_that P xs d = (case filter P xs of [] \<Rightarrow> d | x # _ \<Rightarrow> x)"

lemma first_that_append: "(\<forall>x \<in> set xs. \<not> P x) \<Longrightarrow> first_that P (xs @ ys) d = first_that P ys d"
  by (simp add: first_that_def filter_empty_conv)

lemma first_that_split: "P y \<Longrightarrow> first_that P (xs @ y # ys) d = first_that P xs y"
  by (auto simp: first_that_def split: list.splits)

lemma bound_loop_at:
  assumes up: "\<And>a b. a \<in> set (inord t) \<Longrightarrow> b \<in> set (inord t) \<Longrightarrow> cmp (kf gk s a) (kf gk s b) < 0 \<Longrightarrow> P a \<Longrightarrow> P b"
    and asc: "ascending cmp (map (kf gk s) (inord t))"
  shows "tree_at (nodes s) par p t \<Longrightarrow> P = (\<lambda>a. 0 \<le> cmp (kf gk s a) k) \<Longrightarrow>
      lower_loop cmp gk s k p track = Some (first_that P (inord t) track)"
    and "tree_at (nodes s) par p t \<Longrightarrow> P = (\<lambda>a. 0 < cmp (kf gk s a) k) \<Longrightarrow>
      upper_loop cmp gk s k p track = Some (first_that P (inord t) track)"
proof -
  have split: "first_that P (inord (Nd l a h r)) track = (if P a then first_that P (inord l) a else first_that P (inord r) track)"
    if u: "\<And>x y. x \<in> set (inord (Nd l a h r)) \<Longrightarrow> y \<in> set (inord (Nd l a h r)) \<Longrightarrow> cmp (kf gk s x) (kf gk s y) < 0 \<Longrightarrow> P x \<Longrightarrow> P y"
      and "ascending cmp (map (kf gk s) (inord (Nd l a h r)))" for l a h r track
  proof (cases "P a")
    case True
    then show ?thesis by (simp add: first_that_split)
  next
    case False
    then have "\<forall>x \<in> set (inord l). \<not> P x" using that(2) u by fastforce
    then show ?thesis using False first_that_append [of "inord l @ [a]" P "inord r" track] by simp
  qed
  have keys: "kf gk s a = gk (node_value n)" if "nodes s a = Some n" for a n using that by (simp add: kf_def value_at_def)
  show "tree_at (nodes s) par p t \<Longrightarrow> P = (\<lambda>a. 0 \<le> cmp (kf gk s a) k) \<Longrightarrow>
      lower_loop cmp gk s k p track = Some (first_that P (inord t) track)"
    using up asc
  proof (induction t arbitrary: par p track)
    case Tip
    then show ?case by (subst lower_loop.simps) (simp add: first_that_def)
  next
    case (Nd l a h r)
    from Nd.prems(1) obtain n where n: "p = a" "a \<noteq> nullptr" "nodes s a = Some n" "tree_at (nodes s) a (left n) l"
      "tree_at (nodes s) a (right n) r" by auto
    have L: "lower_loop cmp gk s k (left n) tr = Some (first_that P (inord l) tr)" for tr
      using Nd.IH(1) [OF n(4) Nd.prems(2)] Nd.prems(3,4) by auto
    have R: "lower_loop cmp gk s k (right n) tr = Some (first_that P (inord r) tr)" for tr
      using Nd.IH(2) [OF n(5) Nd.prems(2)] Nd.prems(3,4) by auto
    have "lower_loop cmp gk s k p track = (if P a then lower_loop cmp gk s k (left n) a else lower_loop cmp gk s k (right n) track)"
      using n keys [OF n(3)] Nd.prems(2) by (subst lower_loop.simps) (simp add: node_at_some)
    then show ?case using split [OF Nd.prems(3,4)] L R by (simp del: inord.simps)
  qed
  show "tree_at (nodes s) par p t \<Longrightarrow> P = (\<lambda>a. 0 < cmp (kf gk s a) k) \<Longrightarrow>
      upper_loop cmp gk s k p track = Some (first_that P (inord t) track)"
    using up asc
  proof (induction t arbitrary: par p track)
    case Tip
    then show ?case by (subst upper_loop.simps) (simp add: first_that_def)
  next
    case (Nd l a h r)
    from Nd.prems(1) obtain n where n: "p = a" "a \<noteq> nullptr" "nodes s a = Some n" "tree_at (nodes s) a (left n) l"
      "tree_at (nodes s) a (right n) r" by auto
    have L: "upper_loop cmp gk s k (left n) tr = Some (first_that P (inord l) tr)" for tr
      using Nd.IH(1) [OF n(4) Nd.prems(2)] Nd.prems(3,4) by auto
    have R: "upper_loop cmp gk s k (right n) tr = Some (first_that P (inord r) tr)" for tr
      using Nd.IH(2) [OF n(5) Nd.prems(2)] Nd.prems(3,4) by auto
    have "upper_loop cmp gk s k p track = (if P a then upper_loop cmp gk s k (left n) a else upper_loop cmp gk s k (right n) track)"
      using n keys [OF n(3)] Nd.prems(2) by (subst upper_loop.simps) (simp add: node_at_some)
    then show ?case using split [OF Nd.prems(3,4)] L R by (simp del: inord.simps)
  qed
qed

end
