(* ===== verification/Comparators.thy ===== *)
theory Comparators
  imports Avl_Tree_Ops
begin

text \<open>
  The comparators of \<open>algo/comparator_util.h\<close>. A result is the \<open>int\<close> the function returns, and
  \<open>None\<close> a signed overflow. The comparator of unsigned integers satisfies the interface the trees
  ask for, and so does the one of signed integers below 32 bits; a subtraction at 32 bits can
  overflow, one at 64 bits loses its upper half, and strings are compared up to their first NUL.
\<close>

section \<open>Integers\<close>

text \<open>\<open>x - y\<close> is computed at the width of \<open>int\<close>, or of the type when that is wider, and returned as \<open>int\<close>.\<close>

definition cmp_signed :: "'a::len word \<Rightarrow> 'a word \<Rightarrow> int option" where
  "cmp_signed x y =
     (let w = max 32 LENGTH('a); d = sint x - sint y in
      if - (2 ^ (w - 1)) \<le> d \<and> d < 2 ^ (w - 1) then Some (signed_take_bit 31 d) else None)"

definition cmp_unsigned :: "'a::len word \<Rightarrow> 'a word \<Rightarrow> int" where
  "cmp_unsigned x y = (if x < y then - 1 else if x = y then 0 else 1)"

interpretation unsigned: comparator "cmp_unsigned :: 'a::len word \<Rightarrow> 'a word \<Rightarrow> int"
proof
  fix a b c :: "'a word"
  show "cmp_unsigned a b = 0 \<longleftrightarrow> a = b" by (simp add: cmp_unsigned_def)
  show "0 < cmp_unsigned a b \<longleftrightarrow> cmp_unsigned b a < 0" by (auto simp: cmp_unsigned_def)
  show "cmp_unsigned a b < 0 \<Longrightarrow> cmp_unsigned b c < 0 \<Longrightarrow> cmp_unsigned a c < 0"
    by (auto simp: cmp_unsigned_def split: if_splits)
qed

lemma cmp_signed_small:
  fixes x y :: "'a::len word"
  assumes "LENGTH('a) \<le> 16"
  shows "cmp_signed x y = Some (sint x - sint y)"
proof -
  have b: "- (2 ^ 15) \<le> sint z \<and> sint z < 2 ^ 15" for z :: "'a word"
  proof -
    have "(2 :: int) ^ (LENGTH('a) - 1) \<le> 2 ^ 15" using assms by (intro power_increasing) auto
    then have "- (2 ^ 15) \<le> sint z" "sint z < 2 ^ 15"
      using sint_greater_eq [of z] sint_less [of z] unfolding One_nat_def by linarith+
    then show ?thesis ..
  qed
  have d: "- (2 ^ 31) \<le> sint x - sint y" "sint x - sint y < 2 ^ 31" using b [of x] b [of y] by simp_all
  then have "signed_take_bit 31 (sint x - sint y) = sint x - sint y" by (simp add: signed_take_bit_int_eq_self)
  with d assms show ?thesis by (simp add: cmp_signed_def Let_def)
qed

definition cmp_int8 :: "8 word \<Rightarrow> 8 word \<Rightarrow> int" where
  "cmp_int8 x y = (case cmp_signed x y of Some d \<Rightarrow> d | None \<Rightarrow> 0)"

definition cmp_int16 :: "16 word \<Rightarrow> 16 word \<Rightarrow> int" where
  "cmp_int16 x y = (case cmp_signed x y of Some d \<Rightarrow> d | None \<Rightarrow> 0)"

interpretation int8: comparator cmp_int8
  by unfold_locales (auto simp: cmp_int8_def cmp_signed_small word_eq_iff_signed [symmetric])

interpretation int16: comparator cmp_int16
  by unfold_locales (auto simp: cmp_int16_def cmp_signed_small word_eq_iff_signed [symmetric])

section \<open>Strings and pointers\<close>

text \<open>
  \<open>c_str()\<close> ends, for \<open>strcmp\<close>, at the first NUL; bytes are compared unsigned. Only the sign of
  the result of \<open>strcmp\<close> is specified, which stands here for its value.
\<close>

fun strcmp :: "bstring \<Rightarrow> bstring \<Rightarrow> int" where
  "strcmp [] [] = 0"
| "strcmp [] (b # bs) = - 1"
| "strcmp (a # as) [] = 1"
| "strcmp (a # as) (b # bs) = (if a < b then - 1 else if b < a then 1 else strcmp as bs)"

definition c_str :: "bstring \<Rightarrow> bstring" where
  "c_str s = takeWhile (\<lambda>c. c \<noteq> 0) s"

definition cmp_string :: "bstring \<Rightarrow> bstring \<Rightarrow> int" where
  "cmp_string x y = strcmp (c_str x) (c_str y)"

text \<open>The difference of two pointers counts objects of \<open>sz\<close> bytes; it is a 64-bit number returned as \<open>int\<close>.\<close>

definition cmp_pointer :: "int \<Rightarrow> ptr \<Rightarrow> ptr \<Rightarrow> int" where
  "cmp_pointer sz x y = signed_take_bit 31 ((int x - int y) div sz)"

lemma strcmp_eq_0: "strcmp x y = 0 \<longleftrightarrow> x = y"
  by (induction x y rule: strcmp.induct) auto

lemma strcmp_flip: "strcmp y x = - strcmp x y"
  by (induction x y rule: strcmp.induct) auto

lemma strcmp_trans: "strcmp x y < 0 \<Longrightarrow> strcmp y z < 0 \<Longrightarrow> strcmp x z < 0"
proof (induction x y arbitrary: z rule: strcmp.induct)
  case (2 b bs)
  then show ?case by (cases z) auto
next
  case (4 a as b bs)
  then show ?case by (cases z) (auto split: if_splits)
qed auto

text \<open>On strings without NUL the order is total and tells different strings apart.\<close>

interpretation strcmp: comparator strcmp
proof
  fix a b c :: bstring
  show "strcmp a b = 0 \<longleftrightarrow> a = b" by (rule strcmp_eq_0)
  show "0 < strcmp a b \<longleftrightarrow> strcmp b a < 0" using strcmp_flip [of a b] by simp
  show "strcmp a b < 0 \<Longrightarrow> strcmp b c < 0 \<Longrightarrow> strcmp a c < 0" by (rule strcmp_trans)
qed

section \<open>Properties\<close>

text \<open>
  The comparator of strings orders them by their bytes up to the first NUL: it is 0 exactly
  when these prefixes agree, and antisymmetric and transitive, so keys that differ only after a
  NUL byte are one key of a tree or a dictionary.
\<close>
theorem cmp_string_prefixes:
  "cmp_string x y = 0 \<longleftrightarrow> c_str x = c_str y"
  "0 < cmp_string x y \<longleftrightarrow> cmp_string y x < 0"
  "\<not> (cmp_string x y < 0 \<and> cmp_string y z < 0 \<and> \<not> cmp_string x z < 0)"
  "cmp_string [97, 0, 98] [97, 0, 99] = 0"
  using strcmp.cmp_eq strcmp.cmp_flip strcmp.cmp_trans [of "c_str x" "c_str y" "c_str z"] by (auto simp: cmp_string_def c_str_def)

text \<open>
  The subtracting comparators: below 32 bits the result is the difference; at 32 bits the
  subtraction can overflow, which is undefined; at 64 bits only the lower half is returned, so
  two different keys can compare equal and a smaller key can compare greater.
\<close>
theorem cmp_signed_widths:
  "cmp_signed (x8 :: 8 word) y8 = Some (sint x8 - sint y8)"
  "cmp_signed (x16 :: 16 word) y16 = Some (sint x16 - sint y16)"
  "cmp_signed (- (2 ^ 31) :: 32 word) 1 = None"
  "cmp_signed (0 :: 64 word) (2 ^ 32) = Some 0"
  "\<exists>d > 0. cmp_signed (0 :: 64 word) (2 ^ 31 + 1) = Some d"
proof -
  show "cmp_signed (x8 :: 8 word) y8 = Some (sint x8 - sint y8)" by (rule cmp_signed_small) simp
  show "cmp_signed (x16 :: 16 word) y16 = Some (sint x16 - sint y16)" by (rule cmp_signed_small) simp
  show "cmp_signed (- (2 ^ 31) :: 32 word) 1 = None" by code_simp
  show "cmp_signed (0 :: 64 word) (2 ^ 32) = Some 0" by code_simp
  have "cmp_signed (0 :: 64 word) (2 ^ 31 + 1) = Some 2147483647" by code_simp
  then show "\<exists>d > 0. cmp_signed (0 :: 64 word) (2 ^ 31 + 1) = Some d" by auto
qed

end
