(* ===== verification/Avl_Props.thy ===== *)
theory Avl_Props
  imports Avl_Tree_Walk Map_Spec Comparators
begin

text \<open>
  The properties of \<open>AvlTree\<close>: from construction on, sequences of operations have the results of
  a finite map and leave a tree its own checker accepts; one insertion and one removal; the walks;
  the bounds; the count; and what the operations outside the map interface do.
\<close>

section \<open>The invariant\<close>

definition avl_inv :: "('k \<Rightarrow> 'k \<Rightarrow> int) \<Rightarrow> ('v \<Rightarrow> 'k) \<Rightarrow> 'v avl \<Rightarrow> ptr atree \<Rightarrow> bool" where
  "avl_inv cmp gk s t \<longleftrightarrow> rooted s t \<and> avl_state t \<and> ascending cmp (map (kf gk s) (inord t))"

text \<open>The values in key order, and the map they are.\<close>

definition vals :: "'v avl \<Rightarrow> ptr atree \<Rightarrow> 'v list" where
  "vals s t = map (value_at s) (inord t)"

definition map_of_vals :: "('v \<Rightarrow> 'k) \<Rightarrow> 'v list \<Rightarrow> ('k \<rightharpoonup> 'v)" where
  "map_of_vals gk vs = map_of (map (\<lambda>v. (gk v, v)) vs)"

lemma keys_vals: "map (kf gk s) (inord t) = map gk (vals s t)"
  by (simp add: vals_def kf_def)

lemma keys_set: "kf gk s ` set (inord t) = gk ` set (vals s t)"
  by (auto simp: vals_def kf_def)

lemma map_of_vals_simps [simp]:
  "map_of_vals gk [] = Map.empty"
  "map_of_vals gk (v # vs) = (map_of_vals gk vs)(gk v \<mapsto> v)"
  by (simp_all add: map_of_vals_def)

lemma map_of_vals_None: "map_of_vals gk vs k = None \<longleftrightarrow> k \<notin> gk ` set vs"
  by (induction vs) auto

lemma map_of_vals_insert:
  "gk v \<notin> gk ` set xs \<Longrightarrow> map_of_vals gk (xs @ v # ys) = (map_of_vals gk (xs @ ys))(gk v \<mapsto> v)"
  by (induction xs) (auto simp: fun_upd_twist)

lemma map_of_vals_remove:
  "gk v \<notin> gk ` set (xs @ ys) \<Longrightarrow> map_of_vals gk (xs @ ys) = (map_of_vals gk (xs @ v # ys))(gk v := None)"
proof -
  assume a: "gk v \<notin> gk ` set (xs @ ys)"
  then have "map_of_vals gk (xs @ ys) (gk v) = None" by (simp add: map_of_vals_None)
  with a show ?thesis by (subst map_of_vals_insert) (auto simp: fun_upd_idem)
qed

lemma ascending_distinct:
  assumes "comparator cmp" and "ascending cmp ks"
  shows "distinct ks"
  using assms(2)
proof (induction ks)
  case (Cons k ks)
  then show ?case using comparator.cmp_neq(1) [OF assms(1), of k k] by auto
qed simp

lemma map_of_vals_Some:
  assumes "distinct (map gk vs)"
  shows "map_of_vals gk vs k = Some v \<longleftrightarrow> v \<in> set vs \<and> gk v = k"
  using assms
proof (induction vs)
  case (Cons w vs)
  then have "v \<in> set vs \<Longrightarrow> gk v \<noteq> gk w" by (metis distinct.simps(2) image_eqI list.set_map list.simps(9))
  then show ?case using Cons by auto
qed simp

text \<open>Lookup by address and by value.\<close>

lemma t_find_vals:
  assumes c: "comparator cmp" and asc: "ascending cmp (map (kf gk s) (inord t))"
  shows "map_option (value_at s) (t_find cmp (kf gk s) k t) = map_of_vals gk (vals s t) k"
proof (cases "t_find cmp (kf gk s) k t")
  case None
  then have "map_of_vals gk (vals s t) k = None"
    using comparator.t_find_None [OF c asc, of k] by (simp add: keys_set map_of_vals_None)
  then show ?thesis using None by simp
next
  case (Some a)
  with comparator.t_find_Some [OF c asc] have a: "a \<in> set (inord t)" "kf gk s a = k" by auto
  have "distinct (map gk (vals s t))" using ascending_distinct [OF c asc] by (simp only: keys_vals)
  with a have "map_of_vals gk (vals s t) k = Some (value_at s a)" by (simp add: map_of_vals_Some) (simp add: vals_def kf_def)
  then show ?thesis using Some by simp
qed

section \<open>Operations\<close>

lemma avl_Find_ok:
  assumes c: "comparator cmp" and inv: "avl_inv cmp gk s t"
  shows "avl_Find cmp gk s k = Some (map_of_vals gk (vals s t) k)"
proof -
  from inv have rt: "rooted s t" and asc: "ascending cmp (map (kf gk s) (inord t))" by (simp_all add: avl_inv_def)
  show ?thesis
  proof (cases "t_find cmp (kf gk s) k t")
    case None
    then show ?thesis using FindNode_at [OF rt, of cmp gk k] t_find_vals [OF c asc, of k] by (simp add: avl_Find_def)
  next
    case (Some a)
    with comparator.t_find_Some [OF c asc] have "a \<in> set (inord t)" by blast
    from rooted_nodes [OF rt this] obtain n where n: "a \<noteq> nullptr" "nodes s a = Some n" by blast
    then have "value_at s a = node_value n" by (simp add: value_at_def)
    with n show ?thesis using Some FindNode_at [OF rt, of cmp gk k] t_find_vals [OF c asc, of k]
      by (simp add: avl_Find_def node_at_some)
  qed
qed

lemma vals_keeps:
  assumes "keeps A s s'" and "rooted s t"
  shows "map (value_at s') (inord t) = vals s t" and "map (kf gk s') (inord t) = map (kf gk s) (inord t)"
proof -
  have "value_at s' a = value_at s a" if "a \<in> set (inord t)" for a
    using keeps_value [OF assms(1)] rooted_nodes [OF assms(2) that] by blast
  then show "map (value_at s') (inord t) = vals s t" "map (kf gk s') (inord t) = map (kf gk s) (inord t)"
    by (auto simp: vals_def kf_def)
qed

text \<open>A pushed node, whose key is new.\<close>

lemma pushed_new:
  assumes c: "comparator cmp" and inv: "avl_inv cmp gk s t" and q: "q \<noteq> nullptr" "nodes s q \<noteq> None"
    and new: "kf gk s q \<notin> gk ` set (vals s t)"
    and p: "t_push cmp (kf gk s) q 1 t = ((b, a), t')" and s': "pushed s q t b t' s'"
  shows "b \<and> a = q \<and> avl_inv cmp gk s' t'
    \<and> (\<exists>xs ys. vals s t = xs @ ys \<and> vals s' t' = xs @ value_at s q # ys)
    \<and> map_of_vals gk (vals s' t') = (map_of_vals gk (vals s t))(kf gk s q \<mapsto> value_at s q)"
proof -
  from inv have rt: "rooted s t" "avl_state t" and asc: "ascending cmp (map (kf gk s) (inord t))" by (simp_all add: avl_inv_def)
  have "kf gk s q \<notin> kf gk s ` set (inord t)" using new by (simp add: keys_set)
  from comparator.t_push_new [OF c asc this, of 1] p obtain xs ys where
    b: "b" "a = q" and i: "inord t = xs @ ys" "inord t' = xs @ q # ys" and a': "ascending cmp (map (kf gk s) (inord t'))" by auto
  from s' have rt': "rooted s' t'" and kp: "keeps (insert q (set (inord t))) s s'" by (simp_all add: pushed_def)
  have v: "value_at s' x = value_at s x" if "x \<in> set (inord t')" for x
    using keeps_value [OF kp] rooted_nodes [OF rt(1), of x] q(2) that i by auto
  then have m: "map (kf gk s') (inord t') = map (kf gk s) (inord t')" by (simp add: kf_def)
  have "ascending cmp (map (kf gk s') (inord t'))" unfolding m by (rule a')
  then have "avl_inv cmp gk s' t'"
    using rt' t_push_avl [OF rt(2), of cmp "kf gk s" q] p by (simp add: avl_inv_def)
  moreover have vs: "vals s t = map (value_at s) xs @ map (value_at s) ys"
    "vals s' t' = map (value_at s) xs @ value_at s q # map (value_at s) ys" using i v by (simp_all add: vals_def)
  moreover have "map_of_vals gk (vals s' t') = (map_of_vals gk (vals s t))(kf gk s q \<mapsto> value_at s q)"
    using new unfolding vs by (subst map_of_vals_insert) (auto simp: kf_def)
  ultimately show ?thesis using b by blast
qed

lemma avl_InsertWithDuplicate_ok:
  assumes c: "comparator cmp" and inv: "avl_inv cmp gk s t" and q: "q \<noteq> nullptr" "nodes s q = None"
  shows "case map_of_vals gk (vals s t) (gk v) of
      Some d \<Rightarrow> \<exists>a. avl_InsertWithDuplicate cmp gk s q v want = Some ((False, report want a), s)
        \<and> a \<in> set (inord t) \<and> value_at s a = d
    | None \<Rightarrow> \<exists>s' t'. avl_InsertWithDuplicate cmp gk s q v want = Some ((True, report want q), s') \<and> avl_inv cmp gk s' t'
        \<and> (\<exists>xs ys. vals s t = xs @ ys \<and> vals s' t' = xs @ v # ys) \<and> value_at s' q = v \<and> q \<in> set (inord t')
        \<and> map_of_vals gk (vals s' t') = (map_of_vals gk (vals s t))(gk v \<mapsto> v)
        \<and> tree_count s' = tree_count s + (if single t then 0 else 1)
        \<and> (\<forall>a. nodes s' a = None \<longleftrightarrow> nodes s a = None \<and> a \<noteq> q)"
proof -
  from inv have rt: "rooted s t" "avl_state t" and asc: "ascending cmp (map (kf gk s) (inord t))" by (simp_all add: avl_inv_def)
  have fresh: "q \<notin> set (inord t)" using rooted_nodes [OF rt(1), of q] q(2) by blast
  let ?s = "created s q v"
  have eq: "\<And>a. a \<in> set (inord t) \<Longrightarrow> value_at ?s a = value_at s a" using fresh by (auto simp: value_at_def created_def)
  then have ks: "map (kf gk ?s) (inord t) = map (kf gk s) (inord t)" and vs: "vals ?s t = vals s t"
    by (simp_all add: kf_def vals_def)
  have inv': "avl_inv cmp gk ?s t" using created_rooted [OF rt(1) fresh, of v] rt(2) asc by (simp add: avl_inv_def ks)
  obtain b a t' where p: "t_push cmp (kf gk ?s) q 1 t = ((b, a), t')" by (metis prod.exhaust)
  from InsertWithDuplicate_at [OF rt(1) avl_state_nn [OF rt(2)] q p, of want] obtain s' where
    s': "avl_InsertWithDuplicate cmp gk s q v want = Some ((b, report want a), s')"
    "if b then pushed ?s q t b t' s' else s' = s \<and> t' = t" by blast
  show ?thesis
  proof (cases "map_of_vals gk (vals s t) (gk v)")
    case (Some d)
    then have "gk v \<in> kf gk ?s ` set (inord t)" using map_of_vals_None [of gk "vals s t" "gk v"]
      by (simp add: keys_set vs)
    with comparator.t_push_dup [OF c, of "kf gk ?s" t q 1] asc ks p have
      b: "\<not> b" and f: "t_find cmp (kf gk ?s) (gk v) t = Some a" by auto
    have "map_option (value_at ?s) (Some a) = Some d"
      using t_find_vals [OF c, of gk ?s t "gk v"] asc ks Some f vs by simp
    moreover have "a \<in> set (inord t)" using comparator.t_find_Some [OF c, of "kf gk ?s" t] asc ks f by auto
    ultimately show ?thesis using s' b Some eq by auto
  next
    case None
    then have new: "kf gk ?s q \<notin> gk ` set (vals ?s t)" by (simp add: map_of_vals_None vs)
    have nq: "nodes ?s q \<noteq> None" by (simp add: created_def)
    have b: b
    proof (rule ccontr)
      assume "\<not> b"
      have "fst (t_push cmp (kf gk ?s) q 1 t) = (True, q)"
        using comparator.t_push_new(1) [OF c, of "kf gk ?s" t q 1] asc ks new by (simp add: keys_set)
      then show False using p \<open>\<not> b\<close> by simp
    qed
    with s'(2) have pu: "pushed ?s q t b t' s'" by simp
    from pushed_new [OF c inv' q(1) nq new p pu] have R: "a = q" "avl_inv cmp gk s' t'"
      "\<exists>xs ys. vals s t = xs @ ys \<and> vals s' t' = xs @ v # ys"
      "map_of_vals gk (vals s' t') = (map_of_vals gk (vals s t))(gk v \<mapsto> v)" by (simp_all add: vs)
    from pu have kp: "keeps (insert q (set (inord t))) ?s s'" and ct: "tree_count s' = tree_count s + (if single t then 0 else 1)"
      using b by (simp_all add: pushed_def)
    have "value_at s' q = v" using keeps_value [OF kp nq] by simp
    moreover have "nodes s' x = None \<longleftrightarrow> nodes s x = None \<and> x \<noteq> q" for x
    proof -
      have "nodes s' x = None \<longleftrightarrow> nodes ?s x = None" using kp unfolding keeps_def by (metis map_option_is_None)
      then show ?thesis by (auto simp: created_def)
    qed
    moreover have "q \<in> set (inord t')"
      using comparator.t_push_new(2) [OF c, of "kf gk ?s" t q 1] asc ks new p by (auto simp: keys_set)
    ultimately show ?thesis using None s'(1) b R ct by auto
  qed
qed

lemma EraseKey_ok:
  assumes c: "comparator cmp" and inv: "avl_inv cmp gk s t"
  shows "\<exists>s' t'. avl_EraseKey cmp gk s k = Some (map_of_vals gk (vals s t) k \<noteq> None, s') \<and> avl_inv cmp gk s' t'
    \<and> map_of_vals gk (vals s' t') = (map_of_vals gk (vals s t))(k := None)
    \<and> (map_of_vals gk (vals s t) k = None \<longrightarrow> s' = s)
    \<and> (map_of_vals gk (vals s t) k \<noteq> None \<longrightarrow> tree_count s' = tree_count s - 1
        \<and> (\<exists>xs v ys. vals s t = xs @ v # ys \<and> gk v = k \<and> vals s' t' = xs @ ys))
    \<and> (\<forall>a. nodes s' a \<noteq> None \<longrightarrow> nodes s a \<noteq> None)"
proof -
  from inv have rt: "rooted s t" "avl_state t" and asc: "ascending cmp (map (kf gk s) (inord t))" by (simp_all add: avl_inv_def)
  note E = EraseKey_at [OF rt(1) avl_state_nn [OF rt(2)], of cmp gk k]
  show ?thesis
  proof (cases "t_extract cmp (kf gk s) k t")
    case None
    then have "map_of_vals gk (vals s t) k = None"
      using comparator.t_extract_None [OF c asc, of k] by (simp add: map_of_vals_None keys_set)
    then show ?thesis using E None inv by (intro exI [of _ s] exI [of _ t]) (auto simp: fun_upd_idem)
  next
    case (Some at)
    then obtain a t' where e: "t_extract cmp (kf gk s) k t = Some (a, t')" by (cases at) auto
    with E obtain s' where s': "avl_EraseKey cmp gk s k = Some (True, s')" "pulled s t a t' s'" "nodes s' a = None" by auto
    from comparator.t_extract_Some [OF c asc e] obtain xs ys where a: "kf gk s a = k" "inord t = xs @ a # ys" "inord t' = xs @ ys"
      "ascending cmp (map (kf gk s) (inord t'))" by auto
    have an: "a \<notin> set (xs @ ys)" using rooted_distinct [OF rt(1)] a(2) by simp
    have v: "value_at s' x = value_at s x" if "x \<in> set (inord t')" for x
    proof -
      have "x \<noteq> a" "nodes s x \<noteq> None" using that an a(2,3) rooted_nodes [OF rt(1), of x] by auto
      then show ?thesis using s'(2) unfolding pulled_def value_at_def by (metis map_option_is_None option.map_sel)
    qed
    have vs: "vals s t = map (value_at s) xs @ value_at s a # map (value_at s) ys" "vals s' t' = map (value_at s) xs @ map (value_at s) ys"
      using a(2,3) v by (simp_all add: vals_def)
    have m: "map (kf gk s') (inord t') = map (kf gk s) (inord t')" using v by (simp add: kf_def)
    have "ascending cmp (map (kf gk s') (inord t'))" unfolding m by (rule a(4))
    moreover from t_extract_descend [OF e] obtain l h r d where t: "t' = t_erase l h r d" "t = plug (Nd l a h r) d" by blast
    then have "avl t'" using t_erase_avl [of l a h r d] rt(2) by simp
    ultimately have "avl_inv cmp gk s' t'" using s'(2) by (simp add: avl_inv_def pulled_def avl_state_def)
    moreover have "distinct (map gk (vals s t))" using ascending_distinct [OF c asc] by (simp only: keys_vals)
    then have "map_of_vals gk (vals s' t') = (map_of_vals gk (vals s t))(gk (value_at s a) := None)"
      unfolding vs by (intro map_of_vals_remove) auto
    moreover have "gk (value_at s a) = k" using a(1) by (simp add: kf_def)
    moreover have "map_of_vals gk (vals s t) k \<noteq> None" using vs(1) a(1) by (auto simp: map_of_vals_None kf_def)
    moreover have "nodes s x \<noteq> None" if "nodes s' x \<noteq> None" for x
      using s'(2,3) that unfolding pulled_def by (metis map_option_is_None)
    ultimately show ?thesis using s'(1,2) vs unfolding pulled_def by (intro exI [of _ s'] exI [of _ t']) auto
  qed
qed

section \<open>The checker\<close>

text \<open>Real heights, and that they differ by at most one at every node.\<close>

fun real_ht :: "'n atree \<Rightarrow> int" where
  "real_ht Tip = 0"
| "real_ht (Nd l a h r) = 1 + (if real_ht l < real_ht r then real_ht r else real_ht l)"

fun balanced :: "'n atree \<Rightarrow> bool" where
  "balanced Tip \<longleftrightarrow> True"
| "balanced (Nd l a h r) \<longleftrightarrow> balanced l \<and> balanced r \<and> \<bar>real_ht l - real_ht r\<bar> \<le> 1"

lemma avl_balanced: "avl t \<Longrightarrow> balanced t \<and> real_ht t = ht t"
  by (induction t) auto

lemma avl_state_balanced: "avl_state t \<Longrightarrow> balanced t"
  by (auto simp: avl_state_def avl_balanced)

lemma balanced_plug: "balanced (plug t c) \<Longrightarrow> balanced t"
proof (induction c arbitrary: t)
  case (Cons f c)
  then have "balanced (plug1 t f)" by simp
  then show ?case by (cases f) auto
qed simp

lemma CalculateHeight_at: "tree_at (nodes s) par p t \<Longrightarrow> CalculateHeight s p = Some (real_ht t)"
proof (induction t arbitrary: par p)
  case Tip
  then show ?case by (subst CalculateHeight.simps) simp
next
  case (Nd l a h r)
  then obtain n where "p = a" "a \<noteq> nullptr" "nodes s a = Some n" "tree_at (nodes s) a (left n) l" "tree_at (nodes s) a (right n) r"
    by auto
  with Nd.IH show ?case by (subst CalculateHeight.simps) (simp add: node_at_some)
qed

lemma root_key:
  assumes "tree_at (nodes s) par p t" and "t \<noteq> Tip"
  shows "\<exists>m. node_at s p = Some m \<and> gk (node_value m) = kf gk s p \<and> p \<in> set (inord t)"
  using assms by (cases t) (auto simp: node_at_some kf_def value_at_def)

text \<open>The difference of the real heights below every node.\<close>

fun tilts :: "'n atree \<Rightarrow> ('n \<times> int) list" where
  "tilts Tip = []"
| "tilts (Nd l a h r) = tilts l @ (a, real_ht l - real_ht r) # tilts r"

lemma tilts_nodes: "map fst (tilts t) = inord t"
  by (induction t) simp_all

lemma balanced_tilts: "balanced t \<longleftrightarrow> (\<forall>(a, d) \<in> set (tilts t). \<bar>d\<bar> \<le> 1)"
  by (induction t) auto

lemma tilts_plug: "x \<in> set (tilts t) \<Longrightarrow> x \<in> set (tilts (plug t c))"
proof (induction c arbitrary: t)
  case (Cons f c)
  have "x \<in> set (tilts (plug1 t f))" using Cons.prems by (cases f) auto
  then show ?case using Cons.IH by simp
qed simp

lemma verify_node_at:
  assumes c: "comparator cmp" and rt: "rooted s t" and asc: "ascending cmp (map (kf gk s) (inord t))" and a: "(a, d) \<in> set (tilts t)"
  shows "verify_node cmp gk s a = Some (\<bar>d\<bar> \<le> 1)"
proof -
  have ai: "a \<in> set (inord t)" using imageI [OF a, of fst] by (simp add: tilts_nodes [symmetric])
  obtain l h r par e where pl: "place s par a (Nd l a h r) e" and t: "t = plug (Nd l a h r) e" by (rule locate [OF rt ai])
  have dist: "distinct (map fst (tilts t))" using rooted_distinct [OF rt] by (simp add: tilts_nodes)
  have "(a, real_ht l - real_ht r) \<in> set (tilts t)" unfolding t by (rule tilts_plug) simp
  then have d: "d = real_ht l - real_ht r" using a dist by (metis eq_key_imp_eq_value)
  from pl obtain n where n: "node_at s a = Some n" "nodes s a = Some n" "tree_at (nodes s) a (left n) l" "tree_at (nodes s) a (right n) r"
    by (auto simp: place_def node_at_some)
  have k: "gk (node_value n) = kf gk s a" using n(2) by (simp add: kf_def value_at_def)
  have "ascending cmp (map (kf gk s) (inord (Nd l a h r)))" using asc unfolding t inord_plug by simp
  then have lt: "\<forall>x \<in> set (inord l). cmp (kf gk s x) (kf gk s a) < 0" "\<forall>x \<in> set (inord r). 0 < cmp (kf gk s x) (kf gk s a)"
    using comparator.cmp_flip [OF c] by auto
  have L: "(if left n = nullptr then Some True
      else do { m \<leftarrow> node_at s (left n); Some (\<not> cmp (gk (node_value m)) (gk (node_value n)) \<ge> 0) }) = Some True"
  proof (cases "l = Tip")
    case False
    with root_key [OF n(3) False, of gk] lt(1) k show ?thesis by auto
  qed (use n(3) in auto)
  have R: "(if right n = nullptr then Some True
      else do { m \<leftarrow> node_at s (right n); Some (\<not> cmp (gk (node_value m)) (gk (node_value n)) \<le> 0) }) = Some True"
  proof (cases "r = Tip")
    case False
    with root_key [OF n(4) False, of gk] lt(2) k show ?thesis by force
  qed (use n(4) in auto)
  show ?thesis unfolding verify_node_def n(1) Option.bind.bind_lunit L R CalculateHeight_at [OF n(3)] CalculateHeight_at [OF n(4)]
    using d by auto
qed

lemma verify_loop_at:
  assumes c: "comparator cmp" and rt: "rooted s t" and asc: "ascending cmp (map (kf gk s) (inord t))"
  shows "tilts t = xs @ ys \<Longrightarrow>
    verify_loop cmp gk s (first_or_null (map fst ys)) b = Some (b \<and> (\<forall>(a, d) \<in> set ys. \<bar>d\<bar> \<le> 1))"
proof (induction ys arbitrary: xs b)
  case Nil
  then show ?case by (subst verify_loop.simps) simp
next
  case (Cons y ys)
  obtain a d where y: "y = (a, d)" by force
  have i: "inord t = map fst xs @ a # map fst ys" using Cons.prems by (simp add: tilts_nodes [symmetric] y)
  have "a \<noteq> nullptr" using rooted_nodes [OF rt, of a] i by simp
  moreover have "verify_node cmp gk s a = Some (\<bar>d\<bar> \<le> 1)" using Cons.prems y by (intro verify_node_at [OF c rt asc]) simp
  moreover have "GetNextNode s a = Some (first_or_null (map fst ys))" using GetNextNode_at [OF rt i] .
  moreover have "verify_loop cmp gk s (first_or_null (map fst ys)) b' = Some (b' \<and> (\<forall>(a, d) \<in> set ys. \<bar>d\<bar> \<le> 1))" for b'
    using Cons.IH [of "xs @ [y]"] Cons.prems by simp
  ultimately show ?case using y by (subst verify_loop.simps) simp
qed

text \<open>On a search tree the checker tells whether the tree is balanced.\<close>

lemma VerifyAvlProperties_at:
  assumes "comparator cmp" and "rooted s t" and "ascending cmp (map (kf gk s) (inord t))"
  shows "VerifyAvlProperties cmp gk s = Some (balanced t)"
  using begin_at [OF assms(2)] verify_loop_at [OF assms, of "[]" "tilts t" True] balanced_tilts [of t]
  by (simp add: VerifyAvlProperties_def avl_begin_def tilts_nodes)

lemma VerifyAvlProperties_ok:
  assumes "comparator cmp" and "avl_inv cmp gk s t"
  shows "VerifyAvlProperties cmp gk s = Some True"
  using assms VerifyAvlProperties_at [of cmp s t gk] avl_state_balanced [of t] by (simp add: avl_inv_def)

section \<open>Sequences of operations\<close>

fun avl_step :: "('v AvlNode heap \<Rightarrow> ptr) \<Rightarrow> ('k \<Rightarrow> 'k \<Rightarrow> int) \<Rightarrow> ('v \<Rightarrow> 'k) \<Rightarrow> ('k, 'v) map_op \<Rightarrow> 'v avl \<Rightarrow> ('v map_out \<times> 'v avl) option" where
  "avl_step alloc cmp gk (Op_Insert v) s = do {
     ((b, p), s) \<leftarrow> avl_InsertWithDuplicate cmp gk s (alloc (nodes s)) v True;
     q \<leftarrow> p;
     d \<leftarrow> avl_iter_deref s q;
     Some (Inserted b d, s) }"
| "avl_step alloc cmp gk (Op_Find k) s = do { r \<leftarrow> avl_Find cmp gk s k; Some (Found r, s) }"
| "avl_step alloc cmp gk (Op_Erase k) s = do { (b, s) \<leftarrow> avl_EraseKey cmp gk s k; Some (Erased (if b then 1 else 0), s) }"
| "avl_step alloc cmp gk Op_Clear s = do { s \<leftarrow> avl_Clear s; Some (Cleared, s) }"

abbreviation avl_run :: "('v AvlNode heap \<Rightarrow> ptr) \<Rightarrow> ('k \<Rightarrow> 'k \<Rightarrow> int) \<Rightarrow> ('v \<Rightarrow> 'k) \<Rightarrow> ('k, 'v) map_op list \<Rightarrow> 'v avl \<Rightarrow> ('v map_out list \<times> 'v avl) option" where
  "avl_run alloc cmp gk \<equiv> run_steps (avl_step alloc cmp gk)"

lemma value_deref: "a \<noteq> nullptr \<Longrightarrow> nodes s a \<noteq> None \<Longrightarrow> avl_iter_deref s a = Some (value_at s a)"
  by (auto simp: avl_iter_deref_def node_at_some value_at_def)

lemma avl_step_refines:
  assumes c: "comparator cmp" and al: "allocates alloc" and inv: "avl_inv cmp gk s t" and fin: "finite (dom (nodes s))"
  shows "\<exists>s' t'. avl_step alloc cmp gk op s = Some (fst (map_step gk op (map_of_vals gk (vals s t))), s') \<and> avl_inv cmp gk s' t'
    \<and> map_of_vals gk (vals s' t') = snd (map_step gk op (map_of_vals gk (vals s t))) \<and> finite (dom (nodes s'))"
proof (cases op)
  case (Op_Insert v)
  let ?q = "alloc (nodes s)"
  from al fin have q: "?q \<noteq> nullptr" "nodes s ?q = None" by (auto simp: allocates_def)
  note I = avl_InsertWithDuplicate_ok [OF c inv q, of v True]
  show ?thesis
  proof (cases "map_of_vals gk (vals s t) (gk v)")
    case (Some d)
    with I obtain a where a: "avl_InsertWithDuplicate cmp gk s ?q v True = Some ((False, report True a), s)"
      "a \<in> set (inord t)" "value_at s a = d" by auto
    have "rooted s t" using inv by (simp add: avl_inv_def)
    from rooted_nodes [OF this a(2)] have "avl_iter_deref s a = Some d" using value_deref a(3) by blast
    then show ?thesis using a inv fin Some by (auto simp: Op_Insert report_def)
  next
    case None
    with I obtain s' t' where s': "avl_InsertWithDuplicate cmp gk s ?q v True = Some ((True, report True ?q), s')" "avl_inv cmp gk s' t'"
      "map_of_vals gk (vals s' t') = (map_of_vals gk (vals s t))(gk v \<mapsto> v)" "value_at s' ?q = v" "?q \<in> set (inord t')"
      "\<forall>a. nodes s' a = None \<longleftrightarrow> nodes s a = None \<and> a \<noteq> ?q" by auto
    have "rooted s' t'" using s'(2) by (simp add: avl_inv_def)
    from rooted_nodes [OF this s'(5)] have "avl_iter_deref s' ?q = Some v" using value_deref s'(4) by blast
    moreover have "dom (nodes s') \<subseteq> insert ?q (dom (nodes s))"
    proof
      fix x assume "x \<in> dom (nodes s')"
      then have "\<not> (nodes s x = None \<and> x \<noteq> ?q)" using spec [OF s'(6), of x] by auto
      then show "x \<in> insert ?q (dom (nodes s))" by auto
    qed
    then have "finite (dom (nodes s'))" using fin by (metis finite_insert finite_subset)
    ultimately show ?thesis using s'(1-3) None by (auto simp: Op_Insert report_def)
  qed
next
  case (Op_Find k)
  then show ?thesis using avl_Find_ok [OF c inv, of k] inv fin by auto
next
  case (Op_Erase k)
  from EraseKey_ok [OF c inv, of k] obtain s' t' where s': "avl_EraseKey cmp gk s k = Some (map_of_vals gk (vals s t) k \<noteq> None, s')"
    "avl_inv cmp gk s' t'" "map_of_vals gk (vals s' t') = (map_of_vals gk (vals s t))(k := None)"
    "\<forall>a. nodes s' a \<noteq> None \<longrightarrow> nodes s a \<noteq> None" by blast
  have "dom (nodes s') \<subseteq> dom (nodes s)" using s'(4) by blast
  then have "finite (dom (nodes s'))" using fin by (rule finite_subset)
  then show ?thesis using s' by (auto simp: Op_Erase)
next
  case Op_Clear
  from inv Clear_at [of s t] obtain s' where s': "avl_Clear s = Some s'" "rooted s' Tip" "nodes s' = nodes s |` (- set (inord t))"
    by (auto simp: avl_inv_def)
  then have "avl_inv cmp gk s' Tip" "map_of_vals gk (vals s' Tip) = Map.empty" by (simp_all add: avl_inv_def avl_state_def vals_def)
  moreover have "finite (dom (nodes s'))" using fin s'(3) by simp
  ultimately show ?thesis using s'(1) by (auto simp: Op_Clear)
qed

text \<open>The tree has no limit on its entries, so the interpretation is for any one.\<close>

definition avl_rep ::
    "('v AvlNode heap \<Rightarrow> ptr) \<Rightarrow> ('k \<Rightarrow> 'k \<Rightarrow> int) \<Rightarrow> ('v \<Rightarrow> 'k) \<Rightarrow> 'v avl \<Rightarrow> ('k \<rightharpoonup> 'v) \<Rightarrow> nat \<Rightarrow> bool" where
  "avl_rep alloc cmp gk s m n \<longleftrightarrow> comparator cmp \<and> allocates alloc \<and> finite (dom (nodes s))
     \<and> (\<exists>t. avl_inv cmp gk s t \<and> m = map_of_vals gk (vals s t))"

interpretation tree_map: map_impl gk "avl_step alloc cmp gk" "avl_rep alloc cmp gk" limit for gk alloc cmp limit
proof
  fix s m op and n :: nat
  assume "avl_rep alloc cmp gk s m n"
  then obtain t where rep: "comparator cmp" "allocates alloc" "avl_inv cmp gk s t" "finite (dom (nodes s))"
    "m = map_of_vals gk (vals s t)" by (auto simp: avl_rep_def)
  from avl_step_refines [OF rep(1-4), of op] rep(1,2,5)
  show "\<exists>s'. avl_step alloc cmp gk op s = Some (fst (map_step gk op m), s') \<and> avl_rep alloc cmp gk s' (snd (map_step gk op m)) (Suc n)"
    by (auto simp: avl_rep_def) metis
qed

lemma new_ok: "avl_inv cmp gk (AvlTree_new h junk) Tip \<and> vals (AvlTree_new h junk) Tip = []"
  by (simp add: avl_inv_def rooted_Tip AvlTree_new_def avl_state_def vals_def)

section \<open>Properties\<close>

text \<open>
  C4: from construction on, any sequence of insertions, lookups, erasures and clears of an
  \<open>AvlTree\<close> is defined (no pointer that is dereferenced is null or freed, every loop ends) and has
  the results of a finite map, for every comparator that is a total order and every allocator
  that returns unused addresses. The checker of the debug build, which walks over all nodes and
  compares keys and heights, accepts the tree that is left, and a walk visits exactly the entries
  of the map, in ascending order of the keys.
\<close>
theorem avl_tree_refines_map:
  assumes c: "comparator cmp" and al: "allocates alloc" and fin: "finite (dom h)"
  shows "\<exists>s' vs. avl_run alloc cmp gk ops (AvlTree_new h junk) = Some (fst (map_run gk ops Map.empty), s')
    \<and> VerifyAvlProperties cmp gk s' = Some True
    \<and> (\<forall>k. avl_Find cmp gk s' k = Some (snd (map_run gk ops Map.empty) k))
    \<and> DoInAll (\<lambda>v vs. vs @ [v]) s' [] = Some vs \<and> ascending cmp (map gk vs)
    \<and> (\<forall>v. v \<in> set vs \<longleftrightarrow> snd (map_run gk ops Map.empty) (gk v) = Some v)"
proof -
  have new: "avl_inv cmp gk (AvlTree_new h junk) Tip" "vals (AvlTree_new h junk) Tip = []" using new_ok by auto
  have "finite (dom (nodes (AvlTree_new h junk)))" using fin by (simp add: AvlTree_new_def)
  then have "avl_rep alloc cmp gk (AvlTree_new h junk) Map.empty 0" using c al new by (auto simp: avl_rep_def)
  from tree_map.run_refines [OF this, where ops = ops and limit = "length ops"] obtain s' t' where
    r: "avl_run alloc cmp gk ops (AvlTree_new h junk) = Some (fst (map_run gk ops Map.empty), s')" "avl_inv cmp gk s' t'"
      "map_of_vals gk (vals s' t') = snd (map_run gk ops Map.empty)" by (auto simp: avl_rep_def)
  from r(2) have rt: "rooted s' t'" and asc: "ascending cmp (map gk (vals s' t'))" by (simp_all add: avl_inv_def keys_vals)
  have "fold (\<lambda>b vs. vs @ [value_at s' b]) xs vs = vs @ map (value_at s') xs" for xs vs by (induction xs arbitrary: vs) auto
  then have "DoInAll (\<lambda>v vs. vs @ [v]) s' [] = Some (vals s' t')" using DoInAll_at [OF rt, of "\<lambda>v vs. vs @ [v]" "[]"] by (simp add: vals_def)
  moreover have "distinct (map gk (vals s' t'))" using ascending_distinct [OF c asc] .
  then have "v \<in> set (vals s' t') \<longleftrightarrow> snd (map_run gk ops Map.empty) (gk v) = Some v" for v
    unfolding r(3) [symmetric] by (simp add: map_of_vals_Some)
  moreover have "avl_Find cmp gk s' k = Some (snd (map_run gk ops Map.empty) k)" for k
    using avl_Find_ok [OF c r(2)] r(3) by simp
  ultimately show ?thesis using r(1) asc VerifyAvlProperties_ok [OF c r(2)] by blast
qed

theorem avl_tree_refines_map_witness:
  "\<exists>s'. avl_run next_address cmp_unsigned fst [Op_Insert (1 :: u32, 5 :: nat), Op_Insert (2, 6), Op_Insert (1, 7), Op_Erase 2, Op_Find 1]
      (AvlTree_new Map.empty 0) = Some ([Inserted True (1, 5), Inserted True (2, 6), Inserted False (1, 5), Erased 1, Found (Some (1, 5))], s')
    \<and> VerifyAvlProperties cmp_unsigned fst s' = Some True"
proof -
  let ?ops = "[Op_Insert (1 :: u32, 5 :: nat), Op_Insert (2, 6), Op_Insert (1, 7), Op_Erase 2, Op_Find 1]"
  have m: "fst (map_run fst ?ops Map.empty) =
      [Inserted True (1, 5), Inserted True (2, 6), Inserted False (1, 5), Erased 1, Found (Some (1, 5))]" by simp
  have "finite (dom (Map.empty :: (u32 \<times> nat) AvlNode heap))" by simp
  from avl_tree_refines_map [OF unsigned.comparator_axioms next_address_allocates this, of fst ?ops 0] show ?thesis
    unfolding m by blast
qed

text \<open>
  C22: on a valid tree \<open>InsertWithDuplicate\<close> reports the entry of a known key and changes nothing;
  a new value is put at its place in key order, the tree stays valid, and the count grows by one,
  except when the tree had one node: the count then stays as it was.
\<close>
theorem avl_insert:
  assumes "comparator cmp" and "avl_inv cmp gk s t" and "q \<noteq> nullptr" and "nodes s q = None"
  shows "case map_of_vals gk (vals s t) (gk v) of
      Some d \<Rightarrow> \<exists>a. avl_InsertWithDuplicate cmp gk s q v True = Some ((False, Some a), s) \<and> a \<in> set (inord t) \<and> value_at s a = d
    | None \<Rightarrow> \<exists>s' t' xs ys. avl_InsertWithDuplicate cmp gk s q v True = Some ((True, Some q), s') \<and> avl_inv cmp gk s' t'
        \<and> vals s t = xs @ ys \<and> vals s' t' = xs @ v # ys
        \<and> avl_size s' = avl_size s + (if single t then 0 else 1)"
  using avl_InsertWithDuplicate_ok [OF assms, of v True] by (auto simp: report_def avl_size_def split: option.splits)

definition demo_avl :: "u32 avl" where
  "demo_avl = \<lparr>nodes = [8 \<mapsto> \<lparr>parent = 0, left = 0, right = 0, height = 1, node_value = 5\<rparr>], root = 8, tree_count = 1\<rparr>"

lemma demo_avl_inv: "avl_inv cmp_unsigned id demo_avl (Nd Tip 8 1 Tip)" and demo_avl_vals: "vals demo_avl (Nd Tip 8 1 Tip) = [5]"
  by (simp_all add: avl_inv_def rooted_def place_def distinct_at_def demo_avl_def avl_state_def vals_def value_at_def)

theorem avl_insert_witness:
  "\<exists>s' t'. avl_InsertWithDuplicate cmp_unsigned id demo_avl 9 3 True = Some ((True, Some 9), s')
    \<and> avl_inv cmp_unsigned id s' t' \<and> length (vals s' t') = 2 \<and> avl_size s' = 1"
proof -
  have "(9 :: nat) \<noteq> 0" "nodes demo_avl 9 = None" by (simp_all add: demo_avl_def)
  from avl_insert [OF unsigned.comparator_axioms demo_avl_inv this, of 3] obtain s' t' xs ys where
    s': "avl_InsertWithDuplicate cmp_unsigned id demo_avl 9 3 True = Some ((True, Some 9), s')" "avl_inv cmp_unsigned id s' t'"
    "[5] = xs @ ys" "vals s' t' = xs @ 3 # ys" "avl_size s' = avl_size demo_avl"
    by (auto simp: demo_avl_vals)
  from arg_cong [OF s'(3), of length] have "length (vals s' t') = 2" unfolding s'(4) by simp
  moreover have "avl_size demo_avl = 1" by (simp add: avl_size_def demo_avl_def)
  ultimately show ?thesis using s'(1,2,5) by auto
qed

text \<open>
  On a valid tree \<open>Erase\<close> of a key takes exactly its entry out and keeps the order of the
  others, whichever of the three cases of the unlinking applies; the tree stays valid and the
  count drops by one. An unknown key changes nothing.
\<close>
theorem avl_erase:
  assumes "comparator cmp" and "avl_inv cmp gk s t"
  shows "(k \<notin> gk ` set (vals s t) \<longrightarrow> avl_EraseKey cmp gk s k = Some (False, s))
    \<and> (k \<in> gk ` set (vals s t) \<longrightarrow> (\<exists>s' t' xs v ys. avl_EraseKey cmp gk s k = Some (True, s') \<and> avl_inv cmp gk s' t'
        \<and> vals s t = xs @ v # ys \<and> gk v = k \<and> vals s' t' = xs @ ys \<and> avl_size s' = avl_size s - 1))"
proof -
  from EraseKey_ok [OF assms, of k] obtain s' t' where
    s': "avl_EraseKey cmp gk s k = Some (map_of_vals gk (vals s t) k \<noteq> None, s')" "avl_inv cmp gk s' t'"
    "map_of_vals gk (vals s t) k = None \<longrightarrow> s' = s"
    "map_of_vals gk (vals s t) k \<noteq> None \<longrightarrow> tree_count s' = tree_count s - 1
        \<and> (\<exists>xs v ys. vals s t = xs @ v # ys \<and> gk v = k \<and> vals s' t' = xs @ ys)" by (elim exE conjE) (rule that)
  have n: "map_of_vals gk (vals s t) k = None \<longleftrightarrow> k \<notin> gk ` set (vals s t)" by (rule map_of_vals_None)
  show ?thesis
  proof (cases "k \<in> gk ` set (vals s t)")
    case True
    then show ?thesis using s' n by (simp add: avl_size_def) blast
  next
    case False
    then show ?thesis using s' n by simp
  qed
qed

theorem avl_erase_witness: "\<exists>s' t'. avl_EraseKey cmp_unsigned id demo_avl 5 = Some (True, s') \<and> avl_inv cmp_unsigned id s' t' \<and> vals s' t' = []"
proof -
  from avl_erase [OF unsigned.comparator_axioms demo_avl_inv, of 5] obtain s' t' xs v ys where
    "avl_EraseKey cmp_unsigned id demo_avl 5 = Some (True, s')" "avl_inv cmp_unsigned id s' t'" "[5] = xs @ v # ys" "vals s' t' = xs @ ys"
    by (auto simp: demo_avl_vals)
  then show ?thesis by (cases xs) auto
qed

text \<open>
  C23: on a valid tree the lower bound of a key is the first node, in key order, whose key is not
  smaller, the upper bound the first whose key is greater, and the end when there is none; the
  iterators from a node visit the rest of the nodes in key order and then the end.
\<close>
theorem avl_bounds_and_order:
  assumes c: "comparator cmp" and inv: "avl_inv cmp gk s t"
  shows "LowerBound cmp gk s k = Some (first_that (\<lambda>a. 0 \<le> cmp (kf gk s a) k) (inord t) avl_end)
    \<and> UpperBound cmp gk s k = Some (first_that (\<lambda>a. 0 < cmp (kf gk s a) k) (inord t) avl_end)
    \<and> avl_begin s = Some (first_or_null (inord t)) \<and> avl_before_end s = Some (last_or_null (inord t))
    \<and> (\<forall>xs a ys. inord t = xs @ a # ys \<longrightarrow> avl_iter_Increment s a = Some (first_or_null ys)
        \<and> avl_iter_Decrement s a = Some (last_or_null xs))
    \<and> avl_for_each s (first_or_null (inord t)) (\<lambda>v vs. vs @ [v]) [] = Some (vals s t)"
proof -
  from inv have rt: "rooted s t" and asc: "ascending cmp (map (kf gk s) (inord t))" by (simp_all add: avl_inv_def)
  have at: "tree_at (nodes s) nullptr (root s) t" using rt by (simp add: rooted_def place_def)
  have lo: "0 \<le> cmp (kf gk s b) k" if "cmp (kf gk s a) (kf gk s b) < 0" "0 \<le> cmp (kf gk s a) k" for a b
    using comparator.cmp_trans [OF c that(1), of k] that(2) by (metis linorder_not_less)
  have hi: "0 < cmp (kf gk s b) k" if "cmp (kf gk s a) (kf gk s b) < 0" "0 < cmp (kf gk s a) k" for a b
    using comparator.cmp_trans [OF c _ that(1), of k] that(2) comparator.cmp_flip [OF c] by metis
  have f: "fold (\<lambda>b vs. vs @ [value_at s b]) xs vs = vs @ map (value_at s) xs" for xs vs by (induction xs arbitrary: vs) auto
  have "avl_for_each s (first_or_null (inord t)) (\<lambda>v vs. vs @ [v]) [] = Some (vals s t)"
    using for_each_at [OF rt, of "[]" "inord t" "\<lambda>v vs. vs @ [v]" "[]"] f [of "inord t" "[]"] by (simp add: vals_def)
  moreover have "LowerBound cmp gk s k = Some (first_that (\<lambda>a. 0 \<le> cmp (kf gk s a) k) (inord t) avl_end)"
    unfolding LowerBound_def avl_end_def by (rule bound_loop_at(1) [OF lo asc at refl])
  moreover have "UpperBound cmp gk s k = Some (first_that (\<lambda>a. 0 < cmp (kf gk s a) k) (inord t) avl_end)"
    unfolding UpperBound_def avl_end_def by (rule bound_loop_at(2) [OF hi asc at refl])
  ultimately show ?thesis
    using begin_at [OF rt] before_end_at [OF rt] GetNextNode_at [OF rt] GetPrevNode_at [OF rt]
    by (simp add: avl_iter_Increment_def avl_iter_Decrement_def)
qed

theorem avl_bounds_and_order_witness:
  "LowerBound cmp_unsigned id demo_avl 5 = Some 8 \<and> UpperBound cmp_unsigned id demo_avl 5 = Some 0"
  using avl_bounds_and_order [OF unsigned.comparator_axioms demo_avl_inv, of 5]
  by (simp add: first_that_def kf_def value_at_def demo_avl_def cmp_unsigned_def avl_end_def)

end
