(* ===== verification/Avl_Reuse.thy ===== *)
theory Avl_Reuse
  imports Avl_Tree_Walk
begin

text \<open>
  \<open>ReuseAllNodes\<close> (\<open>algo/internal/avl_tree_impl.h\<close>) with any callback. What a callback has to
  promise is the locale \<open>ordered_sink\<close>: it takes a node with cleared links, may do with it and with
  the nodes it already has what it likes, and leaves the nodes still to come alone. It gets the nodes
  in post-order; a callback to which the order does not matter is a \<open>node_sink\<close>.
\<close>

lemma mset_postord: "mset (postord t) = mset (inord t)"
  by (induction t) simp_all

lemma distinct_postord [simp]: "distinct (postord t) = distinct (inord t)"
  by (metis mset_postord mset_eq_imp_distinct_iff)

section \<open>In post-order\<close>

text \<open>
  \<open>L\<close> are the nodes of the tree in the order they come, \<open>val\<close> their values, \<open>I ds h x\<close> holds when the
  nodes \<open>ds\<close> have been handed out; it does not depend on the others.
\<close>

locale ordered_sink =
  fixes cb :: "ptr \<Rightarrow> 'v AvlNode heap \<Rightarrow> 'x \<Rightarrow> ('v AvlNode heap \<times> 'x) option"
    and val :: "ptr \<Rightarrow> 'v"
    and L :: "ptr list"
    and I :: "ptr list \<Rightarrow> 'v AvlNode heap \<Rightarrow> 'x \<Rightarrow> bool"
  assumes order_frame: "I ds h x \<Longrightarrow> (\<And>b. b \<notin> set L - set ds \<Longrightarrow> h' b = h b) \<Longrightarrow> I ds h' x"
    and order_step: "I ds h x \<Longrightarrow> L = ds @ a # rest \<Longrightarrow> h a = Some n \<Longrightarrow> node_value n = val a \<Longrightarrow> a \<noteq> nullptr \<Longrightarrow>
          left n = nullptr \<Longrightarrow> right n = nullptr \<Longrightarrow> parent n = nullptr \<Longrightarrow> height n = 0 \<Longrightarrow>
          \<exists>h' x'. cb a h x = Some (h', x') \<and> I (ds @ [a]) h' x' \<and> (\<forall>b \<in> set rest. h' b = h b)"
begin

text \<open>Handing out a subtree of a node whose other links are as they were.\<close>

definition handed :: "ptr list \<Rightarrow> ptr list \<Rightarrow> ptr \<Rightarrow> 'v AvlNode \<Rightarrow> 'v AvlNode heap \<Rightarrow> 'v AvlNode heap \<Rightarrow> 'x \<Rightarrow> bool" where
  "handed ds us par P h h' x' \<longleftrightarrow>
     I (ds @ us) h' x' \<and> h' par = Some P \<and> (\<forall>b \<in> set L - set ds - set us - {par}. h' b = h b)"

lemma hand_root:
  assumes i: "I ds h x" and L: "L = ds @ a # rest" "distinct L" and a: "a \<noteq> nullptr" and n: "h a = Some n" "node_value n = val a"
    "left n = nullptr" "right n = nullptr" "parent n = nullptr"
  shows "\<exists>h' x'. reuse_loop cb h x a = Some (h', x') \<and> I (ds @ [a]) h' x'"
proof -
  let ?n = "(isolate n)\<lparr>height := 0\<rparr>"
  let ?h = "h(a \<mapsto> ?n)"
  have i': "I ds ?h x" by (rule order_frame [OF i]) (use L in auto)
  have hn: "?h a = Some ?n" "node_value ?n = val a" "left ?n = nullptr" "right ?n = nullptr" "parent ?n = nullptr" "height ?n = 0"
    using n(2) by (simp_all add: isolate_def)
  from order_step [OF i' L(1) hn(1,2) a hn(3-6)] obtain h' x' where cb: "cb a ?h x = Some (h', x')" "I (ds @ [a]) h' x'" by blast
  then show ?thesis using a n by (subst reuse_loop.simps) (simp add: deref_def store_def)
qed

lemma hand_child:
  assumes i: "I ds h x" and L: "L = ds @ a # rest" "distinct L" and a: "a \<noteq> nullptr" and n: "h a = Some n" "node_value n = val a"
    "left n = nullptr" "right n = nullptr" "parent n = par" and par: "par \<noteq> nullptr" "par \<in> set rest" "h par = Some P"
  shows "\<exists>h' x'. reuse_loop cb h x a = reuse_loop cb h' x' par
    \<and> handed ds [a] par (if left P = a then P\<lparr>left := nullptr\<rparr> else P\<lparr>right := nullptr\<rparr>) h h' x'"
proof -
  let ?P = "if left P = a then P\<lparr>left := nullptr\<rparr> else P\<lparr>right := nullptr\<rparr>"
  let ?n = "(isolate n)\<lparr>height := 0\<rparr>"
  let ?h = "h(a \<mapsto> ?n, par \<mapsto> ?P)"
  have pa: "par \<noteq> a" using par L by auto
  have i': "I ds ?h x" by (rule order_frame [OF i]) (use L par in auto)
  have hn: "?h a = Some ?n" "node_value ?n = val a" "left ?n = nullptr" "right ?n = nullptr" "parent ?n = nullptr" "height ?n = 0"
    using pa n(2) by (simp_all add: isolate_def)
  obtain h' x' where
    cb: "cb a ?h x = Some (h', x')" "I (ds @ [a]) h' x'" "\<forall>b \<in> set rest. h' b = ?h b"
    using order_step [OF i' L(1) hn(1,2) a hn(3-6)] by blast
  have "reuse_loop cb h x a = reuse_loop cb h' x' par"
    using reuse_leaf [OF a, of h n cb x] n par pa cb(1) by (simp add: deref_def store_def)
  moreover have "h' par = Some ?P" using cb(3) par(2) by simp
  moreover have "\<forall>b \<in> set L - set ds - set [a] - {par}. h' b = h b"
  proof
    fix b assume "b \<in> set L - set ds - set [a] - {par}"
    then have "b \<in> set rest" "b \<noteq> a" "b \<noteq> par" using L(1) by auto
    then show "h' b = h b" using cb(3) by simp
  qed
  ultimately have "handed ds [a] par ?P h h' x'" using cb(2) by (simp add: handed_def)
  with \<open>reuse_loop cb h x a = reuse_loop cb h' x' par\<close> show ?thesis by blast
qed

text \<open>The nodes of a subtree.\<close>

lemma hand_subtree:
  "tree_at h par p t \<Longrightarrow> t \<noteq> Tip \<Longrightarrow> distinct L \<Longrightarrow> L = ds @ postord t @ rest \<Longrightarrow>
    (\<And>b. b \<in> set (inord t) \<Longrightarrow> node_value (the (h b)) = val b) \<Longrightarrow> I ds h x \<Longrightarrow>
    (par = nullptr \<longrightarrow> (\<exists>h' x'. reuse_loop cb h x p = Some (h', x') \<and> I (ds @ postord t) h' x')) \<and>
    (\<forall>P. par \<noteq> nullptr \<and> par \<in> set rest \<and> h par = Some P \<longrightarrow>
       (\<exists>h' x'. reuse_loop cb h x p = reuse_loop cb h' x' par
         \<and> handed ds (postord t) par (if left P = p then P\<lparr>left := nullptr\<rparr> else P\<lparr>right := nullptr\<rparr>) h h' x'))"
proof (induction t arbitrary: h par p x ds rest)
  case Tip
  from Tip(2) show ?case by blast
next
  case (Nd l a hh r)
  then obtain n where n: "p = a" "a \<noteq> nullptr" "h a = Some n" "parent n = par" "tree_at h a (left n) l" "tree_at h a (right n) r"
    by auto
  note dL = Nd.prems(3)
  have Ll: "L = ds @ postord l @ (postord r @ a # rest)" and Lr: "L = (ds @ postord l) @ postord r @ (a # rest)"
    and La: "L = (ds @ postord l @ postord r) @ a # rest" using Nd.prems(4) by simp_all
  have S: "a \<notin> set (inord l)" "a \<notin> set (inord r)" "a \<notin> set ds" "set (inord l) \<inter> set (inord r) = {}" "set ds \<inter> set (inord r) = {}"
    using dL unfolding Nd.prems(4) by auto
  have v: "node_value n = val a" using Nd.prems(5) [of a] n(3) by simp
  have vl: "node_value (the (h b)) = val b" if "b \<in> set (inord l)" for b using Nd.prems(5) that by simp
  obtain h1 x1 where 1: "reuse_loop cb h x a = reuse_loop cb h1 x1 a"
    "handed ds (postord l) a (n\<lparr>left := nullptr\<rparr>) h h1 x1"
  proof (cases "l = Tip")
    case True
    then have "handed ds (postord l) a (n\<lparr>left := nullptr\<rparr>) h h x" using n Nd.prems(6) by (simp add: handed_def)
    then show thesis by (intro that [of h x]) simp_all
  next
    case False
    from tree_at_not_Tip [OF n(5) False] have "reuse_loop cb h x a = reuse_loop cb h x (left n)"
      using n(2,3) by (subst reuse_loop.simps) (simp add: deref_def)
    moreover from Nd.IH(1) [OF n(5) False dL Ll vl Nd.prems(6)] n(2,3) obtain h1 x1 where
      "reuse_loop cb h x (left n) = reuse_loop cb h1 x1 a" "handed ds (postord l) a (n\<lparr>left := nullptr\<rparr>) h h1 x1" by auto
    ultimately show thesis by (intro that [of h1 x1]) simp_all
  qed
  let ?ds = "ds @ postord l" and ?n = "n\<lparr>left := nullptr, right := nullptr\<rparr>"
  from 1(2) have h1: "I ?ds h1 x1" "h1 a = Some (n\<lparr>left := nullptr\<rparr>)" "\<And>b. b \<in> set L - set ?ds - {a} \<Longrightarrow> h1 b = h b"
    by (auto simp: handed_def)
  have er: "h1 b = h b" if "b \<in> set (inord r)" for b using that S Ll by (intro h1(3)) auto
  have tr: "tree_at h1 a (right n) r" by (rule tree_at_frame [OF n(6)]) (rule er)
  have vr: "node_value (the (h1 b)) = val b" if "b \<in> set (inord r)" for b using that er Nd.prems(5) [of b] by simp
  obtain h2 x2 where 2: "reuse_loop cb h1 x1 a = reuse_loop cb h2 x2 a" "handed ?ds (postord r) a ?n h1 h2 x2"
  proof (cases "r = Tip")
    case True
    then have "n\<lparr>left := nullptr, right := nullptr\<rparr> = n\<lparr>left := nullptr\<rparr>" using n(6) by (cases n) simp
    then have "handed ?ds (postord r) a ?n h1 h1 x1" using True h1 by (simp add: handed_def)
    then show thesis by (intro that [of h1 x1]) simp_all
  next
    case False
    note ch = tree_at_not_Tip [OF tr False]
    from ch have "reuse_loop cb h1 x1 a = reuse_loop cb h1 x1 (right n)"
      using n(2) h1(2) by (subst reuse_loop.simps) (simp add: deref_def)
    moreover from Nd.IH(2) [OF tr False dL Lr vr h1(1)] n(2) h1(2) ch obtain h2 x2 where
      "reuse_loop cb h1 x1 (right n) = reuse_loop cb h2 x2 a" "handed ?ds (postord r) a ?n h1 h2 x2" by auto
    ultimately show thesis by (intro that [of h2 x2]) simp_all
  qed
  let ?ds2 = "ds @ postord l @ postord r"
  from 2(2) have h2: "I ?ds2 h2 x2" "h2 a = Some ?n" "\<And>b. b \<in> set L - set ?ds2 - {a} \<Longrightarrow> h2 b = h1 b" by (auto simp: handed_def)
  have D: "?ds2 @ [a] = ds @ postord (Nd l a hh r)" by simp
  have fr: "h2 b = h b" if "b \<in> set L - set ds - set (inord (Nd l a hh r))" for b using h1(3) [of b] h2(3) [of b] that by auto
  have eq: "reuse_loop cb h x p = reuse_loop cb h2 x2 a" using 1(1) 2(1) n(1) by simp
  show ?case
  proof (intro conjI impI allI)
    assume "par = nullptr"
    then show "\<exists>h' x'. reuse_loop cb h x p = Some (h', x') \<and> I (ds @ postord (Nd l a hh r)) h' x'"
      using hand_root [OF h2(1) La dL n(2) h2(2)] v n(4) unfolding eq D [symmetric] by simp
  next
    fix P assume P: "par \<noteq> nullptr \<and> par \<in> set rest \<and> h par = Some P"
    let ?P = "if left P = p then P\<lparr>left := nullptr\<rparr> else P\<lparr>right := nullptr\<rparr>"
    have "par \<in> set L - set ds - set (inord (Nd l a hh r))" using P dL unfolding Nd.prems(4) by auto
    then have "h2 par = Some P" using P fr by simp
    then obtain h' x' where c: "reuse_loop cb h2 x2 a = reuse_loop cb h' x' par" "handed ?ds2 [a] par ?P h2 h' x'"
      using hand_child [OF h2(1) La dL n(2) h2(2), of par P] P v n(1,4) by auto
    have "handed ds (postord (Nd l a hh r)) par ?P h h' x'"
      using c(2) fr unfolding handed_def by auto
    then show "\<exists>h' x'. reuse_loop cb h x p = reuse_loop cb h' x' par
         \<and> handed ds (postord (Nd l a hh r)) par ?P h h' x'" using c(1) unfolding eq by blast
  qed
qed

lemma hand_out_in_order:
  assumes "rooted s t" and "postord t = L" and "\<And>b. b \<in> set L \<Longrightarrow> value_at s b = val b" and "I [] (nodes s) x"
  shows "\<exists>s' x'. ReuseAllNodes cb s x = Some (x', s') \<and> root s' = nullptr \<and> I L (nodes s') x'"
proof (cases "t = Tip")
  case True
  then show ?thesis using assms by (auto simp: ReuseAllNodes_def reuse_loop.simps SetCount_def rooted_Tip)
next
  case False
  have t: "tree_at (nodes s) nullptr (root s) t" "distinct L"
    using assms(1) by (auto simp: assms(2) [symmetric] rooted_def place_def distinct_at_def)
  have "L = [] @ postord t @ []" using assms(2) by simp
  from hand_subtree [OF t(1) False t(2) this, of x] assms obtain h' x' where
    "reuse_loop cb (nodes s) x (root s) = Some (h', x')" "I L h' x'" by (auto simp: value_at_def)
  then show ?thesis by (simp add: ReuseAllNodes_def SetCount_def)
qed

end

section \<open>In any order\<close>

text \<open>Here \<open>A\<close> is the set of the nodes, and \<open>I D h x\<close> speaks of the set \<open>D\<close> that has been handed out.\<close>

locale node_sink =
  fixes cb :: "ptr \<Rightarrow> 'v AvlNode heap \<Rightarrow> 'x \<Rightarrow> ('v AvlNode heap \<times> 'x) option"
    and val :: "ptr \<Rightarrow> 'v"
    and A :: "ptr set"
    and I :: "ptr set \<Rightarrow> 'v AvlNode heap \<Rightarrow> 'x \<Rightarrow> bool"
  assumes sink_frame: "I D h x \<Longrightarrow> (\<And>b. b \<notin> A - D \<Longrightarrow> h' b = h b) \<Longrightarrow> I D h' x"
    and sink_step: "I D h x \<Longrightarrow> a \<in> A - D \<Longrightarrow> h a = Some n \<Longrightarrow> node_value n = val a \<Longrightarrow> a \<noteq> nullptr \<Longrightarrow>
          left n = nullptr \<Longrightarrow> right n = nullptr \<Longrightarrow> parent n = nullptr \<Longrightarrow> height n = 0 \<Longrightarrow>
          \<exists>h' x'. cb a h x = Some (h', x') \<and> I (insert a D) h' x' \<and> (\<forall>b \<in> A - insert a D. h' b = h b)"
begin

lemma ordered:
  assumes L: "set L = A" "distinct L"
  shows "ordered_sink cb val L (\<lambda>ds. I (set ds))"
proof
  fix ds h x h' assume "I (set ds) h x" and "\<And>b. b \<notin> set L - set ds \<Longrightarrow> h' b = h b"
  then show "I (set ds) h' x" using sink_frame [of "set ds" h x h'] L(1) by blast
next
  fix ds h x a rest n
  assume i: "I (set ds) h x" and La: "L = ds @ a # rest"
    and n: "h a = Some n" "node_value n = val a" "a \<noteq> nullptr" "left n = nullptr" "right n = nullptr" "parent n = nullptr" "height n = 0"
  have a: "a \<in> A - set ds" and rest: "A - insert a (set ds) = set rest"
    using L(2) unfolding La L(1) [symmetric] by auto
  from sink_step [OF i a n] show "\<exists>h' x'. cb a h x = Some (h', x') \<and> I (set (ds @ [a])) h' x' \<and> (\<forall>b \<in> set rest. h' b = h b)"
    unfolding rest by simp
qed

lemma hand_out:
  assumes rt: "rooted s t" and "set (inord t) = A" and "\<And>b. b \<in> A \<Longrightarrow> value_at s b = val b" and "I {} (nodes s) x"
  shows "\<exists>s' x'. ReuseAllNodes cb s x = Some (x', s') \<and> root s' = nullptr \<and> I A (nodes s') x'"
proof -
  have "set (postord t) = A" "distinct (postord t)" using assms(2) rooted_distinct [OF rt] by simp_all
  from ordered_sink.hand_out_in_order [OF ordered [OF this] rt refl, of x] assms(2-4) show ?thesis by simp
qed

end

section \<open>Collecting the nodes\<close>

text \<open>A callback that keeps what it is handed: every node of the tree, once, with its links and its height cleared.\<close>

definition loose_node :: "'v \<Rightarrow> 'v AvlNode" where
  "loose_node v = \<lparr>parent = nullptr, left = nullptr, right = nullptr, height = 0, node_value = v\<rparr>"

definition collect_node ::
    "ptr \<Rightarrow> 'v AvlNode heap \<Rightarrow> (ptr \<times> 'v AvlNode) list \<Rightarrow> ('v AvlNode heap \<times> (ptr \<times> 'v AvlNode) list) option" where
  "collect_node a h x = do { n \<leftarrow> deref h a; Some (h, x @ [(a, n)]) }"

interpretation collecting: ordered_sink collect_node val L "\<lambda>ds h x. x = map (\<lambda>a. (a, loose_node (val a))) ds"
  for val :: "ptr \<Rightarrow> 'v" and L
proof
  fix ds :: "ptr list" and h :: "'v AvlNode heap" and x a rest n
  assume "x = map (\<lambda>a. (a, loose_node (val a))) ds" and n: "h a = Some n" "node_value n = val a" "a \<noteq> nullptr"
    "left n = nullptr" "right n = nullptr" "parent n = nullptr" "height n = 0"
  moreover have "n = loose_node (val a)" using n(2,4-7) by (simp add: loose_node_def)
  ultimately show "\<exists>h' x'. collect_node a h x = Some (h', x') \<and> x' = map (\<lambda>a. (a, loose_node (val a))) (ds @ [a])
      \<and> (\<forall>b \<in> set rest. h' b = h b)"
    by (simp add: collect_node_def deref_def)
qed

end
