(* ===== verification/Tree_Hash_Table.thy ===== *)
theory Tree_Hash_Table
  imports Avl_Tree_Base Hash_Table
begin

text \<open>
  \<open>TreeHashTable\<close> (\<open>algo/internal/tree_hashtable.h\<close>, \<open>tree_hashtable_impl.h\<close>,
  \<open>tree_hash_table_iterator.h\<close>, \<open>algo/avl_tree_hashtable.h\<close>) and \<open>AvlDictionary\<close>
  (\<open>algo/avl_dictionary.h\<close>): a hash table whose buckets are AVL trees without a count, all on one
  heap of nodes. As in \<open>Hash_Table\<close> there are two tables, the second one used while the nodes move.
  A bucket is its root. The hash function, the comparator, the key of a value and the success of
  an allocation of the arrays are parameters; the address of a new node is an argument.
\<close>

section \<open>Tables of roots\<close>

record TreeTable =
  buckets :: "ptr list"
  tt_used :: size_t
  tt_mask :: size_t

definition TreeTable_init :: TreeTable where
  "TreeTable_init = \<lparr>buckets = [], tt_used = 0, tt_mask = 0 - 1\<rparr>"

text \<open>The constructor allocates an array of no buckets, and throws when it gets no memory.\<close>

definition TreeTable_new :: "bool \<Rightarrow> exn + TreeTable" where
  "TreeTable_new ok = (if ok then Inr TreeTable_init else Inl bad_alloc)"

definition TreeTable_size :: "TreeTable \<Rightarrow> size_t" where
  "TreeTable_size t = of_nat (length (buckets t))"

definition root_at :: "TreeTable \<Rightarrow> size_t \<Rightarrow> ptr option" where
  "root_at t i = (if unat i < length (buckets t) then Some (buckets t ! unat i) else None)"

definition root_set :: "TreeTable \<Rightarrow> size_t \<Rightarrow> ptr \<Rightarrow> TreeTable" where
  "root_set t i r = t\<lparr>buckets := (buckets t)[unat i := r]\<rparr>"

definition tree_bucket_index :: "TreeTable \<Rightarrow> u64 \<Rightarrow> size_t" where
  "tree_bucket_index t hash_val = hash_val AND tt_mask t"

definition TreeTable_Grow :: "bool \<Rightarrow> size_t \<Rightarrow> TreeTable \<Rightarrow> exn + TreeTable" where
  "TreeTable_Grow ok n t =
     (if n \<le> TreeTable_size t then Inr (t\<lparr>tt_mask := TreeTable_size t - 1\<rparr>)
      else if \<not> ok then Inl bad_alloc
      else Inr (t\<lparr>buckets := buckets t @ replicate (unat n - length (buckets t)) nullptr, tt_mask := n - 1\<rparr>))"

text \<open>The bucket with a root, as a tree on the heap; its destructor clears it.\<close>

definition tree_of :: "'v AvlNode heap \<Rightarrow> ptr \<Rightarrow> 'v avl" where
  "tree_of h r = \<lparr>nodes = h, root = r, tree_count = 0\<rparr>"

definition bucket_destroy :: "'v AvlNode heap \<Rightarrow> ptr \<Rightarrow> 'v AvlNode heap option" where
  "bucket_destroy h r = do { s \<leftarrow> avl_Clear (tree_of h r); Some (nodes s) }"

fun destroy_buckets :: "'v AvlNode heap \<Rightarrow> ptr list \<Rightarrow> 'v AvlNode heap option" where
  "destroy_buckets h [] = Some h"
| "destroy_buckets h (r # rs) = do { h \<leftarrow> bucket_destroy h r; destroy_buckets h rs }"

text \<open>
  Shrinking destroys the surplus buckets and reallocates the array. As in \<open>Hash_Table\<close> it throws when
  it gets no memory, unless no bucket is to be left, and there is no table to go on with then.
\<close>

definition TreeTable_cut :: "size_t \<Rightarrow> 'v AvlNode heap \<Rightarrow> TreeTable \<Rightarrow> ('v AvlNode heap \<times> TreeTable) option" where
  "TreeTable_cut n h t =
     (if TreeTable_size t \<le> n then Some (h, t\<lparr>tt_mask := TreeTable_size t - 1\<rparr>)
      else do {
        h \<leftarrow> destroy_buckets h (drop (unat n) (buckets t));
        Some (h, t\<lparr>buckets := take (unat n) (buckets t), tt_mask := n - 1\<rparr>) })"

definition TreeTable_Shrink ::
    "bool \<Rightarrow> size_t \<Rightarrow> 'v AvlNode heap \<Rightarrow> TreeTable \<Rightarrow> (exn + 'v AvlNode heap \<times> TreeTable) option" where
  "TreeTable_Shrink ok n h t = do {
     (h', t') \<leftarrow> TreeTable_cut n h t;
     Some (if n < TreeTable_size t \<and> n \<noteq> 0 \<and> \<not> ok then Inl bad_alloc else Inr (h', t')) }"

text \<open>\<open>Reset\<close> shrinks the array itself, which leaves the mask as it is.\<close>

definition TreeTable_Reset :: "'v AvlNode heap \<Rightarrow> TreeTable \<Rightarrow> ('v AvlNode heap \<times> TreeTable) option" where
  "TreeTable_Reset h t = do {
     h \<leftarrow> destroy_buckets h (buckets t);
     Some (h, t\<lparr>buckets := []\<rparr>) }"

definition TreeTable_swap :: "TreeTable \<Rightarrow> TreeTable \<Rightarrow> TreeTable \<times> TreeTable" where
  "TreeTable_swap t other =
     (t\<lparr>buckets := buckets other, tt_mask := tt_mask other\<rparr>,
      other\<lparr>buckets := buckets t, tt_mask := tt_mask t\<rparr>)"

section \<open>The table\<close>

record 'v TreeHashTable =
  tree_nodes :: "'v AvlNode heap"
  ttable1 :: TreeTable
  ttable2 :: TreeTable
  tree_move_index :: size_t

definition TreeHashTable_new :: "bool \<Rightarrow> 'v AvlNode heap \<Rightarrow> exn + 'v TreeHashTable" where
  "TreeHashTable_new ok h =
     (case TreeTable_new ok of
        Inl e \<Rightarrow> Inl e
      | Inr t1 \<Rightarrow>
          (case TreeTable_new ok of
             Inl e \<Rightarrow> Inl e
           | Inr t2 \<Rightarrow>
               (case TreeTable_Grow ok 4 t1 of
                  Inl e \<Rightarrow> Inl e
                | Inr t1 \<Rightarrow> Inr \<lparr>tree_nodes = h, ttable1 = t1, ttable2 = t2, tree_move_index = 0 - 1\<rparr>)))"

definition tht_size :: "'v TreeHashTable \<Rightarrow> size_t" where
  "tht_size tb = tt_used (ttable1 tb)"

definition tht_empty :: "'v TreeHashTable \<Rightarrow> bool" where
  "tht_empty tb \<longleftrightarrow> tht_size tb = 0"

definition tht_max_size :: size_t where
  "tht_max_size = - 1"

definition tree_InRehashing :: "'v TreeHashTable \<Rightarrow> bool" where
  "tree_InRehashing tb \<longleftrightarrow> tree_move_index tb \<noteq> 0 - 1"

text \<open>Running an operation of a tree on a bucket of one of the tables.\<close>

definition ttable :: "bool \<Rightarrow> 'v TreeHashTable \<Rightarrow> TreeTable" where
  "ttable second tb = (if second then ttable2 tb else ttable1 tb)"

definition set_ttable :: "bool \<Rightarrow> TreeTable \<Rightarrow> 'v TreeHashTable \<Rightarrow> 'v TreeHashTable" where
  "set_ttable second t tb = (if second then tb\<lparr>ttable2 := t\<rparr> else tb\<lparr>ttable1 := t\<rparr>)"

definition on_bucket ::
    "bool \<Rightarrow> size_t \<Rightarrow> ('v avl \<Rightarrow> ('r \<times> 'v avl) option) \<Rightarrow> 'v TreeHashTable \<Rightarrow> ('r \<times> 'v TreeHashTable) option" where
  "on_bucket second i f tb = do {
     r \<leftarrow> root_at (ttable second tb) i;
     (x, s) \<leftarrow> f (tree_of (tree_nodes tb) r);
     Some (x, set_ttable second (root_set (ttable second tb) i (root s)) (tb\<lparr>tree_nodes := nodes s\<rparr>)) }"

text \<open>A search does not change the bucket.\<close>

definition in_bucket :: "bool \<Rightarrow> size_t \<Rightarrow> ('v avl \<Rightarrow> 'r option) \<Rightarrow> 'v TreeHashTable \<Rightarrow> 'r option" where
  "in_bucket second i f tb = do {
     r \<leftarrow> root_at (ttable second tb) i;
     f (tree_of (tree_nodes tb) r) }"

definition index_in :: "bool \<Rightarrow> 'v TreeHashTable \<Rightarrow> u64 \<Rightarrow> size_t" where
  "index_in second tb hash_val = tree_bucket_index (ttable second tb) hash_val"

definition inc_used :: "'v TreeHashTable \<Rightarrow> 'v TreeHashTable" where
  "inc_used tb = tb\<lparr>ttable1 := (ttable1 tb)\<lparr>tt_used := tt_used (ttable1 tb) + 1\<rparr>\<rparr>"

definition dec_used :: "'v TreeHashTable \<Rightarrow> 'v TreeHashTable" where
  "dec_used tb = tb\<lparr>ttable1 := (ttable1 tb)\<lparr>tt_used := tt_used (ttable1 tb) - 1\<rparr>\<rparr>"

section \<open>Rehashing\<close>

definition tree_Rehash :: "bool \<Rightarrow> 'v TreeHashTable \<Rightarrow> exn + 'v TreeHashTable" where
  "tree_Rehash ok tb =
     (if \<not> tree_InRehashing tb \<and> tt_used (ttable1 tb) \<ge> TreeTable_size (ttable1 tb) then
        (case TreeTable_Grow ok (push_bit 1 (TreeTable_size (ttable1 tb))) (ttable2 tb) of
           Inl e \<Rightarrow> Inl e
         | Inr t2 \<Rightarrow> Inr (tb\<lparr>ttable2 := t2, tree_move_index := 0\<rparr>))
      else Inr tb)"

text \<open>The callback of \<open>ReuseAllNodes\<close> pushes a node into its bucket of the second table.\<close>

definition push_moved ::
    "('k \<Rightarrow> u64) \<Rightarrow> ('k \<Rightarrow> 'k \<Rightarrow> int) \<Rightarrow> ('v \<Rightarrow> 'k) \<Rightarrow> ptr \<Rightarrow> 'v AvlNode heap \<Rightarrow> TreeTable \<Rightarrow> ('v AvlNode heap \<times> TreeTable) option" where
  "push_moved HF cmp gk node h t2 = do {
     n \<leftarrow> deref h node;
     let i = tree_bucket_index t2 (HF (gk (node_value n)));
     r \<leftarrow> root_at t2 i;
     (_, s) \<leftarrow> avl_Push cmp gk (tree_of h r) node;
     Some (nodes s, root_set t2 i (root s)) }"

definition tree_finish_rehash :: "'v TreeHashTable \<Rightarrow> 'v TreeHashTable option" where
  "tree_finish_rehash tb =
     (if tree_move_index tb = TreeTable_size (ttable1 tb) then
        (let tb = tb\<lparr>tree_move_index := 0 - 1\<rparr> in
         if buckets (ttable2 tb) \<noteq> [] then
           (case TreeTable_swap (ttable1 tb) (ttable2 tb) of
              (t1, t2) \<Rightarrow> do {
                (h, t2) \<leftarrow> TreeTable_Reset (tree_nodes tb) t2;
                Some (tb\<lparr>tree_nodes := h, ttable1 := t1, ttable2 := t2\<rparr>) })
         else Some tb)
      else Some tb)"

definition tree_IncrementalRehash ::
    "('k \<Rightarrow> u64) \<Rightarrow> ('k \<Rightarrow> 'k \<Rightarrow> int) \<Rightarrow> ('v \<Rightarrow> 'k) \<Rightarrow> 'v TreeHashTable \<Rightarrow> 'v TreeHashTable option" where
  "tree_IncrementalRehash HF cmp gk tb =
     (if \<not> tree_InRehashing tb then Some tb
      else do {
        let i = tree_move_index tb;
        r \<leftarrow> root_at (ttable1 tb) i;
        (t2, s) \<leftarrow> ReuseAllNodes (push_moved HF cmp gk) (tree_of (tree_nodes tb) r) (ttable2 tb);
        tree_finish_rehash (tb\<lparr>tree_nodes := nodes s, ttable1 := root_set (ttable1 tb) i (root s), ttable2 := t2,
          tree_move_index := i + 1\<rparr>) })"

section \<open>Insertion\<close>

text \<open>
  \<open>InsertWithDuplicate\<close>: a bucket that has not moved takes the new entry itself, after a lookup in
  the second table. The result is the flag with the node \<open>duplicate\<close> points into.
\<close>

definition tree_insert_checked ::
    "('k \<Rightarrow> u64) \<Rightarrow> ('k \<Rightarrow> 'k \<Rightarrow> int) \<Rightarrow> ('v \<Rightarrow> 'k) \<Rightarrow> ptr \<Rightarrow> 'v \<Rightarrow> 'v TreeHashTable \<Rightarrow> ((bool \<times> ptr option) \<times> 'v TreeHashTable) option" where
  "tree_insert_checked HF cmp gk fresh elem tb = do {
     let hash_val = HF (gk elem);
     let bucket_index1 = index_in False tb hash_val;
     let insert = (\<lambda>second i tb. do {
           (r, tb) \<leftarrow> on_bucket second i (\<lambda>s. avl_InsertWithDuplicate cmp gk s fresh elem True) tb;
           Some (r, if fst r then inc_used tb else tb) });
     (if \<not> tree_InRehashing tb then insert False bucket_index1 tb
      else do {
        let bucket_index2 = index_in True tb hash_val;
        (if tree_move_index tb > bucket_index1 then insert True bucket_index2 tb
         else do {
           value \<leftarrow> in_bucket True bucket_index2 (\<lambda>s. avl_FindNode cmp gk s (gk elem)) tb;
           (if value \<noteq> nullptr then Some ((False, Some value), tb)
            else insert False bucket_index1 tb) }) }) }"

definition tree_InsertWithDuplicate ::
    "bool \<Rightarrow> ('k \<Rightarrow> u64) \<Rightarrow> ('k \<Rightarrow> 'k \<Rightarrow> int) \<Rightarrow> ('v \<Rightarrow> 'k) \<Rightarrow> ptr \<Rightarrow> 'v \<Rightarrow> 'v TreeHashTable \<Rightarrow>
      ((exn + bool \<times> ptr option) \<times> 'v TreeHashTable) option" where
  "tree_InsertWithDuplicate ok HF cmp gk fresh elem tb =
     (case tree_Rehash ok tb of
        Inl e \<Rightarrow> Some (Inl e, tb)
      | Inr tb \<Rightarrow> do {
          tb \<leftarrow> tree_IncrementalRehash HF cmp gk tb;
          (r, tb) \<leftarrow> tree_insert_checked HF cmp gk fresh elem tb;
          Some (Inr r, tb) })"

text \<open>\<open>Insert\<close>: the node of the new entry, null for a known key.\<close>

definition tree_Insert ::
    "bool \<Rightarrow> ('k \<Rightarrow> u64) \<Rightarrow> ('k \<Rightarrow> 'k \<Rightarrow> int) \<Rightarrow> ('v \<Rightarrow> 'k) \<Rightarrow> ptr \<Rightarrow> 'v \<Rightarrow> 'v TreeHashTable \<Rightarrow>
      ((exn + ptr option) \<times> 'v TreeHashTable) option" where
  "tree_Insert ok HF cmp gk fresh elem tb = do {
     (r, tb) \<leftarrow> tree_InsertWithDuplicate ok HF cmp gk fresh elem tb;
     Some (map_sum id (\<lambda>(inserted, p). if inserted then p else None) r, tb) }"

text \<open>
  \<open>PushWithDuplicate\<close> of a node: here a bucket that has not moved takes the node first, and the
  lookup in the second table comes after.
\<close>

definition tree_push_checked ::
    "('k \<Rightarrow> u64) \<Rightarrow> ('k \<Rightarrow> 'k \<Rightarrow> int) \<Rightarrow> ('v \<Rightarrow> 'k) \<Rightarrow> ptr \<Rightarrow> bool \<Rightarrow> 'v TreeHashTable \<Rightarrow> ((bool \<times> ptr option) \<times> 'v TreeHashTable) option" where
  "tree_push_checked HF cmp gk node want tb = do {
     n \<leftarrow> deref (tree_nodes tb) node;
     let hash_val = HF (gk (node_value n));
     let bucket_index1 = index_in False tb hash_val;
     let push = (\<lambda>second i tb. on_bucket second i (\<lambda>s. avl_PushWithDuplicate cmp gk s node want) tb);
     (if \<not> tree_InRehashing tb then do {
        (r, tb) \<leftarrow> push False bucket_index1 tb;
        Some (r, if fst r then inc_used tb else tb) }
      else do {
        let bucket_index2 = index_in True tb hash_val;
        (if tree_move_index tb > bucket_index1 then do {
           (r, tb) \<leftarrow> push True bucket_index2 tb;
           Some (r, if fst r then inc_used tb else tb) }
         else do {
           (r, tb) \<leftarrow> push False bucket_index1 tb;
           (if \<not> fst r then Some (r, tb)
            else do {
              value \<leftarrow> in_bucket True bucket_index2 (\<lambda>s. avl_FindNode cmp gk s (gk (node_value n))) tb;
              (if value \<noteq> nullptr then Some ((False, report want value), tb)
               else Some (r, inc_used tb)) }) }) }) }"

definition tree_PushWithDuplicate ::
    "bool \<Rightarrow> ('k \<Rightarrow> u64) \<Rightarrow> ('k \<Rightarrow> 'k \<Rightarrow> int) \<Rightarrow> ('v \<Rightarrow> 'k) \<Rightarrow> ptr \<Rightarrow> bool \<Rightarrow> 'v TreeHashTable \<Rightarrow>
      ((exn + bool \<times> ptr option) \<times> 'v TreeHashTable) option" where
  "tree_PushWithDuplicate ok HF cmp gk node want tb =
     (case tree_Rehash ok tb of
        Inl e \<Rightarrow> Some (Inl e, tb)
      | Inr tb \<Rightarrow> do {
          tb \<leftarrow> tree_IncrementalRehash HF cmp gk tb;
          (r, tb) \<leftarrow> tree_push_checked HF cmp gk node want tb;
          Some (Inr r, tb) })"

definition tree_Push ::
    "bool \<Rightarrow> ('k \<Rightarrow> u64) \<Rightarrow> ('k \<Rightarrow> 'k \<Rightarrow> int) \<Rightarrow> ('v \<Rightarrow> 'k) \<Rightarrow> ptr \<Rightarrow> 'v TreeHashTable \<Rightarrow> ((exn + bool) \<times> 'v TreeHashTable) option" where
  "tree_Push ok HF cmp gk node tb = do {
     (r, tb) \<leftarrow> tree_PushWithDuplicate ok HF cmp gk node False tb;
     Some (map_sum id fst r, tb) }"

section \<open>Search and removal\<close>

text \<open>\<open>FindNode\<close> returns the node and, for a node, the bucket it is in.\<close>

definition tree_FindNode ::
    "('k \<Rightarrow> u64) \<Rightarrow> ('k \<Rightarrow> 'k \<Rightarrow> int) \<Rightarrow> ('v \<Rightarrow> 'k) \<Rightarrow> 'k \<Rightarrow> 'v TreeHashTable \<Rightarrow>
      ((ptr \<times> (bool \<times> size_t) option) \<times> 'v TreeHashTable) option" where
  "tree_FindNode HF cmp gk k tb = do {
     tb \<leftarrow> tree_IncrementalRehash HF cmp gk tb;
     let hash_val = HF k;
     node \<leftarrow> in_bucket False (index_in False tb hash_val) (\<lambda>s. avl_FindNode cmp gk s k) tb;
     (if node \<noteq> nullptr then Some ((node, Some (False, index_in False tb hash_val)), tb)
      else if \<not> tree_InRehashing tb then Some ((nullptr, None), tb)
      else do {
        node \<leftarrow> in_bucket True (index_in True tb hash_val) (\<lambda>s. avl_FindNode cmp gk s k) tb;
        (if node \<noteq> nullptr then Some ((node, Some (True, index_in True tb hash_val)), tb)
         else Some ((nullptr, None), tb)) }) }"

definition tree_Find ::
    "('k \<Rightarrow> u64) \<Rightarrow> ('k \<Rightarrow> 'k \<Rightarrow> int) \<Rightarrow> ('v \<Rightarrow> 'k) \<Rightarrow> 'k \<Rightarrow> 'v TreeHashTable \<Rightarrow> ('v option \<times> 'v TreeHashTable) option" where
  "tree_Find HF cmp gk k tb = do {
     ((node, _), tb) \<leftarrow> tree_FindNode HF cmp gk k tb;
     (if node = nullptr then Some (None, tb)
      else do { n \<leftarrow> deref (tree_nodes tb) node; Some (Some (node_value n), tb) }) }"

definition tree_Extract ::
    "('k \<Rightarrow> u64) \<Rightarrow> ('k \<Rightarrow> 'k \<Rightarrow> int) \<Rightarrow> ('v \<Rightarrow> 'k) \<Rightarrow> 'k \<Rightarrow> 'v TreeHashTable \<Rightarrow> (ptr \<times> 'v TreeHashTable) option" where
  "tree_Extract HF cmp gk k tb = do {
     tb \<leftarrow> tree_IncrementalRehash HF cmp gk tb;
     let hash_val = HF k;
     let rehashing = tree_InRehashing tb;
     (node, tb) \<leftarrow> on_bucket False (index_in False tb hash_val) (\<lambda>s. avl_Extract cmp gk s k) tb;
     (if node \<noteq> nullptr then Some (node, dec_used tb)
      else if \<not> rehashing then Some (nullptr, tb)
      else do {
        (node, tb) \<leftarrow> on_bucket True (index_in True tb hash_val) (\<lambda>s. avl_Extract cmp gk s k) tb;
        (if node \<noteq> nullptr then Some (node, dec_used tb) else Some (nullptr, tb)) }) }"

definition tree_Erase ::
    "('k \<Rightarrow> u64) \<Rightarrow> ('k \<Rightarrow> 'k \<Rightarrow> int) \<Rightarrow> ('v \<Rightarrow> 'k) \<Rightarrow> 'k \<Rightarrow> 'v TreeHashTable \<Rightarrow> (nat \<times> 'v TreeHashTable) option" where
  "tree_Erase HF cmp gk k tb = do {
     (node, tb) \<leftarrow> tree_Extract HF cmp gk k tb;
     (if node \<noteq> nullptr then do {
        h \<leftarrow> avl_DropNode (tree_nodes tb) node;
        Some (1, tb\<lparr>tree_nodes := h\<rparr>) }
      else Some (0, tb)) }"

text \<open>\<open>EraseNode\<close> erases in the bucket and does not adjust the count.\<close>

definition tree_EraseNode :: "bool \<times> size_t \<Rightarrow> ptr \<Rightarrow> 'v TreeHashTable \<Rightarrow> (bool \<times> 'v TreeHashTable) option" where
  "tree_EraseNode bucket node tb = on_bucket (fst bucket) (snd bucket) (\<lambda>s. avl_EraseNode s node) tb"

section \<open>Clearing\<close>

definition clear_bucket :: "size_t \<Rightarrow> 'v TreeHashTable \<Rightarrow> 'v TreeHashTable option" where
  "clear_bucket i tb = do {
     (_, tb) \<leftarrow> on_bucket False i (\<lambda>s. do { s \<leftarrow> avl_Clear s; Some ((), s) }) tb;
     Some tb }"

definition shrink_ttable :: "bool \<Rightarrow> bool \<Rightarrow> size_t \<Rightarrow> 'v TreeHashTable \<Rightarrow> (exn + 'v TreeHashTable) option" where
  "shrink_ttable ok second n tb = do {
     r \<leftarrow> TreeTable_Shrink ok n (tree_nodes tb) (ttable second tb);
     Some (case r of
             Inl e \<Rightarrow> Inl e
           | Inr (h, t) \<Rightarrow> Inr (set_ttable second t (tb\<lparr>tree_nodes := h\<rparr>))) }"

definition tree_Clear :: "bool \<Rightarrow> 'v TreeHashTable \<Rightarrow> (exn + 'v TreeHashTable) option" where
  "tree_Clear ok tb = do {
     r \<leftarrow> shrink_ttable ok False 4 tb;
     (case r of
        Inl e \<Rightarrow> Some (Inl e)
      | Inr tb \<Rightarrow> do {
          tb \<leftarrow> clear_bucket 0 tb;
          tb \<leftarrow> clear_bucket 1 tb;
          tb \<leftarrow> clear_bucket 2 tb;
          tb \<leftarrow> clear_bucket 3 tb;
          let tb = tb\<lparr>ttable1 := (ttable1 tb)\<lparr>tt_used := 0\<rparr>\<rparr>;
          r \<leftarrow> (if tree_InRehashing tb then shrink_ttable ok True 0 tb else Some (Inr tb));
          Some (map_sum id (\<lambda>tb. tb\<lparr>tree_move_index := 0 - 1\<rparr>) r) }) }"

text \<open>
  \<open>ClearApply\<close> hands every value to a callback, which updates a state, before its node is freed. What
  the callback did before an exception stays done: its state is returned in both cases.
\<close>

fun apply_buckets ::
    "('v \<Rightarrow> 'x \<Rightarrow> 'x) \<Rightarrow> bool \<Rightarrow> nat list \<Rightarrow> 'v TreeHashTable \<Rightarrow> 'x \<Rightarrow> ('x \<times> 'v TreeHashTable) option" where
  "apply_buckets cb second [] tb x = Some (x, tb)"
| "apply_buckets cb second (i # is) tb x = do {
     (x, tb) \<leftarrow> on_bucket second (of_nat i) (\<lambda>s. avl_ClearApply cb s x) tb;
     apply_buckets cb second is tb x }"

definition tree_ClearApply ::
    "bool \<Rightarrow> ('v \<Rightarrow> 'x \<Rightarrow> 'x) \<Rightarrow> 'v TreeHashTable \<Rightarrow> 'x \<Rightarrow> ('x \<times> (exn + 'v TreeHashTable)) option" where
  "tree_ClearApply ok cb tb x = do {
     (x, tb) \<leftarrow> apply_buckets cb False [4..<length (buckets (ttable1 tb))] tb x;
     r \<leftarrow> shrink_ttable ok False 4 tb;
     (case r of
        Inl e \<Rightarrow> Some (x, Inl e)
      | Inr tb \<Rightarrow> do {
          (x, tb) \<leftarrow> apply_buckets cb False [0..<4] tb x;
          let tb = tb\<lparr>ttable1 := (ttable1 tb)\<lparr>tt_used := 0\<rparr>\<rparr>;
          (x, r) \<leftarrow> (if tree_InRehashing tb then do {
             (x, tb) \<leftarrow> apply_buckets cb True [0..<length (buckets (ttable2 tb))] tb x;
             r \<leftarrow> shrink_ttable ok True 0 tb;
             Some (x, r) }
           else Some (x, Inr tb));
          Some (x, map_sum id (\<lambda>tb. tb\<lparr>tree_move_index := 0 - 1\<rparr>) r) }) }"

end
