(* ===== verification/Tree_Bucket.thy ===== *)
theory Tree_Bucket
  imports Tree_Hash_Table Avl_Props
begin

text \<open>
  A bucket of \<open>TreeHashTable\<close>: an AVL tree whose nodes may come from \<open>ReuseAllNodes\<close>, with height 0,
  so that it is a search tree with heights that are not negative but not always balanced.
  \<open>tree_inv\<close> is that invariant; every operation of the bucket keeps it. The last part is
  \<open>ReuseAllNodes\<close> with a callback that may do anything outside the nodes still to come.
\<close>

section \<open>Heights stay non-negative\<close>

lemma nn_insert_fix: "nn (plug t c) \<Longrightarrow> nn (insert_fix t c)"
proof (induction t c rule: insert_fix.induct)
  case (2 l a h r c)
  have n: "nn l" "nn r" "\<forall>f \<in> set c. nn_frame f" using 2(2) by auto
  have h: "0 \<le> new_ht l r" using n nn_ht [of l] nn_ht [of r] by (auto simp: new_ht_def)
  have f: "nn (fixup (ht l - ht r) (Nd l a (new_ht l r) r))" by (rule nn_fixup) (use n h in simp)
  show ?case
  proof (cases "h = new_ht l r")
    case True
    then show ?thesis using 2(2) by simp
  next
    case False
    show ?thesis
    proof (cases c)
      case Nil
      then show ?thesis using False f by simp
    next
      case (Cons g c')
      then show ?thesis using False f n 2(1) [OF refl False refl Cons] by (simp add: Let_def)
    qed
  qed
qed simp

lemma nn_erase_fix: "nn (plug t c) \<Longrightarrow> nn (erase_fix t c)"
proof (induction t c rule: erase_fix.induct)
  case (2 l a h r c)
  have n: "nn l" "nn r" "\<forall>f \<in> set c. nn_frame f" using 2(2) by auto
  have h: "0 \<le> new_ht l r" using n nn_ht [of l] nn_ht [of r] by (auto simp: new_ht_def)
  have f: "nn (fixup (ht l - ht r) (Nd l a (new_ht l r) r))" by (rule nn_fixup) (use n h in simp)
  show ?case
  proof (cases "h = new_ht l r \<and> ht l - ht r \<ge> - 1 \<and> ht l - ht r \<le> 1")
    case True
    then show ?thesis using 2(2) by simp
  next
    case False
    show ?thesis
    proof (cases c)
      case Nil
      then show ?thesis using False f by (auto simp: Let_def)
    next
      case (Cons g c')
      have "nn (erase_fix (plug1 (fixup (ht l - ht r) (Nd l a (new_ht l r) r)) g) c')"
        using f n Cons 2(1) [OF refl refl False refl Cons] by simp
      then show ?thesis using False Cons by (auto simp: Let_def)
    qed
  qed
qed simp

lemma nn_attach: "nn (plug t c) \<Longrightarrow> nn (attach t c)"
  by (cases c) (auto simp: attach_def intro: nn_insert_fix)

lemma nn_detach: "nn (plug t c) \<Longrightarrow> nn (detach t c)"
  by (cases c) (auto simp: detach_def intro: nn_erase_fix)

lemma nn_t_push:
  assumes "nn t" and "0 \<le> hn"
  shows "nn (snd (t_push cmp kx n hn t))"
proof (cases t)
  case Tip
  then show ?thesis using assms by (simp add: t_push_def)
next
  case (Nd l a h r)
  obtain u c where d: "descend cmp kx (kx n) (Nd l a h r) [] = (u, c)" by fastforce
  from descend_plug [OF d] have p: "plug u c = Nd l a h r" by simp
  show ?thesis
  proof (cases "l = Tip \<and> r = Tip")
    case True
    then show ?thesis using assms Nd by (auto simp: t_push_def)
  next
    case False
    have "nn (plug u c)" using assms(1) Nd p by simp
    then have "u = Tip \<Longrightarrow> nn (attach (Nd Tip n hn Tip) c)" using assms(2) by (intro nn_attach) simp
    then show ?thesis using assms(1) Nd d False by (cases u) (auto simp: t_push_def)
  qed
qed

lemma nn_t_erase:
  assumes "nn (plug (Nd l a h r) c)"
  shows "nn (t_erase l h r c)"
proof -
  have n: "nn l" "nn r" "0 \<le> h" "\<forall>f \<in> set c. nn_frame f" using assms by auto
  show ?thesis
  proof (cases "l = Tip \<or> r = Tip")
    case True
    then show ?thesis using n by (auto simp: t_erase_def intro!: nn_detach)
  next
    case False
    obtain t' sp where e: "leftmost r [] = (t', sp)" by fastforce
    from leftmost_plug [OF e] False obtain z hz zr where t': "t' = Nd Tip z hz zr" and p: "plug t' sp = r" by auto
    with n(2) have m: "nn zr" "\<forall>f \<in> set sp. nn_frame f" "nn (plug t' sp)" by auto
    have "nn (erase_fix (Nd l z h zr) c)" "nn (detach zr (sp @ InRight l z h # c))"
      using m n by (auto intro!: nn_detach nn_erase_fix simp del: erase_fix.simps)
    then show ?thesis using e t' False by (cases sp) (simp_all add: t_erase_def del: erase_fix.simps)
  qed
qed

lemma nn_t_extract: "nn t \<Longrightarrow> t_extract cmp kx k t = Some (a, t') \<Longrightarrow> nn t'"
  by (drule t_extract_descend) (auto intro: nn_t_erase)

section \<open>The bucket\<close>

definition tree_inv :: "('k \<Rightarrow> 'k \<Rightarrow> int) \<Rightarrow> ('v \<Rightarrow> 'k) \<Rightarrow> 'v avl \<Rightarrow> ptr atree \<Rightarrow> bool" where
  "tree_inv cmp gk s t \<longleftrightarrow> rooted s t \<and> nn t \<and> ascending cmp (map (kf gk s) (inord t))"

lemma tree_inv_Tip: "root s = nullptr \<Longrightarrow> tree_inv cmp gk s Tip"
  by (simp add: tree_inv_def rooted_Tip)

lemma tree_inv_cong:
  assumes "tree_inv cmp gk s t" and "\<And>a. a \<in> set (inord t) \<Longrightarrow> nodes s' a = nodes s a" and "root s' = root s"
  shows "tree_inv cmp gk s' t" and "vals s' t = vals s t"
proof -
  have k: "map (kf gk s') (inord t) = map (kf gk s) (inord t)" "vals s' t = vals s t"
    using assms(2) by (auto simp: kf_def value_at_def vals_def)
  show "tree_inv cmp gk s' t" using assms(1) rooted_frame [OF _ assms(2,3), of t] by (simp add: tree_inv_def k(1))
  show "vals s' t = vals s t" by (rule k)
qed

text \<open>A lookup finds the node of the key.\<close>

lemma bucket_find_ok:
  assumes c: "comparator cmp" and inv: "tree_inv cmp gk s t"
  shows "(k \<notin> gk ` set (vals s t) \<and> avl_FindNode cmp gk s k = Some nullptr)
    \<or> (\<exists>a. avl_FindNode cmp gk s k = Some a \<and> a \<noteq> nullptr \<and> a \<in> set (inord t) \<and> gk (value_at s a) = k)"
proof -
  from inv have rt: "rooted s t" and asc: "ascending cmp (map (kf gk s) (inord t))" by (simp_all add: tree_inv_def)
  note F = FindNode_at [OF rt, of cmp gk k]
  show ?thesis
  proof (cases "t_find cmp (kf gk s) k t")
    case None
    then show ?thesis using F comparator.t_find_None [OF c asc, of k] by (simp add: keys_set)
  next
    case (Some a)
    with comparator.t_find_Some [OF c asc] rooted_nodes [OF rt] show ?thesis using F by (auto simp: kf_def)
  qed
qed

text \<open>Pushing a node that is not in the tree and whose key is new.\<close>

lemma bucket_pushed:
  assumes c: "comparator cmp" and inv: "tree_inv cmp gk s t" and q: "nodes s q \<noteq> None" and h: "0 \<le> hn"
    and new: "kf gk s q \<notin> gk ` set (vals s t)"
    and p: "t_push cmp (kf gk s) q hn t = ((b, a), t')" and s': "pushed s q t b t' s'"
  shows "b" and "a = q" and "tree_inv cmp gk s' t'" and "mset (vals s' t') = add_mset (value_at s q) (mset (vals s t))"
    and "set (inord t') = insert q (set (inord t))" and "\<forall>x. x \<notin> insert q (set (inord t)) \<longrightarrow> nodes s' x = nodes s x"
    and "\<forall>x. map_option node_value (nodes s' x) = map_option node_value (nodes s x)"
proof -
  from inv have rt: "rooted s t" "nn t" and asc: "ascending cmp (map (kf gk s) (inord t))" by (simp_all add: tree_inv_def)
  have "kf gk s q \<notin> kf gk s ` set (inord t)" using new by (simp add: keys_set)
  from comparator.t_push_new [OF c asc this, of hn] p obtain xs ys where
    b: "b" "a = q" and i: "inord t = xs @ ys" "inord t' = xs @ q # ys" and a': "ascending cmp (map (kf gk s) (inord t'))" by auto
  from s' have rt': "rooted s' t'" and kp: "keeps (insert q (set (inord t))) s s'" by (simp_all add: pushed_def)
  have v: "value_at s' x = value_at s x" if "x \<in> set (inord t')" for x
    using keeps_value [OF kp] rooted_nodes [OF rt(1), of x] q that i by auto
  then have m: "map (kf gk s') (inord t') = map (kf gk s) (inord t')" by (simp add: kf_def)
  show "b" "a = q" by (fact b)+
  show "tree_inv cmp gk s' t'" using rt' nn_t_push [OF rt(2) h, of cmp "kf gk s" q] p a' by (simp add: tree_inv_def m)
  have "vals s' t' = map (value_at s) (inord t')" using v by (simp add: vals_def)
  then show "mset (vals s' t') = add_mset (value_at s q) (mset (vals s t))"
    by (simp only: vals_def i) simp
  show "set (inord t') = insert q (set (inord t))" using i by auto
  show "\<forall>x. x \<notin> insert q (set (inord t)) \<longrightarrow> nodes s' x = nodes s x"
    "\<forall>x. map_option node_value (nodes s' x) = map_option node_value (nodes s x)" using kp by (simp_all add: keeps_def)
qed

lemma bucket_insert_ok:
  assumes c: "comparator cmp" and inv: "tree_inv cmp gk s t" and q: "q \<noteq> nullptr" "nodes s q = None"
  shows "if gk v \<in> gk ` set (vals s t)
    then \<exists>a. avl_InsertWithDuplicate cmp gk s q v want = Some ((False, report want a), s) \<and> a \<in> set (inord t) \<and> gk (value_at s a) = gk v
    else \<exists>s' t'. avl_InsertWithDuplicate cmp gk s q v want = Some ((True, report want q), s') \<and> tree_inv cmp gk s' t'
      \<and> mset (vals s' t') = add_mset v (mset (vals s t)) \<and> set (inord t') = insert q (set (inord t)) \<and> value_at s' q = v
      \<and> (\<forall>a. a \<notin> insert q (set (inord t)) \<longrightarrow> nodes s' a = nodes s a)
      \<and> (\<forall>a. nodes s' a = None \<longleftrightarrow> nodes s a = None \<and> a \<noteq> q)"
proof -
  from inv have rt: "rooted s t" "nn t" and asc: "ascending cmp (map (kf gk s) (inord t))" by (simp_all add: tree_inv_def)
  have fresh: "q \<notin> set (inord t)" using rooted_nodes [OF rt(1), of q] q(2) by blast
  let ?s = "created s q v"
  have eq: "\<And>a. a \<in> set (inord t) \<Longrightarrow> nodes ?s a = nodes s a" using fresh by (auto simp: created_def)
  have r: "root ?s = root s" by simp
  note inv' = tree_inv_cong [where s' = ?s, OF inv eq r]
  have ks: "map (kf gk ?s) (inord t) = map (kf gk s) (inord t)" using eq by (auto simp: kf_def value_at_def)
  obtain b a t' where p: "t_push cmp (kf gk ?s) q 1 t = ((b, a), t')" by (metis prod.exhaust)
  from InsertWithDuplicate_at [OF rt q p, of want] obtain s' where
    s': "avl_InsertWithDuplicate cmp gk s q v want = Some ((b, report want a), s')"
    "if b then pushed ?s q t b t' s' else s' = s \<and> t' = t" by blast
  show ?thesis
  proof (cases "gk v \<in> gk ` set (vals s t)")
    case True
    then have "kf gk ?s q \<in> kf gk ?s ` set (inord t)" using inv'(2) keys_set [of gk ?s t] by simp
    with comparator.t_push_dup [OF c, of "kf gk ?s" t q 1] asc ks p have
      b: "\<not> b" and f: "t_find cmp (kf gk ?s) (gk v) t = Some a" by auto
    have a: "a \<in> set (inord t)" "kf gk ?s a = gk v" using comparator.t_find_Some [OF c, of "kf gk ?s" t] asc ks f by auto
    then have "gk (value_at s a) = gk v" using eq [OF a(1)] by (simp add: kf_def value_at_def)
    then show ?thesis using True s' b a(1) by auto
  next
    case False
    then have "kf gk ?s q \<notin> kf gk ?s ` set (inord t)" using inv'(2) keys_set [of gk ?s t] by simp
    with comparator.t_push_new(1) [OF c, of "kf gk ?s" t q 1] asc ks p have b: "b" by simp
    then have ps: "pushed ?s q t b t' s'" using s'(2) by simp
    have nq: "nodes ?s q \<noteq> None" by (simp add: created_def)
    have "kf gk ?s q \<notin> gk ` set (vals ?s t)" using False inv'(2) by simp
    note P = bucket_pushed [OF c inv'(1) nq _ this p ps]
    have vq: "value_at s' q = v" using P(7) [simplified, rule_format, of q] by (auto simp: created_def value_at_def)
    have dom: "nodes s' a = None \<longleftrightarrow> nodes s a = None \<and> a \<noteq> q" for a
      using P(7) [simplified, rule_format, of a] by (auto simp: created_def split: if_splits)
    have "\<forall>a. a \<notin> insert q (set (inord t)) \<longrightarrow> nodes s' a = nodes s a" using P(6) by auto
    moreover have "a = q" "value_at ?s q = v" using P(2) by (simp_all add: created_def value_at_def)
    ultimately have "avl_InsertWithDuplicate cmp gk s q v want = Some ((True, report want q), s')" "tree_inv cmp gk s' t'"
      "mset (vals s' t') = add_mset v (mset (vals s t))" "set (inord t') = insert q (set (inord t))"
      "\<forall>a. a \<notin> insert q (set (inord t)) \<longrightarrow> nodes s' a = nodes s a"
      using s'(1) b P(3-5) inv'(2) by simp_all
    with vq dom False show ?thesis by auto
  qed
qed

text \<open>Taking the node of a key out.\<close>

lemma bucket_pulled:
  assumes c: "comparator cmp" and inv: "tree_inv cmp gk s t" and e: "t_extract cmp (kf gk s) k t = Some (a, t')"
    and p: "pulled s t a t' s'"
  shows "tree_inv cmp gk s' t'" and "gk (value_at s a) = k" and "mset (vals s t) = add_mset (value_at s a) (mset (vals s' t'))"
    and "set (inord t) = insert a (set (inord t'))" and "a \<notin> set (inord t')" and "k \<in> gk ` set (vals s t)"
    and "\<forall>b. b \<notin> set (inord t) \<longrightarrow> nodes s' b = nodes s b" and "\<forall>b. b \<noteq> a \<longrightarrow> (nodes s' b = None \<longleftrightarrow> nodes s b = None)"
    and "nodes s a \<noteq> None" and "a \<noteq> nullptr"
proof -
  from inv have rt: "rooted s t" "nn t" and asc: "ascending cmp (map (kf gk s) (inord t))" by (simp_all add: tree_inv_def)
  from comparator.t_extract_Some [OF c asc e] obtain xs ys where k: "kf gk s a = k"
    and i: "inord t = xs @ a # ys" "inord t' = xs @ ys" and a': "ascending cmp (map (kf gk s) (inord t'))" by blast
  have d: "distinct (inord t)" using rt(1) by (rule rooted_distinct)
  have a: "a \<notin> set (inord t')" "a \<in> set (inord t)" "a \<noteq> nullptr" "nodes s a \<noteq> None"
    using d i rooted_nodes [OF rt(1), of a] by auto
  from p have P: "rooted s' t'" "\<forall>b. b \<notin> set (inord t) \<longrightarrow> nodes s' b = nodes s b"
    "\<forall>b. b \<noteq> a \<longrightarrow> map_option node_value (nodes s' b) = map_option node_value (nodes s b)" by (simp_all add: pulled_def)
  have v: "value_at s' b = value_at s b" if "b \<in> set (inord t')" for b
  proof -
    have "b \<noteq> a" "nodes s b \<noteq> None" using that a(1) rooted_nodes [OF rt(1), of b] i by auto
    then show ?thesis using P(3) unfolding value_at_def by (metis map_option_is_None option.map_sel)
  qed
  then have m: "map (kf gk s') (inord t') = map (kf gk s) (inord t')" by (simp add: kf_def)
  show "tree_inv cmp gk s' t'" using P(1) nn_t_extract [OF rt(2) e] a' by (simp add: tree_inv_def m)
  have "vals s' t' = map (value_at s) (inord t')" using v by (simp add: vals_def)
  then show "mset (vals s t) = add_mset (value_at s a) (mset (vals s' t'))" by (simp only: vals_def i) simp
  show "k \<in> gk ` set (vals s t)" using k a(2) keys_set [of gk s t] by auto
  show "set (inord t) = insert a (set (inord t'))" using i by auto
  show "gk (value_at s a) = k" using k by (simp add: kf_def)
  show "\<forall>b. b \<noteq> a \<longrightarrow> (nodes s' b = None \<longleftrightarrow> nodes s b = None)" using P(3) by (metis map_option_is_None)
  show "\<forall>b. b \<notin> set (inord t) \<longrightarrow> nodes s' b = nodes s b" by (rule P(2))
  show "a \<notin> set (inord t')" "nodes s a \<noteq> None" "a \<noteq> nullptr" by (fact a)+
qed

lemma bucket_extract_ok:
  assumes c: "comparator cmp" and inv: "tree_inv cmp gk s t"
  shows "if k \<in> gk ` set (vals s t)
    then \<exists>a s' t' n. avl_Extract cmp gk s k = Some (a, s') \<and> a \<noteq> nullptr \<and> tree_inv cmp gk s' t' \<and> gk (value_at s a) = k
      \<and> mset (vals s t) = add_mset (value_at s a) (mset (vals s' t')) \<and> set (inord t) = insert a (set (inord t')) \<and> a \<notin> set (inord t')
      \<and> (\<forall>b. b \<notin> set (inord t) \<longrightarrow> nodes s' b = nodes s b) \<and> nodes s' a = Some n \<and> node_value n = value_at s a
      \<and> left n = nullptr \<and> right n = nullptr \<and> parent n = nullptr \<and> (\<forall>b. nodes s' b = None \<longleftrightarrow> nodes s b = None)
    else avl_Extract cmp gk s k = Some (nullptr, s)"
proof -
  from inv have rt: "rooted s t" "nn t" and asc: "ascending cmp (map (kf gk s) (inord t))" by (simp_all add: tree_inv_def)
  note E = Extract_at [OF rt, of cmp gk k]
  show ?thesis
  proof (cases "t_extract cmp (kf gk s) k t")
    case None
    then show ?thesis using E comparator.t_extract_None [OF c asc, of k] by (simp add: keys_set)
  next
    case (Some at)
    then obtain a t' where e: "t_extract cmp (kf gk s) k t = Some (a, t')" by (cases at) auto
    with E obtain s' n where s': "avl_Extract cmp gk s k = Some (a, s')" "pulled s t a t' s'" "nodes s' a = Some n"
      "node_value n = value_at s a" "left n = nullptr" "right n = nullptr" "parent n = nullptr" by auto
    note P = bucket_pulled [OF c inv e s'(2)]
    have "nodes s' b = None \<longleftrightarrow> nodes s b = None" for b using P(8,9) s'(3) by (cases "b = a") auto
    then show ?thesis using s' P(1-7,10) by auto
  qed
qed

text \<open>Erasing a node of the tree.\<close>

lemma bucket_erase_node_ok:
  assumes c: "comparator cmp" and inv: "tree_inv cmp gk s t" and a: "a \<in> set (inord t)"
  shows "\<exists>s' t'. avl_EraseNode s a = Some (True, s') \<and> tree_inv cmp gk s' t'
      \<and> mset (vals s t) = add_mset (value_at s a) (mset (vals s' t')) \<and> set (inord t) = insert a (set (inord t')) \<and> a \<notin> set (inord t')
      \<and> (\<forall>b. b \<notin> set (inord t) \<longrightarrow> nodes s' b = nodes s b) \<and> nodes s' a = None"
proof -
  from inv have rt: "rooted s t" "nn t" and asc: "ascending cmp (map (kf gk s) (inord t))" by (simp_all add: tree_inv_def)
  let ?k = "kf gk s a"
  obtain b t' where e: "t_extract cmp (kf gk s) ?k t = Some (b, t')"
    using comparator.t_extract_None [OF c asc, of ?k] a by (cases "t_extract cmp (kf gk s) ?k t") auto
  from comparator.t_extract_Some [OF c asc e] have "kf gk s b = kf gk s a" "b \<in> set (inord t)" by auto
  moreover have "inj_on (kf gk s) (set (inord t))" using ascending_distinct [OF c asc] by (simp add: distinct_map)
  ultimately have b: "b = a" using a by (simp add: inj_on_def)
  from t_extract_descend [OF e] obtain l h r ctx where t: "t' = t_erase l h r ctx" "t = plug (Nd l a h r) ctx" unfolding b by blast
  from EraseRoutine_at [OF rt t(2)] obtain s' where s': "EraseRoutine s a = Some s'" "pulled s t a t' s'" "nodes s' a = None"
    unfolding t(1) by blast
  note P = bucket_pulled [OF c inv e [unfolded b] s'(2)]
  have "avl_EraseNode s a = Some (True, s')" using P(10) s'(1) by (simp add: avl_EraseNode_def)
  then show ?thesis using s'(3) P by blast
qed

end
