(* ===== verification/Avl_Quirks.thy ===== *)
theory Avl_Quirks
  imports Avl_Props Avl_Reuse Tree_Bucket
begin

text \<open>
  What the operations of \<open>AvlTree\<close> outside the map interface do: freeing, pushing nodes that were
  taken out, erasing with a predicate, and taking the root out.
\<close>

section \<open>Freeing\<close>

text \<open>
  \<open>Clear\<close> and \<open>ClearApply\<close> free every node of the tree once and no other cell, the latter
  after it has called the callback on each value, children before parents; the tree is empty
  afterwards and its count is 0.
\<close>
theorem avl_clear_frees:
  assumes "rooted s t"
  shows "(\<exists>s'. avl_Clear s = Some s' \<and> avl_empty s' \<and> avl_size s' = 0 \<and> nodes s' = nodes s |` (- set (inord t)))
    \<and> (\<exists>s'. avl_ClearApply (\<lambda>v vs. vs @ [v]) s [] = Some (map (value_at s) (postord t), s') \<and> avl_empty s' \<and> avl_size s' = 0
        \<and> nodes s' = nodes s |` (- set (inord t)))"
proof -
  have "fold (\<lambda>b vs. vs @ [value_at s b]) xs vs = vs @ map (value_at s) xs" for xs vs by (induction xs arbitrary: vs) auto
  then show ?thesis using Clear_at [OF assms] ClearApply_at [OF assms, of "\<lambda>v vs. vs @ [v]" "[]"]
    by (auto simp: avl_empty_def avl_size_def rooted_Tip)
qed

theorem avl_clear_frees_witness:
  "\<exists>s'. avl_ClearApply (\<lambda>v vs. vs @ [v]) demo_avl [] = Some ([5], s') \<and> nodes s' = Map.empty"
proof -
  have "rooted demo_avl (Nd Tip 8 1 Tip)" using demo_avl_inv by (simp add: avl_inv_def)
  from avl_clear_frees [OF this] obtain s' where
    "avl_ClearApply (\<lambda>v vs. vs @ [v]) demo_avl [] = Some (map (value_at demo_avl) [8], s')" "nodes s' = nodes demo_avl |` (- {8})" by auto
  moreover have "nodes demo_avl |` (- {8}) = Map.empty" by (auto simp: demo_avl_def restrict_map_def)
  ultimately show ?thesis by (simp add: value_at_def demo_avl_def)
qed

text \<open>
  After a move construction the new tree has the nodes, the old one is empty but keeps its count; when
  both are destroyed every node is freed once.
\<close>
theorem avl_moved_from_count:
  assumes "rooted s t"
  shows "\<exists>s1 s2 h. avl_move_construct s = (s1, s2) \<and> rooted s1 t \<and> avl_empty s2 \<and> avl_size s2 = avl_size s
    \<and> avl_destroy s2 = Some (nodes s) \<and> avl_destroy s1 = Some h \<and> h = nodes s |` (- set (inord t))"
proof -
  have "nodes s |` UNIV = nodes s" by (simp add: restrict_map_def)
  moreover have "rooted (s\<lparr>root := nullptr\<rparr>) Tip" by (simp add: rooted_Tip)
  ultimately show ?thesis using assms Clear_at [of s t] Clear_at [of "s\<lparr>root := nullptr\<rparr>" Tip]
    by (auto simp: avl_move_construct_def avl_destroy_def avl_empty_def avl_size_def)
qed

theorem avl_moved_from_count_witness:
  "\<exists>s1 s2. avl_move_construct demo_avl = (s1, s2) \<and> avl_size s2 = avl_size demo_avl \<and> avl_destroy s1 = Some Map.empty"
proof -
  have "rooted demo_avl (Nd Tip 8 1 Tip)" using demo_avl_inv by (simp add: avl_inv_def)
  moreover have "nodes demo_avl |` (- {8}) = Map.empty" by (auto simp: demo_avl_def restrict_map_def)
  ultimately show ?thesis using avl_moved_from_count [of demo_avl "Nd Tip 8 1 Tip"] by auto
qed

section \<open>Trees for examples\<close>

fun insert_all :: "u32 list \<Rightarrow> u32 avl \<Rightarrow> u32 avl option" where
  "insert_all [] s = Some s"
| "insert_all (v # vs) s = do { (_, s) \<leftarrow> avl_Insert cmp_unsigned id s (unat v) v; insert_all vs s }"

section \<open>Nodes that were taken out\<close>

text \<open>Moving all nodes to another tree in the same heap, which is how a rehash empties a bucket.\<close>

definition push_to_other ::
  "('k \<Rightarrow> 'k \<Rightarrow> int) \<Rightarrow> ('v \<Rightarrow> 'k) \<Rightarrow> ptr \<Rightarrow> 'v AvlNode heap \<Rightarrow> 'v avl \<Rightarrow> ('v AvlNode heap \<times> 'v avl) option" where
  "push_to_other cmp gk node h s = do {
     (_, s) \<leftarrow> avl_Push cmp gk (s\<lparr>nodes := h\<rparr>) node;
     Some (nodes s, s) }"

text \<open>What pushing nodes with height 0 one after the other builds.\<close>

definition pushed_tree :: "('k \<Rightarrow> 'k \<Rightarrow> int) \<Rightarrow> ('n \<Rightarrow> 'k) \<Rightarrow> 'n list \<Rightarrow> 'n atree" where
  "pushed_tree cmp key ds = fold (\<lambda>a u. snd (t_push cmp key a 0 u)) ds Tip"

lemma pushed_tree_simps [simp]:
  "pushed_tree cmp key [] = Tip"
  "pushed_tree cmp key (ds @ [a]) = snd (t_push cmp key a 0 (pushed_tree cmp key ds))"
  by (simp_all add: pushed_tree_def)

lemma descend_key_cong: "(\<And>a. a \<in> set (inord t) \<Longrightarrow> key a = key' a) \<Longrightarrow> descend cmp key k t c = descend cmp key' k t c"
  by (induction t arbitrary: c) auto

lemma t_push_key_cong:
  assumes "\<And>b. b \<in> insert a (set (inord t)) \<Longrightarrow> key b = key' b"
  shows "t_push cmp key a h t = t_push cmp key' a h t"
  using assms descend_key_cong [of t key key'] by (cases t) (auto simp: t_push_def simp del: descend.simps)

definition pushing :: "('k \<Rightarrow> 'k \<Rightarrow> int) \<Rightarrow> ('v \<Rightarrow> 'k) \<Rightarrow> (ptr \<Rightarrow> 'v) \<Rightarrow> ptr list \<Rightarrow> ptr list \<Rightarrow> 'v AvlNode heap \<Rightarrow> 'v avl \<Rightarrow> bool" where
  "pushing cmp gk val L ds h x \<longleftrightarrow> comparator cmp \<and> distinct L \<and> inj_on (gk \<circ> val) (set L) \<and> set ds \<subseteq> set L
     \<and> tree_inv cmp gk (x\<lparr>nodes := h\<rparr>) (pushed_tree cmp (gk \<circ> val) ds)
     \<and> set (inord (pushed_tree cmp (gk \<circ> val) ds)) = set ds
     \<and> (\<forall>b \<in> set ds. map_option node_value (h b) = Some (val b))"

lemma pushing_frame:
  assumes p: "pushing cmp gk val L ds h x" and fr: "\<And>b. b \<notin> set L - set ds \<Longrightarrow> h' b = h b"
  shows "pushing cmp gk val L ds h' x"
proof -
  let ?t = "pushed_tree cmp (gk \<circ> val) ds"
  have "tree_inv cmp gk (x\<lparr>nodes := h\<rparr>) ?t" and "set (inord ?t) = set ds" using p by (simp_all add: pushing_def)
  then have "tree_inv cmp gk (x\<lparr>nodes := h'\<rparr>) ?t"
    using fr tree_inv_cong(1) [of cmp gk "x\<lparr>nodes := h\<rparr>" ?t "x\<lparr>nodes := h'\<rparr>"] by simp
  then show ?thesis using p fr by (simp add: pushing_def)
qed

lemma pushing_step:
  assumes p: "pushing cmp gk val L ds h x" and L: "L = ds @ a # rest" and n: "h a = Some n" "node_value n = val a" "a \<noteq> nullptr"
    "left n = nullptr" "right n = nullptr" "parent n = nullptr" "height n = 0"
  shows "\<exists>h' x'. push_to_other cmp gk a h x = Some (h', x') \<and> pushing cmp gk val L (ds @ [a]) h' x' \<and> (\<forall>b \<in> set rest. h' b = h b)"
proof -
  let ?t = "pushed_tree cmp (gk \<circ> val) ds" and ?s = "x\<lparr>nodes := h\<rparr>"
  from p have c: "comparator cmp" and d: "distinct L" "inj_on (gk \<circ> val) (set L)" and inv: "tree_inv cmp gk ?s ?t"
    and ids: "set (inord ?t) = set ds" and v: "\<And>b. b \<in> set ds \<Longrightarrow> map_option node_value (h b) = Some (val b)"
    by (simp_all add: pushing_def)
  from inv have rt: "rooted ?s ?t" "nn ?t" by (simp_all add: tree_inv_def)
  have a: "a \<notin> set ds" "a \<notin> set (inord ?t)" "set rest \<inter> set ds = {}" "a \<notin> set rest" using d(1) ids unfolding L by auto
  have va: "value_at ?s b = val b" if "b \<in> insert a (set ds)" for b
    using that v [of b] n(1,2) by (auto simp: value_at_def)
  have kf: "kf gk ?s b = (gk \<circ> val) b" if "b \<in> insert a (set (inord ?t))" for b using va that ids by (simp add: kf_def)
  have push: "t_push cmp (kf gk ?s) a 0 ?t = t_push cmp (gk \<circ> val) a 0 ?t" by (intro t_push_key_cong kf)
  have new: "kf gk ?s a \<notin> gk ` set (vals ?s ?t)"
  proof
    assume "kf gk ?s a \<in> gk ` set (vals ?s ?t)"
    then obtain b where "b \<in> set ds" "kf gk ?s a = kf gk ?s b" using ids by (auto simp: vals_def kf_def)
    then have "(gk \<circ> val) a = (gk \<circ> val) b" "b \<in> set L" "a \<in> set L" using kf [of a] kf [of b] ids L by auto
    then show False using inj_onD [OF d(2), of a b] a(1) \<open>b \<in> set ds\<close> by auto
  qed
  obtain b y t' where t': "t_push cmp (kf gk ?s) a 0 ?t = ((b, y), t')" by (metis prod.exhaust)
  obtain s' where s': "avl_PushWithDuplicate cmp gk ?s a False = Some ((b, report False y), s')" "pushed ?s a ?t b t' s'"
    using PushWithDuplicate_at [where n = n and cmp = cmp and gk = gk and want = False, OF rt n(3) a(2) _ n(4,5) _ n(6)] n(1,7) t'
    by auto
  have q: "nodes ?s a \<noteq> None" using n(1) by simp
  note P = bucket_pushed [OF c inv q _ new t' s'(2)]
  have u: "pushed_tree cmp (gk \<circ> val) (ds @ [a]) = t'" by (simp only: pushed_tree_simps push [symmetric] t' snd_conv)
  have "push_to_other cmp gk a h x = Some (nodes s', s')" using s'(1) by (simp add: push_to_other_def avl_Push_def)
  moreover have "map_option node_value (nodes s' e) = Some (val e)" if "e \<in> insert a (set ds)" for e
    using P(7) that v [of e] n(1,2) by auto
  then have "pushing cmp gk val L (ds @ [a]) (nodes s') s'"
    using c d P(3) P(5) ids p L unfolding pushing_def u by auto
  moreover have "nodes s' e = h e" if "e \<in> set rest" for e
  proof -
    have "e \<notin> insert a (set (inord ?t))" using that a ids by auto
    then show ?thesis using P(6) by simp
  qed
  ultimately show ?thesis by blast
qed

interpretation pushing_all: ordered_sink "push_to_other cmp gk" val L "pushing cmp gk val L"
  for cmp :: "'k \<Rightarrow> 'k \<Rightarrow> int" and gk :: "'v \<Rightarrow> 'k" and val :: "ptr \<Rightarrow> 'v" and L
proof (unfold_locales, goal_cases)
  case (1 ds h x h')
  then show ?case using pushing_frame by blast
next
  case (2 ds h x a rest n)
  then show ?case by (intro pushing_step)
qed

text \<open>A balanced tree of three entries is a root with two children; its nodes come left, right, root.\<close>

lemma no_entry: "length (inord u) = 0 \<longleftrightarrow> u = Tip"
  by (cases u) auto

lemma single_entry: "length (inord u) = 1 \<longleftrightarrow> (\<exists>b k. u = Nd Tip b k Tip)"
  by (cases u) (auto simp: no_entry [simplified])

lemma two_entries:
  assumes "length (inord u) = 2"
  shows "real_ht u = 2"
proof (cases u)
  case (Nd l a h r)
  then have "length (inord l) + length (inord r) = 1" using assms by simp
  then consider "length (inord l) = 0" "length (inord r) = 1" | "length (inord r) = 0" "length (inord l) = 1" by linarith
  then show ?thesis unfolding Nd single_entry no_entry by cases auto
qed (use assms in simp)

lemma three_balanced:
  assumes "balanced t" and "length (inord t) = 3"
  obtains b hb a h c hc where "t = Nd (Nd Tip b hb Tip) a h (Nd Tip c hc Tip)"
proof (cases t)
  case (Nd l a h r)
  then have "length (inord l) + length (inord r) = 2" using assms(2) by simp
  then consider "length (inord l) = 0" "length (inord r) = 2" | "length (inord r) = 0" "length (inord l) = 2"
    | "length (inord l) = 1" "length (inord r) = 1" by linarith
  then show thesis
  proof cases
    case 1
    then show thesis using assms(1) two_entries [OF 1(2)] unfolding Nd no_entry by simp
  next
    case 2
    then show thesis using assms(1) two_entries [OF 2(2)] unfolding Nd no_entry by simp
  next
    case 3
    then show thesis using that unfolding Nd single_entry by blast
  qed
qed (use assms(2) in simp)

lemma pushed_tree_three:
  assumes "cmp (key b) (key a) < 0" and "cmp (key c) (key a) > 0" and "cmp (key c) (key b) > 0" 
  shows "pushed_tree cmp key [b, c, a] = Nd Tip b 2 (Nd (Nd Tip a 0 Tip) c 1 Tip)"
  using assms by (simp add: pushed_tree_def t_push_def attach_def new_ht_def fixup_def)

text \<open>
  C40: \<open>ReuseAllNodes\<close> of a valid tree hands out every node once, children before parents, with cleared
  links and with height 0, where a new node has height 1, and leaves the tree empty. When the callback
  pushes the nodes to another tree, that is what the pushes of nodes of height 0 in this order build: a
  search tree with all the entries, which the checker accepts exactly when it is balanced. It need not
  be: from every valid tree of three entries, of height 2, comes a chain of height 3 that the checker rejects.
\<close>
theorem reused_nodes_unbalance:
  assumes c: "comparator cmp" and inv: "avl_inv cmp gk s t"
  shows "(\<exists>s1. ReuseAllNodes collect_node s [] = Some (map (\<lambda>a. (a, loose_node (value_at s a))) (postord t), s1) \<and> avl_empty s1)
    \<and> (\<exists>u u' s1. ReuseAllNodes (push_to_other cmp gk) s (AvlTree_new Map.empty 0) = Some (u, s1) \<and> avl_empty s1
        \<and> u' = u\<lparr>nodes := nodes s1\<rparr> \<and> tree_inv cmp gk u' (pushed_tree cmp (kf gk s) (postord t))
        \<and> mset (vals u' (pushed_tree cmp (kf gk s) (postord t))) = mset (vals s t)
        \<and> VerifyAvlProperties cmp gk u' = Some (balanced (pushed_tree cmp (kf gk s) (postord t)))
        \<and> (length (inord t) = 3 \<longrightarrow> Height s = Some 2 \<and> VerifyAvlProperties cmp gk s = Some True
            \<and> Height u' = Some 3 \<and> VerifyAvlProperties cmp gk u' = Some False))"
proof -
  from inv have rt: "rooted s t" "avl_state t" and asc: "ascending cmp (map (kf gk s) (inord t))" by (simp_all add: avl_inv_def)
  have kf: "gk \<circ> value_at s = kf gk s" by (auto simp: kf_def)
  have d: "distinct (map (kf gk s) (postord t))"
    using ascending_distinct [OF c asc] mset_postord [of t] by (metis mset_map mset_eq_imp_distinct_iff)
  have 1: "\<exists>s1. ReuseAllNodes collect_node s [] = Some (map (\<lambda>a. (a, loose_node (value_at s a))) (postord t), s1) \<and> avl_empty s1"
    using collecting.hand_out_in_order [OF rt(1) refl, of "value_at s" "[]"] by (auto simp: avl_empty_def)
  let ?t = "pushed_tree cmp (kf gk s) (postord t)"
  have "pushing cmp gk (value_at s) (postord t) [] (nodes s) (AvlTree_new Map.empty 0)"
    using c d by (simp add: pushing_def kf distinct_map tree_inv_Tip AvlTree_new_def)
  from pushing_all.hand_out_in_order [OF rt(1) refl refl this] obtain u s1 where
    r: "ReuseAllNodes (push_to_other cmp gk) s (AvlTree_new Map.empty 0) = Some (u, s1)" "root s1 = nullptr"
    and p: "pushing cmp gk (value_at s) (postord t) (postord t) (nodes s1) u" by blast
  let ?u = "u\<lparr>nodes := nodes s1\<rparr>"
  have inv': "tree_inv cmp gk ?u ?t" and it: "set (inord ?t) = set (inord t)"
    and v: "\<And>b. b \<in> set (inord t) \<Longrightarrow> map_option node_value (nodes s1 b) = Some (value_at s b)"
    using p by (simp_all add: pushing_def kf)
  then have rt': "rooted ?u ?t" "ascending cmp (map (kf gk ?u) (inord ?t))" by (simp_all add: tree_inv_def)
  have val: "value_at ?u b = value_at s b" if "b \<in> set (inord t)" for b using v [OF that] by (auto simp: value_at_def)
  have "mset (inord ?t) = mset (inord t)"
    using it rooted_distinct [OF rt(1)] rooted_distinct [OF rt'(1)] by (simp add: set_eq_iff_mset_eq_distinct)
  then have vs: "mset (vals ?u ?t) = mset (vals s t)" unfolding vals_def mset_map
    by simp (metis (mono_tags, lifting) image_mset_cong val set_mset_mset)
  note ver = VerifyAvlProperties_at [OF c rt']
  have 3: "Height s = Some 2 \<and> Height ?u = Some 3 \<and> \<not> balanced ?t" if three: "length (inord t) = 3"
  proof -
    obtain b hb a h e he where t: "t = Nd (Nd Tip b hb Tip) a h (Nd Tip e he Tip)"
      by (rule three_balanced [OF avl_state_balanced [OF rt(2)] three])
    have "cmp (kf gk s b) (kf gk s a) < 0" "cmp (kf gk s a) (kf gk s e) < 0" "cmp (kf gk s b) (kf gk s e) < 0" using asc by (simp_all add: t)
    then have "?t = Nd Tip b 2 (Nd (Nd Tip a 0 Tip) e 1 Tip)"
      using comparator.cmp_flip [OF c] by (simp add: t pushed_tree_three)
    moreover have "tree_at (nodes s) nullptr (root s) t" "tree_at (nodes ?u) nullptr (root ?u) ?t"
      using rt(1) rt'(1) by (simp_all add: rooted_def place_def)
    then have "Height s = Some (real_ht t)" "Height ?u = Some (real_ht ?t)"
      unfolding Height_def by (auto intro: CalculateHeight_at)
    ultimately show ?thesis by (simp add: t)
  qed
  show ?thesis using 1 r inv' vs ver 3 VerifyAvlProperties_ok [OF c inv] by (auto simp: avl_empty_def)
qed

definition demo_three :: "u32 avl" where
  "demo_three = \<lparr>nodes = [7 \<mapsto> \<lparr>parent = 0, left = 8, right = 9, height = 2, node_value = 2\<rparr>,
     8 \<mapsto> \<lparr>parent = 7, left = 0, right = 0, height = 1, node_value = 1\<rparr>,
     9 \<mapsto> \<lparr>parent = 7, left = 0, right = 0, height = 1, node_value = 3\<rparr>], root = 7, tree_count = 3\<rparr>"

theorem reused_nodes_unbalance_witness:
  "VerifyAvlProperties cmp_unsigned id demo_three = Some True
   \<and> (\<exists>s1. ReuseAllNodes collect_node demo_three [] = Some ([(8, loose_node 1), (9, loose_node 3), (7, loose_node 2)], s1))
   \<and> (\<exists>u u' s1. ReuseAllNodes (push_to_other cmp_unsigned id) demo_three (AvlTree_new Map.empty 0) = Some (u, s1)
      \<and> u' = u\<lparr>nodes := nodes s1\<rparr> \<and> Height u' = Some 3 \<and> VerifyAvlProperties cmp_unsigned id u' = Some False)"
proof -
  let ?t = "Nd (Nd Tip 8 1 Tip) 7 2 (Nd Tip (9 :: ptr) 1 Tip)"
  have "avl_inv cmp_unsigned id demo_three ?t"
    by (simp add: avl_inv_def rooted_def place_def distinct_at_def demo_three_def avl_state_def kf_def value_at_def cmp_unsigned_def)
  from reused_nodes_unbalance [OF unsigned.comparator_axioms this]
  show ?thesis by (auto simp: value_at_def demo_three_def)
qed

text \<open>
  \<open>PushWithDuplicate\<close> of a node whose key is the key of the only node of a tree takes the
  address of the duplicate through a null slot when the caller asks for it; without that request
  it returns false, and in every larger tree it reports the duplicate.
\<close>
theorem push_duplicate_of_single_node:
  assumes c: "comparator cmp" and inv: "avl_inv cmp gk s t" and q: "q \<noteq> nullptr" "q \<notin> set (inord t)" "nodes s q = Some n"
    and n: "left n = nullptr" "right n = nullptr" "height n = 1" and dup: "gk (node_value n) \<in> gk ` set (vals s t)"
  shows "avl_PushWithDuplicate cmp gk s q False = Some ((False, None), s)
    \<and> avl_PushWithDuplicate cmp gk s q True
        = (if single t then None else map_option (\<lambda>a. ((False, Some a), s)) (t_find cmp (kf gk s) (gk (node_value n)) t))"
proof -
  from inv have rt: "rooted s t" "avl_state t" and asc: "ascending cmp (map (kf gk s) (inord t))" by (simp_all add: avl_inv_def)
  have kq: "kf gk s q = gk (node_value n)" using q(3) by (simp add: kf_def value_at_def)
  then have "kf gk s q \<in> kf gk s ` set (inord t)" using dup by (simp add: keys_set)
  from comparator.t_push_dup [OF c asc this, of 1] obtain a where
    a: "t_push cmp (kf gk s) q 1 t = ((False, a), t)" "t_find cmp (kf gk s) (gk (node_value n)) t = Some a" unfolding kq by blast
  have nt: "t \<noteq> Tip" using dup by (auto simp: vals_def)
  note P = PushWithDuplicate_at [OF rt(1) avl_state_nn [OF rt(2)] q n(1,2) _ _ a(1) [folded n(3)]]
  have f: "avl_PushWithDuplicate cmp gk s q False = Some ((False, None), s)"
    using P [of False] n(3) nt by (auto simp: report_def pushed_def)
  moreover have "avl_PushWithDuplicate cmp gk s q True = (if single t then None else Some ((False, Some a), s))"
    using P [of True] n(3) nt by (auto simp: report_def pushed_def split: if_splits)
  ultimately show ?thesis using a(2) by simp
qed

definition demo_loose :: "u32 avl" where
  "demo_loose = demo_avl\<lparr>nodes := (nodes demo_avl)(9 \<mapsto> \<lparr>parent = 0, left = 0, right = 0, height = 1, node_value = 5\<rparr>)\<rparr>"

theorem push_duplicate_of_single_node_witness: "avl_PushWithDuplicate cmp_unsigned id demo_loose 9 True = None"
proof -
  let ?n = "\<lparr>parent = 0, left = 0, right = 0, height = 1, node_value = 5 :: u32\<rparr>"
  have inv: "avl_inv cmp_unsigned id demo_loose (Nd Tip 8 1 Tip)" and v: "id (node_value ?n) \<in> id ` set (vals demo_loose (Nd Tip 8 1 Tip))"
    by (simp_all add: avl_inv_def rooted_def place_def distinct_at_def demo_loose_def demo_avl_def avl_state_def vals_def value_at_def)
  have "nodes demo_loose 9 = Some ?n" by (simp add: demo_loose_def)
  from push_duplicate_of_single_node [OF unsigned.comparator_axioms inv _ _ this _ _ _ v] show ?thesis by (simp add: id_def)
qed

section \<open>Erasing with a predicate, taking the root out\<close>

text \<open>
  \<open>Erase\<close> with a predicate reads the node after the last one: when the entry of the greatest
  key does not satisfy the predicate, the search for another entry of that key dereferences null.
\<close>
theorem erase_if_past_end:
  assumes c: "comparator cmp" and inv: "avl_inv cmp gk s t" and last: "inord t = xs @ [a]" "kf gk s a = k"
    and pred: "\<not> pred (value_at s a)"
  shows "avl_EraseIf cmp gk pred s k = None"
proof -
  from inv have rt: "rooted s t" and asc: "ascending cmp (map (kf gk s) (inord t))" by (simp_all add: avl_inv_def)
  have a: "a \<in> set (inord t)" using last by simp
  have "t_find cmp (kf gk s) k t \<noteq> None" using comparator.t_find_None [OF c asc, of k] last by auto
  then obtain b where b: "t_find cmp (kf gk s) k t = Some b" by blast
  from comparator.t_find_Some [OF c asc b] have bk: "b \<in> set (inord t)" "kf gk s b = k" by auto
  have "distinct (map (kf gk s) (inord t))" using ascending_distinct [OF c asc] .
  then have "b = a" using bk a last(2) by (simp add: distinct_map inj_on_def)
  moreover have "a \<noteq> nullptr" "nodes s a \<noteq> None" using rooted_nodes [OF rt a] by auto
  moreover have "GetNextNode s a = Some nullptr" using GetNextNode_at [OF rt, of xs a "[]"] last(1) by simp
  ultimately show ?thesis using FindNode_at [OF rt, of cmp gk k] b pred
    by (auto simp: avl_EraseIf_def erase_if_loop.simps node_at_some value_at_def)
qed

theorem erase_if_past_end_witness: "avl_EraseIf cmp_unsigned id (\<lambda>v. v = 4) demo_avl 5 = None"
  by (rule erase_if_past_end [OF unsigned.comparator_axioms demo_avl_inv, of "[]" 8]) (simp_all add: kf_def value_at_def demo_avl_def)

text \<open>
  \<open>Extract()\<close>, which takes the root out, hangs the right subtree below the greatest node of the
  left one without a repair: it unbalances the tree of 1 to 7, and it keeps the count.
\<close>
theorem extract_root_unbalances:
  "\<exists>s n s'. insert_all [4, 2, 6, 1, 3, 5, 7] (AvlTree_new Map.empty 0) = Some s
    \<and> VerifyAvlProperties cmp_unsigned id s = Some True \<and> Height s = Some 3
    \<and> avl_ExtractRoot s = Some (n, s') \<and> avl_size s' = avl_size s
    \<and> VerifyAvlProperties cmp_unsigned id s' = Some False \<and> Height s' = Some 4"
proof -
  have "(do { s \<leftarrow> insert_all [4, 2, 6, 1, 3, 5, 7] (AvlTree_new Map.empty 0);
      v \<leftarrow> VerifyAvlProperties cmp_unsigned id s; h \<leftarrow> Height s;
      (n, s1) \<leftarrow> avl_ExtractRoot s;
      v1 \<leftarrow> VerifyAvlProperties cmp_unsigned id s1; h1 \<leftarrow> Height s1;
      Some (v, h, avl_size s1 = avl_size s, v1, h1) }) = Some (True, 3, True, False, 4)" by code_simp
  then show ?thesis by (auto simp: Option.bind_eq_Some_conv)
qed

end
