(* ===== verification/Avl_Print.thy ===== *)
theory Avl_Print
  imports Avl_Tree_Walk
begin

text \<open>
  \<open>Print\<close> of the debug build of \<open>AvlTreeBase\<close> (\<open>algo/internal/avl_tree_base.h\<close>): it draws the tree, one line
  per node, the right subtree of a node before the left one. \<open>shown\<close> is what \<open>operator<<\<close> writes for a
  value; the output is the bytes of the stream, with the box characters in UTF-8.
\<close>

definition tee :: bstring where
  "tee = [0xE2, 0x94, 0x9C, 0xE2, 0x94, 0x80, 0xE2, 0x94, 0x80, 0x20]"

definition corner :: bstring where
  "corner = [0xE2, 0x94, 0x94, 0xE2, 0x94, 0x80, 0xE2, 0x94, 0x80, 0x20]"

definition left_corner :: bstring where
  "left_corner = [0xE2, 0x94, 0x94, 0xE2, 0x94, 0x80, 0xE2, 0x94, 0x80, 0xE2, 0x94, 0x80]"

definition bar :: bstring where "bar = [0x7C, 0x20, 0x20, 0x20]"
definition blank :: bstring where "blank = [0x20, 0x20, 0x20, 0x20]"
definition newline :: byte where "newline = 0x0A"

definition PrintRoot :: "('v \<Rightarrow> bstring) \<Rightarrow> 'v avl \<Rightarrow> ptr \<Rightarrow> bstring \<Rightarrow> bstring option" where
  "PrintRoot shown s r os = do { n \<leftarrow> node_at s r; Some (os @ shown (node_value n) @ [newline]) }"

partial_function (option) PrintSubTree :: "('v \<Rightarrow> bstring) \<Rightarrow> 'v avl \<Rightarrow> ptr \<Rightarrow> bstring \<Rightarrow> bstring \<Rightarrow> bstring option" where
  [code]: "PrintSubTree shown s r prefix os =
     (if r = nullptr then Some os
      else do {
        n \<leftarrow> node_at s r;
        let has_right = (right n \<noteq> nullptr);
        let has_left = (left n \<noteq> nullptr);
        (if \<not> has_right \<and> \<not> has_left then Some os
         else do {
           let os = os @ prefix @ (if has_right \<and> has_left then tee else []) @ (if has_right \<and> \<not> has_left then corner else []);
           os \<leftarrow> (if has_right then do {
                    os \<leftarrow> PrintRoot shown s (right n) os;
                    m \<leftarrow> node_at s (right n);
                    (if has_left \<and> (right m \<noteq> nullptr \<or> left m \<noteq> nullptr)
                     then PrintSubTree shown s (right n) (prefix @ bar) os
                     else PrintSubTree shown s (right n) (prefix @ blank) os) }
                  else Some os);
           (if has_left then do {
              os \<leftarrow> PrintRoot shown s (left n) (os @ (if has_right then prefix else []) @ left_corner);
              PrintSubTree shown s (left n) (prefix @ blank) os }
            else Some os) }) })"

definition avl_Print :: "('v \<Rightarrow> bstring) \<Rightarrow> 'v avl \<Rightarrow> bstring \<Rightarrow> bstring option" where
  "avl_Print shown s os =
     (if root s = nullptr then Some os
      else do {
        os \<leftarrow> PrintRoot shown s (root s) os;
        PrintSubTree shown s (root s) [] os })"

section \<open>The drawing as a list of lines\<close>

fun tree_lines :: "bstring \<Rightarrow> ptr atree \<Rightarrow> (bstring \<times> ptr) list" where
  "tree_lines prefix Tip = []"
| "tree_lines prefix (Nd l a h r) =
     (case r of
        Tip \<Rightarrow> []
      | Nd rl b _ rr \<Rightarrow>
          (prefix @ (if l \<noteq> Tip then tee else corner), b)
            # tree_lines (prefix @ (if l \<noteq> Tip \<and> (rr \<noteq> Tip \<or> rl \<noteq> Tip) then bar else blank)) r)
     @ (case l of Tip \<Rightarrow> [] | Nd _ b _ _ \<Rightarrow> (prefix @ left_corner, b) # tree_lines (prefix @ blank) l)"

fun right_first :: "'n atree \<Rightarrow> 'n list" where
  "right_first Tip = []"
| "right_first (Nd l a h r) = a # right_first r @ right_first l"

definition line_of :: "('v \<Rightarrow> bstring) \<Rightarrow> 'v avl \<Rightarrow> bstring \<times> ptr \<Rightarrow> bstring" where
  "line_of shown s d = fst d @ shown (value_at s (snd d)) @ [newline]"

lemma tree_lines_nodes: "map snd (tree_lines prefix t) = tl (right_first t)"
proof (induction prefix t rule: tree_lines.induct)
  case (2 prefix l a h r)
  then show ?case by (cases r; cases l) simp_all
qed simp

lemma mset_right_first: "mset (right_first t) = mset (inord t)"
  by (induction t) simp_all

lemma glyphs_no_newline: "newline \<notin> set tee \<union> set corner \<union> set left_corner \<union> set bar \<union> set blank"
  by (simp add: newline_def tee_def corner_def left_corner_def bar_def blank_def)

lemma tree_lines_one_line: "newline \<notin> set prefix \<Longrightarrow> d \<in> set (tree_lines prefix t) \<Longrightarrow> newline \<notin> set (fst d)"
proof (induction prefix t rule: tree_lines.induct)
  case (2 prefix l a h r)
  then show ?case using glyphs_no_newline by (auto split: atree.splits if_splits)
qed simp

lemma PrintRoot_at: "p \<noteq> nullptr \<Longrightarrow> nodes s p = Some n \<Longrightarrow> PrintRoot shown s p os = Some (os @ shown (value_at s p) @ [newline])"
  by (simp add: PrintRoot_def node_at_some value_at_def)

lemma tree_at_Tip_iff: "tree_at h par p t \<Longrightarrow> p = nullptr \<longleftrightarrow> t = Tip"
  by (cases t) auto

lemma PrintSubTree_at:
  "tree_at (nodes s) par p t \<Longrightarrow>
    PrintSubTree shown s p prefix os = Some (os @ concat (map (line_of shown s) (tree_lines prefix t)))"
proof (induction prefix t arbitrary: par p os rule: tree_lines.induct)
  case (1 prefix)
  then show ?case by (subst PrintSubTree.simps) simp
next
  case (2 prefix l a h r)
  from "2.prems" obtain n where n: "p = a" "a \<noteq> nullptr" "nodes s a = Some n" "tree_at (nodes s) a (left n) l" "tree_at (nodes s) a (right n) r"
    by auto
  then have at: "node_at s p = Some n" by (simp add: node_at_some)
  have tips: "left n = nullptr \<longleftrightarrow> l = Tip" "right n = nullptr \<longleftrightarrow> r = Tip" using n(4,5) tree_at_Tip_iff by blast+
  have L: "PrintRoot shown s (left n) os' = Some (os' @ shown (value_at s b) @ [newline])"
      "PrintSubTree shown s (left n) (prefix @ blank) os' = Some (os' @ concat (map (line_of shown s) (tree_lines (prefix @ blank) l)))"
    if "l = Nd ll b hb lr" for ll b hb lr os'
    using "2.IH"(2) [OF that n(4)] n(4) that by (auto simp: PrintRoot_at)
  have R: "PrintRoot shown s (right n) os' = Some (os' @ shown (value_at s b) @ [newline])"
      "\<exists>m. node_at s (right n) = Some m \<and> (right m = nullptr \<longleftrightarrow> rr = Tip) \<and> (left m = nullptr \<longleftrightarrow> rl = Tip)"
      "PrintSubTree shown s (right n) (prefix @ (if l \<noteq> Tip \<and> (rr \<noteq> Tip \<or> rl \<noteq> Tip) then bar else blank)) os'
        = Some (os' @ concat (map (line_of shown s) (tree_lines (prefix @ (if l \<noteq> Tip \<and> (rr \<noteq> Tip \<or> rl \<noteq> Tip) then bar else blank)) r)))"
    if "r = Nd rl b hb rr" for rl b hb rr os'
    using "2.IH"(1) [OF that n(5)] n(5) that tree_at_Tip_iff by (auto simp: PrintRoot_at node_at_some)
  show ?case
  proof (cases r)
    case Tip
    then show ?thesis using at n(1,2) tips L
      by (subst PrintSubTree.simps) (cases l; simp add: Let_def line_of_def)
  next
    case r: (Nd rl b hb rr)
    obtain m where m: "node_at s (right n) = Some m" "right m = nullptr \<longleftrightarrow> rr = Tip" "left m = nullptr \<longleftrightarrow> rl = Tip"
      using R(2) [OF r] by (elim exE conjE) (rule that)
    let ?R = "tree_lines (prefix @ (if l \<noteq> Tip \<and> (rr \<noteq> Tip \<or> rl \<noteq> Tip) then bar else blank)) r"
    let ?L = "tree_lines (prefix @ blank) l"
    note simps = at n(1,2) tips m R(1) [OF r] R(3) [OF r]
    show ?thesis
    proof (cases l)
      case Tip
      have "tree_lines prefix (Nd l a h r) = (prefix @ corner, b) # ?R" using r Tip by simp
      moreover have "r \<noteq> Tip" using r by simp
      ultimately show ?thesis using simps Tip
        by (subst PrintSubTree.simps) (simp add: Let_def line_of_def del: tree_lines.simps)
    next
      case l: (Nd ll c hc lr)
      have "tree_lines prefix (Nd l a h r) = (prefix @ tee, b) # ?R @ (prefix @ left_corner, c) # ?L" using r l by simp
      moreover have "r \<noteq> Tip" "l \<noteq> Tip" using r l by simp_all
      ultimately show ?thesis using simps L [OF l]
        by (subst PrintSubTree.simps, cases "rr = Tip \<and> rl = Tip") (auto simp: Let_def line_of_def simp del: tree_lines.simps)
    qed
  qed
qed

text \<open>
  The drawing of a tree that is well-formed in the heap is defined and shows every node exactly once,
  one line per node, the root first and the right subtree of a node before its left one; what stands
  before a value on its line contains no line break.
\<close>
theorem avl_print_lines:
  assumes "rooted s t" and "t \<noteq> Tip"
  shows "\<exists>ls. avl_Print shown s os = Some (os @ concat (map (line_of shown s) ls))
    \<and> map snd ls = right_first t \<and> mset (map snd ls) = mset (inord t) \<and> (\<forall>d \<in> set ls. newline \<notin> set (fst d))"
proof -
  from assms obtain l a h r where t: "t = Nd l a h r" by (cases t) auto
  have at: "tree_at (nodes s) nullptr (root s) t" using assms(1) by (simp add: rooted_def place_def)
  with t have rt: "root s = a" "a \<noteq> nullptr" "nodes s a \<noteq> None" by auto
  let ?ls = "([], a) # tree_lines [] t"
  have "avl_Print shown s os = Some (os @ concat (map (line_of shown s) ?ls))"
    using rt PrintSubTree_at [OF at] by (auto simp: avl_Print_def PrintRoot_at line_of_def)
  moreover have "map snd ?ls = right_first t" using tree_lines_nodes [of "[]" t] t by simp
  moreover have "mset (right_first t) = mset (inord t)" by (rule mset_right_first)
  moreover have "\<forall>d \<in> set ?ls. newline \<notin> set (fst d)" using tree_lines_one_line [of "[]" _ t] by auto
  ultimately show ?thesis by metis
qed

definition three_nodes :: "byte avl" where
  "three_nodes = \<lparr>nodes = [1 \<mapsto> \<lparr>parent = 0, left = 2, right = 3, height = 2, node_value = 0x62\<rparr>,
      2 \<mapsto> \<lparr>parent = 1, left = 0, right = 0, height = 1, node_value = 0x61\<rparr>,
      3 \<mapsto> \<lparr>parent = 1, left = 0, right = 0, height = 1, node_value = 0x63\<rparr>], root = 1, tree_count = 3\<rparr>"

theorem avl_print_lines_witness:
  "\<exists>ls. avl_Print (\<lambda>v. [v]) three_nodes [] = Some (concat (map (line_of (\<lambda>v. [v]) three_nodes) ls)) \<and> map snd ls = [1, 3, 2]"
proof -
  let ?t = "Nd (Nd Tip 2 1 Tip) 1 2 (Nd Tip 3 1 Tip)"
  have "rooted three_nodes ?t" by (simp add: rooted_def place_def distinct_at_def three_nodes_def)
  from avl_print_lines [OF this, of "\<lambda>v. [v]" "[]"] show ?thesis by auto
qed

end
