(* ===== verification/Memory_Util.thy ===== *)
theory Memory_Util
  imports Prelude
begin

text \<open>
  Raw memory: the wrappers of \<open>malloc\<close>, \<open>free\<close> and \<open>realloc\<close> of \<open>util/memory_util.h\<close> with the
  counters of \<open>util/memory_stat.h\<close>, the allocator of \<open>algo/libc_allocator_with_realloc.h\<close> and the
  loops of \<open>zstl/uninitialized.h\<close>. A block is a list of cells, each raw or holding an object. The
  address the C library returns is an argument, 0 when it fails; \<open>realloc\<close> to size 0 frees the
  block and returns null, as the code expects.
\<close>

section \<open>Blocks, objects and their type\<close>

datatype 'a cell = Raw | Obj 'a

record memory_stat =
  memory_usage :: u64
  allocate_count :: u64
  deallocate_count :: u64
  reallocate_count :: u64

record 'a mem =
  blocks :: "'a cell list heap"
  stat :: memory_stat

text \<open>
  The type of the elements: its size, the traits the code asks for, and its default value. The
  constructions of one call are numbered; \<open>ctor_throws\<close> and \<open>copy_throws\<close> say which of them throw.
\<close>

record 'a elem_type =
  elem_size :: nat
  trivial :: bool
  trivially_destructible :: bool
  nothrow_copy_assignable :: bool
  nothrow_constructible :: bool
  member_can_reallocate :: bool
  nothrow_default_constructible :: bool
  dflt :: 'a
  ctor_throws :: "nat \<Rightarrow> bool"
  copy_throws :: "nat \<Rightarrow> bool"

section \<open>The C library with counters\<close>

definition count_alloc :: "u64 \<Rightarrow> memory_stat \<Rightarrow> memory_stat" where
  "count_alloc n st = st\<lparr>allocate_count := allocate_count st + 1, memory_usage := memory_usage st + n\<rparr>"

definition Malloc :: "nat \<Rightarrow> 'a mem \<Rightarrow> ptr \<Rightarrow> u64 \<Rightarrow> ptr \<times> 'a mem" where
  "Malloc sz m fresh n =
     (let p = fresh in
      if p \<noteq> nullptr then
        (p, m\<lparr>blocks := (blocks m)(p \<mapsto> replicate (unat n div sz) Raw), stat := count_alloc n (stat m)\<rparr>)
      else (p, m))"

definition Free :: "'a mem \<Rightarrow> ptr \<Rightarrow> u64 \<Rightarrow> 'a mem option" where
  "Free m p n =
     (let st = (stat m)\<lparr>deallocate_count := deallocate_count (stat m) + 1, memory_usage := memory_usage (stat m) - n\<rparr> in
      if p = nullptr then Some (m\<lparr>stat := st\<rparr>)
      else do { _ \<leftarrow> blocks m p; Some (m\<lparr>blocks := (blocks m)(p := None), stat := st\<rparr>) })"

definition Realloc :: "nat \<Rightarrow> 'a mem \<Rightarrow> ptr \<Rightarrow> u64 \<Rightarrow> u64 \<Rightarrow> ptr \<Rightarrow> (ptr \<times> 'a mem) option" where
  "Realloc sz m p old_size n fresh = do {
     old \<leftarrow> (if p = nullptr then Some [] else blocks m p);
     let ret = (if n = 0 \<and> p \<noteq> nullptr then nullptr else fresh);
     let bs = (if n = 0 \<and> p \<noteq> nullptr then (blocks m)(p := None)
               else if ret = nullptr then blocks m
               else (blocks m)(p := None, ret \<mapsto> take (unat n div sz) old @ replicate (unat n div sz - length old) Raw));
     let st = (if ret \<noteq> nullptr \<or> n = 0 then
                 (stat m)\<lparr>reallocate_count := reallocate_count (stat m) + 1, memory_usage := memory_usage (stat m) + (n - old_size)\<rparr>
               else stat m);
     Some (ret, m\<lparr>blocks := bs, stat := st\<rparr>) }"

section \<open>The allocator\<close>

text \<open>The sizes in bytes are products of \<open>size_t\<close>s and may wrap around.\<close>

definition allocate :: "'a elem_type \<Rightarrow> 'a mem \<Rightarrow> ptr \<Rightarrow> size_t \<Rightarrow> ptr \<times> 'a mem" where
  "allocate E m fresh n = Malloc (elem_size E) m fresh (n * of_nat (elem_size E))"

definition reallocate :: "'a elem_type \<Rightarrow> 'a mem \<Rightarrow> ptr \<Rightarrow> size_t \<Rightarrow> size_t \<Rightarrow> ptr \<Rightarrow> (ptr \<times> 'a mem) option" where
  "reallocate E m p old_n n fresh =
     Realloc (elem_size E) m p (old_n * of_nat (elem_size E)) (n * of_nat (elem_size E)) fresh"

definition deallocate :: "'a elem_type \<Rightarrow> 'a mem \<Rightarrow> ptr \<Rightarrow> size_t \<Rightarrow> 'a mem option" where
  "deallocate E m p n = Free m p (n * of_nat (elem_size E))"

section \<open>Construction and destruction\<close>

datatype array_exn = Bad_alloc | Elem_threw

definition put_cell :: "nat \<Rightarrow> 'a cell \<Rightarrow> 'a cell list \<Rightarrow> 'a cell list option" where
  "put_cell i c cells = (if i < length cells then Some (cells[i := c]) else None)"

definition is_Obj :: "'a cell \<Rightarrow> bool" where
  "is_Obj c \<longleftrightarrow> c \<noteq> Raw"

text \<open>\<open>DestroyRange\<close> on \<open>n\<close> cells from \<open>first\<close>: destroying a raw cell, or one past the block, is undefined.\<close>

fun destroy_loop :: "nat \<Rightarrow> nat \<Rightarrow> 'a cell list \<Rightarrow> 'a cell list option" where
  "destroy_loop first 0 cells = Some cells"
| "destroy_loop first (Suc n) cells =
     (if first < length cells \<and> is_Obj (cells ! first) then destroy_loop (Suc first) n (cells[first := Raw]) else None)"

definition DestroyRange :: "'a elem_type \<Rightarrow> nat \<Rightarrow> nat \<Rightarrow> 'a cell list \<Rightarrow> 'a cell list option" where
  "DestroyRange E first fin cells =
     (if trivially_destructible E then Some cells else destroy_loop first (fin - first) cells)"

text \<open>A construction that throws destroys what was constructed before it.\<close>

fun construct_loop :: "'a elem_type \<Rightarrow> nat \<Rightarrow> nat \<Rightarrow> nat \<Rightarrow> 'a cell list \<Rightarrow> (bool \<times> 'a cell list) option" where
  "construct_loop E old_first k 0 cells = Some (True, cells)"
| "construct_loop E old_first k (Suc n) cells =
     (if ctor_throws E k then do { cells \<leftarrow> destroy_loop old_first k cells; Some (False, cells) }
      else do { cells \<leftarrow> put_cell (old_first + k) (Obj (dflt E)) cells; construct_loop E old_first (Suc k) n cells })"

definition UninitializedDefaultConstruct ::
  "'a elem_type \<Rightarrow> nat \<Rightarrow> nat \<Rightarrow> 'a cell list \<Rightarrow> (bool \<times> 'a cell list) option" where
  "UninitializedDefaultConstruct E first fin cells =
     (if trivial E then Some (True, cells) else construct_loop E first 0 (fin - first) cells)"

text \<open>
  \<open>std::uninitialized_copy\<close> of the cells \<open>src\<close>: a trivial type is copied as bytes; the copy of a
  raw cell of another type is undefined. Moving with \<open>UninitializedMoveIfNoexcept\<close> is the same on
  the destination; the sources stay alive, in a moved-from state.
\<close>

fun copy_loop :: "'a elem_type \<Rightarrow> nat \<Rightarrow> nat \<Rightarrow> 'a cell list \<Rightarrow> 'a cell list \<Rightarrow> (bool \<times> 'a cell list) option" where
  "copy_loop E old_first k [] cells = Some (True, cells)"
| "copy_loop E old_first k (c # src) cells =
     (if \<not> trivial E \<and> \<not> is_Obj c then None
      else if \<not> trivial E \<and> copy_throws E k then do { cells \<leftarrow> destroy_loop old_first k cells; Some (False, cells) }
      else do { cells \<leftarrow> put_cell (old_first + k) c cells; copy_loop E old_first (Suc k) src cells })"

definition uninitialized_copy :: "'a elem_type \<Rightarrow> 'a cell list \<Rightarrow> nat \<Rightarrow> 'a cell list \<Rightarrow> (bool \<times> 'a cell list) option" where
  "uninitialized_copy E src first cells = copy_loop E first 0 src cells"

definition UninitializedMoveIfNoexcept :: "'a elem_type \<Rightarrow> 'a cell list \<Rightarrow> nat \<Rightarrow> 'a cell list \<Rightarrow> (bool \<times> 'a cell list) option" where
  "UninitializedMoveIfNoexcept E src first cells = uninitialized_copy E src first cells"

text \<open>\<open>std::copy\<close> assigns to objects that are alive.\<close>

fun assign_loop :: "'a elem_type \<Rightarrow> nat \<Rightarrow> 'a cell list \<Rightarrow> 'a cell list \<Rightarrow> 'a cell list option" where
  "assign_loop E i [] cells = Some cells"
| "assign_loop E i (c # src) cells =
     (if trivial E \<or> (is_Obj c \<and> i < length cells \<and> is_Obj (cells ! i))
      then do { cells \<leftarrow> put_cell i c cells; assign_loop E (Suc i) src cells } else None)"

section \<open>Lemmas\<close>

lemma destroy_loop_mid:
  "length as = first \<Longrightarrow> destroy_loop first (length bs) (as @ map Obj bs @ cs) = Some (as @ replicate (length bs) Raw @ cs)"
proof (induction bs arbitrary: as first)
  case (Cons b bs)
  then have "destroy_loop first (length (b # bs)) (as @ map Obj (b # bs) @ cs)
      = destroy_loop (Suc first) (length bs) ((as @ [Raw]) @ map Obj bs @ cs)"
    by (simp add: nth_append is_Obj_def list_update_append)
  also have "\<dots> = Some ((as @ [Raw]) @ replicate (length bs) Raw @ cs)" by (rule Cons.IH) (simp add: Cons.prems)
  finally show ?case by simp
qed simp

lemma destroy_loop_out: "0 < n \<Longrightarrow> length cells < first + n \<Longrightarrow> destroy_loop first n cells = None"
proof (induction first n cells rule: destroy_loop.induct)
  case (2 first n cells)
  then show ?case by (cases n) auto
qed simp

lemma construct_loop_ok:
  "(\<forall>i < n + k. \<not> ctor_throws E i) \<Longrightarrow> length as = old_first + k \<Longrightarrow> n \<le> length bs \<Longrightarrow>
    construct_loop E old_first k n (as @ bs) = Some (True, as @ replicate n (Obj (dflt E)) @ drop n bs)"
proof (induction n arbitrary: k as bs)
  case (Suc n)
  then obtain b bs' where bs: "bs = b # bs'" by (cases bs) auto
  have "construct_loop E old_first (Suc k) n ((as @ [Obj (dflt E)]) @ bs') =
      Some (True, (as @ [Obj (dflt E)]) @ replicate n (Obj (dflt E)) @ drop n bs')"
    by (rule Suc.IH) (use Suc.prems bs in auto)
  moreover have "put_cell (old_first + k) (Obj (dflt E)) (as @ bs) = Some (as @ Obj (dflt E) # bs')"
    using Suc.prems(2) bs by (simp add: put_cell_def list_update_append)
  ultimately show ?case using Suc.prems(1) bs by simp
qed simp

lemma copy_loop_ok:
  "(\<forall>i < length src + k. trivial E \<or> \<not> copy_throws E i) \<Longrightarrow> trivial E \<or> list_all is_Obj src \<Longrightarrow>
    length as = old_first + k \<Longrightarrow> length src \<le> length bs \<Longrightarrow>
    copy_loop E old_first k src (as @ bs) = Some (True, as @ src @ drop (length src) bs)"
proof (induction src arbitrary: k as bs)
  case (Cons c src)
  then obtain b bs' where bs: "bs = b # bs'" by (cases bs) auto
  have "copy_loop E old_first (Suc k) src ((as @ [c]) @ bs') = Some (True, (as @ [c]) @ src @ drop (length src) bs')"
    by (rule Cons.IH) (use Cons.prems bs in auto)
  moreover have "put_cell (old_first + k) c (as @ bs) = Some (as @ c # bs')"
    using Cons.prems(3) bs by (simp add: put_cell_def list_update_append)
  ultimately show ?case using Cons.prems(1,2) bs by auto
qed simp

text \<open>A type of objects of 8 bytes, for the concrete inputs of the witnesses.\<close>

definition demo_type :: "nat elem_type" where
  "demo_type = \<lparr>elem_size = 8, trivial = False, trivially_destructible = False, nothrow_copy_assignable = True,
     nothrow_constructible = True, member_can_reallocate = True, nothrow_default_constructible = True, dflt = 0,
     ctor_throws = (\<lambda>_. False), copy_throws = (\<lambda>_. False)\<rparr>"

end
