(* ===== verification/Reserved_Array.thy ===== *)
theory Reserved_Array
  imports Memory_Util
begin

text \<open>
  \<open>ReservedArray\<close> (\<open>algo/reserved_array.h\<close>): an array whose capacity is its size, in raw memory.
  \<open>end_\<close> is given by the size. Which of two overloads an operation takes depends on traits of the
  element type. An operation returns what it threw, the array it leaves and the memory.
\<close>

record ra =
  data :: ptr
  ra_size :: size_t

definition can_reallocate :: "'a elem_type \<Rightarrow> bool" where
  "can_reallocate E \<longleftrightarrow> trivial E \<or> (member_can_reallocate E \<and> nothrow_default_constructible E)"

text \<open>The cells of a block, and the elements of an array.\<close>

definition with_block :: "'a mem \<Rightarrow> ptr \<Rightarrow> ('a cell list \<Rightarrow> ('x \<times> 'a cell list) option) \<Rightarrow> ('x \<times> 'a mem) option" where
  "with_block m p f =
     (if p = nullptr then do { (x, cells) \<leftarrow> f []; (if cells = [] then Some (x, m) else None) }
      else do { cells \<leftarrow> blocks m p; (x, cells) \<leftarrow> f cells; Some (x, m\<lparr>blocks := (blocks m)(p \<mapsto> cells)\<rparr>) })"

definition cells_of :: "'a mem \<Rightarrow> ra \<Rightarrow> 'a cell list option" where
  "cells_of m a = do {
     cells \<leftarrow> (if data a = nullptr then Some [] else blocks m (data a));
     (if length cells < unat (ra_size a) then None else Some (take (unat (ra_size a)) cells)) }"

definition destroy_cells :: "'a elem_type \<Rightarrow> 'a mem \<Rightarrow> ptr \<Rightarrow> nat \<Rightarrow> nat \<Rightarrow> 'a mem option" where
  "destroy_cells E m p first fin = do {
     (_, m) \<leftarrow> with_block m p (\<lambda>cells. do { cells \<leftarrow> DestroyRange E first fin cells; Some ((), cells) });
     Some m }"

section \<open>Construction and destruction\<close>

definition ra_default :: ra where
  "ra_default = \<lparr>data = nullptr, ra_size = 0\<rparr>"

text \<open>A constructor of elements that throws loses the block.\<close>

definition ra_new :: "'a elem_type \<Rightarrow> 'a mem \<Rightarrow> ptr \<Rightarrow> size_t \<Rightarrow> bool \<Rightarrow> ((array_exn + ra) \<times> 'a mem) option" where
  "ra_new E m fresh n init =
     (case allocate E m fresh n of (p, m) \<Rightarrow>
        if p = nullptr then Some (Inl Bad_alloc, m)
        else if init then do {
          (ok, m) \<leftarrow> with_block m p (UninitializedDefaultConstruct E 0 (unat n));
          Some (if ok then Inr \<lparr>data = p, ra_size = n\<rparr> else Inl Elem_threw, m) }
        else Some (Inr \<lparr>data = p, ra_size = n\<rparr>, m))"

text \<open>The copy constructor does not test the result of the allocation.\<close>

definition ra_copy :: "'a elem_type \<Rightarrow> 'a mem \<Rightarrow> ptr \<Rightarrow> ra \<Rightarrow> ((array_exn + ra) \<times> 'a mem) option" where
  "ra_copy E m fresh other = do {
     src \<leftarrow> cells_of m other;
     (case allocate E m fresh (ra_size other) of (p, m) \<Rightarrow> do {
        (ok, m) \<leftarrow> with_block m p (uninitialized_copy E src 0);
        (if ok then Some (Inr \<lparr>data = p, ra_size = ra_size other\<rparr>, m)
         else do { m \<leftarrow> deallocate E m p (ra_size other); Some (Inl Elem_threw, m) }) }) }"

definition ra_destroy :: "'a elem_type \<Rightarrow> 'a mem \<Rightarrow> ra \<Rightarrow> 'a mem option" where
  "ra_destroy E m a =
     (if ra_size a \<noteq> 0 then do {
        m \<leftarrow> destroy_cells E m (data a) 0 (unat (ra_size a));
        deallocate E m (data a) (ra_size a) }
      else Some m)"

definition ra_swap :: "ra \<Rightarrow> ra \<Rightarrow> ra \<times> ra" where
  "ra_swap a other = (a\<lparr>data := data other, ra_size := ra_size other\<rparr>, other\<lparr>data := data a, ra_size := ra_size a\<rparr>)"

definition ra_move_construct :: "ra \<Rightarrow> ra \<times> ra" where
  "ra_move_construct other = (\<lparr>data = data other, ra_size = ra_size other\<rparr>, ra_default)"

definition ra_move_assign :: "ra \<Rightarrow> ra \<Rightarrow> ra \<times> ra" where
  "ra_move_assign a other = ra_swap a other"

section \<open>Access\<close>

definition ra_empty :: "ra \<Rightarrow> bool" where
  "ra_empty a \<longleftrightarrow> ra_size a = 0"

text \<open>\<open>operator[]\<close> asserts its bound; reading a raw cell is undefined.\<close>

definition ra_get :: "'a mem \<Rightarrow> ra \<Rightarrow> size_t \<Rightarrow> 'a option" where
  "ra_get m a i =
     (if i < ra_size a then do {
        cells \<leftarrow> blocks m (data a);
        (if unat i < length cells then (case cells ! unat i of Raw \<Rightarrow> None | Obj v \<Rightarrow> Some v) else None) }
      else None)"

definition ra_begin :: "ra \<Rightarrow> ptr \<times> nat" where "ra_begin a = (data a, 0)"
definition ra_end :: "ra \<Rightarrow> ptr \<times> nat" where "ra_end a = (data a, unat (ra_size a))"

section \<open>Grow and Shrink\<close>

type_synonym 'a ra_result = "(((array_exn + unit) \<times> ra) \<times> 'a mem) option"

text \<open>When a construction throws after \<open>realloc\<close> has moved the block, the array keeps the old address.\<close>

definition Reallocate_realloc :: "'a elem_type \<Rightarrow> 'a mem \<Rightarrow> ptr \<Rightarrow> size_t \<Rightarrow> ra \<Rightarrow> 'a ra_result" where
  "Reallocate_realloc E m fresh n a = do {
     (tmp, m) \<leftarrow> reallocate E m (data a) (ra_size a) n fresh;
     (if tmp = nullptr then Some ((Inl Bad_alloc, a), m)
      else do {
        (ok, m) \<leftarrow> with_block m tmp (UninitializedDefaultConstruct E (unat (ra_size a)) (unat n));
        Some (if ok then (Inr (), \<lparr>data = tmp, ra_size = n\<rparr>) else (Inl Elem_threw, a), m) }) }"

definition Reallocate_move :: "'a elem_type \<Rightarrow> 'a mem \<Rightarrow> ptr \<Rightarrow> size_t \<Rightarrow> ra \<Rightarrow> 'a ra_result" where
  "Reallocate_move E m fresh n a =
     (case allocate E m fresh n of (new_data, m) \<Rightarrow>
        if new_data = nullptr then Some ((Inl Bad_alloc, a), m)
        else do {
          src \<leftarrow> cells_of m a;
          (ok, m) \<leftarrow> with_block m new_data (UninitializedMoveIfNoexcept E src 0);
          (ok, m) \<leftarrow> (if ok then with_block m new_data (UninitializedDefaultConstruct E (unat (ra_size a)) (unat n))
                      else Some (False, m));
          (if ok then do {
             m \<leftarrow> deallocate E m (data a) (ra_size a);
             Some ((Inr (), \<lparr>data = new_data, ra_size = n\<rparr>), m) }
           else do {
             m \<leftarrow> deallocate E m new_data n;
             Some ((Inl Elem_threw, a), m) }) })"

definition ra_Grow :: "'a elem_type \<Rightarrow> 'a mem \<Rightarrow> ptr \<Rightarrow> size_t \<Rightarrow> ra \<Rightarrow> 'a ra_result" where
  "ra_Grow E m fresh n a =
     (if n \<le> ra_size a then Some ((Inr (), a), m)
      else if can_reallocate E then Reallocate_realloc E m fresh n a
      else Reallocate_move E m fresh n a)"

text \<open>\<open>GrowNoInit\<close> constructs a new array over the old one: the old block is lost, the new one initialized.\<close>

definition ra_GrowNoInit :: "'a elem_type \<Rightarrow> 'a mem \<Rightarrow> ptr \<Rightarrow> size_t \<Rightarrow> ra \<Rightarrow> ((array_exn + ra) \<times> 'a mem) option" where
  "ra_GrowNoInit E m fresh n a = ra_new E m fresh n True"

definition Shrink_realloc :: "'a elem_type \<Rightarrow> 'a mem \<Rightarrow> ptr \<Rightarrow> size_t \<Rightarrow> ra \<Rightarrow> 'a ra_result" where
  "Shrink_realloc E m fresh n a = do {
     m \<leftarrow> destroy_cells E m (data a) (unat n) (unat (ra_size a));
     (tmp, m) \<leftarrow> reallocate E m (data a) (ra_size a) n fresh;
     (if tmp = nullptr \<and> n \<noteq> 0 then Some ((Inl Bad_alloc, a), m)
      else Some ((Inr (), if n = 0 then ra_default else \<lparr>data = tmp, ra_size = n\<rparr>), m)) }"

definition Shrink_move :: "'a elem_type \<Rightarrow> 'a mem \<Rightarrow> ptr \<Rightarrow> size_t \<Rightarrow> ra \<Rightarrow> 'a ra_result" where
  "Shrink_move E m fresh n a = do {
     (r, new_data, m) \<leftarrow>
       (if n \<noteq> 0 then
          (case allocate E m fresh n of (new_data, m) \<Rightarrow>
             if new_data = nullptr then Some (Inl Bad_alloc, nullptr, m)
             else do {
               src \<leftarrow> cells_of m a;
               (ok, m) \<leftarrow> with_block m new_data (UninitializedMoveIfNoexcept E (take (unat n) src) 0);
               (if ok then Some (Inr (), new_data, m)
                else do { m \<leftarrow> deallocate E m new_data n; Some (Inl Elem_threw, nullptr, m) }) })
        else Some (Inr (), nullptr, m));
     (case r of
        Inl e \<Rightarrow> Some ((Inl e, a), m)
      | Inr _ \<Rightarrow> do {
          m \<leftarrow> destroy_cells E m (data a) (unat n) (unat (ra_size a));
          m \<leftarrow> deallocate E m (data a) (ra_size a);
          Some ((Inr (), \<lparr>data = new_data, ra_size = n\<rparr>), m) }) }"

definition ra_Shrink :: "'a elem_type \<Rightarrow> 'a mem \<Rightarrow> ptr \<Rightarrow> size_t \<Rightarrow> ra \<Rightarrow> 'a ra_result" where
  "ra_Shrink E m fresh n a =
     (if n \<ge> ra_size a then Some ((Inr (), a), m)
      else if can_reallocate E then Shrink_realloc E m fresh n a
      else Shrink_move E m fresh n a)"

section \<open>Copy assignment\<close>

definition assign_cells :: "'a elem_type \<Rightarrow> 'a mem \<Rightarrow> ptr \<Rightarrow> 'a cell list \<Rightarrow> 'a mem option" where
  "assign_cells E m p src = do {
     (_, m) \<leftarrow> with_block m p (\<lambda>cells. do { cells \<leftarrow> assign_loop E 0 src cells; Some ((), cells) });
     Some m }"

definition CopyAssignmentForSizeEqual :: "'a elem_type \<Rightarrow> 'a mem \<Rightarrow> ptr \<Rightarrow> ra \<Rightarrow> ra \<Rightarrow> 'a ra_result" where
  "CopyAssignmentForSizeEqual E m fresh a other =
     (if nothrow_copy_assignable E then do {
        src \<leftarrow> cells_of m other;
        m \<leftarrow> assign_cells E m (data a) src;
        Some ((Inr (), a), m) }
      else do {
        (r, m) \<leftarrow> ra_copy E m fresh other;
        (case r of
           Inl e \<Rightarrow> Some ((Inl e, a), m)
         | Inr tmp \<Rightarrow>
             (case ra_swap tmp a of (tmp, a) \<Rightarrow> do {
                m \<leftarrow> ra_destroy E m tmp;
                Some ((Inr (), a), m) })) })"

definition CopyAssignment_realloc :: "'a elem_type \<Rightarrow> 'a mem \<Rightarrow> ptr \<Rightarrow> ra \<Rightarrow> ra \<Rightarrow> 'a ra_result" where
  "CopyAssignment_realloc E m fresh a other = do {
     (tmp, m) \<leftarrow> reallocate E m (data a) (ra_size a) (ra_size other) fresh;
     (if tmp = nullptr then Some ((Inl Bad_alloc, a), m)
      else do {
        src \<leftarrow> cells_of m other;
        m \<leftarrow> (if ra_size other > ra_size a then do {
                m \<leftarrow> assign_cells E m tmp (take (unat (ra_size a)) src);
                (_, m) \<leftarrow> with_block m tmp (uninitialized_copy E (drop (unat (ra_size a)) src) (unat (ra_size a)));
                Some m }
              else do {
                m \<leftarrow> assign_cells E m tmp src;
                destroy_cells E m tmp (unat (ra_size other)) (unat (ra_size a)) });
        Some ((Inr (), \<lparr>data = tmp, ra_size = ra_size other\<rparr>), m) }) }"

definition CopyAssignment_alloc :: "'a elem_type \<Rightarrow> 'a mem \<Rightarrow> ptr \<Rightarrow> ra \<Rightarrow> ra \<Rightarrow> 'a ra_result" where
  "CopyAssignment_alloc E m fresh a other =
     (case allocate E m fresh (ra_size other) of (dat, m) \<Rightarrow>
        if dat = nullptr then Some ((Inl Bad_alloc, a), m)
        else do {
          src \<leftarrow> cells_of m other;
          (ok, m) \<leftarrow> with_block m dat (uninitialized_copy E src 0);
          (if ok then do {
             m \<leftarrow> destroy_cells E m (data a) 0 (unat (ra_size a));
             m \<leftarrow> deallocate E m (data a) (ra_size a);
             Some ((Inr (), \<lparr>data = dat, ra_size = ra_size other\<rparr>), m) }
           else do {
             m \<leftarrow> deallocate E m dat (ra_size other);
             Some ((Inl Elem_threw, a), m) }) })"

definition copy_cond :: "'a elem_type \<Rightarrow> bool" where
  "copy_cond E \<longleftrightarrow> can_reallocate E \<and> nothrow_copy_assignable E \<and> nothrow_constructible E"

text \<open>\<open>same\<close>: the two arrays are one object.\<close>

definition ra_assign :: "'a elem_type \<Rightarrow> 'a mem \<Rightarrow> ptr \<Rightarrow> bool \<Rightarrow> ra \<Rightarrow> ra \<Rightarrow> 'a ra_result" where
  "ra_assign E m fresh same a other =
     (if same then Some ((Inr (), a), m)
      else if ra_size a = ra_size other then CopyAssignmentForSizeEqual E m fresh a other
      else if copy_cond E then CopyAssignment_realloc E m fresh a other
      else CopyAssignment_alloc E m fresh a other)"

end
