(* ===== verification/Reserved_Array_Props.thy ===== *)
theory Reserved_Array_Props
  imports Reserved_Array
begin

text \<open>
  The properties of \<open>ReservedArray\<close> for element types with constructors and destructors: growing
  and shrinking keep the elements, on failure too, except that \<open>Shrink\<close> by \<open>realloc\<close> has destroyed
  elements before it fails; copy assignment; what a lifetime leaves of the memory counters.
\<close>

section \<open>Arrays of objects\<close>

text \<open>Element types with constructors that do not throw.\<close>

definition object_type :: "'a elem_type \<Rightarrow> bool" where
  "object_type E \<longleftrightarrow> \<not> trivial E \<and> 0 < elem_size E \<and> (\<forall>i. \<not> ctor_throws E i) \<and> (\<forall>i. \<not> copy_throws E i)"

definition array_of :: "'a elem_type \<Rightarrow> 'a mem \<Rightarrow> ra \<Rightarrow> 'a list \<Rightarrow> bool" where
  "array_of E m a xs \<longleftrightarrow> data a \<noteq> nullptr \<and> blocks m (data a) = Some (map Obj xs)
     \<and> unat (ra_size a) = length xs \<and> length xs * elem_size E < 2 ^ 64"

lemma bytes_cells:
  fixes n :: size_t
  assumes "0 < sz" and "unat n * sz < 2 ^ 64"
  shows "unat (n * of_nat sz) div sz = unat n"
proof (cases "n = 0")
  case False
  then have "unat n \<noteq> 0" by (simp add: unsigned_eq_0_iff)
  then have "sz \<le> unat n * sz" by (cases "unat n") auto
  then have "sz < 2 ^ 64" using assms(2) by linarith
  then have "unat (of_nat sz :: size_t) = sz" by (simp add: unat_of_nat_lt)
  then have "unat (n * of_nat sz) = unat n * sz" using assms(2) by (simp add: unat_mult_lem [THEN iffD1])
  then show ?thesis using assms(1) by simp
qed simp

lemma cells_of_array: "array_of E m a xs \<Longrightarrow> cells_of m a = Some (map Obj xs)"
  by (simp add: array_of_def cells_of_def)

lemma default_construct_at:
  assumes "object_type E" and "length as = k" and "length bs = n - k"
  shows "UninitializedDefaultConstruct E k n (as @ bs) = Some (True, as @ replicate (n - k) (Obj (dflt E)))"
  using construct_loop_ok [of "n - k" 0 E as k bs] assms by (simp add: UninitializedDefaultConstruct_def object_type_def)

lemma copy_at:
  assumes "object_type E" and "length xs \<le> length bs"
  shows "uninitialized_copy E (map Obj xs) 0 bs = Some (True, map Obj xs @ drop (length xs) bs)"
  using copy_loop_ok [of "map Obj xs" 0 E "[]" 0 bs] assms
  by (simp add: uninitialized_copy_def object_type_def list_all_iff is_Obj_def)

lemma destroy_at:
  assumes "object_type E" and "blocks m p = Some (map Obj xs)" and "p \<noteq> nullptr" and "n \<le> length xs"
  shows "destroy_cells E m p n (length xs) = Some (if trivially_destructible E then m
    else m\<lparr>blocks := (blocks m)(p \<mapsto> map Obj (take n xs) @ replicate (length xs - n) Raw)\<rparr>)"
proof -
  have "destroy_loop n (length xs - n) (map Obj xs) = Some (map Obj (take n xs) @ replicate (length xs - n) Raw)"
    using destroy_loop_mid [of "map Obj (take n xs)" n "drop n xs" "[]"] assms(4)
    by (simp flip: map_append)
  then show ?thesis using assms(2,3) by (auto simp: destroy_cells_def with_block_def DestroyRange_def fun_upd_idem)
qed

section \<open>Changing the size\<close>

text \<open>What a successful change of size leaves: the elements in a new block, the old one gone, the usage adjusted.\<close>

definition resized :: "'a elem_type \<Rightarrow> 'a mem \<Rightarrow> ra \<Rightarrow> ptr \<Rightarrow> size_t \<Rightarrow> 'a list \<Rightarrow> 'a mem \<Rightarrow> bool" where
  "resized E m a fresh n ys m' \<longleftrightarrow> array_of E m' \<lparr>data = fresh, ra_size = n\<rparr> ys
     \<and> blocks m' (data a) = None \<and> (\<forall>p. p \<noteq> data a \<and> p \<noteq> fresh \<longrightarrow> blocks m' p = blocks m p)
     \<and> memory_usage (stat m') = memory_usage (stat m) + (n - ra_size a) * of_nat (elem_size E)"

lemma array_ofD:
  assumes "array_of E m a xs"
  shows "data a \<noteq> nullptr" "blocks m (data a) = Some (map Obj xs)" "unat (ra_size a) = length xs" "length xs * elem_size E < 2 ^ 64"
  using assms by (simp_all add: array_of_def)

lemma bytes_nonzero:
  fixes n :: size_t
  assumes "0 < sz" and "unat n * sz < 2 ^ 64" and "n \<noteq> 0"
  shows "n * of_nat sz \<noteq> 0"
proof
  assume "n * of_nat sz = 0"
  then have "unat n = 0" using bytes_cells [OF assms(1,2)] by simp
  then show False using assms(3) by (simp add: unsigned_eq_0_iff)
qed

lemma allocate_ok:
  assumes "0 < elem_size E" and "unat n * elem_size E < 2 ^ 64" and "fresh \<noteq> nullptr"
  shows "allocate E m fresh n =
    (fresh, m\<lparr>blocks := (blocks m)(fresh \<mapsto> replicate (unat n) Raw), stat := count_alloc (n * of_nat (elem_size E)) (stat m)\<rparr>)"
  using assms bytes_cells [OF assms(1,2)] by (simp add: allocate_def Malloc_def Let_def)

lemma construct_tail:
  assumes "object_type E" and "length xs \<le> n"
  shows "UninitializedDefaultConstruct E (length xs) n (map Obj xs @ replicate (n - length xs) Raw)
    = Some (True, map Obj (xs @ replicate (n - length xs) (dflt E)))"
  using default_construct_at [OF assms(1), of "map Obj xs" "length xs" "replicate (n - length xs) Raw" n] by simp

lemma Reallocate_realloc_ok:
  assumes E: "object_type E" and a: "array_of E m a xs" and n: "n > ra_size a" "unat n * elem_size E < 2 ^ 64"
    and fresh: "blocks m fresh = None"
  shows "if fresh = nullptr then Reallocate_realloc E m fresh n a = Some ((Inl Bad_alloc, a), m)
    else (\<exists>m'. Reallocate_realloc E m fresh n a = Some ((Inr (), \<lparr>data = fresh, ra_size = n\<rparr>), m')
      \<and> resized E m a fresh n (xs @ replicate (unat n - length xs) (dflt E)) m')"
proof -
  from E have sz: "0 < elem_size E" by (simp add: object_type_def)
  note A = array_ofD [OF a]
  have len: "length xs < unat n" using n(1) A(3) by (simp add: word_less_nat_alt)
  have "n \<noteq> 0" using len by auto
  note n0 = bytes_nonzero [OF sz n(2) this]
  have fa: "fresh \<noteq> data a" using fresh A(2) by auto
  show ?thesis
  proof (cases "fresh = nullptr")
    case True
    then show ?thesis using n0 A by (simp add: Reallocate_realloc_def reallocate_def Realloc_def Let_def)
  next
    case False
    let ?new = "map Obj (xs @ replicate (unat n - length xs) (dflt E))"
    let ?m = "m\<lparr>blocks := (blocks m)(data a := None, fresh \<mapsto> ?new),
      stat := (stat m)\<lparr>reallocate_count := reallocate_count (stat m) + 1,
        memory_usage := memory_usage (stat m) + (n * of_nat (elem_size E) - ra_size a * of_nat (elem_size E))\<rparr>\<rparr>"
    have "Reallocate_realloc E m fresh n a = Some ((Inr (), \<lparr>data = fresh, ra_size = n\<rparr>), ?m)"
      using n0 A False bytes_cells [OF sz n(2)] len construct_tail [OF E, of xs "unat n"]
      by (simp add: Reallocate_realloc_def reallocate_def Realloc_def Let_def with_block_def)
    moreover have "resized E m a fresh n (xs @ replicate (unat n - length xs) (dflt E)) ?m"
      using fa False len n(2) by (simp add: resized_def array_of_def algebra_simps)
    ultimately show ?thesis using False by auto
  qed
qed

lemma Reallocate_move_ok:
  assumes E: "object_type E" and a: "array_of E m a xs" and n: "n > ra_size a" "unat n * elem_size E < 2 ^ 64"
    and fresh: "blocks m fresh = None"
  shows "if fresh = nullptr then Reallocate_move E m fresh n a = Some ((Inl Bad_alloc, a), m)
    else (\<exists>m'. Reallocate_move E m fresh n a = Some ((Inr (), \<lparr>data = fresh, ra_size = n\<rparr>), m')
      \<and> resized E m a fresh n (xs @ replicate (unat n - length xs) (dflt E)) m')"
proof -
  from E have sz: "0 < elem_size E" by (simp add: object_type_def)
  note A = array_ofD [OF a]
  have len: "length xs < unat n" using n(1) A(3) by (simp add: word_less_nat_alt)
  have fa: "fresh \<noteq> data a" using fresh A(2) by auto
  show ?thesis
  proof (cases "fresh = nullptr")
    case True
    then show ?thesis by (simp add: Reallocate_move_def allocate_def Malloc_def)
  next
    case False
    note al = allocate_ok [OF sz n(2) False, of m]
    have mv: "UninitializedMoveIfNoexcept E (map Obj xs) 0 (replicate (unat n) Raw) =
        Some (True, map Obj xs @ replicate (unat n - length xs) Raw)"
      using copy_at [OF E, of xs "replicate (unat n) Raw"] len by (simp add: UninitializedMoveIfNoexcept_def)
    let ?new = "map Obj (xs @ replicate (unat n - length xs) (dflt E))"
    let ?m = "m\<lparr>blocks := (blocks m)(fresh \<mapsto> ?new, data a := None),
      stat := (count_alloc (n * of_nat (elem_size E)) (stat m))\<lparr>deallocate_count := deallocate_count (stat m) + 1,
        memory_usage := memory_usage (stat m) + n * of_nat (elem_size E) - ra_size a * of_nat (elem_size E)\<rparr>\<rparr>"
    have "Reallocate_move E m fresh n a = Some ((Inr (), \<lparr>data = fresh, ra_size = n\<rparr>), ?m)"
      using al mv construct_tail [OF E, of xs "unat n"] A False fa len
      by (simp add: Reallocate_move_def cells_of_def with_block_def deallocate_def Free_def Let_def count_alloc_def)
    moreover have "resized E m a fresh n (xs @ replicate (unat n - length xs) (dflt E)) ?m"
      using fa False len n(2) by (auto simp: resized_def array_of_def algebra_simps)
    ultimately show ?thesis using False by auto
  qed
qed

text \<open>Destroying an array some of whose last elements were destroyed before is undefined.\<close>

lemma destroy_loop_raw:
  "length as = first \<Longrightarrow> 0 < j \<Longrightarrow> destroy_loop first (length ys + j) (as @ map Obj ys @ Raw # zs) = None"
proof (induction ys arbitrary: first as)
  case Nil
  then show ?case by (cases j) (auto simp: is_Obj_def)
next
  case (Cons y ys)
  from Cons.IH [of "as @ [Raw]" "Suc first"] Cons.prems show ?case
    by (simp add: nth_append is_Obj_def list_update_append)
qed

lemma ra_destroy_raw:
  assumes "\<not> trivially_destructible E" and "data a \<noteq> nullptr" and "unat (ra_size a) = length ys + j" and "0 < j"
    and "blocks m (data a) = Some (map Obj ys @ replicate j Raw)"
  shows "ra_destroy E m a = None"
proof -
  obtain i where j: "j = Suc i" using assms(4) by (cases j) auto
  have "ra_size a \<noteq> 0" using assms(3,4) by auto
  moreover have "destroy_loop 0 (length ys + j) (map Obj ys @ replicate j Raw) = None"
    using destroy_loop_raw [of "[]" 0 j ys "replicate i Raw"] j by simp
  ultimately show ?thesis using assms by (simp add: ra_destroy_def destroy_cells_def with_block_def DestroyRange_def)
qed

lemma Shrink_realloc_ok:
  assumes E: "object_type E" and a: "array_of E m a xs" and n: "n < ra_size a" "n \<noteq> 0" and fresh: "blocks m fresh = None"
  shows "if fresh = nullptr
    then (\<exists>m'. Shrink_realloc E m fresh n a = Some ((Inl Bad_alloc, a), m') \<and> (\<not> trivially_destructible E \<longrightarrow> ra_destroy E m' a = None))
    else (\<exists>m'. Shrink_realloc E m fresh n a = Some ((Inr (), \<lparr>data = fresh, ra_size = n\<rparr>), m')
      \<and> resized E m a fresh n (take (unat n) xs) m')"
proof -
  from E have sz: "0 < elem_size E" by (simp add: object_type_def)
  note A = array_ofD [OF a]
  have len: "unat n < length xs" using n(1) A(3) by (simp add: word_less_nat_alt)
  then have "unat n * elem_size E \<le> length xs * elem_size E" by simp
  then have nb: "unat n * elem_size E < 2 ^ 64" using A(4) by linarith
  note n0 = bytes_nonzero [OF sz nb n(2)]
  have fa: "fresh \<noteq> data a" using fresh A(2) by auto
  let ?ds = "map Obj (take (unat n) xs) @ replicate (length xs - unat n) Raw"
  let ?m1 = "if trivially_destructible E then m else m\<lparr>blocks := (blocks m)(data a \<mapsto> ?ds)\<rparr>"
  have ds: "destroy_cells E m (data a) (unat n) (unat (ra_size a)) = Some ?m1"
    using destroy_at [OF E A(2,1), of "unat n"] len A(3) by simp
  obtain cs where cs: "blocks ?m1 (data a) = Some cs" "take (unat n) cs = map Obj (take (unat n) xs)" "length cs = length xs"
    using A(2) len by (cases "trivially_destructible E") (auto simp: take_map)
  show ?thesis
  proof (cases "fresh = nullptr")
    case True
    have "Shrink_realloc E m fresh n a = Some ((Inl Bad_alloc, a), ?m1)"
      using True n n0 ds cs A by (simp add: Shrink_realloc_def reallocate_def Realloc_def Let_def)
    moreover have "ra_destroy E ?m1 a = None" if "\<not> trivially_destructible E"
      using ra_destroy_raw [OF that A(1), of "take (unat n) xs" "length xs - unat n" ?m1] that len A(3) by simp
    ultimately show ?thesis using True by auto
  next
    case False
    let ?m = "?m1\<lparr>blocks := (blocks ?m1)(data a := None, fresh \<mapsto> map Obj (take (unat n) xs)),
      stat := (stat ?m1)\<lparr>reallocate_count := reallocate_count (stat ?m1) + 1,
        memory_usage := memory_usage (stat ?m1) + (n * of_nat (elem_size E) - ra_size a * of_nat (elem_size E))\<rparr>\<rparr>"
    have "Shrink_realloc E m fresh n a = Some ((Inr (), \<lparr>data = fresh, ra_size = n\<rparr>), ?m)"
      using n n0 ds cs A False bytes_cells [OF sz nb] len
      by (simp add: Shrink_realloc_def reallocate_def Realloc_def Let_def)
    moreover have "resized E m a fresh n (take (unat n) xs) ?m"
      using fa False len nb by (auto simp: resized_def array_of_def algebra_simps min_def)
    ultimately show ?thesis using False by auto
  qed
qed

lemma Shrink_move_ok:
  assumes E: "object_type E" and a: "array_of E m a xs" and n: "n < ra_size a" "n \<noteq> 0" and fresh: "blocks m fresh = None"
  shows "if fresh = nullptr then Shrink_move E m fresh n a = Some ((Inl Bad_alloc, a), m)
    else (\<exists>m'. Shrink_move E m fresh n a = Some ((Inr (), \<lparr>data = fresh, ra_size = n\<rparr>), m')
      \<and> resized E m a fresh n (take (unat n) xs) m')"
proof (cases "fresh = nullptr")
  case True
  then show ?thesis using n by (simp add: Shrink_move_def allocate_def Malloc_def)
next
  case False
  from E have sz: "0 < elem_size E" by (simp add: object_type_def)
  note A = array_ofD [OF a]
  have len: "unat n < length xs" using n(1) A(3) by (simp add: word_less_nat_alt)
  then have "unat n * elem_size E \<le> length xs * elem_size E" by simp
  then have nb: "unat n * elem_size E < 2 ^ 64" using A(4) by linarith
  have fa: "fresh \<noteq> data a" using fresh A(2) by auto
  note al = allocate_ok [OF sz nb False, of m]
  have mv: "UninitializedMoveIfNoexcept E (take (unat n) (map Obj xs)) 0 (replicate (unat n) Raw) = Some (True, map Obj (take (unat n) xs))"
    using copy_at [OF E, of "take (unat n) xs" "replicate (unat n) Raw"] len
    by (simp add: UninitializedMoveIfNoexcept_def take_map min_def)
  let ?m3 = "m\<lparr>stat := count_alloc (n * of_nat (elem_size E)) (stat m), blocks := (blocks m)(fresh \<mapsto> map Obj (take (unat n) xs))\<rparr>"
  have "blocks ?m3 (data a) = Some (map Obj xs)" using A fa by simp
  from destroy_at [OF E this A(1), of "unat n"] len A(3) obtain m4 where
    m4: "destroy_cells E ?m3 (data a) (unat n) (unat (ra_size a)) = Some m4" "stat m4 = stat ?m3"
      "\<forall>p. p \<noteq> data a \<longrightarrow> blocks m4 p = blocks ?m3 p" "blocks m4 (data a) \<noteq> None"
    by (cases "trivially_destructible E") (auto simp: A fa)
  let ?m = "m4\<lparr>blocks := (blocks m4)(data a := None), stat := (stat m4)\<lparr>deallocate_count := deallocate_count (stat m4) + 1,
      memory_usage := memory_usage (stat m4) - ra_size a * of_nat (elem_size E)\<rparr>\<rparr>"
  have "Shrink_move E m fresh n a = Some ((Inr (), \<lparr>data = fresh, ra_size = n\<rparr>), ?m)"
    using n al mv m4 A False fa
    by (auto simp: Shrink_move_def cells_of_def with_block_def deallocate_def Free_def Let_def)
  moreover have "resized E m a fresh n (take (unat n) xs) ?m"
    using m4 fa False len nb by (auto simp: resized_def array_of_def algebra_simps count_alloc_def min_def)
  ultimately show ?thesis using False by auto
qed

section \<open>Properties\<close>

text \<open>
  Growing an array of objects keeps its elements and constructs default ones after them, by
  \<open>realloc\<close> or by moving, whichever the element type asks for: the old block is freed, the usage
  counter grows by the difference, and when the allocation fails \<open>bad_alloc\<close> is thrown with array
  and memory as they were.
\<close>
theorem array_grow:
  assumes "object_type E" and "array_of E m a xs" and "n > ra_size a" and "unat n * elem_size E < 2 ^ 64" and "blocks m fresh = None"
  shows "if fresh = nullptr then ra_Grow E m fresh n a = Some ((Inl Bad_alloc, a), m)
    else (\<exists>m'. ra_Grow E m fresh n a = Some ((Inr (), \<lparr>data = fresh, ra_size = n\<rparr>), m')
      \<and> resized E m a fresh n (xs @ replicate (unat n - length xs) (dflt E)) m')"
proof -
  have G: "ra_Grow E m fresh n a = (if can_reallocate E then Reallocate_realloc E m fresh n a else Reallocate_move E m fresh n a)"
    using assms(3) by (auto simp: ra_Grow_def)
  show ?thesis unfolding G using Reallocate_realloc_ok [OF assms] Reallocate_move_ok [OF assms]
    by (cases "can_reallocate E") (simp_all only: if_True if_False)
qed

definition demo_mem :: "nat mem" where
  "demo_mem = \<lparr>blocks = [1 \<mapsto> [Obj 5, Obj 6]],
     stat = \<lparr>memory_usage = 16, allocate_count = 1, deallocate_count = 0, reallocate_count = 0\<rparr>\<rparr>"

definition demo_array :: ra where
  "demo_array = \<lparr>data = 1, ra_size = 2\<rparr>"

lemma demo_array_ok: "object_type demo_type" "array_of demo_type demo_mem demo_array [5, 6]"
  by (simp_all add: object_type_def array_of_def demo_type_def demo_mem_def demo_array_def)

theorem array_grow_witness:
  "\<exists>m'. ra_Grow demo_type demo_mem 9 4 demo_array = Some ((Inr (), \<lparr>data = 9, ra_size = 4\<rparr>), m')
    \<and> blocks m' 9 = Some [Obj 5, Obj 6, Obj 0, Obj 0] \<and> memory_usage (stat m') = 32"
proof -
  have "4 > ra_size demo_array" "unat (4 :: size_t) * elem_size demo_type < 2 ^ 64" "blocks demo_mem 9 = None"
    by (simp_all add: demo_array_def demo_type_def demo_mem_def)
  from array_grow [OF demo_array_ok this] obtain m' where
    "ra_Grow demo_type demo_mem 9 4 demo_array = Some ((Inr (), \<lparr>data = 9, ra_size = 4\<rparr>), m')"
    "resized demo_type demo_mem demo_array 9 4 ([5, 6] @ replicate (unat (4 :: size_t) - length [5, 6 :: nat]) (dflt demo_type)) m'" by auto
  moreover have "replicate 2 (Obj 0 :: nat cell) = [Obj 0, Obj 0]" by (simp add: numeral_2_eq_2)
  ultimately show ?thesis by (auto simp: resized_def array_of_def demo_type_def demo_mem_def demo_array_def)
qed

text \<open>
  C32: shrinking an array of objects keeps the first elements, frees the old block and adjusts the
  usage counter. When the new block cannot be had the moving variant changes nothing; the variant
  that uses \<open>realloc\<close> has then destroyed the elements at the end already but keeps the old size,
  so that the destructor destroys them again, which is undefined unless that does nothing.
\<close>
theorem array_shrink:
  assumes "object_type E" and "array_of E m a xs" and "n < ra_size a" and "n \<noteq> 0" and "blocks m fresh = None"
  shows "(fresh \<noteq> nullptr \<longrightarrow> (\<exists>m'. ra_Shrink E m fresh n a = Some ((Inr (), \<lparr>data = fresh, ra_size = n\<rparr>), m')
        \<and> resized E m a fresh n (take (unat n) xs) m'))
    \<and> (fresh = nullptr \<and> \<not> can_reallocate E \<longrightarrow> ra_Shrink E m fresh n a = Some ((Inl Bad_alloc, a), m))
    \<and> (fresh = nullptr \<and> can_reallocate E \<longrightarrow> (\<exists>m'. ra_Shrink E m fresh n a = Some ((Inl Bad_alloc, a), m')
        \<and> (\<not> trivially_destructible E \<longrightarrow> ra_destroy E m' a = None)))"
proof -
  have "ra_Shrink E m fresh n a = (if can_reallocate E then Shrink_realloc E m fresh n a else Shrink_move E m fresh n a)"
    using assms(3) by (auto simp: ra_Shrink_def)
  then show ?thesis using Shrink_realloc_ok [OF assms] Shrink_move_ok [OF assms] by (cases "can_reallocate E") auto
qed

theorem array_shrink_witness:
  "(\<exists>m'. ra_Shrink demo_type demo_mem 9 1 demo_array = Some ((Inr (), \<lparr>data = 9, ra_size = 1\<rparr>), m') \<and> blocks m' 9 = Some [Obj 5])
    \<and> (\<exists>m'. ra_Shrink demo_type demo_mem 0 1 demo_array = Some ((Inl Bad_alloc, demo_array), m') \<and> ra_destroy demo_type m' demo_array = None)"
proof
  have n: "1 < ra_size demo_array" "(1 :: size_t) \<noteq> 0" "blocks demo_mem 9 = None" "blocks demo_mem 0 = None"
    by (simp_all add: demo_array_def demo_mem_def)
  from array_shrink [OF demo_array_ok n(1,2,3)]
  show "\<exists>m'. ra_Shrink demo_type demo_mem 9 1 demo_array = Some ((Inr (), \<lparr>data = 9, ra_size = 1\<rparr>), m') \<and> blocks m' 9 = Some [Obj 5]"
    by (auto simp: resized_def array_of_def)
  have c: "can_reallocate demo_type" "\<not> trivially_destructible demo_type" by (simp_all add: can_reallocate_def demo_type_def)
  from array_shrink [OF demo_array_ok n(1,2,4)] c
  show "\<exists>m'. ra_Shrink demo_type demo_mem 0 1 demo_array = Some ((Inl Bad_alloc, demo_array), m') \<and> ra_destroy demo_type m' demo_array = None"
    by auto
qed

text \<open>
  A lifetime: an array that is constructed with a positive size and destroyed leaves the blocks
  and the usage counter as they were; one constructed with size 0 keeps the block it got, because
  the destructor frees only when the size is not 0.
\<close>
theorem array_lifetime:
  assumes E: "object_type E" and n: "unat n * elem_size E < 2 ^ 64" and fresh: "fresh \<noteq> nullptr" "blocks m fresh = None"
  shows "\<exists>a m1 m2. ra_new E m fresh n True = Some (Inr a, m1) \<and> array_of E m1 a (replicate (unat n) (dflt E))
    \<and> ra_destroy E m1 a = Some m2 \<and> memory_usage (stat m2) = memory_usage (stat m)
    \<and> (if n = 0 then blocks m2 = (blocks m)(fresh \<mapsto> []) \<and> deallocate_count (stat m2) = deallocate_count (stat m)
       else blocks m2 = blocks m \<and> deallocate_count (stat m2) = deallocate_count (stat m) + 1)"
proof -
  from E have sz: "0 < elem_size E" by (simp add: object_type_def)
  let ?xs = "replicate (unat n) (dflt E)" and ?a = "\<lparr>data = fresh, ra_size = n\<rparr>"
  let ?m1 = "m\<lparr>blocks := (blocks m)(fresh \<mapsto> map Obj ?xs), stat := count_alloc (n * of_nat (elem_size E)) (stat m)\<rparr>"
  have "UninitializedDefaultConstruct E 0 (unat n) (replicate (unat n) Raw) = Some (True, map Obj ?xs)"
    using construct_tail [OF E, of "[]" "unat n"] by simp
  then have new: "ra_new E m fresh n True = Some (Inr ?a, ?m1)"
    using allocate_ok [OF sz n fresh(1), of m] fresh by (simp add: ra_new_def with_block_def)
  have ao: "array_of E ?m1 ?a ?xs" using fresh n by (simp add: array_of_def)
  show ?thesis
  proof (cases "n = 0")
    case True
    then show ?thesis using new ao by (intro exI [of _ ?a] exI [of _ ?m1]) (simp add: ra_destroy_def count_alloc_def)
  next
    case False
    have b: "blocks ?m1 fresh = Some (map Obj ?xs)" by simp
    from destroy_at [OF E b fresh(1), of 0] obtain m4 where
      m4: "destroy_cells E ?m1 fresh 0 (unat n) = Some m4" "stat m4 = stat ?m1"
        "(blocks m4)(fresh := None) = (blocks m)(fresh := None)" "blocks m4 fresh \<noteq> None"
      by (cases "trivially_destructible E") auto
    have "(blocks m)(fresh := None) = blocks m" using fresh(2) by (simp add: fun_upd_idem)
    then obtain m2 where "ra_destroy E ?m1 ?a = Some m2" "blocks m2 = blocks m" "memory_usage (stat m2) = memory_usage (stat m)"
      "deallocate_count (stat m2) = deallocate_count (stat m) + 1"
      using False m4 fresh(1) by (auto simp: ra_destroy_def deallocate_def Free_def Let_def count_alloc_def)
    then show ?thesis using new ao False by auto
  qed
qed

theorem array_lifetime_witness:
  "\<exists>a m1. ra_new demo_type demo_mem 9 0 True = Some (Inr a, m1) \<and> ra_destroy demo_type m1 a = Some m1 \<and> blocks m1 9 = Some []"
proof -
  have "unat (0 :: size_t) * elem_size demo_type < 2 ^ 64" "(9 :: ptr) \<noteq> 0" "blocks demo_mem 9 = None" by (simp_all add: demo_mem_def)
  from array_lifetime [OF demo_array_ok(1) this] obtain a m1 m2 where
    r: "ra_new demo_type demo_mem 9 0 True = Some (Inr a, m1)" "array_of demo_type m1 a []" "ra_destroy demo_type m1 a = Some m2"
      "blocks m2 = (blocks demo_mem)(9 \<mapsto> [])" by auto
  then have "ra_size a = 0" by (simp add: array_of_def unsigned_eq_0_iff)
  then show ?thesis using r by (auto simp: ra_destroy_def)
qed

text \<open>
  Assigning an empty array to one with elements, for an element type that is assigned by
  \<open>realloc\<close>: the block is freed by the request for 0 bytes, whose null result is taken for a failed
  allocation, so \<open>bad_alloc\<close> is thrown and the array keeps the address of the freed block.
\<close>
theorem array_assign_empty_dangling:
  assumes "object_type E" and "copy_cond E" and "array_of E m a xs" and "xs \<noteq> []" and "array_of E m other []"
  shows "\<exists>m'. ra_assign E m fresh False a other = Some ((Inl Bad_alloc, a), m') \<and> blocks m' (data a) = None
    \<and> ra_destroy E m' a = None"
proof -
  note A = array_ofD [OF assms(3)]
  have o: "ra_size other = 0" using array_ofD(3) [OF assms(5)] by (simp add: unsigned_eq_0_iff)
  have a: "ra_size a \<noteq> 0" using A(3) assms(4) by auto
  then have "\<exists>m'. ra_assign E m fresh False a other = Some ((Inl Bad_alloc, a), m') \<and> blocks m' (data a) = None"
    using A o assms(2) by (simp add: ra_assign_def CopyAssignment_realloc_def reallocate_def Realloc_def Let_def)
  then show ?thesis using a A(1) by (auto simp: ra_destroy_def destroy_cells_def with_block_def)
qed

definition demo_mem2 :: "nat mem" where
  "demo_mem2 = demo_mem\<lparr>blocks := (blocks demo_mem)(2 \<mapsto> [])\<rparr>"

theorem array_assign_empty_dangling_witness:
  "\<exists>m'. ra_assign demo_type demo_mem2 9 False demo_array \<lparr>data = 2, ra_size = 0\<rparr> = Some ((Inl Bad_alloc, demo_array), m')
    \<and> ra_destroy demo_type m' demo_array = None"
proof -
  have c: "copy_cond demo_type" by (simp add: copy_cond_def can_reallocate_def demo_type_def)
  have "array_of demo_type demo_mem2 demo_array [5, 6]" "[5, 6 :: nat] \<noteq> []" "array_of demo_type demo_mem2 \<lparr>data = 2, ra_size = 0\<rparr> []"
    by (simp_all add: array_of_def demo_type_def demo_mem2_def demo_mem_def demo_array_def)
  from array_assign_empty_dangling [OF demo_array_ok(1) c this, of 9] show ?thesis by blast
qed

end
