(* ===== verification/Array_Runs.thy ===== *)
theory Array_Runs
  imports Simulation Reserved_Array_Props
begin

text \<open>
  \<open>ReservedArray\<close> through its whole life: any sequence of \<open>Grow\<close>, \<open>Shrink\<close> and reads on a
  default-constructed array is a sequence on a list, whichever of the two strategies the element type
  selects; the block of the array is the only one that is touched, the usage counter is that of the
  elements the array holds, and the destructor leaves the memory as it was before.
\<close>

datatype array_op = Grow_to size_t | Shrink_to size_t | Read_at size_t

datatype 'v array_out = Resized | Refused | Read 'v

text \<open>The reference; reading past the end fails the assertion of \<open>operator[]\<close>.\<close>

fun vector_step :: "'v \<Rightarrow> array_op \<Rightarrow> 'v list \<Rightarrow> ('v array_out \<times> 'v list) option" where
  "vector_step d (Grow_to n) xs = Some (Resized, xs @ replicate (unat n - length xs) d)"
| "vector_step d (Shrink_to n) xs = Some (Resized, take (unat n) xs)"
| "vector_step d (Read_at i) xs = (if unat i < length xs then Some (Read (xs ! unat i), xs) else None)"

definition out_of :: "(array_exn + unit) \<Rightarrow> 'v array_out" where
  "out_of r = (case r of Inl _ \<Rightarrow> Refused | Inr _ \<Rightarrow> Resized)"

fun array_step :: "'v elem_type \<Rightarrow> ('v cell list heap \<Rightarrow> ptr) \<Rightarrow> array_op \<Rightarrow> ra \<times> 'v mem \<Rightarrow> ('v array_out \<times> ra \<times> 'v mem) option" where
  "array_step E alloc (Grow_to n) (a, m) = do { ((r, a), m) \<leftarrow> ra_Grow E m (alloc (blocks m)) n a; Some (out_of r, a, m) }"
| "array_step E alloc (Shrink_to n) (a, m) = do { ((r, a), m) \<leftarrow> ra_Shrink E m (alloc (blocks m)) n a; Some (out_of r, a, m) }"
| "array_step E alloc (Read_at i) (a, m) = do { v \<leftarrow> ra_get m a i; Some (Read v, a, m) }"

text \<open>Only requests whose size in bytes is a \<open>size_t\<close>.\<close>

fun fits :: "'v elem_type \<Rightarrow> array_op \<Rightarrow> bool" where
  "fits E (Grow_to n) \<longleftrightarrow> unat n * elem_size E < 2 ^ 64"
| "fits E _ \<longleftrightarrow> True"

section \<open>The empty array\<close>

lemma Grow_default:
  assumes E: "object_type E" and n: "0 < n" "unat n * elem_size E < 2 ^ 64" and fresh: "blocks m fresh = None" "fresh \<noteq> nullptr"
    and null: "blocks m nullptr = None"
  shows "\<exists>m'. ra_Grow E m fresh n ra_default = Some ((Inr (), \<lparr>data = fresh, ra_size = n\<rparr>), m')
    \<and> blocks m' = (blocks m)(fresh \<mapsto> map Obj (replicate (unat n) (dflt E)))
    \<and> memory_usage (stat m') = memory_usage (stat m) + n * of_nat (elem_size E)"
proof -
  from E have sz: "0 < elem_size E" by (simp add: object_type_def)
  have n0: "n \<noteq> 0" using n(1) by auto
  have le: "\<not> n \<le> 0" using n(1) by simp
  note C = construct_tail [OF E, of "[]" "unat n", simplified]
  have "(blocks m)(nullptr := None) = blocks m" using null by (simp add: fun_upd_idem)
  note null = this
  show ?thesis
  proof (cases "can_reallocate E")
    case True
    then show ?thesis using n0 le fresh bytes_cells [OF sz n(2)] C null
      by (auto simp: ra_Grow_def ra_default_def Reallocate_realloc_def reallocate_def Realloc_def Let_def with_block_def)
  next
    case False
    have "UninitializedMoveIfNoexcept E [] 0 (replicate (unat n) Raw) = Some (True, replicate (unat n) Raw)"
      by (simp add: UninitializedMoveIfNoexcept_def uninitialized_copy_def)
    then show ?thesis using False le fresh allocate_ok [OF sz n(2) fresh(2), of m] C
      by (auto simp: ra_Grow_def ra_default_def Reallocate_move_def cells_of_def with_block_def deallocate_def Free_def Let_def
          count_alloc_def)
  qed
qed

lemma Shrink_zero:
  assumes E: "object_type E" and a: "array_of E m a xs" "xs \<noteq> []"
  shows "\<exists>m'. ra_Shrink E m fresh 0 a = Some ((Inr (), ra_default), m') \<and> blocks m' = (blocks m)(data a := None)
    \<and> memory_usage (stat m') = memory_usage (stat m) - ra_size a * of_nat (elem_size E)"
proof -
  note A = array_ofD [OF a(1)]
  have pos: "\<not> ra_size a \<le> 0" using A(3) a(2) by auto
  from destroy_at [OF E A(2,1), of 0] obtain m1 where
    m1: "destroy_cells E m (data a) 0 (unat (ra_size a)) = Some m1" "stat m1 = stat m" "blocks m1 (data a) \<noteq> None"
      "(blocks m1)(data a := None) = (blocks m)(data a := None)"
    using A by (cases "trivially_destructible E") auto
  then obtain cs where cs: "blocks m1 (data a) = Some cs" by blast
  show ?thesis
  proof (cases "can_reallocate E")
    case True
    then show ?thesis using pos m1 cs A(1)
      by (auto simp: ra_Shrink_def Shrink_realloc_def reallocate_def Realloc_def Let_def)
  next
    case False
    then show ?thesis using pos m1 cs A(1)
      by (auto simp: ra_Shrink_def Shrink_move_def deallocate_def Free_def Let_def ra_default_def)
  qed
qed

section \<open>The simulation\<close>

text \<open>
  The states of a run that starts in the memory \<open>m0\<close>: an empty array is the default one and owns
  nothing, any other has its elements in a block of its own.
\<close>

definition array_rep :: "'v elem_type \<Rightarrow> 'v mem \<Rightarrow> ra \<times> 'v mem \<Rightarrow> 'v list \<Rightarrow> bool" where
  "array_rep E m0 s xs \<longleftrightarrow> (case s of (a, m) \<Rightarrow>
     blocks m0 nullptr = None \<and>
     (if xs = [] then a = ra_default \<and> blocks m = blocks m0
      else array_of E m a xs \<and> blocks m0 (data a) = None \<and> (blocks m)(data a := None) = blocks m0)
     \<and> memory_usage (stat m) = memory_usage (stat m0) + ra_size a * of_nat (elem_size E))"

lemma array_repD:
  assumes "array_rep E m0 (a, m) xs"
  shows "blocks m0 nullptr = None"
    "memory_usage (stat m) = memory_usage (stat m0) + ra_size a * of_nat (elem_size E)"
    "xs \<noteq> [] \<Longrightarrow> array_of E m a xs \<and> blocks m0 (data a) = None \<and> (blocks m)(data a := None) = blocks m0"
  using assms by (simp_all add: array_rep_def)

lemma array_rep_resized:
  assumes "array_rep E m0 (a, m) xs" and "xs \<noteq> []" and "resized E m a fresh n ys m'" and "ys \<noteq> []" and "blocks m fresh = None"
  shows "array_rep E m0 (\<lparr>data = fresh, ra_size = n\<rparr>, m') ys"
proof -
  have R: "array_of E m a xs" "blocks m0 (data a) = None" "(blocks m)(data a := None) = blocks m0"
    "memory_usage (stat m) = memory_usage (stat m0) + ra_size a * of_nat (elem_size E)"
    using assms(1,2) by (simp_all add: array_rep_def)
  have S: "array_of E m' \<lparr>data = fresh, ra_size = n\<rparr> ys" "blocks m' (data a) = None"
    "\<forall>p. p \<noteq> data a \<and> p \<noteq> fresh \<longrightarrow> blocks m' p = blocks m p"
    "memory_usage (stat m') = memory_usage (stat m) + (n - ra_size a) * of_nat (elem_size E)"
    using assms(3) by (simp_all add: resized_def)
  have fa: "fresh \<noteq> data a" using assms(5) R(1) by (auto simp: array_of_def)
  have m0: "blocks m0 p = (if p = data a then None else blocks m p)" for p by (simp flip: R(3))
  have "(blocks m')(fresh := None) = blocks m0"
    by (rule ext) (use S(2,3) assms(5) in \<open>auto simp: m0\<close>)
  moreover have "blocks m0 fresh = None" using assms(5) by (simp add: m0)
  ultimately show ?thesis using S(1,4) R(4) assms(4) array_repD(1) [OF assms(1)] by (simp add: array_rep_def algebra_simps)
qed

lemma array_step_Grow:
  assumes E: "object_type E" and r: "array_rep E m0 (a, m) xs" and n: "unat n * elem_size E < 2 ^ 64"
    and fresh: "blocks m fresh = None" "fresh \<noteq> nullptr"
  shows "\<exists>a' m'. ra_Grow E m fresh n a = Some ((Inr (), a'), m') \<and> array_rep E m0 (a', m') (xs @ replicate (unat n - length xs) (dflt E))"
proof (cases "xs = []")
  case True
  then have a: "a = ra_default" "blocks m = blocks m0" "blocks m0 nullptr = None" "memory_usage (stat m) = memory_usage (stat m0)"
    using r by (simp_all add: array_rep_def ra_default_def)
  show ?thesis
  proof (cases "n = 0")
    case True
    then show ?thesis using a \<open>xs = []\<close> r by (auto simp: ra_Grow_def ra_default_def)
  next
    case False
    then have "0 < n" by (simp add: word_gt_0)
    from Grow_default [OF E this n fresh] a(1-3) obtain m' where
      m': "ra_Grow E m fresh n a = Some ((Inr (), \<lparr>data = fresh, ra_size = n\<rparr>), m')"
        "blocks m' = (blocks m)(fresh \<mapsto> map Obj (replicate (unat n) (dflt E)))"
        "memory_usage (stat m') = memory_usage (stat m) + n * of_nat (elem_size E)" by auto
    have "(blocks m)(fresh := None) = blocks m" using fresh(1) by (simp add: fun_upd_idem)
    then have "array_rep E m0 (\<lparr>data = fresh, ra_size = n\<rparr>, m') (replicate (unat n) (dflt E))"
      using m'(2,3) a fresh n \<open>0 < n\<close> by (auto simp: array_rep_def array_of_def word_gt_0 unsigned_eq_0_iff)
    then show ?thesis using m'(1) \<open>xs = []\<close> by auto
  qed
next
  case False
  then have ao: "array_of E m a xs" using r by (simp add: array_rep_def)
  show ?thesis
  proof (cases "n > ra_size a")
    case True
    have G: "ra_Grow E m fresh n a = (if can_reallocate E then Reallocate_realloc E m fresh n a else Reallocate_move E m fresh n a)"
      using True by (auto simp: ra_Grow_def)
    have "\<exists>m'. ra_Grow E m fresh n a = Some ((Inr (), \<lparr>data = fresh, ra_size = n\<rparr>), m')
      \<and> resized E m a fresh n (xs @ replicate (unat n - length xs) (dflt E)) m'"
      using Reallocate_realloc_ok [OF E ao True n fresh(1)] Reallocate_move_ok [OF E ao True n fresh(1)] fresh(2)
      unfolding G by (cases "can_reallocate E") simp_all
    with array_rep_resized [OF r False _ _ fresh(1)] False show ?thesis by blast
  next
    case le: False
    then have "unat n \<le> length xs" using ao by (auto simp: array_of_def word_le_nat_alt not_less)
    then show ?thesis using le r by (auto simp: ra_Grow_def)
  qed
qed

lemma array_step_Shrink:
  assumes E: "object_type E" and r: "array_rep E m0 (a, m) xs" and fresh: "blocks m fresh = None" "fresh \<noteq> nullptr"
  shows "\<exists>a' m'. ra_Shrink E m fresh n a = Some ((Inr (), a'), m') \<and> array_rep E m0 (a', m') (take (unat n) xs)"
proof (cases "xs = []")
  case True
  then have "a = ra_default" using r by (simp add: array_rep_def)
  then show ?thesis using True r by (auto simp: ra_Shrink_def ra_default_def)
next
  case False
  then have ao: "array_of E m a xs" and rep: "blocks m0 (data a) = None" "(blocks m)(data a := None) = blocks m0"
    "memory_usage (stat m) = memory_usage (stat m0) + ra_size a * of_nat (elem_size E)" using r by (simp_all add: array_rep_def)
  have sz: "unat (ra_size a) = length xs" using ao by (simp add: array_of_def)
  consider "n \<ge> ra_size a" | "n = 0" "n < ra_size a" | "n \<noteq> 0" "n < ra_size a" by (meson not_le)
  then show ?thesis
  proof cases
    case 1
    then have "length xs \<le> unat n" using sz by (simp add: word_le_nat_alt)
    then show ?thesis using 1 r by (simp add: ra_Shrink_def)
  next
    case 2
    from Shrink_zero [OF E ao False, of fresh] 2(1) rep array_repD(1) [OF r] show ?thesis
      by (auto simp: array_rep_def ra_default_def)
  next
    case 3
    have "ra_Shrink E m fresh n a = (if can_reallocate E then Shrink_realloc E m fresh n a else Shrink_move E m fresh n a)"
      using 3 by (auto simp: ra_Shrink_def)
    then have "\<exists>m'. ra_Shrink E m fresh n a = Some ((Inr (), \<lparr>data = fresh, ra_size = n\<rparr>), m') \<and> resized E m a fresh n (take (unat n) xs) m'"
      using Shrink_realloc_ok [OF E ao 3(2,1) fresh(1)] Shrink_move_ok [OF E ao 3(2,1) fresh(1)] fresh(2)
      by (cases "can_reallocate E") simp_all
    moreover have "take (unat n) xs \<noteq> []" using 3(1) False by (simp add: unsigned_eq_0_iff)
    ultimately show ?thesis using array_rep_resized [OF r False _ _ fresh(1)] by blast
  qed
qed

lemma array_rep_get:
  assumes "array_rep E m0 (a, m) xs"
  shows "ra_get m a i = (if unat i < length xs then Some (xs ! unat i) else None)"
proof (cases "xs = []")
  case True
  then show ?thesis using assms by (simp add: array_rep_def ra_get_def ra_default_def)
next
  case False
  then have "blocks m (data a) = Some (map Obj xs)" "unat (ra_size a) = length xs" using assms by (simp_all add: array_rep_def array_of_def)
  then show ?thesis by (simp add: ra_get_def word_less_nat_alt)
qed

lemma array_rep_finite:
  assumes "array_rep E m0 (a, m) xs" and "finite (dom (blocks m0))"
  shows "finite (dom (blocks m))"
proof -
  have "(blocks m)(data a := None) = blocks m0 \<or> blocks m = blocks m0" using assms(1) by (auto simp: array_rep_def split: if_splits)
  then have "blocks m p = blocks m0 p \<or> p = data a" for p by (metis fun_upd_other)
  then have "dom (blocks m) \<subseteq> insert (data a) (dom (blocks m0))" by (metis domIff insertCI subsetI)
  then show ?thesis using assms(2) finite_subset by blast
qed

interpretation array_runs: simulation
  "\<lambda>s xs n. object_type E \<and> allocates alloc \<and> finite (dom (blocks m0)) \<and> array_rep E m0 s xs" limit "fits E"
  "array_step E alloc" "vector_step (dflt E)" for E alloc m0 limit
proof
  fix s xs op and n :: nat
  assume "object_type E \<and> allocates alloc \<and> finite (dom (blocks m0)) \<and> array_rep E m0 s xs" and good: "fits E op"
  then have E: "object_type E" and al: "allocates alloc" and fin: "finite (dom (blocks m0))" and r: "array_rep E m0 s xs" by simp_all
  obtain a m where s: "s = (a, m)" by (cases s)
  have "finite (dom (blocks m))" using array_rep_finite r fin s by blast
  then have fresh: "blocks m (alloc (blocks m)) = None" "alloc (blocks m) \<noteq> nullptr" using al by (simp_all add: allocates_def)
  note r = r [unfolded s]
  show "case vector_step (dflt E) op xs of
      None \<Rightarrow> array_step E alloc op s = None
    | Some (out, xs') \<Rightarrow> (\<exists>s'. array_step E alloc op s = Some (out, s')
        \<and> object_type E \<and> allocates alloc \<and> finite (dom (blocks m0)) \<and> array_rep E m0 s' xs')"
  proof (cases op)
    case (Grow_to n)
    then show ?thesis using array_step_Grow [OF E r _ fresh, of n] good E al fin by (auto simp: s out_of_def)
  next
    case (Shrink_to n)
    then show ?thesis using array_step_Shrink [OF E r fresh, of n] E al fin by (auto simp: s out_of_def)
  next
    case (Read_at i)
    then show ?thesis using array_rep_get [OF r, of i] r E al fin by (auto simp: s)
  qed
qed

lemma array_rep_destroy:
  assumes "object_type E" and r: "array_rep E m0 (a, m) xs"
  shows "\<exists>m'. ra_destroy E m a = Some m' \<and> blocks m' = blocks m0 \<and> memory_usage (stat m') = memory_usage (stat m0)"
proof (cases "xs = []")
  case True
  then show ?thesis using r by (simp add: array_rep_def ra_destroy_def ra_default_def)
next
  case False
  then have ao: "array_of E m a xs" and rep: "(blocks m)(data a := None) = blocks m0"
    "memory_usage (stat m) = memory_usage (stat m0) + ra_size a * of_nat (elem_size E)" using r by (simp_all add: array_rep_def)
  note A = array_ofD [OF ao]
  have "ra_size a \<noteq> 0" using A(3) False by auto
  moreover from destroy_at [OF assms(1) A(2,1), of 0] obtain m1 where
    "destroy_cells E m (data a) 0 (unat (ra_size a)) = Some m1" "stat m1 = stat m" "blocks m1 (data a) \<noteq> None"
      "(blocks m1)(data a := None) = (blocks m)(data a := None)"
    using A by (cases "trivially_destructible E") auto
  ultimately show ?thesis using A(1) rep by (auto simp: ra_destroy_def deallocate_def Free_def Let_def)
qed

lemma replicate_2: "replicate 2 x = [x, x]"
  by (simp add: numeral_2_eq_2)

section \<open>Properties\<close>

text \<open>
  C15: a \<open>ReservedArray\<close> of objects whose constructors do not throw, default-constructed, then grown,
  shrunk and read in any order, with an allocator that does not fail: the results are those of a list,
  and a read past the end is the only thing that is undefined. While it lives the usage counter has
  grown by exactly the bytes of its elements, and the destructor gives back every block and byte.
\<close>
theorem array_refines_vector:
  assumes E: "object_type E" and "allocates alloc" and "finite (dom (blocks m0))" and "blocks m0 nullptr = None"
    and "list_all (fits E) ops"
  shows "case run_steps (vector_step (dflt E)) ops [] of
      None \<Rightarrow> run_steps (array_step E alloc) ops (ra_default, m0) = None
    | Some (outs, xs) \<Rightarrow> (\<exists>a m m'. run_steps (array_step E alloc) ops (ra_default, m0) = Some (outs, a, m)
        \<and> cells_of m a = Some (map Obj xs) \<and> memory_usage (stat m) = memory_usage (stat m0) + of_nat (length xs * elem_size E)
        \<and> ra_destroy E m a = Some m' \<and> blocks m' = blocks m0 \<and> memory_usage (stat m') = memory_usage (stat m0))"
proof -
  have "array_rep E m0 (ra_default, m0) []" using assms(4) by (simp add: array_rep_def ra_default_def)
  then have R: "object_type E \<and> allocates alloc \<and> finite (dom (blocks m0)) \<and> array_rep E m0 (ra_default, m0) []" using assms by blast
  have "(\<exists>m'. ra_destroy E m a = Some m' \<and> blocks m' = blocks m0 \<and> memory_usage (stat m') = memory_usage (stat m0))
      \<and> cells_of m a = Some (map Obj xs) \<and> memory_usage (stat m) = memory_usage (stat m0) + of_nat (length xs * elem_size E)"
    if r: "array_rep E m0 (a, m) xs" for a m xs
  proof -
    have "cells_of m a = Some (map Obj xs) \<and> unat (ra_size a) = length xs"
      using r cells_of_array [of E m a xs] by (auto simp: array_rep_def array_of_def cells_of_def ra_default_def split: if_splits)
    moreover have "ra_size a = of_nat (unat (ra_size a))" by simp
    ultimately show ?thesis using array_rep_destroy [OF E r] r by (simp add: array_rep_def)
  qed
  with array_runs.run_simulates [OF R, where ops = ops and limit = "0 + length ops"] assms(5) show ?thesis
    by (auto split: option.splits)
qed

theorem array_refines_vector_witness:
  "\<exists>s. run_steps (array_step demo_type next_address) [Grow_to 2, Shrink_to 1, Grow_to 3, Read_at 2, Shrink_to 0, Grow_to 1] (ra_default, demo_mem)
    = Some ([Resized, Resized, Resized, Read 0, Resized, Resized], s)"
proof -
  let ?ops = "[Grow_to 2, Shrink_to 1, Grow_to 3, Read_at 2, Shrink_to 0, Grow_to 1]"
  have "run_steps (vector_step (dflt demo_type)) ?ops [] = Some ([Resized, Resized, Resized, Read 0, Resized, Resized], [0])"
    by (simp add: demo_type_def replicate_2)
  moreover have "finite (dom (blocks demo_mem))" "blocks demo_mem nullptr = None" "list_all (fits demo_type) ?ops" by (simp_all add: demo_mem_def demo_type_def)
  ultimately show ?thesis
    using array_refines_vector [OF demo_array_ok(1) next_address_allocates, of demo_mem ?ops] by auto
qed

end
