(* ===== verification/Block_Array.thy ===== *)
theory Block_Array
  imports Memory_Util
begin

text \<open>
  \<open>BlockArray\<close> (\<open>algo/block_array.h\<close>, \<open>algo/internal/block_array.tcc\<close>), an unfinished array of blocks of
  elements that nothing uses. Its destructor calls functions that do not exist, so an array can be
  created (with \<open>new\<close>) and used, but not destroyed; \<open>Grow\<close> is empty. Everything that can be
  instantiated is modelled: the constants, the bounds of the first and last block, \<open>PushBack\<close>, \<open>size\<close>
  and the helpers that allocate, free, construct and destroy.
\<close>

section \<open>Blocks\<close>

definition BLOCK_SIZE :: "'a elem_type \<Rightarrow> size_t" where
  "BLOCK_SIZE E = (if 4096 < elem_size E then 4096 else of_nat (4096 div elem_size E))"

record HBlock =
  h_block_idx :: size_t
  h_entry_idx :: size_t

definition HBlock_new :: "'a elem_type \<Rightarrow> HBlock" where
  "HBlock_new E = \<lparr>h_block_idx = 0, h_entry_idx = BLOCK_SIZE E - 1\<rparr>"

definition h_is_full :: "HBlock \<Rightarrow> bool" where
  "h_is_full b \<longleftrightarrow> - 1 = h_entry_idx b"

definition h_is_empty :: "'a elem_type \<Rightarrow> HBlock \<Rightarrow> bool" where
  "h_is_empty E b \<longleftrightarrow> h_entry_idx b = BLOCK_SIZE E - 1"

text \<open>\<open>size\<close> of an \<open>HBlock\<close> is declared with the result type \<open>bool\<close>.\<close>

definition h_size :: "'a elem_type \<Rightarrow> HBlock \<Rightarrow> bool" where
  "h_size E b \<longleftrightarrow> BLOCK_SIZE E - 1 - h_entry_idx b \<noteq> 0"

record EBlock =
  e_block_idx :: size_t
  e_entry_idx :: size_t

definition e_is_full :: "'a elem_type \<Rightarrow> EBlock \<Rightarrow> bool" where
  "e_is_full E b \<longleftrightarrow> e_block_idx b = BLOCK_SIZE E"

definition e_is_empty :: "EBlock \<Rightarrow> bool" where
  "e_is_empty b \<longleftrightarrow> e_block_idx b = 0"

definition e_size :: "EBlock \<Rightarrow> size_t" where
  "e_size b = e_entry_idx b"

section \<open>The array\<close>

text \<open>
  \<open>blocks_\<close> is a table of \<open>Block\<close>s in raw memory, each the address of its elements or not yet written;
  the tables have a heap of their own beside the memory of the elements.
\<close>

record BlockArray =
  ba_blocks :: ptr
  ba_block_count :: size_t
  first_block :: HBlock
  last_block :: HBlock

type_synonym 'a block_mem = "'a mem \<times> ptr option list heap"

definition BlockArray_new :: "'a elem_type \<Rightarrow> BlockArray" where
  "BlockArray_new E = \<lparr>ba_blocks = nullptr, ba_block_count = 0, first_block = HBlock_new E, last_block = HBlock_new E\<rparr>"

definition ba_size :: "'a elem_type \<Rightarrow> BlockArray \<Rightarrow> size_t" where
  "ba_size E a = (if 2 \<le> ba_block_count a then (ba_block_count a - 2) * BLOCK_SIZE E else 0)
     + of_bool (h_size E (first_block a)) + of_bool (h_size E (last_block a))"

definition ba_max_size :: size_t where
  "ba_max_size = - 1"

definition Grow :: "size_t \<Rightarrow> BlockArray \<Rightarrow> BlockArray" where
  "Grow n a = a"

text \<open>A \<open>Block\<close> is one pointer, 8 bytes.\<close>

definition allocate_block :: "'a block_mem \<Rightarrow> ptr \<Rightarrow> size_t \<Rightarrow> ptr \<times> 'a block_mem" where
  "allocate_block M fresh n =
     (case M of (m, tables) \<Rightarrow>
        if fresh = nullptr then (nullptr, M)
        else (fresh, m\<lparr>stat := count_alloc (n * 8) (stat m)\<rparr>, tables(fresh \<mapsto> replicate (unat n) None)))"

definition deallocate_block :: "BlockArray \<Rightarrow> 'a block_mem \<Rightarrow> 'a block_mem option" where
  "deallocate_block a M =
     (case M of (m, tables) \<Rightarrow>
        let st = (stat m)\<lparr>deallocate_count := deallocate_count (stat m) + 1,
                memory_usage := memory_usage (stat m) - ba_block_count a * 8\<rparr> in
        if ba_blocks a = nullptr then Some (m\<lparr>stat := st\<rparr>, tables)
        else do { _ \<leftarrow> tables (ba_blocks a); Some (m\<lparr>stat := st\<rparr>, tables(ba_blocks a := None)) })"

text \<open>Reading \<open>blocks_[i].data\<close>, and writing it when the elements of a block are allocated.\<close>

definition block_data :: "ptr \<Rightarrow> size_t \<Rightarrow> 'a block_mem \<Rightarrow> ptr option" where
  "block_data p i M = do {
     table \<leftarrow> deref (snd M) p;
     (if unat i < length table then table ! unat i else None) }"

definition allocate_entry :: "'a elem_type \<Rightarrow> ptr \<Rightarrow> ptr \<Rightarrow> size_t \<Rightarrow> 'a block_mem \<Rightarrow> 'a block_mem option" where
  "allocate_entry E fresh p i M = do {
     table \<leftarrow> deref (snd M) p;
     (if unat i < length table
      then (case allocate E (fst M) fresh (BLOCK_SIZE E) of (d, m) \<Rightarrow>
              Some (m, (snd M)(p \<mapsto> table[unat i := Some d])))
      else None) }"

definition deallocate_entry :: "'a elem_type \<Rightarrow> ptr \<Rightarrow> size_t \<Rightarrow> 'a block_mem \<Rightarrow> 'a block_mem option" where
  "deallocate_entry E p i M = do {
     d \<leftarrow> block_data p i M;
     m \<leftarrow> deallocate E (fst M) d (BLOCK_SIZE E);
     Some (m, snd M) }"

definition write_entry :: "ptr \<Rightarrow> size_t \<Rightarrow> ('a cell list \<Rightarrow> 'a cell list option) \<Rightarrow> 'a mem \<Rightarrow> 'a mem option" where
  "write_entry d i f m = do {
     cells \<leftarrow> deref (blocks m) d;
     cells \<leftarrow> f cells;
     Some (m\<lparr>blocks := (blocks m)(d \<mapsto> cells)\<rparr>) }"

text \<open>Destroying the object in a cell; one past the block, or raw, it is undefined for a type with a destructor.\<close>

definition destroy_entry :: "'a elem_type \<Rightarrow> ptr \<Rightarrow> size_t \<Rightarrow> size_t \<Rightarrow> 'a block_mem \<Rightarrow> 'a block_mem option" where
  "destroy_entry E p i idx M = do {
     d \<leftarrow> block_data p i M;
     m \<leftarrow> (if trivial E then Some (fst M) else write_entry d idx (destroy_loop (unat idx) 1) (fst M));
     Some (m, snd M) }"

definition block_pop_back ::
    "'a elem_type \<Rightarrow> ptr \<Rightarrow> size_t \<Rightarrow> HBlock \<Rightarrow> 'a block_mem \<Rightarrow> (HBlock \<times> 'a block_mem) option" where
  "block_pop_back E p i h M = do {
     M \<leftarrow> destroy_entry E p i (h_entry_idx h) M;
     Some (h\<lparr>h_entry_idx := h_entry_idx h - 1\<rparr>, M) }"

definition block_push_back :: "ptr \<Rightarrow> size_t \<Rightarrow> HBlock \<Rightarrow> 'a \<Rightarrow> 'a block_mem \<Rightarrow> (HBlock \<times> 'a block_mem) option" where
  "block_push_back p i h v M = do {
     d \<leftarrow> block_data p i M;
     m \<leftarrow> write_entry d (h_entry_idx h) (put_cell (unat (h_entry_idx h)) (Obj v)) (fst M);
     Some (h\<lparr>h_entry_idx := h_entry_idx h + 1\<rparr>, m, snd M) }"

text \<open>\<open>PushBack\<close>, with the addresses that the two allocations return.\<close>

definition ba_PushBack ::
    "'a elem_type \<Rightarrow> ptr \<Rightarrow> ptr \<Rightarrow> 'a \<Rightarrow> BlockArray \<Rightarrow> 'a block_mem \<Rightarrow> (int \<times> BlockArray \<times> 'a block_mem) option" where
  "ba_PushBack E fresh_table fresh_entry v a M =
     (if ba_max_size \<le> ba_size E a + 1 then Some (0, a, M)
      else if ba_blocks a = nullptr then
        (case allocate_block M fresh_table 1 of (p, M) \<Rightarrow> do {
           M \<leftarrow> allocate_entry E fresh_entry p 0 M;
           (h, M) \<leftarrow> block_push_back p 0 (last_block a) v M;
           Some (1, a\<lparr>ba_blocks := p, last_block := h\<rparr>, M) })
      else if h_is_full (last_block a) then do {
        let a = Grow (ba_block_count a) a;
        (h, M) \<leftarrow> block_push_back (ba_blocks a) (h_block_idx (last_block a)) (last_block a) v M;
        Some (1, a\<lparr>last_block := h\<rparr>, M) }
      else Some (0, a, M))"

section \<open>What an array holds\<close>

lemma BLOCK_SIZE_unat:
  assumes "0 < elem_size E"
  shows "unat (BLOCK_SIZE E) = (if 4096 < elem_size E then 4096 else 4096 div elem_size E)"
    and "0 < unat (BLOCK_SIZE E)" and "unat (BLOCK_SIZE E) \<le> 4096"
proof -
  have "4096 div elem_size E \<le> 4096" by simp
  then have "4096 div elem_size E < 2 ^ 64" by (rule le_less_trans) simp
  then show 1: "unat (BLOCK_SIZE E) = (if 4096 < elem_size E then 4096 else 4096 div elem_size E)"
    by (simp add: BLOCK_SIZE_def unat_of_nat_lt del: of_nat_div)
  show "0 < unat (BLOCK_SIZE E)" unfolding 1 using assms by (simp add: div_greater_zero_iff)
  show "unat (BLOCK_SIZE E) \<le> 4096" unfolding 1 by simp
qed

lemma block_bytes:
  assumes "0 < elem_size E" and "elem_size E < 2 ^ 50"
  shows "unat (BLOCK_SIZE E * of_nat (elem_size E)) div elem_size E = unat (BLOCK_SIZE E)"
proof -
  have sz: "unat (of_nat (elem_size E) :: u64) = elem_size E" using assms(2) by (simp add: unat_of_nat_lt)
  have "unat (BLOCK_SIZE E) * elem_size E \<le> 4096 * 2 ^ 50"
    using BLOCK_SIZE_unat(3) [OF assms(1)] assms(2) by (intro mult_le_mono) simp_all
  then have "unat (BLOCK_SIZE E * of_nat (elem_size E)) = unat (BLOCK_SIZE E) * elem_size E"
    by (subst unat_mult_lem [THEN iffD1]) (simp_all add: sz)
  then show ?thesis using assms(1) by simp
qed

lemma max_size_large: "\<not> ba_max_size \<le> 1" "\<not> ba_max_size \<le> 2"
  by (simp_all add: ba_max_size_def word_le_nat_alt unsigned_minus_1_eq_mask mask_eq_exp_minus_1)

lemma PushBack_first:
  fixes E :: "'a elem_type"
  assumes "0 < elem_size E" and "elem_size E < 2 ^ 50" and "t \<noteq> nullptr" and "d \<noteq> nullptr"
  defines "n \<equiv> unat (BLOCK_SIZE E)"
  shows "\<exists>m. ba_PushBack E t d v (BlockArray_new E) (m0, tables) =
      Some (1, (BlockArray_new E)\<lparr>ba_blocks := t, last_block := \<lparr>h_block_idx = 0, h_entry_idx = BLOCK_SIZE E\<rparr>\<rparr>,
        m, tables(t \<mapsto> [Some d]))
    \<and> blocks m = (blocks m0)(d \<mapsto> replicate (n - 1) Raw @ [Obj v])"
proof -
  have n: "0 < n" using BLOCK_SIZE_unat(2) [OF assms(1)] by (simp add: n_def)
  then have idx: "unat (BLOCK_SIZE E - 1) = n - 1" by (simp add: n_def unat_minus_one unat_gt_0)
  have "replicate n (Raw :: 'a cell) = replicate (n - 1) Raw @ [Raw]" using n replicate_append_same [of "n - 1" "Raw :: 'a cell"] by (cases n) simp_all
  then have "(replicate n Raw)[n - 1 := Obj v] = replicate (n - 1) Raw @ [Obj v]"
    using list_update_length [of "replicate (n - 1) Raw" Raw "[]" "Obj v"] by simp
  then have put: "put_cell (unat (BLOCK_SIZE E - 1)) (Obj v) (replicate n Raw) = Some (replicate (n - 1) Raw @ [Obj v])"
    using n by (simp add: put_cell_def idx)
  have "unat (BLOCK_SIZE E * of_nat (elem_size E)) div elem_size E = n" using block_bytes [OF assms(1,2)] by (simp add: n_def)
  then show ?thesis using assms(3,4) put
    by (simp add: ba_PushBack_def BlockArray_new_def HBlock_new_def ba_size_def max_size_large h_size_def allocate_block_def
        allocate_entry_def block_push_back_def block_data_def write_entry_def allocate_def Malloc_def deref_def)
qed

text \<open>
  A \<open>BlockArray\<close> never holds more than one element: the first \<open>PushBack\<close> puts its value into the last
  cell of a new block and moves the index past the end of the block, and every later one, whatever
  the memory, returns 0 and does nothing; \<open>size\<close> is 1, whatever the size of a block. The helper that is to
  pop the last element would destroy the cell after the block.
\<close>
theorem block_array_holds_one:
  fixes E :: "'a elem_type"
  assumes "0 < elem_size E" and "elem_size E < 2 ^ 50" and "t \<noteq> nullptr" and "d \<noteq> nullptr"
  shows "\<exists>a m. ba_PushBack E t d v (BlockArray_new E) (m0, tables) = Some (1, a, m, tables(t \<mapsto> [Some d]))
    \<and> blocks m = (blocks m0)(d \<mapsto> replicate (unat (BLOCK_SIZE E) - 1) Raw @ [Obj v]) \<and> ba_size E a = 1
    \<and> (\<forall>t' d' w M. ba_PushBack E t' d' w a M = Some (0, a, M))
    \<and> (trivial E \<or> block_pop_back E (ba_blocks a) 0 (last_block a) (m, tables(t \<mapsto> [Some d])) = None)"
proof -
  let ?a = "(BlockArray_new E)\<lparr>ba_blocks := t, last_block := \<lparr>h_block_idx = 0, h_entry_idx = BLOCK_SIZE E\<rparr>\<rparr>"
  from PushBack_first [OF assms, of v m0 tables] obtain m where
    m: "ba_PushBack E t d v (BlockArray_new E) (m0, tables) = Some (1, ?a, m, tables(t \<mapsto> [Some d]))"
      "blocks m = (blocks m0)(d \<mapsto> replicate (unat (BLOCK_SIZE E) - 1) Raw @ [Obj v])" by blast
  have size: "ba_size E ?a = 1" by (simp add: ba_size_def BlockArray_new_def HBlock_new_def h_size_def)
  have "BLOCK_SIZE E \<noteq> - 1"
    using BLOCK_SIZE_unat(3) [OF assms(1)] by (auto simp: unsigned_minus_1_eq_mask mask_eq_exp_minus_1)
  then have "ba_PushBack E t' d' w ?a M = Some (0, ?a, M)" for t' d' w M
    using assms(3) by (simp add: ba_PushBack_def size h_is_full_def max_size_large)
  moreover have "block_pop_back E (ba_blocks ?a) 0 (last_block ?a) (m, tables(t \<mapsto> [Some d])) = None" if "\<not> trivial E"
    using that assms(3,4) BLOCK_SIZE_unat(2) [OF assms(1)]
    by (simp add: block_pop_back_def destroy_entry_def block_data_def write_entry_def deref_def m(2))
  ultimately show ?thesis using m size by blast
qed

theorem block_array_holds_one_witness:
  "\<exists>a m. ba_PushBack demo_type 1 2 7 (BlockArray_new demo_type)
      (\<lparr>blocks = Map.empty, stat = \<lparr>memory_usage = 0, allocate_count = 0, deallocate_count = 0, reallocate_count = 0\<rparr>\<rparr>, Map.empty)
      = Some (1, a, m, [1 \<mapsto> [Some 2]])
    \<and> blocks m 2 = Some (replicate 511 Raw @ [Obj 7]) \<and> ba_PushBack demo_type 3 4 8 a (m, Map.empty) = Some (0, a, m, Map.empty)"
proof -
  let ?m0 = "\<lparr>blocks = Map.empty, stat = \<lparr>memory_usage = 0, allocate_count = 0, deallocate_count = 0, reallocate_count = 0\<rparr>\<rparr>"
  have "unat (BLOCK_SIZE demo_type) - 1 = 511" using BLOCK_SIZE_unat(1) [of demo_type] by (simp add: demo_type_def)
  moreover have "0 < elem_size demo_type" "elem_size demo_type < 2 ^ 50" by (simp_all add: demo_type_def)
  ultimately show ?thesis
    using block_array_holds_one [of demo_type 1 2 7 ?m0 Map.empty] by auto
qed

end
