(* ===== verification/Hash_Util.thy ===== *)
theory Hash_Util
  imports Tree_Hash_Table Comparators
begin

text \<open>
  The function objects of the hash tables (\<open>algo/hash_util.h\<close>, \<open>algo/internal/func_util.h\<close>): \<open>Hash\<close>, which
  passes the bytes of a key to \<open>XXH64\<close> of the xxHash library with the seed 0, \<open>GetKey\<close> and \<open>EqualKey\<close>;
  and how \<open>Hash\<close> and the comparator of strings go together in a table whose buckets are trees.
\<close>

section \<open>Hash\<close>

text \<open>The bytes of an integer in memory, on a little-endian machine.\<close>

definition object_bytes :: "'l::len word \<Rightarrow> bstring" where
  "object_bytes x = map (\<lambda>i. ucast (drop_bit (8 * i) x)) [0..<LENGTH('l) div 8]"

definition Hash_string :: "(bstring \<Rightarrow> u64 \<Rightarrow> u64) \<Rightarrow> bstring \<Rightarrow> u64" where
  "Hash_string XXH64 x = XXH64 x 0"

definition Hash_integer :: "(bstring \<Rightarrow> u64 \<Rightarrow> u64) \<Rightarrow> 'l::len word \<Rightarrow> u64" where
  "Hash_integer XXH64 x = XXH64 (object_bytes x) 0"

definition Hash_pointer :: "(bstring \<Rightarrow> u64 \<Rightarrow> u64) \<Rightarrow> u64 \<Rightarrow> u64" where
  "Hash_pointer XXH64 p = XXH64 (object_bytes p) 0"

lemma length_object_bytes: "length (object_bytes (x :: 'l::len word)) = LENGTH('l) div 8"
  by (simp add: object_bytes_def)

text \<open>Whole bytes keep every bit: different integers of one type are hashed from different bytes.\<close>

lemma object_bytes_inj:
  fixes x y :: "'l::len word"
  assumes "8 dvd LENGTH('l)" and eq: "object_bytes x = object_bytes y"
  shows "x = y"
proof (rule bit_eqI)
  fix n
  assume "possible_bit TYPE('l word) n"
  then have n: "n < LENGTH('l)" by simp
  then have i: "n div 8 < LENGTH('l) div 8" using assms(1) by (auto elim!: dvdE)
  have "object_bytes x ! (n div 8) = object_bytes y ! (n div 8)" by (simp only: eq)
  then have "(ucast (drop_bit (8 * (n div 8)) x) :: byte) = ucast (drop_bit (8 * (n div 8)) y)" using i by (simp add: object_bytes_def)
  then have "bit (ucast (drop_bit (8 * (n div 8)) x) :: byte) (n mod 8) = bit (ucast (drop_bit (8 * (n div 8)) y) :: byte) (n mod 8)"
    by (simp only:)
  then show "bit x n = bit y n" using n by (simp add: bit_unsigned_iff bit_drop_bit_eq)
qed

section \<open>GetKey and EqualKey\<close>

definition GetKey_self :: "'k \<Rightarrow> 'k" where
  "GetKey_self key = key"

definition GetKey_pair :: "'k \<times> 'w \<Rightarrow> 'k" where
  "GetKey_pair kv = fst kv"

definition EqualKey :: "'k \<Rightarrow> 'k \<Rightarrow> bool" where
  "EqualKey k1 k2 \<longleftrightarrow> k1 = k2"

section \<open>Two insertions into a small table\<close>

lemma unat_and_3: "unat (x AND 3 :: u64) < 4"
  using word_and_le1 [of x 3] by (simp add: word_le_nat_alt)

definition leaf_node :: "'v \<Rightarrow> 'v AvlNode" where
  "leaf_node v = \<lparr>parent = nullptr, left = nullptr, right = nullptr, height = 1, node_value = v\<rparr>"

lemma insert_plain:
  assumes "\<not> tree_InRehashing tb" and "tt_used (ttable1 tb) < TreeTable_size (ttable1 tb)"
  shows "tree_InsertWithDuplicate True HF cmp gk p v tb = do {
      (r, tb) \<leftarrow> on_bucket False (index_in False tb (HF (gk v))) (\<lambda>s. avl_InsertWithDuplicate cmp gk s p v True) tb;
      Some (Inr r, if fst r then inc_used tb else tb) }"
  using assms by (auto simp: tree_InsertWithDuplicate_def tree_Rehash_def tree_IncrementalRehash_def tree_insert_checked_def
      split: bind_splits)

lemma insert_into_empty:
  "h p = None \<Longrightarrow> p \<noteq> nullptr \<Longrightarrow>
    avl_InsertWithDuplicate cmp gk (tree_of h nullptr) p v True
      = Some ((True, Some p), \<lparr>nodes = h(p \<mapsto> leaf_node v), root = p, tree_count = 1\<rparr>)"
  by (simp add: avl_InsertWithDuplicate_def tree_of_def avl_CreateNode_def IncreaseCount_def report_def leaf_node_def)

lemma insert_into_single:
  "h q = Some (leaf_node w) \<Longrightarrow> q \<noteq> nullptr \<Longrightarrow> cmp (gk v) (gk w) = 0 \<Longrightarrow>
    avl_InsertWithDuplicate cmp gk (tree_of h q) p v True = Some ((False, Some q), tree_of h q)"
  by (simp add: avl_InsertWithDuplicate_def tree_of_def report_def leaf_node_def node_at_def deref_def)

section \<open>Properties\<close>

text \<open>
  C39: a table of strings whose buckets are trees takes two keys for the same one when they agree up to
  the first NUL byte and their hashes fall into the same bucket, and for two keys when the buckets
  differ: \<open>Hash\<close> reads all the bytes of a string, its comparator only those before the first NUL.
\<close>
theorem string_keys_depend_on_hash:
  assumes c: "c_str k1 = c_str k2" and p: "p1 \<noteq> nullptr" "p2 \<noteq> nullptr" "p1 \<noteq> p2"
  shows "\<exists>tb0 tb1 tb2. TreeHashTable_new True Map.empty = Inr tb0
    \<and> tree_InsertWithDuplicate True (Hash_string XXH64) cmp_string GetKey_self p1 k1 tb0 = Some (Inr (True, Some p1), tb1)
    \<and> tree_InsertWithDuplicate True (Hash_string XXH64) cmp_string GetKey_self p2 k2 tb1
      = Some (Inr (if Hash_string XXH64 k1 AND 3 = Hash_string XXH64 k2 AND 3 then (False, Some p1) else (True, Some p2)), tb2)
    \<and> tht_size tb2 = (if Hash_string XXH64 k1 AND 3 = Hash_string XXH64 k2 AND 3 then 1 else 2)"
proof -
  let ?i = "Hash_string XXH64 k1 AND 3" and ?j = "Hash_string XXH64 k2 AND 3"
  let ?t0 = "\<lparr>buckets = replicate 4 nullptr, tt_used = 0, tt_mask = 3\<rparr>"
  let ?t1 = "\<lparr>buckets = (replicate 4 nullptr)[unat ?i := p1], tt_used = 1, tt_mask = 3\<rparr>"
  let ?h1 = "[p1 \<mapsto> leaf_node k1]"
  let ?tb = "\<lambda>h t. \<lparr>tree_nodes = h, ttable1 = t, ttable2 = TreeTable_init, tree_move_index = - 1\<rparr>"
  have lt: "unat (x AND 3) < 4" for x :: u64 by (rule unat_and_3)
  have eq: "unat ?i = unat ?j \<longleftrightarrow> ?i = ?j" by (rule word_unat_eq_iff [symmetric])
  have cmp: "cmp_string k2 k1 = 0" using c by (simp add: cmp_string_def strcmp_eq_0)
  have 0: "TreeHashTable_new True Map.empty = Inr (?tb Map.empty ?t0)"
    by (simp add: TreeHashTable_new_def TreeTable_new_def TreeTable_Grow_def TreeTable_init_def TreeTable_size_def)
  have 1: "tree_InsertWithDuplicate True (Hash_string XXH64) cmp_string GetKey_self p1 k1 (?tb Map.empty ?t0) = Some (Inr (True, Some p1), ?tb ?h1 ?t1)"
    using lt [of "Hash_string XXH64 k1"] p(1)
    by (simp add: insert_plain tree_InRehashing_def TreeTable_size_def on_bucket_def index_in_def tree_bucket_index_def ttable_def root_at_def
        insert_into_empty set_ttable_def root_set_def inc_used_def GetKey_self_def)
  have 2: "\<exists>tb2. tree_InsertWithDuplicate True (Hash_string XXH64) cmp_string GetKey_self p2 k2 (?tb ?h1 ?t1)
      = Some (Inr (if ?i = ?j then (False, Some p1) else (True, Some p2)), tb2) \<and> tht_size tb2 = (if ?i = ?j then 1 else 2)"
  proof (cases "?i = ?j")
    case True
    then show ?thesis using lt [of "Hash_string XXH64 k2"] p cmp insert_into_single [of ?h1 p1 k1 cmp_string GetKey_self k2 p2]
      by (simp add: insert_plain tree_InRehashing_def TreeTable_size_def on_bucket_def index_in_def tree_bucket_index_def ttable_def root_at_def
          set_ttable_def root_set_def inc_used_def GetKey_self_def tht_size_def)
  next
    case False
    then show ?thesis using lt [of "Hash_string XXH64 k2"] p eq
      by (simp add: insert_plain tree_InRehashing_def TreeTable_size_def on_bucket_def index_in_def tree_bucket_index_def ttable_def root_at_def
          insert_into_empty set_ttable_def root_set_def inc_used_def GetKey_self_def tht_size_def)
  qed
  from 0 1 2 show ?thesis by blast
qed

theorem string_keys_depend_on_hash_witness:
  "(\<exists>tb1 tb2. tree_InsertWithDuplicate True (Hash_string (\<lambda>s _. of_nat (length s))) cmp_string GetKey_self 2 [97, 0] tb1 = Some (Inr (True, Some 2), tb2))
    \<and> (\<exists>tb1 tb2. tree_InsertWithDuplicate True (Hash_string (\<lambda>s _. 7)) cmp_string GetKey_self 2 [97, 0] tb1 = Some (Inr (False, Some 1), tb2))"
proof -
  have c: "c_str [97] = c_str [97, 0]" by (simp add: c_str_def)
  have p: "(1 :: nat) \<noteq> nullptr" "(2 :: nat) \<noteq> nullptr" "(1 :: nat) \<noteq> 2" by simp_all
  from string_keys_depend_on_hash [OF c p, of "\<lambda>s _. of_nat (length s)"] string_keys_depend_on_hash [OF c p, of "\<lambda>s _. 7"]
  show ?thesis by (simp add: Hash_string_def) blast
qed

end
