(* ===== verification/No_Record_Allocator.thy ===== *)
theory No_Record_Allocator
  imports Memory_Util
begin

text \<open>
  \<open>LibcAllocatorWithReallocNoRecord\<close> (\<open>algo/libc_allocator_with_realloc_no_record.h\<close>): the calls of the C
  library without the counters.
\<close>

definition nr_allocate :: "'a elem_type \<Rightarrow> 'a mem \<Rightarrow> ptr \<Rightarrow> size_t \<Rightarrow> ptr \<times> 'a mem" where
  "nr_allocate E m fresh n =
     (fresh, if fresh = nullptr then m
             else m\<lparr>blocks := (blocks m)(fresh \<mapsto> replicate (unat (n * of_nat (elem_size E)) div elem_size E) Raw)\<rparr>)"

definition nr_reallocate :: "'a elem_type \<Rightarrow> 'a mem \<Rightarrow> ptr \<Rightarrow> size_t \<Rightarrow> size_t \<Rightarrow> ptr \<Rightarrow> (ptr \<times> 'a mem) option" where
  "nr_reallocate E m p old_n n fresh = do {
     old \<leftarrow> (if p = nullptr then Some [] else blocks m p);
     let cells = unat (n * of_nat (elem_size E)) div elem_size E;
     (if n * of_nat (elem_size E) = 0 \<and> p \<noteq> nullptr then Some (nullptr, m\<lparr>blocks := (blocks m)(p := None)\<rparr>)
      else if fresh = nullptr then Some (nullptr, m)
      else Some (fresh, m\<lparr>blocks := (blocks m)(p := None, fresh \<mapsto> take cells old @ replicate (cells - length old) Raw)\<rparr>)) }"

definition nr_deallocate :: "'a elem_type \<Rightarrow> 'a mem \<Rightarrow> ptr \<Rightarrow> size_t \<Rightarrow> 'a mem option" where
  "nr_deallocate E m p n =
     (if p = nullptr then Some m else do { _ \<leftarrow> blocks m p; Some (m\<lparr>blocks := (blocks m)(p := None)\<rparr>) })"

definition unrecorded :: "'a mem \<Rightarrow> 'a mem \<Rightarrow> 'a mem" where
  "unrecorded m m' = m'\<lparr>stat := stat m\<rparr>"

text \<open>
  The allocator that does not record returns the same addresses, leaves the same blocks and fails in
  the same cases as the one that records, and leaves the counters as they were.
\<close>
theorem no_record_allocator_agrees:
  "nr_allocate E m fresh n = map_prod id (unrecorded m) (allocate E m fresh n)"
  "nr_reallocate E m p old_n n fresh = map_option (map_prod id (unrecorded m)) (reallocate E m p old_n n fresh)"
  "nr_deallocate E m p n = map_option (unrecorded m) (deallocate E m p n)"
  by (simp_all add: nr_allocate_def allocate_def Malloc_def nr_reallocate_def reallocate_def Realloc_def nr_deallocate_def
      deallocate_def Free_def unrecorded_def Let_def split: bind_splits)

end
