(* ===== verification/Blist.thy ===== *)
theory Blist
  imports Prelude
begin

text \<open>
  \<open>Blist\<close> (\<open>algo/blist.h\<close>, \<open>algo/internal/bnode.h\<close>, \<open>algo/internal/blist_iterator.h\<close>): a doubly
  linked list without sentinel on a heap of nodes. The \<open>prev\<close> link of the first node is the last
  node, the \<open>next\<close> link of the last node is \<open>nullptr\<close>. An operation takes the heap and the list
  object, \<open>header_\<close> with \<open>count_\<close>, and returns those it leaves; assertions that fail are \<open>None\<close>.
  The address an allocation returns is an argument, 0 when it fails.
\<close>

record 'v BNode =
  bprev :: ptr
  bnext :: ptr
  bvalue :: 'v

record Blist =
  bheader :: ptr
  bcount :: size_t

section \<open>Nodes\<close>

text \<open>\<open>CreateNode\<close> writes to the new node before anything checks its address.\<close>

definition blist_CreateNode :: "'v BNode heap \<Rightarrow> ptr \<Rightarrow> 'v \<Rightarrow> 'v BNode heap option" where
  "blist_CreateNode h node v =
     (if node = nullptr then None else Some (h(node \<mapsto> \<lparr>bprev = nullptr, bnext = nullptr, bvalue = v\<rparr>)))"

definition blist_DropNode :: "'v BNode heap \<Rightarrow> ptr \<Rightarrow> 'v BNode heap option" where
  "blist_DropNode h node = do { _ \<leftarrow> deref h node; Some (h(node := None)) }"

definition set_bprev :: "'v BNode heap \<Rightarrow> ptr \<Rightarrow> ptr \<Rightarrow> 'v BNode heap option" where
  "set_bprev h p q = store h p (\<lambda>n. n\<lparr>bprev := q\<rparr>)"

definition set_bnext :: "'v BNode heap \<Rightarrow> ptr \<Rightarrow> ptr \<Rightarrow> 'v BNode heap option" where
  "set_bnext h p q = store h p (\<lambda>n. n\<lparr>bnext := q\<rparr>)"

definition SetHeader :: "'v BNode heap \<Rightarrow> ptr \<Rightarrow> Blist \<Rightarrow> ('v BNode heap \<times> Blist) option" where
  "SetHeader h node l = do {
     h \<leftarrow> set_bprev h node node;
     n \<leftarrow> deref h node;
     (if bnext n = nullptr then Some (h, l\<lparr>bheader := node\<rparr>) else None) }"

section \<open>Construction and getters\<close>

definition Blist_new :: Blist where "Blist_new = \<lparr>bheader = nullptr, bcount = 0\<rparr>"

text \<open>
  The constructor from an initializer list links the nodes itself; it sets \<open>header_\<close> but leaves
  \<open>count_\<close> at 0. \<open>blist_link_all\<close> is its loop.
\<close>

fun blist_link_all :: "'v BNode heap \<Rightarrow> ptr \<Rightarrow> (ptr \<times> 'v) list \<Rightarrow> ('v BNode heap \<times> ptr) option" where
  "blist_link_all h prev [] = Some (h, prev)"
| "blist_link_all h prev ((node, e) # il) = do {
     h \<leftarrow> blist_CreateNode h node e;
     h \<leftarrow> set_bnext h prev node;
     h \<leftarrow> set_bprev h node prev;
     blist_link_all h node il }"

definition Blist_of_list :: "'v BNode heap \<Rightarrow> (ptr \<times> 'v) list \<Rightarrow> ('v BNode heap \<times> Blist) option" where
  "Blist_of_list h il =
     (case il of
        [] \<Rightarrow> Some (h, Blist_new)
      | (node, e) # il \<Rightarrow> do {
          h \<leftarrow> blist_CreateNode h node e;
          (h, prev) \<leftarrow> blist_link_all h node il;
          h \<leftarrow> set_bprev h node prev;
          Some (h, Blist_new\<lparr>bheader := node\<rparr>) })"

text \<open>Moving: the results are the new object and \<open>other\<close>.\<close>

definition blist_swap :: "Blist \<Rightarrow> Blist \<Rightarrow> Blist \<times> Blist" where
  "blist_swap this other = (other, this)"

definition Blist_move :: "Blist \<Rightarrow> Blist \<times> Blist" where
  "Blist_move other = (other, \<lparr>bheader = nullptr, bcount = 0\<rparr>)"

definition blist_move_assign :: "Blist \<Rightarrow> Blist \<Rightarrow> Blist \<times> Blist" where
  "blist_move_assign this other = blist_swap this other"

definition blist_empty :: "Blist \<Rightarrow> bool" where "blist_empty l \<longleftrightarrow> bheader l = nullptr"
definition blist_size :: "Blist \<Rightarrow> size_t" where "blist_size l = bcount l"
definition blist_max_size :: size_t where "blist_max_size = 0 - 1"

text \<open>Iterators are node pointers; the end is \<open>nullptr\<close>.\<close>

definition blist_begin :: "Blist \<Rightarrow> ptr" where "blist_begin l = bheader l"
definition blist_end :: ptr where "blist_end = nullptr"

definition blist_before_end :: "'v BNode heap \<Rightarrow> Blist \<Rightarrow> ptr option" where
  "blist_before_end h l = do { n \<leftarrow> deref h (bheader l); Some (bprev n) }"

definition blist_Front :: "'v BNode heap \<Rightarrow> Blist \<Rightarrow> 'v option" where
  "blist_Front h l = do { n \<leftarrow> deref h (bheader l); Some (bvalue n) }"

definition blist_Back :: "'v BNode heap \<Rightarrow> Blist \<Rightarrow> 'v option" where
  "blist_Back h l = do { n \<leftarrow> deref h (bheader l); m \<leftarrow> deref h (bprev n); Some (bvalue m) }"

definition blist_FrontNode :: "Blist \<Rightarrow> ptr" where "blist_FrontNode l = bheader l"

definition blist_BackNode :: "'v BNode heap \<Rightarrow> Blist \<Rightarrow> ptr option" where
  "blist_BackNode h l = do { n \<leftarrow> deref h (bheader l); Some (bprev n) }"

definition BlistIterator_deref :: "'v BNode heap \<Rightarrow> ptr \<Rightarrow> 'v option" where
  "BlistIterator_deref h it = do { n \<leftarrow> deref h it; Some (bvalue n) }"

definition BlistIterator_incr :: "'v BNode heap \<Rightarrow> ptr \<Rightarrow> ptr option" where
  "BlistIterator_incr h it = do { n \<leftarrow> deref h it; Some (bnext n) }"

definition BlistIterator_decr :: "'v BNode heap \<Rightarrow> ptr \<Rightarrow> ptr option" where
  "BlistIterator_decr h it = do { n \<leftarrow> deref h it; Some (bprev n) }"

text \<open>The postfix operators return the old position with the new one.\<close>

definition BlistIterator_postincr :: "'v BNode heap \<Rightarrow> ptr \<Rightarrow> (ptr \<times> ptr) option" where
  "BlistIterator_postincr h it = do { n \<leftarrow> deref h it; Some (it, bnext n) }"

definition BlistIterator_postdecr :: "'v BNode heap \<Rightarrow> ptr \<Rightarrow> (ptr \<times> ptr) option" where
  "BlistIterator_postdecr h it = do { n \<leftarrow> deref h it; Some (it, bprev n) }"

definition BlistIterator_eq :: "ptr \<Rightarrow> ptr \<Rightarrow> bool" where "BlistIterator_eq x y \<longleftrightarrow> x = y"

section \<open>Insertion\<close>

text \<open>Without a position \<open>InsertAfter\<close> makes that null position the header, not the new node.\<close>

definition blist_InsertAfter ::
    "'v BNode heap \<Rightarrow> Blist \<Rightarrow> ptr \<Rightarrow> ptr \<Rightarrow> ('v BNode heap \<times> Blist) option" where
  "blist_InsertAfter h l node new_node =
     (if new_node = nullptr then None
      else do {
        (h, l) \<leftarrow>
          (if node = nullptr then (if node \<noteq> bheader l then None else SetHeader h node l)
           else do {
             n \<leftarrow> deref h node;
             let node_nn = bnext n;
             h \<leftarrow> set_bprev h new_node node;
             h \<leftarrow> set_bnext h new_node node_nn;
             h \<leftarrow> (if node_nn \<noteq> nullptr then set_bprev h node_nn new_node
                   else set_bprev h (bheader l) new_node);
             h \<leftarrow> set_bnext h node new_node;
             Some (h, l) });
        Some (h, l\<lparr>bcount := bcount l + 1\<rparr>) })"

text \<open>\<open>PRE_PUSH\<close>: the returned number when the push is over, otherwise the push goes on.\<close>

definition PRE_PUSH :: "'v BNode heap \<Rightarrow> ptr \<Rightarrow> Blist \<Rightarrow> (int option \<times> 'v BNode heap \<times> Blist) option" where
  "PRE_PUSH h node l =
     (if blist_empty l then do {
        (h, l) \<leftarrow> SetHeader h node l;
        Some (Some 1, h, l\<lparr>bcount := 1\<rparr>) }
      else if blist_size l > blist_max_size then Some (Some 0, h, l)
      else Some (None, h, l))"

definition blist_PushFrontNode ::
    "'v BNode heap \<Rightarrow> ptr \<Rightarrow> Blist \<Rightarrow> (int \<times> 'v BNode heap \<times> Blist) option" where
  "blist_PushFrontNode h node l = do {
     (r, h, l) \<leftarrow> PRE_PUSH h node l;
     (case r of
        Some ret \<Rightarrow> Some (ret, h, l)
      | None \<Rightarrow> do {
          h \<leftarrow> set_bnext h node (bheader l);
          hd \<leftarrow> deref h (bheader l);
          h \<leftarrow> set_bprev h node (bprev hd);
          h \<leftarrow> set_bprev h (bheader l) node;
          Some (1, h, l\<lparr>bheader := node, bcount := bcount l + 1\<rparr>) }) }"

definition blist_PushFront ::
    "'v BNode heap \<Rightarrow> ptr \<Rightarrow> 'v \<Rightarrow> Blist \<Rightarrow> (int \<times> 'v BNode heap \<times> Blist) option" where
  "blist_PushFront h fresh v l = do {
     h \<leftarrow> blist_CreateNode h fresh v;
     blist_PushFrontNode h fresh l }"

definition blist_PushBackNode ::
    "'v BNode heap \<Rightarrow> ptr \<Rightarrow> Blist \<Rightarrow> (int \<times> 'v BNode heap \<times> Blist) option" where
  "blist_PushBackNode h node l = do {
     (r, h, l) \<leftarrow> PRE_PUSH h node l;
     (case r of
        Some ret \<Rightarrow> Some (ret, h, l)
      | None \<Rightarrow> do {
          hd \<leftarrow> deref h (bheader l);
          h \<leftarrow> set_bprev h node (bprev hd);
          hd \<leftarrow> deref h (bheader l);
          h \<leftarrow> set_bnext h (bprev hd) node;
          h \<leftarrow> set_bprev h (bheader l) node;
          n \<leftarrow> deref h node;
          (if bnext n \<noteq> nullptr then None else Some (1, h, l\<lparr>bcount := bcount l + 1\<rparr>)) }) }"

definition blist_PushBack ::
    "'v BNode heap \<Rightarrow> ptr \<Rightarrow> 'v \<Rightarrow> Blist \<Rightarrow> (int \<times> 'v BNode heap \<times> Blist) option" where
  "blist_PushBack h fresh v l = do {
     h \<leftarrow> blist_CreateNode h fresh v;
     blist_PushBackNode h fresh l }"

section \<open>Removal\<close>

definition PRE_POP :: "'v BNode heap \<Rightarrow> Blist \<Rightarrow> (int option \<times> 'v BNode heap \<times> Blist) option" where
  "PRE_POP h l =
     (if blist_empty l then Some (Some 0, h, l)
      else if bcount l = 1 then do {
        h \<leftarrow> blist_DropNode h (bheader l);
        Some (Some 1, h, \<lparr>bheader = nullptr, bcount = 0\<rparr>) }
      else Some (None, h, l))"

definition blist_PopFront :: "'v BNode heap \<Rightarrow> Blist \<Rightarrow> (int \<times> 'v BNode heap \<times> Blist) option" where
  "blist_PopFront h l = do {
     (r, h, l) \<leftarrow> PRE_POP h l;
     (case r of
        Some ret \<Rightarrow> Some (ret, h, l)
      | None \<Rightarrow> do {
          hd \<leftarrow> deref h (bheader l);
          let new_header = bnext hd;
          h \<leftarrow> set_bprev h new_header (bprev hd);
          h \<leftarrow> blist_DropNode h (bheader l);
          Some (1, h, l\<lparr>bheader := new_header, bcount := bcount l - 1\<rparr>) }) }"

definition blist_PopBack :: "'v BNode heap \<Rightarrow> Blist \<Rightarrow> (int \<times> 'v BNode heap \<times> Blist) option" where
  "blist_PopBack h l = do {
     (r, h, l) \<leftarrow> PRE_POP h l;
     (case r of
        Some ret \<Rightarrow> Some (ret, h, l)
      | None \<Rightarrow> do {
          hd \<leftarrow> deref h (bheader l);
          let old_end = bprev hd;
          e \<leftarrow> deref h old_end;
          h \<leftarrow> set_bnext h (bprev e) nullptr;
          e \<leftarrow> deref h old_end;
          h \<leftarrow> set_bprev h (bheader l) (bprev e);
          h \<leftarrow> blist_DropNode h old_end;
          Some (1, h, l\<lparr>bcount := bcount l - 1\<rparr>) }) }"

text \<open>
  \<open>Extract\<close> does nothing to a null pointer and to a node whose \<open>prev\<close> link is null. It relinks the
  next node, or the header for the last node, and then the previous node, or \<open>header_\<close> for the first.
\<close>

definition extract_next :: "'v BNode heap \<Rightarrow> Blist \<Rightarrow> 'v BNode \<Rightarrow> 'v BNode heap option" where
  "extract_next h l n =
     (if bnext n \<noteq> nullptr then set_bprev h (bnext n) (bprev n)
      else do {
        hd \<leftarrow> deref h (bheader l);
        tl \<leftarrow> deref h (bprev hd);
        (if bnext tl \<noteq> nullptr then None else set_bprev h (bheader l) (bprev n)) })"

definition extract_prev ::
    "'v BNode heap \<Rightarrow> Blist \<Rightarrow> ptr \<Rightarrow> 'v BNode \<Rightarrow> ('v BNode heap \<times> Blist) option" where
  "extract_prev h l node n =
     (if node \<noteq> bheader l then do { h \<leftarrow> set_bnext h (bprev n) (bnext n); Some (h, l) }
      else Some (h, l\<lparr>bheader := bnext n\<rparr>))"

definition blist_Extract :: "'v BNode heap \<Rightarrow> Blist \<Rightarrow> ptr \<Rightarrow> ('v BNode heap \<times> Blist) option" where
  "blist_Extract h l node =
     (if node = nullptr then Some (h, l)
      else do {
        n \<leftarrow> deref h node;
        (if bprev n = nullptr then Some (h, l)
         else do {
           h \<leftarrow> extract_next h l n;
           n \<leftarrow> deref h node;
           (h, l) \<leftarrow> extract_prev h l node n;
           h \<leftarrow> set_bprev h node nullptr;
           h \<leftarrow> set_bnext h node nullptr;
           Some (h, l\<lparr>bcount := bcount l - 1\<rparr>) }) })"

definition blist_Erase :: "'v BNode heap \<Rightarrow> Blist \<Rightarrow> ptr \<Rightarrow> ('v BNode heap \<times> Blist) option" where
  "blist_Erase h l node = do {
     (h, l) \<leftarrow> blist_Extract h l node;
     h \<leftarrow> blist_DropNode h node;
     Some (h, l) }"

partial_function (option) blist_clear_loop :: "'v BNode heap \<Rightarrow> ptr \<Rightarrow> 'v BNode heap option" where
  [code]: "blist_clear_loop h header =
     (if header = nullptr then Some h
      else do {
        n \<leftarrow> deref h header;
        h \<leftarrow> blist_DropNode h header;
        blist_clear_loop h (bnext n) })"

definition blist_Clear :: "'v BNode heap \<Rightarrow> Blist \<Rightarrow> ('v BNode heap \<times> Blist) option" where
  "blist_Clear h l = do {
     h \<leftarrow> blist_clear_loop h (bheader l);
     Some (h, \<lparr>bheader = nullptr, bcount = 0\<rparr>) }"

end
