(* ===== verification/Blist_Refine.thy ===== *)
theory Blist_Refine
  imports Blist
begin

text \<open>
  The operations of the doubly linked list refine operations on sequences. \<open>blist_at h l as\<close>: the
  list object \<open>l\<close> consists of the nodes \<open>as\<close>, each given by its address and its value, and its
  count is their number. An operation keeps every cell outside the nodes it is about.
\<close>

section \<open>Shape\<close>

abbreviation addresses :: "(ptr \<times> 'v) list \<Rightarrow> ptr set" where
  "addresses as \<equiv> fst ` set as"

definition first_or :: "ptr \<Rightarrow> (ptr \<times> 'v) list \<Rightarrow> ptr" where
  "first_or nxt as = (case as of [] \<Rightarrow> nxt | (a, _) # _ \<Rightarrow> a)"

definition last_or :: "ptr \<Rightarrow> (ptr \<times> 'v) list \<Rightarrow> ptr" where
  "last_or prv as = (if as = [] then prv else fst (last as))"

lemma first_or_simps [simp]: "first_or nxt [] = nxt" "first_or nxt ((a, v) # as) = a"
  "first_or nxt (as @ bs) = first_or (first_or nxt bs) as"
  by (cases as; auto simp: first_or_def)+

lemma last_or_simps [simp]: "last_or prv [] = prv" "last_or prv ((a, v) # as) = last_or a as"
  "last_or prv (as @ bs) = last_or (last_or prv as) bs"
  by (auto simp: last_or_def)

text \<open>A segment between a node \<open>prv\<close> and a node \<open>nxt\<close>.\<close>

fun bseg :: "'v BNode heap \<Rightarrow> ptr \<Rightarrow> (ptr \<times> 'v) list \<Rightarrow> ptr \<Rightarrow> bool" where
  "bseg h prv [] nxt \<longleftrightarrow> True"
| "bseg h prv ((a, v) # as) nxt \<longleftrightarrow>
     a \<noteq> nullptr \<and> h a = Some \<lparr>bprev = prv, bnext = first_or nxt as, bvalue = v\<rparr> \<and> bseg h a as nxt"

definition blist_at :: "'v BNode heap \<Rightarrow> Blist \<Rightarrow> (ptr \<times> 'v) list \<Rightarrow> bool" where
  "blist_at h l as \<longleftrightarrow> distinct (map fst as) \<and> bseg h (last_or nullptr as) as nullptr
     \<and> bheader l = first_or nullptr as \<and> bcount l = of_nat (length as)"

lemma bseg_append [simp]:
  "bseg h prv (as @ bs) nxt \<longleftrightarrow> bseg h prv as (first_or nxt bs) \<and> bseg h (last_or prv as) bs nxt"
  by (induction as arbitrary: prv) auto

lemma bseg_cong: "(\<And>a. a \<in> addresses as \<Longrightarrow> h' a = h a) \<Longrightarrow> bseg h' prv as nxt = bseg h prv as nxt"
  by (induction as arbitrary: prv) auto

lemma bseg_upd [simp]: "p \<notin> addresses as \<Longrightarrow> bseg (h(p := x)) prv as nxt = bseg h prv as nxt"
  by (rule bseg_cong) auto

lemma bseg_node: "bseg h prv as nxt \<Longrightarrow> a \<in> addresses as \<Longrightarrow> a \<noteq> nullptr \<and> h a \<noteq> None"
proof (induction as arbitrary: prv)
  case (Cons x as)
  then have "bseg h (fst x) as nxt" "fst x \<noteq> nullptr" "h (fst x) \<noteq> None" "a = fst x \<or> a \<in> addresses as"
    by (cases x; auto)+
  then show ?case using Cons.IH by blast
qed simp

lemma first_or_in: "as \<noteq> [] \<Longrightarrow> first_or nxt as \<in> addresses as"
  by (cases as) auto

lemma last_or_in: "as \<noteq> [] \<Longrightarrow> last_or prv as \<in> addresses as"
  by (auto simp: last_or_def)

lemma blist_at_Nil: "blist_at h l [] \<longleftrightarrow> l = \<lparr>bheader = nullptr, bcount = 0\<rparr>"
  by (cases l) (auto simp: blist_at_def)

lemma blist_at_cong:
  "(\<And>a. a \<in> addresses as \<Longrightarrow> h' a = h a) \<Longrightarrow> blist_at h' l as = blist_at h l as"
  unfolding blist_at_def by (subst bseg_cong [of as h']) auto

lemma blist_at_frame:
  "same_outside A h h' \<Longrightarrow> addresses as \<inter> A = {} \<Longrightarrow> blist_at h' l as = blist_at h l as"
  by (rule blist_at_cong) (auto simp: same_outside_def)

lemma blist_at_empty: "blist_at h l as \<Longrightarrow> blist_empty l \<longleftrightarrow> as = []"
  by (cases as) (auto simp: blist_at_def blist_empty_def)

lemma blist_at_dom: "blist_at h l as \<Longrightarrow> a \<in> addresses as \<Longrightarrow> a \<noteq> nullptr \<and> h a \<noteq> None"
  unfolding blist_at_def by (elim conjE) (rule bseg_node)

section \<open>Links\<close>

text \<open>Relinking the front of a segment, and its back.\<close>

lemma set_bprev_first:
  assumes "bseg h prv as nxt" and "distinct (map fst as)" and "as \<noteq> []"
  shows "\<exists>h'. set_bprev h (first_or nullptr as) q = Some h' \<and> bseg h' q as nxt
    \<and> same_outside {first_or nullptr as} h h'"
  using assms by (cases as) (auto simp: set_bprev_def heap_simps same_outside_def)

lemma set_bnext_last:
  assumes "bseg h prv as nxt" and "distinct (map fst as)" and "as \<noteq> []"
  shows "\<exists>h'. set_bnext h (last_or nullptr as) q = Some h' \<and> bseg h' prv as q
    \<and> same_outside {last_or nullptr as} h h'"
proof -
  from assms(3) obtain xs a v where as: "as = xs @ [(a, v)]" by (metis append_butlast_last_id prod.collapse)
  then have a: "a \<notin> addresses xs" using assms(2) by auto
  from assms(1) as have "set_bnext h a q = Some (h(a \<mapsto> \<lparr>bprev = last_or prv xs, bnext = q, bvalue = v\<rparr>))"
    by (auto simp: set_bnext_def heap_simps)
  then show ?thesis using assms(1) as a by (auto simp: same_outside_def)
qed

section \<open>Insertion\<close>

lemma CreateNode_at: "fresh \<noteq> nullptr \<Longrightarrow>
    blist_CreateNode h fresh v = Some (h(fresh \<mapsto> \<lparr>bprev = nullptr, bnext = nullptr, bvalue = v\<rparr>))"
  by (simp add: blist_CreateNode_def)

lemma not_over_max: "\<not> blist_size l > blist_max_size"
  using word_order.extremum [of "blist_size l"] by (simp add: blist_max_size_def not_less)

lemma PRE_PUSH_at:
  assumes "blist_at h l as" and "node \<noteq> nullptr" and "h node = Some \<lparr>bprev = p, bnext = nullptr, bvalue = v\<rparr>"
  shows "if as = [] then \<exists>h' l'. PRE_PUSH h node l = Some (Some 1, h', l') \<and> blist_at h' l' [(node, v)] \<and> same_outside {node} h h'
    else PRE_PUSH h node l = Some (None, h, l)"
  using assms blist_at_empty [OF assms(1)] not_over_max [of l]
  by (auto simp: PRE_PUSH_def SetHeader_def set_bprev_def heap_simps blist_at_def same_outside_def)

text \<open>A node that is not in the list and whose \<open>next\<close> link is null is pushed to either end.\<close>

lemma PushFrontNode_at:
  assumes l: "blist_at h l as" and n: "node \<noteq> nullptr" "h node = Some \<lparr>bprev = p, bnext = nullptr, bvalue = v\<rparr>"
    and new: "node \<notin> addresses as"
  shows "\<exists>h' l'. blist_PushFrontNode h node l = Some (1, h', l') \<and> blist_at h' l' ((node, v) # as)
    \<and> same_outside (insert node (addresses as)) h h'"
proof (cases "as = []")
  case True
  with PRE_PUSH_at [OF l n] show ?thesis by (auto simp: blist_PushFrontNode_def)
next
  case False
  with l obtain b w bs where as: "as = (b, w) # bs" "bheader l = b" by (cases as) (auto simp: blist_at_def)
  from PRE_PUSH_at [OF l n] False have "PRE_PUSH h node l = Some (None, h, l)" by simp
  then show ?thesis using l n new as
    by (auto simp: blist_PushFrontNode_def set_bnext_def set_bprev_def heap_simps blist_at_def same_outside_def)
qed

lemma PushBackNode_at:
  assumes l: "blist_at h l as" and n: "node \<noteq> nullptr" "h node = Some \<lparr>bprev = p, bnext = nullptr, bvalue = v\<rparr>"
    and new: "node \<notin> addresses as"
  shows "\<exists>h' l'. blist_PushBackNode h node l = Some (1, h', l') \<and> blist_at h' l' (as @ [(node, v)])
    \<and> same_outside (insert node (addresses as)) h h'"
proof (cases "as = []")
  case True
  with PRE_PUSH_at [OF l n] show ?thesis by (auto simp: blist_PushBackNode_def)
next
  case False
  then obtain b w bs where as: "as = (b, w) # bs" by (cases as) auto
  let ?e = "last_or nullptr as"
  note L = l [unfolded blist_at_def]
  from PRE_PUSH_at [OF l n] False have P: "PRE_PUSH h node l = Some (None, h, l)" by simp
  have ne: "node \<noteq> ?e" "node \<noteq> b" using new last_or_in [OF False, of nullptr] as by auto
  define h1 where "h1 = h(node \<mapsto> \<lparr>bprev = ?e, bnext = nullptr, bvalue = v\<rparr>)"
  have "bseg h1 ?e as nullptr" using L new by (simp add: h1_def)
  then obtain h2 where h2: "set_bnext h1 ?e node = Some h2" "bseg h2 ?e as node" "same_outside {?e} h1 h2"
    using set_bnext_last [of h1 ?e as nullptr node] L False by auto
  obtain h3 where h3: "set_bprev h2 b node = Some h3" "bseg h3 node as node" "same_outside {b} h2 h3"
    using set_bprev_first [OF h2(2), of node] L False as by auto
  have n3: "h3 node = Some \<lparr>bprev = ?e, bnext = nullptr, bvalue = v\<rparr>"
    using h2(3) h3(3) ne by (auto simp: same_outside_def h1_def)
  have "h b = Some \<lparr>bprev = ?e, bnext = first_or nullptr bs, bvalue = w\<rparr>" "b \<noteq> nullptr" using L as by auto
  then have "blist_PushBackNode h node l = Some (1, h3, l\<lparr>bcount := bcount l + 1\<rparr>)"
    using P L as n ne h2(1) h3(1) n3 unfolding h1_def
    by (simp add: blist_PushBackNode_def set_bprev_def [of h] heap_simps)
  moreover have "blist_at h3 (l\<lparr>bcount := bcount l + 1\<rparr>) (as @ [(node, v)])"
    using L h3(2) n3 n(1) new as by (auto simp: blist_at_def)
  moreover have "same_outside (insert node (addresses as)) h h3"
  proof (rule same_outside_mono [OF same_outside_trans [OF same_outside_trans [OF _ h2(3)] h3(3)]])
    show "same_outside {node} h h1" by (simp add: same_outside_def h1_def)
    show "{node} \<union> {?e} \<union> {b} \<subseteq> insert node (addresses as)" using last_or_in [OF False, of nullptr] as by simp
  qed
  ultimately show ?thesis by blast
qed

section \<open>Removal\<close>

lemma DropNode_at: "h a = Some n \<Longrightarrow> a \<noteq> nullptr \<Longrightarrow> blist_DropNode h a = Some (h(a := None))"
  by (simp add: blist_DropNode_def heap_simps)

text \<open>The count tells a single node from more only below \<open>2^64\<close> nodes.\<close>

lemma PRE_POP_at:
  assumes l: "blist_at h l as" and "length as < 2 ^ 64"
  shows "PRE_POP h l = (case as of
      [] \<Rightarrow> Some (Some 0, h, l)
    | [(a, v)] \<Rightarrow> Some (Some 1, h(a := None), \<lparr>bheader = nullptr, bcount = 0\<rparr>)
    | _ \<Rightarrow> Some (None, h, l))"
proof -
  have "(of_nat (length as) :: size_t) = 1 \<longleftrightarrow> length as = 1"
    using of_nat_inverse [of "length as" "1 :: size_t"] assms(2) by auto
  then show ?thesis using l blist_at_empty [OF l]
    by (auto simp: PRE_POP_def blist_at_def DropNode_at split: list.splits)
qed

lemma PopFront_at:
  assumes l: "blist_at h l as" and "length as < 2 ^ 64"
  shows "\<exists>h' l'. blist_PopFront h l = Some (if as = [] then 0 else 1, h', l') \<and> blist_at h' l' (tl as)
    \<and> same_outside (addresses as) h h' \<and> (as \<noteq> [] \<longrightarrow> h' (fst (hd as)) = None)"
proof (cases as rule: remdups_adj.cases)
  case 1
  then show ?thesis using PRE_POP_at [OF assms] l by (simp add: blist_PopFront_def)
next
  case (2 x)
  then show ?thesis using PRE_POP_at [OF assms]
    by (cases x) (auto simp: blist_PopFront_def blist_at_Nil same_outside_def)
next
  case (3 x y xs)
  obtain a v b w where xy: "x = (a, v)" "y = (b, w)" by (cases x, cases y) auto
  have as: "as = (a, v) # (b, w) # xs" using 3 xy by simp
  then have "PRE_POP h l = Some (None, h, l)" using PRE_POP_at [OF assms] by simp
  then show ?thesis using l as
    by (auto simp: blist_PopFront_def blist_at_def set_bprev_def blist_DropNode_def heap_simps same_outside_def)
qed

lemma PopBack_at:
  assumes l: "blist_at h l as" and "length as < 2 ^ 64"
  shows "\<exists>h' l'. blist_PopBack h l = Some (if as = [] then 0 else 1, h', l') \<and> blist_at h' l' (butlast as)
    \<and> same_outside (addresses as) h h' \<and> (as \<noteq> [] \<longrightarrow> h' (fst (last as)) = None)"
proof (cases as rule: rev_cases)
  case Nil
  then show ?thesis using PRE_POP_at [OF assms] l by (simp add: blist_PopBack_def)
next
  case (snoc ys x)
  obtain a v where as: "as = ys @ [(a, v)]" using snoc by (cases x) auto
  note L = l [unfolded blist_at_def]
  show ?thesis
  proof (cases "ys = []")
    case True
    then show ?thesis using PRE_POP_at [OF assms] as
      by (auto simp: blist_PopBack_def blist_at_Nil same_outside_def)
  next
    case False
    let ?c = "last_or nullptr ys"
    obtain b w bs where ys: "ys = (b, w) # bs" using False by (cases ys) auto
    have P: "PRE_POP h l = Some (None, h, l)" using PRE_POP_at [OF assms] as ys by (cases bs) auto
    have dis: "distinct (map fst ys)" "a \<notin> addresses ys" using L as by auto
    have c: "?c \<in> addresses ys" by (rule last_or_in [OF False])
    have seg: "bseg h a ys a" "bheader l = b" using L as ys by auto
    have a: "a \<noteq> nullptr" "h a = Some \<lparr>bprev = ?c, bnext = nullptr, bvalue = v\<rparr>"
      using L as ys by auto
    have hb: "b \<noteq> nullptr" "h b = Some \<lparr>bprev = a, bnext = first_or a bs, bvalue = w\<rparr>" using seg ys by auto
    obtain h1 where h1: "set_bnext h ?c nullptr = Some h1" "bseg h1 a ys nullptr" "same_outside {?c} h h1"
      using set_bnext_last [OF seg(1) dis(1) False, of nullptr] by blast
    obtain h2 where h2: "set_bprev h1 b ?c = Some h2" "bseg h2 ?c ys nullptr" "same_outside {b} h1 h2"
      using set_bprev_first [OF h1(2) dis(1) False, of ?c] ys by auto
    have "a \<noteq> ?c" "a \<noteq> b" using dis(2) c ys by auto
    then have a2: "h1 a = h a" "h2 a = h a" using h1(3) h2(3) by (auto simp: same_outside_def)
    let ?l' = "l\<lparr>bcount := bcount l - 1\<rparr>"
    have "blist_PopBack h l = Some (1, h2(a := None), ?l')"
      using P a hb a2 h1(1) h2(1) seg(2) by (simp add: blist_PopBack_def heap_simps DropNode_at)
    moreover have "blist_at (h2(a := None)) ?l' ys"
      using L as h2(2) dis ys by (auto simp: blist_at_def)
    moreover have "same_outside (addresses as) h (h2(a := None))"
    proof (rule same_outside_mono [OF same_outside_trans [OF same_outside_trans [OF h1(3) h2(3)]]])
      show "same_outside {a} h2 (h2(a := None))" by (simp add: same_outside_def)
      show "{?c} \<union> {b} \<union> {a} \<subseteq> addresses as" using c as ys by auto
    qed
    ultimately show ?thesis using as by simp
  qed
qed

lemma clear_loop_at:
  "bseg h prv as nullptr \<Longrightarrow> distinct (map fst as) \<Longrightarrow>
    blist_clear_loop h (first_or nullptr as) = Some (\<lambda>p. if p \<in> addresses as then None else h p)"
proof (induction as arbitrary: h prv)
  case Nil
  then show ?case by (simp add: blist_clear_loop.simps)
next
  case (Cons x as)
  obtain a v where x: "x = (a, v)" by (cases x)
  with Cons.prems have "bseg (h(a := None)) a as nullptr" "a \<noteq> nullptr"
    "h a = Some \<lparr>bprev = prv, bnext = first_or nullptr as, bvalue = v\<rparr>" by auto
  moreover have "blist_clear_loop (h(a := None)) (first_or nullptr as) = Some (\<lambda>p. if p \<in> addresses as then None else (h(a := None)) p)"
    by (rule Cons.IH [OF calculation(1)]) (use Cons.prems(2) in simp)
  ultimately show ?case unfolding x
    by (subst blist_clear_loop.simps) (auto simp: heap_simps DropNode_at fun_eq_iff simp del: fun_upd_apply; simp)
qed

lemma blist_Clear_at:
  "blist_at h l as \<Longrightarrow> blist_Clear h l
    = Some (\<lambda>p. if p \<in> addresses as then None else h p, \<lparr>bheader = nullptr, bcount = 0\<rparr>)"
  unfolding blist_Clear_def blist_at_def using clear_loop_at [of h "last_or nullptr as" as] by simp

section \<open>Extraction and insertion in the middle\<close>

lemma last_or_nonempty: "as \<noteq> [] \<Longrightarrow> last_or p as = last_or q as"
  by (simp add: last_or_def)

text \<open>The node \<open>a\<close> between \<open>xs\<close> and \<open>ys\<close>.\<close>

lemma blist_at_mid:
  assumes "blist_at h l (xs @ (a, v) # ys)"
  defines "p \<equiv> last_or (last_or a ys) xs"
  shows "a \<noteq> nullptr" "h a = Some \<lparr>bprev = p, bnext = first_or nullptr ys, bvalue = v\<rparr>" "p \<noteq> nullptr"
    "bseg h (last_or a ys) xs a" "bseg h a ys nullptr" "bheader l = first_or a xs"
    "distinct (map fst xs)" "distinct (map fst ys)" "a \<notin> addresses xs" "a \<notin> addresses ys"
    "addresses xs \<inter> addresses ys = {}"
proof -
  show *: "a \<noteq> nullptr" "h a = Some \<lparr>bprev = p, bnext = first_or nullptr ys, bvalue = v\<rparr>"
    "bseg h (last_or a ys) xs a" "bseg h a ys nullptr" "bheader l = first_or a xs"
    "distinct (map fst xs)" "distinct (map fst ys)" "a \<notin> addresses xs" "a \<notin> addresses ys"
    "addresses xs \<inter> addresses ys = {}"
    using assms by (auto simp: blist_at_def)
  show "p \<noteq> nullptr"
  proof (cases "xs = []")
    case True
    then show ?thesis using *(1) bseg_node [OF *(4)] last_or_in [of ys a] unfolding p_def by (cases "ys = []") auto
  next
    case False
    then show ?thesis using bseg_node [OF *(3)] last_or_in [OF False] unfolding p_def by blast
  qed
qed

lemma first_or_nonempty: "as \<noteq> [] \<Longrightarrow> first_or p as = first_or q as"
  by (cases as) auto

lemma extract_next_at:
  assumes l: "blist_at h l (xs @ (a, v) # ys)"
  defines "p \<equiv> last_or (last_or a ys) xs"
  shows "\<exists>h1. extract_next h l (the (h a)) = Some h1 \<and> bseg h1 (last_or nullptr (xs @ ys)) xs a
    \<and> bseg h1 p ys nullptr \<and> h1 a = h a \<and> same_outside (addresses xs \<union> addresses ys) h h1"
proof -
  note M = blist_at_mid [OF l, folded p_def]
  have n: "the (h a) = \<lparr>bprev = p, bnext = first_or nullptr ys, bvalue = v\<rparr>" by (simp add: M(2))
  show ?thesis
  proof (cases "ys = []")
    case False
    then have f: "first_or nullptr ys \<in> addresses ys" "first_or nullptr ys \<noteq> nullptr"
      using first_or_in [OF False] bseg_node [OF M(5)] by blast+
    obtain h1 where h1: "set_bprev h (first_or nullptr ys) p = Some h1" "bseg h1 p ys nullptr"
      "same_outside {first_or nullptr ys} h h1" using set_bprev_first [OF M(5,8) False] by blast
    have eq: "h1 q = h q" if "q \<noteq> first_or nullptr ys" for q using h1(3) that by (simp add: same_outside_def)
    have "h1 a = h a" using eq M(10) f(1) by metis
    moreover have "bseg h1 (last_or a ys) xs a = bseg h (last_or a ys) xs a"
      by (rule bseg_cong, rule eq) (metis M(11) f(1) disjoint_iff)
    moreover have "extract_next h l (the (h a)) = Some h1" using h1(1) f(2) by (simp add: n extract_next_def)
    moreover have "last_or nullptr (xs @ ys) = last_or a ys" using last_or_nonempty [OF False] by simp
    moreover have "same_outside (addresses xs \<union> addresses ys) h h1"
      by (rule same_outside_mono [OF h1(3)]) (use f(1) in blast)
    ultimately show ?thesis using h1(2) M(4) by metis
  next
    case True
    show ?thesis
    proof (cases "xs = []")
      case False
      then obtain b w bs where xs: "xs = (b, w) # bs" by (cases xs) auto
      obtain h1 where h1: "set_bprev h b p = Some h1" "bseg h1 p xs a" "same_outside {b} h h1"
        using set_bprev_first [OF M(4,7) False, of p] xs by auto
      have "bheader l = b" "b \<noteq> nullptr" "h b = Some \<lparr>bprev = a, bnext = first_or a bs, bvalue = w\<rparr>"
        using M(4,6) True xs by simp_all
      then have "extract_next h l (the (h a)) = Some h1" using True M(1,2) h1(1) by (simp add: n extract_next_def heap_simps)
      moreover have "h1 a = h a" using h1(3) M(9) xs by (auto simp: same_outside_def)
      ultimately show ?thesis using h1 True xs last_or_nonempty [OF False] by (auto simp: p_def same_outside_def)
    next
      case x: True
      then have "extract_next h l (the (h a)) = Some h" using True M(1-6) by (auto simp: n extract_next_def heap_simps set_bprev_def p_def)
      then show ?thesis using True x by simp
    qed
  qed
qed

lemma extract_prev_at:
  assumes l: "blist_at h l (xs @ (a, v) # ys)"
  defines "p \<equiv> last_or (last_or a ys) xs"
  assumes h1: "bseg h1 (last_or nullptr (xs @ ys)) xs a" "bseg h1 p ys nullptr"
    "h1 a = h a" "same_outside (addresses xs \<union> addresses ys) h h1"
  shows "\<exists>h2. extract_prev h1 l a (the (h a)) = Some (h2, l\<lparr>bheader := first_or nullptr (xs @ ys)\<rparr>)
    \<and> bseg h2 (last_or nullptr (xs @ ys)) (xs @ ys) nullptr \<and> h2 a = h a
    \<and> same_outside (addresses xs \<union> addresses ys) h h2"
proof -
  note M = blist_at_mid [OF l, folded p_def]
  have n: "the (h a) = \<lparr>bprev = p, bnext = first_or nullptr ys, bvalue = v\<rparr>" by (simp add: M(2))
  show ?thesis
  proof (cases "xs = []")
    case True
    then have "ys \<noteq> [] \<Longrightarrow> p = last_or nullptr ys" using last_or_nonempty [of ys] by (simp add: p_def)
    then show ?thesis using True h1 M(6) by (cases "ys = []") (auto simp: n extract_prev_def)
  next
    case False
    have p: "p = last_or nullptr xs" "p \<in> addresses xs" "first_or a xs \<in> addresses xs"
      using last_or_nonempty [OF False] last_or_in [OF False] first_or_in [OF False] by (auto simp: p_def)
    have "a \<noteq> bheader l" using M(6,9) p(3) by metis
    obtain h2 where h2: "set_bnext h1 p (first_or nullptr ys) = Some h2"
      "bseg h2 (last_or nullptr (xs @ ys)) xs (first_or nullptr ys)" "same_outside {p} h1 h2"
      using set_bnext_last [OF h1(1) M(7) False] p(1) by blast
    have eq: "h2 q = h1 q" if "q \<noteq> p" for q using h2(3) that by (simp add: same_outside_def)
    have "h2 a = h a" using eq h1(3) M(9) p(2) by metis
    moreover have "bseg h2 p ys nullptr = bseg h1 p ys nullptr"
      by (rule bseg_cong, rule eq) (metis M(11) p(2) disjoint_iff)
    moreover have "same_outside (addresses xs \<union> addresses ys) h h2"
      by (rule same_outside_mono [OF same_outside_trans [OF h1(4) h2(3)]]) (use p(2) in blast)
    moreover have "bheader l = first_or (first_or nullptr ys) xs" using M(6) first_or_nonempty [OF False] by metis
    moreover have "last_or (last_or nullptr (xs @ ys)) xs = p" using p(1) last_or_nonempty [OF False] by metis
    ultimately show ?thesis using h1(2) h2(1,2) \<open>a \<noteq> bheader l\<close> by (auto simp: n extract_prev_def)
  qed
qed

lemma blist_Extract_at:
  assumes l: "blist_at h l (xs @ (a, v) # ys)"
  shows "\<exists>h' l'. blist_Extract h l a = Some (h', l') \<and> blist_at h' l' (xs @ ys)
    \<and> h' a = Some \<lparr>bprev = nullptr, bnext = nullptr, bvalue = v\<rparr>
    \<and> same_outside (addresses (xs @ (a, v) # ys)) h h'"
proof -
  note M = blist_at_mid [OF l]
  from extract_next_at [OF l] obtain h1 where h1: "extract_next h l (the (h a)) = Some h1"
    "bseg h1 (last_or nullptr (xs @ ys)) xs a" "bseg h1 (last_or (last_or a ys) xs) ys nullptr" "h1 a = h a"
    "same_outside (addresses xs \<union> addresses ys) h h1" by blast
  from extract_prev_at [OF l h1(2-5)] obtain h2 where
    h2: "extract_prev h1 l a (the (h a)) = Some (h2, l\<lparr>bheader := first_or nullptr (xs @ ys)\<rparr>)"
    "bseg h2 (last_or nullptr (xs @ ys)) (xs @ ys) nullptr" "h2 a = h a"
    "same_outside (addresses xs \<union> addresses ys) h h2" by blast
  let ?h' = "h2(a \<mapsto> \<lparr>bprev = nullptr, bnext = nullptr, bvalue = v\<rparr>)"
  let ?l' = "\<lparr>bheader = first_or nullptr (xs @ ys), bcount = bcount l - 1\<rparr>"
  have "blist_Extract h l a = Some (?h', ?l')"
    using M(1-3) h1(1,4) h2(1,3) unfolding blist_Extract_def
    by (simp add: heap_simps set_bprev_def set_bnext_def)
  moreover have "blist_at ?h' ?l' (xs @ ys)"
    using h2(2) M(7-11) l by (simp add: blist_at_def)
  moreover have "same_outside (addresses (xs @ (a, v) # ys)) h ?h'"
    using h2(4) by (auto simp: same_outside_def)
  ultimately show ?thesis by simp
qed

lemma blist_Erase_at:
  assumes "blist_at h l (xs @ (a, v) # ys)"
  shows "\<exists>h' l'. blist_Erase h l a = Some (h', l') \<and> blist_at h' l' (xs @ ys) \<and> h' a = None
    \<and> same_outside (addresses (xs @ (a, v) # ys)) h h'"
proof -
  from blist_Extract_at [OF assms] obtain h1 l' where e: "blist_Extract h l a = Some (h1, l')"
    "blist_at h1 l' (xs @ ys)" "h1 a = Some \<lparr>bprev = nullptr, bnext = nullptr, bvalue = v\<rparr>"
    "same_outside (addresses (xs @ (a, v) # ys)) h h1" by blast
  note M = blist_at_mid [OF assms]
  have "blist_Erase h l a = Some (h1(a := None), l')"
    using e(1,3) M(1) by (simp add: blist_Erase_def DropNode_at)
  moreover have "blist_at (h1(a := None)) l' (xs @ ys) = blist_at h1 l' (xs @ ys)"
    by (rule blist_at_cong) (use M(9,10) in auto)
  ultimately show ?thesis using e(2,4) by (auto simp: same_outside_def)
qed

text \<open>Insertion after a node; without a position the operation is never defined.\<close>

lemma InsertAfter_null: "blist_InsertAfter h l nullptr node = None"
  by (simp add: blist_InsertAfter_def SetHeader_def set_bprev_def heap_simps)

lemma relink_next_at:
  assumes l: "blist_at h l (xs @ (a, v) # ys)" and new: "q \<notin> addresses (xs @ (a, v) # ys)"
    and h1: "\<And>b. b \<noteq> q \<Longrightarrow> h1 b = h b"
  shows "\<exists>h2. (if first_or nullptr ys \<noteq> nullptr then set_bprev h1 (first_or nullptr ys) q
        else set_bprev h1 (bheader l) q) = Some h2
    \<and> bseg h2 (last_or q ys) (xs @ [(a, v)]) (first_or nullptr ys) \<and> bseg h2 q ys nullptr
    \<and> same_outside (addresses (xs @ (a, v) # ys)) h1 h2"
proof -
  note M = blist_at_mid [OF l]
  let ?ws = "xs @ [(a, v)]"
  have ws: "bseg h (last_or a ys) ?ws (first_or nullptr ys)" "distinct (map fst ?ws)" "bheader l = first_or nullptr ?ws"
    using M by auto
  have "bseg h1 (last_or a ys) ?ws (first_or nullptr ys) = bseg h (last_or a ys) ?ws (first_or nullptr ys)"
    by (rule bseg_cong, rule h1) (use new in auto)
  moreover have "bseg h1 a ys nullptr = bseg h a ys nullptr"
    by (rule bseg_cong, rule h1) (use new in auto)
  ultimately have seg: "bseg h1 (last_or a ys) ?ws (first_or nullptr ys)" "bseg h1 a ys nullptr" using ws(1) M(5) by simp_all
  show ?thesis
  proof (cases "ys = []")
    case True
    have "first_or nullptr ?ws \<in> addresses (xs @ (a, v) # ys)" using first_or_in [of ?ws nullptr] by auto
    moreover obtain h2 where h2: "set_bprev h1 (first_or nullptr ?ws) q = Some h2" "bseg h2 q ?ws (first_or nullptr ys)"
      "same_outside {first_or nullptr ?ws} h1 h2" using set_bprev_first [OF seg(1) ws(2)] by blast
    ultimately have "same_outside (addresses (xs @ (a, v) # ys)) h1 h2" by (intro same_outside_mono [OF h2(3)]) simp
    then show ?thesis unfolding ws(3) using True h2(1,2) by (simp del: first_or_simps(3))
  next
    case False
    then have f: "first_or nullptr ys \<in> addresses ys" "first_or nullptr ys \<noteq> nullptr"
      using first_or_in [OF False] bseg_node [OF M(5)] by blast+
    obtain h2 where h2: "set_bprev h1 (first_or nullptr ys) q = Some h2" "bseg h2 q ys nullptr"
      "same_outside {first_or nullptr ys} h1 h2" using set_bprev_first [OF seg(2) M(8) False] by blast
    have eq: "h2 b = h1 b" if "b \<noteq> first_or nullptr ys" for b using h2(3) that by (simp add: same_outside_def)
    have "addresses ?ws \<inter> addresses ys = {}" using M(10,11) by auto
    then have "bseg h2 (last_or a ys) ?ws (first_or nullptr ys) = bseg h1 (last_or a ys) ?ws (first_or nullptr ys)"
      by (intro bseg_cong eq) (metis disjoint_iff f(1))
    moreover have "same_outside (addresses (xs @ (a, v) # ys)) h1 h2"
      by (rule same_outside_mono [OF h2(3)]) (use f(1) in auto)
    ultimately show ?thesis using h2(1,2) f(2) seg(1) last_or_nonempty [OF False, of a] by metis
  qed
qed

lemma blist_InsertAfter_at:
  assumes l: "blist_at h l (xs @ (a, v) # ys)" and new: "q \<notin> addresses (xs @ (a, v) # ys)"
    and q: "q \<noteq> nullptr" "h q = Some \<lparr>bprev = p, bnext = n, bvalue = w\<rparr>"
  shows "\<exists>h' l'. blist_InsertAfter h l a q = Some (h', l') \<and> blist_at h' l' (xs @ (a, v) # (q, w) # ys)
    \<and> same_outside (insert q (addresses (xs @ (a, v) # ys))) h h'"
proof -
  note M = blist_at_mid [OF l]
  let ?as = "xs @ (a, v) # ys" and ?ws = "xs @ [(a, v)]"
  define h1 where "h1 = h(q \<mapsto> \<lparr>bprev = a, bnext = first_or nullptr ys, bvalue = w\<rparr>)"
  obtain h2 where h2: "(if first_or nullptr ys \<noteq> nullptr then set_bprev h1 (first_or nullptr ys) q
      else set_bprev h1 (bheader l) q) = Some h2"
    "bseg h2 (last_or q ys) ?ws (first_or nullptr ys)" "bseg h2 q ys nullptr" "same_outside (addresses ?as) h1 h2"
    using relink_next_at [OF l new, of h1] unfolding h1_def by auto
  have q2: "h2 q = h1 q" using h2(4) new unfolding same_outside_def by blast
  have "distinct (map fst ?ws)" using M(7,9) by simp
  then obtain h3 where h3: "set_bnext h2 a q = Some h3" "bseg h3 (last_or q ys) ?ws q" "same_outside {a} h2 h3"
    using set_bnext_last [OF h2(2), of q] by auto
  have eq: "h3 b = h2 b" if "b \<noteq> a" for b using h3(3) that by (simp add: same_outside_def)
  have q3: "h3 q = h1 q" using eq q2 new by (metis UnI2 image_insert insertI1 fst_conv list.simps(15) set_append image_Un)
  have "bseg h3 q ys nullptr = bseg h2 q ys nullptr" by (rule bseg_cong, rule eq) (use M(10) in blast)
  then have "blist_at h3 (l\<lparr>bcount := bcount l + 1\<rparr>) (xs @ (a, v) # (q, w) # ys)"
    using l h3(2) h2(3) q3 q(1) new M(6) by (auto simp: blist_at_def h1_def)
  moreover have "blist_InsertAfter h l a q = Some (h3, l\<lparr>bcount := bcount l + 1\<rparr>)"
    using M(1,2) q h2(1) h3(1) unfolding h1_def
    by (simp add: blist_InsertAfter_def set_bprev_def [of h] set_bnext_def [of "h(_ \<mapsto> _)"] heap_simps)
  moreover have "same_outside (insert q (addresses ?as)) h h3"
  proof (rule same_outside_mono [OF same_outside_trans [OF same_outside_trans [OF _ h2(4)] h3(3)]])
    show "same_outside {q} h h1" by (simp add: h1_def same_outside_def)
    show "{q} \<union> addresses ?as \<union> {a} \<subseteq> insert q (addresses ?as)" by auto
  qed
  ultimately show ?thesis by blast
qed

end
