(* ===== verification/Deque_Spec.thy ===== *)
theory Deque_Spec
  imports Simulation
begin

text \<open>
  The specification of a double-ended queue, as the locale \<open>deque\<close>: what the operations of a
  provider do to the sequence it represents. A client that runs any sequence of operations sees
  the results the sequence has; reading the front or the back of an empty queue is undefined in
  the provider exactly when it is undefined in the specification.
\<close>

datatype 'v deque_op = Push_front 'v | Push_back 'v | Pop_front | Pop_back | Get_front | Get_back | Get_size | Clear_all

datatype 'v deque_out = Number int | Element 'v | Size nat | Cleared_all

text \<open>The reference: a list.\<close>

fun deque_step :: "'v deque_op \<Rightarrow> 'v list \<Rightarrow> ('v deque_out \<times> 'v list) option" where
  "deque_step (Push_front v) xs = Some (Number 1, v # xs)"
| "deque_step (Push_back v) xs = Some (Number 1, xs @ [v])"
| "deque_step Pop_front xs = Some (Number (if xs = [] then 0 else 1), tl xs)"
| "deque_step Pop_back xs = Some (Number (if xs = [] then 0 else 1), butlast xs)"
| "deque_step Get_front xs = (if xs = [] then None else Some (Element (hd xs), xs))"
| "deque_step Get_back xs = (if xs = [] then None else Some (Element (last xs), xs))"
| "deque_step Get_size xs = Some (Size (length xs), xs)"
| "deque_step Clear_all xs = Some (Cleared_all, [])"

text \<open>\<open>rep s xs\<close>: the state \<open>s\<close> of the provider represents the sequence \<open>xs\<close>.\<close>

locale deque =
  fixes rep :: "'s \<Rightarrow> 'v list \<Rightarrow> bool" and limit :: nat
    and push_front :: "'v \<Rightarrow> 's \<Rightarrow> (int \<times> 's) option" and push_back :: "'v \<Rightarrow> 's \<Rightarrow> (int \<times> 's) option"
    and pop_front :: "'s \<Rightarrow> (int \<times> 's) option" and pop_back :: "'s \<Rightarrow> (int \<times> 's) option"
    and front_of :: "'s \<Rightarrow> 'v option" and back_of :: "'s \<Rightarrow> 'v option"
    and count_of :: "'s \<Rightarrow> nat" and clear_all :: "'s \<Rightarrow> 's option"
  assumes push_front: "rep s xs \<Longrightarrow> \<exists>s'. push_front v s = Some (1, s') \<and> rep s' (v # xs)"
    and push_back: "rep s xs \<Longrightarrow> \<exists>s'. push_back v s = Some (1, s') \<and> rep s' (xs @ [v])"
    and pop_front: "rep s xs \<Longrightarrow> length xs < limit \<Longrightarrow>
      \<exists>s'. pop_front s = Some (if xs = [] then 0 else 1, s') \<and> rep s' (tl xs)"
    and pop_back: "rep s xs \<Longrightarrow> length xs < limit \<Longrightarrow>
      \<exists>s'. pop_back s = Some (if xs = [] then 0 else 1, s') \<and> rep s' (butlast xs)"
    and front_of: "rep s xs \<Longrightarrow> front_of s = (if xs = [] then None else Some (hd xs))"
    and back_of: "rep s xs \<Longrightarrow> back_of s = (if xs = [] then None else Some (last xs))"
    and count_of: "rep s xs \<Longrightarrow> length xs < limit \<Longrightarrow> count_of s = length xs"
    and clear_all: "rep s xs \<Longrightarrow> \<exists>s'. clear_all s = Some s' \<and> rep s' []"
begin

fun step :: "'v deque_op \<Rightarrow> 's \<Rightarrow> ('v deque_out \<times> 's) option" where
  "step (Push_front v) s = do { (r, s) \<leftarrow> push_front v s; Some (Number r, s) }"
| "step (Push_back v) s = do { (r, s) \<leftarrow> push_back v s; Some (Number r, s) }"
| "step Pop_front s = do { (r, s) \<leftarrow> pop_front s; Some (Number r, s) }"
| "step Pop_back s = do { (r, s) \<leftarrow> pop_back s; Some (Number r, s) }"
| "step Get_front s = do { v \<leftarrow> front_of s; Some (Element v, s) }"
| "step Get_back s = do { v \<leftarrow> back_of s; Some (Element v, s) }"
| "step Get_size s = Some (Size (count_of s), s)"
| "step Clear_all s = do { s \<leftarrow> clear_all s; Some (Cleared_all, s) }"

lemma step_refines:
  assumes "rep s xs" and "length xs < limit"
  shows "case deque_step op xs of
      None \<Rightarrow> step op s = None
    | Some (out, xs') \<Rightarrow> (\<exists>s'. step op s = Some (out, s') \<and> rep s' xs' \<and> length xs' \<le> Suc (length xs))"
proof (cases op)
  case (Push_front v)
  with push_front [OF assms(1), of v] show ?thesis by auto
next
  case (Push_back v)
  with push_back [OF assms(1), of v] show ?thesis by auto
next
  case Pop_front
  with pop_front [OF assms] show ?thesis by auto
next
  case Pop_back
  with pop_back [OF assms] show ?thesis by auto
next
  case Get_front
  with front_of [OF assms(1)] assms(1) show ?thesis by auto
next
  case Get_back
  with back_of [OF assms(1)] assms(1) show ?thesis by auto
next
  case Get_size
  with count_of [OF assms] assms(1) show ?thesis by auto
next
  case Clear_all
  with clear_all [OF assms(1)] show ?thesis by auto
qed

end

sublocale deque \<subseteq> runs: simulation "\<lambda>s xs n. rep s xs \<and> length xs \<le> n" limit "\<lambda>_. True" step deque_step
proof
  fix s xs op and n :: nat
  assume "rep s xs \<and> length xs \<le> n" and "n < limit"
  then have "rep s xs" and "length xs \<le> n" and "length xs < limit" by simp_all
  from step_refines [OF this(1,3), of op] this(2)
  show "case deque_step op xs of
      None \<Rightarrow> step op s = None
    | Some (out, xs') \<Rightarrow> (\<exists>s'. step op s = Some (out, s') \<and> rep s' xs' \<and> length xs' \<le> Suc n)"
    by (auto split: option.splits)
qed

context deque begin

lemma run_refines:
  assumes "rep s xs" and "length xs + length ops \<le> limit"
  shows "case run_steps deque_step ops xs of
      None \<Rightarrow> run_steps step ops s = None
    | Some (outs, xs') \<Rightarrow> (\<exists>s'. run_steps step ops s = Some (outs, s') \<and> rep s' xs')"
  using runs.run_simulates [of s xs "length xs" ops] assms by (auto simp: list_all_iff split: option.splits)

end

end
