(* ===== verification/Blist_Props.thy ===== *)
theory Blist_Props
  imports Blist_Refine Deque_Spec
begin

text \<open>
  What the refinement lemmas of the doubly linked list add up to: the list is a double-ended queue
  (an interpretation of the locale \<open>deque\<close>), nodes can be inserted and taken out anywhere, and
  the constructor from an initializer list breaks the count.
\<close>

section \<open>The list as a double-ended queue\<close>

definition blist_rep :: "'v BNode heap \<times> Blist \<Rightarrow> 'v list \<Rightarrow> bool" where
  "blist_rep s xs \<longleftrightarrow> finite (dom (fst s)) \<and> (\<exists>as. blist_at (fst s) (snd s) as \<and> map snd as = xs)"

text \<open>The operations with an allocator; results other than the state first.\<close>

definition bq_push_front :: "('v BNode heap \<Rightarrow> ptr) \<Rightarrow> 'v \<Rightarrow> 'v BNode heap \<times> Blist \<Rightarrow> (int \<times> 'v BNode heap \<times> Blist) option" where
  "bq_push_front alloc v s = blist_PushFront (fst s) (alloc (fst s)) v (snd s)"
definition bq_push_back :: "('v BNode heap \<Rightarrow> ptr) \<Rightarrow> 'v \<Rightarrow> 'v BNode heap \<times> Blist \<Rightarrow> (int \<times> 'v BNode heap \<times> Blist) option" where
  "bq_push_back alloc v s = blist_PushBack (fst s) (alloc (fst s)) v (snd s)"
definition bq_pop_front :: "'v BNode heap \<times> Blist \<Rightarrow> (int \<times> 'v BNode heap \<times> Blist) option" where
  "bq_pop_front s = blist_PopFront (fst s) (snd s)"
definition bq_pop_back :: "'v BNode heap \<times> Blist \<Rightarrow> (int \<times> 'v BNode heap \<times> Blist) option" where
  "bq_pop_back s = blist_PopBack (fst s) (snd s)"
definition bq_front :: "'v BNode heap \<times> Blist \<Rightarrow> 'v option" where "bq_front s = blist_Front (fst s) (snd s)"
definition bq_back :: "'v BNode heap \<times> Blist \<Rightarrow> 'v option" where "bq_back s = blist_Back (fst s) (snd s)"
definition bq_size :: "'v BNode heap \<times> Blist \<Rightarrow> nat" where "bq_size s = unat (blist_size (snd s))"
definition bq_clear :: "'v BNode heap \<times> Blist \<Rightarrow> ('v BNode heap \<times> Blist) option" where
  "bq_clear s = blist_Clear (fst s) (snd s)"

lemmas bq_defs = bq_push_front_def bq_push_back_def bq_pop_front_def bq_pop_back_def bq_front_def bq_back_def
  bq_size_def bq_clear_def

lemma same_outside_finite:
  "same_outside A h h' \<Longrightarrow> finite A \<Longrightarrow> finite (dom h) \<Longrightarrow> finite (dom h')"
  by (rule finite_subset [of _ "dom h \<union> A"]) (auto simp: same_outside_def dom_def)

lemma blist_repI:
  "blist_at h' l' as \<Longrightarrow> same_outside A h h' \<Longrightarrow> finite A \<Longrightarrow> finite (dom h) \<Longrightarrow> map snd as = xs \<Longrightarrow> blist_rep (h', l') xs"
  using same_outside_finite by (fastforce simp: blist_rep_def)

lemma blist_rep_at:
  assumes "blist_rep s xs" and "allocates alloc"
  obtains as where "blist_at (fst s) (snd s) as" "map snd as = xs" "finite (dom (fst s))"
    "alloc (fst s) \<noteq> nullptr" "fst s (alloc (fst s)) = None" "alloc (fst s) \<notin> addresses as"
  using assms blist_at_dom unfolding blist_rep_def allocates_def by metis

lemma created_at:
  assumes "blist_at h l as" and "q \<notin> addresses as"
  shows "blist_at (h(q \<mapsto> n)) l as"
  using assms by (subst blist_at_cong [of as _ h]) auto

lemma bq_push_front_rep:
  assumes al: "allocates alloc" and s: "blist_rep s xs"
  shows "\<exists>s'. bq_push_front alloc v s = Some (1, s') \<and> blist_rep s' (v # xs)"
proof -
  from blist_rep_at [OF s al] obtain as where as: "blist_at (fst s) (snd s) as" "map snd as = xs" "finite (dom (fst s))"
    "alloc (fst s) \<noteq> nullptr" "alloc (fst s) \<notin> addresses as" by metis
  let ?q = "alloc (fst s)" and ?h = "(fst s)(alloc (fst s) \<mapsto> \<lparr>bprev = nullptr, bnext = nullptr, bvalue = v\<rparr>)"
  obtain h' l' where p: "blist_PushFrontNode ?h ?q (snd s) = Some (1, h', l')" "blist_at h' l' ((?q, v) # as)"
    "same_outside (insert ?q (addresses as)) ?h h'"
    using PushFrontNode_at [OF created_at [OF as(1,5)] as(4) _ as(5)] by fastforce
  have "blist_rep (h', l') (v # xs)" by (rule blist_repI [OF p(2,3)]) (use as(2,3) in auto)
  then show ?thesis using p(1) as(4) by (auto simp: bq_push_front_def blist_PushFront_def CreateNode_at)
qed

lemma bq_push_back_rep:
  assumes al: "allocates alloc" and s: "blist_rep s xs"
  shows "\<exists>s'. bq_push_back alloc v s = Some (1, s') \<and> blist_rep s' (xs @ [v])"
proof -
  from blist_rep_at [OF s al] obtain as where as: "blist_at (fst s) (snd s) as" "map snd as = xs" "finite (dom (fst s))"
    "alloc (fst s) \<noteq> nullptr" "alloc (fst s) \<notin> addresses as" by metis
  let ?q = "alloc (fst s)" and ?h = "(fst s)(alloc (fst s) \<mapsto> \<lparr>bprev = nullptr, bnext = nullptr, bvalue = v\<rparr>)"
  obtain h' l' where p: "blist_PushBackNode ?h ?q (snd s) = Some (1, h', l')" "blist_at h' l' (as @ [(?q, v)])"
    "same_outside (insert ?q (addresses as)) ?h h'"
    using PushBackNode_at [OF created_at [OF as(1,5)] as(4) _ as(5)] by fastforce
  have "blist_rep (h', l') (xs @ [v])" by (rule blist_repI [OF p(2,3)]) (use as(2,3) in auto)
  then show ?thesis using p(1) as(4) by (auto simp: bq_push_back_def blist_PushBack_def CreateNode_at)
qed

lemma bq_pops_rep:
  assumes s: "blist_rep s xs" and "length xs < 2 ^ 64"
  shows "\<exists>s'. bq_pop_front s = Some (if xs = [] then 0 else 1, s') \<and> blist_rep s' (tl xs)"
    and "\<exists>s'. bq_pop_back s = Some (if xs = [] then 0 else 1, s') \<and> blist_rep s' (butlast xs)"
proof -
  from s obtain as where as: "blist_at (fst s) (snd s) as" "map snd as = xs" "finite (dom (fst s))" by (auto simp: blist_rep_def)
  with assms(2) have len: "length as < 2 ^ 64" by auto
  have nil: "as = [] \<longleftrightarrow> xs = []" and tl: "map snd (tl as) = tl xs" "map snd (butlast as) = butlast xs"
    using as(2) by (auto simp: map_tl map_butlast)
  show "\<exists>s'. bq_pop_front s = Some (if xs = [] then 0 else 1, s') \<and> blist_rep s' (tl xs)"
    using PopFront_at [OF as(1) len] blist_repI [OF _ _ _ as(3) tl(1)] unfolding bq_pop_front_def nil by blast
  show "\<exists>s'. bq_pop_back s = Some (if xs = [] then 0 else 1, s') \<and> blist_rep s' (butlast xs)"
    using PopBack_at [OF as(1) len] blist_repI [OF _ _ _ as(3) tl(2)] unfolding bq_pop_back_def nil by blast
qed

lemma blist_ends_at:
  assumes "blist_at h l as"
  shows "blist_Front h l = (if as = [] then None else Some (snd (hd as)))"
    and "blist_Back h l = (if as = [] then None else Some (snd (last as)))"
proof -
  show "blist_Front h l = (if as = [] then None else Some (snd (hd as)))"
    using assms by (cases as) (auto simp: blist_Front_def blist_at_def heap_simps)
  show "blist_Back h l = (if as = [] then None else Some (snd (last as)))"
  proof (cases as rule: rev_cases)
    case Nil
    then show ?thesis using assms by (simp add: blist_Back_def blist_at_def)
  next
    case (snoc xs x)
    then have l: "blist_at h l (xs @ (fst x, snd x) # [])" using assms by simp
    note M = blist_at_mid [OF l]
    have "\<exists>n. deref h (bheader l) = Some n \<and> bprev n = fst x"
    proof (cases xs)
      case Nil
      then show ?thesis using M(1,2,6) by (simp add: heap_simps)
    next
      case (Cons y ys)
      then show ?thesis using M(4,6) by (cases y) (auto simp: heap_simps)
    qed
    then show ?thesis using M(1,2) snoc by (auto simp: blist_Back_def heap_simps)
  qed
qed

lemma bq_others_rep:
  assumes "blist_rep s xs"
  shows "bq_front s = (if xs = [] then None else Some (hd xs))" "bq_back s = (if xs = [] then None else Some (last xs))"
    "length xs < 2 ^ 64 \<Longrightarrow> bq_size s = length xs" "\<exists>s'. bq_clear s = Some s' \<and> blist_rep s' []"
proof -
  from assms obtain as where as: "blist_at (fst s) (snd s) as" "xs = map snd as" "finite (dom (fst s))" by (auto simp: blist_rep_def)
  show "bq_front s = (if xs = [] then None else Some (hd xs))" "bq_back s = (if xs = [] then None else Some (last xs))"
    using blist_ends_at [OF as(1)] as(2) by (auto simp: bq_defs hd_map last_map)
  show "length xs < 2 ^ 64 \<Longrightarrow> bq_size s = length xs"
    using as by (simp add: bq_size_def blist_size_def blist_at_def unat_of_nat_lt)
  have "finite (dom (\<lambda>p. if p \<in> addresses as then None else fst s p))"
    by (rule finite_subset [OF _ as(3)]) (auto simp: dom_def split: if_splits)
  then show "\<exists>s'. bq_clear s = Some s' \<and> blist_rep s' []"
    using blist_Clear_at [OF as(1)] by (simp add: bq_clear_def blist_rep_def blist_at_Nil)
qed

lemma blist_deque:
  assumes "allocates alloc"
  shows "deque blist_rep (2 ^ 64) (bq_push_front alloc) (bq_push_back alloc) bq_pop_front bq_pop_back
    bq_front bq_back bq_size bq_clear"
  by unfold_locales (erule bq_push_front_rep [OF assms] bq_push_back_rep [OF assms] bq_pops_rep, assumption?
    | erule bq_others_rep, assumption?)+

interpretation bq: deque blist_rep "2 ^ 64" "bq_push_front next_address" "bq_push_back next_address"
    bq_pop_front bq_pop_back bq_front bq_back bq_size bq_clear
  by (rule blist_deque [OF next_address_allocates])

text \<open>One operation of the list, as a client calls it.\<close>

fun blist_step :: "('v BNode heap \<Rightarrow> ptr) \<Rightarrow> 'v deque_op \<Rightarrow> 'v BNode heap \<times> Blist \<Rightarrow> ('v deque_out \<times> 'v BNode heap \<times> Blist) option" where
  "blist_step alloc (Push_front v) (h, l) = do { (r, s) \<leftarrow> blist_PushFront h (alloc h) v l; Some (Number r, s) }"
| "blist_step alloc (Push_back v) (h, l) = do { (r, s) \<leftarrow> blist_PushBack h (alloc h) v l; Some (Number r, s) }"
| "blist_step alloc Pop_front (h, l) = do { (r, s) \<leftarrow> blist_PopFront h l; Some (Number r, s) }"
| "blist_step alloc Pop_back (h, l) = do { (r, s) \<leftarrow> blist_PopBack h l; Some (Number r, s) }"
| "blist_step alloc Get_front (h, l) = do { v \<leftarrow> blist_Front h l; Some (Element v, h, l) }"
| "blist_step alloc Get_back (h, l) = do { v \<leftarrow> blist_Back h l; Some (Element v, h, l) }"
| "blist_step alloc Get_size (h, l) = Some (Size (unat (blist_size l)), h, l)"
| "blist_step alloc Clear_all (h, l) = do { s \<leftarrow> blist_Clear h l; Some (Cleared_all, s) }"

lemma blist_step_eq:
  assumes "allocates alloc"
  shows "blist_step alloc = deque.step (bq_push_front alloc) (bq_push_back alloc) bq_pop_front bq_pop_back
    bq_front bq_back bq_size bq_clear"
proof (intro ext)
  fix op :: "'a deque_op" and s :: "'a BNode heap \<times> Blist"
  show "blist_step alloc op s = deque.step (bq_push_front alloc) (bq_push_back alloc) bq_pop_front bq_pop_back
    bq_front bq_back bq_size bq_clear op s"
    by (cases op; cases s) (simp_all add: deque.step.simps [OF blist_deque [OF assms]] bq_defs split: bind_splits prod.splits)
qed

section \<open>Properties\<close>

text \<open>
  C13: any sequence of at most 2^64 operations on a new \<open>Blist\<close>, pushes to and pops from both ends,
  reads of both ends, \<open>size\<close> and \<open>Clear\<close>, has the results of the sequence they stand for, and the
  links of the list that is left are those of the remaining values. It is undefined in the code
  exactly when it reads an end of an empty queue.
\<close>
theorem blist_refines_deque:
  assumes "allocates alloc" and "finite (dom h)" and "length ops \<le> 2 ^ 64"
  shows "case run_steps deque_step ops [] of
      None \<Rightarrow> run_steps (blist_step alloc) ops (h, Blist_new) = None
    | Some (outs, xs) \<Rightarrow> (\<exists>h' l' as. run_steps (blist_step alloc) ops (h, Blist_new) = Some (outs, h', l')
        \<and> blist_at h' l' as \<and> map snd as = xs)"
proof -
  have "blist_rep (h, Blist_new) []" using assms(2) by (simp add: blist_rep_def blist_at_Nil Blist_new_def)
  from deque.run_refines [OF blist_deque [OF assms(1)] this, of ops] assms(3) show ?thesis
    unfolding blist_step_eq [OF assms(1)] by (auto simp: blist_rep_def split: option.splits)
qed

theorem blist_refines_deque_witness:
  "\<exists>s. run_steps (blist_step next_address) [Push_back 1, Push_back 2, Push_front (0 :: nat), Pop_back, Get_back, Get_size, Pop_front, Get_front]
      (Map.empty, Blist_new) = Some ([Number 1, Number 1, Number 1, Number 1, Element 1, Size 2, Number 1, Element 1], s)"
proof -
  have "finite (dom (Map.empty :: nat BNode heap))" by simp
  from blist_refines_deque [OF next_address_allocates this, of "[Push_back 1, Push_back 2, Push_front 0, Pop_back, Get_back, Get_size, Pop_front, Get_front]"]
  show ?thesis by auto
qed

text \<open>
  C25: at any place of a list, \<open>InsertAfter\<close> puts a new node right behind the given one and
  \<open>Extract\<close> takes a node out, with its links cleared, such that it can be inserted again; all
  other nodes keep their order and values, cells outside the list are untouched. Without a
  position \<open>InsertAfter\<close> is undefined on every list, the empty one included.
\<close>
theorem blist_insert_extract:
  assumes "blist_at h l (xs @ (a, v) # ys)"
  shows "\<exists>h1 l1. blist_Extract h l a = Some (h1, l1) \<and> blist_at h1 l1 (xs @ ys)
      \<and> h1 a = Some \<lparr>bprev = nullptr, bnext = nullptr, bvalue = v\<rparr>
      \<and> same_outside (addresses (xs @ (a, v) # ys)) h h1
      \<and> (\<forall>us b w vs. xs @ ys = us @ (b, w) # vs \<longrightarrow>
           (\<exists>h2 l2. blist_InsertAfter h1 l1 b a = Some (h2, l2) \<and> blist_at h2 l2 (us @ (b, w) # (a, v) # vs)
             \<and> same_outside (addresses (xs @ (a, v) # ys)) h h2))
      \<and> blist_InsertAfter h1 l1 nullptr a = None"
proof -
  from blist_Extract_at [OF assms] obtain h1 l1 where e: "blist_Extract h l a = Some (h1, l1)" "blist_at h1 l1 (xs @ ys)"
    "h1 a = Some \<lparr>bprev = nullptr, bnext = nullptr, bvalue = v\<rparr>" "same_outside (addresses (xs @ (a, v) # ys)) h h1" by blast
  have a: "a \<notin> addresses (xs @ ys)" "a \<noteq> nullptr" using blist_at_mid [OF assms] by auto
  have "\<exists>h2 l2. blist_InsertAfter h1 l1 b a = Some (h2, l2) \<and> blist_at h2 l2 (us @ (b, w) # (a, v) # vs)
      \<and> same_outside (addresses (xs @ (a, v) # ys)) h h2" if "xs @ ys = us @ (b, w) # vs" for us b w vs
  proof -
    note D = that
    obtain h2 l2 where i: "blist_InsertAfter h1 l1 b a = Some (h2, l2)" "blist_at h2 l2 (us @ (b, w) # (a, v) # vs)"
      "same_outside (insert a (addresses (us @ (b, w) # vs))) h1 h2"
      using blist_InsertAfter_at [OF e(2) [unfolded D] a(1) [unfolded D] a(2) e(3)] by blast
    have eq: "insert a (addresses (us @ (b, w) # vs)) = addresses (xs @ (a, v) # ys)" unfolding D [symmetric] by auto
    have "same_outside (addresses (xs @ (a, v) # ys)) h h2"
      using same_outside_trans [OF e(4) i(3) [unfolded eq]] unfolding Un_absorb .
    with i(1,2) show ?thesis by blast
  qed
  then show ?thesis using e InsertAfter_null by blast
qed

definition demo_blist :: "nat BNode heap" where
  "demo_blist = [1 \<mapsto> \<lparr>bprev = 3, bnext = 2, bvalue = 10\<rparr>, 2 \<mapsto> \<lparr>bprev = 1, bnext = 3, bvalue = 20\<rparr>,
     3 \<mapsto> \<lparr>bprev = 2, bnext = nullptr, bvalue = 30\<rparr>]"

lemma demo_blist_at: "blist_at demo_blist \<lparr>bheader = 1, bcount = 3\<rparr> [(1, 10), (2, 20), (3, 30)]"
  by (simp add: blist_at_def demo_blist_def)

theorem blist_insert_extract_witness:
  "\<exists>h1 l1 h2 l2. blist_Extract demo_blist \<lparr>bheader = 1, bcount = 3\<rparr> 1 = Some (h1, l1)
    \<and> blist_at h1 l1 [(2, 20), (3, 30)] \<and> blist_InsertAfter h1 l1 3 1 = Some (h2, l2)
    \<and> blist_at h2 l2 [(2, 20), (3, 30), (1, 10)]"
proof -
  have "blist_at demo_blist \<lparr>bheader = 1, bcount = 3\<rparr> ([] @ (1, 10) # [(2, 20), (3, 30)])"
    unfolding append_Nil by (rule demo_blist_at)
  from blist_insert_extract [OF this] obtain h1 l1 where e: "blist_Extract demo_blist \<lparr>bheader = 1, bcount = 3\<rparr> 1 = Some (h1, l1)"
    "blist_at h1 l1 [(2, 20), (3, 30)]"
    and i: "\<forall>us b w vs. [(2, 20), (3, 30)] = us @ (b, w) # vs \<longrightarrow>
      (\<exists>h2 l2. blist_InsertAfter h1 l1 b 1 = Some (h2, l2) \<and> blist_at h2 l2 (us @ (b, w) # (1, 10) # vs)
         \<and> same_outside (addresses [(1, 10 :: nat), (2, 20), (3, 30)]) demo_blist h2)"
    unfolding append_Nil by (elim exE conjE) (rule that)
  from i [rule_format, of "[(2, 20)]" 3 30 "[]"] e show ?thesis by auto
qed

section \<open>The constructor from an initializer list\<close>

text \<open>The loop appends to the segment that is already linked.\<close>

lemma link_all_at:
  "distinct (map fst (bs @ il)) \<Longrightarrow> bs \<noteq> [] \<Longrightarrow> bseg h nullptr bs nullptr \<Longrightarrow> nullptr \<notin> addresses il \<Longrightarrow>
    \<exists>h'. blist_link_all h (last_or nullptr bs) il = Some (h', last_or nullptr (bs @ il))
      \<and> bseg h' nullptr (bs @ il) nullptr"
proof (induction il arbitrary: h bs)
  case (Cons x il)
  obtain a v where x: "x = (a, v)" by (cases x)
  let ?e = "last_or nullptr bs" and ?n = "\<lambda>p. \<lparr>bprev = p, bnext = nullptr, bvalue = v\<rparr>"
  have a: "a \<noteq> nullptr" "a \<notin> addresses bs" "distinct (map fst bs)" using Cons.prems(1,4) x by auto
  have "bseg (h(a \<mapsto> ?n nullptr)) nullptr bs nullptr" using Cons.prems(3) a(2) by simp
  then obtain h1 where h1: "set_bnext (h(a \<mapsto> ?n nullptr)) ?e a = Some h1" "bseg h1 nullptr bs a"
    "same_outside {?e} (h(a \<mapsto> ?n nullptr)) h1"
    using set_bnext_last [OF _ a(3) Cons.prems(2)] by blast
  have "?e \<noteq> a" using a(2) last_or_in [OF Cons.prems(2)] by metis
  then have "h1 a = Some (?n nullptr)" using h1(3) by (auto simp: same_outside_def)
  then have p: "set_bprev h1 a ?e = Some (h1(a \<mapsto> ?n ?e))" using a(1) by (simp add: set_bprev_def heap_simps)
  have seg: "bseg (h1(a \<mapsto> ?n ?e)) nullptr (bs @ [x]) nullptr" using h1(2) a(1,2) x by simp
  have "distinct (map fst ((bs @ [x]) @ il))" "bs @ [x] \<noteq> []" "nullptr \<notin> addresses il" using Cons.prems(1,4) by auto
  from Cons.IH [OF this(1,2) seg this(3)] obtain h' where "bseg h' nullptr (bs @ x # il) nullptr"
    "blist_link_all (h1(a \<mapsto> ?n ?e)) (last_or nullptr (bs @ [x])) il = Some (h', last_or nullptr (bs @ x # il))"
    unfolding append_assoc append_Cons append_Nil by blast
  moreover have "blist_link_all h ?e (x # il) = blist_link_all (h1(a \<mapsto> ?n ?e)) a il"
    using a(1) h1(1) p by (simp add: x CreateNode_at)
  ultimately show ?case by (simp add: x)
qed simp

text \<open>
  The constructor from an initializer list links its nodes correctly but leaves the count at 0.
  After one more push the count is 1, so the next pop takes the header for the only node: it frees
  that node, makes the list empty, and all the other nodes are lost, still allocated.
\<close>
theorem blist_initializer_uncounted:
  assumes il: "distinct (map fst il)" "nullptr \<notin> addresses il" "2 \<le> length il" and f: "fresh \<noteq> nullptr" "fresh \<notin> addresses il"
  shows "\<exists>h1 l1 h2 l2 h3. Blist_of_list h il = Some (h1, l1) \<and> blist_size l1 = 0
    \<and> blist_at h1 (l1\<lparr>bcount := of_nat (length il)\<rparr>) il
    \<and> blist_PushBack h1 fresh v l1 = Some (1, h2, l2) \<and> blist_size l2 = 1
    \<and> blist_PopFront h2 l2 = Some (1, h3, Blist_new)
    \<and> (\<forall>a \<in> insert fresh (addresses (tl il)). h3 a \<noteq> None)"
proof -
  obtain a w bs where ils: "il = (a, w) # bs" "bs \<noteq> []" using il(3) by (cases il) (auto simp: Suc_le_eq)
  let ?h0 = "h(a \<mapsto> \<lparr>bprev = nullptr, bnext = nullptr, bvalue = w\<rparr>)" and ?l1 = "\<lparr>bheader = a, bcount = 0\<rparr>"
  have a: "a \<noteq> nullptr" using il(2) ils by auto
  have "bseg ?h0 nullptr [(a, w)] nullptr" "distinct (map fst ([(a, w)] @ bs))" "nullptr \<notin> addresses bs"
    using a il(1,2) ils by auto
  then obtain hl where hl: "blist_link_all ?h0 a bs = Some (hl, last_or nullptr il)" "bseg hl nullptr il nullptr"
    using link_all_at [of "[(a, w)]" bs ?h0] ils(1) by auto
  then obtain h1 where h1: "set_bprev hl a (last_or nullptr il) = Some h1" "bseg h1 (last_or nullptr il) il nullptr"
    using set_bprev_first [OF hl(2) il(1)] ils(1) by auto
  have of: "Blist_of_list h il = Some (h1, ?l1)"
    using a ils(1) hl(1) h1(1) by (simp add: Blist_of_list_def CreateNode_at Blist_new_def)
  have l1: "blist_at h1 (?l1\<lparr>bcount := of_nat (length il)\<rparr>) il" using h1(2) il(1) ils(1) by (simp add: blist_at_def)
  let ?hf = "h1(fresh \<mapsto> \<lparr>bprev = nullptr, bnext = nullptr, bvalue = v\<rparr>)"
  have "?hf fresh = Some \<lparr>bprev = nullptr, bnext = nullptr, bvalue = v\<rparr>" by simp
  from PushBackNode_at [OF created_at [OF l1 f(2)] f(1) this f(2)] obtain h2 l2 where
    h2: "blist_PushBackNode ?hf fresh (?l1\<lparr>bcount := of_nat (length il)\<rparr>) = Some (1, h2, l2)"
    "blist_at h2 l2 (il @ [(fresh, v)])" by blast
  have "blist_PushBackNode ?hf fresh ?l1 = Some (1, h2, \<lparr>bheader = a, bcount = 1\<rparr>)"
    using h2(1) a by (auto simp: blist_PushBackNode_def PRE_PUSH_def blist_empty_def not_over_max split: bind_splits if_splits)
  then have push: "blist_PushBack h1 fresh v ?l1 = Some (1, h2, \<lparr>bheader = a, bcount = 1\<rparr>)"
    using f(1) by (simp add: blist_PushBack_def CreateNode_at)
  have dom: "h2 b \<noteq> None" if "b \<in> addresses (il @ [(fresh, v)])" for b using blist_at_dom [OF h2(2) that] by simp
  have "h2 a \<noteq> None" using dom [of a] ils by simp
  then have pop: "blist_PopFront h2 \<lparr>bheader = a, bcount = 1\<rparr> = Some (1, h2(a := None), Blist_new)"
    using a by (auto simp: blist_PopFront_def PRE_POP_def blist_empty_def DropNode_at Blist_new_def)
  have "(h2(a := None)) b \<noteq> None" if "b \<in> insert fresh (addresses (tl il))" for b
    using that dom [of b] il(1) f(2) ils by auto
  with of l1 push pop show ?thesis unfolding blist_size_def
    by (intro exI [of _ h1] exI [of _ ?l1] exI [of _ h2] exI [of _ "\<lparr>bheader = a, bcount = 1\<rparr>"] exI [of _ "h2(a := None)"]) simp
qed

theorem blist_initializer_uncounted_witness:
  "\<exists>h1 l1 h2 l2 h3. Blist_of_list Map.empty [(1, 10), (2, 20 :: nat)] = Some (h1, l1)
    \<and> blist_PushBack h1 3 30 l1 = Some (1, h2, l2) \<and> blist_PopFront h2 l2 = Some (1, h3, Blist_new)
    \<and> h3 2 \<noteq> None \<and> h3 3 \<noteq> None"
proof -
  from blist_initializer_uncounted [of "[(1, 10), (2, 20 :: nat)]" 3 Map.empty 30]
  obtain h1 l1 h2 l2 h3 where "Blist_of_list Map.empty [(1, 10), (2, 20 :: nat)] = Some (h1, l1)"
    "blist_PushBack h1 3 30 l1 = Some (1, h2, l2)" "blist_PopFront h2 l2 = Some (1, h3, Blist_new)"
    "\<forall>a \<in> {3, 2}. h3 a \<noteq> None" by auto
  then show ?thesis by blast
qed

end
