(* ===== verification/Tree_Hash_Inv.thy ===== *)
theory Tree_Hash_Inv
  imports Tree_Bucket Avl_Reuse Hash_Table_Inv
begin

text \<open>
  The buckets of a \<open>TreeHashTable\<close> as a forest on one heap, and the table as the \<open>HashTable\<close> whose
  buckets are the lists of the values of the trees: the invariant and the arithmetic of the
  indices, the masks and the count are the ones of \<open>Hash_Table_Inv\<close>.
\<close>

section \<open>Forests\<close>

definition forest_nodes :: "ptr atree list \<Rightarrow> ptr set" where
  "forest_nodes ts = set (concat (map inord ts))"

definition forest :: "('k \<Rightarrow> 'k \<Rightarrow> int) \<Rightarrow> ('v \<Rightarrow> 'k) \<Rightarrow> 'v AvlNode heap \<Rightarrow> ptr list \<Rightarrow> ptr atree list \<Rightarrow> bool" where
  "forest cmp gk h rs ts \<longleftrightarrow> list_all2 (\<lambda>r t. tree_inv cmp gk (tree_of h r) t) rs ts \<and> distinct (concat (map inord ts))"

text \<open>The values of a tree on the heap.\<close>

definition hvals :: "'v AvlNode heap \<Rightarrow> ptr atree \<Rightarrow> 'v list" where
  "hvals h t = map (\<lambda>a. node_value (the (h a))) (inord t)"

lemma tree_of_simps [simp]: "nodes (tree_of h r) = h" "root (tree_of h r) = r"
  by (simp_all add: tree_of_def)

lemma value_tree_of: "value_at (tree_of h r) a = node_value (the (h a))"
  by (simp add: value_at_def)

lemma vals_hvals: "vals s t = hvals (nodes s) t"
  by (simp add: vals_def hvals_def value_at_def)

lemma hvals_Tip [simp]: "hvals h Tip = []"
  by (simp add: hvals_def)

lemma hvals_cong: "(\<And>a. a \<in> set (inord t) \<Longrightarrow> h' a = h a) \<Longrightarrow> hvals h' t = hvals h t"
  by (simp add: hvals_def)

lemma forest_nodes_simps [simp]:
  "forest_nodes [] = {}" "forest_nodes (t # ts) = set (inord t) \<union> forest_nodes ts"
  "forest_nodes (us @ ts) = forest_nodes us \<union> forest_nodes ts"
  by (simp_all add: forest_nodes_def)

lemma forest_nodes_mem: "t \<in> set ts \<Longrightarrow> set (inord t) \<subseteq> forest_nodes ts"
  by (auto simp: forest_nodes_def)

lemma forest_length: "forest cmp gk h rs ts \<Longrightarrow> length rs = length ts"
  unfolding forest_def by (blast dest: list_all2_lengthD)

lemma forest_Cons [simp]:
  "forest cmp gk h (r # rs) (t # ts) \<longleftrightarrow>
     tree_inv cmp gk (tree_of h r) t \<and> forest cmp gk h rs ts \<and> set (inord t) \<inter> forest_nodes ts = {}"
  by (auto simp: forest_def forest_nodes_def tree_inv_def dest: rooted_distinct)

lemma forest_Nil [simp]: "forest cmp gk h [] []" "forest cmp gk h rs [] \<longleftrightarrow> rs = []" "forest cmp gk h [] ts \<longleftrightarrow> ts = []"
  by (auto simp: forest_def)

lemma forest_append:
  "length rs = length ts \<Longrightarrow> forest cmp gk h (rs @ rs') (ts @ ts') \<longleftrightarrow>
     forest cmp gk h rs ts \<and> forest cmp gk h rs' ts' \<and> forest_nodes ts \<inter> forest_nodes ts' = {}"
  by (induction rs ts rule: list_induct2) auto

lemma forest_frame:
  assumes "forest cmp gk h rs ts" and "\<And>a. a \<in> forest_nodes ts \<Longrightarrow> h' a = h a"
  shows "forest cmp gk h' rs ts" and "map (hvals h') ts = map (hvals h) ts"
proof -
  have "tree_inv cmp gk (tree_of h' r) t" if "tree_inv cmp gk (tree_of h r) t" "t \<in> set ts" for r t
    using that assms(2) forest_nodes_mem [of t ts] by (intro tree_inv_cong(1) [OF that(1)]) auto
  then show "forest cmp gk h' rs ts"
    using assms(1) by (auto simp: forest_def list_all2_conv_all_nth)
  show "map (hvals h') ts = map (hvals h) ts"
    using assms(2) forest_nodes_mem by (auto intro!: hvals_cong)
qed

lemma forest_replicate: "forest cmp gk h (replicate n nullptr) (replicate n Tip)"
  by (induction n) (simp_all add: tree_inv_Tip)

lemma forest_nodes_replicate [simp]: "forest_nodes (replicate n Tip) = {}"
  by (induction n) simp_all

lemma forest_at:
  assumes "forest cmp gk h rs ts" and "i < length ts"
  shows "tree_inv cmp gk (tree_of h (rs ! i)) (ts ! i)"
  using assms by (auto simp: forest_def list_all2_conv_all_nth)

lemma forest_nodes_exist: "forest cmp gk h rs ts \<Longrightarrow> a \<in> forest_nodes ts \<Longrightarrow> a \<noteq> nullptr \<and> h a \<noteq> None"
proof -
  assume F: "forest cmp gk h rs ts" and "a \<in> forest_nodes ts"
  then obtain t where "t \<in> set ts" "a \<in> set (inord t)" by (auto simp: forest_nodes_def)
  then obtain i where i: "i < length ts" "a \<in> set (inord (ts ! i))" by (metis in_set_conv_nth)
  with forest_at [OF F i(1)] rooted_nodes [of "tree_of h (rs ! i)" "ts ! i" a] show ?thesis by (simp add: tree_inv_def)
qed

text \<open>
  An operation on one tree that writes nodes of this tree and new ones (\<open>N\<close>) only.
\<close>

lemma forest_update:
  assumes F: "forest cmp gk h rs ts" and i: "i < length ts" and inv: "tree_inv cmp gk (tree_of h' r') t'"
    and sub: "set (inord t') \<subseteq> N \<union> set (inord (ts ! i))" and N: "N \<inter> forest_nodes ts \<subseteq> set (inord (ts ! i))"
    and fr: "\<And>a. a \<notin> N \<union> set (inord (ts ! i)) \<Longrightarrow> h' a = h a"
  shows "forest cmp gk h' (rs[i := r']) (ts[i := t'])"
    and "map (hvals h') (ts[i := t']) = (map (hvals h) ts)[i := hvals h' t']"
    and "forest_nodes (ts[i := t']) = (forest_nodes ts - set (inord (ts ! i))) \<union> set (inord t')"
proof -
  note len = forest_length [OF F]
  let ?rs = "take i rs" and ?rs' = "drop (Suc i) rs" and ?ts = "take i ts" and ?ts' = "drop (Suc i) ts"
  have e: "rs = ?rs @ rs ! i # ?rs'" "ts = ?ts @ ts ! i # ?ts'" using i len by (simp_all add: id_take_nth_drop)
  have u: "rs[i := r'] = ?rs @ r' # ?rs'" "ts[i := t'] = ?ts @ t' # ?ts'" using i len by (simp_all add: upd_conv_take_nth_drop)
  have l: "length ?rs = length ?ts" using len by simp
  from F have F': "forest cmp gk h ?rs ?ts" "forest cmp gk h ?rs' ?ts'" "forest_nodes ?ts \<inter> set (inord (ts ! i)) = {}"
    "forest_nodes ?ts \<inter> forest_nodes ?ts' = {}" "set (inord (ts ! i)) \<inter> forest_nodes ?ts' = {}"
    by (subst (asm) e(1), subst (asm) e(2), simp add: forest_append [OF l] Int_Un_distrib)+
  have ns: "forest_nodes ts = forest_nodes ?ts \<union> set (inord (ts ! i)) \<union> forest_nodes ?ts'" by (subst e(2)) auto
  have d: "N \<inter> forest_nodes ?ts = {}" "N \<inter> forest_nodes ?ts' = {}" using N F'(3,5) unfolding ns by blast+
  have fr1: "h' a = h a" if "a \<in> forest_nodes ?ts" for a using that d(1) F'(3) by (intro fr) blast
  have fr2: "h' a = h a" if "a \<in> forest_nodes ?ts'" for a using that d(2) F'(5) by (intro fr) blast
  note f1 = forest_frame [where h' = h', OF F'(1) fr1] and f2 = forest_frame [where h' = h', OF F'(2) fr2]
  have "set (inord t') \<inter> forest_nodes ?ts = {}" "set (inord t') \<inter> forest_nodes ?ts' = {}" using sub d F'(3,5) by blast+
  then show "forest cmp gk h' (rs[i := r']) (ts[i := t'])"
    unfolding u using f1(1) f2(1) inv F'(4) by (simp add: forest_append [OF l] Int_Un_distrib) blast
  show "map (hvals h') (ts[i := t']) = (map (hvals h) ts)[i := hvals h' t']"
    unfolding u using f1(2) f2(2) i by (simp add: upd_conv_take_nth_drop take_map drop_map)
  show "forest_nodes (ts[i := t']) = (forest_nodes ts - set (inord (ts ! i))) \<union> set (inord t')"
    unfolding u ns using F'(3,5) by auto
qed

text \<open>Destroying buckets frees their nodes.\<close>

lemma bucket_destroy_ok:
  assumes "tree_inv cmp gk (tree_of h r) t"
  shows "bucket_destroy h r = Some (h |` (- set (inord t)))"
  using Clear_at [of "tree_of h r" t] assms by (auto simp: bucket_destroy_def tree_inv_def)

lemma destroy_buckets_ok:
  "forest cmp gk h rs ts \<Longrightarrow> destroy_buckets h rs = Some (h |` (- forest_nodes ts))"
proof (induction rs arbitrary: h ts)
  case Nil
  then show ?case by simp
next
  case (Cons r rs)
  then obtain t ts' where ts: "ts = t # ts'" by (cases ts) auto
  from Cons.prems have F: "tree_inv cmp gk (tree_of h r) t" "forest cmp gk h rs ts'" "set (inord t) \<inter> forest_nodes ts' = {}"
    by (simp_all add: ts)
  have "forest cmp gk (h |` (- set (inord t))) rs ts'"
    by (rule forest_frame(1) [OF F(2)]) (use F(3) in \<open>auto simp: restrict_map_def\<close>)
  from Cons.IH [OF this] bucket_destroy_ok [OF F(1)] show ?case
    by (simp add: ts Int_commute)
qed

end
