(* ===== verification/Tree_Hash_Rehash.thy ===== *)
theory Tree_Hash_Rehash
  imports Tree_Hash_Inv
begin

text \<open>
  The abstraction of a \<open>TreeHashTable\<close> and its rehash: growing the second table, and moving the
  nodes of a bucket with \<open>ReuseAllNodes\<close>, whose callback is an instance of \<open>node_sink\<close>.
\<close>

section \<open>The table of the values\<close>

definition abs_table :: "'v AvlNode heap \<Rightarrow> TreeTable \<Rightarrow> ptr atree list \<Rightarrow> 'v Table" where
  "abs_table h t ts = \<lparr>table = map (hvals h) ts, used = tt_used t, size_mask = tt_mask t\<rparr>"

definition tht_abs :: "'v TreeHashTable \<Rightarrow> ptr atree list \<Rightarrow> ptr atree list \<Rightarrow> 'v HashTable" where
  "tht_abs tb ts1 ts2 = \<lparr>table1 = abs_table (tree_nodes tb) (ttable1 tb) ts1,
     table2 = abs_table (tree_nodes tb) (ttable2 tb) ts2, rehash_move_bucket_index = tree_move_index tb\<rparr>"

definition tht_rel :: "('k \<Rightarrow> 'k \<Rightarrow> int) \<Rightarrow> ('v \<Rightarrow> 'k) \<Rightarrow> 'v TreeHashTable \<Rightarrow> ptr atree list \<Rightarrow> ptr atree list \<Rightarrow> bool" where
  "tht_rel cmp gk tb ts1 ts2 \<longleftrightarrow> length (buckets (ttable1 tb)) = length ts1 \<and> length (buckets (ttable2 tb)) = length ts2
     \<and> forest cmp gk (tree_nodes tb) (buckets (ttable1 tb)) ts1 \<and> forest cmp gk (tree_nodes tb) (buckets (ttable2 tb)) ts2
     \<and> forest_nodes ts1 \<inter> forest_nodes ts2 = {}"

lemma abs_table_simps [simp]:
  "table (abs_table h t ts) = map (hvals h) ts" "used (abs_table h t ts) = tt_used t" "size_mask (abs_table h t ts) = tt_mask t"
  by (simp_all add: abs_table_def)

lemma tht_abs_simps [simp]:
  "table1 (tht_abs tb ts1 ts2) = abs_table (tree_nodes tb) (ttable1 tb) ts1"
  "table2 (tht_abs tb ts1 ts2) = abs_table (tree_nodes tb) (ttable2 tb) ts2"
  "rehash_move_bucket_index (tht_abs tb ts1 ts2) = tree_move_index tb"
  "InRehashing (tht_abs tb ts1 ts2) = tree_InRehashing tb"
  by (simp_all add: tht_abs_def InRehashing_def tree_InRehashing_def)

lemma tht_abs_second:
  "(tht_abs tb ts1 ts2)\<lparr>table2 := abs_table (tree_nodes tb) t2 ts, rehash_move_bucket_index := m\<rparr>
    = tht_abs (tb\<lparr>ttable2 := t2, tree_move_index := m\<rparr>) ts1 ts"
  by (simp add: tht_abs_def)

lemma bucket_index_abs [simp]: "bucket_index (abs_table h t ts) hash_val = tree_bucket_index t hash_val"
  by (simp add: bucket_index_def tree_bucket_index_def)

lemma Table_size_abs: "length (buckets t) = length ts \<Longrightarrow> Table_size (abs_table h t ts) = TreeTable_size t"
  by (simp add: Table_size_def TreeTable_size_def)

lemma root_set_simps [simp]:
  "buckets (root_set t i r) = (buckets t)[unat i := r]" "tt_used (root_set t i r) = tt_used t" "tt_mask (root_set t i r) = tt_mask t"
  by (simp_all add: root_set_def)

text \<open>Replacing one bucket.\<close>

lemma abs_table_set:
  assumes "map (hvals h') ts' = (map (hvals h) ts)[unat i := s]"
  shows "abs_table h' (root_set t i r) ts' = table_set (abs_table h t ts) i s"
  using assms by (simp add: abs_table_def table_set_def)

lemma abs_table_cong:
  "map (hvals h') ts = map (hvals h) ts \<Longrightarrow> abs_table h' t ts = abs_table h t ts"
  by (simp add: abs_table_def)

section \<open>Growing\<close>

lemma Grow_abs:
  assumes "length (buckets t) = length ts"
  shows "Table_Grow ok n (abs_table h t ts) =
    map_sum id (\<lambda>t'. abs_table h t' (ts @ replicate (length (buckets t') - length ts) Tip)) (TreeTable_Grow ok n t)"
  using assms unfolding Table_Grow_def TreeTable_Grow_def Table_size_abs [OF assms] by (simp add: abs_table_def)

lemma Grow_forest:
  assumes "TreeTable_Grow ok n t = Inr t'" and "forest cmp gk h (buckets t) ts"
  shows "forest cmp gk h (buckets t') (ts @ replicate (length (buckets t') - length ts) Tip)"
  using assms forest_length [OF assms(2)] forest_replicate [of cmp gk h]
  by (auto simp: TreeTable_Grow_def forest_append split: if_splits)

lemma tree_Rehash_abs:
  assumes "tht_rel cmp gk tb ts1 ts2"
  shows "Rehash ok (tht_abs tb ts1 ts2) =
      map_sum id (\<lambda>tb'. tht_abs tb' ts1 (ts2 @ replicate (length (buckets (ttable2 tb')) - length ts2) Tip)) (tree_Rehash ok tb)"
    and "tree_Rehash ok tb = Inr tb' \<Longrightarrow> tree_nodes tb' = tree_nodes tb
      \<and> tht_rel cmp gk tb' ts1 (ts2 @ replicate (length (buckets (ttable2 tb')) - length ts2) Tip)"
proof -
  from assms have l: "length (buckets (ttable1 tb)) = length ts1" "length (buckets (ttable2 tb)) = length ts2"
    by (simp_all add: tht_rel_def)
  note G = Grow_abs [OF l(2), of ok "push_bit 1 (TreeTable_size (ttable1 tb))" "tree_nodes tb"]
  show "Rehash ok (tht_abs tb ts1 ts2) =
      map_sum id (\<lambda>tb'. tht_abs tb' ts1 (ts2 @ replicate (length (buckets (ttable2 tb')) - length ts2) Tip)) (tree_Rehash ok tb)"
    using G l by (cases "TreeTable_Grow ok (push_bit 1 (TreeTable_size (ttable1 tb))) (ttable2 tb)")
      (simp_all add: Rehash_def tree_Rehash_def Table_size_abs tht_abs_second)
  assume r: "tree_Rehash ok tb = Inr tb'"
  show "tree_nodes tb' = tree_nodes tb
      \<and> tht_rel cmp gk tb' ts1 (ts2 @ replicate (length (buckets (ttable2 tb')) - length ts2) Tip)"
  proof (cases "\<not> tree_InRehashing tb \<and> tt_used (ttable1 tb) \<ge> TreeTable_size (ttable1 tb)")
    case False
    with r assms l show ?thesis by (auto simp: tree_Rehash_def)
  next
    case True
    with r obtain t2 where t2: "TreeTable_Grow ok (push_bit 1 (TreeTable_size (ttable1 tb))) (ttable2 tb) = Inr t2"
      "tb' = tb\<lparr>ttable2 := t2, tree_move_index := 0\<rparr>" by (auto simp: tree_Rehash_def split: sum.splits)
    have "forest cmp gk (tree_nodes tb) (buckets (ttable2 tb)) ts2" using assms by (simp add: tht_rel_def)
    from Grow_forest [OF t2(1) this] show ?thesis using assms t2(2) by (auto simp: tht_rel_def dest: forest_length)
  qed
qed

section \<open>Moving a bucket\<close>

text \<open>
  While the nodes \<open>A\<close> of a bucket move, the second table holds its own nodes \<open>S\<close> and the nodes
  \<open>D\<close> that have moved; \<open>E\<close> are the values of both together.
\<close>

definition moving ::
    "('k \<Rightarrow> u64) \<Rightarrow> ('k \<Rightarrow> 'k \<Rightarrow> int) \<Rightarrow> ('v \<Rightarrow> 'k) \<Rightarrow> (ptr \<Rightarrow> 'v) \<Rightarrow> ptr set \<Rightarrow> ptr set \<Rightarrow> 'v multiset \<Rightarrow> 'v AvlNode heap \<Rightarrow>
      nat \<Rightarrow> size_t \<Rightarrow> ptr set \<Rightarrow> 'v AvlNode heap \<Rightarrow> TreeTable \<Rightarrow> bool" where
  "moving HF cmp gk val A S E h0 n u D h t2 \<longleftrightarrow>
     comparator cmp \<and> unique_keys gk E \<and> finite A \<and> D \<subseteq> A \<and> S \<inter> A = {} \<and> (\<forall>b. b \<notin> A \<union> S \<longrightarrow> h b = h0 b)
     \<and> (\<exists>ts2. forest cmp gk h (buckets t2) ts2 \<and> forest_nodes ts2 = S \<union> D \<and> table_ok HF gk (abs_table h t2 ts2)
        \<and> length (buckets t2) = n \<and> tt_used t2 = u
        \<and> image_mset val (mset_set (A - D)) + slots_entries (abs_table h t2 ts2) = E)"

lemma moving_frame:
  assumes m: "moving HF cmp gk val A S E h0 n u D h t2" and fr: "\<And>b. b \<notin> A - D \<Longrightarrow> h' b = h b"
  shows "moving HF cmp gk val A S E h0 n u D h' t2"
proof -
  from m obtain ts2 where F: "forest cmp gk h (buckets t2) ts2" and T: "forest_nodes ts2 = S \<union> D"
    "table_ok HF gk (abs_table h t2 ts2)" "length (buckets t2) = n" "tt_used t2 = u"
    "image_mset val (mset_set (A - D)) + slots_entries (abs_table h t2 ts2) = E" by (auto simp: moving_def)
  from m have D: "D \<subseteq> A" "S \<inter> A = {}" "\<forall>b. b \<notin> A \<union> S \<longrightarrow> h b = h0 b" by (simp_all add: moving_def)
  have e: "h' a = h a" if "a \<in> forest_nodes ts2" for a using that T(1) D(2) by (intro fr) blast
  note F' = forest_frame [where h' = h', OF F e]
  have "\<forall>b. b \<notin> A \<union> S \<longrightarrow> h' b = h0 b" using D(3) fr by simp
  then show ?thesis using m F'(1) T abs_table_cong [OF F'(2), of t2] unfolding moving_def by metis
qed

lemma mset_set_take: "finite A \<Longrightarrow> a \<in> A - D \<Longrightarrow> mset_set (A - D) = add_mset a (mset_set (A - insert a D))"
proof -
  assume "finite A" and a: "a \<in> A - D"
  have "A - D = insert a (A - insert a D)" using a by blast
  then show ?thesis using \<open>finite A\<close> by (metis Diff_iff finite_Diff insertI1 mset_set.insert)
qed

lemma slots_entries_bucket:
  "i < length (table t) \<Longrightarrow> v \<in> set (table t ! i) \<Longrightarrow> v \<in># slots_entries t"
  by (auto simp: slots_entries_def in_slots_mset)

lemma moving_step:
  assumes m: "moving HF cmp gk val A S E h0 n u D h t2" and a: "a \<in> A - D" and nd: "h a = Some nd" "node_value nd = val a"
    and nn: "a \<noteq> nullptr" "left nd = nullptr" "right nd = nullptr" "parent nd = nullptr" "height nd = 0"
  shows "\<exists>h' t2'. push_moved HF cmp gk a h t2 = Some (h', t2') \<and> moving HF cmp gk val A S E h0 n u (insert a D) h' t2'
    \<and> (\<forall>b \<in> A - insert a D. h' b = h b)"
proof -
  from m obtain ts2 where F: "forest cmp gk h (buckets t2) ts2" and T: "forest_nodes ts2 = S \<union> D"
    "table_ok HF gk (abs_table h t2 ts2)" "length (buckets t2) = n" "tt_used t2 = u"
    "image_mset val (mset_set (A - D)) + slots_entries (abs_table h t2 ts2) = E" by (auto simp: moving_def)
  from m have c: "comparator cmp" and uk: "unique_keys gk E" and fin: "finite A" and D: "D \<subseteq> A" "S \<inter> A = {}"
    and out: "\<forall>b. b \<notin> A \<union> S \<longrightarrow> h b = h0 b" by (simp_all add: moving_def)
  let ?i = "tree_bucket_index t2 (HF (gk (val a)))"
  note ix = table_ok_index [OF T(2), of "HF (gk (val a))"]
  have i: "unat ?i < length ts2" using ix by simp
  let ?r = "buckets t2 ! unat ?i" and ?t = "ts2 ! unat ?i" and ?s = "tree_of h (buckets t2 ! unat ?i)"
  have at: "root_at t2 ?i = Some ?r" using i forest_length [OF F] by (simp add: root_at_def)
  have inv: "tree_inv cmp gk ?s ?t" by (rule forest_at [OF F i])
  have aS: "a \<notin> forest_nodes ts2" using T(1) a D(2) by blast
  then have at': "a \<notin> set (inord ?t)" using forest_nodes_mem [of ?t ts2] i by auto
  have e: "E = add_mset (val a) (image_mset val (mset_set (A - insert a D)) + slots_entries (abs_table h t2 ts2))"
    using T(5) mset_set_take [OF fin a] by simp
  have kfa: "kf gk ?s a = gk (val a)" using nd by (simp add: kf_def value_at_def)
  have "gk (val a) \<notin> gk ` set (vals ?s ?t)"
  proof
    assume "gk (val a) \<in> gk ` set (vals ?s ?t)"
    then obtain w where w: "w \<in> set (hvals h ?t)" "gk w = gk (val a)" by (auto simp: vals_hvals)
    then have "w \<in># slots_entries (abs_table h t2 ts2)" using i by (intro slots_entries_bucket [of "unat ?i"]) auto
    then show False using uk w(2) unfolding e by (auto simp: unique_keys_add)
  qed
  then have new: "kf gk ?s a \<notin> gk ` set (vals ?s ?t)" by (simp only: kfa) simp
  obtain b x t' where p: "t_push cmp (kf gk ?s) a 0 ?t = ((b, x), t')" by (metis prod.exhaust)
  from inv have rt: "rooted ?s ?t" "nn ?t" by (simp_all add: tree_inv_def)
  obtain s' where s': "avl_PushWithDuplicate cmp gk ?s a False = Some ((b, report False x), s')" "pushed ?s a ?t b t' s'"
    using PushWithDuplicate_at [where n = nd and cmp = cmp and gk = gk and want = False, OF rt nn(1) at' _ nn(2,3) _ nn(4)] nd nn(5) p
    by auto
  have q: "nodes ?s a \<noteq> None" using nd by simp
  note P = bucket_pushed [OF c inv q _ new p s'(2)]
  have h': "nodes s' b = h b" if "b \<notin> {a} \<union> set (inord ?t)" for b using P(6) that by simp
  have "tree_of (nodes s') (root s') = s'\<lparr>tree_count := 0\<rparr>" by (simp add: tree_of_def)
  then have inv': "tree_inv cmp gk (tree_of (nodes s') (root s')) t'"
    using tree_inv_cong(1) [OF P(3), of "tree_of (nodes s') (root s')"] by simp
  have sub: "set (inord t') \<subseteq> {a} \<union> set (inord ?t)" and N: "{a} \<inter> forest_nodes ts2 \<subseteq> set (inord ?t)"
    using P(5) aS by auto
  note U = forest_update [OF F i inv' sub N h']
  let ?t2 = "root_set t2 ?i (root s')" and ?ts = "ts2[unat ?i := t']"
  note A = abs_table_set [OF U(2), of t2 "root s'"]
  have mv: "mset (hvals (nodes s') t') = add_mset (val a) (mset (hvals h ?t))"
    using P(4) nd by (simp add: vals_hvals value_at_def)
  have "push_moved HF cmp gk a h t2 = Some (nodes s', ?t2)"
    using nd nn(1) at s'(1) by (simp add: push_moved_def deref_def avl_Push_def Let_def)
  moreover have "moving HF cmp gk val A S E h0 n u (insert a D) (nodes s') ?t2"
  proof -
    have tb: "table (abs_table h t2 ts2) ! unat ?i = hvals h ?t" using i by simp
    have il: "unat ?i < length (table (abs_table h t2 ts2))" using i by simp
    have "set (hvals (nodes s') t') = insert (val a) (set (hvals h ?t))"
      using mv by (metis set_mset_add_mset_insert set_mset_mset)
    then have "table_ok HF gk (table_set (abs_table h t2 ts2) ?i (hvals (nodes s') t'))"
      using hashedD [OF table_ok_hashed [OF T(2)] il] ix(1) i by (intro table_ok_set [OF T(2)]) auto
    moreover have "slots_entries (table_set (abs_table h t2 ts2) ?i (hvals (nodes s') t'))
        = add_mset (val a) (slots_entries (abs_table h t2 ts2))"
      using mv by (intro slots_entries_set [OF il]) (simp only: tb)
    moreover have "forest_nodes ?ts = S \<union> insert a D" using U(3) P(5) T(1) forest_nodes_mem [of ?t ts2] i by auto
    moreover have "\<forall>b. b \<notin> A \<union> S \<longrightarrow> nodes s' b = h0 b"
    proof (intro allI impI)
      fix b assume b: "b \<notin> A \<union> S"
      then have "b \<notin> forest_nodes ts2" "b \<noteq> a" using T(1) D(1) a by blast+
      then have "nodes s' b = h b" using forest_nodes_mem [of ?t ts2] i by (intro h') auto
      then show "nodes s' b = h0 b" using out b by simp
    qed
    ultimately show ?thesis
      unfolding moving_def using c uk fin D a U(1) A T(3,4) e by (intro conjI exI [of _ ?ts]) auto
  qed
  moreover have "\<forall>b \<in> A - insert a D. nodes s' b = h b"
  proof
    fix b assume b: "b \<in> A - insert a D"
    then have "b \<notin> forest_nodes ts2" using T(1) D(2) by blast
    then show "nodes s' b = h b" using b forest_nodes_mem [of ?t ts2] i by (intro h') auto
  qed
  ultimately show ?thesis by blast
qed

interpretation moving: node_sink "push_moved HF cmp gk" val A "moving HF cmp gk val A S E h0 n u"
  for HF :: "'k \<Rightarrow> u64" and cmp :: "'k \<Rightarrow> 'k \<Rightarrow> int" and gk :: "'v \<Rightarrow> 'k" and val :: "ptr \<Rightarrow> 'v" and A S E h0 n u
  by unfold_locales (blast intro: moving_frame moving_step)+

end
