(* ===== verification/Tree_Hash_Ops.thy ===== *)
theory Tree_Hash_Ops
  imports Tree_Hash_Rehash Hash_Table_Ops
begin

text \<open>
  The operations of \<open>TreeHashTable\<close> keep the invariant and do to the entries what those of a map do:
  the incremental rehash, insertion, search, removal, clearing.
\<close>

section \<open>The invariant\<close>

definition tht_ok ::
    "('k \<Rightarrow> u64) \<Rightarrow> ('k \<Rightarrow> 'k \<Rightarrow> int) \<Rightarrow> ('v \<Rightarrow> 'k) \<Rightarrow> 'v TreeHashTable \<Rightarrow> ptr atree list \<Rightarrow> ptr atree list \<Rightarrow> bool" where
  "tht_ok HF cmp gk tb ts1 ts2 \<longleftrightarrow> comparator cmp \<and> tht_rel cmp gk tb ts1 ts2 \<and> ht_inv HF gk (tht_abs tb ts1 ts2)"

definition tht_entries :: "'v TreeHashTable \<Rightarrow> ptr atree list \<Rightarrow> ptr atree list \<Rightarrow> 'v multiset" where
  "tht_entries tb ts1 ts2 = entries (tht_abs tb ts1 ts2)"

lemma all_values:
  fixes tb :: "'v TreeHashTable"
  shows "mset (map (\<lambda>a. node_value (the (tree_nodes tb a))) (concat (map inord ts1) @ concat (map inord ts2))) = tht_entries tb ts1 ts2"
proof -
  have "mset (map (\<lambda>a. node_value (the (h a))) (concat (map inord ts))) = slots_mset (\<lambda>b. b) (map (hvals h) ts)"
    for h :: "'v AvlNode heap" and ts
    by (induction ts) (simp_all add: hvals_def)
  then show ?thesis by (simp add: tht_entries_def entries_def slots_entries_def)
qed

section \<open>The incremental rehash\<close>

text \<open>Outside a rehash the mask of the second table does not matter.\<close>

lemma ht_inv_mask:
  assumes "InRehashing tab \<longrightarrow> m = size_mask (table2 tab)"
  defines "tab' \<equiv> tab\<lparr>table2 := (table2 tab)\<lparr>size_mask := m\<rparr>\<rparr>"
  shows "ht_inv HF GK tab' \<longleftrightarrow> ht_inv HF GK tab" and "entries tab' = entries tab" and "room tab' = room tab" and "InRehashing tab' = InRehashing tab"
proof -
  show r: "InRehashing tab' = InRehashing tab" by (simp add: tab'_def InRehashing_def)
  show e: "entries tab' = entries tab" by (simp add: tab'_def entries_def slots_entries_def)
  show m: "room tab' = room tab" unfolding room_def r by (simp add: tab'_def)
  show "ht_inv HF GK tab' \<longleftrightarrow> ht_inv HF GK tab"
  proof (cases "InRehashing tab")
    case True
    then have "tab' = tab" using assms(1) by (simp add: tab'_def)
    then show ?thesis by simp
  next
    case False
    then show ?thesis unfolding ht_inv_def e m r by (simp add: tab'_def)
  qed
qed

lemma tree_finish_ok:
  fixes tb :: "'v TreeHashTable"
  assumes rel: "tht_rel cmp gk tb ts1 ts2" and small: "length ts1 < 2 ^ 64"
    and moved: "tree_move_index tb = TreeTable_size (ttable1 tb) \<Longrightarrow> forest_nodes ts1 = {}"
  shows "\<exists>tb' ts1' ts2' m. tree_finish_rehash tb = Some tb' \<and> tht_rel cmp gk tb' ts1' ts2' \<and> tree_nodes tb' = tree_nodes tb
    \<and> tht_abs tb' ts1' ts2' = (finish_rehash (tht_abs tb ts1 ts2))\<lparr>table2 :=
         (table2 (finish_rehash (tht_abs tb ts1 ts2)))\<lparr>size_mask := m\<rparr>\<rparr>
    \<and> (InRehashing (finish_rehash (tht_abs tb ts1 ts2)) \<longrightarrow> m = size_mask (table2 (finish_rehash (tht_abs tb ts1 ts2))))"
proof -
  from rel have l: "length (buckets (ttable1 tb)) = length ts1" "length (buckets (ttable2 tb)) = length ts2"
    and F: "forest cmp gk (tree_nodes tb) (buckets (ttable1 tb)) ts1" "forest cmp gk (tree_nodes tb) (buckets (ttable2 tb)) ts2"
    by (simp_all add: tht_rel_def)
  let ?tab = "tht_abs tb ts1 ts2"
  have sz: "Table_size (abs_table (tree_nodes tb) (ttable1 tb) ts1) = TreeTable_size (ttable1 tb)" by (simp add: Table_size_abs l)
  have ne: "buckets (ttable2 tb) \<noteq> [] \<longleftrightarrow> ts2 \<noteq> []" using l(2) by auto
  consider "tree_move_index tb \<noteq> TreeTable_size (ttable1 tb)"
    | "tree_move_index tb = TreeTable_size (ttable1 tb)" "ts2 = []"
    | "tree_move_index tb = TreeTable_size (ttable1 tb)" "ts2 \<noteq> []" by blast
  then show ?thesis
  proof cases
    case 1
    then have "tree_finish_rehash tb = Some tb" "finish_rehash ?tab = ?tab" by (simp_all add: tree_finish_rehash_def finish_rehash_def sz)
    then show ?thesis using rel by (intro exI [of _ tb] exI [of _ ts1] exI [of _ ts2] exI [of _ "tt_mask (ttable2 tb)"]) simp
  next
    case 2
    let ?tb = "tb\<lparr>tree_move_index := 0 - 1\<rparr>"
    have "tree_finish_rehash tb = Some ?tb" using 2 ne by (simp add: tree_finish_rehash_def)
    moreover have "finish_rehash ?tab = tht_abs ?tb ts1 ts2"
      using 2 by (simp add: finish_rehash_def sz Let_def tht_abs_def)
    moreover have "tht_rel cmp gk ?tb ts1 ts2" using rel by (simp add: tht_rel_def)
    ultimately show ?thesis
      by (intro exI [of _ ?tb] exI [of _ ts1] exI [of _ ts2] exI [of _ "tt_mask (ttable2 tb)"]) simp
  next
    case 3
    let ?t1 = "(ttable1 tb)\<lparr>buckets := buckets (ttable2 tb), tt_mask := tt_mask (ttable2 tb)\<rparr>"
    let ?t2 = "(ttable2 tb)\<lparr>buckets := [], tt_mask := tt_mask (ttable1 tb)\<rparr>"
    let ?tb = "tb\<lparr>tree_move_index := 0 - 1, ttable1 := ?t1, ttable2 := ?t2\<rparr>"
    have "destroy_buckets (tree_nodes tb) (buckets (ttable1 tb)) = Some (tree_nodes tb)"
      using destroy_buckets_ok [OF F(1)] moved [OF 3(1)] by (simp add: restrict_map_def)
    then have "tree_finish_rehash tb = Some ?tb" using 3 ne
      by (simp add: tree_finish_rehash_def TreeTable_swap_def TreeTable_Reset_def Let_def)
    moreover have "tht_rel cmp gk ?tb ts2 []" using F l by (simp add: tht_rel_def)
    moreover have "finish_rehash ?tab = \<lparr>table1 = abs_table (tree_nodes tb) ?t1 ts2,
        table2 = Table_Reset ((table2 ?tab)\<lparr>table := table (table1 ?tab), size_mask := size_mask (table1 ?tab)\<rparr>),
        rehash_move_bucket_index = 0 - 1\<rparr>"
      using 3 by (simp add: finish_rehash_def sz Let_def Table_swap_def)
    moreover have "table (Table_Reset (t\<lparr>table := xs, size_mask := m\<rparr>)) = [] \<and> used (Table_Reset (t\<lparr>table := xs, size_mask := m\<rparr>)) = used t"
      if "length xs < 2 ^ 64" for t :: "'v Table" and xs m
      using Table_Reset_simps [of "t\<lparr>table := xs, size_mask := m\<rparr>"] that by (simp add: Table_Reset_def Table_cut_def)
    then have "table (Table_Reset ((table2 ?tab)\<lparr>table := table (table1 ?tab), size_mask := size_mask (table1 ?tab)\<rparr>)) = []"
      "used (Table_Reset ((table2 ?tab)\<lparr>table := table (table1 ?tab), size_mask := size_mask (table1 ?tab)\<rparr>)) = tt_used (ttable2 tb)"
      using small by simp_all
    ultimately have "tree_finish_rehash tb = Some ?tb" "tht_rel cmp gk ?tb ts2 []" "\<not> InRehashing (finish_rehash ?tab)"
      "tht_abs ?tb ts2 [] = (finish_rehash ?tab)\<lparr>table2 := (table2 (finish_rehash ?tab))\<lparr>size_mask := tt_mask (ttable1 tb)\<rparr>\<rparr>"
      by (simp_all add: InRehashing_def tht_abs_def abs_table_def)
    then show ?thesis by (intro exI [of _ ?tb] exI [of _ ts2] exI [of _ "[]"] exI [of _ "tt_mask (ttable1 tb)"]) simp
  qed
qed

text \<open>The nodes of a bucket go to the second table.\<close>

lemma Tip_iff_hvals: "hvals h t = [] \<longleftrightarrow> inord t = []"
  by (simp add: hvals_def)

lemma move_nodes_ok:
  assumes ok: "tht_ok HF cmp gk tb ts1 ts2" and i: "unat i < length ts1" and re: "tree_InRehashing tb"
  shows "\<exists>h' t2' ts2' s. root_at (ttable1 tb) i = Some (buckets (ttable1 tb) ! unat i)
    \<and> ReuseAllNodes (push_moved HF cmp gk) (tree_of (tree_nodes tb) (buckets (ttable1 tb) ! unat i)) (ttable2 tb) = Some (t2', s)
    \<and> nodes s = h' \<and> root s = nullptr
    \<and> forest cmp gk h' ((buckets (ttable1 tb))[unat i := nullptr]) (ts1[unat i := Tip]) \<and> forest cmp gk h' (buckets t2') ts2'
    \<and> forest_nodes (ts1[unat i := Tip]) \<inter> forest_nodes ts2' = {}
    \<and> map (hvals h') (ts1[unat i := Tip]) = (map (hvals (tree_nodes tb)) ts1)[unat i := []]
    \<and> table_ok HF gk (abs_table h' t2' ts2') \<and> length ts2' = length ts2 \<and> length (buckets t2') = length ts2
    \<and> slots_entries (abs_table h' t2' ts2') = mset (hvals (tree_nodes tb) (ts1 ! unat i)) + slots_entries (abs_table (tree_nodes tb) (ttable2 tb) ts2)
    \<and> dom h' = dom (tree_nodes tb)"
proof -
  let ?h = "tree_nodes tb" and ?t = "ts1 ! unat i" and ?r = "buckets (ttable1 tb) ! unat i"
  from ok have c: "comparator cmp" and inv: "ht_inv HF gk (tht_abs tb ts1 ts2)"
    and l: "length (buckets (ttable1 tb)) = length ts1" "length (buckets (ttable2 tb)) = length ts2"
    and F1: "forest cmp gk ?h (buckets (ttable1 tb)) ts1" and F2: "forest cmp gk ?h (buckets (ttable2 tb)) ts2"
    and dj: "forest_nodes ts1 \<inter> forest_nodes ts2 = {}" by (simp_all add: tht_ok_def tht_rel_def)
  from inv re have ok2: "table_ok HF gk (abs_table ?h (ttable2 tb) ts2)" by (simp add: ht_inv_def)
  let ?A = "set (inord ?t)" and ?S = "forest_nodes ts2" and ?val = "\<lambda>a. node_value (the (?h a))"
  let ?E = "mset (hvals ?h ?t) + slots_entries (abs_table ?h (ttable2 tb) ts2)"
  have tinv: "tree_inv cmp gk (tree_of ?h ?r) ?t" by (rule forest_at [OF F1 i])
  then have rt: "rooted (tree_of ?h ?r) ?t" by (simp add: tree_inv_def)
  have A: "?A \<subseteq> forest_nodes ts1" using i by (intro forest_nodes_mem) simp
  have em: "image_mset ?val (mset_set ?A) = mset (hvals ?h ?t)"
    using rooted_distinct [OF rt] by (simp add: hvals_def mset_set_set)
  have "mset (hvals ?h ?t) + slots_entries (table_set (abs_table ?h (ttable1 tb) ts1) i []) = slots_entries (abs_table ?h (ttable1 tb) ts1)"
    using slots_entries_clear [of i "abs_table ?h (ttable1 tb) ts1"] i by simp
  then have eE: "entries (tht_abs tb ts1 ts2) = ?E + slots_entries (table_set (abs_table ?h (ttable1 tb) ts1) i [])"
    by (simp add: entries_def ac_simps)
  have "unique_keys gk (entries (tht_abs tb ts1 ts2))" using inv by (simp add: ht_inv_def)
  then have uk: "unique_keys gk ?E" unfolding eE by (rule unique_keys_union(1))
  have "moving HF cmp gk ?val ?A ?S ?E ?h (length ts2) (tt_used (ttable2 tb)) {} ?h (ttable2 tb)"
    unfolding moving_def using c uk A dj F2 ok2 l(2) em by (intro conjI exI [of _ ts2]) auto
  then obtain t2' s where R: "ReuseAllNodes (push_moved HF cmp gk) (tree_of ?h ?r) (ttable2 tb) = Some (t2', s)" "root s = nullptr"
    "moving HF cmp gk ?val ?A ?S ?E ?h (length ts2) (tt_used (ttable2 tb)) ?A (nodes s) t2'"
    using moving.hand_out [OF rt refl, of ?val HF cmp gk ?S ?E ?h "length ts2" "tt_used (ttable2 tb)" "ttable2 tb"]
    by (auto simp: value_at_def)
  let ?h' = "nodes s"
  from R(3) obtain ts2' where T: "forest cmp gk ?h' (buckets t2') ts2'" "forest_nodes ts2' = ?S \<union> ?A"
    "table_ok HF gk (abs_table ?h' t2' ts2')" "length (buckets t2') = length ts2" "slots_entries (abs_table ?h' t2' ts2') = ?E"
    and out: "\<forall>b. b \<notin> ?A \<union> ?S \<longrightarrow> ?h' b = ?h b" by (auto simp: moving_def)
  have Tip: "tree_inv cmp gk (tree_of ?h' nullptr) Tip" by (simp add: tree_inv_Tip)
  have N: "?S \<inter> forest_nodes ts1 \<subseteq> ?A" "set (inord Tip) \<subseteq> ?S \<union> ?A" using dj by auto
  have fr: "?h' a = ?h a" if "a \<notin> ?S \<union> ?A" for a using out that by blast
  note U = forest_update [OF F1 i Tip N(2,1) fr]
  have dom: "dom ?h' = dom ?h"
  proof (rule set_eqI)
    fix b
    show "b \<in> dom ?h' \<longleftrightarrow> b \<in> dom ?h"
    proof (cases "b \<in> ?S \<union> ?A")
      case True
      then have "?h' b \<noteq> None" using forest_nodes_exist [OF T(1), of b] T(2) by blast
      moreover have "?h b \<noteq> None" using True forest_nodes_exist [OF F1, of b] forest_nodes_exist [OF F2, of b] A by blast
      ultimately show ?thesis by blast
    qed (simp add: fr dom_def)
  qed
  have "length ts2' = length ts2" using forest_length [OF T(1)] T(4) by simp
  moreover have "forest_nodes (ts1[unat i := Tip]) \<inter> forest_nodes ts2' = {}" using U(3) T(2) dj by auto
  moreover have "root_at (ttable1 tb) i = Some ?r" using i l by (simp add: root_at_def)
  ultimately show ?thesis using R(1,2) U(1,2) T(1,3-5) dom
    by (intro exI [of _ "nodes s"] exI [of _ t2'] exI [of _ ts2'] exI [of _ s]) simp
qed

definition tht_room :: "'v TreeHashTable \<Rightarrow> nat" where
  "tht_room tb = length (buckets (ttable1 tb)) + (if tree_InRehashing tb then unat (tree_move_index tb) else 0)"

lemma room_abs: "tht_rel cmp gk tb ts1 ts2 \<Longrightarrow> room (tht_abs tb ts1 ts2) = tht_room tb"
  by (simp add: room_def tht_room_def tht_rel_def)

lemma tree_IncrementalRehash_ok:
  assumes ok: "tht_ok HF cmp gk tb ts1 ts2"
  shows "\<exists>tb' ts1' ts2'. tree_IncrementalRehash HF cmp gk tb = Some tb' \<and> tht_ok HF cmp gk tb' ts1' ts2'
    \<and> tht_entries tb' ts1' ts2' = tht_entries tb ts1 ts2 \<and> dom (tree_nodes tb') = dom (tree_nodes tb)
    \<and> tht_room tb' = (if tree_InRehashing tb then Suc (tht_room tb) else tht_room tb)"
proof (cases "tree_InRehashing tb")
  case False
  with ok show ?thesis by (intro exI [of _ tb] exI [of _ ts1] exI [of _ ts2]) (simp add: tree_IncrementalRehash_def)
next
  case re: True
  let ?i = "tree_move_index tb" and ?tab = "tht_abs tb ts1 ts2"
  from ok have c: "comparator cmp" and rel: "tht_rel cmp gk tb ts1 ts2" and inv: "ht_inv HF gk ?tab" by (simp_all add: tht_ok_def)
  from rel have l: "length (buckets (ttable1 tb)) = length ts1" by (simp add: tht_rel_def)
  from inv re have i: "unat ?i < length ts1" and n2: "length ts2 = 2 * length ts1"
    and empty: "\<forall>j < unat ?i. inord (ts1 ! j) = []" by (auto simp: ht_inv_def Tip_iff_hvals)
  from ht_inv_bounds(3) [OF inv] have nn: "length ts1 \<le> 2 ^ 60" by simp
  note inc = word_inc [OF i nn]
  from move_nodes_ok [OF ok i re] obtain t2' ts2' s where M: "root_at (ttable1 tb) ?i = Some (buckets (ttable1 tb) ! unat ?i)"
    "ReuseAllNodes (push_moved HF cmp gk) (tree_of (tree_nodes tb) (buckets (ttable1 tb) ! unat ?i)) (ttable2 tb) = Some (t2', s)"
    "root s = nullptr"
    "forest cmp gk (nodes s) ((buckets (ttable1 tb))[unat ?i := nullptr]) (ts1[unat ?i := Tip])" "forest cmp gk (nodes s) (buckets t2') ts2'"
    "forest_nodes (ts1[unat ?i := Tip]) \<inter> forest_nodes ts2' = {}"
    "map (hvals (nodes s)) (ts1[unat ?i := Tip]) = (map (hvals (tree_nodes tb)) ts1)[unat ?i := []]"
    "table_ok HF gk (abs_table (nodes s) t2' ts2')" "length ts2' = length ts2" "length (buckets t2') = length ts2"
    "slots_entries (abs_table (nodes s) t2' ts2') = mset (hvals (tree_nodes tb) (ts1 ! unat ?i)) + slots_entries (abs_table (tree_nodes tb) (ttable2 tb) ts2)"
    "dom (nodes s) = dom (tree_nodes tb)" by blast
  let ?tb = "tb\<lparr>tree_nodes := nodes s, ttable1 := root_set (ttable1 tb) ?i nullptr, ttable2 := t2', tree_move_index := ?i + 1\<rparr>"
  let ?ts = "ts1[unat ?i := Tip]"
  have rel': "tht_rel cmp gk ?tb ?ts ts2'" using M l by (simp add: tht_rel_def)
  have tab': "tht_abs ?tb ?ts ts2' = ?tab\<lparr>table1 := table_set (table1 ?tab) ?i [], table2 := abs_table (nodes s) t2' ts2',
      rehash_move_bucket_index := ?i + 1\<rparr>"
    using abs_table_set [OF M(7)] by (simp add: tht_abs_def)
  have fin: "finish_rehash (tht_abs ?tb ?ts ts2') = rehash_step (abs_table (nodes s) t2' ts2') ?tab"
    unfolding rehash_step_def tab' by simp
  have moved: "forest_nodes ?ts = {}" if "tree_move_index ?tb = TreeTable_size (ttable1 ?tb)"
  proof -
    have "unat (of_nat (length ts1) :: size_t) = length ts1" using nn by (intro unat_of_nat_lt) simp
    moreover have "unat (?i + 1) = unat (of_nat (length ts1) :: size_t)" using that l by (simp add: TreeTable_size_def)
    ultimately have "Suc (unat ?i) = length ts1" using inc by simp
    then have "inord (?ts ! j) = []" if "j < length ts1" for j using empty that by (auto simp: nth_list_update)
    then show ?thesis by (auto simp: forest_nodes_def in_set_conv_nth)
  qed
  have "length ?ts < 2 ^ 64" using nn by simp
  from tree_finish_ok [OF rel' this moved] obtain tb' ts1' ts2'' m where T: "tree_finish_rehash ?tb = Some tb'"
    "tht_rel cmp gk tb' ts1' ts2''" "tree_nodes tb' = tree_nodes ?tb"
    "tht_abs tb' ts1' ts2'' = (rehash_step (abs_table (nodes s) t2' ts2') ?tab)\<lparr>table2 :=
       (table2 (rehash_step (abs_table (nodes s) t2' ts2') ?tab))\<lparr>size_mask := m\<rparr>\<rparr>"
    "InRehashing (rehash_step (abs_table (nodes s) t2' ts2') ?tab) \<longrightarrow> m = size_mask (table2 (rehash_step (abs_table (nodes s) t2' ts2') ?tab))"
    unfolding fin by blast
  let ?st = "rehash_step (abs_table (nodes s) t2' ts2') ?tab"
  have "ht_inv HF gk ?st \<and> entries ?st = entries ?tab \<and> room ?st = Suc (room ?tab)"
    using M(8,9,11) n2 re i by (intro rehash_step_ok [OF inv]) simp_all
  then have st: "ht_inv HF gk ?st" "entries ?st = entries ?tab" "room ?st = Suc (room ?tab)" by blast+
  note mk = ht_inv_mask [OF T(5)]
  have "ht_inv HF gk (tht_abs tb' ts1' ts2'')" unfolding T(4) mk(1) by (rule st(1))
  moreover have "entries (tht_abs tb' ts1' ts2'') = entries ?tab" unfolding T(4) mk(2) by (rule st(2))
  moreover have "room (tht_abs tb' ts1' ts2'') = Suc (room ?tab)" unfolding T(4) mk(3) by (rule st(3))
  moreover have "tree_IncrementalRehash HF cmp gk tb = Some tb'"
    using re M(1-3) T(1) by (simp add: tree_IncrementalRehash_def Let_def)
  moreover have "dom (tree_nodes tb') = dom (tree_nodes tb)" using T(3) M(12) by simp
  ultimately show ?thesis using T(2) c re room_abs [OF rel] room_abs [OF T(2)]
    by (intro exI [of _ tb'] exI [of _ ts1'] exI [of _ ts2'']) (simp add: tht_ok_def tht_entries_def)
qed

text \<open>Growing and the step, as insertion does them.\<close>

lemma tree_prepare_ok:
  assumes ok: "tht_ok HF cmp gk tb ts1 ts2" and small: "size (tht_entries tb ts1 ts2) < 2 ^ 60"
  shows "(\<not> mem \<and> tree_Rehash mem tb = Inl bad_alloc)
    \<or> (\<exists>tb1 tb' ts1' ts2'. tree_Rehash mem tb = Inr tb1 \<and> tree_IncrementalRehash HF cmp gk tb1 = Some tb'
      \<and> tht_ok HF cmp gk tb' ts1' ts2' \<and> tht_entries tb' ts1' ts2' = tht_entries tb ts1 ts2
      \<and> dom (tree_nodes tb') = dom (tree_nodes tb) \<and> size (tht_entries tb' ts1' ts2') < tht_room tb')"
proof -
  from ok have c: "comparator cmp" and rel: "tht_rel cmp gk tb ts1 ts2" and inv: "ht_inv HF gk (tht_abs tb ts1 ts2)"
    by (simp_all add: tht_ok_def)
  have small': "size (entries (tht_abs tb ts1 ts2)) < 2 ^ 60" using small by (simp add: tht_entries_def)
  note R = Rehash_cases [OF inv small', of mem, unfolded tree_Rehash_abs(1) [OF rel]]
  show ?thesis
  proof (cases "tree_Rehash mem tb")
    case (Inl e)
    then show ?thesis using R by (cases e) simp
  next
    case (Inr tb1)
    let ?ts2 = "ts2 @ replicate (length (buckets (ttable2 tb1)) - length ts2) Tip"
    from R [unfolded Inr map_sum.simps sum.case tht_abs_simps] have 1: "ht_inv HF gk (tht_abs tb1 ts1 ?ts2)" "entries (tht_abs tb1 ts1 ?ts2) = entries (tht_abs tb ts1 ts2)"
      "tree_InRehashing tb1 \<or> size (entries (tht_abs tb1 ts1 ?ts2)) < room (tht_abs tb1 ts1 ?ts2)" by blast+
    from tree_Rehash_abs(2) [OF rel Inr] have 2: "tree_nodes tb1 = tree_nodes tb" "tht_rel cmp gk tb1 ts1 ?ts2" by simp_all
    have ok1: "tht_ok HF cmp gk tb1 ts1 ?ts2" using c 1(1) 2(2) by (simp add: tht_ok_def)
    have le: "size (entries (tht_abs tb1 ts1 ?ts2)) \<le> tht_room tb1" using 1(1) room_abs [OF 2(2)] by (simp add: ht_inv_def)
    from tree_IncrementalRehash_ok [OF ok1] obtain tb' ts1' ts2' where 3: "tree_IncrementalRehash HF cmp gk tb1 = Some tb'"
      "tht_ok HF cmp gk tb' ts1' ts2'" "tht_entries tb' ts1' ts2' = tht_entries tb1 ts1 ?ts2"
      "dom (tree_nodes tb') = dom (tree_nodes tb1)"
      "tht_room tb' = (if tree_InRehashing tb1 then Suc (tht_room tb1) else tht_room tb1)" by blast
    have "size (tht_entries tb' ts1' ts2') < tht_room tb'"
      using 3(3,5) 1(3) le room_abs [OF 2(2)] by (auto simp: tht_entries_def)
    then show ?thesis using Inr 1(2) 2(1) 3
      by (intro disjI2 exI [of _ tb1] exI [of _ tb'] exI [of _ ts1'] exI [of _ ts2']) (simp add: tht_entries_def)
  qed
qed

end
