(* ===== verification/Tree_Hash_Update.thy ===== *)
theory Tree_Hash_Update
  imports Tree_Hash_Ops
begin

text \<open>
  Changing one bucket of a \<open>TreeHashTable\<close>: the effect on the invariant and on the entries of a
  bucket that gains or loses an entry, and insertion, search, extraction and clearing.
\<close>

section \<open>One bucket of the table of values\<close>

definition tbl :: "bool \<Rightarrow> 'v HashTable \<Rightarrow> 'v Table" where
  "tbl second tab = (if second then table2 tab else table1 tab)"

definition put :: "bool \<Rightarrow> size_t \<Rightarrow> 'v list \<Rightarrow> size_t \<Rightarrow> 'v HashTable \<Rightarrow> 'v HashTable" where
  "put second i s n tab =
     (if second then tab\<lparr>table1 := (table1 tab)\<lparr>used := n\<rparr>, table2 := table_set (table2 tab) i s\<rparr>
      else tab\<lparr>table1 := (table_set (table1 tab) i s)\<lparr>used := n\<rparr>\<rparr>)"

lemma slots_entries_used [simp]: "slots_entries (t\<lparr>used := n\<rparr>) = slots_entries t"
  by (simp add: slots_entries_def)

lemma table_ok_used [simp]: "table_ok HF GK (t\<lparr>used := n\<rparr>) \<longleftrightarrow> table_ok HF GK t"
  by (simp add: table_ok_def Table_size_def)

lemma entries_put:
  "entries (put second i s n tab) = slots_entries (table_set (tbl second tab) i s) + slots_entries (tbl (\<not> second) tab)"
  by (simp add: put_def entries_def tbl_def add.commute)

lemma entries_tbl: "entries tab = slots_entries (tbl second tab) + slots_entries (tbl (\<not> second) tab)"
  by (simp add: entries_def tbl_def add.commute)

lemma tbl_ok: "ht_inv HF GK tab \<Longrightarrow> (second \<longrightarrow> InRehashing tab) \<Longrightarrow> table_ok HF GK (tbl second tab)"
  by (cases second) (simp_all add: tbl_def ht_inv_def)

lemma tbl_unique: "ht_inv HF GK tab \<Longrightarrow> unique_keys GK (slots_entries (tbl second tab))"
  by (cases second) (simp_all add: tbl_def ht_map_cases)

text \<open>A new entry in its bucket.\<close>

lemma ht_inv_gain:
  assumes inv: "ht_inv HF GK tab" and sz: "size (entries tab) < room tab" and new: "ht_map GK tab (GK v) = None"
    and sec: "second \<longrightarrow> InRehashing tab" and fst: "\<not> second \<and> InRehashing tab \<longrightarrow> \<not> i < rehash_move_bucket_index tab"
    and i: "i = bucket_index (tbl second tab) (HF (GK v))"
    and s: "mset s = add_mset v (mset (table (tbl second tab) ! unat i))"
  shows "ht_inv HF GK (put second i s (used (table1 tab) + 1) tab)"
    and "entries (put second i s (used (table1 tab) + 1) tab) = add_mset v (entries tab)"
proof -
  let ?t = "tbl second tab" and ?new = "put second i s (used (table1 tab) + 1) tab"
  note ok = tbl_ok [OF inv sec]
  note ix = table_ok_index [OF ok, of "HF (GK v)", folded i]
  have st: "set s = insert v (set (table ?t ! unat i))" using s by (metis set_mset_add_mset_insert set_mset_mset)
  have ok': "table_ok HF GK (table_set ?t i s)"
    using hashedD [OF table_ok_hashed [OF ok] ix(2)] ix(1) by (intro table_ok_set [OF ok]) (auto simp: st)
  show e: "entries ?new = add_mset v (entries tab)"
    unfolding entries_put entries_tbl [of tab second] using slots_entries_set [OF ix(2) s] by simp
  have r: "InRehashing ?new = InRehashing tab" by (simp add: put_def InRehashing_def)
  have m: "room ?new = room tab" unfolding room_def r by (simp add: put_def)
  have uk: "unique_keys GK (entries ?new)"
    using inv new unfolding e by (auto simp: unique_keys_add ht_inv_def ht_map_def entry_map_None)
  have us: "unat (used (table1 ?new)) = size (entries ?new)"
    using used_inc [OF inv sz] e by (simp add: put_def)
  have le: "size (entries ?new) \<le> room ?new" using sz e m by simp
  show "ht_inv HF GK ?new"
  proof (cases second)
    case True
    then show ?thesis using inv uk us le r ok' sec unfolding ht_inv_def by (simp add: put_def tbl_def)
  next
    case False
    have "\<forall>j < unat (rehash_move_bucket_index tab). (table (table1 tab))[unat i := s] ! j = []" if "InRehashing tab"
    proof (intro allI impI)
      fix j assume "j < unat (rehash_move_bucket_index tab)"
      moreover have "\<not> i < rehash_move_bucket_index tab" using fst False that by simp
      ultimately show "(table (table1 tab))[unat i := s] ! j = []"
        using inv that by (auto simp: ht_inv_def word_less_nat_alt nth_list_update)
    qed
    then show ?thesis using False inv uk us le r ok' unfolding ht_inv_def by (simp add: put_def tbl_def)
  qed
qed

text \<open>A bucket that loses an entry.\<close>

lemma ht_inv_lose:
  assumes inv: "ht_inv HF GK tab" and sec: "second \<longrightarrow> InRehashing tab" and i: "unat i < length (table (tbl second tab))"
    and s: "mset (table (tbl second tab) ! unat i) = add_mset v (mset s)"
  shows "ht_inv HF GK (put second i s (used (table1 tab) - 1) tab)"
    and "entries tab = add_mset v (entries (put second i s (used (table1 tab) - 1) tab))"
proof -
  let ?t = "tbl second tab" and ?new = "put second i s (used (table1 tab) - 1) tab"
  note ok = tbl_ok [OF inv sec]
  have r: "slots_entries ?t = add_mset v (slots_entries (table_set ?t i s))"
    unfolding slots_entries_def table_set_simps by (rule slots_mset_remove) (use i s in simp_all)
  show e: "entries tab = add_mset v (entries ?new)" unfolding entries_put entries_tbl [of tab second] r by simp
  have st: "set (table ?t ! unat i) = insert v (set s)" using s by (metis set_mset_add_mset_insert set_mset_mset)
  have ok': "table_ok HF GK (table_set ?t i s)"
    using hashedD [OF table_ok_hashed [OF ok] i] by (intro table_ok_set [OF ok]) (auto simp: st)
  have u: "unat (used (table1 tab) - 1) = size (entries ?new)" by (rule used_dec [OF inv e])
  have sub: "entries ?new \<subseteq># entries tab" using e by simp
  show "ht_inv HF GK ?new"
  proof (cases second)
    case True
    then show ?thesis using ht_inv_set2 [OF inv mp [OF sec True], of i s "used (table1 tab) - 1"] ok' sub u
      by (simp add: entries_put) (simp add: tbl_def put_def add.commute)
  next
    case False
    have "table (table1 tab) ! unat i \<noteq> []" using st False by (auto simp: tbl_def)
    then show ?thesis using ht_inv_set1 [OF inv, of i s "used (table1 tab) - 1"] ok' sub u i False
      by (simp add: entries_put) (simp add: tbl_def put_def)
  qed
qed

section \<open>One tree\<close>

definition trees :: "bool \<Rightarrow> ptr atree list \<Rightarrow> ptr atree list \<Rightarrow> ptr atree list" where
  "trees second ts1 ts2 = (if second then ts2 else ts1)"

definition with_bucket :: "bool \<Rightarrow> size_t \<Rightarrow> 'v avl \<Rightarrow> 'v TreeHashTable \<Rightarrow> 'v TreeHashTable" where
  "with_bucket second i s tb = set_ttable second (root_set (ttable second tb) i (root s)) (tb\<lparr>tree_nodes := nodes s\<rparr>)"

lemma on_bucket_eq:
  "root_at (ttable second tb) i = Some r \<Longrightarrow>
     on_bucket second i f tb = do { (x, s) \<leftarrow> f (tree_of (tree_nodes tb) r); Some (x, with_bucket second i s tb) }"
  by (simp add: on_bucket_def with_bucket_def)

lemma with_bucket_simps [simp]:
  "tree_nodes (with_bucket second i s tb) = nodes s" "tree_move_index (with_bucket second i s tb) = tree_move_index tb"
  "tt_used (ttable1 (with_bucket second i s tb)) = tt_used (ttable1 tb)"
  by (simp_all add: with_bucket_def set_ttable_def ttable_def)

lemma with_bucket_same:
  "root_at (ttable second tb) i = Some r \<Longrightarrow> with_bucket second i (tree_of (tree_nodes tb) r) tb = tb"
  by (cases second) (auto simp: with_bucket_def set_ttable_def ttable_def root_set_def root_at_def split: if_splits)

lemma tbl_abs: "tbl second (tht_abs tb ts1 ts2) = abs_table (tree_nodes tb) (ttable second tb) (trees second ts1 ts2)"
  by (simp add: tbl_def ttable_def trees_def)

lemma index_in_abs: "index_in second tb hash_val = bucket_index (tbl second (tht_abs tb ts1 ts2)) hash_val"
  by (simp add: index_in_def tbl_abs)

lemma tht_rel_tbl:
  assumes "tht_rel cmp gk tb ts1 ts2"
  shows "length (buckets (ttable second tb)) = length (trees second ts1 ts2)"
    and "forest cmp gk (tree_nodes tb) (buckets (ttable second tb)) (trees second ts1 ts2)"
  using assms by (simp_all add: tht_rel_def ttable_def trees_def)

lemma bucket_changed:
  assumes rel: "tht_rel cmp gk tb ts1 ts2" and i: "unat i < length (trees second ts1 ts2)" and inv: "tree_inv cmp gk s' t'"
    and sub: "set (inord t') \<subseteq> N \<union> set (inord (trees second ts1 ts2 ! unat i))"
    and N: "N \<inter> (forest_nodes ts1 \<union> forest_nodes ts2) \<subseteq> set (inord (trees second ts1 ts2 ! unat i))"
    and fr: "\<And>a. a \<notin> N \<union> set (inord (trees second ts1 ts2 ! unat i)) \<Longrightarrow> nodes s' a = tree_nodes tb a"
  defines "ts1' \<equiv> if second then ts1 else ts1[unat i := t']" and "ts2' \<equiv> if second then ts2[unat i := t'] else ts2"
  shows "tht_rel cmp gk (with_bucket second i s' tb) ts1' ts2'
    \<and> tht_abs (with_bucket second i s' tb) ts1' ts2' = put second i (hvals (nodes s') t') (tt_used (ttable1 tb)) (tht_abs tb ts1 ts2)
    \<and> forest_nodes ts1' \<union> forest_nodes ts2' =
        (forest_nodes ts1 \<union> forest_nodes ts2 - set (inord (trees second ts1 ts2 ! unat i))) \<union> set (inord t')"
proof -
  from rel have l: "length (buckets (ttable1 tb)) = length ts1" "length (buckets (ttable2 tb)) = length ts2"
    and F1: "forest cmp gk (tree_nodes tb) (buckets (ttable1 tb)) ts1" and F2: "forest cmp gk (tree_nodes tb) (buckets (ttable2 tb)) ts2"
    and dj: "forest_nodes ts1 \<inter> forest_nodes ts2 = {}" by (simp_all add: tht_rel_def)
  have inv': "tree_inv cmp gk (tree_of (nodes s') (root s')) t'" by (rule tree_inv_cong(1) [OF inv]) simp_all
  show ?thesis
  proof (cases second)
    case True
    have i2: "unat i < length ts2" and sub2: "set (inord t') \<subseteq> N \<union> set (inord (ts2 ! unat i))"
      and N2: "N \<inter> forest_nodes ts2 \<subseteq> set (inord (ts2 ! unat i))" and fr2: "\<And>a. a \<notin> N \<union> set (inord (ts2 ! unat i)) \<Longrightarrow> nodes s' a = tree_nodes tb a"
      using i sub N fr True by (auto simp: trees_def)
    note U = forest_update [OF F2 i2 inv' sub2 N2 fr2]
    have m: "set (inord (ts2 ! unat i)) \<subseteq> forest_nodes ts2" using i2 by (intro forest_nodes_mem) simp
    have N1: "N \<inter> forest_nodes ts1 = {}" using N True dj m by (auto simp: trees_def)
    have e: "nodes s' a = tree_nodes tb a" if "a \<in> forest_nodes ts1" for a using that N1 dj m by (intro fr2) blast
    note F1' = forest_frame [where h' = "nodes s'", OF F1 e]
    have "forest_nodes ts1 \<inter> forest_nodes (ts2[unat i := t']) = {}" using U(3) dj N1 sub2 m by blast
    then have "tht_rel cmp gk (with_bucket second i s' tb) ts1 (ts2[unat i := t'])"
      using U(1) F1'(1) l True by (simp add: tht_rel_def with_bucket_def set_ttable_def ttable_def)
    moreover have "tht_abs (with_bucket second i s' tb) ts1 (ts2[unat i := t'])
        = put second i (hvals (nodes s') t') (tt_used (ttable1 tb)) (tht_abs tb ts1 ts2)"
      using abs_table_set [OF U(2), of "ttable2 tb" "root s'"] abs_table_cong [OF F1'(2), of "ttable1 tb"] True
      by (simp add: tht_abs_def with_bucket_def set_ttable_def ttable_def put_def abs_table_def)
    moreover have "forest_nodes ts1 \<union> forest_nodes (ts2[unat i := t'])
        = (forest_nodes ts1 \<union> forest_nodes ts2 - set (inord (ts2 ! unat i))) \<union> set (inord t')" using U(3) m dj by blast
    ultimately show ?thesis using True by (simp add: ts1'_def ts2'_def trees_def)
  next
    case False
    have i1: "unat i < length ts1" and sub1: "set (inord t') \<subseteq> N \<union> set (inord (ts1 ! unat i))"
      and N1: "N \<inter> forest_nodes ts1 \<subseteq> set (inord (ts1 ! unat i))" and fr1: "\<And>a. a \<notin> N \<union> set (inord (ts1 ! unat i)) \<Longrightarrow> nodes s' a = tree_nodes tb a"
      using i sub N fr False by (auto simp: trees_def)
    note U = forest_update [OF F1 i1 inv' sub1 N1 fr1]
    have m: "set (inord (ts1 ! unat i)) \<subseteq> forest_nodes ts1" using i1 by (intro forest_nodes_mem) simp
    have N2: "N \<inter> forest_nodes ts2 = {}" using N False dj m by (auto simp: trees_def)
    have e: "nodes s' a = tree_nodes tb a" if "a \<in> forest_nodes ts2" for a using that N2 dj m by (intro fr1) blast
    note F2' = forest_frame [where h' = "nodes s'", OF F2 e]
    have "forest_nodes (ts1[unat i := t']) \<inter> forest_nodes ts2 = {}" using U(3) dj N2 sub1 m by blast
    then have "tht_rel cmp gk (with_bucket second i s' tb) (ts1[unat i := t']) ts2"
      using U(1) F2'(1) l False by (simp add: tht_rel_def with_bucket_def set_ttable_def ttable_def)
    moreover have "tht_abs (with_bucket second i s' tb) (ts1[unat i := t']) ts2
        = put second i (hvals (nodes s') t') (tt_used (ttable1 tb)) (tht_abs tb ts1 ts2)"
      using abs_table_set [OF U(2), of "ttable1 tb" "root s'"] abs_table_cong [OF F2'(2), of "ttable2 tb"] False
      by (simp add: tht_abs_def with_bucket_def set_ttable_def ttable_def put_def abs_table_def table_set_def)
    moreover have "forest_nodes (ts1[unat i := t']) \<union> forest_nodes ts2
        = (forest_nodes ts1 \<union> forest_nodes ts2 - set (inord (ts1 ! unat i))) \<union> set (inord t')" using U(3) m dj by blast
    ultimately show ?thesis using False by (simp add: ts1'_def ts2'_def trees_def)
  qed
qed

text \<open>The count.\<close>

definition with_used :: "size_t \<Rightarrow> 'v TreeHashTable \<Rightarrow> 'v TreeHashTable" where
  "with_used n tb = tb\<lparr>ttable1 := (ttable1 tb)\<lparr>tt_used := n\<rparr>\<rparr>"

lemma inc_dec_used: "inc_used tb = with_used (tt_used (ttable1 tb) + 1) tb" "dec_used tb = with_used (tt_used (ttable1 tb) - 1) tb"
  by (simp_all add: inc_used_def dec_used_def with_used_def)

lemma with_used_rel:
  assumes "tht_rel cmp gk tb ts1 ts2" and "tht_abs tb ts1 ts2 = put second i s m tab"
  shows "tht_rel cmp gk (with_used n tb) ts1 ts2" and "tht_abs (with_used n tb) ts1 ts2 = put second i s n tab"
proof -
  show "tht_rel cmp gk (with_used n tb) ts1 ts2" using assms(1) by (simp add: tht_rel_def with_used_def)
  have "tht_abs (with_used n tb) ts1 ts2 = (tht_abs tb ts1 ts2)\<lparr>table1 := (table1 (tht_abs tb ts1 ts2))\<lparr>used := n\<rparr>\<rparr>"
    by (simp add: tht_abs_def with_used_def abs_table_def)
  then show "tht_abs (with_used n tb) ts1 ts2 = put second i s n tab" unfolding assms(2) by (simp add: put_def)
qed

lemma with_used_nodes [simp]: "tree_nodes (with_used n tb) = tree_nodes tb"
  by (simp add: with_used_def)

section \<open>Lookup\<close>

lemma bucket_lookup:
  fixes k :: 'k and HF :: "'k \<Rightarrow> u64"
  assumes ok: "table_ok HF GK t" and uk: "unique_keys GK (slots_entries t)"
  defines "b \<equiv> table t ! unat (bucket_index t (HF k))"
  shows "k \<notin> GK ` set b \<longleftrightarrow> entry_map GK (slots_entries t) k = None"
    and "v \<in> set b \<Longrightarrow> GK v = k \<Longrightarrow> entry_map GK (slots_entries t) k = Some v"
proof -
  note ix = table_ok_index [OF ok, of "HF k"]
  have b: "b = table t ! (unat (HF k) mod length (table t))" unfolding b_def using ix(1) by simp
  show "k \<notin> GK ` set b \<longleftrightarrow> entry_map GK (slots_entries t) k = None"
    using key_in_table [OF ok, of k] unfolding b entry_map_None by (simp add: image_iff) metis
  assume "v \<in> set b" "GK v = k"
  moreover from this have "v \<in># slots_entries t" unfolding b_def by (intro slots_entries_bucket [OF ix(2)])
  ultimately show "entry_map GK (slots_entries t) k = Some v" using entry_map_iff [OF uk, of k v] by simp
qed

lemma bucket_at_ok:
  fixes k :: 'k and HF :: "'k \<Rightarrow> u64"
  assumes ok: "tht_ok HF cmp gk tb ts1 ts2" and sec: "second \<longrightarrow> tree_InRehashing tb"
  defines "i \<equiv> index_in second tb (HF k)"
  shows "unat i < length (trees second ts1 ts2)" and "root_at (ttable second tb) i = Some (buckets (ttable second tb) ! unat i)"
    and "tree_inv cmp gk (tree_of (tree_nodes tb) (buckets (ttable second tb) ! unat i)) (trees second ts1 ts2 ! unat i)"
    and "table (tbl second (tht_abs tb ts1 ts2)) ! unat (bucket_index (tbl second (tht_abs tb ts1 ts2)) (HF k))
      = hvals (tree_nodes tb) (trees second ts1 ts2 ! unat i)"
proof -
  from ok have rel: "tht_rel cmp gk tb ts1 ts2" and inv: "ht_inv HF gk (tht_abs tb ts1 ts2)" by (simp_all add: tht_ok_def)
  have "table_ok HF gk (tbl second (tht_abs tb ts1 ts2))" using sec by (intro tbl_ok [OF inv]) simp
  from table_ok_index(2) [OF this, of "HF k"] show i: "unat i < length (trees second ts1 ts2)"
    unfolding i_def index_in_abs [of second tb _ ts1 ts2] by (simp add: tbl_abs)
  then show "root_at (ttable second tb) i = Some (buckets (ttable second tb) ! unat i)"
    by (simp add: root_at_def tht_rel_tbl [OF rel])
  show "tree_inv cmp gk (tree_of (tree_nodes tb) (buckets (ttable second tb) ! unat i)) (trees second ts1 ts2 ! unat i)"
    by (rule forest_at [OF tht_rel_tbl(2) [OF rel] i])
  show "table (tbl second (tht_abs tb ts1 ts2)) ! unat (bucket_index (tbl second (tht_abs tb ts1 ts2)) (HF k))
      = hvals (tree_nodes tb) (trees second ts1 ts2 ! unat i)"
    unfolding index_in_abs [of second tb _ ts1 ts2, symmetric] using i by (simp add: tbl_abs i_def)
qed

lemma find_in_bucket_ok:
  fixes k :: 'k and HF :: "'k \<Rightarrow> u64"
  assumes ok: "tht_ok HF cmp gk tb ts1 ts2" and sec: "second \<longrightarrow> tree_InRehashing tb"
  defines "i \<equiv> index_in second tb (HF k)" and "m \<equiv> entry_map gk (slots_entries (tbl second (tht_abs tb ts1 ts2)))"
  shows "\<exists>a. in_bucket second i (\<lambda>s. avl_FindNode cmp gk s k) tb = Some a
    \<and> (if a = nullptr then m k = None
       else a \<in> set (inord (trees second ts1 ts2 ! unat i)) \<and> (\<exists>n. tree_nodes tb a = Some n \<and> m k = Some (node_value n)))"
proof -
  from ok have c: "comparator cmp" and inv: "ht_inv HF gk (tht_abs tb ts1 ts2)" by (simp_all add: tht_ok_def)
  note B = bucket_at_ok [where k = k, OF ok sec, folded i_def]
  have ok': "table_ok HF gk (tbl second (tht_abs tb ts1 ts2))" using sec by (intro tbl_ok [OF inv]) simp
  note L = bucket_lookup [where k = k, OF ok' tbl_unique [OF inv], folded m_def, unfolded B(4)]
  from bucket_find_ok [OF c B(3), of k] show ?thesis
  proof (elim disjE exE conjE)
    assume "k \<notin> gk ` set (vals (tree_of (tree_nodes tb) (buckets (ttable second tb) ! unat i)) (trees second ts1 ts2 ! unat i))"
      "avl_FindNode cmp gk (tree_of (tree_nodes tb) (buckets (ttable second tb) ! unat i)) k = Some nullptr"
    then show ?thesis using B(2) L(1) by (simp add: in_bucket_def vals_hvals)
  next
    fix a
    assume a: "avl_FindNode cmp gk (tree_of (tree_nodes tb) (buckets (ttable second tb) ! unat i)) k = Some a" "a \<noteq> nullptr"
      "a \<in> set (inord (trees second ts1 ts2 ! unat i))"
      "gk (value_at (tree_of (tree_nodes tb) (buckets (ttable second tb) ! unat i)) a) = k"
    have "rooted (tree_of (tree_nodes tb) (buckets (ttable second tb) ! unat i)) (trees second ts1 ts2 ! unat i)"
      using B(3) by (simp add: tree_inv_def)
    from rooted_nodes [OF this a(3)] obtain n where n: "tree_nodes tb a = Some n" by auto
    have "node_value n \<in> set (hvals (tree_nodes tb) (trees second ts1 ts2 ! unat i))" "gk (node_value n) = k"
      using a(3,4) n by (force simp: hvals_def value_at_def)+
    then have "m k = Some (node_value n)" by (rule L(2))
    then show ?thesis using a(1-3) n B(2) by (simp add: in_bucket_def)
  qed
qed

section \<open>Insertion\<close>

definition tht_map :: "('v \<Rightarrow> 'k) \<Rightarrow> 'v TreeHashTable \<Rightarrow> ptr atree list \<Rightarrow> ptr atree list \<Rightarrow> 'k \<rightharpoonup> 'v" where
  "tht_map gk tb ts1 ts2 = entry_map gk (tht_entries tb ts1 ts2)"

lemma trees_nodes:
  "j < length (trees second ts1 ts2) \<Longrightarrow> a \<in> set (inord (trees second ts1 ts2 ! j)) \<Longrightarrow> a \<in> forest_nodes ts1 \<union> forest_nodes ts2"
  using forest_nodes_mem [OF nth_mem] by (cases second) (auto simp: trees_def)

definition inserted_post ::
    "('k \<Rightarrow> u64) \<Rightarrow> ('k \<Rightarrow> 'k \<Rightarrow> int) \<Rightarrow> ('v \<Rightarrow> 'k) \<Rightarrow> ptr \<Rightarrow> 'v \<Rightarrow> 'v TreeHashTable \<Rightarrow> ptr set \<Rightarrow> 'v multiset \<Rightarrow>
      ((bool \<times> ptr option) \<times> 'v TreeHashTable) option \<Rightarrow> bool" where
  "inserted_post HF cmp gk q elem tb A M res \<longleftrightarrow> (case entry_map gk M (gk elem) of
      Some d \<Rightarrow> \<exists>a n. res = Some ((False, Some a), tb) \<and> a \<noteq> nullptr \<and> a \<in> A \<and> tree_nodes tb a = Some n \<and> node_value n = d
    | None \<Rightarrow> \<exists>tb' ts1' ts2' n. res = Some ((True, Some q), tb') \<and> tht_ok HF cmp gk tb' ts1' ts2'
        \<and> tht_entries tb' ts1' ts2' = add_mset elem M \<and> dom (tree_nodes tb') = insert q (dom (tree_nodes tb))
        \<and> tree_nodes tb' q = Some n \<and> node_value n = elem \<and> q \<in> forest_nodes ts1' \<union> forest_nodes ts2')"

lemma insert_in_bucket_ok:
  fixes elem :: 'v and HF :: "'k \<Rightarrow> u64" and gk :: "'v \<Rightarrow> 'k"
  assumes ok: "tht_ok HF cmp gk tb ts1 ts2" and sz: "size (tht_entries tb ts1 ts2) < tht_room tb"
    and q: "q \<noteq> nullptr" "tree_nodes tb q = None" and sec: "second \<longrightarrow> tree_InRehashing tb"
  defines "i \<equiv> index_in second tb (HF (gk elem))"
  assumes fst: "\<not> second \<and> tree_InRehashing tb \<longrightarrow> \<not> i < tree_move_index tb"
    and other: "entry_map gk (slots_entries (tbl (\<not> second) (tht_abs tb ts1 ts2))) (gk elem) = None"
  shows "inserted_post HF cmp gk q elem tb (forest_nodes ts1 \<union> forest_nodes ts2) (tht_entries tb ts1 ts2)
    (do { (r, tb) \<leftarrow> on_bucket second i (\<lambda>s. avl_InsertWithDuplicate cmp gk s q elem True) tb;
          Some (r, if fst r then inc_used tb else tb) })"
proof -
  let ?tab = "tht_abs tb ts1 ts2"
  from ok have c: "comparator cmp" and rel: "tht_rel cmp gk tb ts1 ts2" and inv: "ht_inv HF gk ?tab" by (simp_all add: tht_ok_def)
  note B = bucket_at_ok [where k = "gk elem", OF ok sec, folded i_def]
  let ?s = "tree_of (tree_nodes tb) (buckets (ttable second tb) ! unat i)" and ?t = "trees second ts1 ts2 ! unat i"
  have ok': "table_ok HF gk (tbl second ?tab)" using sec by (intro tbl_ok [OF inv]) simp
  note L = bucket_lookup [where k = "gk elem", OF ok' tbl_unique [OF inv], unfolded B(4)]
  have uk: "unique_keys gk (slots_entries (tbl second ?tab) + slots_entries (tbl (\<not> second) ?tab))"
    using inv unfolding entries_tbl [of ?tab second, symmetric] by (simp add: ht_inv_def)
  have m: "entry_map gk (tht_entries tb ts1 ts2) (gk elem) = entry_map gk (slots_entries (tbl second ?tab)) (gk elem)"
    using unique_keys_union(3) [OF uk, of "gk elem"] other
    unfolding tht_entries_def entries_tbl [of ?tab second] by (simp split: option.splits)
  have rt: "rooted ?s ?t" using B(3) by (simp add: tree_inv_def)
  have qs: "nodes ?s q = None" using q(2) by simp
  note I = bucket_insert_ok [where v = elem and want = True, OF c B(3) q(1) qs]
  show ?thesis
  proof (cases "gk elem \<in> gk ` set (vals ?s ?t)")
    case True
    with I obtain a where a: "avl_InsertWithDuplicate cmp gk ?s q elem True = Some ((False, Some a), ?s)" "a \<in> set (inord ?t)"
      "gk (value_at ?s a) = gk elem" by (auto simp: report_def)
    from rooted_nodes [OF rt a(2)] obtain n where n: "tree_nodes tb a = Some n" "a \<noteq> nullptr" by auto
    have "node_value n \<in> set (hvals (tree_nodes tb) ?t)" "gk (node_value n) = gk elem"
      using a(2,3) n by (force simp: hvals_def value_at_def)+
    then have "entry_map gk (tht_entries tb ts1 ts2) (gk elem) = Some (node_value n)" unfolding m by (rule L(2))
    then show ?thesis using a(1) n B(2) with_bucket_same [OF B(2)] trees_nodes [OF B(1) a(2)] by (simp add: inserted_post_def on_bucket_eq)
  next
    case False
    then have none: "entry_map gk (tht_entries tb ts1 ts2) (gk elem) = None" using L(1) unfolding m by (simp add: vals_hvals)
    from I False obtain s' t' where s': "avl_InsertWithDuplicate cmp gk ?s q elem True = Some ((True, Some q), s')"
      "tree_inv cmp gk s' t'" "mset (vals s' t') = add_mset elem (mset (vals ?s ?t))" "set (inord t') = insert q (set (inord ?t))"
      "value_at s' q = elem" "\<forall>a. a \<notin> insert q (set (inord ?t)) \<longrightarrow> nodes s' a = nodes ?s a"
      "\<forall>a. nodes s' a = None \<longleftrightarrow> nodes ?s a = None \<and> a \<noteq> q" by (auto simp: report_def)
    have sub: "set (inord t') \<subseteq> {q} \<union> set (inord ?t)" using s'(4) by auto
    have "q \<notin> forest_nodes ts1" "q \<notin> forest_nodes ts2"
      using forest_nodes_exist [of cmp gk "tree_nodes tb" _ _ q] rel q(2) unfolding tht_rel_def by blast+
    then have N: "{q} \<inter> (forest_nodes ts1 \<union> forest_nodes ts2) \<subseteq> set (inord ?t)" by simp
    have fr: "nodes s' a = tree_nodes tb a" if "a \<notin> {q} \<union> set (inord ?t)" for a using s'(6) that by simp
    obtain ts1' ts2' where C: "tht_rel cmp gk (with_bucket second i s' tb) ts1' ts2'"
      "tht_abs (with_bucket second i s' tb) ts1' ts2' = put second i (hvals (nodes s') t') (tt_used (ttable1 tb)) ?tab"
      "forest_nodes ts1' \<union> forest_nodes ts2' =
        (forest_nodes ts1 \<union> forest_nodes ts2 - set (inord (trees second ts1 ts2 ! unat i))) \<union> set (inord t')"
      using bucket_changed [OF rel B(1) s'(2) sub N fr] by blast
    let ?tb = "with_used (tt_used (ttable1 tb) + 1) (with_bucket second i s' tb)"
    note W = with_used_rel [OF C(1,2), of "tt_used (ttable1 tb) + 1"]
    have i: "i = bucket_index (tbl second ?tab) (HF (gk elem))" by (simp add: i_def index_in_abs [of second tb _ ts1 ts2])
    have ms: "mset (hvals (nodes s') t') = add_mset elem (mset (table (tbl second ?tab) ! unat i))"
      using s'(3) B(4) i by (simp add: vals_hvals)
    have sz': "size (entries ?tab) < room ?tab" using sz by (simp add: tht_entries_def room_abs [OF rel])
    have new: "ht_map gk ?tab (gk elem) = None" using none by (simp add: ht_map_def tht_entries_def)
    have sec': "second \<longrightarrow> InRehashing ?tab" and fst': "\<not> second \<and> InRehashing ?tab \<longrightarrow> \<not> i < rehash_move_bucket_index ?tab"
      using sec fst by simp_all
    have u: "used (table1 ?tab) = tt_used (ttable1 tb)" by simp
    note G = ht_inv_gain [OF inv sz' new sec' fst' i ms, unfolded u]
    have "q \<in> forest_nodes ts1' \<union> forest_nodes ts2'" unfolding C(3) using s'(4) by simp
    moreover have "tht_ok HF cmp gk ?tb ts1' ts2'" using c W G(1) by (simp add: tht_ok_def)
    moreover have "tht_entries ?tb ts1' ts2' = add_mset elem (tht_entries tb ts1 ts2)" using W(2) G(2) by (simp add: tht_entries_def)
    moreover have "dom (tree_nodes ?tb) = insert q (dom (tree_nodes tb))" using s'(7) by (auto simp: dom_def)
    moreover obtain n where "nodes s' q = Some n" using s'(7) by fastforce
    moreover from this s'(5) have "node_value n = elem" by (simp add: value_at_def)
    moreover have "on_bucket second i (\<lambda>s. avl_InsertWithDuplicate cmp gk s q elem True) tb = Some ((True, Some q), with_bucket second i s' tb)"
      using B(2) s'(1) by (simp add: on_bucket_eq)
    ultimately show ?thesis using none by (simp add: inserted_post_def inc_dec_used del: Un_iff) blast
  qed
qed

lemma tree_insert_checked_ok:
  assumes ok: "tht_ok HF cmp gk tb ts1 ts2" and sz: "size (tht_entries tb ts1 ts2) < tht_room tb"
    and q: "q \<noteq> nullptr" "tree_nodes tb q = None"
  shows "inserted_post HF cmp gk q elem tb (forest_nodes ts1 \<union> forest_nodes ts2) (tht_entries tb ts1 ts2) (tree_insert_checked HF cmp gk q elem tb)"
proof -
  let ?tab = "tht_abs tb ts1 ts2" and ?k = "gk elem"
  let ?i = "index_in False tb (HF ?k)" and ?j = "index_in True tb (HF ?k)"
  from ok have inv: "ht_inv HF gk ?tab" and rel: "tht_rel cmp gk tb ts1 ts2" by (simp_all add: tht_ok_def)
  note I = insert_in_bucket_ok [where elem = elem, OF ok sz q]
  have b: "?i = bucket_index (table1 ?tab) (HF ?k)" by (simp add: index_in_abs [of _ tb _ ts1 ts2] tbl_def)
  show ?thesis
  proof (cases "tree_InRehashing tb")
    case False
    have "table (table2 ?tab) = []" using inv False by (simp add: ht_inv_def)
    then have "slots_entries (tbl True ?tab) = {#}" by (simp add: tbl_def slots_entries_def)
    then have "entry_map gk (slots_entries (tbl (\<not> False) ?tab)) ?k = None" by (simp add: entry_map_None)
    from I [where second = False, OF _ _ this] False show ?thesis by (simp add: tree_insert_checked_def Let_def)
  next
    case re: True
    show ?thesis
    proof (cases "tree_move_index tb > ?i")
      case True
      then have "entry_map gk (slots_entries (tbl (\<not> True) ?tab)) ?k = None"
        using moved_bucket [OF inv, of ?k] re b by (simp add: tbl_def)
      from I [where second = True, OF _ _ this] re True show ?thesis by (simp add: tree_insert_checked_def Let_def)
    next
      case False
      from find_in_bucket_ok [where second = True and k = ?k, OF ok] re obtain a where
        a: "in_bucket True ?j (\<lambda>s. avl_FindNode cmp gk s ?k) tb = Some a"
        "if a = nullptr then entry_map gk (slots_entries (tbl True ?tab)) ?k = None
         else a \<in> set (inord (trees True ts1 ts2 ! unat ?j)) \<and> (\<exists>n. tree_nodes tb a = Some n \<and> entry_map gk (slots_entries (tbl True ?tab)) ?k = Some (node_value n))" by blast
      have j: "unat ?j < length (trees True ts1 ts2)" using bucket_at_ok(1) [where second = True and k = ?k, OF ok] re by simp
      show ?thesis
      proof (cases "a = nullptr")
        case True
        then have "entry_map gk (slots_entries (tbl (\<not> False) ?tab)) ?k = None" using a(2) by simp
        from I [where second = False, OF _ _ this] re False a(1) True show ?thesis by (simp add: tree_insert_checked_def Let_def)
      next
        case nz: False
        with a(2) obtain n where n: "tree_nodes tb a = Some n" "entry_map gk (slots_entries (tbl True ?tab)) ?k = Some (node_value n)"
          "a \<in> set (inord (trees True ts1 ts2 ! unat ?j))" by auto
        have "unique_keys gk (entries ?tab)" using inv by (simp add: ht_inv_def)
        moreover have "node_value n \<in># slots_entries (tbl True ?tab)" "gk (node_value n) = ?k"
          using entry_map_iff [OF tbl_unique [OF inv], of True ?k] n(2) by auto
        ultimately have "entry_map gk (tht_entries tb ts1 ts2) ?k = Some (node_value n)"
          using entry_map_iff [of gk "entries ?tab" ?k] by (simp add: tht_entries_def entries_tbl [of ?tab True])
        then show ?thesis using re False a(1) nz n(1) trees_nodes [OF j n(3)] by (simp add: tree_insert_checked_def Let_def inserted_post_def)
      qed
    qed
  qed
qed

end
