(* ===== verification/Tree_Hash_Erase.thy ===== *)
theory Tree_Hash_Erase
  imports Tree_Hash_Update
begin

text \<open>
  The other operations of \<open>TreeHashTable\<close>: \<open>InsertWithDuplicate\<close> with its rehash, lookup,
  extraction and erasure, and the state of a table that is new or has been cleared.
\<close>

section \<open>Insertion and lookup\<close>

lemma tree_InsertWithDuplicate_ok:
  assumes ok: "tht_ok HF cmp gk tb ts1 ts2" and small: "size (tht_entries tb ts1 ts2) < 2 ^ 60"
    and q: "q \<noteq> nullptr" "tree_nodes tb q = None"
  shows "(\<not> mem \<and> tree_InsertWithDuplicate mem HF cmp gk q elem tb = Some (Inl bad_alloc, tb))
    \<or> (\<exists>b a tb' ts1' ts2' n. tree_InsertWithDuplicate mem HF cmp gk q elem tb = Some (Inr (b, Some a), tb')
        \<and> tht_ok HF cmp gk tb' ts1' ts2' \<and> a \<noteq> nullptr \<and> tree_nodes tb' a = Some n
        \<and> a \<in> forest_nodes ts1' \<union> forest_nodes ts2'
        \<and> (case tht_map gk tb ts1 ts2 (gk elem) of
             Some d \<Rightarrow> \<not> b \<and> node_value n = d \<and> tht_entries tb' ts1' ts2' = tht_entries tb ts1 ts2 \<and> dom (tree_nodes tb') = dom (tree_nodes tb)
           | None \<Rightarrow> b \<and> a = q \<and> node_value n = elem \<and> tht_entries tb' ts1' ts2' = add_mset elem (tht_entries tb ts1 ts2)
               \<and> dom (tree_nodes tb') = insert q (dom (tree_nodes tb))))"
proof -
  from tree_prepare_ok [OF ok small, of mem] show ?thesis
  proof (elim disjE exE conjE)
    assume "\<not> mem" "tree_Rehash mem tb = Inl bad_alloc"
    then show ?thesis by (simp add: tree_InsertWithDuplicate_def)
  next
    fix tb1 tb2 us1 us2
    assume 1: "tree_Rehash mem tb = Inr tb1" "tree_IncrementalRehash HF cmp gk tb1 = Some tb2" "tht_ok HF cmp gk tb2 us1 us2"
      "tht_entries tb2 us1 us2 = tht_entries tb ts1 ts2" "dom (tree_nodes tb2) = dom (tree_nodes tb)"
      "size (tht_entries tb2 us1 us2) < tht_room tb2"
    have q2: "tree_nodes tb2 q = None" using q(2) 1(5) by blast
    note P = tree_insert_checked_ok [OF 1(3) 1(6) q(1) q2, of elem, unfolded inserted_post_def 1(4)]
    show ?thesis
    proof (cases "tht_map gk tb ts1 ts2 (gk elem)")
      case None
      with P obtain tb' ts1' ts2' n where "tree_insert_checked HF cmp gk q elem tb2 = Some ((True, Some q), tb')" "tht_ok HF cmp gk tb' ts1' ts2'"
        "tht_entries tb' ts1' ts2' = add_mset elem (tht_entries tb ts1 ts2)" "dom (tree_nodes tb') = insert q (dom (tree_nodes tb2))"
        "tree_nodes tb' q = Some n" "node_value n = elem" "q \<in> forest_nodes ts1' \<union> forest_nodes ts2'" by (auto simp: tht_map_def)
      then show ?thesis using 1(1,2,5) None q(1)
        by (intro disjI2 exI [of _ True] exI [of _ q] exI [of _ tb'] exI [of _ ts1'] exI [of _ ts2'] exI [of _ n])
          (simp add: tree_InsertWithDuplicate_def del: Un_iff)
    next
      case (Some d)
      with P obtain a n where "tree_insert_checked HF cmp gk q elem tb2 = Some ((False, Some a), tb2)" "a \<noteq> nullptr" "tree_nodes tb2 a = Some n"
        "node_value n = d" "a \<in> forest_nodes us1 \<union> forest_nodes us2" by (auto simp: tht_map_def)
      then show ?thesis using 1 Some
        by (intro disjI2 exI [of _ False] exI [of _ a] exI [of _ tb2] exI [of _ us1] exI [of _ us2] exI [of _ n])
          (simp add: tree_InsertWithDuplicate_def del: Un_iff)
    qed
  qed
qed

lemma tht_map_tables:
  assumes "ht_inv HF gk (tht_abs tb ts1 ts2)"
  shows "tht_map gk tb ts1 ts2 k = (case entry_map gk (slots_entries (tbl False (tht_abs tb ts1 ts2))) k of
      None \<Rightarrow> entry_map gk (slots_entries (tbl True (tht_abs tb ts1 ts2))) k | Some v \<Rightarrow> Some v)"
    and "\<not> tree_InRehashing tb \<Longrightarrow> entry_map gk (slots_entries (tbl True (tht_abs tb ts1 ts2))) k = None"
proof -
  show "tht_map gk tb ts1 ts2 k = (case entry_map gk (slots_entries (tbl False (tht_abs tb ts1 ts2))) k of
      None \<Rightarrow> entry_map gk (slots_entries (tbl True (tht_abs tb ts1 ts2))) k | Some v \<Rightarrow> Some v)"
    using ht_map_cases(1) [OF assms, of k] unfolding tht_map_def tht_entries_def ht_map_def tbl_def by simp
  assume "\<not> tree_InRehashing tb"
  then have "table (table2 (tht_abs tb ts1 ts2)) = []" using assms by (simp add: ht_inv_def)
  then show "entry_map gk (slots_entries (tbl True (tht_abs tb ts1 ts2))) k = None"
    by (simp add: entry_map_None tbl_def slots_entries_def)
qed

text \<open>A lookup makes a step of the rehash and returns the node of the key.\<close>

lemma tree_FindNode_ok:
  assumes ok: "tht_ok HF cmp gk tb ts1 ts2"
  shows "\<exists>a p tb' ts1' ts2'. tree_FindNode HF cmp gk k tb = Some ((a, p), tb') \<and> tht_ok HF cmp gk tb' ts1' ts2'
    \<and> tht_entries tb' ts1' ts2' = tht_entries tb ts1 ts2 \<and> dom (tree_nodes tb') = dom (tree_nodes tb)
    \<and> (if a = nullptr then p = None \<and> tht_map gk tb ts1 ts2 k = None
       else (\<exists>n. tree_nodes tb' a = Some n \<and> tht_map gk tb ts1 ts2 k = Some (node_value n))
         \<and> (\<exists>second. p = Some (second, index_in second tb' (HF k)) \<and> (second \<longrightarrow> tree_InRehashing tb')
              \<and> a \<in> set (inord (trees second ts1' ts2' ! unat (index_in second tb' (HF k))))))"
proof -
  from tree_IncrementalRehash_ok [OF ok] obtain tb' us1 us2 where 1: "tree_IncrementalRehash HF cmp gk tb = Some tb'"
    "tht_ok HF cmp gk tb' us1 us2" "tht_entries tb' us1 us2 = tht_entries tb ts1 ts2" "dom (tree_nodes tb') = dom (tree_nodes tb)" by blast
  from 1(2) have inv: "ht_inv HF gk (tht_abs tb' us1 us2)" by (simp add: tht_ok_def)
  have m: "tht_map gk tb' us1 us2 = tht_map gk tb ts1 ts2" by (simp add: tht_map_def 1(3))
  note T = tht_map_tables [OF inv, of k, unfolded m]
  from find_in_bucket_ok [where second = False and k = k, OF 1(2)] obtain a where
    a: "in_bucket False (index_in False tb' (HF k)) (\<lambda>s. avl_FindNode cmp gk s k) tb' = Some a"
    "if a = nullptr then entry_map gk (slots_entries (tbl False (tht_abs tb' us1 us2))) k = None
     else a \<in> set (inord (trees False us1 us2 ! unat (index_in False tb' (HF k))))
       \<and> (\<exists>n. tree_nodes tb' a = Some n \<and> entry_map gk (slots_entries (tbl False (tht_abs tb' us1 us2))) k = Some (node_value n))" by blast
  show ?thesis
  proof (cases "a = nullptr")
    case False
    then show ?thesis using 1 a T(1)
      by - (rule exI [of _ a], rule exI [of _ "Some (False, index_in False tb' (HF k))"], rule exI [of _ tb'], rule exI [of _ us1], rule exI [of _ us2], force simp: tree_FindNode_def Let_def ex_bool_eq)
  next
    case True
    show ?thesis
    proof (cases "tree_InRehashing tb'")
      case False
      then show ?thesis using 1 a T True
        by - (rule exI [of _ nullptr], rule exI [of _ None], rule exI [of _ tb'], rule exI [of _ us1], rule exI [of _ us2], simp add: tree_FindNode_def Let_def)
    next
      case re: True
      from find_in_bucket_ok [where second = True and k = k, OF 1(2)] re obtain c where
        c: "in_bucket True (index_in True tb' (HF k)) (\<lambda>s. avl_FindNode cmp gk s k) tb' = Some c"
        "if c = nullptr then entry_map gk (slots_entries (tbl True (tht_abs tb' us1 us2))) k = None
         else c \<in> set (inord (trees True us1 us2 ! unat (index_in True tb' (HF k))))
           \<and> (\<exists>n. tree_nodes tb' c = Some n \<and> entry_map gk (slots_entries (tbl True (tht_abs tb' us1 us2))) k = Some (node_value n))" by blast
      then show ?thesis using 1 a T(1) True re
        by - (rule exI [of _ c], rule exI [of _ "if c = nullptr then None else Some (True, index_in True tb' (HF k))"], rule exI [of _ tb'], rule exI [of _ us1], rule exI [of _ us2], simp add: tree_FindNode_def Let_def ex_bool_eq)
    qed
  qed
qed

lemma tree_Find_ok:
  assumes "tht_ok HF cmp gk tb ts1 ts2"
  shows "\<exists>tb' ts1' ts2'. tree_Find HF cmp gk k tb = Some (tht_map gk tb ts1 ts2 k, tb') \<and> tht_ok HF cmp gk tb' ts1' ts2'
    \<and> tht_entries tb' ts1' ts2' = tht_entries tb ts1 ts2 \<and> dom (tree_nodes tb') = dom (tree_nodes tb)"
proof -
  from tree_FindNode_ok [OF assms, of k] obtain a p tb' ts1' ts2' where
    F: "tree_FindNode HF cmp gk k tb = Some ((a, p), tb')" "tht_ok HF cmp gk tb' ts1' ts2'"
      "tht_entries tb' ts1' ts2' = tht_entries tb ts1 ts2" "dom (tree_nodes tb') = dom (tree_nodes tb)"
      "if a = nullptr then p = None \<and> tht_map gk tb ts1 ts2 k = None
       else (\<exists>n. tree_nodes tb' a = Some n \<and> tht_map gk tb ts1 ts2 k = Some (node_value n))
         \<and> (\<exists>second. p = Some (second, index_in second tb' (HF k)) \<and> (second \<longrightarrow> tree_InRehashing tb')
              \<and> a \<in> set (inord (trees second ts1' ts2' ! unat (index_in second tb' (HF k)))))" by blast
  then show ?thesis
    by - (rule exI [of _ tb'], rule exI [of _ ts1'], rule exI [of _ ts2'], auto simp: tree_Find_def deref_def split: if_splits)
qed

section \<open>Removal\<close>

text \<open>Nodes that are in no bucket do not matter.\<close>

lemma tht_ok_frame:
  assumes ok: "tht_ok HF cmp gk tb ts1 ts2" and fr: "\<And>a. a \<in> forest_nodes ts1 \<union> forest_nodes ts2 \<Longrightarrow> h a = tree_nodes tb a"
  shows "tht_ok HF cmp gk (tb\<lparr>tree_nodes := h\<rparr>) ts1 ts2" and "tht_entries (tb\<lparr>tree_nodes := h\<rparr>) ts1 ts2 = tht_entries tb ts1 ts2"
proof -
  from ok have F1: "forest cmp gk (tree_nodes tb) (buckets (ttable1 tb)) ts1" and F2: "forest cmp gk (tree_nodes tb) (buckets (ttable2 tb)) ts2"
    by (simp_all add: tht_ok_def tht_rel_def)
  have e1: "h a = tree_nodes tb a" if "a \<in> forest_nodes ts1" for a using that by (intro fr) blast
  have e2: "h a = tree_nodes tb a" if "a \<in> forest_nodes ts2" for a using that by (intro fr) blast
  note f1 = forest_frame [where h' = h, OF F1 e1] and f2 = forest_frame [where h' = h, OF F2 e2]
  have "tht_abs (tb\<lparr>tree_nodes := h\<rparr>) ts1 ts2 = tht_abs tb ts1 ts2"
    using abs_table_cong [OF f1(2)] abs_table_cong [OF f2(2)] by (simp add: tht_abs_def)
  then show "tht_ok HF cmp gk (tb\<lparr>tree_nodes := h\<rparr>) ts1 ts2" "tht_entries (tb\<lparr>tree_nodes := h\<rparr>) ts1 ts2 = tht_entries tb ts1 ts2"
    using ok f1(1) f2(1) by (simp_all add: tht_ok_def tht_rel_def tht_entries_def)
qed

text \<open>A bucket that loses a node, whatever happens to the node and to the count.\<close>

lemma bucket_loses:
  fixes v :: 'v and HF :: "'k \<Rightarrow> u64" and gk :: "'v \<Rightarrow> 'k"
  assumes ok: "tht_ok HF cmp gk tb ts1 ts2" and sec: "second \<longrightarrow> tree_InRehashing tb"
  defines "i \<equiv> index_in second tb (HF (gk v))"
  assumes inv': "tree_inv cmp gk s' t'"
    and ms: "mset (vals (tree_of (tree_nodes tb) (buckets (ttable second tb) ! unat i)) (trees second ts1 ts2 ! unat i)) = add_mset v (mset (vals s' t'))"
    and sn: "set (inord (trees second ts1 ts2 ! unat i)) = insert a (set (inord t'))" "a \<notin> set (inord t')"
    and fr: "\<forall>b. b \<notin> set (inord (trees second ts1 ts2 ! unat i)) \<longrightarrow> nodes s' b = tree_nodes tb b"
  shows "\<exists>ts1' ts2'. tht_ok HF cmp gk (dec_used (with_bucket second i s' tb)) ts1' ts2'
    \<and> tht_entries tb ts1 ts2 = add_mset v (tht_entries (dec_used (with_bucket second i s' tb)) ts1' ts2')
    \<and> tht_rel cmp gk (with_bucket second i s' tb) ts1' ts2'
    \<and> tht_entries (with_bucket second i s' tb) ts1' ts2' = tht_entries (dec_used (with_bucket second i s' tb)) ts1' ts2'
    \<and> forest_nodes ts1 \<union> forest_nodes ts2 = insert a (forest_nodes ts1' \<union> forest_nodes ts2') \<and> a \<notin> forest_nodes ts1' \<union> forest_nodes ts2'"
proof -
  let ?tab = "tht_abs tb ts1 ts2" and ?t = "trees second ts1 ts2 ! unat i"
  from ok have c: "comparator cmp" and rel: "tht_rel cmp gk tb ts1 ts2" and inv: "ht_inv HF gk ?tab" by (simp_all add: tht_ok_def)
  note B = bucket_at_ok [where k = "gk v", OF ok sec, folded i_def]
  let ?ts1 = "if second then ts1 else ts1[unat i := t']" and ?ts2 = "if second then ts2[unat i := t'] else ts2"
  have sub: "set (inord t') \<subseteq> {} \<union> set (inord ?t)" and N: "{} \<inter> (forest_nodes ts1 \<union> forest_nodes ts2) \<subseteq> set (inord ?t)" using sn by auto
  have fr': "nodes s' b = tree_nodes tb b" if "b \<notin> {} \<union> set (inord ?t)" for b using fr that by simp
  from bucket_changed [OF rel B(1) inv' sub N fr'] have C: "tht_rel cmp gk (with_bucket second i s' tb) ?ts1 ?ts2"
    "tht_abs (with_bucket second i s' tb) ?ts1 ?ts2 = put second i (hvals (nodes s') t') (tt_used (ttable1 tb)) ?tab"
    "forest_nodes ?ts1 \<union> forest_nodes ?ts2 = (forest_nodes ts1 \<union> forest_nodes ts2 - set (inord ?t)) \<union> set (inord t')" by blast+
  note W = with_used_rel [OF C(1,2), of "tt_used (ttable1 tb) - 1"]
  have D: "dec_used (with_bucket second i s' tb) = with_used (tt_used (ttable1 tb) - 1) (with_bucket second i s' tb)"
    by (simp add: inc_dec_used)
  have i: "i = bucket_index (tbl second ?tab) (HF (gk v))" by (simp add: i_def index_in_abs [of second tb _ ts1 ts2])
  have sec': "second \<longrightarrow> InRehashing ?tab" using sec by simp
  have il: "unat i < length (table (tbl second ?tab))" using B(1) by (simp add: tbl_abs)
  have m: "mset (table (tbl second ?tab) ! unat i) = add_mset v (mset (hvals (nodes s') t'))"
    using ms B(4) i by (simp add: vals_hvals)
  have u: "used (table1 ?tab) = tt_used (ttable1 tb)" by simp
  note G = ht_inv_lose [OF inv sec' il m, unfolded u]
  have "entries (put second j xs n tab) = entries (put second j xs n' tab)" for j xs n n' and tab :: "'v HashTable"
    by (simp add: entries_put)
  then have "tht_entries (with_bucket second i s' tb) ?ts1 ?ts2 = tht_entries (dec_used (with_bucket second i s' tb)) ?ts1 ?ts2"
    unfolding tht_entries_def C(2) D W(2) .
  moreover have "tht_ok HF cmp gk (dec_used (with_bucket second i s' tb)) ?ts1 ?ts2" unfolding D using c W G(1) by (simp add: tht_ok_def)
  moreover have "tht_entries tb ts1 ts2 = add_mset v (tht_entries (dec_used (with_bucket second i s' tb)) ?ts1 ?ts2)"
    unfolding D using W(2) G(2) by (simp add: tht_entries_def)
  moreover have "set (inord ?t) \<subseteq> forest_nodes ts1 \<union> forest_nodes ts2"
    using forest_nodes_mem [of ?t "trees second ts1 ts2"] B(1) by (auto simp: trees_def split: if_splits)
  then have "forest_nodes ts1 \<union> forest_nodes ts2 = insert a (forest_nodes ?ts1 \<union> forest_nodes ?ts2)"
    "a \<notin> forest_nodes ?ts1 \<union> forest_nodes ?ts2" unfolding C(3) using sn by blast+
  ultimately show ?thesis using C(1) by blast
qed

definition extracted_post ::
    "('k \<Rightarrow> u64) \<Rightarrow> ('k \<Rightarrow> 'k \<Rightarrow> int) \<Rightarrow> ('v \<Rightarrow> 'k) \<Rightarrow> 'v \<Rightarrow> 'v TreeHashTable \<Rightarrow> 'v multiset \<Rightarrow> ptr \<Rightarrow> 'v TreeHashTable \<Rightarrow> bool" where
  "extracted_post HF cmp gk v tb M a tb' \<longleftrightarrow> a \<noteq> nullptr \<and> (\<exists>ts1' ts2' n. tht_ok HF cmp gk tb' ts1' ts2' \<and> M = add_mset v (tht_entries tb' ts1' ts2')
     \<and> tree_nodes tb' a = Some n \<and> node_value n = v \<and> left n = nullptr \<and> right n = nullptr \<and> parent n = nullptr
     \<and> a \<notin> forest_nodes ts1' \<union> forest_nodes ts2' \<and> dom (tree_nodes tb') = dom (tree_nodes tb))"

lemma extract_in_bucket_ok:
  assumes ok: "tht_ok HF cmp gk tb ts1 ts2" and sec: "second \<longrightarrow> tree_InRehashing tb"
  shows "case entry_map gk (slots_entries (tbl second (tht_abs tb ts1 ts2))) k of
      None \<Rightarrow> on_bucket second (index_in second tb (HF k)) (\<lambda>s. avl_Extract cmp gk s k) tb = Some (nullptr, tb)
    | Some v \<Rightarrow> \<exists>a tb'. on_bucket second (index_in second tb (HF k)) (\<lambda>s. avl_Extract cmp gk s k) tb = Some (a, tb')
        \<and> extracted_post HF cmp gk v tb (tht_entries tb ts1 ts2) a (dec_used tb')"
proof -
  let ?tab = "tht_abs tb ts1 ts2" and ?i = "index_in second tb (HF k)"
  from ok have c: "comparator cmp" and inv: "ht_inv HF gk ?tab" by (simp_all add: tht_ok_def)
  note B = bucket_at_ok [where k = k, OF ok sec]
  let ?s = "tree_of (tree_nodes tb) (buckets (ttable second tb) ! unat ?i)" and ?t = "trees second ts1 ts2 ! unat ?i"
  have ok': "table_ok HF gk (tbl second ?tab)" using sec by (intro tbl_ok [OF inv]) simp
  note L = bucket_lookup [where k = k, OF ok' tbl_unique [OF inv], unfolded B(4)]
  note E = bucket_extract_ok [where k = k, OF c B(3)]
  show ?thesis
  proof (cases "k \<in> gk ` set (vals ?s ?t)")
    case False
    then have "entry_map gk (slots_entries (tbl second ?tab)) k = None" using L(1) by (simp add: vals_hvals)
    moreover have "avl_Extract cmp gk ?s k = Some (nullptr, ?s)" using E False by simp
    ultimately show ?thesis using B(2) with_bucket_same [OF B(2)] by (simp add: on_bucket_eq)
  next
    case True
    with E obtain a s' t' n where X: "avl_Extract cmp gk ?s k = Some (a, s')" "a \<noteq> nullptr" "tree_inv cmp gk s' t'" "gk (value_at ?s a) = k"
      "mset (vals ?s ?t) = add_mset (value_at ?s a) (mset (vals s' t'))" "set (inord ?t) = insert a (set (inord t'))" "a \<notin> set (inord t')"
      "\<forall>b. b \<notin> set (inord ?t) \<longrightarrow> nodes s' b = nodes ?s b" "nodes s' a = Some n" "node_value n = value_at ?s a"
      "left n = nullptr" "right n = nullptr" "parent n = nullptr" "\<forall>b. nodes s' b = None \<longleftrightarrow> nodes ?s b = None" by auto
    let ?v = "value_at ?s a"
    have "?v \<in> set (hvals (tree_nodes tb) ?t)" using X(6) by (simp add: hvals_def value_at_def)
    then have e: "entry_map gk (slots_entries (tbl second ?tab)) k = Some ?v" using X(4) by (rule L(2))
    have k: "k = gk ?v" using X(4) by simp
    from bucket_loses [OF ok sec X(3), of ?v a] X(5-8) obtain ts1' ts2' where
      Y: "tht_ok HF cmp gk (dec_used (with_bucket second ?i s' tb)) ts1' ts2'"
      "tht_entries tb ts1 ts2 = add_mset ?v (tht_entries (dec_used (with_bucket second ?i s' tb)) ts1' ts2')"
      "a \<notin> forest_nodes ts1' \<union> forest_nodes ts2'" unfolding k [symmetric] by auto
    have "dom (nodes s') = dom (tree_nodes tb)" using X(14) by (auto simp: dom_def)
    then have "extracted_post HF cmp gk ?v tb (tht_entries tb ts1 ts2) a (dec_used (with_bucket second ?i s' tb))"
      unfolding extracted_post_def using X(2,9-13) Y
      by (intro conjI exI [of _ ts1'] exI [of _ ts2'] exI [of _ n]) (simp_all add: inc_dec_used)
    moreover have "on_bucket second ?i (\<lambda>s. avl_Extract cmp gk s k) tb = Some (a, with_bucket second ?i s' tb)"
      using B(2) X(1) by (simp add: on_bucket_eq)
    ultimately show ?thesis using e by auto
  qed
qed

lemma tree_Extract_ok:
  assumes ok: "tht_ok HF cmp gk tb ts1 ts2"
  shows "case tht_map gk tb ts1 ts2 k of
      None \<Rightarrow> \<exists>tb' ts1' ts2'. tree_Extract HF cmp gk k tb = Some (nullptr, tb') \<and> tht_ok HF cmp gk tb' ts1' ts2'
        \<and> tht_entries tb' ts1' ts2' = tht_entries tb ts1 ts2 \<and> dom (tree_nodes tb') = dom (tree_nodes tb)
    | Some v \<Rightarrow> \<exists>a tb'. tree_Extract HF cmp gk k tb = Some (a, tb') \<and> extracted_post HF cmp gk v tb (tht_entries tb ts1 ts2) a tb'"
proof -
  from tree_IncrementalRehash_ok [OF ok] obtain tb' us1 us2 where 1: "tree_IncrementalRehash HF cmp gk tb = Some tb'"
    "tht_ok HF cmp gk tb' us1 us2" "tht_entries tb' us1 us2 = tht_entries tb ts1 ts2" "dom (tree_nodes tb') = dom (tree_nodes tb)" by blast
  from 1(2) have inv: "ht_inv HF gk (tht_abs tb' us1 us2)" by (simp add: tht_ok_def)
  have m: "tht_map gk tb' us1 us2 = tht_map gk tb ts1 ts2" by (simp add: tht_map_def 1(3))
  note T = tht_map_tables [OF inv, of k, unfolded m]
  have P: "extracted_post HF cmp gk v tb' M a tb2 = extracted_post HF cmp gk v tb M a tb2" for v M a tb2
    by (simp add: extracted_post_def 1(4))
  note X = extract_in_bucket_ok [where second = False and k = k, OF 1(2), unfolded P 1(3), simplified]
  note Y = extract_in_bucket_ok [where second = True and k = k, OF 1(2), unfolded P 1(3)]
  show ?thesis
  proof (cases "entry_map gk (slots_entries (tbl False (tht_abs tb' us1 us2))) k")
    case (Some v)
    with X obtain a tb2 where "on_bucket False (index_in False tb' (HF k)) (\<lambda>s. avl_Extract cmp gk s k) tb' = Some (a, tb2)"
      "extracted_post HF cmp gk v tb (tht_entries tb ts1 ts2) a (dec_used tb2)" by auto
    moreover from this(2) have "a \<noteq> nullptr" by (simp add: extracted_post_def)
    ultimately show ?thesis using Some T(1) 1(1) by (simp add: tree_Extract_def Let_def)
  next
    case None
    with X have e1: "on_bucket False (index_in False tb' (HF k)) (\<lambda>s. avl_Extract cmp gk s k) tb' = Some (nullptr, tb')" by simp
    show ?thesis
    proof (cases "tree_InRehashing tb'")
      case False
      then show ?thesis using None T e1 1 by (auto simp: tree_Extract_def Let_def)
    next
      case True
      show ?thesis
      proof (cases "entry_map gk (slots_entries (tbl True (tht_abs tb' us1 us2))) k")
        case n2: None
        with Y True have "on_bucket True (index_in True tb' (HF k)) (\<lambda>s. avl_Extract cmp gk s k) tb' = Some (nullptr, tb')" by simp
        then show ?thesis using None n2 T(1) e1 1 True by (auto simp: tree_Extract_def Let_def)
      next
        case (Some v)
        with Y True obtain a tb2 where "on_bucket True (index_in True tb' (HF k)) (\<lambda>s. avl_Extract cmp gk s k) tb' = Some (a, tb2)"
          "extracted_post HF cmp gk v tb (tht_entries tb ts1 ts2) a (dec_used tb2)" by auto
        moreover from this(2) have "a \<noteq> nullptr" by (simp add: extracted_post_def)
        ultimately show ?thesis using Some None T(1) e1 1(1) True by (simp add: tree_Extract_def Let_def)
      qed
    qed
  qed
qed

text \<open>\<open>Erase\<close> frees the node it takes out.\<close>

lemma entry_map_of:
  "tht_ok HF cmp gk tb ts1 ts2 \<Longrightarrow> tht_map gk tb ts1 ts2 k = Some v \<Longrightarrow> gk v = k"
  using entry_map_iff [of gk "tht_entries tb ts1 ts2" k v] by (simp add: tht_ok_def ht_inv_def tht_map_def tht_entries_def)

lemma tht_map_remove:
  assumes "tht_ok HF cmp gk tb ts1 ts2" and "tht_entries tb ts1 ts2 = add_mset v (tht_entries tb' ts1' ts2')"
  shows "tht_map gk tb' ts1' ts2' = (tht_map gk tb ts1 ts2)(gk v := None)"
proof -
  have "unique_keys gk (tht_entries tb ts1 ts2)" using assms(1) by (simp add: tht_ok_def ht_inv_def tht_entries_def)
  then show ?thesis using entry_map_remove [of gk v "tht_entries tb' ts1' ts2'"] by (simp add: tht_map_def assms(2))
qed

lemma tree_Erase_ok:
  assumes ok: "tht_ok HF cmp gk tb ts1 ts2"
  shows "\<exists>tb' ts1' ts2'. tree_Erase HF cmp gk k tb = Some (if tht_map gk tb ts1 ts2 k = None then 0 else 1, tb')
    \<and> tht_ok HF cmp gk tb' ts1' ts2' \<and> tht_map gk tb' ts1' ts2' = (tht_map gk tb ts1 ts2)(k := None)
    \<and> size (tht_entries tb' ts1' ts2') \<le> size (tht_entries tb ts1 ts2) \<and> dom (tree_nodes tb') \<subseteq> dom (tree_nodes tb)"
proof (cases "tht_map gk tb ts1 ts2 k")
  case None
  with tree_Extract_ok [OF ok, of k] obtain tb' ts1' ts2' where e: "tree_Extract HF cmp gk k tb = Some (nullptr, tb')"
    "tht_ok HF cmp gk tb' ts1' ts2'" "tht_entries tb' ts1' ts2' = tht_entries tb ts1 ts2" "dom (tree_nodes tb') = dom (tree_nodes tb)" by auto
  then show ?thesis using None
    by - (rule exI [of _ tb'], rule exI [of _ ts1'], rule exI [of _ ts2'], auto simp: tree_Erase_def tht_map_def fun_eq_iff)
next
  case (Some v)
  with tree_Extract_ok [OF ok, of k] obtain a tb' where "tree_Extract HF cmp gk k tb = Some (a, tb')"
    "extracted_post HF cmp gk v tb (tht_entries tb ts1 ts2) a tb'" by auto
  then obtain ts1' ts2' n where e: "tree_Extract HF cmp gk k tb = Some (a, tb')" "a \<noteq> nullptr" "tht_ok HF cmp gk tb' ts1' ts2'"
    "tht_entries tb ts1 ts2 = add_mset v (tht_entries tb' ts1' ts2')" "tree_nodes tb' a = Some n"
    "a \<notin> forest_nodes ts1' \<union> forest_nodes ts2'" "dom (tree_nodes tb') = dom (tree_nodes tb)" by (auto simp: extracted_post_def)
  let ?h = "(tree_nodes tb')(a := None)"
  have "tree_Erase HF cmp gk k tb = Some (1, tb'\<lparr>tree_nodes := ?h\<rparr>)"
    using e(1,2,5) by (simp add: tree_Erase_def avl_DropNode_def deref_def)
  moreover have fr: "?h b = tree_nodes tb' b" if "b \<in> forest_nodes ts1' \<union> forest_nodes ts2'" for b using e(6) that by auto
  note F = tht_ok_frame [OF e(3) fr]
  have "tht_map gk (tb'\<lparr>tree_nodes := ?h\<rparr>) ts1' ts2' = (tht_map gk tb ts1 ts2)(gk v := None)"
    using e(4) F(2) by (intro tht_map_remove [OF ok]) (simp del: fun_upd_apply)
  moreover have "gk v = k" by (rule entry_map_of [OF ok Some])
  moreover have "dom ?h \<subseteq> dom (tree_nodes tb)" using e(7) by auto
  ultimately show ?thesis using Some F e(4)
    by - (rule exI [of _ "tb'\<lparr>tree_nodes := ?h\<rparr>"], rule exI [of _ ts1'], rule exI [of _ ts2'], simp del: fun_upd_apply)
qed

text \<open>\<open>EraseNode\<close> of a node that is in the bucket of its key; the count stays as it was.\<close>

lemma tree_EraseNode_ok:
  assumes ok: "tht_ok HF cmp gk tb ts1 ts2" and sec: "second \<longrightarrow> tree_InRehashing tb"
    and a: "a \<in> set (inord (trees second ts1 ts2 ! unat (index_in second tb (HF (gk v)))))" "tree_nodes tb a = Some n" "node_value n = v"
  shows "\<exists>tb' ts1' ts2'. tree_EraseNode (second, index_in second tb (HF (gk v))) a tb = Some (True, tb')
    \<and> tht_rel cmp gk tb' ts1' ts2' \<and> tht_entries tb ts1 ts2 = add_mset v (tht_entries tb' ts1' ts2')
    \<and> tht_size tb' = tht_size tb \<and> tree_nodes tb' a = None"
proof -
  let ?i = "index_in second tb (HF (gk v))"
  from ok have c: "comparator cmp" by (simp add: tht_ok_def)
  note B = bucket_at_ok [where k = "gk v", OF ok sec]
  let ?s = "tree_of (tree_nodes tb) (buckets (ttable second tb) ! unat ?i)" and ?t = "trees second ts1 ts2 ! unat ?i"
  from bucket_erase_node_ok [OF c B(3) a(1)] obtain s' t' where X: "avl_EraseNode ?s a = Some (True, s')" "tree_inv cmp gk s' t'"
    "mset (vals ?s ?t) = add_mset (value_at ?s a) (mset (vals s' t'))" "set (inord ?t) = insert a (set (inord t'))" "a \<notin> set (inord t')"
    "\<forall>b. b \<notin> set (inord ?t) \<longrightarrow> nodes s' b = nodes ?s b" "nodes s' a = None" by blast
  have v: "value_at ?s a = v" using a(2,3) by (simp add: value_at_def)
  from bucket_loses [OF ok sec X(2), of v a] X(3-6) v obtain ts1' ts2' where
    Y: "tht_rel cmp gk (with_bucket second ?i s' tb) ts1' ts2'"
      "tht_entries tb ts1 ts2 = add_mset v (tht_entries (with_bucket second ?i s' tb) ts1' ts2')" by auto
  have "tree_EraseNode (second, ?i) a tb = Some (True, with_bucket second ?i s' tb)"
    using B(2) X(1) by (simp add: tree_EraseNode_def on_bucket_eq)
  then show ?thesis using Y X(7)
    by - (rule exI [of _ "with_bucket second ?i s' tb"], rule exI [of _ ts1'], rule exI [of _ ts2'], simp add: tht_size_def)
qed

section \<open>Construction and clearing\<close>

lemma forest_replicate_rel:
  "buckets t1 = replicate n nullptr \<Longrightarrow> buckets t2 = [] \<Longrightarrow>
    tht_rel cmp gk \<lparr>tree_nodes = h, ttable1 = t1, ttable2 = t2, tree_move_index = m\<rparr> (replicate n Tip) []"
  by (simp add: tht_rel_def forest_replicate)

lemma cleared_ok:
  fixes h :: "'v AvlNode heap"
  assumes c: "comparator cmp" and "buckets t1 = replicate 4 nullptr" and "tt_used t1 = 0" and "tt_mask t1 = 3" and "buckets t2 = []"
  defines "tb \<equiv> \<lparr>tree_nodes = h, ttable1 = t1, ttable2 = t2, tree_move_index = - 1\<rparr>"
  shows "tht_ok HF cmp gk tb (replicate 4 Tip) [] \<and> tht_entries tb (replicate 4 Tip) [] = {#}"
proof -
  have "tht_abs tb (replicate 4 Tip) [] = \<lparr>table1 = abs_table h t1 (replicate 4 Tip), table2 = abs_table h t2 [],
      rehash_move_bucket_index = - 1\<rparr>" by (simp add: tht_abs_def tb_def)
  moreover have "ht_inv HF gk \<lparr>table1 = abs_table h t1 (replicate 4 Tip), table2 = abs_table h t2 [], rehash_move_bucket_index = - 1\<rparr>
    \<and> entries \<lparr>table1 = abs_table h t1 (replicate 4 Tip), table2 = abs_table h t2 [], rehash_move_bucket_index = - 1\<rparr> = {#}"
    using assms(3,4) by (intro cleared_inv) simp_all
  ultimately show ?thesis using forest_replicate_rel [OF assms(2,5), of cmp gk h "- 1"] c
    by (simp add: tht_ok_def tht_entries_def tb_def tht_abs_def)
qed

lemma TreeHashTable_new_ok:
  "TreeHashTable_new True h = Inr \<lparr>tree_nodes = h, ttable1 = \<lparr>buckets = replicate 4 nullptr, tt_used = 0, tt_mask = 3\<rparr>,
     ttable2 = TreeTable_init, tree_move_index = - 1\<rparr>"
  "TreeHashTable_new False h = Inl bad_alloc"
  by (simp_all add: TreeHashTable_new_def TreeTable_new_def TreeTable_Grow_def TreeTable_init_def TreeTable_size_def)

lemma tree_new_inv:
  assumes "comparator cmp" and "TreeHashTable_new mem h = Inr tb"
  shows "tht_ok HF cmp gk tb (replicate 4 Tip) [] \<and> tht_entries tb (replicate 4 Tip) [] = {#} \<and> tree_nodes tb = h"
  using assms(2) cleared_ok [OF assms(1), of "\<lparr>buckets = replicate 4 nullptr, tt_used = 0, tt_mask = 3\<rparr>" TreeTable_init]
  by (cases mem) (auto simp: TreeHashTable_new_ok TreeTable_init_def)

end
