(* ===== verification/Tree_Hash_Clear.thy ===== *)
theory Tree_Hash_Clear
  imports Tree_Hash_Erase
begin

text \<open>
  \<open>Clear\<close> and \<open>ClearApply\<close> of \<open>TreeHashTable\<close>: emptying some buckets of a table, dropping the last
  buckets, and the two operations, which differ in the order of these and in the callback.
\<close>

section \<open>Emptying buckets\<close>

definition node_vals :: "'v AvlNode heap \<Rightarrow> ptr atree \<Rightarrow> 'v list" where
  "node_vals h t = map (\<lambda>a. node_value (the (h a))) (postord t)"

definition emptied :: "nat list \<Rightarrow> ptr atree list \<Rightarrow> ptr atree list" where
  "emptied js ts = fold (\<lambda>i ts. ts[i := Tip]) js ts"

lemma length_emptied [simp]: "length (emptied js ts) = length ts"
  unfolding emptied_def by (induction js arbitrary: ts) simp_all

lemma nth_emptied: "i < length ts \<Longrightarrow> emptied js ts ! i = (if i \<in> set js then Tip else ts ! i)"
  unfolding emptied_def by (induction js arbitrary: ts) (auto simp: nth_list_update)

lemma emptied_all: "emptied [0..<length ts] ts = replicate (length ts) Tip"
  by (rule nth_equalityI) (simp_all add: nth_emptied)

lemma emptied_tail: "n \<le> length ts \<Longrightarrow> emptied [n..<length ts] ts = take n ts @ replicate (length ts - n) Tip"
  by (rule nth_equalityI) (auto simp: nth_emptied nth_append)

lemma node_vals_restrict: "set (inord t) \<inter> A = {} \<Longrightarrow> node_vals (h |` (- A)) t = node_vals h t"
  by (auto simp: node_vals_def restrict_map_def)

lemma forest_nodes_UN: "forest_nodes ts = (\<Union>t \<in> set ts. set (inord t))"
  by (simp add: forest_nodes_def)

lemma map_node_vals_restrict:
  "forest_nodes ts \<inter> A = {} \<Longrightarrow> map (node_vals (h |` (- A))) ts = map (node_vals h) ts"
  by (rule map_cong [OF refl], rule node_vals_restrict) (auto simp: forest_nodes_UN)

lemma forest_nodes_tips [simp]: "forest_nodes (replicate n Tip) = {}"
  by (auto simp: forest_nodes_UN)

lemma inord_apart:
  "distinct (concat (map inord ts)) \<Longrightarrow> i < length ts \<Longrightarrow> j < length ts \<Longrightarrow> j \<noteq> i \<Longrightarrow> set (inord (ts ! j)) \<inter> set (inord (ts ! i)) = {}"
proof (induction ts arbitrary: i j)
  case (Cons t ts)
  have "set (inord t) \<inter> set (inord (ts ! k)) = {}" if "k < length ts" for k using Cons.prems(1) that by (auto dest: nth_mem)
  then show ?case using Cons by (cases i; cases j) (auto simp: Int_commute)
qed simp

text \<open>What emptying buckets of one table leaves alone.\<close>

definition same_shape :: "bool \<Rightarrow> 'v TreeHashTable \<Rightarrow> 'v TreeHashTable \<Rightarrow> bool" where
  "same_shape second tb tb' \<longleftrightarrow> tt_mask (ttable second tb') = tt_mask (ttable second tb)
     \<and> ttable (\<not> second) tb' = ttable (\<not> second) tb \<and> tree_move_index tb' = tree_move_index tb"

lemma apply_bucket_ok:
  assumes rel: "tht_rel cmp gk tb ts1 ts2" and i: "i < length (trees second ts1 ts2)" and small: "length (trees second ts1 ts2) < 2 ^ 64"
  shows "\<exists>tb'. on_bucket second (of_nat i) (\<lambda>s. avl_ClearApply cb s x) tb
        = Some (fold cb (node_vals (tree_nodes tb) (trees second ts1 ts2 ! i)) x, tb')
    \<and> tht_rel cmp gk tb' (if second then ts1 else ts1[i := Tip]) (if second then ts2[i := Tip] else ts2)
    \<and> tree_nodes tb' = tree_nodes tb |` (- set (inord (trees second ts1 ts2 ! i))) \<and> same_shape second tb tb'"
proof -
  let ?t = "trees second ts1 ts2 ! i" and ?r = "buckets (ttable second tb) ! i"
  have u: "unat (of_nat i :: size_t) = i" using i small by (intro unat_of_nat_lt) simp
  have l: "length (buckets (ttable second tb)) = length (trees second ts1 ts2)"
    and F: "forest cmp gk (tree_nodes tb) (buckets (ttable second tb)) (trees second ts1 ts2)"
    using rel by (auto simp: tht_rel_def ttable_def trees_def)
  have at: "root_at (ttable second tb) (of_nat i) = Some ?r" using i l u by (simp add: root_at_def)
  have "rooted (tree_of (tree_nodes tb) ?r) ?t" using forest_at [OF F i] by (simp add: tree_inv_def)
  from ClearApply_at [OF this, of cb x] obtain s' where s':
    "avl_ClearApply cb (tree_of (tree_nodes tb) ?r) x = Some (fold cb (node_vals (tree_nodes tb) ?t) x, s')" "rooted s' Tip"
    "nodes s' = tree_nodes tb |` (- set (inord ?t))"
    by (auto simp: node_vals_def value_tree_of fold_map comp_def)
  have inv: "tree_inv cmp gk s' Tip" using s'(2) by (simp add: rooted_Tip tree_inv_Tip)
  have fr: "nodes s' a = tree_nodes tb a" if "a \<notin> {} \<union> set (inord (trees second ts1 ts2 ! unat (of_nat i :: size_t)))" for a
    using s'(3) that by (simp add: u)
  have il: "unat (of_nat i :: size_t) < length (trees second ts1 ts2)" using i u by simp
  have "tht_rel cmp gk (with_bucket second (of_nat i) s' tb) (if second then ts1 else ts1[i := Tip]) (if second then ts2[i := Tip] else ts2)"
    using bucket_changed [where N = "{}", OF rel il inv _ _ fr] by (cases second) (simp_all add: u)
  moreover have "same_shape second tb (with_bucket second (of_nat i) s' tb)"
    by (cases second) (simp_all add: same_shape_def with_bucket_def set_ttable_def ttable_def root_set_def)
  ultimately show ?thesis using s' by (intro exI [of _ "with_bucket second (of_nat i) s' tb"]) (simp add: on_bucket_eq [OF at])
qed

lemma apply_buckets_ok:
  "tht_rel cmp gk tb ts1 ts2 \<Longrightarrow> length (trees second ts1 ts2) < 2 ^ 64 \<Longrightarrow> distinct js \<Longrightarrow>
    \<forall>i \<in> set js. i < length (trees second ts1 ts2) \<Longrightarrow>
    \<exists>tb'. apply_buckets cb second js tb x
        = Some (fold cb (concat (map (\<lambda>i. node_vals (tree_nodes tb) (trees second ts1 ts2 ! i)) js)) x, tb')
      \<and> tht_rel cmp gk tb' (if second then ts1 else emptied js ts1) (if second then emptied js ts2 else ts2)
      \<and> tree_nodes tb' = tree_nodes tb |` (- (\<Union>i \<in> set js. set (inord (trees second ts1 ts2 ! i)))) \<and> same_shape second tb tb'"
proof (induction js arbitrary: tb ts1 ts2 x)
  case Nil
  then show ?case by (simp add: emptied_def same_shape_def restrict_map_def)
next
  case (Cons i js)
  let ?T = "trees second ts1 ts2"
  let ?ts1 = "if second then ts1 else ts1[i := Tip]" and ?ts2 = "if second then ts2[i := Tip] else ts2"
  have i: "i < length ?T" "i \<notin> set js" using Cons.prems(3,4) by simp_all
  from apply_bucket_ok [OF Cons.prems(1) i(1) Cons.prems(2), of cb x] obtain tb1 where
    1: "on_bucket second (of_nat i) (\<lambda>s. avl_ClearApply cb s x) tb = Some (fold cb (node_vals (tree_nodes tb) (?T ! i)) x, tb1)"
      "tht_rel cmp gk tb1 ?ts1 ?ts2" "tree_nodes tb1 = tree_nodes tb |` (- set (inord (?T ! i)))" "same_shape second tb tb1" by blast
  have T: "trees second ?ts1 ?ts2 = ?T[i := Tip]" by (simp add: trees_def)
  have "forest cmp gk (tree_nodes tb) (buckets (ttable second tb)) ?T"
    using Cons.prems(1) by (auto simp: tht_rel_def ttable_def trees_def)
  then have dist: "distinct (concat (map inord ?T))" by (simp add: forest_def)
  have dj: "set (inord (?T ! j)) \<inter> set (inord (?T ! i)) = {}" if "j \<in> set js" for j
    by (rule inord_apart [OF dist]) (use that i Cons.prems(4) in auto)
  have "\<exists>tb'. apply_buckets cb second js tb1 (fold cb (node_vals (tree_nodes tb) (?T ! i)) x)
        = Some (fold cb (concat (map (\<lambda>j. node_vals (tree_nodes tb1) (trees second ?ts1 ?ts2 ! j)) js))
            (fold cb (node_vals (tree_nodes tb) (?T ! i)) x), tb')
      \<and> tht_rel cmp gk tb' (if second then ?ts1 else emptied js ?ts1) (if second then emptied js ?ts2 else ?ts2)
      \<and> tree_nodes tb' = tree_nodes tb1 |` (- (\<Union>j \<in> set js. set (inord (trees second ?ts1 ?ts2 ! j)))) \<and> same_shape second tb1 tb'"
    by (rule Cons.IH [OF 1(2)]) (use Cons.prems(2-4) in \<open>simp_all add: T\<close>)
  then obtain tb' where 2: "apply_buckets cb second js tb1 (fold cb (node_vals (tree_nodes tb) (?T ! i)) x)
        = Some (fold cb (concat (map (\<lambda>j. node_vals (tree_nodes tb1) (trees second ?ts1 ?ts2 ! j)) js))
            (fold cb (node_vals (tree_nodes tb) (?T ! i)) x), tb')"
      "tht_rel cmp gk tb' (if second then ?ts1 else emptied js ?ts1) (if second then emptied js ?ts2 else ?ts2)"
      "tree_nodes tb' = tree_nodes tb1 |` (- (\<Union>j \<in> set js. set (inord (trees second ?ts1 ?ts2 ! j))))" "same_shape second tb1 tb'" by blast
  have other: "trees second ?ts1 ?ts2 ! j = ?T ! j" "node_vals (tree_nodes tb1) (?T ! j) = node_vals (tree_nodes tb) (?T ! j)"
    if "j \<in> set js" for j
  proof -
    have "j \<noteq> i" using that i(2) by blast
    then show "trees second ?ts1 ?ts2 ! j = ?T ! j" unfolding T by simp
    show "node_vals (tree_nodes tb1) (?T ! j) = node_vals (tree_nodes tb) (?T ! j)"
      unfolding 1(3) by (rule node_vals_restrict [OF dj [OF that]])
  qed
  have vals: "map (\<lambda>j. node_vals (tree_nodes tb1) (trees second ?ts1 ?ts2 ! j)) js = map (\<lambda>j. node_vals (tree_nodes tb) (?T ! j)) js"
    by (rule map_cong) (simp_all only: other)
  have un: "(\<Union>j \<in> set js. set (inord (trees second ?ts1 ?ts2 ! j))) = (\<Union>j \<in> set js. set (inord (?T ! j)))"
    by (rule SUP_cong) (simp_all only: other)
  have "tree_nodes tb' = tree_nodes tb |` (- (\<Union>j \<in> set (i # js). set (inord (?T ! j))))"
    unfolding 2(3) 1(3) un by (auto simp: restrict_map_def fun_eq_iff)
  moreover have "same_shape second tb tb'" using 1(4) 2(4) by (simp add: same_shape_def)
  ultimately show ?case using 1(1) 2(1,2) unfolding vals by (cases second) (simp_all add: emptied_def)
qed

section \<open>Dropping buckets\<close>

lemma forest_take_drop:
  assumes "forest cmp gk h rs ts"
  shows "forest cmp gk h (take n rs) (take n ts)" and "forest cmp gk h (drop n rs) (drop n ts)"
    and "forest_nodes (take n ts) \<inter> forest_nodes (drop n ts) = {}"
    and "forest_nodes ts = forest_nodes (take n ts) \<union> forest_nodes (drop n ts)"
proof -
  have l: "length (take n rs) = length (take n ts)" using forest_length [OF assms] by simp
  have "forest cmp gk h (take n rs @ drop n rs) (take n ts @ drop n ts)" using assms by simp
  then show "forest cmp gk h (take n rs) (take n ts)" "forest cmp gk h (drop n rs) (drop n ts)"
    "forest_nodes (take n ts) \<inter> forest_nodes (drop n ts) = {}" unfolding forest_append [OF l] by blast+
  show "forest_nodes ts = forest_nodes (take n ts) \<union> forest_nodes (drop n ts)"
    using forest_nodes_simps(3) [of "take n ts" "drop n ts"] by simp
qed

lemma Shrink_ok:
  assumes F: "forest cmp gk h (buckets t) ts" and n: "unat n \<le> length ts" and small: "length ts < 2 ^ 64"
  shows "TreeTable_cut n h t = Some (h |` (- forest_nodes (drop (unat n) ts)), t\<lparr>buckets := take (unat n) (buckets t), tt_mask := n - 1\<rparr>)"
proof -
  have l: "length (buckets t) = length ts" by (rule forest_length [OF F])
  have sz: "unat (TreeTable_size t) = length ts" unfolding TreeTable_size_def l using small by (intro unat_of_nat_lt) simp
  show ?thesis
  proof (cases "TreeTable_size t \<le> n")
    case True
    then have "unat n = length ts" using sz n by (simp add: word_le_nat_alt)
    moreover from this have "n = TreeTable_size t" using sz by (simp add: word_unat_eq_iff)
    ultimately show ?thesis using l by (simp add: TreeTable_cut_def restrict_map_def)
  next
    case False
    then show ?thesis using destroy_buckets_ok [OF forest_take_drop(2) [OF F, of "unat n"]] by (simp add: TreeTable_cut_def)
  qed
qed

text \<open>With memory, or down to no bucket, \<open>Shrink\<close> is this cut of a table of the pair.\<close>

definition cut_ttable :: "bool \<Rightarrow> size_t \<Rightarrow> 'v TreeHashTable \<Rightarrow> 'v TreeHashTable option" where
  "cut_ttable second n tb = do {
     (h, t) \<leftarrow> TreeTable_cut n (tree_nodes tb) (ttable second tb);
     Some (set_ttable second t (tb\<lparr>tree_nodes := h\<rparr>)) }"

lemma shrink_ttable_cut:
  "ok \<or> n = 0 \<Longrightarrow> shrink_ttable ok second n tb = do { tb \<leftarrow> cut_ttable second n tb; Some (Inr tb) }"
  by (auto simp: shrink_ttable_def cut_ttable_def TreeTable_Shrink_def split: bind_splits)

lemma shrink_ttable_throws:
  assumes "cut_ttable second n tb = Some tb'" and "n < TreeTable_size (ttable second tb)" and "n \<noteq> 0"
  shows "shrink_ttable False second n tb = Some (Inl bad_alloc)"
  using assms by (auto simp: shrink_ttable_def cut_ttable_def TreeTable_Shrink_def split: bind_splits)

lemma shrink_first_ok:
  assumes rel: "tht_rel cmp gk tb ts1 ts2" and n: "unat n \<le> length ts1" and small: "length ts1 < 2 ^ 64"
  shows "\<exists>tb'. cut_ttable False n tb = Some tb' \<and> tht_rel cmp gk tb' (take (unat n) ts1) ts2
    \<and> tree_nodes tb' = tree_nodes tb |` (- forest_nodes (drop (unat n) ts1)) \<and> tt_mask (ttable1 tb') = n - 1
    \<and> ttable2 tb' = ttable2 tb \<and> tree_move_index tb' = tree_move_index tb"
proof -
  from rel have l: "length (buckets (ttable1 tb)) = length ts1" "length (buckets (ttable2 tb)) = length ts2"
    and F1: "forest cmp gk (tree_nodes tb) (buckets (ttable1 tb)) ts1" and F2: "forest cmp gk (tree_nodes tb) (buckets (ttable2 tb)) ts2"
    and dj: "forest_nodes ts1 \<inter> forest_nodes ts2 = {}" by (simp_all add: tht_rel_def)
  note D = forest_take_drop [OF F1, of "unat n"]
  let ?h = "tree_nodes tb |` (- forest_nodes (drop (unat n) ts1))"
  have "forest cmp gk ?h (take (unat n) (buckets (ttable1 tb))) (take (unat n) ts1)"
    by (rule forest_frame(1) [OF D(1)]) (use D(3) in \<open>auto simp: restrict_map_def\<close>)
  moreover have "forest cmp gk ?h (buckets (ttable2 tb)) ts2"
    by (rule forest_frame(1) [OF F2]) (use D(4) dj in \<open>auto simp: restrict_map_def\<close>)
  moreover have "forest_nodes (take (unat n) ts1) \<inter> forest_nodes ts2 = {}" using D(4) dj by blast
  ultimately show ?thesis using Shrink_ok [OF F1 n small] l
    by (simp add: cut_ttable_def ttable_def set_ttable_def tht_rel_def)
qed

lemma shrink_second_ok:
  assumes rel: "tht_rel cmp gk tb ts1 ts2" and small: "length ts2 < 2 ^ 64"
  shows "\<exists>tb'. cut_ttable True 0 tb = Some tb' \<and> buckets (ttable2 tb') = []
    \<and> tree_nodes tb' = tree_nodes tb |` (- forest_nodes ts2) \<and> ttable1 tb' = ttable1 tb"
proof -
  from rel have F2: "forest cmp gk (tree_nodes tb) (buckets (ttable2 tb)) ts2" by (simp add: tht_rel_def)
  then show ?thesis using Shrink_ok [OF F2 _ small, of 0] by (simp add: cut_ttable_def ttable_def set_ttable_def)
qed

section \<open>The parts of the two operations\<close>

text \<open>Emptying every bucket from one index on.\<close>

lemma apply_tail_ok:
  fixes tb :: "'v TreeHashTable"
  assumes rel: "tht_rel cmp gk tb ts1 ts2" and m: "m \<le> length (trees second ts1 ts2)" and small: "length (trees second ts1 ts2) < 2 ^ 64"
  shows "\<exists>tb'. apply_buckets cb second [m..<length (trees second ts1 ts2)] tb x
        = Some (fold cb (concat (map (node_vals (tree_nodes tb)) (drop m (trees second ts1 ts2)))) x, tb')
    \<and> tht_rel cmp gk tb' (if second then ts1 else take m ts1 @ replicate (length ts1 - m) Tip)
        (if second then take m ts2 @ replicate (length ts2 - m) Tip else ts2)
    \<and> tree_nodes tb' = tree_nodes tb |` (- forest_nodes (drop m (trees second ts1 ts2))) \<and> same_shape second tb tb'"
proof -
  let ?T = "trees second ts1 ts2"
  have nth: "map (\<lambda>i. ?T ! i) [m..<length ?T] = drop m ?T" by (rule nth_equalityI) simp_all
  have "map (\<lambda>i. node_vals h (?T ! i)) [m..<length ?T] = map (node_vals h) (drop m ?T)" for h :: "'v AvlNode heap"
    unfolding nth [symmetric] by (simp add: comp_def)
  moreover have "(\<Union>i \<in> set [m..<length ?T]. set (inord (?T ! i))) = forest_nodes (drop m ?T)"
    unfolding nth [symmetric] by (simp add: forest_nodes_UN)
  moreover have "emptied [m..<length ?T] (if second then ts2 else ts1) = take m ?T @ replicate (length ?T - m) Tip"
    using emptied_tail [OF m] by (simp add: trees_def split: if_splits)
  ultimately show ?thesis using apply_buckets_ok [OF rel small, of "[m..<length ?T]" cb x] by (cases second) (simp_all add: trees_def)
qed

text \<open>The first table keeps four buckets, which are emptied.\<close>

lemma clear_first_ok:
  assumes rel: "tht_rel cmp gk tb ts1 ts2" and b: "4 \<le> length ts1" "length ts1 < 2 ^ 64"
  shows "\<exists>tb1 tb2. cut_ttable False 4 tb = Some tb1
    \<and> apply_buckets cb False [0..<4] tb1 x = Some (fold cb (concat (map (node_vals (tree_nodes tb)) (take 4 ts1))) x, tb2)
    \<and> tht_rel cmp gk tb2 (replicate 4 Tip) ts2 \<and> tree_nodes tb2 = tree_nodes tb |` (- forest_nodes ts1)
    \<and> tt_mask (ttable1 tb2) = 3 \<and> ttable2 tb2 = ttable2 tb \<and> tree_move_index tb2 = tree_move_index tb"
proof -
  have F: "forest cmp gk (tree_nodes tb) (buckets (ttable1 tb)) ts1" using rel by (simp add: tht_rel_def)
  note D = forest_take_drop(3,4) [OF F, of 4]
  from shrink_first_ok [OF rel _ b(2), of 4] b(1) obtain tb1 where 1: "cut_ttable False 4 tb = Some tb1"
    "tht_rel cmp gk tb1 (take 4 ts1) ts2" "tree_nodes tb1 = tree_nodes tb |` (- forest_nodes (drop 4 ts1))"
    "tt_mask (ttable1 tb1) = 3" "ttable2 tb1 = ttable2 tb" "tree_move_index tb1 = tree_move_index tb" by auto
  have T: "trees False (take 4 ts1) ts2 = take 4 ts1" "length (take 4 ts1) = 4" using b(1) by (simp_all add: trees_def)
  have same: "map (node_vals (tree_nodes tb1)) (take 4 ts1) = map (node_vals (tree_nodes tb)) (take 4 ts1)"
    unfolding 1(3) by (rule map_node_vals_restrict [OF D(1)])
  have "tree_nodes tb |` (- forest_nodes (drop 4 ts1)) |` (- forest_nodes (take 4 ts1)) = tree_nodes tb |` (- forest_nodes ts1)"
    unfolding D(2) by (auto simp: restrict_map_def fun_eq_iff)
  moreover from apply_tail_ok [OF 1(2), of 0 False cb x, unfolded T] obtain tb2 where
    "apply_buckets cb False [0..<4] tb1 x = Some (fold cb (concat (map (node_vals (tree_nodes tb)) (take 4 ts1))) x, tb2)"
    "tht_rel cmp gk tb2 (replicate 4 Tip) ts2" "tree_nodes tb2 = tree_nodes tb1 |` (- forest_nodes (take 4 ts1))" "same_shape False tb1 tb2"
    by (auto simp: same [symmetric] simp del: map_eq_conv)
  ultimately show ?thesis using 1 by (simp add: same_shape_def ttable_def)
qed

text \<open>The second table loses all its buckets, after the callback has seen what they hold.\<close>

lemma clear_second_ok:
  assumes rel: "tht_rel cmp gk tb ts1 ts2" and small: "length ts2 < 2 ^ 64"
  shows "\<exists>tb1 tb2. apply_buckets cb True [0..<length (buckets (ttable2 tb))] tb x
        = Some (fold cb (concat (map (node_vals (tree_nodes tb)) ts2)) x, tb1)
    \<and> cut_ttable True 0 tb1 = Some tb2 \<and> buckets (ttable2 tb2) = []
    \<and> tree_nodes tb2 = tree_nodes tb |` (- forest_nodes ts2) \<and> ttable1 tb2 = ttable1 tb"
proof -
  have l: "length (buckets (ttable2 tb)) = length ts2" using rel by (simp add: tht_rel_def)
  from apply_tail_ok [OF rel, of 0 True cb x] small obtain tb1 where 1: "apply_buckets cb True [0..<length ts2] tb x
      = Some (fold cb (concat (map (node_vals (tree_nodes tb)) ts2)) x, tb1)" "tht_rel cmp gk tb1 ts1 (replicate (length ts2) Tip)"
    "tree_nodes tb1 = tree_nodes tb |` (- forest_nodes ts2)" "ttable1 tb1 = ttable1 tb"
    by (auto simp: trees_def same_shape_def ttable_def)
  from shrink_second_ok [OF 1(2)] small obtain tb2 where 2: "cut_ttable True 0 tb1 = Some tb2" "buckets (ttable2 tb2) = []"
    "tree_nodes tb2 = tree_nodes tb1" "ttable1 tb2 = ttable1 tb1" by (auto simp: restrict_map_def)
  show ?thesis using 1 2 by (simp add: l)
qed

text \<open>What remains at the end is the state of a new table.\<close>

lemma clear_finish:
  assumes c: "comparator cmp" and rel: "tht_rel cmp gk tb (replicate 4 Tip) ts2" and m: "tt_mask (ttable1 tb) = 3"
    and tb': "ttable1 tb' = (ttable1 tb)\<lparr>tt_used := 0\<rparr>" "buckets (ttable2 tb') = []"
  shows "tht_ok HF cmp gk (tb'\<lparr>tree_move_index := - 1\<rparr>) (replicate 4 Tip) []
    \<and> tht_entries (tb'\<lparr>tree_move_index := - 1\<rparr>) (replicate 4 Tip) [] = {#}"
proof -
  have "forest cmp gk (tree_nodes tb) (buckets (ttable1 tb)) (replicate 4 Tip)" using rel by (simp add: tht_rel_def)
  then have "list_all2 (\<lambda>r t. r = nullptr) (buckets (ttable1 tb)) (replicate 4 (Tip :: ptr atree))"
    unfolding forest_def by (auto simp: list_all2_conv_all_nth tree_inv_def rooted_Tip)
  then have "buckets (ttable1 tb') = replicate 4 nullptr" by (auto simp: tb'(1) list_all2_conv_all_nth intro: nth_equalityI)
  moreover have "tt_used (ttable1 tb') = 0" "tt_mask (ttable1 tb') = 3" using m by (simp_all add: tb'(1))
  moreover have "tb'\<lparr>tree_move_index := - 1\<rparr> = \<lparr>tree_nodes = tree_nodes tb', ttable1 = ttable1 tb', ttable2 = ttable2 tb', tree_move_index = - 1\<rparr>"
    by (cases tb') simp
  ultimately show ?thesis using cleared_ok [OF c _ _ _ tb'(2)] by metis
qed

lemma tht_ok_small:
  assumes "tht_ok HF cmp gk tb ts1 ts2"
  shows "4 \<le> length ts1" "length ts1 < 2 ^ 64" "length ts2 < 2 ^ 64" "\<not> tree_InRehashing tb \<Longrightarrow> ts2 = []"
proof -
  from assms have inv: "ht_inv HF gk (tht_abs tb ts1 ts2)" by (simp add: tht_ok_def)
  from ht_inv_bounds(2,3) [OF inv] have b: "4 \<le> length ts1" "length ts1 < 2 ^ 64" "length ts1 \<le> 2 ^ 60" by simp_all
  then show "4 \<le> length ts1" "length ts1 < 2 ^ 64" by simp_all
  show "length ts2 < 2 ^ 64" using inv b(3) by (auto simp: ht_inv_def split: if_splits)
  show "\<not> tree_InRehashing tb \<Longrightarrow> ts2 = []" using inv by (simp add: ht_inv_def)
qed

section \<open>The two operations\<close>

lemma mset_node_vals: "mset (concat (map (node_vals h) ts)) = mset (map (\<lambda>a. node_value (the (h a))) (concat (map inord ts)))"
  by (induction ts) (simp_all add: node_vals_def mset_postord)

lemma node_vals_entries:
  "mset (concat (map (node_vals (tree_nodes tb)) (drop n ts1)) @ concat (map (node_vals (tree_nodes tb)) (take n ts1))
      @ concat (map (node_vals (tree_nodes tb)) ts2)) = tht_entries tb ts1 ts2"
proof -
  have "concat (map inord ts1) = concat (map inord (take n ts1)) @ concat (map inord (drop n ts1))"
    by (metis append_take_drop_id concat_append map_append)
  then show ?thesis unfolding all_values [symmetric] by (simp add: mset_node_vals del: mset_map)
qed

lemma Clear_as_apply: "avl_ClearApply (\<lambda>_ _. ()) s () = do { s \<leftarrow> avl_Clear s; Some ((), s) }"
proof -
  have "(\<lambda>node h (x :: unit). do { n \<leftarrow> deref h node; h \<leftarrow> avl_DropNode h node; Some (h, ()) })
      = (\<lambda>node (h :: 'a AvlNode heap) x. do { h \<leftarrow> avl_DropNode h node; Some (h, x) })"
    by (auto simp: fun_eq_iff avl_DropNode_def split: bind_splits)
  then show ?thesis by (auto simp: avl_ClearApply_def avl_Clear_def split: bind_splits)
qed

lemma clear_bucket_apply: "apply_buckets (\<lambda>_ x. x) False [i] tb (u :: unit) = do { tb \<leftarrow> clear_bucket (of_nat i) tb; Some ((), tb) }"
  by (auto simp: clear_bucket_def Clear_as_apply split: bind_splits)

lemma apply_buckets_append:
  "apply_buckets cb second (ks @ js) tb x = do { (x, tb) \<leftarrow> apply_buckets cb second ks tb x; apply_buckets cb second js tb x }"
  by (induction ks arbitrary: tb x) (auto split: bind_splits)

text \<open>\<open>Clear\<close> is \<open>ClearApply\<close> with a callback that does nothing, except that buckets which are dropped are emptied by their destructors.\<close>

lemma tree_Clear_apply:
  "tree_Clear True tb = do {
     tb \<leftarrow> cut_ttable False 4 tb;
     (_, tb) \<leftarrow> apply_buckets (\<lambda>_ x. x) False [0..<4] tb ();
     let tb = with_used 0 tb;
     tb \<leftarrow> (if tree_InRehashing tb then cut_ttable True 0 tb else Some tb);
     Some (Inr (tb\<lparr>tree_move_index := - 1\<rparr>)) }"
proof -
  have up: "[0..<4] = [0] @ [1] @ [2] @ [3]" by (simp add: upt_rec numeral_eq_Suc)
  have "apply_buckets (\<lambda>_ x. x) False [0..<4] tb () = do {
      tb \<leftarrow> clear_bucket 0 tb; tb \<leftarrow> clear_bucket 1 tb; tb \<leftarrow> clear_bucket 2 tb; tb \<leftarrow> clear_bucket 3 tb; Some ((), tb) }" for tb :: "'a TreeHashTable"
    unfolding up apply_buckets_append clear_bucket_apply by simp
  then show ?thesis unfolding tree_Clear_def with_used_def [symmetric]
    by (auto simp: Let_def shrink_ttable_cut split: bind_splits)
qed

lemma tree_Clear_ok:
  assumes ok: "tht_ok HF cmp gk tb ts1 ts2"
  shows "\<exists>tb'. tree_Clear True tb = Some (Inr tb') \<and> tht_ok HF cmp gk tb' (replicate 4 Tip) [] \<and> tht_entries tb' (replicate 4 Tip) [] = {#}
    \<and> dom (tree_nodes tb') = dom (tree_nodes tb) - (forest_nodes ts1 \<union> forest_nodes ts2)"
proof -
  from ok have c: "comparator cmp" and rel: "tht_rel cmp gk tb ts1 ts2" by (simp_all add: tht_ok_def)
  note b = tht_ok_small [OF ok]
  from clear_first_ok [OF rel b(1,2), of "\<lambda>_ x. x" "()"] obtain tb1 tb2 where 1: "cut_ttable False 4 tb = Some tb1"
    "apply_buckets (\<lambda>_ x. x) False [0..<4] tb1 () = Some ((), tb2)" "tht_rel cmp gk tb2 (replicate 4 Tip) ts2"
    "tree_nodes tb2 = tree_nodes tb |` (- forest_nodes ts1)" "tt_mask (ttable1 tb2) = 3" "tree_move_index tb2 = tree_move_index tb" by auto
  have rel3: "tht_rel cmp gk (with_used 0 tb2) (replicate 4 Tip) ts2" using 1(3) by (simp add: tht_rel_def with_used_def)
  have re: "tree_InRehashing (with_used 0 tb2) = tree_InRehashing tb" using 1(6) by (simp add: tree_InRehashing_def with_used_def)
  obtain tb4 where 4: "(if tree_InRehashing (with_used 0 tb2) then cut_ttable True 0 (with_used 0 tb2) else Some (with_used 0 tb2)) = Some tb4"
    "buckets (ttable2 tb4) = []" "tree_nodes tb4 = tree_nodes tb2 |` (- forest_nodes ts2)" "ttable1 tb4 = ttable1 (with_used 0 tb2)"
  proof (cases "tree_InRehashing tb")
    case True
    from shrink_second_ok [OF rel3 b(3)] obtain tb4 where "cut_ttable True 0 (with_used 0 tb2) = Some tb4" "buckets (ttable2 tb4) = []"
      "tree_nodes tb4 = tree_nodes (with_used 0 tb2) |` (- forest_nodes ts2)" "ttable1 tb4 = ttable1 (with_used 0 tb2)" by blast
    with True show thesis by (intro that [of tb4]) (simp_all add: re with_used_nodes)
  next
    case False
    then have "ts2 = []" by (rule b(4))
    moreover from this rel3 have "buckets (ttable2 (with_used 0 tb2)) = []" by (simp add: tht_rel_def)
    ultimately show thesis using False by (intro that [of "with_used 0 tb2"]) (simp_all add: re with_used_nodes restrict_map_def)
  qed
  have "tree_Clear True tb = Some (Inr (tb4\<lparr>tree_move_index := - 1\<rparr>))" using 1(1,2) 4(1) by (simp add: tree_Clear_apply)
  moreover have "dom (tree_nodes tb4) = dom (tree_nodes tb) - (forest_nodes ts1 \<union> forest_nodes ts2)" unfolding 4(3) 1(4) by auto
  ultimately show ?thesis using clear_finish [OF c 1(3,5) _ 4(2), of HF] 4(4) by (simp add: with_used_def)
qed

lemma tree_ClearApply_ok:
  assumes ok: "tht_ok HF cmp gk tb ts1 ts2"
  shows "\<exists>vs tb'. tree_ClearApply True cb tb x = Some (fold cb vs x, Inr tb') \<and> mset vs = tht_entries tb ts1 ts2
    \<and> tht_ok HF cmp gk tb' (replicate 4 Tip) [] \<and> tht_entries tb' (replicate 4 Tip) [] = {#}
    \<and> dom (tree_nodes tb') = dom (tree_nodes tb) - (forest_nodes ts1 \<union> forest_nodes ts2)"
proof -
  from ok have c: "comparator cmp" and rel: "tht_rel cmp gk tb ts1 ts2" by (simp_all add: tht_ok_def)
  note b = tht_ok_small [OF ok]
  from rel have l: "length (buckets (ttable1 tb)) = length ts1" and dj: "forest_nodes ts1 \<inter> forest_nodes ts2 = {}"
    and F: "forest cmp gk (tree_nodes tb) (buckets (ttable1 tb)) ts1" by (simp_all add: tht_rel_def)
  note D = forest_take_drop(3,4) [OF F, of 4]
  let ?V = "\<lambda>ts. concat (map (node_vals (tree_nodes tb)) ts)" and ?ts = "take 4 ts1 @ replicate (length ts1 - 4) Tip"
  from apply_tail_ok [OF rel, of 4 False cb x] b(1,2) obtain tb0 where
    0: "apply_buckets cb False [4..<length ts1] tb x = Some (fold cb (?V (drop 4 ts1)) x, tb0)" "tht_rel cmp gk tb0 ?ts ts2"
      "tree_nodes tb0 = tree_nodes tb |` (- forest_nodes (drop 4 ts1))" "tree_move_index tb0 = tree_move_index tb"
    by (auto simp: trees_def same_shape_def)
  have keep: "concat (map (node_vals (tree_nodes tb |` (- A))) ts) = ?V ts" if "forest_nodes ts \<inter> A = {}" for A ts
    using map_node_vals_restrict [OF that] by metis
  have T: "take 4 ?ts = take 4 ts1" "length ?ts = length ts1" "forest_nodes ?ts = forest_nodes (take 4 ts1)" using b(1) by simp_all
  from clear_first_ok [OF 0(2), of cb "fold cb (?V (drop 4 ts1)) x", unfolded T, OF b(1,2)] obtain tb1 tb2 where
    1: "cut_ttable False 4 tb0 = Some tb1"
    "apply_buckets cb False [0..<4] tb1 (fold cb (?V (drop 4 ts1)) x) = Some (fold cb (?V (take 4 ts1)) (fold cb (?V (drop 4 ts1)) x), tb2)"
    "tht_rel cmp gk tb2 (replicate 4 Tip) ts2" "tree_nodes tb2 = tree_nodes tb |` (- forest_nodes (drop 4 ts1)) |` (- forest_nodes (take 4 ts1))"
    "tt_mask (ttable1 tb2) = 3" "tree_move_index tb2 = tree_move_index tb" unfolding 0(3,4) keep [OF D(1)] by blast
  have n2: "tree_nodes tb2 = tree_nodes tb |` (- forest_nodes ts1)" unfolding 1(4) D(2) by (auto simp: restrict_map_def fun_eq_iff)
  let ?x = "fold cb (?V (take 4 ts1)) (fold cb (?V (drop 4 ts1)) x)"
  have rel3: "tht_rel cmp gk (with_used 0 tb2) (replicate 4 Tip) ts2" using 1(3) by (simp add: tht_rel_def with_used_def)
  have re: "tree_InRehashing (with_used 0 tb2) = tree_InRehashing tb" using 1(6) by (simp add: tree_InRehashing_def with_used_def)
  have V2: "concat (map (node_vals (tree_nodes (with_used 0 tb2))) ts2) = ?V ts2"
    using keep [of ts2 "forest_nodes ts1"] dj by (simp add: with_used_def n2 Int_commute)
  obtain tb4 where 4: "(if tree_InRehashing (with_used 0 tb2) then do {
        (x, tb) \<leftarrow> apply_buckets cb True [0..<length (buckets (ttable2 (with_used 0 tb2)))] (with_used 0 tb2) ?x;
        tb \<leftarrow> cut_ttable True 0 tb; Some (x, tb) } else Some (?x, with_used 0 tb2)) = Some (fold cb (?V ts2) ?x, tb4)"
    "buckets (ttable2 tb4) = []" "tree_nodes tb4 = tree_nodes tb2 |` (- forest_nodes ts2)" "ttable1 tb4 = ttable1 (with_used 0 tb2)"
  proof (cases "tree_InRehashing tb")
    case True
    from clear_second_ok [OF rel3 b(3), of cb ?x] obtain tb3 tb4 where
      "apply_buckets cb True [0..<length (buckets (ttable2 (with_used 0 tb2)))] (with_used 0 tb2) ?x = Some (fold cb (?V ts2) ?x, tb3)"
      "cut_ttable True 0 tb3 = Some tb4" "buckets (ttable2 tb4) = []"
      "tree_nodes tb4 = tree_nodes (with_used 0 tb2) |` (- forest_nodes ts2)" "ttable1 tb4 = ttable1 (with_used 0 tb2)" unfolding V2 by blast
    with True show thesis by (intro that [of tb4]) (simp_all add: re with_used_nodes)
  next
    case False
    then have "ts2 = []" by (rule b(4))
    moreover from this rel3 have "buckets (ttable2 (with_used 0 tb2)) = []" by (simp add: tht_rel_def)
    ultimately show thesis using False by (intro that [of "with_used 0 tb2"]) (simp_all add: re with_used_nodes restrict_map_def)
  qed
  have "tree_ClearApply True cb tb x = Some (fold cb (?V (drop 4 ts1) @ ?V (take 4 ts1) @ ?V ts2) x, Inr (tb4\<lparr>tree_move_index := - 1\<rparr>))"
    using 0(1) 1(1,2) 4(1) unfolding tree_ClearApply_def l with_used_def [symmetric]
    by (auto simp: Let_def shrink_ttable_cut split: bind_splits if_splits)
  moreover have "mset (?V (drop 4 ts1) @ ?V (take 4 ts1) @ ?V ts2) = tht_entries tb ts1 ts2" by (rule node_vals_entries)
  moreover have "dom (tree_nodes tb4) = dom (tree_nodes tb) - (forest_nodes ts1 \<union> forest_nodes ts2)" unfolding 4(3) n2 by auto
  moreover note clear_finish [OF c 1(3,5) _ 4(2), of HF]
  ultimately show ?thesis
    by (intro exI [of _ "?V (drop 4 ts1) @ ?V (take 4 ts1) @ ?V ts2"] exI [of _ "tb4\<lparr>tree_move_index := - 1\<rparr>"])
      (simp add: 4(4) with_used_def)
qed

text \<open>
  Without memory for the smaller array both throw; the callback has then had the values of the
  buckets that were to go.
\<close>

lemma tree_clear_throws:
  fixes tb :: "'v TreeHashTable"
  assumes ok: "tht_ok HF cmp gk tb ts1 ts2" and more: "4 < length (buckets (ttable1 tb))"
  shows "tree_Clear False tb = Some (Inl bad_alloc)"
    and "tree_ClearApply False cb tb x = Some (fold cb (concat (map (node_vals (tree_nodes tb)) (drop 4 ts1))) x, Inl bad_alloc)"
proof -
  from ok have rel: "tht_rel cmp gk tb ts1 ts2" by (simp add: tht_ok_def)
  note b = tht_ok_small [OF ok]
  have l: "length (buckets (ttable1 tb)) = length ts1" using rel by (simp add: tht_rel_def)
  have big: "4 < TreeTable_size (ttable1 t)" if "length (buckets (ttable1 t)) = length ts1" for t :: "'v TreeHashTable"
    using that b(2) more l by (simp add: TreeTable_size_def word_less_nat_alt unat_of_nat_lt)
  from shrink_first_ok [OF rel _ b(2), of 4] b(1) obtain tb' where "cut_ttable False 4 tb = Some tb'" by auto
  from shrink_ttable_throws [OF this] big [OF l] show "tree_Clear False tb = Some (Inl bad_alloc)"
    by (simp add: tree_Clear_def ttable_def)
  let ?ts = "take 4 ts1 @ replicate (length ts1 - 4) Tip"
  from apply_tail_ok [OF rel, of 4 False cb x] b(1,2) obtain tb0 where
    0: "apply_buckets cb False [4..<length ts1] tb x = Some (fold cb (concat (map (node_vals (tree_nodes tb)) (drop 4 ts1))) x, tb0)"
      "tht_rel cmp gk tb0 ?ts ts2" by (auto simp: trees_def)
  have l0: "length ?ts = length ts1" using b(1) by simp
  from shrink_first_ok [OF 0(2), of 4] b(1,2) obtain tb1 where 1: "cut_ttable False 4 tb0 = Some tb1" by auto
  have "length (buckets (ttable1 tb0)) = length ts1" using 0(2) l0 by (simp add: tht_rel_def)
  with shrink_ttable_throws [OF 1] big have "shrink_ttable False False 4 tb0 = Some (Inl bad_alloc)"
    by (simp add: ttable_def)
  then show "tree_ClearApply False cb tb x = Some (fold cb (concat (map (node_vals (tree_nodes tb)) (drop 4 ts1))) x, Inl bad_alloc)"
    using 0(1) by (simp add: tree_ClearApply_def l)
qed

end
