(* ===== verification/Tree_Hash_Props.thy ===== *)
theory Tree_Hash_Props
  imports Tree_Hash_Clear Map_Spec
begin

text \<open>
  The properties of \<open>TreeHashTable\<close>: sequences of operations against a finite map, the memory
  that \<open>Clear\<close> and \<open>ClearApply\<close> give back, and the count after \<open>EraseNode\<close>.
\<close>

section \<open>Sequences of operations\<close>

text \<open>
  \<open>alloc\<close> chooses the address of a new node; the entry that \<open>duplicate\<close> points to is read back.
\<close>

fun tht_step ::
    "('v AvlNode heap \<Rightarrow> ptr) \<Rightarrow> ('k \<Rightarrow> u64) \<Rightarrow> ('k \<Rightarrow> 'k \<Rightarrow> int) \<Rightarrow> ('v \<Rightarrow> 'k) \<Rightarrow> ('k, 'v) map_op \<Rightarrow> 'v TreeHashTable \<Rightarrow>
      ('v map_out \<times> 'v TreeHashTable) option" where
  "tht_step alloc HF cmp gk (Op_Insert v) tb = do {
     (r, tb) \<leftarrow> tree_InsertWithDuplicate True HF cmp gk (alloc (tree_nodes tb)) v tb;
     (case r of
        Inl _ \<Rightarrow> Some (Threw, tb)
      | Inr (b, p) \<Rightarrow> do { a \<leftarrow> p; n \<leftarrow> deref (tree_nodes tb) a; Some (Inserted b (node_value n), tb) }) }"
| "tht_step alloc HF cmp gk (Op_Find k) tb = do { (r, tb) \<leftarrow> tree_Find HF cmp gk k tb; Some (Found r, tb) }"
| "tht_step alloc HF cmp gk (Op_Erase k) tb = do { (n, tb) \<leftarrow> tree_Erase HF cmp gk k tb; Some (Erased n, tb) }"
| "tht_step alloc HF cmp gk Op_Clear tb = do {
     r \<leftarrow> tree_Clear True tb;
     Some (case r of Inl _ \<Rightarrow> (Threw, tb) | Inr tb \<Rightarrow> (Cleared, tb)) }"

abbreviation tht_run ::
    "('v AvlNode heap \<Rightarrow> ptr) \<Rightarrow> ('k \<Rightarrow> u64) \<Rightarrow> ('k \<Rightarrow> 'k \<Rightarrow> int) \<Rightarrow> ('v \<Rightarrow> 'k) \<Rightarrow> ('k, 'v) map_op list \<Rightarrow> 'v TreeHashTable \<Rightarrow>
      ('v map_out list \<times> 'v TreeHashTable) option" where
  "tht_run alloc HF cmp gk \<equiv> run_steps (tht_step alloc HF cmp gk)"

text \<open>The states a run goes through, with the map each one stands for.\<close>

definition tht_rep ::
    "('k \<Rightarrow> u64) \<Rightarrow> ('k \<Rightarrow> 'k \<Rightarrow> int) \<Rightarrow> ('v \<Rightarrow> 'k) \<Rightarrow> 'v TreeHashTable \<Rightarrow> ('k \<rightharpoonup> 'v) \<Rightarrow> nat \<Rightarrow> bool" where
  "tht_rep HF cmp gk tb m n \<longleftrightarrow> finite (dom (tree_nodes tb))
     \<and> (\<exists>ts1 ts2. tht_ok HF cmp gk tb ts1 ts2 \<and> m = tht_map gk tb ts1 ts2 \<and> size (tht_entries tb ts1 ts2) \<le> n)"

lemma tht_repI:
  "tht_ok HF cmp gk tb ts1 ts2 \<Longrightarrow> tht_map gk tb ts1 ts2 = m \<Longrightarrow> size (tht_entries tb ts1 ts2) \<le> n \<Longrightarrow>
    dom (tree_nodes tb) \<subseteq> A \<Longrightarrow> finite A \<Longrightarrow> tht_rep HF cmp gk tb m n"
  unfolding tht_rep_def using finite_subset by blast

lemma tht_map_insert:
  assumes "tht_ok HF cmp gk tb' ts1' ts2'" and "tht_entries tb' ts1' ts2' = add_mset v (tht_entries tb ts1 ts2)"
  shows "tht_map gk tb' ts1' ts2' = (tht_map gk tb ts1 ts2)(gk v \<mapsto> v)"
proof -
  have "unique_keys gk (tht_entries tb' ts1' ts2')" using assms(1) by (simp add: tht_ok_def ht_inv_def tht_entries_def)
  then show ?thesis using entry_map_add [of gk v "tht_entries tb ts1 ts2"] by (simp add: tht_map_def assms(2))
qed

lemma tht_step_refines:
  assumes al: "allocates alloc" and rep: "tht_rep HF cmp gk tb m n" and small: "n < 2 ^ 60"
  shows "\<exists>tb'. tht_step alloc HF cmp gk op tb = Some (fst (map_step gk op m), tb')
    \<and> tht_rep HF cmp gk tb' (snd (map_step gk op m)) (Suc n)"
proof -
  from rep obtain ts1 ts2 where fin: "finite (dom (tree_nodes tb))" and ok: "tht_ok HF cmp gk tb ts1 ts2"
    and m: "m = tht_map gk tb ts1 ts2" and sz: "size (tht_entries tb ts1 ts2) \<le> n" by (auto simp: tht_rep_def)
  show ?thesis
  proof (cases op)
    case (Op_Insert v)
    let ?q = "alloc (tree_nodes tb)"
    from al fin have q: "?q \<noteq> nullptr" "tree_nodes tb ?q = None" by (auto simp: allocates_def)
    have "size (tht_entries tb ts1 ts2) < 2 ^ 60" using sz small by simp
    from tree_InsertWithDuplicate_ok [OF ok this q, of True v] obtain b a tb' ts1' ts2' nd where
      I: "tree_InsertWithDuplicate True HF cmp gk ?q v tb = Some (Inr (b, Some a), tb')" "tht_ok HF cmp gk tb' ts1' ts2'"
        "a \<noteq> nullptr" "tree_nodes tb' a = Some nd"
      and C: "case m (gk v) of
             Some d \<Rightarrow> \<not> b \<and> node_value nd = d \<and> tht_entries tb' ts1' ts2' = tht_entries tb ts1 ts2 \<and> dom (tree_nodes tb') = dom (tree_nodes tb)
           | None \<Rightarrow> b \<and> a = ?q \<and> node_value nd = v \<and> tht_entries tb' ts1' ts2' = add_mset v (tht_entries tb ts1 ts2)
               \<and> dom (tree_nodes tb') = insert ?q (dom (tree_nodes tb))" unfolding m by (auto simp del: Un_iff)
    have st: "tht_step alloc HF cmp gk op tb = Some (Inserted b (node_value nd), tb')"
      using I(1,3,4) by (simp add: Op_Insert deref_def)
    show ?thesis
    proof (cases "m (gk v)")
      case None
      with C have "tht_map gk tb' ts1' ts2' = m(gk v \<mapsto> v)" "size (tht_entries tb' ts1' ts2') \<le> Suc n"
        using tht_map_insert [OF I(2), of v tb ts1 ts2] m sz by simp_all
      from tht_repI [OF I(2) this, of "insert ?q (dom (tree_nodes tb))"] show ?thesis using st C None fin by (simp add: Op_Insert)
    next
      case (Some d)
      with C have "tht_map gk tb' ts1' ts2' = m" "size (tht_entries tb' ts1' ts2') \<le> Suc n"
        using m sz by (simp_all add: tht_map_def)
      from tht_repI [OF I(2) this, of "dom (tree_nodes tb)"] show ?thesis using st C Some fin by (simp add: Op_Insert)
    qed
  next
    case (Op_Find k)
    from tree_Find_ok [OF ok, of k] obtain tb' ts1' ts2' where F:
      "tree_Find HF cmp gk k tb = Some (m k, tb')" "tht_ok HF cmp gk tb' ts1' ts2'"
      "tht_entries tb' ts1' ts2' = tht_entries tb ts1 ts2" "dom (tree_nodes tb') = dom (tree_nodes tb)" unfolding m by blast
    then have "tht_map gk tb' ts1' ts2' = m" "size (tht_entries tb' ts1' ts2') \<le> Suc n" using sz m by (simp_all add: tht_map_def)
    from tht_repI [OF F(2) this, of "dom (tree_nodes tb)"] show ?thesis using F fin by (simp add: Op_Find)
  next
    case (Op_Erase k)
    from tree_Erase_ok [OF ok, of k] obtain tb' ts1' ts2' where E:
      "tree_Erase HF cmp gk k tb = Some (if m k = None then 0 else 1, tb')" "tht_ok HF cmp gk tb' ts1' ts2'"
      "tht_map gk tb' ts1' ts2' = m(k := None)" "size (tht_entries tb' ts1' ts2') \<le> size (tht_entries tb ts1 ts2)"
      "dom (tree_nodes tb') \<subseteq> dom (tree_nodes tb)" unfolding m by blast
    have "size (tht_entries tb' ts1' ts2') \<le> Suc n" using E(4) sz by simp
    from tht_repI [OF E(2,3) this E(5) fin] show ?thesis using E(1) by (simp add: Op_Erase)
  next
    case Op_Clear
    from tree_Clear_ok [OF ok] obtain tb' where E:
      "tree_Clear True tb = Some (Inr tb')" "tht_ok HF cmp gk tb' (replicate 4 Tip) []" "tht_entries tb' (replicate 4 Tip) [] = {#}"
      "dom (tree_nodes tb') = dom (tree_nodes tb) - (forest_nodes ts1 \<union> forest_nodes ts2)" by blast
    then have "tht_map gk tb' (replicate 4 Tip) [] = Map.empty" "size (tht_entries tb' (replicate 4 Tip) []) \<le> Suc n"
      "dom (tree_nodes tb') \<subseteq> dom (tree_nodes tb)" by (auto simp: tht_map_def)
    from tht_repI [OF E(2) this fin] show ?thesis using E(1) by (simp add: Op_Clear)
  qed
qed

lemma tht_size_card: "tht_rep HF cmp gk tb m n \<Longrightarrow> unat (tht_size tb) = card (dom m)"
  using card_entry_map [of gk] by (auto simp: tht_rep_def tht_ok_def ht_inv_def tht_map_def tht_entries_def tht_size_def)

interpretation tree_table: counted_map_impl gk "tht_step alloc HF cmp gk"
    "\<lambda>tb m n. allocates alloc \<and> tht_rep HF cmp gk tb m n" "2 ^ 60" "\<lambda>tb. unat (tht_size tb)" for gk alloc HF cmp
  by unfold_locales (blast dest: tht_step_refines tht_size_card)+

lemma tht_new_rep:
  fixes h :: "'v AvlNode heap"
  assumes "comparator cmp" and "finite (dom h)"
  shows "\<exists>tb. TreeHashTable_new True h = Inr tb \<and> tht_rep HF cmp gk tb Map.empty 0"
proof -
  obtain tb :: "'v TreeHashTable" where n: "TreeHashTable_new True h = Inr tb" by (simp add: TreeHashTable_new_ok)
  from tree_new_inv [OF assms(1) n, of HF gk] have
    ok: "tht_ok HF cmp gk tb (replicate 4 Tip) []" "tht_entries tb (replicate 4 Tip) [] = {#}" "tree_nodes tb = h" by auto
  have "tht_map gk tb (replicate 4 Tip) [] = Map.empty" using ok(2) by (simp add: tht_map_def)
  from tht_repI [OF ok(1) this, of 0 "dom h"] ok assms(2) n show ?thesis by auto
qed

section \<open>Properties\<close>

text \<open>
  C5: from construction on, any sequence of insertions, lookups, erasures and clears of at most 2^60
  operations on a \<open>TreeHashTable\<close> is defined (no bucket index is out of range, no null or freed
  node is read, whichever bucket trees the rehash leaves), has the results of a finite map, whatever
  the hash function, and reports the number of keys as its size. The trees share one heap, on which
  any allocator that returns free addresses may be used.
\<close>
theorem tree_hash_table_refines_map:
  fixes HF :: "'k \<Rightarrow> u64" and gk :: "'v \<Rightarrow> 'k"
  assumes "comparator cmp" and "allocates alloc" and "finite (dom h)" and "length ops \<le> 2 ^ 60"
  shows "\<exists>tb tb'. TreeHashTable_new True h = Inr tb
    \<and> tht_run alloc HF cmp gk ops tb = Some (fst (map_run gk ops Map.empty), tb')
    \<and> unat (tht_size tb') = card (dom (snd (map_run gk ops Map.empty)))"
proof -
  from tht_new_rep [OF assms(1,3), of HF gk] obtain tb where
    n: "TreeHashTable_new True h = Inr tb" "tht_rep HF cmp gk tb Map.empty 0" by blast
  with assms(2) have "allocates alloc \<and> tht_rep HF cmp gk tb Map.empty 0" by blast
  from tree_table.run_from_empty [OF this assms(4)] n(1) show ?thesis by blast
qed

theorem tree_hash_table_refines_map_witness:
  "\<exists>tb tb'. TreeHashTable_new True Map.empty = Inr tb
    \<and> tht_run next_address (\<lambda>k. ucast k) cmp_unsigned fst
        [Op_Insert (1 :: u32, 5 :: nat), Op_Insert (5, 6), Op_Insert (1, 7), Op_Find 5, Op_Erase 1] tb
      = Some ([Inserted True (1, 5), Inserted True (5, 6), Inserted False (1, 5), Found (Some (5, 6)), Erased 1], tb')
    \<and> unat (tht_size tb') = 1"
proof -
  let ?ops = "[Op_Insert (1 :: u32, 5 :: nat), Op_Insert (5, 6), Op_Insert (1, 7), Op_Find 5, Op_Erase 1]"
  have m: "map_run fst ?ops Map.empty
      = ([Inserted True (1, 5), Inserted True (5, 6), Inserted False (1, 5), Found (Some (5, 6)), Erased 1], [5 \<mapsto> (5, 6)])"
    by (simp add: fun_eq_iff)
  have "finite (dom (Map.empty :: (u32 \<times> nat) AvlNode heap))" by simp
  from tree_hash_table_refines_map [OF unsigned.comparator_axioms next_address_allocates this, of ?ops "\<lambda>k. ucast k" fst] show ?thesis
    unfolding m by simp
qed

text \<open>
  C17: \<open>ClearApply\<close> hands every value of a table to its callback exactly once, also in the middle of
  a rehash and whichever buckets it empties before it drops them, and leaves an empty table; \<open>Clear\<close>
  leaves an empty table too, and both free the nodes of all the trees and no other memory. When a
  table of more than four buckets gets no memory for the smaller array, both throw, and the callback
  of \<open>ClearApply\<close> has had the values of the buckets from the fifth on.
\<close>
theorem tree_clear_visits_all:
  assumes "tht_ok HF cmp gk tb ts1 ts2"
  shows "\<exists>vs tb1 tb2. tree_ClearApply True cb tb x = Some (fold cb vs x, Inr tb1) \<and> mset vs = tht_entries tb ts1 ts2
    \<and> tht_ok HF cmp gk tb1 (replicate 4 Tip) [] \<and> tht_entries tb1 (replicate 4 Tip) [] = {#}
    \<and> dom (tree_nodes tb1) = dom (tree_nodes tb) - (forest_nodes ts1 \<union> forest_nodes ts2)
    \<and> tree_Clear True tb = Some (Inr tb2) \<and> tht_ok HF cmp gk tb2 (replicate 4 Tip) [] \<and> tht_entries tb2 (replicate 4 Tip) [] = {#}
    \<and> dom (tree_nodes tb2) = dom (tree_nodes tb1)
    \<and> (4 < length (buckets (ttable1 tb)) \<longrightarrow> tree_Clear False tb = Some (Inl bad_alloc)
        \<and> tree_ClearApply False cb tb x
            = Some (fold cb (concat (map (node_vals (tree_nodes tb)) (drop 4 ts1))) x, Inl bad_alloc))"
  using tree_ClearApply_ok [OF assms, of cb x] tree_Clear_ok [OF assms] tree_clear_throws(1) [OF assms]
    tree_clear_throws(2) [OF assms, of cb x] by metis

theorem tree_clear_visits_all_witness:
  "\<exists>tb0 tb vs tb1. TreeHashTable_new True Map.empty = Inr tb0
    \<and> tht_run next_address (\<lambda>k. ucast k) cmp_unsigned fst [Op_Insert (1 :: u32, 5 :: nat), Op_Insert (5, 6)] tb0
      = Some ([Inserted True (1, 5), Inserted True (5, 6)], tb)
    \<and> tree_ClearApply True (\<lambda>v n. n + snd v) tb 0 = Some (fold (\<lambda>v n. n + snd (v :: u32 \<times> nat)) vs 0, Inr tb1) \<and> length vs = 2
    \<and> unat (tht_size tb1) = 0"
proof -
  let ?ops = "[Op_Insert (1 :: u32, 5 :: nat), Op_Insert (5, 6)]"
  have fin: "finite (dom (Map.empty :: (u32 \<times> nat) AvlNode heap))" by simp
  from tht_new_rep [OF unsigned.comparator_axioms fin, of "\<lambda>k. ucast k" fst] obtain tb0 :: "(u32 \<times> nat) TreeHashTable" where
    n: "TreeHashTable_new True Map.empty = Inr tb0" "tht_rep (\<lambda>k. ucast k) cmp_unsigned fst tb0 Map.empty 0" by blast
  with next_address_allocates have rep: "allocates next_address \<and> tht_rep (\<lambda>k. ucast k) cmp_unsigned fst tb0 Map.empty 0" by blast
  have m: "map_run fst ?ops Map.empty = ([Inserted True (1, 5), Inserted True (5, 6)], [1 \<mapsto> (1, 5), 5 \<mapsto> (5, 6)])" by simp
  from tree_table.run_refines [OF rep, of ?ops, unfolded m fst_conv snd_conv] obtain tb where
    r: "tht_run next_address (\<lambda>k. ucast k) cmp_unsigned fst ?ops tb0 = Some ([Inserted True (1, 5), Inserted True (5, 6)], tb)"
      "tht_rep (\<lambda>k. ucast k) cmp_unsigned fst tb [1 \<mapsto> (1, 5), 5 \<mapsto> (5, 6)] (length ?ops)" by auto
  then obtain ts1 ts2 where ok: "tht_ok (\<lambda>k. ucast k) cmp_unsigned fst tb ts1 ts2"
    "[1 \<mapsto> (1, 5), 5 \<mapsto> (5, 6)] = tht_map fst tb ts1 ts2" by (auto simp: tht_rep_def)
  have "unat (tht_size tb) = 2" using tht_size_card [OF r(2)] by simp
  then have two: "size (tht_entries tb ts1 ts2) = 2" using ok(1) by (simp add: tht_ok_def ht_inv_def tht_size_def tht_entries_def)
  from tree_clear_visits_all [OF ok(1), of "\<lambda>v n. n + snd v" 0] obtain vs tb1 where
    1: "tree_ClearApply True (\<lambda>v n. n + snd v) tb 0 = Some (fold (\<lambda>v n. n + snd v) vs 0, Inr tb1)"
      "mset vs = tht_entries tb ts1 ts2" "tht_ok (\<lambda>k. ucast k) cmp_unsigned fst tb1 (replicate 4 Tip) []"
      "tht_entries tb1 (replicate 4 Tip) [] = {#}" by blast
  have "length vs = 2" using arg_cong [OF 1(2), of size] two by simp
  moreover have "unat (tht_size tb1) = 0" using 1(3,4) by (simp add: tht_ok_def ht_inv_def tht_size_def tht_entries_def)
  ultimately show ?thesis using n(1) r(1) 1(1) by blast
qed

text \<open>
  \<open>EraseNode\<close> on the node and the bucket that \<open>FindNode\<close> returned removes and frees the node but
  does not count it: the table then reports one entry more than it holds, so its invariant is gone.
\<close>
theorem tree_erase_node_keeps_count:
  assumes "tht_ok HF cmp gk tb ts1 ts2" and "tht_map gk tb ts1 ts2 k = Some v"
  shows "\<exists>a p tb1 tb2 us1 us2. tree_FindNode HF cmp gk k tb = Some ((a, Some p), tb1)
    \<and> tree_EraseNode p a tb1 = Some (True, tb2) \<and> tree_nodes tb2 a = None
    \<and> tht_rel cmp gk tb2 us1 us2 \<and> tht_entries tb ts1 ts2 = add_mset v (tht_entries tb2 us1 us2)
    \<and> unat (tht_size tb2) = Suc (size (tht_entries tb2 us1 us2))"
proof -
  from tree_FindNode_ok [OF assms(1), of k] assms(2) obtain a tb1 us1 us2 n second where
    F: "tree_FindNode HF cmp gk k tb = Some ((a, Some (second, index_in second tb1 (HF k))), tb1)" "tht_ok HF cmp gk tb1 us1 us2"
      "tht_entries tb1 us1 us2 = tht_entries tb ts1 ts2" "tree_nodes tb1 a = Some n" "node_value n = v"
      "second \<longrightarrow> tree_InRehashing tb1" "a \<in> set (inord (trees second us1 us2 ! unat (index_in second tb1 (HF k))))"
    by (auto split: if_splits)
  have k: "gk v = k" by (rule entry_map_of [OF assms])
  from tree_EraseNode_ok [OF F(2,6), of a v n] F(4,5,7) k obtain tb2 vs1 vs2 where
    E: "tree_EraseNode (second, index_in second tb1 (HF k)) a tb1 = Some (True, tb2)" "tht_rel cmp gk tb2 vs1 vs2"
      "tht_entries tb1 us1 us2 = add_mset v (tht_entries tb2 vs1 vs2)" "tht_size tb2 = tht_size tb1" "tree_nodes tb2 a = None" by auto
  have "unat (tht_size tb1) = size (tht_entries tb1 us1 us2)"
    using F(2) by (simp add: tht_ok_def ht_inv_def tht_size_def tht_entries_def)
  then have "unat (tht_size tb2) = Suc (size (tht_entries tb2 vs1 vs2))" using E(3,4) by simp
  then show ?thesis using F(1,3) E by metis
qed

theorem tree_erase_node_keeps_count_witness:
  "\<exists>tb0 tb a p tb1 tb2. TreeHashTable_new True Map.empty = Inr tb0
    \<and> tht_run next_address (\<lambda>k. ucast k) cmp_unsigned fst [Op_Insert (1 :: u32, 5 :: nat)] tb0 = Some ([Inserted True (1, 5)], tb)
    \<and> tree_FindNode (\<lambda>k. ucast k) cmp_unsigned fst 1 tb = Some ((a, Some p), tb1)
    \<and> tree_EraseNode p a tb1 = Some (True, tb2) \<and> tree_nodes tb2 a = None \<and> unat (tht_size tb2) = 1"
proof -
  let ?ops = "[Op_Insert (1 :: u32, 5 :: nat)]"
  have fin: "finite (dom (Map.empty :: (u32 \<times> nat) AvlNode heap))" by simp
  from tht_new_rep [OF unsigned.comparator_axioms fin, of "\<lambda>k. ucast k" fst] obtain tb0 :: "(u32 \<times> nat) TreeHashTable" where
    n: "TreeHashTable_new True Map.empty = Inr tb0" "tht_rep (\<lambda>k. ucast k) cmp_unsigned fst tb0 Map.empty 0" by blast
  with next_address_allocates have "allocates next_address \<and> tht_rep (\<lambda>k. ucast k) cmp_unsigned fst tb0 Map.empty 0" by blast
  from tree_table.run_refines [OF this, of ?ops] obtain tb where
    r: "tht_run next_address (\<lambda>k. ucast k) cmp_unsigned fst ?ops tb0 = Some ([Inserted True (1, 5)], tb)"
      "tht_rep (\<lambda>k. ucast k) cmp_unsigned fst tb [1 \<mapsto> (1, 5)] 1" by auto
  then obtain ts1 ts2 where ok: "tht_ok (\<lambda>k. ucast k) cmp_unsigned fst tb ts1 ts2" "[1 \<mapsto> (1, 5)] = tht_map fst tb ts1 ts2"
    "size (tht_entries tb ts1 ts2) \<le> 1" by (auto simp: tht_rep_def)
  have "tht_map fst tb ts1 ts2 1 = Some (1, 5)" by (simp add: ok(2) [symmetric])
  from tree_erase_node_keeps_count [OF ok(1) this] ok(3) obtain a p tb1 tb2 where
    "tree_FindNode (\<lambda>k. ucast k) cmp_unsigned fst 1 tb = Some ((a, Some p), tb1)"
    "tree_EraseNode p a tb1 = Some (True, tb2)" "tree_nodes tb2 a = None" "unat (tht_size tb2) = 1" by auto
  with n(1) r(1) show ?thesis by blast
qed

end
