(* ===== verification/Tree_Hash_Iterator.thy ===== *)
theory Tree_Hash_Iterator
  imports Tree_Hash_Props Hash_Table_Iterator
begin

text \<open>
  The iterators of \<open>TreeHashTable\<close> (\<open>algo/internal/tree_hash_table_iterator.h\<close>): a node, with the
  table and the bucket it is in, which are only used to find the next bucket; and
  \<open>AvlDictionary\<close> (\<open>algo/avl_dictionary.h\<close>), a tree hash table of pairs.
\<close>

section \<open>The iterator\<close>

record TreeIterator =
  tit_table :: nat
  tit_bucket :: size_t
  tit_slot :: ptr

definition tree_table :: "'v TreeHashTable \<Rightarrow> nat \<Rightarrow> TreeTable" where
  "tree_table tb i = (if i = 0 then ttable1 tb else ttable2 tb)"

text \<open>The first non-empty bucket at or after \<open>j\<close>: the inner loops.\<close>

function scan_roots :: "ptr list \<Rightarrow> nat \<Rightarrow> nat option" where
  "scan_roots rs j = (if j < length rs then if rs ! j \<noteq> nullptr then Some j else scan_roots rs (Suc j) else None)"
  by auto
termination by (relation "measure (\<lambda>(rs, j). length rs - j)") auto

declare scan_roots.simps [simp del]

fun tree_init_loop :: "'v TreeHashTable \<Rightarrow> nat list \<Rightarrow> TreeIterator \<Rightarrow> TreeIterator option" where
  "tree_init_loop tb [] it = Some it"
| "tree_init_loop tb (i # todo) it =
     (case scan_roots (buckets (tree_table tb i)) (unat (tit_bucket it)) of
        None \<Rightarrow> tree_init_loop tb todo it
      | Some j \<Rightarrow> do {
          a \<leftarrow> avl_begin (tree_of (tree_nodes tb) (buckets (tree_table tb i) ! j));
          let it = \<lparr>tit_table = i, tit_bucket = of_nat j, tit_slot = a\<rparr>;
          (if a \<noteq> nullptr then Some it else tree_init_loop tb todo it) })"

definition tree_iter_make :: "'v TreeHashTable \<Rightarrow> nat \<Rightarrow> size_t \<Rightarrow> TreeIterator option" where
  "tree_iter_make tb i j = tree_init_loop tb [i..<2] \<lparr>tit_table = i, tit_bucket = j, tit_slot = nullptr\<rparr>"

definition tree_begin :: "'v TreeHashTable \<Rightarrow> TreeIterator option" where
  "tree_begin tb = tree_iter_make tb 0 0"

definition tree_end :: "'v TreeHashTable \<Rightarrow> TreeIterator option" where
  "tree_end tb = tree_iter_make tb 1 (TreeTable_size (ttable2 tb))"

definition tree_iter_eq :: "TreeIterator \<Rightarrow> TreeIterator \<Rightarrow> bool" where
  "tree_iter_eq x y \<longleftrightarrow> tit_slot x = tit_slot y"

definition tree_iter_deref :: "'v TreeHashTable \<Rightarrow> TreeIterator \<Rightarrow> 'v option" where
  "tree_iter_deref tb it = do { n \<leftarrow> deref (tree_nodes tb) (tit_slot it); Some (node_value n) }"

fun tree_next_loop :: "'v TreeHashTable \<Rightarrow> nat list \<Rightarrow> TreeIterator \<Rightarrow> TreeIterator option" where
  "tree_next_loop tb [] it = Some it"
| "tree_next_loop tb (i # todo) it =
     (let t = tree_table tb (tit_table it) in
      case scan_roots (buckets t) (unat (tit_bucket it + 1)) of
        Some j \<Rightarrow> do {
          a \<leftarrow> avl_begin (tree_of (tree_nodes tb) (buckets t ! j));
          (if a = nullptr then None else Some \<lparr>tit_table = i, tit_bucket = of_nat j, tit_slot = a\<rparr>) }
      | None \<Rightarrow> tree_next_loop tb todo \<lparr>tit_table = 1, tit_bucket = 0 - 1, tit_slot = nullptr\<rparr>)"

text \<open>The successor of a node is found from the node alone.\<close>

definition tree_Increment :: "'v TreeHashTable \<Rightarrow> TreeIterator \<Rightarrow> TreeIterator option" where
  "tree_Increment tb it =
     (if tit_slot it = nullptr then None
      else do {
        a \<leftarrow> GetNextNode (tree_of (tree_nodes tb) nullptr) (tit_slot it);
        (if a = nullptr then tree_next_loop tb [tit_table it..<2] (it\<lparr>tit_slot := a\<rparr>)
         else Some (it\<lparr>tit_slot := a\<rparr>)) })"

text \<open>The operators: what they return, and the iterator they leave.\<close>

definition tree_iter_preincr :: "'v TreeHashTable \<Rightarrow> TreeIterator \<Rightarrow> (TreeIterator \<times> TreeIterator) option" where
  "tree_iter_preincr tb it = do { it \<leftarrow> tree_Increment tb it; Some (it, it) }"

definition tree_iter_postincr :: "'v TreeHashTable \<Rightarrow> TreeIterator \<Rightarrow> (TreeIterator \<times> TreeIterator) option" where
  "tree_iter_postincr tb it = (let ret = it in do { it \<leftarrow> tree_Increment tb it; Some (ret, it) })"

text \<open>A range-for loop that only reads.\<close>

partial_function (option) tree_for_each :: "'v TreeHashTable \<Rightarrow> TreeIterator \<Rightarrow> 'v list \<Rightarrow> 'v list option" where
  "tree_for_each tb it acc = do {
     last \<leftarrow> tree_end tb;
     (if tree_iter_eq it last then Some acc
      else do {
        v \<leftarrow> tree_iter_deref tb it;
        it \<leftarrow> tree_Increment tb it;
        tree_for_each tb it (acc @ [v]) }) }"

section \<open>The dictionary\<close>

text \<open>The entries are pairs of a key and a value; the key of an entry is \<open>fst\<close>.\<close>

definition avl_InsertKv ::
    "bool \<Rightarrow> ('k \<Rightarrow> u64) \<Rightarrow> ('k \<Rightarrow> 'k \<Rightarrow> int) \<Rightarrow> ptr \<Rightarrow> 'k \<Rightarrow> 'w \<Rightarrow> ('k \<times> 'w) TreeHashTable \<Rightarrow>
      ((exn + ptr option) \<times> ('k \<times> 'w) TreeHashTable) option" where
  "avl_InsertKv mem HF cmp fresh k w tb = tree_Insert mem HF cmp fst fresh (k, w) tb"

definition avl_InsertKvWithDuplicate ::
    "bool \<Rightarrow> ('k \<Rightarrow> u64) \<Rightarrow> ('k \<Rightarrow> 'k \<Rightarrow> int) \<Rightarrow> ptr \<Rightarrow> 'k \<Rightarrow> 'w \<Rightarrow> ('k \<times> 'w) TreeHashTable \<Rightarrow>
      ((exn + bool \<times> ptr option) \<times> ('k \<times> 'w) TreeHashTable) option" where
  "avl_InsertKvWithDuplicate mem HF cmp fresh k w tb = tree_InsertWithDuplicate mem HF cmp fst fresh (k, w) tb"

text \<open>
  \<open>operator[]\<close> returns a reference to the value of the node; \<open>w0\<close> is the default value of the type.
\<close>

definition dict_index ::
    "bool \<Rightarrow> ('k \<Rightarrow> u64) \<Rightarrow> ('k \<Rightarrow> 'k \<Rightarrow> int) \<Rightarrow> ptr \<Rightarrow> 'w \<Rightarrow> 'k \<Rightarrow> ('k \<times> 'w) TreeHashTable \<Rightarrow>
      ((exn + ptr) \<times> ('k \<times> 'w) TreeHashTable) option" where
  "dict_index mem HF cmp fresh w0 k tb = do {
     ((kv, _), tb) \<leftarrow> tree_FindNode HF cmp fst k tb;
     (if kv \<noteq> nullptr then Some (Inr kv, tb)
      else do {
        (r, tb) \<leftarrow> tree_Insert mem HF cmp fst fresh (k, w0) tb;
        (case r of
           Inl e \<Rightarrow> Some (Inl e, tb)
         | Inr kv \<Rightarrow> do { a \<leftarrow> kv; Some (Inr a, tb) }) }) }"

section \<open>Traversal\<close>

text \<open>Finding the next node reads nodes only, not the root.\<close>

lemma node_at_cong: "nodes s' = nodes s \<Longrightarrow> node_at s' a = node_at s a"
  by (simp add: node_at_def)

lemma GetFirstNode_cong: "GetFirstNode s a = Some b \<Longrightarrow> \<forall>s'. nodes s' = nodes s \<longrightarrow> GetFirstNode s' a = Some b"
proof (rule GetFirstNode.raw_induct [where P = "\<lambda>s a b. \<forall>s'. nodes s' = nodes s \<longrightarrow> GetFirstNode s' a = Some b", rotated], assumption, intro allI impI)
  fix f and s s' :: "'v avl" and a b
  assume IH: "\<And>s a b. f s a = Some b \<Longrightarrow> \<forall>s'. nodes s' = nodes s \<longrightarrow> GetFirstNode s' a = Some b"
    and r: "(if a = nullptr then Some nullptr
        else do { n \<leftarrow> node_at s a; (if left n \<noteq> nullptr then f s (left n) else Some a) }) = Some b"
    and e: "nodes s' = nodes s"
  show "GetFirstNode s' a = Some b"
  proof (cases "a = nullptr")
    case True
    then show ?thesis using r by (subst GetFirstNode.simps) simp
  next
    case False
    with r obtain n where n: "node_at s a = Some n" "(if left n \<noteq> nullptr then f s (left n) else Some a) = Some b"
      by (auto simp: Option.bind_eq_Some_conv)
    then show ?thesis using False IH [of s "left n" b] e node_at_cong [OF e, of a] by (subst GetFirstNode.simps) (simp split: if_splits)
  qed
qed

lemma ascend_left_cong: "ascend_left s a = Some b \<Longrightarrow> \<forall>s'. nodes s' = nodes s \<longrightarrow> ascend_left s' a = Some b"
proof (rule ascend_left.raw_induct [where P = "\<lambda>s a b. \<forall>s'. nodes s' = nodes s \<longrightarrow> ascend_left s' a = Some b", rotated], assumption, intro allI impI)
  fix f and s s' :: "'v avl" and a b
  assume IH: "\<And>s a b. f s a = Some b \<Longrightarrow> \<forall>s'. nodes s' = nodes s \<longrightarrow> ascend_left s' a = Some b"
    and r: "(do { c \<leftarrow> node_at s a; let node = parent c;
        (if node = nullptr then Some node
         else do { n \<leftarrow> node_at s node; (if left n = a then Some node else f s node) }) }) = Some b"
    and e: "nodes s' = nodes s"
  from r obtain c where c: "node_at s a = Some c" "(if parent c = nullptr then Some (parent c)
      else do { n \<leftarrow> node_at s (parent c); (if left n = a then Some (parent c) else f s (parent c)) }) = Some b"
    by (auto simp: Option.bind_eq_Some_conv Let_def)
  note E = node_at_cong [OF e]
  show "ascend_left s' a = Some b"
  proof (cases "parent c = nullptr")
    case True
    then show ?thesis using c E [of a] by (subst ascend_left.simps) (simp add: Let_def)
  next
    case False
    with c(2) obtain n where "node_at s (parent c) = Some n" "(if left n = a then Some (parent c) else f s (parent c)) = Some b"
      by (auto simp: Option.bind_eq_Some_conv)
    then show ?thesis using False c(1) E IH [of s "parent c" b] e by (subst ascend_left.simps) (simp add: Let_def split: if_splits)
  qed
qed

lemma GetNextNode_cong:
  assumes "GetNextNode s a = Some b" and "nodes s' = nodes s"
  shows "GetNextNode s' a = Some b"
proof (cases "a = nullptr")
  case True
  then show ?thesis using assms(1) by (simp add: GetNextNode_def)
next
  case False
  with assms(1) obtain n where "node_at s a = Some n" "(if right n \<noteq> nullptr then GetFirstNode s (right n) else ascend_left s a) = Some b"
    by (auto simp: GetNextNode_def Option.bind_eq_Some_conv)
  then show ?thesis using False node_at_cong [OF assms(2), of a] GetFirstNode_cong [of s "right n" b] ascend_left_cong [of s a b] assms(2)
    by (simp add: GetNextNode_def split: if_splits)
qed

lemma root_empty:
  assumes "forest cmp gk h rs ts" and "j < length ts"
  shows "rs ! j = nullptr \<longleftrightarrow> inord (ts ! j) = []"
proof -
  have "rooted (tree_of h (rs ! j)) (ts ! j)" using forest_at [OF assms] by (simp add: tree_inv_def)
  then show ?thesis by (cases "ts ! j") (auto simp: rooted_Tip elim: rooted_Nd)
qed

lemma scan_roots_eq:
  assumes "forest cmp gk h rs ts"
  shows "scan_roots rs j = scan_buckets (map inord ts) j"
proof (induction "length rs - j" arbitrary: j)
  case 0
  then show ?case using forest_length [OF assms] by (simp add: scan_roots.simps [of rs j] scan_buckets.simps [of _ j])
next
  case (Suc n)
  then have j: "j < length ts" using forest_length [OF assms] by simp
  have "scan_roots rs (Suc j) = scan_buckets (map inord ts) (Suc j)" using Suc by simp
  then show ?case using j root_empty [OF assms j] forest_length [OF assms]
    by (simp add: scan_roots.simps [of rs j] scan_buckets.simps [of _ j])
qed

text \<open>The trees of a table, the nodes of both in the order of the walk, and an iterator with the nodes still to come.\<close>

definition table_trees :: "nat \<Rightarrow> ptr atree list \<Rightarrow> ptr atree list \<Rightarrow> ptr atree list" where
  "table_trees i ts1 ts2 = (if i = 0 then ts1 else ts2)"

definition nodes_from :: "nat \<Rightarrow> nat \<Rightarrow> ptr atree list \<Rightarrow> ptr atree list \<Rightarrow> ptr list" where
  "nodes_from i j ts1 ts2 = concat (drop j (map inord (table_trees i ts1 ts2))) @ (if i = 0 then concat (map inord ts2) else [])"

definition tree_iter_at :: "ptr atree list \<Rightarrow> ptr atree list \<Rightarrow> TreeIterator \<Rightarrow> ptr list \<Rightarrow> bool" where
  "tree_iter_at ts1 ts2 it todo \<longleftrightarrow>
     (case todo of
        [] \<Rightarrow> tit_slot it = nullptr
      | a # rest \<Rightarrow> tit_slot it = a \<and> tit_table it < 2
          \<and> unat (tit_bucket it) < length (table_trees (tit_table it) ts1 ts2)
          \<and> (\<exists>pre suf. inord (table_trees (tit_table it) ts1 ts2 ! unat (tit_bucket it)) = pre @ a # suf
             \<and> rest = suf @ nodes_from (tit_table it) (Suc (unat (tit_bucket it))) ts1 ts2))"

lemma tht_ok_table:
  assumes "tht_ok HF cmp gk tb ts1 ts2"
  shows "forest cmp gk (tree_nodes tb) (buckets (tree_table tb i)) (table_trees i ts1 ts2)"
    and "length (table_trees i ts1 ts2) < 2 ^ 64" and "length (buckets (tree_table tb i)) = length (table_trees i ts1 ts2)"
proof -
  from assms have rel: "tht_rel cmp gk tb ts1 ts2" and inv: "ht_inv HF gk (tht_abs tb ts1 ts2)" by (simp_all add: tht_ok_def)
  show "forest cmp gk (tree_nodes tb) (buckets (tree_table tb i)) (table_trees i ts1 ts2)"
    "length (buckets (tree_table tb i)) = length (table_trees i ts1 ts2)"
    using rel by (simp_all add: tht_rel_def tree_table_def table_trees_def)
  have "length ts1 \<le> 2 ^ 60" using ht_inv_bounds(3) [OF inv] by simp
  moreover have "length ts2 \<le> 2 * length ts1" using inv by (auto simp: ht_inv_def split: if_splits)
  ultimately show "length (table_trees i ts1 ts2) < 2 ^ 64" by (simp add: table_trees_def)
qed

lemma bucket_begin:
  assumes ok: "tht_ok HF cmp gk tb ts1 ts2" and j: "j < length (table_trees i ts1 ts2)"
  shows "avl_begin (tree_of (tree_nodes tb) (buckets (tree_table tb i) ! j)) = Some (first_or_null (inord (table_trees i ts1 ts2 ! j)))"
    and "a \<in> set (inord (table_trees i ts1 ts2 ! j)) \<Longrightarrow> a \<noteq> nullptr \<and> tree_nodes tb a \<noteq> None"
    and "inord (table_trees i ts1 ts2 ! j) = xs @ a # ys \<Longrightarrow>
      GetNextNode (tree_of (tree_nodes tb) nullptr) a = Some (first_or_null ys)"
proof -
  have rt: "rooted (tree_of (tree_nodes tb) (buckets (tree_table tb i) ! j)) (table_trees i ts1 ts2 ! j)"
    using forest_at [OF tht_ok_table(1) [OF ok] j] by (simp add: tree_inv_def)
  show "avl_begin (tree_of (tree_nodes tb) (buckets (tree_table tb i) ! j)) = Some (first_or_null (inord (table_trees i ts1 ts2 ! j)))"
    by (rule begin_at [OF rt])
  show "a \<in> set (inord (table_trees i ts1 ts2 ! j)) \<Longrightarrow> a \<noteq> nullptr \<and> tree_nodes tb a \<noteq> None"
    using rooted_nodes [OF rt] by simp
  assume "inord (table_trees i ts1 ts2 ! j) = xs @ a # ys"
  from GetNextNode_cong [OF GetNextNode_at [OF rt this], of "tree_of (tree_nodes tb) nullptr"]
  show "GetNextNode (tree_of (tree_nodes tb) nullptr) a = Some (first_or_null ys)" by simp
qed

text \<open>A bucket found by the scan: its first node, and what follows.\<close>

lemma scan_found:
  assumes ok: "tht_ok HF cmp gk tb ts1 ts2" and s: "scan_roots (buckets (tree_table tb i)) j = Some k" and i: "i < 2"
  obtains a where "avl_begin (tree_of (tree_nodes tb) (buckets (tree_table tb i) ! k)) = Some a" and "a \<noteq> nullptr"
    and "tree_iter_at ts1 ts2 \<lparr>tit_table = i, tit_bucket = of_nat k, tit_slot = a\<rparr> (nodes_from i j ts1 ts2)"
proof -
  note T = tht_ok_table [OF ok, of i]
  from s have s': "scan_buckets (map inord (table_trees i ts1 ts2)) j = Some k" by (simp add: scan_roots_eq [OF T(1)])
  from scan_buckets_Some [OF s'] have k: "k < length (table_trees i ts1 ts2)" "inord (table_trees i ts1 ts2 ! k) \<noteq> []"
    "concat (drop j (map inord (table_trees i ts1 ts2))) = inord (table_trees i ts1 ts2 ! k) @ concat (drop (Suc k) (map inord (table_trees i ts1 ts2)))"
    by (metis length_map nth_map)+
  then obtain a as where a: "inord (table_trees i ts1 ts2 ! k) = a # as" by (cases "inord (table_trees i ts1 ts2 ! k)") auto
  have u: "unat (of_nat k :: size_t) = k" using k(1) T(2) by (intro unat_of_nat_lt) simp
  have "tree_iter_at ts1 ts2 \<lparr>tit_table = i, tit_bucket = of_nat k, tit_slot = a\<rparr> (nodes_from i j ts1 ts2)"
    using k a i u by (auto simp: tree_iter_at_def nodes_from_def intro!: exI [of _ "[]"])
  moreover have "a \<noteq> nullptr" using bucket_begin(2) [OF ok k(1), of a] a by simp
  moreover have "avl_begin (tree_of (tree_nodes tb) (buckets (tree_table tb i) ! k)) = Some a" using bucket_begin(1) [OF ok k(1)] a by simp
  ultimately show thesis by (intro that)
qed

lemma scan_none:
  assumes ok: "tht_ok HF cmp gk tb ts1 ts2" and s: "scan_roots (buckets (tree_table tb i)) j = None"
  shows "nodes_from i j ts1 ts2 = (if i = 0 then nodes_from 1 0 ts1 ts2 else [])"
  using scan_buckets_None [of "map inord (table_trees i ts1 ts2)" j] s scan_roots_eq [OF tht_ok_table(1) [OF ok]]
  by (simp add: nodes_from_def table_trees_def)

lemma tree_begin_at:
  assumes ok: "tht_ok HF cmp gk tb ts1 ts2"
  shows "\<exists>it. tree_begin tb = Some it \<and> tree_iter_at ts1 ts2 it (nodes_from 0 0 ts1 ts2)"
proof -
  have two: "[0..<2] = [0, 1 :: nat]" by (simp add: numeral_2_eq_2)
  show ?thesis
  proof (cases "scan_roots (buckets (tree_table tb 0)) 0")
    case (Some k)
    from scan_found [OF ok Some] obtain a where
      "avl_begin (tree_of (tree_nodes tb) (buckets (tree_table tb 0) ! k)) = Some a" "a \<noteq> nullptr"
      "tree_iter_at ts1 ts2 \<lparr>tit_table = 0, tit_bucket = of_nat k, tit_slot = a\<rparr> (nodes_from 0 0 ts1 ts2)" by auto
    then show ?thesis using Some by (simp add: tree_begin_def tree_iter_make_def two Let_def)
  next
    case n1: None
    show ?thesis
    proof (cases "scan_roots (buckets (tree_table tb 1)) 0")
      case (Some k)
      from scan_found [OF ok Some] obtain a where
        "avl_begin (tree_of (tree_nodes tb) (buckets (tree_table tb 1) ! k)) = Some a" "a \<noteq> nullptr"
        "tree_iter_at ts1 ts2 \<lparr>tit_table = 1, tit_bucket = of_nat k, tit_slot = a\<rparr> (nodes_from 1 0 ts1 ts2)" by auto
      then show ?thesis using Some n1 scan_none [OF ok n1] by (simp add: tree_begin_def tree_iter_make_def two Let_def)
    next
      case None
      then show ?thesis using n1 scan_none [OF ok n1] scan_none [OF ok None]
        by (simp add: tree_begin_def tree_iter_make_def two Let_def tree_iter_at_def)
    qed
  qed
qed

lemma tree_end_slot:
  assumes ok: "tht_ok HF cmp gk tb ts1 ts2"
  shows "\<exists>it. tree_end tb = Some it \<and> tit_slot it = nullptr"
proof -
  have "unat (TreeTable_size (ttable2 tb)) = length (buckets (ttable2 tb))"
    unfolding TreeTable_size_def using tht_ok_table(2,3) [OF ok, of 1] by (intro unat_of_nat_lt) (simp add: tree_table_def)
  then show ?thesis by (simp add: tree_end_def tree_iter_make_def numeral_2_eq_2 tree_table_def scan_roots.simps)
qed

lemma tree_next_loop_at:
  assumes ok: "tht_ok HF cmp gk tb ts1 ts2" and i: "i < 2" and b: "unat b < length (table_trees i ts1 ts2)"
  shows "\<exists>it. tree_next_loop tb [i..<2] \<lparr>tit_table = i, tit_bucket = b, tit_slot = nullptr\<rparr> = Some it
    \<and> tree_iter_at ts1 ts2 it (nodes_from i (Suc (unat b)) ts1 ts2)"
proof -
  have inc: "unat (b + 1) = Suc (unat b)"
    using b tht_ok_table(2) [OF ok, of i] by (subst unat_add_lem [THEN iffD1]) auto
  have up: "[i..<2] = i # [Suc i..<2]" using i by (rule upt_conv_Cons)
  show ?thesis
  proof (cases "scan_roots (buckets (tree_table tb i)) (Suc (unat b))")
    case (Some k)
    from scan_found [OF ok Some i] obtain a where
      "avl_begin (tree_of (tree_nodes tb) (buckets (tree_table tb i) ! k)) = Some a" "a \<noteq> nullptr"
      "tree_iter_at ts1 ts2 \<lparr>tit_table = i, tit_bucket = of_nat k, tit_slot = a\<rparr> (nodes_from i (Suc (unat b)) ts1 ts2)" by auto
    then show ?thesis using Some inc by (simp add: up Let_def)
  next
    case n1: None
    note e = scan_none [OF ok n1]
    show ?thesis
    proof (cases "i = 0")
      case False
      then have "i = 1" using i by simp
      moreover from this have "[Suc i..<2] = []" by simp
      ultimately show ?thesis using n1 inc e unfolding up by (simp add: Let_def tree_iter_at_def)
    next
      case True
      have up1: "[Suc 0..<2] = [1 :: nat]" by (simp add: numeral_2_eq_2)
      show ?thesis
      proof (cases "scan_roots (buckets (tree_table tb 1)) 0")
        case (Some k)
        from scan_found [OF ok Some] obtain a where
          "avl_begin (tree_of (tree_nodes tb) (buckets (tree_table tb 1) ! k)) = Some a" "a \<noteq> nullptr"
          "tree_iter_at ts1 ts2 \<lparr>tit_table = 1, tit_bucket = of_nat k, tit_slot = a\<rparr> (nodes_from 1 0 ts1 ts2)" by auto
        then show ?thesis using Some n1 inc e True unfolding up by (simp add: up1 Let_def)
      next
        case None
        then show ?thesis using n1 inc e True scan_none [OF ok None] unfolding up by (simp add: up1 Let_def tree_iter_at_def)
      qed
    qed
  qed
qed

lemma tree_Increment_at:
  assumes ok: "tht_ok HF cmp gk tb ts1 ts2" and at: "tree_iter_at ts1 ts2 it (a # rest)"
  shows "a \<noteq> nullptr \<and> tree_nodes tb a \<noteq> None \<and> (\<exists>it'. tree_Increment tb it = Some it' \<and> tree_iter_at ts1 ts2 it' rest)"
proof -
  let ?i = "tit_table it" and ?b = "tit_bucket it"
  from at obtain pre suf where A: "tit_slot it = a" "?i < 2" "unat ?b < length (table_trees ?i ts1 ts2)"
    "inord (table_trees ?i ts1 ts2 ! unat ?b) = pre @ a # suf" "rest = suf @ nodes_from ?i (Suc (unat ?b)) ts1 ts2"
    by (auto simp: tree_iter_at_def)
  have a: "a \<noteq> nullptr" "tree_nodes tb a \<noteq> None" using bucket_begin(2) [OF ok A(3), of a] A(4) by simp_all
  note n = bucket_begin(3) [OF ok A(3,4)]
  show ?thesis
  proof (cases suf)
    case Nil
    have "it\<lparr>tit_slot := nullptr\<rparr> = \<lparr>tit_table = ?i, tit_bucket = ?b, tit_slot = nullptr\<rparr>" by simp
    note N = tree_next_loop_at [OF ok A(2,3), folded this]
    from N show ?thesis using n a A(1,5) Nil by (simp add: tree_Increment_def)
  next
    case (Cons c cs)
    have "c \<noteq> nullptr" using bucket_begin(2) [OF ok A(3), of c] A(4) Cons by simp
    moreover have "tree_iter_at ts1 ts2 (it\<lparr>tit_slot := c\<rparr>) rest"
      using A Cons by (auto simp: tree_iter_at_def intro!: exI [of _ "pre @ [a]"])
    ultimately show ?thesis using n a A(1) Cons by (simp add: tree_Increment_def)
  qed
qed

lemma tree_for_each_at:
  assumes ok: "tht_ok HF cmp gk tb ts1 ts2"
  shows "tree_iter_at ts1 ts2 it todo \<Longrightarrow>
    tree_for_each tb it acc = Some (acc @ map (\<lambda>a. node_value (the (tree_nodes tb a))) todo)"
proof (induction todo arbitrary: it acc)
  case Nil
  then show ?case using tree_end_slot [OF ok]
    by (subst tree_for_each.simps) (auto simp: tree_iter_at_def tree_iter_eq_def)
next
  case (Cons a rest)
  from tree_Increment_at [OF ok Cons.prems] obtain it' n where
    I: "a \<noteq> nullptr" "tree_nodes tb a = Some n" "tree_Increment tb it = Some it'" "tree_iter_at ts1 ts2 it' rest" by auto
  from tree_end_slot [OF ok] obtain e where e: "tree_end tb = Some e" "tit_slot e = nullptr" by blast
  have "tit_slot it = a" using Cons.prems by (simp add: tree_iter_at_def)
  then show ?case using I e Cons.IH [OF I(4), of "acc @ [node_value n]"]
    by (subst tree_for_each.simps) (simp add: tree_iter_eq_def tree_iter_deref_def deref_def)
qed

lemma all_nodes_entries:
  fixes tb :: "'v TreeHashTable"
  shows "mset (map (\<lambda>a. node_value (the (tree_nodes tb a))) (nodes_from 0 0 ts1 ts2)) = tht_entries tb ts1 ts2"
  using all_values [of tb ts1 ts2] by (simp add: nodes_from_def table_trees_def)

section \<open>Properties\<close>

lemma distinct_of_unique_keys:
  assumes "unique_keys gk (mset vs)"
  shows "distinct (map gk vs)"
  using assms by (induction vs) (auto simp: unique_keys_add)

lemma ran_entry_map: "unique_keys gk M \<Longrightarrow> ran (entry_map gk M) = set_mset M"
  by (auto simp: ran_def entry_map_iff)

lemma tree_for_each_map:
  assumes "tht_rep HF cmp gk tb m n"
  shows "\<exists>it vs. tree_begin tb = Some it \<and> tree_for_each tb it [] = Some vs \<and> distinct (map gk vs) \<and> set vs = ran m"
proof -
  from assms obtain ts1 ts2 where ok: "tht_ok HF cmp gk tb ts1 ts2" and m: "m = tht_map gk tb ts1 ts2"
    by (auto simp: tht_rep_def)
  let ?vs = "map (\<lambda>a. node_value (the (tree_nodes tb a))) (nodes_from 0 0 ts1 ts2)"
  from tree_begin_at [OF ok] obtain it where it: "tree_begin tb = Some it" "tree_iter_at ts1 ts2 it (nodes_from 0 0 ts1 ts2)"
    by blast
  have "unique_keys gk (tht_entries tb ts1 ts2)" using ok by (simp add: tht_ok_def ht_inv_def tht_entries_def)
  then have u: "unique_keys gk (mset ?vs)" by (simp only: all_nodes_entries)
  moreover have "set ?vs = ran m" using ran_entry_map [OF u] all_nodes_entries [of tb ts1 ts2] m
    by (metis set_mset_mset tht_map_def)
  ultimately show ?thesis using it(1) tree_for_each_at [OF ok it(2), of "[]"] distinct_of_unique_keys [OF u] by auto
qed

text \<open>
  C16: after any sequence of operations a range-for loop over a \<open>TreeHashTable\<close> ends, reads no null
  or freed node, and visits every entry of the map exactly once, in the middle of a rehash too, when
  the entries are spread over the trees of both tables.
\<close>
theorem tree_iteration_visits_all:
  fixes HF :: "'k \<Rightarrow> u64" and gk :: "'v \<Rightarrow> 'k"
  assumes "comparator cmp" and "allocates alloc" and "finite (dom h)" and "length ops \<le> 2 ^ 60"
  shows "\<exists>tb tb' outs it vs. TreeHashTable_new True h = Inr tb \<and> tht_run alloc HF cmp gk ops tb = Some (outs, tb')
    \<and> tree_begin tb' = Some it \<and> tree_for_each tb' it [] = Some vs
    \<and> distinct (map gk vs) \<and> set vs = ran (snd (map_run gk ops Map.empty))"
proof -
  from tht_new_rep [OF assms(1,3), of HF gk] obtain tb where
    n: "TreeHashTable_new True h = Inr tb" "tht_rep HF cmp gk tb Map.empty 0" by blast
  with assms(2) have "allocates alloc \<and> tht_rep HF cmp gk tb Map.empty 0" by blast
  from tree_table.run_from_empty [OF this assms(4)] obtain tb' where
    r: "tht_run alloc HF cmp gk ops tb = Some (fst (map_run gk ops Map.empty), tb')"
      "tht_rep HF cmp gk tb' (snd (map_run gk ops Map.empty)) (length ops)" by blast
  from tree_for_each_map [OF r(2)] n(1) r(1) show ?thesis by blast
qed

theorem tree_iteration_visits_all_witness:
  "\<exists>tb tb' outs it vs. TreeHashTable_new True Map.empty = Inr tb
    \<and> tht_run next_address (\<lambda>k. ucast k) cmp_unsigned fst
        [Op_Insert (1 :: u32, 5 :: nat), Op_Insert (5, 6), Op_Insert (1, 7)] tb = Some (outs, tb')
    \<and> tree_begin tb' = Some it \<and> tree_for_each tb' it [] = Some vs
    \<and> distinct (map fst vs) \<and> set vs = {(1, 5), (5, 6)}"
proof -
  let ?ops = "[Op_Insert (1 :: u32, 5 :: nat), Op_Insert (5, 6), Op_Insert (1, 7)]"
  have m: "snd (map_run fst ?ops Map.empty) = [1 \<mapsto> (1, 5), 5 \<mapsto> (5, 6)]" by (simp add: fun_eq_iff)
  have r: "ran [1 :: u32 \<mapsto> (1, 5), 5 \<mapsto> (5, 6)] = {(1 :: u32, 5 :: nat), (5, 6)}"
    by (simp add: ran_map_upd insert_commute)
  have "finite (dom (Map.empty :: (u32 \<times> nat) AvlNode heap))" by simp
  from tree_iteration_visits_all [OF unsigned.comparator_axioms next_address_allocates this, of ?ops "\<lambda>k. ucast k" fst]
  show ?thesis unfolding m r by simp
qed

end
