(* ===== verification/Tree_Hash_Value.thy ===== *)
theory Tree_Hash_Value
  imports Tree_Hash_Props
begin

text \<open>
  Writing through the pointer \<open>duplicate\<close>, or through the reference of \<open>operator[]\<close>: the value of a
  node changes and its key does not. The trees and the table stay valid, because they depend on
  the keys only.
\<close>

section \<open>The trees\<close>

definition same_links :: "('v \<Rightarrow> 'k) \<Rightarrow> 'v AvlNode heap \<Rightarrow> 'v AvlNode heap \<Rightarrow> bool" where
  "same_links gk h h' \<longleftrightarrow> (\<forall>a n. h a = Some n \<longrightarrow> (\<exists>v. h' a = Some (n\<lparr>node_value := v\<rparr>) \<and> gk v = gk (node_value n)))"

lemma tree_at_same_links:
  assumes "same_links gk h h'"
  shows "tree_at h par p t \<Longrightarrow> tree_at h' par p t"
proof (induction t arbitrary: par p)
  case (Nd l a hh r)
  then obtain n where n: "h a = Some n" "tree_at h a (left n) l" "tree_at h a (right n) r" "p = a" "a \<noteq> nullptr"
    "parent n = par" "height n = hh" by auto
  with assms obtain v where "h' a = Some (n\<lparr>node_value := v\<rparr>)" by (auto simp: same_links_def)
  with n Nd.IH show ?case by simp
qed simp

lemma tree_inv_same_links:
  assumes "tree_inv cmp gk (tree_of h r) t" and "same_links gk h h'"
  shows "tree_inv cmp gk (tree_of h' r) t" and "map gk (hvals h' t) = map gk (hvals h t)"
proof -
  from assms(1) have rt: "rooted (tree_of h r) t" by (simp add: tree_inv_def)
  have k: "gk (node_value (the (h' a))) = gk (node_value (the (h a)))" if "a \<in> set (inord t)" for a
    using rooted_nodes [OF rt that] assms(2) by (fastforce simp: same_links_def)
  then show "map gk (hvals h' t) = map gk (hvals h t)" by (simp add: hvals_def)
  have "map (kf gk (tree_of h' r)) (inord t) = map (kf gk (tree_of h r)) (inord t)"
    using k by (simp add: kf_def value_tree_of)
  moreover have "rooted (tree_of h' r) t"
    using rt by (auto simp: rooted_def place_def intro!: tree_at_same_links [OF assms(2)])
  ultimately show "tree_inv cmp gk (tree_of h' r) t" using assms(1) unfolding tree_inv_def by metis
qed

lemma forest_same_links:
  assumes "forest cmp gk h rs ts" and "same_links gk h h'"
  shows "forest cmp gk h' rs ts" and "map (map gk) (map (hvals h') ts) = map (map gk) (map (hvals h) ts)"
proof -
  have T: "tree_inv cmp gk (tree_of h' r) t" "map gk (hvals h' t) = map gk (hvals h t)" if "tree_inv cmp gk (tree_of h r) t" for r t
    using tree_inv_same_links [OF that assms(2)] by simp_all
  have "forest cmp gk h' rs ts \<and> map (map gk) (map (hvals h') ts) = map (map gk) (map (hvals h) ts)"
    using assms(1)
  proof (induction ts arbitrary: rs)
    case (Cons t ts)
    then obtain r rs' where "rs = r # rs'" by (cases rs) auto
    with Cons.prems Cons.IH [of rs'] T [of r t] show ?case by (auto simp del: map_map)
  qed simp
  then show "forest cmp gk h' rs ts" "map (map gk) (map (hvals h') ts) = map (map gk) (map (hvals h) ts)" by simp_all
qed

section \<open>The table\<close>

text \<open>The invariant of the table reads the keys of the entries only.\<close>

lemma slots_keys: "map (map gk) ss = map (map gk) ss' \<Longrightarrow>
    image_mset gk (slots_mset (\<lambda>b. b) ss) = image_mset gk (slots_mset (\<lambda>b. b) ss')"
proof (induction ss arbitrary: ss')
  case (Cons s ss)
  then obtain s' ss'' where e: "ss' = s' # ss''" "map gk s = map gk s'" "map (map gk) ss = map (map gk) ss''" by (cases ss') auto
  from e(2) have "image_mset gk (mset s) = image_mset gk (mset s')" by (metis mset_map)
  with e(1) Cons.IH [OF e(3)] show ?case by simp
qed simp

lemma unique_keys_image:
  fixes gk :: "'v \<Rightarrow> 'k"
  shows "image_mset gk M = image_mset gk M' \<Longrightarrow> unique_keys gk M \<longleftrightarrow> unique_keys gk M'"
proof -
  have c: "size (filter_mset (\<lambda>v. gk v = k) N) = count (image_mset gk N) k" for k and N :: "'v multiset"
    by (induction N) auto
  show "image_mset gk M = image_mset gk M' \<Longrightarrow> unique_keys gk M \<longleftrightarrow> unique_keys gk M'"
    by (simp add: unique_keys_def c)
qed

lemma hashed_keys:
  assumes "map (map gk) ss = map (map gk) ss'"
  shows "hashed (\<lambda>b. b) (\<lambda>v. f (gk v)) ss \<Longrightarrow> hashed (\<lambda>b. b) (\<lambda>v. f (gk v)) ss'"
proof -
  assume h: "hashed (\<lambda>b. b) (\<lambda>v. f (gk v)) ss"
  have l: "length ss = length ss'" using assms by (metis length_map)
  have "f (gk v) = i" if i: "i < length ss'" and v: "v \<in> set (ss' ! i)" for i v
  proof -
    have "map gk (ss ! i) = map gk (ss' ! i)" using assms i l by (metis nth_map)
    with v obtain w where "w \<in> set (ss ! i)" "gk w = gk v" by (metis image_eqI image_iff list.set_map)
    with h i l show ?thesis unfolding hashed_def by metis
  qed
  then show ?thesis by (simp add: hashed_def)
qed

lemma table_ok_keys:
  assumes "map (map gk) (table t) = map (map gk) (table t')" and "size_mask t' = size_mask t"
  shows "table_ok HF gk t \<Longrightarrow> table_ok HF gk t'"
proof -
  have l: "length (table t) = length (table t')" using assms(1) by (metis length_map)
  show "table_ok HF gk t \<Longrightarrow> table_ok HF gk t'"
    using l assms(2) hashed_keys [OF assms(1), of "\<lambda>k. unat (HF k) mod length (table t)"]
    by (simp add: table_ok_def Table_size_def)
qed

lemma ht_inv_keys:
  assumes "map (map gk) (table (table1 tab)) = map (map gk) (table (table1 tab'))"
    and "map (map gk) (table (table2 tab)) = map (map gk) (table (table2 tab'))"
    and "size_mask (table1 tab') = size_mask (table1 tab)" and "size_mask (table2 tab') = size_mask (table2 tab)"
    and "used (table1 tab') = used (table1 tab)" and "rehash_move_bucket_index tab' = rehash_move_bucket_index tab"
  shows "ht_inv HF gk tab \<Longrightarrow> ht_inv HF gk tab'"
proof -
  assume inv: "ht_inv HF gk tab"
  have l: "length (table (table1 tab)) = length (table (table1 tab'))" "length (table (table2 tab)) = length (table (table2 tab'))"
    using assms(1,2) by (metis length_map)+
  have im: "image_mset gk (entries tab) = image_mset gk (entries tab')"
    using slots_keys [OF assms(1)] slots_keys [OF assms(2)] by (simp add: entries_def slots_entries_def)
  then have sz: "size (entries tab) = size (entries tab')" by (metis size_image_mset)
  have re: "InRehashing tab' = InRehashing tab" by (simp add: InRehashing_def assms(6))
  have "table (table1 tab') ! i = []" if "i < length (table (table1 tab))" "table (table1 tab) ! i = []" for i
    using that assms(1) l(1) by (metis list.map_disc_iff nth_map)
  then show ?thesis
    using inv l sz re unique_keys_image [OF im] table_ok_keys [OF assms(1,3), of HF] table_ok_keys [OF assms(2,4), of HF] assms(5,6)
    unfolding ht_inv_def room_def by (auto split: if_splits)
qed

section \<open>Writing a value\<close>

lemma mset_map_upd:
  assumes "distinct xs" and "a \<in> set xs"
  shows "add_mset (f a) (mset (map (f(a := v)) xs)) = add_mset v (mset (map f xs))"
  using assms
proof (induction xs)
  case (Cons x xs)
  have e: "map (f(a := v)) xs = map f xs" if "a \<notin> set xs" using that by (auto intro!: map_cong)
  show ?case
  proof (cases "x = a")
    case True
    with Cons.prems have "a \<notin> set xs" by simp
    from e [OF this] show ?thesis unfolding True by (simp only: list.map mset.simps fun_upd_same add_mset_commute)
  next
    case False
    then show ?thesis using Cons by (simp add: add_mset_commute)
  qed
qed simp

lemma tht_write_value:
  fixes tb :: "'v TreeHashTable" and gk :: "'v \<Rightarrow> 'k"
  assumes ok: "tht_ok HF cmp gk tb ts1 ts2" and a: "a \<in> forest_nodes ts1 \<union> forest_nodes ts2"
    and n: "tree_nodes tb a = Some n" and k: "gk v = gk (node_value n)"
  defines "tb' \<equiv> tb\<lparr>tree_nodes := (tree_nodes tb)(a \<mapsto> n\<lparr>node_value := v\<rparr>)\<rparr>"
  shows "tht_ok HF cmp gk tb' ts1 ts2" and "tht_map gk tb' ts1 ts2 = (tht_map gk tb ts1 ts2)(gk v \<mapsto> v)"
    and "size (tht_entries tb' ts1 ts2) = size (tht_entries tb ts1 ts2)" and "dom (tree_nodes tb') = dom (tree_nodes tb)"
proof -
  let ?h = "tree_nodes tb" and ?h' = "(tree_nodes tb)(a \<mapsto> n\<lparr>node_value := v\<rparr>)"
  have tb' [simp]: "tree_nodes tb' = ?h'" "ttable1 tb' = ttable1 tb" "ttable2 tb' = ttable2 tb" "tree_move_index tb' = tree_move_index tb"
    by (simp_all add: tb'_def)
  from ok have c: "comparator cmp" and rel: "tht_rel cmp gk tb ts1 ts2" and inv: "ht_inv HF gk (tht_abs tb ts1 ts2)" by (simp_all add: tht_ok_def)
  from rel have F: "forest cmp gk ?h (buckets (ttable1 tb)) ts1" "forest cmp gk ?h (buckets (ttable2 tb)) ts2"
    "forest_nodes ts1 \<inter> forest_nodes ts2 = {}" by (simp_all add: tht_rel_def)
  have "\<exists>w. ?h' b = Some (m\<lparr>node_value := w\<rparr>) \<and> gk w = gk (node_value m)" if "?h b = Some m" for b m
  proof (cases "b = a")
    case True
    then show ?thesis using that n k by (intro exI [of _ v]) simp
  next
    case False
    then show ?thesis using that by (intro exI [of _ "node_value m"]) simp
  qed
  then have links: "same_links gk ?h ?h'" by (simp add: same_links_def del: fun_upd_apply)
  note f1 = forest_same_links [OF F(1) links] and f2 = forest_same_links [OF F(2) links]
  have "ht_inv HF gk (tht_abs tb' ts1 ts2)"
    by (rule ht_inv_keys [OF _ _ _ _ _ _ inv]) (simp_all only: tht_abs_simps abs_table_simps tb' f1(2) f2(2))
  then show ok': "tht_ok HF cmp gk tb' ts1 ts2"
    using c rel f1(1) f2(1) by (simp add: tht_ok_def tht_rel_def)
  let ?xs = "concat (map inord ts1) @ concat (map inord ts2)" and ?f = "\<lambda>b. node_value (the (?h b))"
  have "distinct ?xs" using F by (auto simp: forest_def forest_nodes_def)
  moreover have "a \<in> set ?xs" using a by (simp add: forest_nodes_def)
  moreover have e: "tht_entries t ts1 ts2 = mset (map (\<lambda>b. node_value (the (tree_nodes t b))) ?xs)" for t :: "'v TreeHashTable"
    using all_values [of t ts1 ts2] by simp
  moreover have "(\<lambda>b. node_value (the (?h' b))) = ?f(a := v)" by (auto simp: fun_eq_iff)
  ultimately have M: "add_mset (node_value n) (tht_entries tb' ts1 ts2) = add_mset v (tht_entries tb ts1 ts2)"
    using mset_map_upd [of ?xs a ?f v] n by simp
  then show sz: "size (tht_entries tb' ts1 ts2) = size (tht_entries tb ts1 ts2)" by (metis add_left_cancel size_add_mset add.commute plus_1_eq_Suc nat.inject)
  show "dom (tree_nodes tb') = dom (tree_nodes tb)" using n by auto
  have U: "unique_keys gk (tht_entries tb ts1 ts2)" "unique_keys gk (tht_entries tb' ts1 ts2)"
    using ok ok' by (simp_all add: tht_ok_def ht_inv_def tht_entries_def)
  have "v \<in># tht_entries tb' ts1 ts2" using e [of tb'] \<open>a \<in> set ?xs\<close> by (force simp: image_iff)
  then obtain R where R: "tht_entries tb' ts1 ts2 = add_mset v R" by (metis multi_member_split)
  with M have R': "tht_entries tb ts1 ts2 = add_mset (node_value n) R" by (metis add_mset_commute add_mset_add_mset_same_iff)
  show "tht_map gk tb' ts1 ts2 = (tht_map gk tb ts1 ts2)(gk v \<mapsto> v)"
    using entry_map_add [of gk v R] entry_map_add [of gk "node_value n" R] U k unfolding R R' tht_map_def by (simp add: R R')
qed

end
