(* ===== verification/Avl_Dictionary.thy ===== *)
theory Avl_Dictionary
  imports Tree_Hash_Iterator Tree_Hash_Value
begin

text \<open>
  \<open>AvlDictionary\<close> (\<open>algo/avl_dictionary.h\<close>) as a map from keys to values: the subscript operator, which
  inserts a default value for a new key and returns a reference that can be written through, with
  the lookups and erasures of the table below it, against a finite map with defaults.
\<close>

section \<open>Entries are pairs\<close>

definition kv_map :: "('k \<rightharpoonup> 'w) \<Rightarrow> 'k \<rightharpoonup> 'k \<times> 'w" where
  "kv_map m k = map_option (Pair k) (m k)"

lemma kv_map_upd: "(kv_map m)(k \<mapsto> (k, w)) = kv_map (m(k \<mapsto> w))"
  by (auto simp: kv_map_def fun_eq_iff)

lemma kv_map_empty [simp]: "kv_map Map.empty = Map.empty"
  by (simp add: kv_map_def fun_eq_iff)

lemma kv_map_delete: "(kv_map m)(k := None) = kv_map (m(k := None))"
  by (auto simp: kv_map_def fun_eq_iff)

section \<open>The subscript operator\<close>

lemma tht_repE:
  assumes "tht_rep HF cmp gk tb m n"
  obtains ts1 ts2 where "finite (dom (tree_nodes tb))" "tht_ok HF cmp gk tb ts1 ts2" "m = tht_map gk tb ts1 ts2"
    "size (tht_entries tb ts1 ts2) \<le> n"
  using assms by (auto simp: tht_rep_def)

definition or_default :: "'w \<Rightarrow> 'w option \<Rightarrow> 'w" where
  "or_default w0 r = (case r of None \<Rightarrow> w0 | Some w \<Rightarrow> w)"

lemma dict_index_ok:
  fixes HF :: "'k \<Rightarrow> u64" and w0 :: 'w
  assumes "tht_rep HF cmp fst tb (kv_map m) n" and small: "n < 2 ^ 60" and q: "q \<noteq> nullptr" "tree_nodes tb q = None"
  shows "\<exists>a tb' ts1 ts2 nd. dict_index True HF cmp q w0 k tb = Some (Inr a, tb') \<and> tht_ok HF cmp fst tb' ts1 ts2
    \<and> a \<noteq> nullptr \<and> a \<in> forest_nodes ts1 \<union> forest_nodes ts2 \<and> tree_nodes tb' a = Some nd
    \<and> node_value nd = (k, or_default w0 (m k)) \<and> tht_map fst tb' ts1 ts2 = kv_map (m(k \<mapsto> or_default w0 (m k)))
    \<and> size (tht_entries tb' ts1 ts2) \<le> Suc n \<and> finite (dom (tree_nodes tb'))"
proof -
  from assms(1) obtain us1 us2 where fin: "finite (dom (tree_nodes tb))" and ok: "tht_ok HF cmp fst tb us1 us2"
    and m: "kv_map m = tht_map fst tb us1 us2" and sz: "size (tht_entries tb us1 us2) \<le> n" by (rule tht_repE)
  from tree_FindNode_ok [OF ok, of k] obtain a p tb1 ts1 ts2 where
    F: "tree_FindNode HF cmp fst k tb = Some ((a, p), tb1)" "tht_ok HF cmp fst tb1 ts1 ts2"
      "tht_entries tb1 ts1 ts2 = tht_entries tb us1 us2" "dom (tree_nodes tb1) = dom (tree_nodes tb)"
    and C: "if a = nullptr then p = None \<and> kv_map m k = None
       else (\<exists>nd. tree_nodes tb1 a = Some nd \<and> kv_map m k = Some (node_value nd))
         \<and> (\<exists>second. p = Some (second, index_in second tb1 (HF k)) \<and> (second \<longrightarrow> tree_InRehashing tb1)
              \<and> a \<in> set (inord (trees second ts1 ts2 ! unat (index_in second tb1 (HF k)))))" unfolding m by blast
  have m1: "tht_map fst tb1 ts1 ts2 = kv_map m" by (simp add: tht_map_def F(3) m)
  show ?thesis
  proof (cases "a = nullptr")
    case False
    with C obtain nd second where nd: "tree_nodes tb1 a = Some nd" "kv_map m k = Some (node_value nd)" "second \<longrightarrow> tree_InRehashing tb1"
      "a \<in> set (inord (trees second ts1 ts2 ! unat (index_in second tb1 (HF k))))" by auto
    from nd(2) obtain w where w: "m k = Some w" "node_value nd = (k, w)" by (auto simp: kv_map_def)
    have "a \<in> forest_nodes ts1 \<union> forest_nodes ts2"
      using trees_nodes [OF bucket_at_ok(1) [OF F(2) nd(3), of k] nd(4)] .
    moreover have "m(k \<mapsto> w) = m" using w(1) by auto
    moreover have "dict_index True HF cmp q w0 k tb = Some (Inr a, tb1)" using F(1) False by (simp add: dict_index_def)
    ultimately show ?thesis using F False nd(1) w m1 sz fin
      by (intro exI [of _ a] exI [of _ tb1] exI [of _ ts1] exI [of _ ts2] exI [of _ nd]) (simp add: or_default_def)
  next
    case True
    with C have none: "kv_map m k = None" "m k = None" by (simp_all add: kv_map_def)
    have small1: "size (tht_entries tb1 ts1 ts2) < 2 ^ 60" using F(3) sz small by simp
    have q1: "tree_nodes tb1 q = None" using q(2) F(4) by blast
    from tree_InsertWithDuplicate_ok [OF F(2) small1 q(1) q1, of True "(k, w0)"] none(1)
    obtain b tb2 vs1 vs2 nd where
      I: "tree_InsertWithDuplicate True HF cmp fst q (k, w0) tb1 = Some (Inr (True, Some q), tb2)" "tht_ok HF cmp fst tb2 vs1 vs2"
        "tree_nodes tb2 q = Some nd" "q \<in> forest_nodes vs1 \<union> forest_nodes vs2" "node_value nd = (k, w0)"
        "tht_entries tb2 vs1 vs2 = add_mset (k, w0) (tht_entries tb1 ts1 ts2)" "dom (tree_nodes tb2) = insert q (dom (tree_nodes tb1))"
      by (auto simp: m1 simp del: Un_iff del: UnE)
    have "dict_index True HF cmp q w0 k tb = Some (Inr q, tb2)" using F(1) True I(1) by (simp add: dict_index_def tree_Insert_def)
    moreover have "tht_map fst tb2 vs1 vs2 = kv_map (m(k \<mapsto> w0))" using tht_map_insert [OF I(2,6)] m1 by (simp flip: kv_map_upd)
    moreover have "size (tht_entries tb2 vs1 vs2) \<le> Suc n" "finite (dom (tree_nodes tb2))" using I(6,7) F(3,4) sz fin by simp_all
    ultimately show ?thesis using I q none(2)
      by (intro exI [of _ q] exI [of _ tb2] exI [of _ vs1] exI [of _ vs2] exI [of _ nd]) (simp add: or_default_def del: Un_iff)
  qed
qed

section \<open>Sequences of operations\<close>

datatype ('k, 'w) dict_op = Put_at 'k 'w | Value_at 'k | Look_up 'k | Remove 'k

datatype 'w dict_out = Stored | Value 'w | Looked_up "'w option" | Removed nat | Dict_threw

text \<open>\<open>Put_at k w\<close> is the statement \<open>dict[k] = w\<close>, \<open>Value_at k\<close> the expression \<open>dict[k]\<close>.\<close>

fun dict_spec :: "'w \<Rightarrow> ('k, 'w) dict_op \<Rightarrow> ('k \<rightharpoonup> 'w) \<Rightarrow> ('w dict_out \<times> ('k \<rightharpoonup> 'w)) option" where
  "dict_spec w0 (Put_at k w) m = Some (Stored, m(k \<mapsto> w))"
| "dict_spec w0 (Value_at k) m = Some (Value (or_default w0 (m k)), m(k \<mapsto> or_default w0 (m k)))"
| "dict_spec w0 (Look_up k) m = Some (Looked_up (m k), m)"
| "dict_spec w0 (Remove k) m = Some (Removed (if m k = None then 0 else 1), m(k := None))"

definition dict_write :: "ptr \<Rightarrow> 'w \<Rightarrow> ('k \<times> 'w) TreeHashTable \<Rightarrow> ('k \<times> 'w) TreeHashTable option" where
  "dict_write a w tb = do {
     h \<leftarrow> store (tree_nodes tb) a (\<lambda>nd. nd\<lparr>node_value := (fst (node_value nd), w)\<rparr>);
     Some (tb\<lparr>tree_nodes := h\<rparr>) }"

fun dict_step ::
    "(('k \<times> 'w) AvlNode heap \<Rightarrow> ptr) \<Rightarrow> ('k \<Rightarrow> u64) \<Rightarrow> ('k \<Rightarrow> 'k \<Rightarrow> int) \<Rightarrow> 'w \<Rightarrow> ('k, 'w) dict_op \<Rightarrow> ('k \<times> 'w) TreeHashTable \<Rightarrow>
      ('w dict_out \<times> ('k \<times> 'w) TreeHashTable) option" where
  "dict_step alloc HF cmp w0 (Put_at k w) tb = do {
     (r, tb) \<leftarrow> dict_index True HF cmp (alloc (tree_nodes tb)) w0 k tb;
     (case r of
        Inl _ \<Rightarrow> Some (Dict_threw, tb)
      | Inr a \<Rightarrow> do { tb \<leftarrow> dict_write a w tb; Some (Stored, tb) }) }"
| "dict_step alloc HF cmp w0 (Value_at k) tb = do {
     (r, tb) \<leftarrow> dict_index True HF cmp (alloc (tree_nodes tb)) w0 k tb;
     (case r of
        Inl _ \<Rightarrow> Some (Dict_threw, tb)
      | Inr a \<Rightarrow> do { nd \<leftarrow> deref (tree_nodes tb) a; Some (Value (snd (node_value nd)), tb) }) }"
| "dict_step alloc HF cmp w0 (Look_up k) tb = do { (r, tb) \<leftarrow> tree_Find HF cmp fst k tb; Some (Looked_up (map_option snd r), tb) }"
| "dict_step alloc HF cmp w0 (Remove k) tb = do { (r, tb) \<leftarrow> tree_Erase HF cmp fst k tb; Some (Removed r, tb) }"

lemma dict_table_step:
  fixes alloc :: "('k \<times> 'w) AvlNode heap \<Rightarrow> ptr" and m :: "'k \<rightharpoonup> 'w"
  assumes "allocates alloc" and "tht_rep HF cmp fst tb (kv_map m) n" and "n < 2 ^ 60"
  shows "\<exists>tb'. tree_Find HF cmp fst k tb = Some (map_option (Pair k) (m k), tb') \<and> tht_rep HF cmp fst tb' (kv_map m) (Suc n)"
    and "\<exists>tb'. tree_Erase HF cmp fst k tb = Some (if m k = None then 0 else 1, tb') \<and> tht_rep HF cmp fst tb' (kv_map (m(k := None))) (Suc n)"
  using tht_step_refines [OF assms, of "Op_Find k"] tht_step_refines [OF assms, of "Op_Erase k"]
  by (auto simp: kv_map_delete kv_map_def split: bind_splits)

lemma dict_step_refines:
  fixes alloc :: "('k \<times> 'w) AvlNode heap \<Rightarrow> ptr" and m :: "'k \<rightharpoonup> 'w"
  assumes al: "allocates alloc" and rep: "tht_rep HF cmp fst tb (kv_map m) n" and small: "n < 2 ^ 60"
  shows "\<exists>out m' tb'. dict_spec w0 op m = Some (out, m') \<and> dict_step alloc HF cmp w0 op tb = Some (out, tb')
    \<and> tht_rep HF cmp fst tb' (kv_map m') (Suc n)"
proof -
  have "finite (dom (tree_nodes tb))" using rep by (simp add: tht_rep_def)
  then have "alloc (tree_nodes tb) \<noteq> nullptr" "tree_nodes tb (alloc (tree_nodes tb)) = None" using al by (simp_all add: allocates_def)
  note D = dict_index_ok [OF rep small this, of w0]
  show ?thesis
  proof (cases op)
    case (Put_at k w)
    from D [of k] obtain a tb' ts1 ts2 nd where D:
      "dict_index True HF cmp (alloc (tree_nodes tb)) w0 k tb = Some (Inr a, tb')" "tht_ok HF cmp fst tb' ts1 ts2" "a \<noteq> nullptr"
      "a \<in> forest_nodes ts1 \<union> forest_nodes ts2" "tree_nodes tb' a = Some nd" "node_value nd = (k, or_default w0 (m k))"
      "tht_map fst tb' ts1 ts2 = kv_map (m(k \<mapsto> or_default w0 (m k)))" "size (tht_entries tb' ts1 ts2) \<le> Suc n" "finite (dom (tree_nodes tb'))"
      by blast
    let ?tb = "tb'\<lparr>tree_nodes := (tree_nodes tb')(a \<mapsto> nd\<lparr>node_value := (k, w)\<rparr>)\<rparr>"
    have "fst (k, w) = fst (node_value nd)" by (simp add: D(6))
    note W = tht_write_value [OF D(2,4,5) this]
    have "tht_map fst ?tb ts1 ts2 = kv_map (m(k \<mapsto> w))" using W(2) D(7) by (simp flip: kv_map_upd)
    then have "tht_rep HF cmp fst ?tb (kv_map (m(k \<mapsto> w))) (Suc n)"
      by (rule tht_repI [OF W(1), where A = "dom (tree_nodes tb')"]) (use W(3,4) D(8,9) in \<open>simp_all del: fun_upd_apply dom_fun_upd\<close>)
    moreover have "dict_step alloc HF cmp w0 op tb = Some (Stored, ?tb)"
      using D(1,3,5,6) by (simp add: Put_at dict_write_def store_nonnull)
    ultimately show ?thesis by (simp add: Put_at)
  next
    case (Value_at k)
    from D [of k] obtain a tb' ts1 ts2 nd where D:
      "dict_index True HF cmp (alloc (tree_nodes tb)) w0 k tb = Some (Inr a, tb')" "tht_ok HF cmp fst tb' ts1 ts2" "a \<noteq> nullptr"
      "tree_nodes tb' a = Some nd" "node_value nd = (k, or_default w0 (m k))"
      "tht_map fst tb' ts1 ts2 = kv_map (m(k \<mapsto> or_default w0 (m k)))" "size (tht_entries tb' ts1 ts2) \<le> Suc n" "finite (dom (tree_nodes tb'))"
      by blast
    have "tht_rep HF cmp fst tb' (kv_map (m(k \<mapsto> or_default w0 (m k)))) (Suc n)"
      using tht_repI [OF D(2,6,7) subset_refl D(8)] .
    then show ?thesis using D(1,3-5) by (simp add: Value_at deref_nonnull)
  next
    case (Look_up k)
    then show ?thesis using dict_table_step(1) [OF al rep small, of k] by (auto simp: option.map_comp comp_def option.map_ident)
  next
    case (Remove k)
    then show ?thesis using dict_table_step(2) [OF al rep small, of k] by auto
  qed
qed

interpretation dictionary: simulation
  "\<lambda>tb m n. allocates alloc \<and> tht_rep HF cmp fst tb (kv_map m) n" "2 ^ 60" "\<lambda>_. True"
  "dict_step alloc HF cmp w0" "dict_spec w0"
  for alloc :: "('k \<times> 'w) AvlNode heap \<Rightarrow> ptr" and HF cmp w0
proof
  fix tb :: "('k \<times> 'w) TreeHashTable" and m op and n :: nat
  assume "allocates alloc \<and> tht_rep HF cmp fst tb (kv_map m) n" and "n < 2 ^ 60"
  then show "case dict_spec w0 op m of
      None \<Rightarrow> dict_step alloc HF cmp w0 op tb = None
    | Some (out, m') \<Rightarrow> (\<exists>tb'. dict_step alloc HF cmp w0 op tb = Some (out, tb')
        \<and> allocates alloc \<and> tht_rep HF cmp fst tb' (kv_map m') (Suc n))"
    using dict_step_refines [of alloc HF cmp tb m n w0 op] by auto
qed

lemma dict_spec_total: "\<exists>outs m'. run_steps (dict_spec w0) ops m = Some (outs, m')"
proof (induction ops arbitrary: m)
  case (Cons op ops)
  obtain out m1 where "dict_spec w0 op m = Some (out, m1)" by (cases op) auto
  with Cons.IH [of m1] show ?case by auto
qed simp

section \<open>Properties\<close>

text \<open>
  C14: an \<open>AvlDictionary\<close> behaves as a map with a default value under any sequence of \<open>dict[k] = w\<close>,
  \<open>dict[k]\<close>, lookups and erasures of at most 2^60 operations from construction on: the subscript of a
  new key inserts the default value, the reference it returns is that of the entry of the key also
  when the entry has just been moved by the rehash, and writing through it changes that entry only.
\<close>
theorem avl_dictionary_refines_map:
  fixes HF :: "'k \<Rightarrow> u64" and w0 :: 'w
  assumes "comparator cmp" and "allocates alloc" and "finite (dom h)" and "length ops \<le> 2 ^ 60"
  shows "\<exists>tb tb' outs m. TreeHashTable_new True h = Inr tb \<and> run_steps (dict_spec w0) ops Map.empty = Some (outs, m)
    \<and> run_steps (dict_step alloc HF cmp w0) ops tb = Some (outs, tb') \<and> unat (tht_size tb') = card (dom m)"
proof -
  from tht_new_rep [OF assms(1,3), of HF fst] obtain tb :: "('k \<times> 'w) TreeHashTable" where
    n: "TreeHashTable_new True h = Inr tb" "tht_rep HF cmp fst tb Map.empty 0" by blast
  have R: "allocates alloc \<and> tht_rep HF cmp fst tb (kv_map Map.empty) 0" using n(2) assms(2) by simp
  obtain outs m where S: "run_steps (dict_spec w0) ops Map.empty = Some (outs, m)" using dict_spec_total [of w0 ops Map.empty] by blast
  from dictionary.run_simulates [OF R, of ops w0] S assms(4) obtain tb' where
    r: "run_steps (dict_step alloc HF cmp w0) ops tb = Some (outs, tb')" "tht_rep HF cmp fst tb' (kv_map m) (0 + length ops)"
    by (auto simp: list_all_iff)
  have "dom (kv_map m) = dom m" by (auto simp: kv_map_def)
  with tht_size_card [OF r(2)] n(1) S r(1) show ?thesis by auto
qed

theorem avl_dictionary_refines_map_witness:
  "\<exists>tb tb'. TreeHashTable_new True Map.empty = Inr tb
    \<and> run_steps (dict_step next_address (\<lambda>k. ucast k) cmp_unsigned (0 :: nat))
        [Put_at (1 :: u32) 5, Value_at 2, Put_at 1 7, Value_at 1, Remove 2, Look_up 2] tb
      = Some ([Stored, Value 0, Stored, Value 7, Removed 1, Looked_up None], tb')
    \<and> unat (tht_size tb') = 1"
proof -
  let ?ops = "[Put_at (1 :: u32) (5 :: nat), Value_at 2, Put_at 1 7, Value_at 1, Remove 2, Look_up 2]"
  have m: "run_steps (dict_spec 0) ?ops Map.empty = Some ([Stored, Value 0, Stored, Value 7, Removed 1, Looked_up None], [1 \<mapsto> 7])"
    by (auto simp: or_default_def fun_eq_iff)
  have "finite (dom (Map.empty :: (u32 \<times> nat) AvlNode heap))" by simp
  from avl_dictionary_refines_map [OF unsigned.comparator_axioms next_address_allocates this, of ?ops 0 "\<lambda>k. ucast k"] show ?thesis
    unfolding m by auto
qed

end
