(* ===== verification/Configd_Client.thy ===== *)
theory Configd_Client
  imports Avl_Dictionary
begin

text \<open>
  \<open>ConfigdClient\<close> (\<open>client/configd_client.h\<close>, \<open>client/configd_client.cc\<close>): the table that maps a shard
  to the endpoint of its node, an \<open>AvlDictionary\<close> filled from the responses of the configuration
  server. The messages are the fields of \<open>client/configd.proto\<close> and \<open>client/configuration.proto\<close>;
  the protobuf runtime is not modelled, a map field is the list of its pairs in the order in which
  it is iterated. \<open>mv\<close> is the string that a move leaves behind, \<open>mvc\<close> the same for the map.
  The operations that take \<open>conf_lock_\<close> are atomic.
\<close>

section \<open>Messages\<close>

datatype ConfigOperation = CONF_OP_FETCH

datatype ConfigStatusCode = CONF_STATUS_OK | CONF_INVALID_REQ

record NodeConf =
  nc_port :: u32
  nc_host :: bstring
  nc_shard_ids :: "u64 list"

type_synonym Configuration = "(u64 \<times> NodeConf) list"

record ConfigResponse =
  cr_status :: ConfigStatusCode
  cr_conf :: "Configuration option"

section \<open>State\<close>

record NodeEndPoint =
  ep_node_id :: u64
  ep_host :: bstring
  ep_port :: u16

text \<open>\<open>conn_\<close> is not initialised by the constructors: \<open>None\<close> is an indeterminate pointer.\<close>

record ConfigdClient =
  cc_conn :: "ptr option"
  shard_endpoint_dict :: "(u64 \<times> NodeEndPoint) TreeHashTable"
  node_conf_map :: Configuration

definition ConfigdClient_new :: "bool \<Rightarrow> (u64 \<times> NodeEndPoint) AvlNode heap \<Rightarrow> exn + ConfigdClient" where
  "ConfigdClient_new mem h =
     map_sum id (\<lambda>tb. \<lparr>cc_conn = None, shard_endpoint_dict = tb, node_conf_map = []\<rparr>) (TreeHashTable_new mem h)"

text \<open>Placement new over the object: nothing is destroyed, so the nodes of the old dictionary stay allocated.\<close>

definition SetConfigdEndpoint :: "bool \<Rightarrow> ConfigdClient \<Rightarrow> exn + ConfigdClient" where
  "SetConfigdEndpoint mem c = ConfigdClient_new mem (tree_nodes (shard_endpoint_dict c))"

definition ShardNum :: "ConfigdClient \<Rightarrow> u64" where
  "ShardNum c = of_nat (length (node_conf_map c))"

section \<open>Operations\<close>

text \<open>The requests that are sent.\<close>

definition FetchConfig :: "ConfigdClient \<Rightarrow> ConfigOperation list option" where
  "FetchConfig c = do {
     conn \<leftarrow> cc_conn c;
     Some (if conn \<noteq> nullptr then [CONF_OP_FETCH] else []) }"

definition configd_OnConnection :: "bool \<Rightarrow> ptr \<Rightarrow> ConfigdClient \<Rightarrow> ConfigdClient" where
  "configd_OnConnection connected conn c = c\<lparr>cc_conn := Some (if connected then conn else nullptr)\<rparr>"

definition QueryNodeEndpoint ::
    "(u64 \<Rightarrow> u64) \<Rightarrow> u64 \<Rightarrow> ConfigdClient \<Rightarrow> (NodeEndPoint option \<times> ConfigdClient) option" where
  "QueryNodeEndpoint HF shard_id c = do {
     (kv, tb) \<leftarrow> tree_Find HF cmp_unsigned fst shard_id (shard_endpoint_dict c);
     Some (map_option snd kv, c\<lparr>shard_endpoint_dict := tb\<rparr>) }"

definition moved_from :: "(bstring \<Rightarrow> bstring) \<Rightarrow> NodeEndPoint \<Rightarrow> NodeEndPoint" where
  "moved_from mv ep = ep\<lparr>ep_host := mv (ep_host ep)\<rparr>"

text \<open>
  The loop over the shards of a node. The endpoint is moved into the pair that is inserted, and
  moved again into the entry of a known shard; \<open>alloc\<close> chooses the addresses of new nodes.
\<close>

fun insert_shards ::
    "bool \<Rightarrow> ((u64 \<times> NodeEndPoint) AvlNode heap \<Rightarrow> ptr) \<Rightarrow> (u64 \<Rightarrow> u64) \<Rightarrow> (bstring \<Rightarrow> bstring) \<Rightarrow> NodeEndPoint \<Rightarrow> u64 list \<Rightarrow>
      (u64 \<times> NodeEndPoint) TreeHashTable \<Rightarrow> ((exn + unit) \<times> (u64 \<times> NodeEndPoint) TreeHashTable) option" where
  "insert_shards mem alloc HF mv ep [] tb = Some (Inr (), tb)"
| "insert_shards mem alloc HF mv ep (shard_id # shard_ids) tb = do {
     (r, tb) \<leftarrow> avl_InsertKvWithDuplicate mem HF cmp_unsigned (alloc (tree_nodes tb)) shard_id ep tb;
     let ep = moved_from mv ep;
     (case r of
        Inl e \<Rightarrow> Some (Inl e, tb)
      | Inr (ok, kv) \<Rightarrow>
          if ok then insert_shards mem alloc HF mv ep shard_ids tb
          else do {
            a \<leftarrow> kv;
            n \<leftarrow> deref (tree_nodes tb) a;
            let tb = tb\<lparr>tree_nodes := (tree_nodes tb)(a \<mapsto> n\<lparr>node_value := (fst (node_value n), ep)\<rparr>)\<rparr>;
            insert_shards mem alloc HF mv (moved_from mv ep) shard_ids tb }) }"

definition node_end_point :: "u64 \<Rightarrow> NodeConf \<Rightarrow> NodeEndPoint" where
  "node_end_point i nc = \<lparr>ep_node_id = i, ep_host = nc_host nc, ep_port = ucast (nc_port nc)\<rparr>"

fun insert_nodes ::
    "bool \<Rightarrow> ((u64 \<times> NodeEndPoint) AvlNode heap \<Rightarrow> ptr) \<Rightarrow> (u64 \<Rightarrow> u64) \<Rightarrow> (bstring \<Rightarrow> bstring) \<Rightarrow> Configuration \<Rightarrow>
      (u64 \<times> NodeEndPoint) TreeHashTable \<Rightarrow> ((exn + unit) \<times> (u64 \<times> NodeEndPoint) TreeHashTable) option" where
  "insert_nodes mem alloc HF mv [] tb = Some (Inr (), tb)"
| "insert_nodes mem alloc HF mv ((i, nc) # conf) tb = do {
     (r, tb) \<leftarrow> insert_shards mem alloc HF mv (node_end_point i nc) (nc_shard_ids nc) tb;
     (case r of Inl e \<Rightarrow> Some (Inl e, tb) | Inr _ \<Rightarrow> insert_nodes mem alloc HF mv conf tb) }"

text \<open>
  The handler of a response: the result is the response given to \<open>resp_cb_\<close>. An invalid request is
  logged as fatal, which ends the program.
\<close>

definition configd_OnMessage ::
    "bool \<Rightarrow> ((u64 \<times> NodeEndPoint) AvlNode heap \<Rightarrow> ptr) \<Rightarrow> (u64 \<Rightarrow> u64) \<Rightarrow> (bstring \<Rightarrow> bstring) \<Rightarrow> (Configuration \<Rightarrow> Configuration) \<Rightarrow>
      ConfigResponse \<Rightarrow> ConfigdClient \<Rightarrow> ((exn + ConfigResponse) \<times> ConfigdClient) option" where
  "configd_OnMessage mem alloc HF mv mvc resp c =
     (case cr_status resp of
        CONF_STATUS_OK \<Rightarrow> do {
          let conf = (case cr_conf resp of None \<Rightarrow> [] | Some conf \<Rightarrow> conf);
          (r, tb) \<leftarrow> insert_nodes mem alloc HF mv conf (shard_endpoint_dict c);
          let c = c\<lparr>shard_endpoint_dict := tb\<rparr>;
          (case r of
             Inl e \<Rightarrow> Some (Inl e, c)
           | Inr _ \<Rightarrow> Some (Inr (resp\<lparr>cr_conf := Some (mvc conf)\<rparr>), c\<lparr>node_conf_map := conf\<rparr>)) }
      | CONF_INVALID_REQ \<Rightarrow> None)"

text \<open>The id of a shard is the hash of the key with seed 0 (\<open>util/shard_util.h\<close>).\<close>

definition MakeShardId :: "(bstring \<Rightarrow> u64 \<Rightarrow> u64) \<Rightarrow> bstring \<Rightarrow> u64" where
  "MakeShardId XXH64 k = XXH64 k 0"

section \<open>What the dictionary stands for\<close>

fun give_shards :: "(bstring \<Rightarrow> bstring) \<Rightarrow> NodeEndPoint \<Rightarrow> u64 list \<Rightarrow> (u64 \<rightharpoonup> NodeEndPoint) \<Rightarrow> (u64 \<rightharpoonup> NodeEndPoint)" where
  "give_shards mv ep [] m = m"
| "give_shards mv ep (s # ss) m =
     (if m s = None then give_shards mv (moved_from mv ep) ss (m(s \<mapsto> ep))
      else give_shards mv (moved_from mv (moved_from mv ep)) ss (m(s \<mapsto> moved_from mv ep)))"

fun shard_map :: "(bstring \<Rightarrow> bstring) \<Rightarrow> Configuration \<Rightarrow> (u64 \<rightharpoonup> NodeEndPoint) \<Rightarrow> (u64 \<rightharpoonup> NodeEndPoint)" where
  "shard_map mv [] m = m"
| "shard_map mv ((i, nc) # conf) m = shard_map mv conf (give_shards mv (node_end_point i nc) (nc_shard_ids nc) m)"

definition shards_in :: "Configuration \<Rightarrow> u64 list" where
  "shards_in conf = concat (map (\<lambda>(i, nc). nc_shard_ids nc) conf)"

section \<open>The dictionary holds the map\<close>

abbreviation dict_rep :: "(u64 \<Rightarrow> u64) \<Rightarrow> (u64 \<times> NodeEndPoint) TreeHashTable \<Rightarrow> (u64 \<rightharpoonup> NodeEndPoint) \<Rightarrow> nat \<Rightarrow> bool" where
  "dict_rep HF tb m n \<equiv> tht_rep HF cmp_unsigned fst tb (kv_map m) n"

lemma avl_InsertKvWithDuplicate_rep:
  assumes "dict_rep HF tb m n" and "n < 2 ^ 60" and q: "q \<noteq> nullptr" "tree_nodes tb q = None"
  shows "(m s = None \<and> (\<exists>tb' p. avl_InsertKvWithDuplicate True HF cmp_unsigned q s w tb = Some (Inr (True, p), tb')
        \<and> dict_rep HF tb' (m(s \<mapsto> w)) (Suc n)))
    \<or> (m s \<noteq> None \<and> (\<exists>a tb' nd. avl_InsertKvWithDuplicate True HF cmp_unsigned q s w tb = Some (Inr (False, Some a), tb')
        \<and> a \<noteq> nullptr \<and> tree_nodes tb' a = Some nd \<and> fst (node_value nd) = s
        \<and> (\<forall>w'. dict_rep HF (tb'\<lparr>tree_nodes := (tree_nodes tb')(a \<mapsto> nd\<lparr>node_value := (s, w')\<rparr>)\<rparr>) (m(s \<mapsto> w')) (Suc n))))"
proof -
  from assms(1) obtain ts1 ts2 where fin: "finite (dom (tree_nodes tb))" and ok: "tht_ok HF cmp_unsigned fst tb ts1 ts2"
    and m: "kv_map m = tht_map fst tb ts1 ts2" and sz: "size (tht_entries tb ts1 ts2) \<le> n" by (auto simp: tht_rep_def)
  have "size (tht_entries tb ts1 ts2) < 2 ^ 60" using sz assms(2) by simp
  from tree_InsertWithDuplicate_ok [OF ok this q, of True "(s, w)"] obtain b a tb' ts1' ts2' nd where
    I: "avl_InsertKvWithDuplicate True HF cmp_unsigned q s w tb = Some (Inr (b, Some a), tb')" "tht_ok HF cmp_unsigned fst tb' ts1' ts2'"
      "a \<noteq> nullptr" "tree_nodes tb' a = Some nd" "a \<in> forest_nodes ts1' \<union> forest_nodes ts2'"
    and C: "case kv_map m s of
           Some d \<Rightarrow> \<not> b \<and> node_value nd = d
             \<and> tht_entries tb' ts1' ts2' = tht_entries tb ts1 ts2 \<and> dom (tree_nodes tb') = dom (tree_nodes tb)
         | None \<Rightarrow> b \<and> a = q \<and> node_value nd = (s, w) \<and> tht_entries tb' ts1' ts2' = add_mset (s, w) (tht_entries tb ts1 ts2)
             \<and> dom (tree_nodes tb') = insert q (dom (tree_nodes tb))"
    unfolding m avl_InsertKvWithDuplicate_def by (auto simp del: Un_iff del: UnE)
  show ?thesis
  proof (cases "m s")
    case None
    then have "kv_map m s = None" by (simp add: kv_map_def)
    with C have e: "b" "tht_entries tb' ts1' ts2' = add_mset (s, w) (tht_entries tb ts1 ts2)"
      "dom (tree_nodes tb') = insert q (dom (tree_nodes tb))" by simp_all
    have "tht_map fst tb' ts1' ts2' = kv_map (m(s \<mapsto> w))" using tht_map_insert [OF I(2) e(2)] m by (simp flip: kv_map_upd)
    moreover have "size (tht_entries tb' ts1' ts2') \<le> Suc n" using e(2) sz by simp
    ultimately have "dict_rep HF tb' (m(s \<mapsto> w)) (Suc n)" by (rule tht_repI [OF I(2), where A = "dom (tree_nodes tb')"]) (use e(3) fin in simp_all)
    then show ?thesis using None I(1) e(1) by (intro disjI1 conjI exI [of _ tb'] exI [of _ "Some a"]) simp_all
  next
    case (Some d)
    then have "kv_map m s = Some (s, d)" by (simp add: kv_map_def)
    with C I(5) have e: "\<not> b" "a \<in> forest_nodes ts1' \<union> forest_nodes ts2'" "node_value nd = (s, d)"
      "tht_entries tb' ts1' ts2' = tht_entries tb ts1 ts2" "dom (tree_nodes tb') = dom (tree_nodes tb)" by (simp_all del: Un_iff)
    have M: "tht_map fst tb' ts1' ts2' = kv_map m" using m by (simp add: tht_map_def e(4))
    have "dict_rep HF (tb'\<lparr>tree_nodes := (tree_nodes tb')(a \<mapsto> nd\<lparr>node_value := (s, w')\<rparr>)\<rparr>) (m(s \<mapsto> w')) (Suc n)" for w'
    proof -
      have k: "fst (s, w') = fst (node_value nd)" by (simp add: e(3))
      note W = tht_write_value [OF I(2) e(2) I(4) k]
      have "tht_map fst (tb'\<lparr>tree_nodes := (tree_nodes tb')(a \<mapsto> nd\<lparr>node_value := (s, w')\<rparr>)\<rparr>) ts1' ts2' = kv_map (m(s \<mapsto> w'))"
        using W(2) by (simp add: M kv_map_upd del: fun_upd_apply)
      then show ?thesis
        by (rule tht_repI [OF W(1), where A = "dom (tree_nodes tb')"]) (use W(3,4) e(4,5) sz fin in \<open>simp_all del: fun_upd_apply dom_fun_upd\<close>)
    qed
    then show ?thesis using Some I(1,3,4) e(1,3)
      by (intro disjI2 conjI exI [of _ a] exI [of _ tb'] exI [of _ nd]) (simp_all del: fun_upd_apply)
  qed
qed

lemma insert_shards_rep:
  assumes al: "allocates alloc"
  shows "dict_rep HF tb m n \<Longrightarrow> n + length ss \<le> 2 ^ 60 \<Longrightarrow>
    \<exists>tb'. insert_shards True alloc HF mv ep ss tb = Some (Inr (), tb') \<and> dict_rep HF tb' (give_shards mv ep ss m) (n + length ss)"
proof (induction ss arbitrary: ep tb m n)
  case Nil
  then show ?case by simp
next
  case (Cons s ss)
  let ?q = "alloc (tree_nodes tb)"
  have "finite (dom (tree_nodes tb))" using Cons.prems(1) by (simp add: tht_rep_def)
  with al have q: "?q \<noteq> nullptr" "tree_nodes tb ?q = None" by (auto simp: allocates_def)
  have n: "n < 2 ^ 60" "Suc n + length ss \<le> 2 ^ 60" using Cons.prems(2) by simp_all
  from avl_InsertKvWithDuplicate_rep [OF Cons.prems(1) n(1) q, of s ep] show ?case
  proof (elim disjE exE conjE)
    fix tb' p
    assume 1: "m s = None" "avl_InsertKvWithDuplicate True HF cmp_unsigned ?q s ep tb = Some (Inr (True, p), tb')"
      "dict_rep HF tb' (m(s \<mapsto> ep)) (Suc n)"
    from Cons.IH [OF 1(3) n(2), of "moved_from mv ep"] 1(1,2) show ?thesis by (auto simp: Let_def simp del: fun_upd_apply)
  next
    fix a tb' nd
    assume 1: "m s \<noteq> None" "avl_InsertKvWithDuplicate True HF cmp_unsigned ?q s ep tb = Some (Inr (False, Some a), tb')"
      "a \<noteq> nullptr" "tree_nodes tb' a = Some nd" "fst (node_value nd) = s"
      "\<forall>w'. dict_rep HF (tb'\<lparr>tree_nodes := (tree_nodes tb')(a \<mapsto> nd\<lparr>node_value := (s, w')\<rparr>)\<rparr>) (m(s \<mapsto> w')) (Suc n)"
    let ?tb = "tb'\<lparr>tree_nodes := (tree_nodes tb')(a \<mapsto> nd\<lparr>node_value := (s, moved_from mv ep)\<rparr>)\<rparr>"
    from 1(6) have "dict_rep HF ?tb (m(s \<mapsto> moved_from mv ep)) (Suc n)" by blast
    from Cons.IH [OF this n(2), of "moved_from mv (moved_from mv ep)"] obtain tb'' where
      2: "insert_shards True alloc HF mv (moved_from mv (moved_from mv ep)) ss ?tb = Some (Inr (), tb'')"
        "dict_rep HF tb'' (give_shards mv ep (s # ss) m) (n + length (s # ss))" using 1(1) by (auto simp del: fun_upd_apply)
    have "insert_shards True alloc HF mv ep (s # ss) tb = Some (Inr (), tb'')"
      using 1(2-5) 2(1) by (simp add: deref_def Let_def del: fun_upd_apply)
    then show ?thesis using 2(2) by blast
  qed
qed

lemma insert_nodes_rep:
  assumes al: "allocates alloc"
  shows "dict_rep HF tb m n \<Longrightarrow> n + length (shards_in conf) \<le> 2 ^ 60 \<Longrightarrow>
    \<exists>tb'. insert_nodes True alloc HF mv conf tb = Some (Inr (), tb') \<and> dict_rep HF tb' (shard_map mv conf m) (n + length (shards_in conf))"
proof (induction conf arbitrary: tb m n)
  case Nil
  then show ?case by (simp add: shards_in_def)
next
  case (Cons x conf)
  obtain i nc where x: "x = (i, nc)" by (cases x)
  have l: "length (shards_in (x # conf)) = length (nc_shard_ids nc) + length (shards_in conf)" by (simp add: shards_in_def x)
  have "n + length (nc_shard_ids nc) \<le> 2 ^ 60" using Cons.prems(2) l by simp
  from insert_shards_rep [OF al Cons.prems(1) this, of mv "node_end_point i nc"] obtain tb1 where
    1: "insert_shards True alloc HF mv (node_end_point i nc) (nc_shard_ids nc) tb = Some (Inr (), tb1)"
      "dict_rep HF tb1 (give_shards mv (node_end_point i nc) (nc_shard_ids nc) m) (n + length (nc_shard_ids nc))" by blast
  have "n + length (nc_shard_ids nc) + length (shards_in conf) \<le> 2 ^ 60" using Cons.prems(2) l by simp
  from Cons.IH [OF 1(2) this] 1(1) show ?case unfolding l by (auto simp: x add.assoc)
qed

end
