(* ===== verification/Configd_Props.thy ===== *)
theory Configd_Props
  imports Configd_Client
begin

text \<open>
  The properties of \<open>ConfigdClient\<close>: a shard is routed to the node that the last configuration names
  for it, and the host of a node, which is moved out of the loop variable, is there for its first
  shard of a first configuration only.
\<close>

section \<open>A sequence of responses\<close>

definition conf_of :: "ConfigResponse \<Rightarrow> Configuration" where
  "conf_of resp = (case cr_conf resp of None \<Rightarrow> [] | Some conf \<Rightarrow> conf)"

fun configd_run ::
    "((u64 \<times> NodeEndPoint) AvlNode heap \<Rightarrow> ptr) \<Rightarrow> (u64 \<Rightarrow> u64) \<Rightarrow> (bstring \<Rightarrow> bstring) \<Rightarrow> (Configuration \<Rightarrow> Configuration) \<Rightarrow>
      ConfigResponse list \<Rightarrow> ConfigdClient \<Rightarrow> ConfigdClient option" where
  "configd_run alloc HF mv mvc [] c = Some c"
| "configd_run alloc HF mv mvc (resp # resps) c = do {
     (r, c) \<leftarrow> configd_OnMessage True alloc HF mv mvc resp c;
     configd_run alloc HF mv mvc resps c }"

definition routes :: "(bstring \<Rightarrow> bstring) \<Rightarrow> ConfigResponse list \<Rightarrow> (u64 \<rightharpoonup> NodeEndPoint)" where
  "routes mv resps = fold (\<lambda>resp. shard_map mv (conf_of resp)) resps Map.empty"

abbreviation all_shards :: "ConfigResponse list \<Rightarrow> u64 list" where
  "all_shards resps \<equiv> concat (map (\<lambda>resp. shards_in (conf_of resp)) resps)"

lemma configd_OnMessage_rep:
  assumes "allocates alloc" and "dict_rep HF (shard_endpoint_dict c) m n" and "n + length (shards_in (conf_of resp)) \<le> 2 ^ 60"
    and "cr_status resp = CONF_STATUS_OK"
  shows "\<exists>c'. configd_OnMessage True alloc HF mv mvc resp c = Some (Inr (resp\<lparr>cr_conf := Some (mvc (conf_of resp))\<rparr>), c')
    \<and> dict_rep HF (shard_endpoint_dict c') (shard_map mv (conf_of resp) m) (n + length (shards_in (conf_of resp)))
    \<and> node_conf_map c' = conf_of resp \<and> cc_conn c' = cc_conn c"
proof -
  from insert_nodes_rep [OF assms(1-3), of mv] obtain tb' where
    "insert_nodes True alloc HF mv (conf_of resp) (shard_endpoint_dict c) = Some (Inr (), tb')"
    "dict_rep HF tb' (shard_map mv (conf_of resp) m) (n + length (shards_in (conf_of resp)))" by blast
  then show ?thesis using assms(4) unfolding configd_OnMessage_def conf_of_def [symmetric] by (simp add: Let_def)
qed

lemma configd_run_rep:
  assumes al: "allocates alloc"
  shows "dict_rep HF (shard_endpoint_dict c) m n \<Longrightarrow> n + length (all_shards resps) \<le> 2 ^ 60 \<Longrightarrow>
    \<forall>resp \<in> set resps. cr_status resp = CONF_STATUS_OK \<Longrightarrow>
    \<exists>c'. configd_run alloc HF mv mvc resps c = Some c'
      \<and> dict_rep HF (shard_endpoint_dict c') (fold (\<lambda>resp. shard_map mv (conf_of resp)) resps m) (n + length (all_shards resps))"
proof (induction resps arbitrary: c m n)
  case Nil
  then show ?case by simp
next
  case (Cons resp resps)
  let ?k = "length (shards_in (conf_of resp))"
  have n: "n + ?k \<le> 2 ^ 60" "n + ?k + length (all_shards resps) \<le> 2 ^ 60" using Cons.prems(2) by simp_all
  have st: "cr_status resp = CONF_STATUS_OK" "\<forall>resp \<in> set resps. cr_status resp = CONF_STATUS_OK" using Cons.prems(3) by simp_all
  from configd_OnMessage_rep [OF al Cons.prems(1) n(1) st(1), of mv mvc] obtain c1 where
    1: "configd_OnMessage True alloc HF mv mvc resp c = Some (Inr (resp\<lparr>cr_conf := Some (mvc (conf_of resp))\<rparr>), c1)"
      "dict_rep HF (shard_endpoint_dict c1) (shard_map mv (conf_of resp) m) (n + ?k)" by blast
  from Cons.IH [OF 1(2) n(2) st(2)] 1(1) show ?case by (simp add: add.assoc)
qed

lemma ConfigdClient_new_rep:
  fixes h :: "(u64 \<times> NodeEndPoint) AvlNode heap"
  assumes "finite (dom h)"
  shows "\<exists>c. ConfigdClient_new True h = Inr c \<and> dict_rep HF (shard_endpoint_dict c) Map.empty 0"
proof -
  have e: "kv_map Map.empty = (Map.empty :: u64 \<rightharpoonup> u64 \<times> NodeEndPoint)" by (auto simp: kv_map_def)
  from tht_new_rep [OF unsigned.comparator_axioms assms, of HF fst] show ?thesis by (auto simp: ConfigdClient_new_def e)
qed

lemma QueryNodeEndpoint_rep:
  assumes "dict_rep HF (shard_endpoint_dict c) m n"
  shows "\<exists>c'. QueryNodeEndpoint HF s c = Some (m s, c') \<and> dict_rep HF (shard_endpoint_dict c') m n"
proof -
  from assms obtain ts1 ts2 where ok: "tht_ok HF cmp_unsigned fst (shard_endpoint_dict c) ts1 ts2"
    and m: "kv_map m = tht_map fst (shard_endpoint_dict c) ts1 ts2" and sz: "size (tht_entries (shard_endpoint_dict c) ts1 ts2) \<le> n"
    and fin: "finite (dom (tree_nodes (shard_endpoint_dict c)))" by (auto simp: tht_rep_def)
  from tree_Find_ok [OF ok, of s] obtain tb' us1 us2 where F:
    "tree_Find HF cmp_unsigned fst s (shard_endpoint_dict c) = Some (kv_map m s, tb')" "tht_ok HF cmp_unsigned fst tb' us1 us2"
    "tht_entries tb' us1 us2 = tht_entries (shard_endpoint_dict c) ts1 ts2" "dom (tree_nodes tb') = dom (tree_nodes (shard_endpoint_dict c))"
    unfolding m by blast
  have "tht_map fst tb' us1 us2 = kv_map m" using m F(3) by (simp add: tht_map_def)
  then have "dict_rep HF tb' m n"
    by (rule tht_repI [OF F(2), where A = "dom (tree_nodes tb')"]) (use F(3,4) sz fin in simp_all)
  then show ?thesis using F(1) by (simp add: QueryNodeEndpoint_def kv_map_def option.map_comp comp_def option.map_ident)
qed

section \<open>What is left of a host\<close>

lemma moved_from_host: "(moved_from mv ^^ j) ep = ep\<lparr>ep_host := (mv ^^ j) (ep_host ep)\<rparr>"
  by (induction j) (simp_all add: moved_from_def)

text \<open>The number of moves before the host of a node reaches the entry of its shard number \<open>j\<close>.\<close>

definition moves_before :: "bool \<Rightarrow> nat \<Rightarrow> nat" where
  "moves_before known j = (if known then 2 * j + 1 else j)"

lemma give_shards_other: "s \<notin> set ss \<Longrightarrow> give_shards mv ep ss m s = m s"
  by (induction mv ep ss m rule: give_shards.induct) auto

lemma give_shards_nth:
  "distinct ss \<Longrightarrow> \<forall>s \<in> set ss. (m s \<noteq> None) = known \<Longrightarrow> j < length ss \<Longrightarrow>
    give_shards mv ep ss m (ss ! j) = Some ((moved_from mv ^^ moves_before known j) ep)"
proof (induction ss arbitrary: ep m j)
  case (Cons s ss)
  let ?ep = "if known then moved_from mv ep else ep"
  have st: "give_shards mv ep (s # ss) m = give_shards mv (moved_from mv ?ep) ss (m(s \<mapsto> ?ep))"
    using Cons.prems(2) by (auto simp del: fun_upd_apply)
  show ?case
  proof (cases j)
    case 0
    then show ?thesis using Cons.prems(1) unfolding st by (simp add: give_shards_other moves_before_def)
  next
    case (Suc i)
    have "distinct ss" "\<forall>t \<in> set ss. ((m(s \<mapsto> ?ep)) t \<noteq> None) = known" "i < length ss"
      using Cons.prems Suc by auto
    from Cons.IH [OF this, of "moved_from mv ?ep"]
    have "give_shards mv (moved_from mv ?ep) ss (m(s \<mapsto> ?ep)) (ss ! i)
        = Some ((moved_from mv ^^ moves_before known i) (moved_from mv ?ep))" .
    then show ?thesis unfolding st Suc
      by (simp add: moves_before_def funpow_Suc_right del: funpow.simps fun_upd_apply split: if_splits)
  qed
qed simp

lemma shard_map_other: "s \<notin> set (shards_in conf) \<Longrightarrow> shard_map mv conf m s = m s"
  by (induction mv conf m rule: shard_map.induct) (auto simp: shards_in_def give_shards_other)

lemma shard_map_nth:
  "distinct (shards_in conf) \<Longrightarrow> \<forall>s \<in> set (shards_in conf). (m s \<noteq> None) = known \<Longrightarrow> (i, nc) \<in> set conf \<Longrightarrow>
    j < length (nc_shard_ids nc) \<Longrightarrow>
    shard_map mv conf m (nc_shard_ids nc ! j) = Some ((moved_from mv ^^ moves_before known j) (node_end_point i nc))"
proof (induction mv conf m rule: shard_map.induct)
  case (2 mv i' nc' conf m)
  let ?m = "give_shards mv (node_end_point i' nc') (nc_shard_ids nc') m"
  have d: "distinct (nc_shard_ids nc')" "distinct (shards_in conf)" "set (nc_shard_ids nc') \<inter> set (shards_in conf) = {}"
    using 2(2) by (simp_all add: shards_in_def)
  show ?case
  proof (cases "(i, nc) \<in> set conf")
    case True
    have "\<forall>s \<in> set (shards_in conf). (?m s \<noteq> None) = known"
    proof
      fix s
      assume s: "s \<in> set (shards_in conf)"
      then have "s \<notin> set (nc_shard_ids nc')" using d(3) by blast
      then show "(?m s \<noteq> None) = known" using 2(3) s by (simp add: give_shards_other shards_in_def)
    qed
    from 2(1) [OF d(2) this True 2(5)] show ?thesis by simp
  next
    case False
    then have e: "i = i'" "nc = nc'" using 2(4) by auto
    have "nc_shard_ids nc ! j \<notin> set (shards_in conf)" using d(3) 2(5) nth_mem e(2) by blast
    moreover have "\<forall>s \<in> set (nc_shard_ids nc'). (m s \<noteq> None) = known" using 2(3) by (simp add: shards_in_def)
    ultimately show ?thesis using give_shards_nth [OF d(1), of m known j] 2(5) e by (simp add: shard_map_other)
  qed
qed simp


section \<open>Properties\<close>

text \<open>
  C10: from construction on, any sequence of configurations that names at most 2^60 shards is stored
  without an undefined step, whatever the hash function, and \<open>QueryNodeEndpoint\<close> then answers from
  the map that the specification \<open>routes\<close> builds of them. \<open>routes\<close> goes through the shards as the
  handler does, with a plain map: a shard gets what the endpoint of its node holds when its turn
  comes, which after the first move is a port without a host, and a shard that is no longer named
  keeps its entry.
\<close>
theorem configd_queries_follow_routes:
  fixes h :: "(u64 \<times> NodeEndPoint) AvlNode heap"
  assumes "allocates alloc" and "finite (dom h)" and "length (all_shards resps) \<le> 2 ^ 60"
    and "\<forall>resp \<in> set resps. cr_status resp = CONF_STATUS_OK"
  shows "\<exists>c c'. ConfigdClient_new True h = Inr c \<and> configd_run alloc HF mv mvc resps c = Some c'
    \<and> (\<forall>s. \<exists>c''. QueryNodeEndpoint HF s c' = Some (routes mv resps s, c''))"
proof -
  from ConfigdClient_new_rep [OF assms(2), of HF] obtain c where
    c: "ConfigdClient_new True h = Inr c" "dict_rep HF (shard_endpoint_dict c) Map.empty 0" by blast
  have "0 + length (all_shards resps) \<le> 2 ^ 60" using assms(3) by simp
  from configd_run_rep [OF assms(1) c(2) this assms(4), of mv mvc] obtain c' where
    r: "configd_run alloc HF mv mvc resps c = Some c'"
      "dict_rep HF (shard_endpoint_dict c') (routes mv resps) (0 + length (all_shards resps))" unfolding routes_def by blast
  have "\<forall>s. \<exists>c''. QueryNodeEndpoint HF s c' = Some (routes mv resps s, c'')"
    using QueryNodeEndpoint_rep [OF r(2)] by blast
  then show ?thesis using c(1) r(1) by blast
qed

definition sample_conf :: ConfigResponse where
  "sample_conf = \<lparr>cr_status = CONF_STATUS_OK,
     cr_conf = Some [(7, \<lparr>nc_port = 80, nc_host = [104, 49], nc_shard_ids = [1, 2]\<rparr>)]\<rparr>"

theorem configd_queries_follow_routes_witness:
  "\<exists>c c'. ConfigdClient_new True Map.empty = Inr c
    \<and> configd_run next_address (\<lambda>k. k) (\<lambda>s. []) (\<lambda>conf. []) [sample_conf] c = Some c'
    \<and> (\<exists>c''. QueryNodeEndpoint (\<lambda>k. k) 1 c' = Some (Some \<lparr>ep_node_id = 7, ep_host = [104, 49], ep_port = 80\<rparr>, c''))
    \<and> (\<exists>c''. QueryNodeEndpoint (\<lambda>k. k) 2 c' = Some (Some \<lparr>ep_node_id = 7, ep_host = [], ep_port = 80\<rparr>, c''))
    \<and> (\<exists>c''. QueryNodeEndpoint (\<lambda>k. k) 3 c' = Some (None, c''))"
proof -
  have s: "length (all_shards [sample_conf]) \<le> 2 ^ 60" "\<forall>resp \<in> set [sample_conf]. cr_status resp = CONF_STATUS_OK"
    by (simp_all add: sample_conf_def conf_of_def shards_in_def)
  have r: "routes (\<lambda>s. []) [sample_conf] 1 = Some \<lparr>ep_node_id = 7, ep_host = [104, 49], ep_port = 80\<rparr>"
    "routes (\<lambda>s. []) [sample_conf] 2 = Some \<lparr>ep_node_id = 7, ep_host = [], ep_port = 80\<rparr>"
    "routes (\<lambda>s. []) [sample_conf] 3 = None"
    by (simp_all add: routes_def sample_conf_def conf_of_def node_end_point_def moved_from_def)
  have "finite (dom (Map.empty :: (u64 \<times> NodeEndPoint) AvlNode heap))" by simp
  from configd_queries_follow_routes [OF next_address_allocates this s, of "\<lambda>k. k" "\<lambda>s. []" "\<lambda>conf. []"] r show ?thesis by metis
qed

text \<open>
  C26: in a configuration that names every shard once, each shard is routed to the id and the port of
  its node. Its host has been moved from once for every shard before it in the list of the node,
  so that after the first response only the first shard of a node has the host; and a second
  response with the same configuration, where every insertion moves the endpoint into a pair that
  is thrown away, takes the host of the first one too.
\<close>
theorem configd_hosts_lost:
  fixes h :: "(u64 \<times> NodeEndPoint) AvlNode heap"
  assumes "allocates alloc" and "finite (dom h)" and "2 * length (shards_in conf) \<le> 2 ^ 60" and "distinct (shards_in conf)"
    and "cr_status resp = CONF_STATUS_OK" and "cr_conf resp = Some conf"
  shows "\<exists>c c1 c2. ConfigdClient_new True h = Inr c \<and> configd_run alloc HF mv mvc [resp] c = Some c1
    \<and> configd_run alloc HF mv mvc [resp] c1 = Some c2
    \<and> (\<forall>(i, nc) \<in> set conf. \<forall>j < length (nc_shard_ids nc).
         (\<exists>c'. QueryNodeEndpoint HF (nc_shard_ids nc ! j) c1 =
            Some (Some \<lparr>ep_node_id = i, ep_host = (mv ^^ j) (nc_host nc), ep_port = ucast (nc_port nc)\<rparr>, c'))
       \<and> (\<exists>c'. QueryNodeEndpoint HF (nc_shard_ids nc ! j) c2 =
            Some (Some \<lparr>ep_node_id = i, ep_host = (mv ^^ (2 * j + 1)) (nc_host nc), ep_port = ucast (nc_port nc)\<rparr>, c')))"
proof -
  from ConfigdClient_new_rep [OF assms(2), of HF] obtain c where
    c: "ConfigdClient_new True h = Inr c" "dict_rep HF (shard_endpoint_dict c) Map.empty 0" by blast
  have cf: "conf_of resp = conf" by (simp add: conf_of_def assms(6))
  have n: "0 + length (all_shards [resp]) \<le> 2 ^ 60" "0 + length (all_shards [resp]) + length (all_shards [resp]) \<le> 2 ^ 60"
    and st: "\<forall>r \<in> set [resp]. cr_status r = CONF_STATUS_OK" using assms(3,5) cf by simp_all
  let ?m1 = "shard_map mv conf Map.empty"
  from configd_run_rep [OF assms(1) c(2) n(1) st, of mv mvc] obtain c1 where
    r1: "configd_run alloc HF mv mvc [resp] c = Some c1" "dict_rep HF (shard_endpoint_dict c1) ?m1 (0 + length (all_shards [resp]))"
    using cf by auto
  from configd_run_rep [OF assms(1) r1(2) n(2) st, of mv mvc] obtain c2 where
    r2: "configd_run alloc HF mv mvc [resp] c1 = Some c2"
      "dict_rep HF (shard_endpoint_dict c2) (shard_map mv conf ?m1) (0 + length (all_shards [resp]) + length (all_shards [resp]))"
    using cf by auto
  have new: "\<forall>s \<in> set (shards_in conf). ((Map.empty :: u64 \<rightharpoonup> NodeEndPoint) s \<noteq> None) = False" by simp
  note N = shard_map_nth [OF assms(4) new]
  have known: "\<forall>s \<in> set (shards_in conf). (?m1 s \<noteq> None) = True"
  proof
    fix s
    assume "s \<in> set (shards_in conf)"
    then obtain i nc j where "(i, nc) \<in> set conf" "j < length (nc_shard_ids nc)" "s = nc_shard_ids nc ! j"
      by (auto simp: shards_in_def in_set_conv_nth [of s])
    with N [of i nc j mv] show "(?m1 s \<noteq> None) = True" by simp
  qed
  note K = shard_map_nth [OF assms(4) known]
  have ep: "(moved_from mv ^^ k) (node_end_point i nc)
      = \<lparr>ep_node_id = i, ep_host = (mv ^^ k) (nc_host nc), ep_port = ucast (nc_port nc)\<rparr>" for k i nc
    by (simp add: moved_from_host node_end_point_def)
  have Q: "\<exists>c'. QueryNodeEndpoint HF (nc_shard_ids nc ! j) c1 =
          Some (Some \<lparr>ep_node_id = i, ep_host = (mv ^^ j) (nc_host nc), ep_port = ucast (nc_port nc)\<rparr>, c')"
      "\<exists>c'. QueryNodeEndpoint HF (nc_shard_ids nc ! j) c2 =
          Some (Some \<lparr>ep_node_id = i, ep_host = (mv ^^ (2 * j + 1)) (nc_host nc), ep_port = ucast (nc_port nc)\<rparr>, c')"
    if "(i, nc) \<in> set conf" "j < length (nc_shard_ids nc)" for i nc j
    using QueryNodeEndpoint_rep [OF r1(2), of "nc_shard_ids nc ! j"] QueryNodeEndpoint_rep [OF r2(2), of "nc_shard_ids nc ! j"]
      N [OF that, of mv] K [OF that] ep [of j] ep [of "2 * j + 1"] by (auto simp: moves_before_def)
  then show ?thesis using c(1) r1(1) r2(1) by blast
qed

theorem configd_hosts_lost_witness:
  "\<exists>c c1 c2. ConfigdClient_new True Map.empty = Inr c
    \<and> configd_run next_address (\<lambda>k. k) (\<lambda>s. []) (\<lambda>conf. []) [sample_conf] c = Some c1
    \<and> configd_run next_address (\<lambda>k. k) (\<lambda>s. []) (\<lambda>conf. []) [sample_conf] c1 = Some c2
    \<and> (\<exists>c'. QueryNodeEndpoint (\<lambda>k. k) 1 c1 = Some (Some \<lparr>ep_node_id = 7, ep_host = [104, 49], ep_port = 80\<rparr>, c'))
    \<and> (\<exists>c'. QueryNodeEndpoint (\<lambda>k. k) 2 c1 = Some (Some \<lparr>ep_node_id = 7, ep_host = [], ep_port = 80\<rparr>, c'))
    \<and> (\<exists>c'. QueryNodeEndpoint (\<lambda>k. k) 1 c2 = Some (Some \<lparr>ep_node_id = 7, ep_host = [], ep_port = 80\<rparr>, c'))"
proof -
  let ?nc = "\<lparr>nc_port = 80, nc_host = [104, 49], nc_shard_ids = [1, 2]\<rparr>" and ?mv = "\<lambda>s :: bstring. [] :: bstring"
  have s: "2 * length (shards_in [(7, ?nc)]) \<le> 2 ^ 60" "distinct (shards_in [(7, ?nc)])"
    "cr_status sample_conf = CONF_STATUS_OK" "cr_conf sample_conf = Some [(7, ?nc)]"
    by (simp_all add: sample_conf_def shards_in_def)
  have fin: "finite (dom (Map.empty :: (u64 \<times> NodeEndPoint) AvlNode heap))" by simp
  from configd_hosts_lost [OF next_address_allocates fin s, of "\<lambda>k. k" ?mv "\<lambda>conf. []"] obtain c c1 c2 where
    C: "ConfigdClient_new True Map.empty = Inr c" "configd_run next_address (\<lambda>k. k) ?mv (\<lambda>conf. []) [sample_conf] c = Some c1"
      "configd_run next_address (\<lambda>k. k) ?mv (\<lambda>conf. []) [sample_conf] c1 = Some c2"
    and Q: "\<forall>(i, nc) \<in> set [(7, ?nc)]. \<forall>j < length (nc_shard_ids nc).
         (\<exists>c'. QueryNodeEndpoint (\<lambda>k. k) (nc_shard_ids nc ! j) c1 =
            Some (Some \<lparr>ep_node_id = i, ep_host = (?mv ^^ j) (nc_host nc), ep_port = ucast (nc_port nc)\<rparr>, c'))
       \<and> (\<exists>c'. QueryNodeEndpoint (\<lambda>k. k) (nc_shard_ids nc ! j) c2 =
            Some (Some \<lparr>ep_node_id = i, ep_host = (?mv ^^ (2 * j + 1)) (nc_host nc), ep_port = ucast (nc_port nc)\<rparr>, c'))"
    by blast
  have "(7, ?nc) \<in> set [(7, ?nc)]" by simp
  from bspec [OF Q this] have q: "\<forall>j < length (nc_shard_ids ?nc).
         (\<exists>c'. QueryNodeEndpoint (\<lambda>k. k) (nc_shard_ids ?nc ! j) c1 =
            Some (Some \<lparr>ep_node_id = 7, ep_host = (?mv ^^ j) (nc_host ?nc), ep_port = ucast (nc_port ?nc)\<rparr>, c'))
       \<and> (\<exists>c'. QueryNodeEndpoint (\<lambda>k. k) (nc_shard_ids ?nc ! j) c2 =
            Some (Some \<lparr>ep_node_id = 7, ep_host = (?mv ^^ (2 * j + 1)) (nc_host ?nc), ep_port = ucast (nc_port ?nc)\<rparr>, c'))"
    unfolding prod.case .
  have "0 < length (nc_shard_ids ?nc)" "1 < length (nc_shard_ids ?nc)" by simp_all
  from q [rule_format, OF this(1)] q [rule_format, OF this(2)] C show ?thesis by simp
qed

end
