(* ===== verification/Mmbp_Raw.thy ===== *)
theory Mmbp_Raw
  imports Mmbp_Request
begin

text \<open>
  The parse functions of \<open>mmbp_util.h\<close> over a raw region, \<open>(void const **pp_data, size_t *p_size)\<close>,
  and \<open>MmbpRequest::ParseFrom(pp_data, len)\<close> on top of them. A region is the bytes from \<open>*pp_data\<close>
  to the end of the object it points into and the size the caller claims: reading past the
  claimed size is what the code does or does not prevent, reading past the object is undefined.
\<close>

section \<open>Parsing from a region\<close>

record raw =
  raw_data :: "byte list"
  raw_size :: size_t

text \<open>
  \<open>MMKV_PARSE_UNSIGNED_RAW_\<close> and \<open>MMKV_PARSE_SIGNED_RAW_\<close>. The decoder may read up to the claimed size:
  when it wants more bytes than the object has, the result is undefined.
\<close>

definition MMKV_PARSE_RAW :: "(byte list \<Rightarrow> 'w kvarint_result) \<Rightarrow> raw \<Rightarrow> ('w option \<times> raw) option" where
  "MMKV_PARSE_RAW decode rd =
     (case decode (take (unat (raw_size rd)) (raw_data rd)) of
        KVARINT_OK len i \<Rightarrow>
          Some (Some i, \<lparr>raw_data = drop len (raw_data rd), raw_size = raw_size rd - of_nat len\<rparr>)
      | KVARINT_DECODE_BUF_INVALID \<Rightarrow> Some (None, rd)
      | KVARINT_DECODE_BUF_SHORT \<Rightarrow> if unat (raw_size rd) \<le> length (raw_data rd) then Some (None, rd) else None)"

definition Raw_u8 :: "kvarint \<Rightarrow> raw \<Rightarrow> (byte option \<times> raw) option" where
  "Raw_u8 K = MMKV_PARSE_RAW (kvarint_decode8 K)"

definition Raw_u16 :: "kvarint \<Rightarrow> raw \<Rightarrow> (u16 option \<times> raw) option" where
  "Raw_u16 K = MMKV_PARSE_RAW (kvarint_decode16 K)"

definition Raw_u32 :: "kvarint \<Rightarrow> raw \<Rightarrow> (u32 option \<times> raw) option" where
  "Raw_u32 K = MMKV_PARSE_RAW (kvarint_decode32 K)"

definition Raw_u64 :: "kvarint \<Rightarrow> raw \<Rightarrow> (u64 option \<times> raw) option" where
  "Raw_u64 K = MMKV_PARSE_RAW (kvarint_decode64 K)"

definition Raw_i64 :: "kvarint \<Rightarrow> raw \<Rightarrow> (u64 option \<times> raw) option" where
  "Raw_i64 K = MMKV_PARSE_RAW (kvarint_decode64s K)"

text \<open>Bytes are taken from the data without a look at the size, which some parsers then reduce.\<close>

definition raw_take :: "nat \<Rightarrow> raw \<Rightarrow> (byte list \<times> raw) option" where
  "raw_take n rd =
     (if n \<le> length (raw_data rd) then Some (take n (raw_data rd), rd\<lparr>raw_data := drop n (raw_data rd)\<rparr>) else None)"

definition raw_shrink :: "size_t \<Rightarrow> raw \<Rightarrow> raw" where
  "raw_shrink n rd = rd\<lparr>raw_size := raw_size rd - n\<rparr>"

text \<open>A string: the size is reduced by the length prefix only.\<close>

definition Raw_str :: "kvarint \<Rightarrow> bool \<Rightarrow> raw \<Rightarrow> (bstring \<times> raw) option" where
  "Raw_str K is_16 rd = do {
     (len, rd) \<leftarrow>
       (if is_16
        then do { (out, rd) \<leftarrow> Raw_u16 K rd; out \<leftarrow> out; Some (unat out, rd) }
        else do { (out, rd) \<leftarrow> Raw_u32 K rd; out \<leftarrow> out; Some (unat out, rd) });
     raw_take len rd }"

fun raw_strs_loop :: "kvarint \<Rightarrow> StrValues \<Rightarrow> u64 \<Rightarrow> raw \<Rightarrow> (StrValues \<times> raw) option" where
  "raw_strs_loop K [] value_size rd = Some ([], rd)"
| "raw_strs_loop K (v # vs) value_size rd = do {
     (r, rd) \<leftarrow> Raw_u64 K rd;
     let value_size = kept value_size r;
     (bs, rd) \<leftarrow> raw_take (unat value_size) rd;
     (vs, rd) \<leftarrow> raw_strs_loop K vs value_size (raw_shrink value_size rd);
     Some ((v @ bs) # vs, rd) }"

definition Raw_strs :: "kvarint \<Rightarrow> StrValues \<Rightarrow> raw \<Rightarrow> (StrValues \<times> raw) option" where
  "Raw_strs K values rd = do {
     (r, rd) \<leftarrow> Raw_u32 K rd;
     let count = kept (- 1) r;
     raw_strs_loop K (resize (unat count) [] values) 0 rd }"

text \<open>
  The weight is parsed as a varint, unlike the 8 bytes the serializer writes. \<open>weight\<close> is declared
  before the loop without a value; an element whose weight does not parse reads what is left there.
\<close>

fun raw_weights_loop :: "kvarint \<Rightarrow> WeightValues \<Rightarrow> u64 option \<Rightarrow> u64 \<Rightarrow> raw \<Rightarrow> (WeightValues \<times> raw) option" where
  "raw_weights_loop K [] weight value_size rd = Some ([], rd)"
| "raw_weights_loop K (v # vs) weight value_size rd = do {
     (r, rd) \<leftarrow> Raw_u64 K rd;
     let weight = (case r of Some w \<Rightarrow> Some w | None \<Rightarrow> weight);
     w \<leftarrow> weight;
     (r, rd) \<leftarrow> Raw_u64 K rd;
     let value_size = kept value_size r;
     (bs, rd) \<leftarrow> raw_take (unat value_size) rd;
     (vs, rd) \<leftarrow> raw_weights_loop K vs weight value_size (raw_shrink value_size rd);
     Some (v\<lparr>key := int2double w, val := val v @ bs\<rparr> # vs, rd) }"

definition Raw_weights :: "kvarint \<Rightarrow> WeightValues \<Rightarrow> raw \<Rightarrow> (WeightValues \<times> raw) option" where
  "Raw_weights K values rd = do {
     (r, rd) \<leftarrow> Raw_u32 K rd;
     let count = kept (- 1) r;
     raw_weights_loop K (resize (unat count) \<lparr>key = Double 0, val = []\<rparr> values) None 0 rd }"

fun raw_kvs_loop :: "kvarint \<Rightarrow> StrKvs \<Rightarrow> u64 \<Rightarrow> u64 \<Rightarrow> raw \<Rightarrow> (StrKvs \<times> raw) option" where
  "raw_kvs_loop K [] key_size value_size rd = Some ([], rd)"
| "raw_kvs_loop K (kv # kvs) key_size value_size rd = do {
     (r, rd) \<leftarrow> Raw_u64 K rd;
     let key_size = kept key_size r;
     (ks, rd) \<leftarrow> raw_take (unat key_size) rd;
     (r, rd) \<leftarrow> Raw_u64 K (raw_shrink key_size rd);
     let value_size = kept value_size r;
     (vs, rd) \<leftarrow> raw_take (unat value_size) rd;
     (kvs, rd) \<leftarrow> raw_kvs_loop K kvs key_size value_size (raw_shrink value_size rd);
     Some (kv\<lparr>key := key kv @ ks, val := val kv @ vs\<rparr> # kvs, rd) }"

definition Raw_kvs :: "kvarint \<Rightarrow> StrKvs \<Rightarrow> raw \<Rightarrow> (StrKvs \<times> raw) option" where
  "Raw_kvs K kvs rd = do {
     (r, rd) \<leftarrow> Raw_u32 K rd;
     let count = kept (- 1) r;
     raw_kvs_loop K (resize (unat count) \<lparr>key = [], val = []\<rparr> kvs) 0 0 rd }"

text \<open>\<open>SET_FILED_UVEC_RAW_\<close>, for vectors and for vectors of vectors.\<close>

fun raw_elems_loop :: "(raw \<Rightarrow> ('w option \<times> raw) option) \<Rightarrow> 'w list \<Rightarrow> raw \<Rightarrow> ('w list \<times> raw) option" where
  "raw_elems_loop parse [] rd = Some ([], rd)"
| "raw_elems_loop parse (u # us) rd = do {
     (r, rd) \<leftarrow> parse rd;
     (us, rd) \<leftarrow> raw_elems_loop parse us rd;
     Some (kept u r # us, rd) }"

definition SET_FILED_UVEC_RAW ::
    "(raw \<Rightarrow> (('w::len word) option \<times> raw) option) \<Rightarrow> 'w word list \<Rightarrow> raw \<Rightarrow> ('w word list \<times> raw) option" where
  "SET_FILED_UVEC_RAW parse us rd = do {
     (r, rd) \<leftarrow> parse rd;
     let size = kept (- 1) r;
     raw_elems_loop parse (resize (unat size) 0 us) rd }"

fun raw_rows_loop ::
    "(raw \<Rightarrow> (('w::len word) option \<times> raw) option) \<Rightarrow> 'w word list list \<Rightarrow> raw \<Rightarrow> ('w word list list \<times> raw) option" where
  "raw_rows_loop parse [] rd = Some ([], rd)"
| "raw_rows_loop parse (us # uss) rd = do {
     (us, rd) \<leftarrow> SET_FILED_UVEC_RAW parse us rd;
     (uss, rd) \<leftarrow> raw_rows_loop parse uss rd;
     Some (us # uss, rd) }"

definition SET_FILED_UVEC_RAW_2D ::
    "(raw \<Rightarrow> (('w::len word) option \<times> raw) option) \<Rightarrow> 'w word list list \<Rightarrow> raw \<Rightarrow> ('w word list list \<times> raw) option" where
  "SET_FILED_UVEC_RAW_2D parse uss rd = do {
     (r, rd) \<leftarrow> parse rd;
     let size = kept (- 1) r;
     raw_rows_loop parse (resize (unat size) [] uss) rd }"

definition Raw_u16s :: "kvarint \<Rightarrow> u16 list \<Rightarrow> raw \<Rightarrow> (u16 list \<times> raw) option" where
  "Raw_u16s K = SET_FILED_UVEC_RAW (Raw_u16 K)"

definition Raw_u32s :: "kvarint \<Rightarrow> u32 list \<Rightarrow> raw \<Rightarrow> (u32 list \<times> raw) option" where
  "Raw_u32s K = SET_FILED_UVEC_RAW (Raw_u32 K)"

definition Raw_u8s :: "kvarint \<Rightarrow> byte list \<Rightarrow> raw \<Rightarrow> (byte list \<times> raw) option" where
  "Raw_u8s K = raw_elems_loop (Raw_u8 K)"

definition Raw_buf :: "kvarint \<Rightarrow> raw \<Rightarrow> (byte list \<times> raw) option" where
  "Raw_buf K rd = do {
     (r, rd) \<leftarrow> Raw_u32 K rd;
     let len = kept (- 1) r;
     (if len = 0 then None
      else do {
        (bs, rd) \<leftarrow> raw_take (unat len) rd;
        Some (bs, raw_shrink (ucast len) rd) }) }"

fun raw_map_loop ::
    "(raw \<Rightarrow> ('k \<times> raw) option) \<Rightarrow> (raw \<Rightarrow> ('v \<times> raw) option) \<Rightarrow> nat \<Rightarrow> ('k \<rightharpoonup> 'v) \<Rightarrow> raw
       \<Rightarrow> (('k \<rightharpoonup> 'v) \<times> raw) option" where
  "raw_map_loop pk pv 0 kv_map rd = Some (kv_map, rd)"
| "raw_map_loop pk pv (Suc n) kv_map rd = do {
     (k, rd) \<leftarrow> pk rd;
     (v, rd) \<leftarrow> pv rd;
     raw_map_loop pk pv n (if k \<in> dom kv_map then kv_map else kv_map(k \<mapsto> v)) rd }"

definition Raw_map ::
    "kvarint \<Rightarrow> (raw \<Rightarrow> ('k \<times> raw) option) \<Rightarrow> (raw \<Rightarrow> ('v \<times> raw) option) \<Rightarrow> ('k \<rightharpoonup> 'v) \<Rightarrow> raw
       \<Rightarrow> (('k \<rightharpoonup> 'v) \<times> raw) option" where
  "Raw_map K pk pv kv_map rd = do {
     (r, rd) \<leftarrow> Raw_u32 K rd;
     raw_map_loop pk pv (unat (kept (- 1) r)) kv_map rd }"

section \<open>MmbpRequest::ParseFrom on raw data\<close>

text \<open>
  Every flag is ignored. A range whose left end does not parse has no right end either, since the
  same bytes are parsed again.
\<close>

definition rq_RawRange :: "kvarint \<Rightarrow> MmbpRequest \<Rightarrow> raw \<Rightarrow> (MmbpRequest \<times> raw) option" where
  "rq_RawRange K r rd = do {
     (x, rd) \<leftarrow> Raw_i64 K rd;
     let old = (case rq_union r of Range _ right \<Rightarrow> right | _ \<Rightarrow> None);
     let r = (case x of Some l \<Rightarrow> r\<lparr>rq_union := Range l old\<rparr> | None \<Rightarrow> r);
     (y, rd) \<leftarrow> Raw_i64 K rd;
     (case y of
        None \<Rightarrow> Some (r, rd)
      | Some right \<Rightarrow>
          (case rq_union r of Range l _ \<Rightarrow> Some (r\<lparr>rq_union := Range l (Some right)\<rparr>, rd) | _ \<Rightarrow> None)) }"

definition rq_RawPayload :: "kvarint \<Rightarrow> MmbpRequest \<Rightarrow> raw \<Rightarrow> (MmbpRequest \<times> raw) option" where
  "rq_RawPayload K r rd =
     (if rq_HasValue r then do {
        (v, rd) \<leftarrow> Raw_str K False rd;
        Some (r\<lparr>rq_value := v\<rparr>, rd) }
      else if rq_HasValues r then do {
        (vs, rd) \<leftarrow> Raw_strs K (rq_values r) rd;
        Some (r\<lparr>rq_values := vs\<rparr>, rd) }
      else if rq_HasKvs r then do {
        (kvs, rd) \<leftarrow> Raw_kvs K (rq_kvs r) rd;
        Some (r\<lparr>rq_kvs := kvs\<rparr>, rd) }
      else if rq_HasCount r then do {
        (c, rd) \<leftarrow> Raw_u32 K rd;
        Some (case c of Some c \<Rightarrow> r\<lparr>rq_union := Count c\<rparr> | None \<Rightarrow> r, rd) }
      else if rq_HasRange r then rq_RawRange K r rd
      else if rq_HasVmembers r then do {
        (wvs, rd) \<leftarrow> Raw_weights K (rq_vmembers r) rd;
        Some (r\<lparr>rq_vmembers := wvs\<rparr>, rd) }
      else Some (r, rd))"

text \<open>The size is passed by value, so only the data pointer of the caller moves.\<close>

definition rq_ParseFrom_raw :: "kvarint \<Rightarrow> MmbpRequest \<Rightarrow> byte list \<Rightarrow> size_t \<Rightarrow> (MmbpRequest \<times> byte list) option" where
  "rq_ParseFrom_raw K r data len = do {
     (c, rd) \<leftarrow> Raw_u16 K \<lparr>raw_data = data, raw_size = len\<rparr>;
     let r = (case c of Some c \<Rightarrow> r\<lparr>rq_command := c\<rparr> | None \<Rightarrow> r);
     (b, rd) \<leftarrow> Raw_u8 K rd;
     let r = (case b of Some b \<Rightarrow> r\<lparr>rq_has_bits := b\<rparr> | None \<Rightarrow> r);
     (r, rd) \<leftarrow>
       (if rq_HasKey r then do { (k, rd) \<leftarrow> Raw_str K True rd; Some (r\<lparr>rq_key := k\<rparr>, rd) }
        else Some (r, rd));
     (r, rd) \<leftarrow> rq_RawPayload K r rd;
     (r, rd) \<leftarrow>
       (if rq_HasExpireTime r then do {
          (t, rd) \<leftarrow> Raw_u64 K rd;
          Some (case t of Some t \<Rightarrow> r\<lparr>rq_expire_time := Some t\<rparr> | None \<Rightarrow> r, rd) }
        else Some (r, rd));
     Some (r, raw_data rd) }"

text \<open>
  \<open>MmbpMessage::ParseFrom2\<close> is to subtract what was parsed from \<open>*p_size\<close>; it subtracts the
  difference of \<open>pp_data\<close> and a copy of it, which is 0.
\<close>

definition rq_ParseFrom2 :: "kvarint \<Rightarrow> MmbpRequest \<Rightarrow> byte list \<Rightarrow> size_t \<Rightarrow> (MmbpRequest \<times> byte list \<times> size_t) option" where
  "rq_ParseFrom2 K r data len = do {
     (r, data) \<leftarrow> rq_ParseFrom_raw K r data len;
     Some (r, data, len - 0) }"

end
