(* ===== verification/Mmbp_Raw_Wire.thy ===== *)
theory Mmbp_Raw_Wire
  imports Mmbp_Raw Kanon_Instance
begin

text \<open>
  The raw parsers on the wire format. \<open>raw_reads P bs c x\<close>: on data that starts with \<open>bs\<close> and a
  claimed size of at least \<open>c\<close>, \<open>P\<close> returns \<open>x\<close>, leaves what follows \<open>bs\<close>, and takes \<open>c\<close> off the
  size; \<open>c\<close> is less than the length of \<open>bs\<close> for a string, whose bytes the size does not count.
\<close>

section \<open>Reading with an account of the size\<close>

definition raw_reads :: "(raw \<Rightarrow> ('a \<times> raw) option) \<Rightarrow> byte list \<Rightarrow> nat \<Rightarrow> 'a \<Rightarrow> bool" where
  "raw_reads P bs c x \<longleftrightarrow>
     (\<forall>(rd :: raw) rest. raw_data rd = bs @ rest \<and> c \<le> unat (raw_size rd) \<longrightarrow>
        (\<exists>rd'. P rd = Some (x, rd') \<and> raw_data rd' = rest \<and> unat (raw_size rd') = unat (raw_size rd) - c))"

lemma raw_readsI:
  "(\<And>(rd :: raw) rest. raw_data rd = bs @ rest \<Longrightarrow> c \<le> unat (raw_size rd) \<Longrightarrow>
      \<exists>rd'. P rd = Some (x, rd') \<and> raw_data rd' = rest \<and> unat (raw_size rd') = unat (raw_size rd) - c) \<Longrightarrow> raw_reads P bs c x"
  by (simp add: raw_reads_def)

lemma raw_readsE:
  assumes "raw_reads P bs c x" and "raw_data rd = bs @ rest" and "c \<le> unat (raw_size rd)"
  obtains rd' where "P rd = Some (x, rd')" and "raw_data rd' = rest" and "unat (raw_size rd') = unat (raw_size rd) - c"
  using assms by (auto simp: raw_reads_def)

lemma raw_reads_bind:
  assumes "raw_reads P xs c x" and "raw_reads (Q x) ys d y"
  shows "raw_reads (\<lambda>rd. P rd \<bind> (\<lambda>(x, rd). Q x rd)) (xs @ ys) (c + d) y"
proof (rule raw_readsI)
  fix rd :: raw and rest
  assume "raw_data rd = (xs @ ys) @ rest" and c: "c + d \<le> unat (raw_size rd)"
  then have r: "raw_data rd = xs @ (ys @ rest)" and c1: "c \<le> unat (raw_size rd)" by simp_all
  from raw_readsE [OF assms(1) r c1] obtain rd1 where
    1: "P rd = Some (x, rd1)" "raw_data rd1 = ys @ rest" "unat (raw_size rd1) = unat (raw_size rd) - c" .
  have "d \<le> unat (raw_size rd1)" using c 1(3) by simp
  from raw_readsE [OF assms(2) 1(2) this] obtain rd2 where
    "Q x rd1 = Some (y, rd2)" "raw_data rd2 = rest" "unat (raw_size rd2) = unat (raw_size rd1) - d" .
  with 1 show "\<exists>rd'. (P rd \<bind> (\<lambda>(x, rd). Q x rd)) = Some (y, rd') \<and> raw_data rd' = rest
      \<and> unat (raw_size rd') = unat (raw_size rd) - (c + d)" by simp
qed

lemma raw_reads_return: "raw_reads (\<lambda>rd. Some (x, rd)) [] 0 x"
  by (simp add: raw_reads_def)

lemma raw_reads_map: "raw_reads P bs c x \<Longrightarrow> raw_reads (\<lambda>rd. P rd \<bind> (\<lambda>(x, rd). Some (f x, rd))) bs c (f x)"
  using raw_reads_bind [OF _ raw_reads_return, of P bs c x f] by simp

lemma raw_reads_varint:
  assumes dec: "decodes decode bs v"
  shows "raw_reads (MMKV_PARSE_RAW decode) bs (length bs) (Some v)"
proof (rule raw_readsI)
  fix rd :: raw and rest
  assume d: "raw_data rd = bs @ rest" and c: "length bs \<le> unat (raw_size rd)"
  have "decode (take (unat (raw_size rd)) (raw_data rd)) = KVARINT_OK (length bs) v"
    using decodesD [OF dec] c by (simp add: d)
  moreover have "unat (raw_size rd - of_nat (length bs)) = unat (raw_size rd) - length bs"
  proof -
    have "unat (raw_size rd) < 2 ^ LENGTH(64)" by (rule unsigned_less)
    then have "length bs < 2 ^ LENGTH(64)" using c by simp
    then have u: "unat (of_nat (length bs) :: size_t) = length bs" by (rule unat_of_nat_lt)
    then have "of_nat (length bs) \<le> raw_size rd" using c by (simp add: word_le_nat_alt)
    from unat_sub [OF this] u show ?thesis by simp
  qed
  ultimately show "\<exists>rd'. MMKV_PARSE_RAW decode rd = Some (Some v, rd') \<and> raw_data rd' = rest
      \<and> unat (raw_size rd') = unat (raw_size rd) - length bs"
    by (simp add: MMKV_PARSE_RAW_def d)
qed

lemma raw_reads_ints:
  assumes K: "kvarint_spec K"
  shows "raw_reads (Raw_u8 K) (kvarint_encode8 K a) (length (kvarint_encode8 K a)) (Some a)"
    and "raw_reads (Raw_u16 K) (kvarint_encode16 K x) (length (kvarint_encode16 K x)) (Some x)"
    and "raw_reads (Raw_u32 K) (kvarint_encode32 K y) (length (kvarint_encode32 K y)) (Some y)"
    and "raw_reads (Raw_u64 K) (kvarint_encode64 K z) (length (kvarint_encode64 K z)) (Some z)"
    and "raw_reads (Raw_i64 K) (kvarint_encode64s K z) (length (kvarint_encode64s K z)) (Some z)"
    and "raw_reads (Raw_u64 K) (kvarint_encode16 K x) (length (kvarint_encode16 K x)) (Some (ucast x))"
    and "raw_reads (Raw_u64 K) (kvarint_encode32 K y) (length (kvarint_encode32 K y)) (Some (ucast y))"
  unfolding Raw_u8_def Raw_u16_def Raw_u32_def Raw_u64_def Raw_i64_def
  by (intro raw_reads_varint kvarint_specD [OF K])+

lemma raw_reads_take: "raw_reads (raw_take (length bs)) bs 0 bs"
  by (simp add: raw_reads_def raw_take_def)

text \<open>Bytes whose length, a \<open>size_t\<close>, is then taken off the size.\<close>

lemma raw_reads_sized:
  assumes "unat n = length bs"
  shows "raw_reads (\<lambda>rd. raw_take (unat n) rd \<bind> (\<lambda>(x, rd). Some (x, raw_shrink n rd))) bs (length bs) bs"
proof (rule raw_readsI)
  fix rd :: raw and rest
  assume d: "raw_data rd = bs @ rest" and c: "length bs \<le> unat (raw_size rd)"
  then have "n \<le> raw_size rd" using assms by (simp add: word_le_nat_alt)
  from unat_sub [OF this] d assms
  show "\<exists>rd'. (raw_take (unat n) rd \<bind> (\<lambda>(x, rd). Some (x, raw_shrink n rd))) = Some (bs, rd') \<and> raw_data rd' = rest
      \<and> unat (raw_size rd') = unat (raw_size rd) - length bs"
    by (simp add: raw_take_def raw_shrink_def)
qed

section \<open>Strings and vectors\<close>

text \<open>What a string costs the size: its prefix.\<close>

definition prefix_cost :: "kvarint \<Rightarrow> bool \<Rightarrow> bstring \<Rightarrow> nat" where
  "prefix_cost K is_16 s = length (wire_str K is_16 s) - length s"

lemma raw_reads_str:
  assumes K: "kvarint_spec K" and fits: "fits_str is_16 s"
  shows "raw_reads (Raw_str K is_16) (wire_str K is_16 s) (prefix_cost K is_16 s) s"
proof (cases is_16)
  case True
  have "unat (of_nat (length s) :: u16) = length s" using fits True by (simp add: fits_str_def unat_of_nat_lt)
  with raw_reads_take [of s] have T: "raw_reads (raw_take (unat (of_nat (length s) :: u16))) s 0 s" by simp
  from raw_reads_bind [where Q = "\<lambda>out rd. (case out of None \<Rightarrow> None | Some out \<Rightarrow> raw_take (unat out) rd)",
      OF raw_reads_ints(2) [OF K, of "of_nat (length s)"], of s 0 s] T
  have "raw_reads (\<lambda>rd. Raw_u16 K rd \<bind> (\<lambda>(out, rd). case out of None \<Rightarrow> None | Some out \<Rightarrow> raw_take (unat out) rd))
      (wire_str K is_16 s) (prefix_cost K is_16 s) s" using True by (simp add: wire_str_def prefix_cost_def)
  moreover have "Raw_str K is_16 = (\<lambda>rd. Raw_u16 K rd \<bind> (\<lambda>(out, rd). case out of None \<Rightarrow> None | Some out \<Rightarrow> raw_take (unat out) rd))"
    using True by (auto simp: Raw_str_def fun_eq_iff split: bind_splits option.splits)
  ultimately show ?thesis by simp
next
  case False
  have "unat (of_nat (length s) :: u32) = length s" using fits False by (simp add: fits_str_def unat_of_nat_lt)
  with raw_reads_take [of s] have T: "raw_reads (raw_take (unat (of_nat (length s) :: u32))) s 0 s" by simp
  from raw_reads_bind [where Q = "\<lambda>out rd. (case out of None \<Rightarrow> None | Some out \<Rightarrow> raw_take (unat out) rd)",
      OF raw_reads_ints(3) [OF K, of "of_nat (length s)"], of s 0 s] T
  have "raw_reads (\<lambda>rd. Raw_u32 K rd \<bind> (\<lambda>(out, rd). case out of None \<Rightarrow> None | Some out \<Rightarrow> raw_take (unat out) rd))
      (wire_str K is_16 s) (prefix_cost K is_16 s) s" using False by (simp add: wire_str_def prefix_cost_def)
  moreover have "Raw_str K is_16 = (\<lambda>rd. Raw_u32 K rd \<bind> (\<lambda>(out, rd). case out of None \<Rightarrow> None | Some out \<Rightarrow> raw_take (unat out) rd))"
    using False by (auto simp: Raw_str_def fun_eq_iff split: bind_splits option.splits)
  ultimately show ?thesis by simp
qed

text \<open>A string inside a vector: its prefix is read at 64 bits, and all of it is counted.\<close>

definition raw_item :: "kvarint \<Rightarrow> u64 \<Rightarrow> raw \<Rightarrow> ((u64 \<times> bstring) \<times> raw) option" where
  "raw_item K n rd = do {
     (r, rd) \<leftarrow> Raw_u64 K rd;
     let n = kept n r;
     (bs, rd) \<leftarrow> raw_take (unat n) rd;
     Some ((n, bs), raw_shrink n rd) }"

lemma raw_reads_item:
  assumes K: "kvarint_spec K" and fits: "fits_str is_16 s"
  shows "\<exists>w. raw_reads (raw_item K n) (wire_str K is_16 s) (length (wire_str K is_16 s)) (w, s)"
proof -
  have "\<exists>w ps. unat w = length s \<and> wire_str K is_16 s = ps @ s \<and> raw_reads (Raw_u64 K) ps (length ps) (Some w)"
  proof (cases is_16)
    case True
    then show ?thesis using raw_reads_ints(6) [OF K, of "of_nat (length s)"] fits
      by (intro exI [of _ "ucast (of_nat (length s) :: u16)"] exI [of _ "kvarint_encode16 K (of_nat (length s))"])
        (simp add: wire_str_def fits_str_def unat_of_nat_lt)
  next
    case False
    then show ?thesis using raw_reads_ints(7) [OF K, of "of_nat (length s)"] fits
      by (intro exI [of _ "ucast (of_nat (length s) :: u32)"] exI [of _ "kvarint_encode32 K (of_nat (length s))"])
        (simp add: wire_str_def fits_str_def unat_of_nat_lt)
  qed
  then obtain w ps where w: "unat w = length s" "wire_str K is_16 s = ps @ s" "raw_reads (Raw_u64 K) ps (length ps) (Some w)" by blast
  have "raw_reads (\<lambda>rd. Raw_u64 K rd \<bind> (\<lambda>(r, rd). raw_take (unat (kept n r)) rd \<bind> (\<lambda>(bs, rd). Some ((kept n r, bs), raw_shrink (kept n r) rd))))
      (ps @ s) (length ps + length s) (w, s)"
  proof (rule raw_reads_bind [OF w(3)])
    show "raw_reads (\<lambda>rd. raw_take (unat (kept n (Some w))) rd \<bind> (\<lambda>(bs, rd). Some ((kept n (Some w), bs), raw_shrink (kept n (Some w)) rd)))
        s (length s) (w, s)"
      using raw_reads_map [OF raw_reads_sized [OF w(1)], of "Pair w"] by (simp add: split_def)
  qed
  then show ?thesis using w(2) unfolding raw_item_def Let_def by auto
qed

text \<open>The loops in terms of items.\<close>

lemma raw_strs_loop_item:
  "raw_strs_loop K (v # vs) n rd = raw_item K n rd \<bind> (\<lambda>((n, bs), rd).
     raw_strs_loop K vs n rd \<bind> (\<lambda>(vs, rd). Some ((v @ bs) # vs, rd)))"
  by (auto simp: raw_item_def Let_def split: bind_splits)

lemma raw_kvs_loop_item:
  "raw_kvs_loop K (kv # kvs) m n rd = raw_item K m rd \<bind> (\<lambda>((m, ks), rd). raw_item K n rd \<bind> (\<lambda>((n, vs), rd).
     raw_kvs_loop K kvs m n rd \<bind> (\<lambda>(kvs, rd). Some (kv\<lparr>key := key kv @ ks, val := val kv @ vs\<rparr> # kvs, rd))))"
  by (auto simp: raw_item_def Let_def split: bind_splits)

lemma raw_reads_strs_loop:
  assumes K: "kvarint_spec K"
  shows "list_all (fits_str False) vs \<Longrightarrow>
    raw_reads (raw_strs_loop K (replicate (length vs) []) n) (concat (map (wire_str K False) vs))
      (length (concat (map (wire_str K False) vs))) vs"
proof (induction vs arbitrary: n)
  case Nil
  then show ?case using raw_reads_return [of "[]"] by simp
next
  case (Cons v vs)
  from raw_reads_item [OF K, of False v n] Cons.prems obtain w where
    w: "raw_reads (raw_item K n) (wire_str K False v) (length (wire_str K False v)) (w, v)" by auto
  have "raw_reads (\<lambda>rd. raw_strs_loop K (replicate (length vs) []) w rd \<bind> (\<lambda>(vs, rd). Some (v # vs, rd)))
      (concat (map (wire_str K False) vs)) (length (concat (map (wire_str K False) vs))) (v # vs)"
    using Cons by (intro raw_reads_map) simp
  from raw_reads_bind [where Q = "\<lambda>(n, bs) rd. raw_strs_loop K (replicate (length vs) []) n rd \<bind> (\<lambda>(vs, rd). Some (bs # vs, rd))",
      OF w, of _ _ "v # vs"] this
  show ?case by (simp add: raw_strs_loop_item [abs_def] split_def del: raw_strs_loop.simps)
qed

lemma raw_reads_kvs_loop:
  assumes K: "kvarint_spec K"
  shows "list_all (\<lambda>kv. fits_str True (key kv) \<and> fits_str False (val kv)) kvs \<Longrightarrow>
    raw_reads (raw_kvs_loop K (replicate (length kvs) \<lparr>key = [], val = []\<rparr>) m n) (concat (map (wire_kv K) kvs))
      (length (concat (map (wire_kv K) kvs))) kvs"
proof (induction kvs arbitrary: m n)
  case Nil
  then show ?case using raw_reads_return [of "[]"] by simp
next
  case (Cons kv kvs)
  let ?f = "replicate (length kvs) \<lparr>key = [], val = []\<rparr>" and ?tail = "concat (map (wire_kv K) kvs)"
  from raw_reads_item [OF K, of True "key kv" m] Cons.prems obtain w where
    w: "raw_reads (raw_item K m) (wire_str K True (key kv)) (length (wire_str K True (key kv))) (w, key kv)" by auto
  from raw_reads_item [OF K, of False "val kv" n] Cons.prems obtain u where
    u: "raw_reads (raw_item K n) (wire_str K False (val kv)) (length (wire_str K False (val kv))) (u, val kv)" by auto
  have kv: "\<lparr>key = key kv, val = val kv\<rparr> = kv" by (cases kv) simp
  have "raw_reads (\<lambda>rd. raw_kvs_loop K ?f w u rd \<bind> (\<lambda>(kvs, rd). Some (\<lparr>key = key kv, val = val kv\<rparr> # kvs, rd)))
      ?tail (length ?tail) (kv # kvs)"
    unfolding kv using Cons by (intro raw_reads_map) simp
  from raw_reads_bind [where Q = "\<lambda>(n, vs) rd. raw_kvs_loop K ?f w n rd \<bind> (\<lambda>(kvs, rd). Some (\<lparr>key = key kv, val = vs\<rparr> # kvs, rd))",
      OF u, of _ _ "kv # kvs"] this
  have 2: "raw_reads (\<lambda>rd. raw_item K n rd \<bind> (\<lambda>((n, vs), rd).
        raw_kvs_loop K ?f w n rd \<bind> (\<lambda>(kvs, rd). Some (\<lparr>key = key kv, val = vs\<rparr> # kvs, rd))))
      (wire_str K False (val kv) @ ?tail) (length (wire_str K False (val kv)) + length ?tail) (kv # kvs)"
    by (simp add: split_def)
  from raw_reads_bind [where Q = "\<lambda>(m, ks) rd. raw_item K n rd \<bind> (\<lambda>((n, vs), rd).
        raw_kvs_loop K ?f m n rd \<bind> (\<lambda>(kvs, rd). Some (\<lparr>key = ks, val = vs\<rparr> # kvs, rd)))",
      OF w, of _ _ "kv # kvs"] 2
  show ?case by (simp add: raw_kvs_loop_item [abs_def] split_def wire_kv_def [of K kv] add.assoc del: raw_kvs_loop.simps)
qed

lemma raw_reads_counted:
  fixes xs :: "'a list"
  assumes K: "kvarint_spec K" and fits: "fits_vec xs" and Q: "raw_reads (Q (length xs)) bs (length bs) x"
  shows "raw_reads (\<lambda>rd. Raw_u32 K rd \<bind> (\<lambda>(r, rd). Q (unat (kept (- 1) r)) rd))
    (kvarint_encode32 K (of_nat (length xs)) @ bs) (length (kvarint_encode32 K (of_nat (length xs)) @ bs)) x"
proof -
  have "unat (of_nat (length xs) :: u32) = length xs" using fits by (simp add: fits_vec_def unat_of_nat_lt)
  then have "raw_reads (\<lambda>rd. Q (unat (kept (- 1) (Some (of_nat (length xs) :: u32)))) rd) bs (length bs) x" using Q by simp
  from raw_reads_bind [where Q = "\<lambda>r. Q (unat (kept (- 1) r))", OF raw_reads_ints(3) [OF K, of "of_nat (length xs)"], OF this]
  show ?thesis by simp
qed

lemma raw_reads_strs:
  assumes K: "kvarint_spec K" and fits: "fits_strs vs"
  shows "raw_reads (Raw_strs K []) (wire_strs K vs) (length (wire_strs K vs)) vs"
proof -
  have "raw_reads (raw_strs_loop K (resize (length vs) [] []) 0) (concat (map (wire_str K False) vs))
      (length (concat (map (wire_str K False) vs))) vs"
    using raw_reads_strs_loop [OF K, of vs 0] fits by (simp add: fits_strs_def)
  from raw_reads_counted [where Q = "\<lambda>k. raw_strs_loop K (resize k [] []) 0", OF K _ this] fits
  show ?thesis by (simp add: Raw_strs_def [abs_def] wire_strs_def fits_strs_def Let_def)
qed

lemma raw_reads_kvs:
  assumes K: "kvarint_spec K" and fits: "fits_kvs kvs"
  shows "raw_reads (Raw_kvs K []) (wire_kvs K kvs) (length (wire_kvs K kvs)) kvs"
proof -
  have "raw_reads (raw_kvs_loop K (resize (length kvs) \<lparr>key = [], val = []\<rparr> []) 0 0) (concat (map (wire_kv K) kvs))
      (length (concat (map (wire_kv K) kvs))) kvs"
    using raw_reads_kvs_loop [OF K, of kvs 0 0] fits by (simp add: fits_kvs_def)
  from raw_reads_counted [where Q = "\<lambda>k. raw_kvs_loop K (resize k \<lparr>key = [], val = []\<rparr> []) 0 0", OF K _ this] fits
  show ?thesis by (simp add: Raw_kvs_def [abs_def] wire_kvs_def fits_kvs_def Let_def)
qed

end
