(* ===== verification/Mmbp_Raw_Props.thy ===== *)
theory Mmbp_Raw_Props
  imports Mmbp_Raw_Wire
begin

text \<open>
  The raw parser of a request: it reads what the serializer wrote, except for weights; it does so
  even when the claimed size is smaller than the message, because the bytes of the key and of
  the value are not counted. At the end the bit-array template of \<open>mmbp.h\<close>.
\<close>

section \<open>A request on the wire\<close>

text \<open>What the parser takes off the size.\<close>

definition rq_raw_payload_cost :: "kvarint \<Rightarrow> 'b buffer_ops \<Rightarrow> MmbpRequest \<Rightarrow> nat" where
  "rq_raw_payload_cost K B r =
     (if rq_HasValue r then prefix_cost K False (rq_value r) else length (rq_wire_payload K B r))"

definition rq_raw_cost :: "kvarint \<Rightarrow> 'b buffer_ops \<Rightarrow> MmbpRequest \<Rightarrow> nat" where
  "rq_raw_cost K B r =
     length (kvarint_encode16 K (rq_command r)) + length (kvarint_encode8 K (rq_has_bits r))
     + (if rq_HasKey r then prefix_cost K True (rq_key r) else 0)
     + rq_raw_payload_cost K B r
     + (if rq_HasExpireTime r then length (kvarint_encode64 K (the (rq_expire_time r))) else 0)"

definition rq_uncounted :: "MmbpRequest \<Rightarrow> nat" where
  "rq_uncounted r = (if rq_HasKey r then length (rq_key r) else 0) + (if rq_HasValue r then length (rq_value r) else 0)"

definition rq_sends_weights :: "MmbpRequest \<Rightarrow> bool" where
  "rq_sends_weights r \<longleftrightarrow> \<not> rq_HasValue r \<and> \<not> rq_HasValues r \<and> \<not> rq_HasKvs r \<and> \<not> rq_HasCount r
     \<and> \<not> rq_HasRange r \<and> rq_HasVmembers r"

lemma rq_raw_cost_length: "length (rq_wire K B r) = rq_raw_cost K B r + rq_uncounted r"
  by (simp add: rq_wire_def rq_raw_cost_def rq_raw_payload_cost_def rq_uncounted_def prefix_cost_def wire_str_def rq_wire_payload_def)

lemma raw_reads_range:
  assumes K: "kvarint_spec K"
  shows "raw_reads (rq_RawRange K r0) (kvarint_encode64s K l @ kvarint_encode64s K r)
    (length (kvarint_encode64s K l) + length (kvarint_encode64s K r)) (r0\<lparr>rq_union := Range l (Some r)\<rparr>)"
proof -
  let ?old = "case rq_union r0 of Range _ right \<Rightarrow> right | _ \<Rightarrow> None"
  have "raw_reads (\<lambda>rd. Raw_i64 K rd \<bind> (\<lambda>(y, rd). case y of
          None \<Rightarrow> Some (r0\<lparr>rq_union := Range l ?old\<rparr>, rd)
        | Some right \<Rightarrow> Some (r0\<lparr>rq_union := Range l (Some right)\<rparr>, rd)))
      (kvarint_encode64s K r @ []) (length (kvarint_encode64s K r) + 0) (r0\<lparr>rq_union := Range l (Some r)\<rparr>)"
    by (rule raw_reads_bind [OF raw_reads_ints(5) [OF K]]) (simp add: raw_reads_return)
  from raw_reads_bind [where Q = "\<lambda>x rd. case x of
      None \<Rightarrow> None
    | Some l \<Rightarrow> Raw_i64 K rd \<bind> (\<lambda>(y, rd). case y of
          None \<Rightarrow> Some (r0\<lparr>rq_union := Range l ?old\<rparr>, rd)
        | Some right \<Rightarrow> Some (r0\<lparr>rq_union := Range l (Some right)\<rparr>, rd))",
      OF raw_reads_ints(5) [OF K, of l], of "kvarint_encode64s K r" "length (kvarint_encode64s K r)" "r0\<lparr>rq_union := Range l (Some r)\<rparr>"] this
  have R: "raw_reads (\<lambda>rd. Raw_i64 K rd \<bind> (\<lambda>(x, rd). case x of
      None \<Rightarrow> None
    | Some l \<Rightarrow> Raw_i64 K rd \<bind> (\<lambda>(y, rd). case y of
          None \<Rightarrow> Some (r0\<lparr>rq_union := Range l ?old\<rparr>, rd)
        | Some right \<Rightarrow> Some (r0\<lparr>rq_union := Range l (Some right)\<rparr>, rd))))
      (kvarint_encode64s K l @ kvarint_encode64s K r)
      (length (kvarint_encode64s K l) + length (kvarint_encode64s K r)) (r0\<lparr>rq_union := Range l (Some r)\<rparr>)" by simp
  show ?thesis
  proof (rule raw_readsI)
    fix rd :: raw and rest
    assume "raw_data rd = (kvarint_encode64s K l @ kvarint_encode64s K r) @ rest"
      "length (kvarint_encode64s K l) + length (kvarint_encode64s K r) \<le> unat (raw_size rd)"
    from raw_readsE [OF R this] raw_readsE [OF raw_reads_ints(5) [OF K, of l], of rd "kvarint_encode64s K r @ rest"] this
    show "\<exists>rd'. rq_RawRange K r0 rd = Some (r0\<lparr>rq_union := Range l (Some r)\<rparr>, rd') \<and> raw_data rd' = rest
      \<and> unat (raw_size rd') = unat (raw_size rd) - (length (kvarint_encode64s K l) + length (kvarint_encode64s K r))"
      by (fastforce simp: rq_RawRange_def Let_def split: bind_splits option.splits)
  qed
qed

lemma raw_reads_payload:
  assumes K: "kvarint_spec K" and wf: "rq_wf r" and nw: "\<not> rq_sends_weights r"
    and bits: "rq_has_bits r0 = rq_has_bits r" and fresh: "rq_values r0 = []" "rq_kvs r0 = []"
  shows "raw_reads (rq_RawPayload K r0) (rq_wire_payload K B r) (rq_raw_payload_cost K B r) (rq_take_payload r r0)"
proof -
  have has: "rq_HasValue r0 = rq_HasValue r" "rq_HasValues r0 = rq_HasValues r"
    "rq_HasKvs r0 = rq_HasKvs r" "rq_HasCount r0 = rq_HasCount r" "rq_HasRange r0 = rq_HasRange r"
    "rq_HasVmembers r0 = rq_HasVmembers r"
    by (simp_all add: rq_has_defs bits)
  note defs = rq_RawPayload_def [abs_def] rq_take_payload_def rq_wf_def rq_wire_payload_def rq_raw_payload_cost_def
    rq_sends_weights_def has fresh
  consider "rq_HasValue r" | "\<not> rq_HasValue r" "rq_HasValues r"
    | "\<not> rq_HasValue r" "\<not> rq_HasValues r" "rq_HasKvs r"
    | (count) "\<not> rq_HasValue r" "\<not> rq_HasValues r" "\<not> rq_HasKvs r" "rq_HasCount r"
    | (range) "\<not> rq_HasValue r" "\<not> rq_HasValues r" "\<not> rq_HasKvs r" "\<not> rq_HasCount r" "rq_HasRange r"
    | "\<not> rq_HasValue r" "\<not> rq_HasValues r" "\<not> rq_HasKvs r" "\<not> rq_HasCount r" "\<not> rq_HasRange r"
    by blast
  then show ?thesis
  proof cases
    case 1
    with wf have "fits_str False (rq_value r)" by (simp add: rq_wf_def)
    from raw_reads_map [OF raw_reads_str [OF K this], of "\<lambda>v. r0\<lparr>rq_value := v\<rparr>"] 1 show ?thesis by (simp add: defs)
  next
    case 2
    with wf have "fits_strs (rq_values r)" by (simp add: rq_wf_def)
    from raw_reads_map [OF raw_reads_strs [OF K this], of "\<lambda>v. r0\<lparr>rq_values := v\<rparr>"] 2 show ?thesis by (simp add: defs)
  next
    case 3
    with wf have "fits_kvs (rq_kvs r)" by (simp add: rq_wf_def)
    from raw_reads_map [OF raw_reads_kvs [OF K this], of "\<lambda>v. r0\<lparr>rq_kvs := v\<rparr>"] 3 show ?thesis by (simp add: defs)
  next
    case count
    with wf obtain c where c: "rq_union r = Count c" by (auto simp: rq_wf_def)
    from raw_reads_map [OF raw_reads_ints(3) [OF K, of c],
        of "\<lambda>c. case c of Some c \<Rightarrow> r0\<lparr>rq_union := Count c\<rparr> | None \<Rightarrow> r0"] c count show ?thesis by (simp add: defs)
  next
    case range
    with wf obtain left right where u: "rq_union r = Range left (Some right)" by (auto simp: rq_wf_def)
    from raw_reads_range [OF K, of r0 left right] u range show ?thesis by (simp add: defs)
  next
    case 6
    then have "\<not> rq_HasVmembers r" using nw by (simp add: rq_sends_weights_def)
    with 6 raw_reads_return [of r0] show ?thesis by (simp add: defs)
  qed
qed

lemma rq_ParseFrom_raw_wire:
  assumes K: "kvarint_spec K" and wf: "rq_wf r" and nw: "\<not> rq_sends_weights r"
    and len: "rq_raw_cost K B r \<le> unat len"
  shows "rq_ParseFrom_raw K MmbpRequest_init (rq_wire K B r @ rest) len = Some (rq_carried r, rest)"
proof -
  let ?r1 = "MmbpRequest_init\<lparr>rq_command := rq_command r, rq_has_bits := rq_has_bits r\<rparr>"
  let ?key = "if rq_HasKey r then wire_str K True (rq_key r) else []"
  let ?exp = "if rq_HasExpireTime r then kvarint_encode64 K (the (rq_expire_time r)) else []"
  let ?r2 = "?r1\<lparr>rq_key := (if rq_HasKey r then rq_key r else [])\<rparr>"
  let ?kc = "if rq_HasKey r then prefix_cost K True (rq_key r) else 0"
  let ?rd = "\<lparr>raw_data = rq_wire K B r @ rest, raw_size = len\<rparr>"
  have d: "raw_data ?rd = kvarint_encode16 K (rq_command r) @ (kvarint_encode8 K (rq_has_bits r)
      @ ?key @ rq_wire_payload K B r @ ?exp @ rest)"
    by (simp add: rq_wire_def)
  have c: "length (kvarint_encode16 K (rq_command r)) + length (kvarint_encode8 K (rq_has_bits r)) + ?kc
      + rq_raw_payload_cost K B r + length ?exp \<le> unat (raw_size ?rd)" using len by (auto simp: rq_raw_cost_def split: if_splits)
  have "length (kvarint_encode16 K (rq_command r)) \<le> unat (raw_size ?rd)" using c by simp
  from raw_readsE [OF raw_reads_ints(2) [OF K] d this] obtain rd1 where
    1: "Raw_u16 K ?rd = Some (Some (rq_command r), rd1)"
      "raw_data rd1 = kvarint_encode8 K (rq_has_bits r) @ (?key @ rq_wire_payload K B r @ ?exp @ rest)"
      "unat (raw_size rd1) = unat (raw_size ?rd) - length (kvarint_encode16 K (rq_command r))" .
  have "length (kvarint_encode8 K (rq_has_bits r)) \<le> unat (raw_size rd1)" using c 1(3) by simp
  from raw_readsE [OF raw_reads_ints(1) [OF K] 1(2) this] obtain rd2 where
    2: "Raw_u8 K rd1 = Some (Some (rq_has_bits r), rd2)" "raw_data rd2 = ?key @ (rq_wire_payload K B r @ ?exp @ rest)"
      "unat (raw_size rd2) = unat (raw_size rd1) - length (kvarint_encode8 K (rq_has_bits r))" .
  have key: "raw_reads (\<lambda>rd. if rq_HasKey ?r1 then do { (k, rd) \<leftarrow> Raw_str K True rd; Some (?r1\<lparr>rq_key := k\<rparr>, rd) }
      else Some (?r1, rd)) ?key ?kc ?r2"
  proof (cases "rq_HasKey r")
    case True
    with wf have "fits_str True (rq_key r)" by (simp add: rq_wf_def)
    from raw_reads_map [OF raw_reads_str [OF K this], of "\<lambda>k. ?r1\<lparr>rq_key := k\<rparr>"] True show ?thesis by (simp add: rq_has_defs)
  next
    case False
    have "?r2 = ?r1" using False by (simp add: MmbpRequest_init_def)
    with False raw_reads_return [of ?r1] show ?thesis by (simp add: rq_has_defs)
  qed
  have "?kc \<le> unat (raw_size rd2)" using c 1(3) 2(3) by simp
  from raw_readsE [OF key 2(2) this] obtain rd3 where
    3: "(if rq_HasKey ?r1 then do { (k, rd) \<leftarrow> Raw_str K True rd2; Some (?r1\<lparr>rq_key := k\<rparr>, rd) } else Some (?r1, rd2)) = Some (?r2, rd3)"
      "raw_data rd3 = rq_wire_payload K B r @ (?exp @ rest)" "unat (raw_size rd3) = unat (raw_size rd2) - ?kc" .
  have P: "raw_reads (rq_RawPayload K ?r2) (rq_wire_payload K B r) (rq_raw_payload_cost K B r) (rq_take_payload r ?r2)"
    by (rule raw_reads_payload [OF K wf nw]) (simp_all add: MmbpRequest_init_def)
  have "rq_raw_payload_cost K B r \<le> unat (raw_size rd3)" using c 1(3) 2(3) 3(3) by simp
  from raw_readsE [OF P 3(2) this] obtain rd4 where
    4: "rq_RawPayload K ?r2 rd3 = Some (rq_take_payload r ?r2, rd4)" "raw_data rd4 = ?exp @ rest"
      "unat (raw_size rd4) = unat (raw_size rd3) - rq_raw_payload_cost K B r" .
  let ?r3 = "rq_take_payload r ?r2"
  have has: "rq_HasExpireTime ?r3 = rq_HasExpireTime r" by (simp add: rq_has_defs rq_take_payload_def)
  have exp: "raw_reads (\<lambda>rd. if rq_HasExpireTime ?r3 then do {
          (t, rd) \<leftarrow> Raw_u64 K rd;
          Some (case t of Some t \<Rightarrow> ?r3\<lparr>rq_expire_time := Some t\<rparr> | None \<Rightarrow> ?r3, rd) }
        else Some (?r3, rd)) ?exp (length ?exp) (rq_carried r)"
  proof (cases "rq_HasExpireTime r")
    case True
    with wf obtain t where t: "rq_expire_time r = Some t" by (auto simp: rq_wf_def)
    from raw_reads_map [OF raw_reads_ints(4) [OF K, of t], of "\<lambda>t. case t of Some t \<Rightarrow> ?r3\<lparr>rq_expire_time := Some t\<rparr> | None \<Rightarrow> ?r3"]
    show ?thesis using True has t by (simp add: rq_carried_def)
  next
    case False
    have "rq_carried r = ?r3" using False by (simp add: rq_carried_def rq_take_payload_def MmbpRequest_init_def)
    then show ?thesis using False has raw_reads_return [of ?r3] by simp
  qed
  have "length ?exp \<le> unat (raw_size rd4)" using c 1(3) 2(3) 3(3) 4(3) by simp
  from raw_readsE [OF exp 4(2) this] obtain rd5 where
    5: "(if rq_HasExpireTime ?r3 then do {
          (t, rd) \<leftarrow> Raw_u64 K rd4;
          Some (case t of Some t \<Rightarrow> ?r3\<lparr>rq_expire_time := Some t\<rparr> | None \<Rightarrow> ?r3, rd) }
        else Some (?r3, rd4)) = Some (rq_carried r, rd5)" "raw_data rd5 = rest" by blast
  show ?thesis unfolding rq_ParseFrom_raw_def by (simp only: 1(1) 2(1) 3(1) 4(1) 5 Let_def bind.bind_lunit prod.case option.case)
qed

section \<open>Properties\<close>

definition demo_raw_request :: MmbpRequest where
  "demo_raw_request = rq_SetExpireTime (rq_SetValue (rq_SetKey
     (MmbpRequest_init\<lparr>rq_command := 3, rq_key := [1, 2], rq_value := [7], rq_expire_time := Some 300\<rparr>)))"

lemma demo_raw_request_wf: "rq_wf demo_raw_request" "\<not> rq_sends_weights demo_raw_request" "rq_uncounted demo_raw_request = 3"
  by (simp_all add: rq_wf_def demo_raw_request_def rq_set_defs rq_set_bit_def rq_has_defs MmbpRequest_init_def
      SetBit_def TestBit_def fits_str_def rq_sends_weights_def rq_uncounted_def)

text \<open>
  C11: a well-formed request that does not send weights, serialized and then parsed from the raw
  bytes with their size, gives the request that the parser over a \<open>Buffer\<close> gives, and the data
  pointer is left behind it, whatever follows.
\<close>
theorem raw_request_agrees:
  assumes B: "kanon_buffer B" and K: "kvarint_spec K" and wf: "rq_wf r" and nw: "\<not> rq_sends_weights r"
  shows "\<exists>out bytes. rq_SerializeTo K B r c = Some out \<and> readable B out = readable B c @ bytes
    \<and> (\<forall>b rest len. readable B b = bytes @ rest \<and> length bytes \<le> unat len \<longrightarrow>
         (\<exists>r' b'. rq_ParseFrom K B MmbpRequest_init b = Some (True, r', b')
            \<and> rq_ParseFrom_raw K MmbpRequest_init (bytes @ rest) len = Some (r', readable B b')))"
proof -
  obtain out where out: "rq_SerializeTo K B r c = Some out" "readable B out = readable B c @ rq_wire K B r"
    using rq_SerializeTo_wire [OF B wf, of K c] by blast
  have "\<exists>r' b'. rq_ParseFrom K B MmbpRequest_init b = Some (True, r', b')
      \<and> rq_ParseFrom_raw K MmbpRequest_init (rq_wire K B r @ rest) len = Some (r', readable B b')"
    if "readable B b = rq_wire K B r @ rest" "length (rq_wire K B r) \<le> unat len" for b rest len
  proof -
    have "rq_raw_cost K B r \<le> unat len" using that(2) by (simp add: rq_raw_cost_length)
    from rq_ParseFrom_raw_wire [OF K wf nw this, of rest] rq_ParseFrom_wire [OF B K wf that(1)] show ?thesis by auto
  qed
  with out show ?thesis by blast
qed

theorem raw_request_agrees_witness:
  "\<exists>out bytes. rq_SerializeTo leb_kvarint list_buffer demo_raw_request [] = Some out
    \<and> readable list_buffer out = readable list_buffer [] @ bytes
    \<and> (\<forall>b rest len. readable list_buffer b = bytes @ rest \<and> length bytes \<le> unat len \<longrightarrow>
         (\<exists>r' b'. rq_ParseFrom leb_kvarint list_buffer MmbpRequest_init b = Some (True, r', b')
            \<and> rq_ParseFrom_raw leb_kvarint MmbpRequest_init (bytes @ rest) len = Some (r', readable list_buffer b')))"
  by (rule raw_request_agrees [OF kanon_list_buffer leb_kvarint_spec demo_raw_request_wf(1,2)])

text \<open>
  C27: the raw parser does not keep to the size it is given. The bytes of the key and of the value
  are not taken off it, so a region that is cut short by that many bytes is parsed as if it were
  complete, from the memory behind it.
\<close>
theorem raw_request_reads_past_size:
  assumes B: "kanon_buffer B" and K: "kvarint_spec K" and wf: "rq_wf r" and nw: "\<not> rq_sends_weights r"
    and len: "unat len + rq_uncounted r = length (rq_wire K B r)"
  shows "rq_ParseFrom_raw K MmbpRequest_init (rq_wire K B r @ rest) len = Some (rq_carried r, rest)
    \<and> rq_ParseFrom2 K MmbpRequest_init (rq_wire K B r @ rest) len = Some (rq_carried r, rest, len)"
proof -
  have "rq_raw_cost K B r \<le> unat len" using len by (simp add: rq_raw_cost_length)
  from rq_ParseFrom_raw_wire [OF K wf nw this]
  have "rq_ParseFrom_raw K MmbpRequest_init (rq_wire K B r @ rest) len = Some (rq_carried r, rest)" .
  then show ?thesis by (simp add: rq_ParseFrom2_def)
qed

theorem raw_request_reads_past_size_witness:
  "length (rq_wire leb_kvarint list_buffer demo_raw_request) = 9
    \<and> rq_ParseFrom_raw leb_kvarint MmbpRequest_init (rq_wire leb_kvarint list_buffer demo_raw_request @ [9]) 6
      = Some (rq_carried demo_raw_request, [9])
    \<and> rq_ParseFrom2 leb_kvarint MmbpRequest_init (rq_wire leb_kvarint list_buffer demo_raw_request @ [9]) 6
      = Some (rq_carried demo_raw_request, [9], 6)"
proof -
  have l: "length (rq_wire leb_kvarint list_buffer demo_raw_request) = 9"
    by (simp add: rq_wire_def rq_wire_payload_def demo_raw_request_def rq_set_defs rq_set_bit_def rq_has_defs MmbpRequest_init_def
      SetBit_def TestBit_def wire_str_def leb_kvarint_def leb_encode_def leb128.simps)
  then have "unat (6 :: size_t) + rq_uncounted demo_raw_request = length (rq_wire leb_kvarint list_buffer demo_raw_request)"
    by (simp add: demo_raw_request_wf(3))
  from raw_request_reads_past_size [OF kanon_list_buffer leb_kvarint_spec demo_raw_request_wf(1,2) this, of "[9]"] l
  show ?thesis by simp
qed

text \<open>
  A vector of weights is not read back. The serializer writes a weight as 8 bytes in network
  order, the raw parser reads a varint: the weight with the bits 1 and the member of one byte come
  back as the weight 0 and an empty member, and the rest of the bytes is left.
\<close>
theorem raw_weights_misread:
  "\<exists>out. SerializeComponent_weights leb_kvarint list_buffer [\<lparr>key = Double 1, val = [65]\<rparr>] [] = out
    \<and> ParseComponent_weights leb_kvarint list_buffer [] out = Some ([\<lparr>key = Double 1, val = [65]\<rparr>], [])
    \<and> Raw_weights leb_kvarint [] \<lparr>raw_data = out, raw_size = of_nat (length out)\<rparr>
      = Some ([\<lparr>key = Double 0, val = []\<rparr>], \<lparr>raw_data = [0, 0, 0, 0, 0, 1, 1, 65], raw_size = 8\<rparr>)"
proof -
  have e: "kvarint_encode32 leb_kvarint = leb_encode" "kvarint_decode32 leb_kvarint = leb_decode 5"
    "kvarint_decode64 leb_kvarint = leb_decode 10" by (simp_all add: leb_kvarint_def)
  have out: "SerializeComponent_weights leb_kvarint list_buffer [\<lparr>key = Double 1, val = [65]\<rparr>] []
      = [1, 0, 0, 0, 0, 0, 0, 0, 1, 1, 65]"
    by (simp add: SerializeComponent_weights_def SerializeComponent_u32_def Append64_def e leb_encode_def leb128.simps
        list_buffer_def be64_def be32_def)
  have d: "leb_decode 5 [1, 0, 0, 0, 0, 0, 0, 0, 1, 1, 65] = KVARINT_OK 1 (1 :: u32)"
    "leb_decode 10 [0, 0, 0, 0, 0, 0, 0, 1, 1, 65] = KVARINT_OK 1 (0 :: u64)"
    "leb_decode 10 [0, 0, 0, 0, 0, 0, 1, 1, 65] = KVARINT_OK 1 (0 :: u64)"
    "leb_decode 10 [1, 65] = KVARINT_OK 1 (1 :: u64)"
    by (simp_all add: leb_decode_def numeral_eq_Suc)
  have r64: "Read64 list_buffer (0 # 0 # 0 # 0 # 0 # 0 # 0 # 1 # bs) = Some (1, bs)" for bs
    by (simp add: Read64_def peek_bytes_def list_buffer_def unbe64_def unbe32_def numeral_eq_Suc)
  have p: "ParseComponent_weights leb_kvarint list_buffer [] [1, 0, 0, 0, 0, 0, 0, 0, 1, 1, 65]
      = Some ([\<lparr>key = Double 1, val = [65]\<rparr>], [])"
    by (simp add: ParseComponent_weights_def ParseComponent_u32_def ParseComponent_u64_def MMKV_PARSE_UNSIGNED_def e d r64
        resize_def peek_bytes_def int2double_def)
  have q: "Raw_weights leb_kvarint [] \<lparr>raw_data = [1, 0, 0, 0, 0, 0, 0, 0, 1, 1, 65], raw_size = 11\<rparr>
      = Some ([\<lparr>key = Double 0, val = []\<rparr>], \<lparr>raw_data = [0, 0, 0, 0, 0, 1, 1, 65], raw_size = 8\<rparr>)"
    by (simp add: Raw_weights_def Raw_u32_def Raw_u64_def MMKV_PARSE_RAW_def raw_take_def raw_shrink_def e d resize_def int2double_def)
  show ?thesis using p q by (simp add: out)
qed

section \<open>The bit-array template\<close>

text \<open>
  \<open>MMKV_MIN\<close> and \<open>MMKV_MAX\<close> (\<open>util/macro.h\<close>) return \<open>bool\<close>, so what they return is 0 or 1.
\<close>

definition MMKV_MIN :: "'a::{linorder, zero} \<Rightarrow> 'a \<Rightarrow> bool" where
  "MMKV_MIN x y \<longleftrightarrow> (if x < y then x else y) \<noteq> 0"

definition MMKV_MAX :: "'a::{linorder, zero} \<Rightarrow> 'a \<Rightarrow> bool" where
  "MMKV_MAX x y \<longleftrightarrow> (if x < y then y else x) \<noteq> 0"

text \<open>\<open>MmbpMessageBits\<close>: the length is written with 16 bits and read with 32; \<open>n\<close> is the length of the array.\<close>

definition SerializeBits :: "'b buffer_ops \<Rightarrow> byte list \<Rightarrow> 'b \<Rightarrow> 'b" where
  "SerializeBits C bits buffer = Append C bits (Append C (net16 C (of_nat (length bits))) buffer)"

definition ParseBits :: "'b buffer_ops \<Rightarrow> byte list \<Rightarrow> 'b \<Rightarrow> (byte list \<times> 'b) option" where
  "ParseBits B bits buffer = do {
     bs \<leftarrow> peek_bytes B 4 buffer;
     let buffer = AdvanceRead B 4 buffer;
     let bits_n = (if MMKV_MIN (of_nat (length bits)) (host32 B bs) then 1 else 0);
     new \<leftarrow> peek_bytes B bits_n buffer;
     Some (new @ drop bits_n bits, AdvanceRead B bits_n buffer) }"

text \<open>At most the first byte of the array is ever read back, and one byte alone is not.\<close>

lemma ParseBits_first_byte:
  "ParseBits B bits buffer = Some (bits', buffer') \<Longrightarrow> bits \<noteq> [] \<Longrightarrow> tl bits' = tl bits"
  by (cases bits; cases "readable B (AdvanceRead B 4 buffer)") (auto simp: ParseBits_def Let_def peek_bytes_def Option.bind_eq_Some_conv split: if_splits)

lemma SerializeBits_one:
  "kanon_buffer B \<Longrightarrow> readable B c = [] \<Longrightarrow> ParseBits B old (SerializeBits B [b] c) = None"
  by (simp add: ParseBits_def SerializeBits_def peek_bytes_def wire_simps)

end
