(* ===== verification/Completion_Queue.thy ===== *)
theory Completion_Queue
  imports Prelude
begin

text \<open>
  The completion queues of \<open>thread/\<close>: \<open>CompletionQueueNext\<close> as a step relation of pushing threads
  and of threads inside \<open>Next\<close>, with the waits of the condition variable, and \<open>CompletionQueuePluck\<close>,
  whose \<open>Pluck\<close> has a loop without an exit. Nothing in the repository uses them. The mutex makes
  each step atomic; a wait may end without a notification, as the condition variables of the
  operating system allow.
\<close>

section \<open>Tasks\<close>

datatype CompletionStatus = CS_OK | CS_FAILURE

record CompletionTask =
  task_tag :: ptr
  task_status :: CompletionStatus

datatype CompletionType = CQ_NEXT | CQ_PLUCK

section \<open>CompletionQueueNext\<close>

text \<open>
  \<open>cq_waiting\<close> are the threads in \<open>cq_cond_.Wait()\<close>, \<open>cq_woken\<close> the ones that have been woken and have
  not locked the mutex again; \<open>cq_delivered\<close> and \<open>cq_pushed\<close> are the history.
\<close>

record cq_next =
  cq_queue :: "CompletionTask list"
  cq_waiting :: "nat set"
  cq_woken :: "nat set"
  cq_delivered :: "(nat \<times> CompletionTask) list"
  cq_pushed :: "CompletionTask list"

definition cq_init :: cq_next where
  "cq_init = \<lparr>cq_queue = [], cq_waiting = {}, cq_woken = {}, cq_delivered = [], cq_pushed = []\<rparr>"

text \<open>\<open>Push\<close>: one waiting thread is woken, when there is one.\<close>

definition cq_push :: "CompletionTask \<Rightarrow> cq_next \<Rightarrow> cq_next" where
  "cq_push t s = s\<lparr>cq_queue := cq_queue s @ [t], cq_pushed := cq_pushed s @ [t]\<rparr>"

definition cq_wake :: "nat \<Rightarrow> cq_next \<Rightarrow> cq_next" where
  "cq_wake i s = s\<lparr>cq_waiting := cq_waiting s - {i}, cq_woken := insert i (cq_woken s)\<rparr>"

text \<open>\<open>Next\<close> with the mutex: the test of the loop, then the wait or the rest of the function.\<close>

definition cq_locked :: "nat \<Rightarrow> cq_next \<Rightarrow> cq_next" where
  "cq_locked i s =
     (case cq_queue s of
        [] \<Rightarrow> s\<lparr>cq_waiting := insert i (cq_waiting s)\<rparr>
      | t # q \<Rightarrow> s\<lparr>cq_queue := q, cq_delivered := cq_delivered s @ [(i, t)]\<rparr>)"

text \<open>What \<open>Next\<close> writes to its two out parameters; null ones are skipped.\<close>

definition next_results :: "bool \<Rightarrow> bool \<Rightarrow> CompletionTask \<Rightarrow> ptr option \<times> bool option" where
  "next_results want_tag want_ok t =
     (if want_tag then Some (task_tag t) else None, if want_ok then Some (task_status t = CS_OK) else None)"

inductive cq_step :: "cq_next \<Rightarrow> cq_next \<Rightarrow> bool" where
  push_alone: "cq_waiting s = {} \<Longrightarrow> cq_step s (cq_push t s)"
| push_notify: "i \<in> cq_waiting s \<Longrightarrow> cq_step s (cq_wake i (cq_push t s))"
| next_enter: "i \<notin> cq_waiting s \<Longrightarrow> i \<notin> cq_woken s \<Longrightarrow> cq_step s (cq_locked i s)"
| next_again: "i \<in> cq_woken s \<Longrightarrow> cq_step s (cq_locked i (s\<lparr>cq_woken := cq_woken s - {i}\<rparr>))"
| spurious: "i \<in> cq_waiting s \<Longrightarrow> cq_step s (cq_wake i s)"

inductive cq_reachable :: "cq_next \<Rightarrow> bool" where
  cq_start: "cq_reachable cq_init"
| cq_more: "cq_reachable s \<Longrightarrow> cq_step s s' \<Longrightarrow> cq_reachable s'"

section \<open>The invariant\<close>

text \<open>While a thread waits, every queued task has a thread that is already on its way.\<close>

definition cq_inv :: "cq_next \<Rightarrow> bool" where
  "cq_inv s \<longleftrightarrow> map snd (cq_delivered s) @ cq_queue s = cq_pushed s \<and> finite (cq_woken s) \<and> cq_waiting s \<inter> cq_woken s = {}
     \<and> (cq_waiting s \<noteq> {} \<longrightarrow> length (cq_queue s) \<le> card (cq_woken s))"

lemma cq_inv_locked:
  assumes "map snd (cq_delivered s) @ cq_queue s = cq_pushed s" and "finite (cq_woken s)"
    and "cq_waiting s \<inter> cq_woken s = {}" and "i \<notin> cq_woken s"
    and "cq_waiting s \<noteq> {} \<longrightarrow> length (cq_queue s) \<le> Suc (card (cq_woken s))"
  shows "cq_inv (cq_locked i s)"
proof (cases "cq_queue s")
  case Nil
  then show ?thesis using assms by (simp add: cq_inv_def cq_locked_def)
next
  case (Cons t q)
  then show ?thesis using assms by (simp add: cq_inv_def cq_locked_def)
qed

lemma cq_step_inv: "cq_step s s' \<Longrightarrow> cq_inv s \<Longrightarrow> cq_inv s'"
proof (induction rule: cq_step.induct)
  case (push_alone s t)
  then show ?case by (simp add: cq_inv_def cq_push_def)
next
  case (push_notify i s t)
  then have w: "i \<notin> cq_woken s" "finite (cq_woken s)" and l: "length (cq_queue s) \<le> card (cq_woken s)"
    and d: "(cq_waiting s - {i}) \<inter> insert i (cq_woken s) = {}" by (auto simp: cq_inv_def)
  have "card (insert i (cq_woken s)) = Suc (card (cq_woken s))" using w by simp
  with push_notify.prems w(2) l d show ?case by (simp add: cq_inv_def cq_push_def cq_wake_def flip: append_assoc del: Int_insert_right_if1 Int_insert_right)
next
  case (next_enter i s)
  then show ?case by (intro cq_inv_locked) (auto simp: cq_inv_def)
next
  case (next_again i s)
  then have c: "Suc (card (cq_woken s - {i})) = card (cq_woken s)" by (intro card_Suc_Diff1) (simp_all add: cq_inv_def)
  have "cq_waiting s \<inter> (cq_woken s - {i}) = {}" using next_again.prems by (auto simp: cq_inv_def)
  with c next_again.prems show ?case by (intro cq_inv_locked) (simp_all add: cq_inv_def)
next
  case (spurious i s)
  then have w: "i \<notin> cq_woken s" "finite (cq_woken s)" and l: "length (cq_queue s) \<le> card (cq_woken s)"
    and d: "(cq_waiting s - {i}) \<inter> insert i (cq_woken s) = {}" by (auto simp: cq_inv_def)
  have "card (insert i (cq_woken s)) = Suc (card (cq_woken s))" using w by simp
  with spurious.prems w(2) l d show ?case by (simp add: cq_inv_def cq_wake_def del: Int_insert_right_if1 Int_insert_right)
qed

lemma cq_reachable_inv: "cq_reachable s \<Longrightarrow> cq_inv s"
proof (induction rule: cq_reachable.induct)
  case cq_start
  then show ?case by (simp add: cq_inv_def cq_init_def)
next
  case (cq_more s s')
  then show ?case by (blast intro: cq_step_inv)
qed

section \<open>CompletionQueuePluck\<close>

text \<open>
  \<open>GetSyncContext\<close> gives each thread a context of its own, with a mutex and a condition variable:
  \<open>ctx\<close> is the context of a thread. \<open>pk_inside\<close> are the threads in the loop of \<open>Pluck\<close>, \<open>pk_waiting\<close> the ones
  of them in \<open>cond_.Wait()\<close>.
\<close>

record cq_pluck =
  pk_tasks :: "ptr \<rightharpoonup> CompletionTask"
  pk_inside :: "nat set"
  pk_waiting :: "nat set"

definition pluck_init :: cq_pluck where
  "pluck_init = \<lparr>pk_tasks = Map.empty, pk_inside = {}, pk_waiting = {}\<rparr>"

text \<open>\<open>cm_.insert\<close> keeps the task of a tag that is there already.\<close>

definition pluck_insert :: "CompletionTask \<Rightarrow> (ptr \<rightharpoonup> CompletionTask) \<Rightarrow> ptr \<rightharpoonup> CompletionTask" where
  "pluck_insert t cm = (case cm (task_tag t) of None \<Rightarrow> cm(task_tag t \<mapsto> t) | Some _ \<Rightarrow> cm)"

text \<open>One turn of the loop: the test of the map, and the wait when it is empty.\<close>

definition pluck_turn :: "nat \<Rightarrow> cq_pluck \<Rightarrow> cq_pluck" where
  "pluck_turn i s = (if pk_tasks s = Map.empty then s\<lparr>pk_waiting := insert i (pk_waiting s)\<rparr> else s)"

text \<open>What stands behind the loop: the result for \<open>ok\<close> and the removal of the task.\<close>

definition pluck_result :: "ptr \<Rightarrow> bool \<Rightarrow> (ptr \<rightharpoonup> CompletionTask) \<Rightarrow> bool option \<times> (ptr \<rightharpoonup> CompletionTask)" where
  "pluck_result tag want_ok cm =
     (if want_ok then Some (case cm tag of None \<Rightarrow> False | Some t \<Rightarrow> task_status t = CS_OK) else None, cm(tag := None))"

text \<open>
  \<open>Push\<close> notifies the condition variable of the context of the pushing thread: a thread that waits on
  that one is woken. There is no step that leaves the loop, as the code has no \<open>break\<close>.
\<close>

datatype pluck_event = Pushed nat CompletionTask | Entered nat | Turned nat | Spurious nat

inductive pluck_step :: "(nat \<Rightarrow> ptr) \<Rightarrow> pluck_event \<Rightarrow> cq_pluck \<Rightarrow> cq_pluck \<Rightarrow> bool" for ctx where
  pluck_push_alone: "i \<notin> pk_inside s \<Longrightarrow> \<forall>j \<in> pk_waiting s. ctx j \<noteq> ctx i \<Longrightarrow>
    pluck_step ctx (Pushed i t) s (s\<lparr>pk_tasks := pluck_insert t (pk_tasks s)\<rparr>)"
| pluck_push_notify: "i \<notin> pk_inside s \<Longrightarrow> j \<in> pk_waiting s \<Longrightarrow> ctx j = ctx i \<Longrightarrow>
    pluck_step ctx (Pushed i t) s (s\<lparr>pk_tasks := pluck_insert t (pk_tasks s), pk_waiting := pk_waiting s - {j}\<rparr>)"
| pluck_enter: "i \<notin> pk_inside s \<Longrightarrow> pluck_step ctx (Entered i) s (s\<lparr>pk_inside := insert i (pk_inside s)\<rparr>)"
| pluck_test: "i \<in> pk_inside s \<Longrightarrow> i \<notin> pk_waiting s \<Longrightarrow> pluck_step ctx (Turned i) s (pluck_turn i s)"
| pluck_spurious: "i \<in> pk_waiting s \<Longrightarrow> pluck_step ctx (Spurious i) s (s\<lparr>pk_waiting := pk_waiting s - {i}\<rparr>)"

inductive_cases pluck_stepE: "pluck_step ctx e s s'"

inductive pluck_run :: "(nat \<Rightarrow> ptr) \<Rightarrow> cq_pluck \<Rightarrow> pluck_event list \<Rightarrow> cq_pluck \<Rightarrow> bool" for ctx where
  pluck_none: "pluck_run ctx s [] s"
| pluck_more: "pluck_run ctx s es s' \<Longrightarrow> pluck_step ctx e s' s'' \<Longrightarrow> pluck_run ctx s (es @ [e]) s''"

definition pluck_inv :: "cq_pluck \<Rightarrow> bool" where
  "pluck_inv s \<longleftrightarrow> pk_waiting s \<subseteq> pk_inside s"

lemma pluck_step_keeps:
  assumes "pluck_step ctx e s s'" and "inj ctx" and "pluck_inv s"
  shows "pluck_inv s' \<and> pk_inside s \<subseteq> pk_inside s' \<and> pk_tasks s \<subseteq>\<^sub>m pk_tasks s'
    \<and> (\<forall>i. i \<in> pk_waiting s \<and> e \<noteq> Spurious i \<longrightarrow> i \<in> pk_waiting s')"
  using assms
  by (cases rule: pluck_step.cases)
    (auto simp: pluck_inv_def pluck_turn_def pluck_insert_def map_le_def inj_eq split: option.splits)

lemma pluck_run_keeps:
  assumes "pluck_run ctx s es s'" and "inj ctx" and "pluck_inv s"
  shows "pluck_inv s' \<and> pk_inside s \<subseteq> pk_inside s' \<and> pk_tasks s \<subseteq>\<^sub>m pk_tasks s'
    \<and> (\<forall>i. i \<in> pk_waiting s \<and> Spurious i \<notin> set es \<longrightarrow> i \<in> pk_waiting s')"
  using assms
proof (induction rule: pluck_run.induct)
  case (pluck_more s es s' e s'')
  then have IH: "pluck_inv s'" "pk_inside s \<subseteq> pk_inside s'" "pk_tasks s \<subseteq>\<^sub>m pk_tasks s'"
    "\<forall>i. i \<in> pk_waiting s \<and> Spurious i \<notin> set es \<longrightarrow> i \<in> pk_waiting s'" by auto
  from pluck_step_keeps [OF pluck_more.hyps(2) pluck_more.prems(1) IH(1)] IH show ?case
    by (auto intro: map_le_trans)
qed simp

section \<open>Properties\<close>

text \<open>
  C12: in every interleaving of pushes, calls of \<open>Next\<close>, notifications and spurious wake-ups, the tasks
  are delivered in the order in which they were pushed, none is lost or delivered twice; and no
  wake-up is lost: when a thread waits while the queue is not empty, another one has been woken, and
  its next step takes the front of the queue.
\<close>
theorem completion_queue_fifo:
  assumes "cq_reachable s"
  shows "map snd (cq_delivered s) @ cq_queue s = cq_pushed s
    \<and> (\<forall>t q. cq_waiting s \<noteq> {} \<and> cq_queue s = t # q \<longrightarrow>
        (\<exists>j s'. j \<in> cq_woken s \<and> cq_step s s' \<and> cq_delivered s' = cq_delivered s @ [(j, t)] \<and> cq_queue s' = q))"
proof -
  from assms have inv: "cq_inv s" by (rule cq_reachable_inv)
  have "\<exists>j s'. j \<in> cq_woken s \<and> cq_step s s' \<and> cq_delivered s' = cq_delivered s @ [(j, t)] \<and> cq_queue s' = q"
    if "cq_waiting s \<noteq> {}" and q: "cq_queue s = t # q" for t q
  proof -
    have "0 < card (cq_woken s)" using inv that by (auto simp: cq_inv_def)
    then obtain j where j: "j \<in> cq_woken s" by (metis card_gt_0_iff ex_in_conv)
    have "cq_delivered (cq_locked j (s\<lparr>cq_woken := cq_woken s - {j}\<rparr>)) = cq_delivered s @ [(j, t)]"
      "cq_queue (cq_locked j (s\<lparr>cq_woken := cq_woken s - {j}\<rparr>)) = q" using q by (simp_all add: cq_locked_def)
    with j next_again [OF j] show ?thesis by blast
  qed
  then show ?thesis using inv by (simp add: cq_inv_def)
qed

theorem completion_queue_fifo_witness:
  "\<exists>s. cq_reachable s \<and> cq_waiting s = {2} \<and> cq_woken s = {1} \<and> cq_queue s = [\<lparr>task_tag = 5, task_status = CS_OK\<rparr>]
    \<and> (\<exists>j s'. j \<in> cq_woken s \<and> cq_step s s' \<and> cq_delivered s' = [(j, \<lparr>task_tag = 5, task_status = CS_OK\<rparr>)] \<and> cq_queue s' = [])"
proof -
  let ?t = "\<lparr>task_tag = 5, task_status = CS_OK\<rparr>"
  let ?s1 = "cq_locked 1 cq_init"
  let ?s2 = "cq_locked 2 ?s1"
  let ?s3 = "cq_wake 1 (cq_push ?t ?s2)"
  have s: "?s1 = \<lparr>cq_queue = [], cq_waiting = {1}, cq_woken = {}, cq_delivered = [], cq_pushed = []\<rparr>"
    "?s2 = \<lparr>cq_queue = [], cq_waiting = {1, 2}, cq_woken = {}, cq_delivered = [], cq_pushed = []\<rparr>"
    "?s3 = \<lparr>cq_queue = [?t], cq_waiting = {2}, cq_woken = {1}, cq_delivered = [], cq_pushed = [?t]\<rparr>"
    by (auto simp: cq_locked_def cq_init_def cq_wake_def cq_push_def)
  have "cq_reachable ?s1" by (rule cq_more [OF cq_start next_enter]) (simp_all add: cq_init_def)
  then have "cq_reachable ?s2" by (rule cq_more [OF _ next_enter]) (unfold s(1), simp_all)
  then have r: "cq_reachable ?s3" by (rule cq_more [OF _ push_notify]) (unfold s(2), simp)
  note r = r [unfolded s(3)]
  show ?thesis using r completion_queue_fifo [OF r] by (intro exI [of _ "\<lparr>cq_queue = [?t], cq_waiting = {2}, cq_woken = {1}, cq_delivered = [], cq_pushed = [?t]\<rparr>"]) simp
qed

text \<open>
  C34: a thread that has called \<open>Pluck\<close> of a \<open>CompletionQueuePluck\<close> is inside it for good, whatever is
  pushed by whom; the tasks that were pushed stay where they are; and once it waits, no push of any
  thread wakes it, because the notification goes to the condition variable of the pushing thread:
  only a spurious wake-up ends the wait, and the loop then tests the map again.
\<close>
theorem pluck_never_delivers:
  assumes "inj ctx" and "pluck_run ctx pluck_init es s" and "pluck_run ctx s es' s'" and "i \<in> pk_inside s"
  shows "i \<in> pk_inside s' \<and> pk_tasks s \<subseteq>\<^sub>m pk_tasks s'
    \<and> (i \<in> pk_waiting s \<and> Spurious i \<notin> set es' \<longrightarrow> i \<in> pk_waiting s')"
proof -
  have "pluck_inv pluck_init" by (simp add: pluck_inv_def pluck_init_def)
  from pluck_run_keeps [OF assms(2,1) this] have "pluck_inv s" by blast
  from pluck_run_keeps [OF assms(3,1) this] assms(4) show ?thesis by blast
qed

theorem pluck_never_delivers_witness:
  "\<exists>s s'. pluck_run Suc pluck_init [Entered 1, Turned 1] s \<and> pk_waiting s = {1}
    \<and> pluck_run Suc s [Pushed 2 \<lparr>task_tag = 5, task_status = CS_OK\<rparr>] s' \<and> pk_tasks s' \<noteq> Map.empty
    \<and> 1 \<in> pk_inside s' \<and> 1 \<in> pk_waiting s'"
proof -
  let ?t = "\<lparr>task_tag = 5, task_status = CS_OK\<rparr>"
  let ?s1 = "\<lparr>pk_tasks = Map.empty, pk_inside = {1}, pk_waiting = {}\<rparr>"
  let ?s2 = "\<lparr>pk_tasks = Map.empty, pk_inside = {1}, pk_waiting = {1}\<rparr>"
  let ?s3 = "\<lparr>pk_tasks = [5 \<mapsto> ?t], pk_inside = {1}, pk_waiting = {1}\<rparr>"
  have "pluck_step Suc (Entered 1) pluck_init ?s1"
    using pluck_enter [of 1 pluck_init Suc] by (simp add: pluck_init_def)
  then have "pluck_run Suc pluck_init [Entered 1] ?s1"
    using pluck_more [OF pluck_none] by (metis append_Nil)
  moreover have "pluck_step Suc (Turned 1) ?s1 ?s2"
    using pluck_test [of 1 ?s1 Suc] by (simp add: pluck_turn_def)
  ultimately have r: "pluck_run Suc pluck_init [Entered 1, Turned 1] ?s2"
    using pluck_more by (metis append_Cons append_Nil)
  have "pluck_step Suc (Pushed 2 ?t) ?s2 ?s3"
    using pluck_push_alone [of 2 ?s2 Suc ?t] by (simp add: pluck_insert_def)
  then have r': "pluck_run Suc ?s2 [Pushed 2 ?t] ?s3"
    using pluck_more [OF pluck_none] by (metis append_Nil)
  have "1 \<in> pk_inside ?s3 \<and> 1 \<in> pk_waiting ?s3"
    using pluck_never_delivers [OF inj_Suc r r', of 1] by simp
  with r r' show ?thesis by fastforce
qed

end
