(* ===== verification/Spec2Isabelle.thy ===== *)
theory Spec2Isabelle
  imports Protocol_Props Client_Threads Slist_Refine Hash_Table_Props Hash_Set Avl_Quirks Avl_Print Array_Runs Block_Array Hash_Util No_Record_Allocator
    Blist_Props Tree_Hash_Iterator Configd_Props Mmbp_Raw_Props Completion_Queue
begin

text \<open>
  A verification development for mmkvc, the C++ client library of the mmkv key-value store: a client
  that sends requests to a server and gives each response to the callback of its request, the binary
  protocol (MMBP) they speak, a client of the configuration server that maps shards to nodes, and the
  containers all of that is built from. All paths below are under \<open>src/mmkv/\<close>.

  How code becomes definitions. A value of type \<open>option\<close> stands for an execution that may be
  undefined: \<open>None\<close> is undefined behaviour, a failed assertion, an abort or a loop that never ends, and
  \<open>Some\<close> means that none of these happens; a theorem that an operation is \<open>Some\<close> is a theorem that it
  returns. Exceptions are the left side of a sum. Objects linked by pointers live in an explicit heap, a
  partial map from addresses to nodes, with 0 as the null pointer; an operation that allocates takes the
  address of the new node as an argument (0 where \<open>malloc\<close> fails) and freeing a node removes it from the
  heap. Where the nodes of a list are abstracted to the sequence of their values, as in the buckets of
  \<open>HashTable\<close>, an argument \<open>node\<close> says instead whether there is memory for a node: without it the list,
  which does not check the address, is undefined. An argument \<open>ok\<close> says the same of the arrays of buckets,
  whose growing, shrinking and construction then throw \<open>bad_alloc\<close>. Sizes, codes and hash values are words of their width. Whatever is not in the repository is a
  parameter: the varint codec, the network buffers and the hash functions (\<open>Kanon\<close>, with the
  hypotheses \<open>kvarint_spec\<close> and \<open>kanon_buffer\<close>, which \<open>Kanon_Instance\<close> shows to be satisfiable), the
  allocator, the random numbers, the element types of the templates. \<open>Prelude\<close> holds the words, the heap
  and the lemma collections all theories share. \<open>Simulation\<close> is the interface of a component whose
  operations follow a specification step by step, as a locale in which whole runs are related once; the
  interfaces of the maps (\<open>Map_Spec\<close>) and of the deque (\<open>Deque_Spec\<close>) are instances of it, as are the arrays
  and the AVL dictionary.

  The protocol.
  \<^item> \<open>Command\<close>, \<open>Status\<close>: the codes and the tables of names of \<open>protocol/command.h\<close>, \<open>command.cc\<close>,
    \<open>status_code.h\<close> and \<open>status_code.cc\<close>.
  \<^item> \<open>Mmbp_Util\<close>: every \<open>ParseComponent\<close> over a \<open>Buffer\<close> and every \<open>SerializeComponent\<close> of
    \<open>protocol/mmbp_util.h\<close>, with \<open>type.h\<close>, \<open>key_value.h\<close> and \<open>conv.h\<close>. \<open>Mmbp_Wire\<close> gives the bytes of each
    component and shows that serializers append them (\<open>serialize_\<close>) and parsers read them back (\<open>reads_\<close>).
  \<^item> \<open>Mmbp_Request\<close>, \<open>Mmbp_Response\<close>: the messages, with the bits that say which fields are present.
  \<^item> \<open>Mmbp_Raw\<close>: the overloads over a raw region, \<open>ParseFrom(pp_data, len)\<close> and \<open>ParseFrom2\<close>.
    \<open>Mmbp_Raw_Wire\<close> reads the wire format with an account of what is taken off the size, and
    \<open>Mmbp_Raw_Props\<close> compares the two parsers of a request; it ends with the bit arrays of \<open>mmbp.h\<close>.
  \<^item> \<open>Mmbp_Codec\<close>, \<open>Mmbp_Frame\<close>: \<open>protocol/mmbp_codec.cc\<close>, sending a frame and the loop that receives frames,
    as a \<open>partial_function\<close>; the loop is shown to end on every input and to be a function of the bytes
    received so far (\<open>deframe\<close>), as long as these stay below \<open>MAX_SIZE\<close> (\<open>never_full\<close>).
  \<^item> \<open>Protocol_Props\<close>: round trips, the codec against its specification, and what the format does not carry.

  The clients.
  \<^item> \<open>Mmkv_Value\<close>: \<open>client/mmkv_value.cc\<close>, the tagged union a callback gets; the union is its alive member.
  \<^item> \<open>Mmkv_Client\<close>: \<open>client/mmkv_client.cc\<close>, the queues of callbacks and of requests, the events of the
    connection, and that responses reach the callbacks of their requests. \<open>Client_Threads\<close> interleaves the
    calls of several threads with the event loop at the granularity of the two mutexes; that a connection
    becomes visible to the calls, that its callback drains the queue, and that it is lost are three steps.
    It ends with the future of \<open>GetStr\<close>.
  \<^item> \<open>Configd_Client\<close>, \<open>Configd_Props\<close>: \<open>client/configd_client.cc\<close>, the table from shards to endpoints, an
    AVL dictionary; the messages are the fields of the two \<open>.proto\<close> files.
  \<^item> \<open>Completion_Queue\<close>: \<open>thread/\<close>, the queue of \<open>Next\<close> and the map of \<open>Pluck\<close> as step relations of the threads
    that push and take.

  The containers (\<open>algo/\<close>).
  \<^item> \<open>Slist\<close>, \<open>Slist_Refine\<close>: the singly linked list and its refinement of sequences.
  \<^item> \<open>Blist\<close>, \<open>Blist_Refine\<close>, \<open>Deque_Spec\<close>, \<open>Blist_Props\<close>: the doubly linked list; \<open>Deque_Spec\<close> is the
    interface of a double-ended queue as the locale \<open>deque\<close>, which is interpreted on the list.
  \<^item> \<open>Avl_Node\<close> (\<open>avl_util.h\<close>), \<open>Avl_Tree_Base\<close> (\<open>avl_tree_base.h\<close>, \<open>avl_tree_base_impl.h\<close>): the AVL tree on the heap,
    with parent links. \<open>Avl_Tree\<close>, \<open>Avl_Tree_Ops\<close> are the same trees as values, with their order and
    balance for any \<open>comparator\<close> (a locale, interpreted on the comparators of \<open>comparator_util.h\<close> in
    \<open>Comparators\<close>); \<open>Avl_Refine\<close>, \<open>Avl_Unlink\<close>, \<open>Avl_Tree_Refine\<close> and \<open>Avl_Tree_Walk\<close> relate the two;
    \<open>Avl_Props\<close> and \<open>Avl_Quirks\<close> have the properties. \<open>Avl_Reuse\<close> is \<open>ReuseAllNodes\<close> with any callback: the
    locale \<open>ordered_sink\<close> states what the callback has to promise about the nodes as they come, in
    post-order, and \<open>node_sink\<close> is the case where their order does not matter. They are interpreted on a
    callback that collects the nodes, on one that pushes them to another tree (\<open>Avl_Quirks\<close>) and on that of
    the rehash (\<open>Tree_Hash_Rehash\<close>). \<open>Avl_Print\<close> is the drawing of a tree.
  \<^item> \<open>Bucket\<close>: what a hash table needs of its buckets. \<open>Hash_Table\<close> and \<open>Hash_Table_Iterator\<close>: the table with
    incremental rehash whose buckets are lists; \<open>Hash_Table_Inv\<close>, \<open>Hash_Table_Ops\<close>: its invariant (the shape
    of the two tables, that every entry is in the bucket of its hash, that keys are unique, the count, the
    load) and every operation; \<open>Map_Spec\<close>: the finite map it refines; \<open>Hash_Table_Props\<close>, \<open>Hash_Set\<close>: the
    properties, with \<open>hash_set.h\<close> and \<open>dictionary.h\<close>.
  \<^item> \<open>Tree_Hash_Table\<close>, \<open>Tree_Hash_Iterator\<close>: the table whose buckets are AVL trees on one heap, and
    \<open>avl_dictionary.h\<close>. \<open>Tree_Bucket\<close> and \<open>Tree_Hash_Inv\<close> relate a bucket, and the forest of all buckets, to
    trees as values; \<open>Tree_Hash_Rehash\<close> maps the table to a \<open>HashTable\<close> of lists of values, so that
    \<open>Tree_Hash_Ops\<close>, \<open>Tree_Hash_Update\<close> and \<open>Tree_Hash_Erase\<close> can use the invariant of \<open>Hash_Table_Inv\<close>;
    \<open>Tree_Hash_Clear\<close> is \<open>Clear\<close> and \<open>ClearApply\<close>; \<open>Tree_Hash_Props\<close> has the properties. \<open>Tree_Hash_Value\<close>
    writes a value in place; \<open>Hash_Util\<close> has the hash functions of keys; and \<open>Avl_Dictionary\<close> shows the dictionary to be a map from keys to values.
  \<^item> \<open>Memory_Util\<close>, \<open>Reserved_Array\<close>, \<open>Reserved_Array_Props\<close>: the allocator with its statistics
    (\<open>util/memory_util.h\<close>, \<open>algo/libc_allocator_with_realloc.h\<close>) and the array whose capacity is its size, on
    blocks of cells that hold an object or nothing; \<open>Array_Runs\<close> refines sequences of operations to a list.
    \<open>No_Record_Allocator\<close> is the allocator without the statistics.
  \<^item> \<open>Block_Array\<close>: what can be instantiated of the unfinished \<open>algo/block_array.h\<close>.

  What the groups of lemmas show. For each container there is a relation between its state and a
  mathematical value (\<open>slist_at\<close>, \<open>blist_at\<close>, \<open>rooted\<close>, \<open>ht_inv\<close> with \<open>entries\<close>, \<open>tht_ok\<close> with
  \<open>tht_entries\<close>, \<open>array_of\<close>); one lemma per operation says that it is defined on related states, what it
  returns and what it does to the value, and which part of the heap it leaves alone; the properties
  compose these over arbitrary sequences of operations. For the protocol the parsers are inverses of the
  serializers on messages that fit the format. For the clients there are invariants of step relations,
  by induction over what is reachable. Where the code does not do what it should, a theorem says what it
  does instead.

  Bounds. The tables are shown correct for up to 2^60 entries, and sequences of up to 2^60 operations,
  which keeps the doubling of the bucket array within \<open>size_t\<close>, with allocations that succeed; the
  properties of single operations (\<open>hash_insert\<close>, \<open>tree_clear_visits_all\<close>) say what happens when they do
  not. The codec is shown correct while what it has received and not yet handled stays below 64 MB, above
  which it discards everything; the doubly linked list for as many
  operations as its count has values. No fuel is used: a loop is a structural recursion, a \<open>function\<close> with
  a measure, or a \<open>partial_function\<close> that is then shown to end.

  Not modelled. The destructor of \<open>BlockArray\<close> and \<open>destory_entries\<close> call functions that do not exist and
  cannot be instantiated. \<open>util/move_only_function.h\<close> and \<open>zstl/\<close> beyond \<open>uninitialized.h\<close> are type
  erasure and type traits. The log output, \<open>DebugPrint\<close> of the tables and \<open>load_factor\<close>, which divides by a member
  function and cannot be instantiated, are left out, and so are the TCP connection, the event loop and the protobuf runtime, which are
  third-party code; their effect on the clients is given by events. Memory is that of one thread,
  except in \<open>Client_Threads\<close> and \<open>Completion_Queue\<close>, where a step is what runs under a mutex.
\<close>

end
